(* ===== verification/Prelude.thy ===== *)
theory Prelude
  imports Main "HOL-Library.Word"
begin

unbundle bit_operations_syntax

text \<open>
  Shared vocabulary of the development: the machine types of the C code, the array
  writes of its loops, and the generic facts about them. A C array is a list, a write
  \<open>d[i] = v\<close> is the list update \<open>d[i := v]\<close>, a write \<open>d[i][p] = v\<close> to an array of
  arrays is \<open>upd2\<close>. A loop nest that fills an array is a fold of such writes; the
  collection \<open>loop_simps\<close> holds the rules that read an element back after the loop.
\<close>

section \<open>Machine types\<close>

type_synonym byte = "8 word"
type_synonym int16 = "16 word"
type_synonym int32 = "32 word"

named_theorems loop_simps "reading back an array after a filling loop"
named_theorems bit_rules "bit-level readings of the byte operations"
named_theorems param_simps "the constants of the configuration"

section \<open>Array writes\<close>

definition upd2 :: "nat \<Rightarrow> nat \<Rightarrow> 'a \<Rightarrow> 'a list list \<Rightarrow> 'a list list" where
  "upd2 i p v d = d[i := (d ! i)[p := v]]"

lemma length_upd2 [simp]: "length (upd2 i p v d) = length d"
  by (simp add: upd2_def)

lemma length_row_upd2 [simp]: "length (upd2 i p v d ! j) = length (d ! j)"
  by (cases "i = j"; cases "i < length d") (auto simp: upd2_def list_update_beyond)

lemma upd2_same [simp]:
  "i < length d \<Longrightarrow> p < length (d ! i) \<Longrightarrow> upd2 i p v d ! i ! p = v"
  by (simp add: upd2_def)

lemma upd2_other: "(i, p) \<noteq> (j, q) \<Longrightarrow> upd2 i p v d ! j ! q = d ! j ! q"
  by (cases "i = j"; cases "i < length d") (auto simp: upd2_def list_update_beyond)

text \<open>A list of writes \<open>(row, position, value)\<close>, performed in order.\<close>

definition writes2 :: "(nat \<times> nat \<times> 'a) list \<Rightarrow> 'a list list \<Rightarrow> 'a list list" where
  "writes2 ws d = fold (\<lambda>(i, p, v). upd2 i p v) ws d"

lemma writes2_Nil [simp]: "writes2 [] d = d"
  by (simp add: writes2_def)

lemma writes2_Cons [simp]: "writes2 ((i, p, v) # ws) d = writes2 ws (upd2 i p v d)"
  by (simp add: writes2_def)

lemma writes2_append [simp]: "writes2 (xs @ ys) d = writes2 ys (writes2 xs d)"
  by (simp add: writes2_def)

lemma length_writes2 [simp]: "length (writes2 ws d) = length d"
  by (induction ws arbitrary: d) auto

lemma length_row_writes2 [simp]: "length (writes2 ws d ! j) = length (d ! j)"
  by (induction ws arbitrary: d) auto

lemma writes2_untouched [loop_simps]:
  "(\<And>v. (j, q, v) \<notin> set ws) \<Longrightarrow> writes2 ws d ! j ! q = d ! j ! q"
proof (induction ws arbitrary: d)
  case Nil
  then show ?case by simp
next
  case (Cons w ws)
  obtain i p v where w: "w = (i, p, v)" by (cases w)
  with Cons.prems have "(i, p) \<noteq> (j, q)" by auto
  with Cons w show ?case by (simp add: upd2_other)
qed

text \<open>A written cell holds the value of its writes, when these agree.\<close>

lemma writes2_written:
  assumes "(i, p, v) \<in> set ws" and "\<And>u. (i, p, u) \<in> set ws \<Longrightarrow> u = v"
    and "i < length d" and "p < length (d ! i)"
  shows "writes2 ws d ! i ! p = v"
  using assms
proof (induction ws arbitrary: d)
  case Nil
  from Nil.prems(1) show ?case by simp
next
  case (Cons w ws)
  obtain i' p' v' where w: "w = (i', p', v')" by (cases w)
  show ?case
  proof (cases "(i, p, v) \<in> set ws")
    case True
    have "u = v" if "(i, p, u) \<in> set ws" for u
      by (rule Cons.prems(2)) (simp add: that)
    from Cons.IH [OF True this, of "upd2 i' p' v' d"] Cons.prems(3,4)
    show ?thesis by (simp add: w)
  next
    case False
    then have "(i, p, u) \<notin> set ws" for u
      using Cons.prems(2) [of u] by (metis list.set_intros(2))
    moreover have "w = (i, p, v)" using False Cons.prems(1) by simp
    ultimately show ?thesis using Cons.prems(3,4) by (simp add: writes2_untouched)
  qed
qed

text \<open>
  The nested loops \<open>for k: for i: d[i][f i k] = v i k\<close>, and the same with the loops the
  other way round, as lists of writes, and the value found at a position of a row when the
  positions of each row are all different.
\<close>

definition nest_writes :: "nat \<Rightarrow> nat \<Rightarrow> (nat \<Rightarrow> nat \<Rightarrow> nat) \<Rightarrow> (nat \<Rightarrow> nat \<Rightarrow> 'a)
    \<Rightarrow> (nat \<times> nat \<times> 'a) list" where
  "nest_writes n m f v = concat (map (\<lambda>k. map (\<lambda>i. (i, f i k, v i k)) [0..<m]) [0..<n])"

definition nest_writes_rows :: "nat \<Rightarrow> nat \<Rightarrow> (nat \<Rightarrow> nat \<Rightarrow> nat) \<Rightarrow> (nat \<Rightarrow> nat \<Rightarrow> 'a)
    \<Rightarrow> (nat \<times> nat \<times> 'a) list" where
  "nest_writes_rows n m f v = concat (map (\<lambda>i. map (\<lambda>k. (i, f i k, v i k)) [0..<n]) [0..<m])"

lemma set_nest_writes:
  "set (nest_writes n m f v) = {(i, f i k, v i k) | i k. k < n \<and> i < m}"
  "set (nest_writes_rows n m f v) = {(i, f i k, v i k) | i k. k < n \<and> i < m}"
  by (force simp: nest_writes_def nest_writes_rows_def)+

lemma fold_writes2_concat:
  "fold (\<lambda>k. writes2 (ws k)) ks d = writes2 (concat (map ws ks)) d"
  by (induction ks arbitrary: d) simp_all

lemma fold_fold_nest:
  "fold (\<lambda>k. fold (\<lambda>i. upd2 i (f i k) (v i k)) [0..<m]) [0..<n] d
     = writes2 (nest_writes n m f v) d"
  "fold (\<lambda>i. fold (\<lambda>k. upd2 i (f i k) (v i k)) [0..<n]) [0..<m] d
     = writes2 (nest_writes_rows n m f v) d"
proof -
  have "fold (\<lambda>i. upd2 i (f i k) (v i k)) [0..<m]
      = writes2 (map (\<lambda>i. (i, f i k, v i k)) [0..<m])" for k
    by (rule ext) (simp add: writes2_def fold_map comp_def)
  then show "fold (\<lambda>k. fold (\<lambda>i. upd2 i (f i k) (v i k)) [0..<m]) [0..<n] d
     = writes2 (nest_writes n m f v) d"
    by (simp add: nest_writes_def fold_writes2_concat)
  have "fold (\<lambda>k. upd2 i (f i k) (v i k)) [0..<n]
      = writes2 (map (\<lambda>k. (i, f i k, v i k)) [0..<n])" for i
    by (rule ext) (simp add: writes2_def fold_map comp_def)
  then show "fold (\<lambda>i. fold (\<lambda>k. upd2 i (f i k) (v i k)) [0..<n]) [0..<m] d
     = writes2 (nest_writes_rows n m f v) d"
    by (simp add: nest_writes_rows_def fold_writes2_concat)
qed

lemma nest_written:
  assumes "i < m" "k < n" "inj_on (f i) {..<n}" and "i < length d" "f i k < length (d ! i)"
  shows "writes2 (nest_writes n m f v) d ! i ! f i k = v i k"
    and "writes2 (nest_writes_rows n m f v) d ! i ! f i k = v i k"
proof -
  let ?S = "{(i, f i k, v i k) | i k. k < n \<and> i < m}"
  have mem: "(i, f i k, v i k) \<in> ?S" using assms(1,2) by blast
  have uniq: "u = v i k" if "(i, f i k, u) \<in> ?S" for u
  proof -
    from that obtain l where l: "l < n" "f i k = f i l" "u = v i l" by blast
    with assms(2,3) have "k = l" by (simp add: inj_on_eq_iff)
    with l show ?thesis by simp
  qed
  show "writes2 (nest_writes n m f v) d ! i ! f i k = v i k"
    and "writes2 (nest_writes_rows n m f v) d ! i ! f i k = v i k"
    by (rule writes2_written, unfold set_nest_writes, rule mem, erule uniq, rule assms(4),
        rule assms(5))+
qed

lemma nest_untouched:
  assumes "\<And>k. k < n \<Longrightarrow> i < m \<Longrightarrow> f i k \<noteq> p"
  shows "writes2 (nest_writes n m f v) d ! i ! p = d ! i ! p"
    and "writes2 (nest_writes_rows n m f v) d ! i ! p = d ! i ! p"
  using assms by (intro writes2_untouched; auto simp: set_nest_writes)+

section \<open>Filling loops over one array\<close>

text \<open>Writing a block from the start of a buffer; \<open>None\<close> when it does not fit.\<close>

definition write_prefix :: "'a list \<Rightarrow> 'a list \<Rightarrow> 'a list option" where
  "write_prefix buf outs =
     (if length outs \<le> length buf then Some (outs @ drop (length outs) buf) else None)"

lemma take_write_prefix:
  "write_prefix buf outs = Some b \<Longrightarrow> n \<le> length outs \<Longrightarrow> take n b = take n outs"
  by (auto simp: write_prefix_def split: if_splits)

lemma add_mod_inj:
  fixes a b c s :: nat
  assumes "(a + c) mod s = (b + c) mod s" "a < s" "b < s"
  shows "a = b"
proof -
  have le: "x = y" if "x \<le> y" "(x + c) mod s = (y + c) mod s" "y < s" for x y
  proof -
    have "s dvd (y + c) - (x + c)"
      using that(1,2) by (metis add_le_mono1 mod_eq_dvd_iff_nat)
    moreover have "(y + c) - (x + c) < s" using that by simp
    ultimately show ?thesis using that(1) by (auto dest: nat_dvd_not_less)
  qed
  show ?thesis using assms le [of a b] le [of b a] by (metis nat_le_linear)
qed

lemma concat_blocks_nth:
  "(\<And>i. i < n \<Longrightarrow> length (f i) = L) \<Longrightarrow> i < n \<Longrightarrow> j < L \<Longrightarrow> concat (map f [0..<n]) ! (i * L + j) = f i ! j"
proof (induction n)
  case 0
  then show ?case by simp
next
  case (Suc n)
  have len: "length (concat (map f [0..<n])) = n * L" using Suc.prems(1) by (induction n) auto
  show ?case
  proof (cases "i = n")
    case True
    then show ?thesis by (simp add: nth_append len)
  next
    case False
    then have "i < n" using Suc.prems(2) by simp
    then have "i * L + j < n * L" using Suc.prems(3) mult_le_mono1 [of "Suc i" n L] by simp
    then show ?thesis using Suc.IH Suc.prems \<open>i < n\<close> by (simp add: nth_append len)
  qed
qed

lemma fold_fill:
  "n \<le> length xs \<Longrightarrow>
    fold (\<lambda>j xs. xs[j := f j (xs ! j)]) [0..<n] xs = map (\<lambda>j. f j (xs ! j)) [0..<n] @ drop n xs"
proof (induction n)
  case 0
  then show ?case by simp
next
  case (Suc n)
  then show ?case
    by (simp add: nth_append list_update_append Cons_nth_drop_Suc [symmetric])
qed

lemma fold_fill_all [loop_simps]:
  "length xs = n \<Longrightarrow>
    fold (\<lambda>j xs. xs[j := f j (xs ! j)]) [0..<n] xs = map (\<lambda>j. f j (xs ! j)) [0..<n]"
  by (simp add: fold_fill)

lemma fold_fill_const [loop_simps]:
  "length xs = n \<Longrightarrow> fold (\<lambda>j xs. xs[j := f j]) [0..<n] xs = map f [0..<n]"
  by (rule fold_fill_all)

text \<open>
  A table of rows filled by two nested loops, the row number held in a machine counter
  that is incremented after each row.
\<close>

lemma fill_row:
  assumes "i < length ch" "length (ch ! i) = m"
  shows "fold (\<lambda>j ch. upd2 i j (f (ch ! i ! j) j) ch) [0..<m] ch
    = ch[i := map (\<lambda>j. f (ch ! i ! j) j) [0..<m]]"
proof -
  have "fold (\<lambda>j ch. upd2 i j (f (ch ! i ! j) j) ch) [0..<n] ch
      = ch[i := fold (\<lambda>j row. row[j := f (row ! j) j]) [0..<n] (ch ! i)]" for n
    using assms(1) by (induction n) (simp_all add: upd2_def)
  then show ?thesis using fold_fill_all [OF assms(2), of "\<lambda>j x. f x j"] by simp
qed

lemma counter_table_nth:
  fixes f :: "'a \<Rightarrow> 'w::len word \<Rightarrow> nat \<Rightarrow> 'a"
  assumes "length chart = N" "\<And>k. k < N \<Longrightarrow> length (chart ! k) = m"
    and "k < N" "j < m" "N \<le> 2 ^ LENGTH('w)"
  shows "snd (fold (\<lambda>k (i, ch). (i + 1,
      fold (\<lambda>j ch. upd2 (unat i) j (f (ch ! unat i ! j) i j) ch) [0..<m] ch))
      [0..<N] (0, chart)) ! k ! j = f (chart ! k ! j) (of_nat k) j"
proof -
  let ?row = "\<lambda>k. map (\<lambda>j. f (chart ! k ! j) (of_nat k) j) [0..<m]"
  let ?body = "\<lambda>k (i, ch). (i + 1,
      fold (\<lambda>j ch. upd2 (unat i) j (f (ch ! unat i ! j) i j) ch) [0..<m] ch)"
  have "n \<le> N \<Longrightarrow> fold ?body [0..<n] (0 :: 'w word, chart)
      = (of_nat n, map ?row [0..<n] @ drop n chart)" for n
  proof (induction n)
    case 0
    then show ?case by simp
  next
    case (Suc n)
    let ?ch = "map ?row [0..<n] @ drop n chart"
    have u: "unat (of_nat n :: 'w word) = n"
      using Suc.prems assms(5) by (simp add: unat_of_nat take_bit_nat_eq_self_iff)
    have row: "?ch ! n = chart ! n" and len: "n < length ?ch"
      using assms(1) Suc.prems by (simp_all add: nth_append)
    have fill: "fold (\<lambda>j ch. upd2 n j (f (ch ! n ! j) (of_nat n) j) ch)
        [0..<m] ?ch = ?ch[n := ?row n]"
      using fill_row [of n ?ch m "\<lambda>x j. f x (of_nat n) j"] row len assms(2) Suc.prems by simp
    have "?ch[n := ?row n] = map ?row [0..<Suc n] @ drop (Suc n) chart"
      using assms(1) Suc.prems
      by (simp add: list_update_append Cons_nth_drop_Suc [symmetric])
    with Suc fill show ?case by (simp add: u)
  qed
  from this [of N] show ?thesis
    using assms by (simp del: upt_Suc)
qed

lemma upt_16: "[0..<16] = [0, 1, 2, 3, 4, 5, 6, 7, 8, 9, 10, 11, 12, 13, 14, 15::nat]"
  by (simp add: upt_rec)

lemma upt_8: "[0..<8] = [0, 1, 2, 3, 4, 5, 6, 7::nat]"
  by (simp add: upt_rec)

lemma upt_7: "[0..<7] = [0, 1, 2, 3, 4, 5, 6::nat]"
  by (simp add: upt_rec)

lemma upt_6: "[0..<6] = [0, 1, 2, 3, 4, 5::nat]"
  by (simp add: upt_rec)

lemma list7_cases:
  assumes "length r = 7"
  obtains a b c d e f g where "r = [a, b, c, d, e, f, g]"
  using assms by (auto simp: numeral_eq_Suc length_Suc_conv)

section \<open>Bits of a byte\<close>

definition byte_bits :: "byte \<Rightarrow> bool list" where
  "byte_bits b = map (bit b) [0..<8]"

definition bytes_bits :: "byte list \<Rightarrow> bool list" where
  "bytes_bits bs = concat (map byte_bits bs)"

lemma length_byte_bits [simp]: "length (byte_bits b) = 8"
  by (simp add: byte_bits_def)

lemma nth_byte_bits [simp]: "i < 8 \<Longrightarrow> byte_bits b ! i = bit b i"
  by (simp add: byte_bits_def)

lemma byte_bits_inj: "byte_bits a = byte_bits b \<longleftrightarrow> a = b"
proof
  assume eq: "byte_bits a = byte_bits b"
  show "a = b"
  proof (rule bit_word_eqI)
    fix n
    assume "n < LENGTH(8)"
    then show "bit a n = bit b n"
      using eq nth_byte_bits [of n a] nth_byte_bits [of n b] by simp
  qed
qed simp

lemma bytes_bits_Nil [simp]: "bytes_bits [] = []"
  by (simp add: bytes_bits_def)

lemma bytes_bits_Cons [simp]: "bytes_bits (b # bs) = byte_bits b @ bytes_bits bs"
  by (simp add: bytes_bits_def)

lemma bytes_bits_append [simp]: "bytes_bits (xs @ ys) = bytes_bits xs @ bytes_bits ys"
  by (simp add: bytes_bits_def)

lemma length_bytes_bits [simp]: "length (bytes_bits bs) = 8 * length bs"
  by (induction bs) auto

lemma bytes_bits_inj: "length xs = length ys \<Longrightarrow> bytes_bits xs = bytes_bits ys \<longleftrightarrow> xs = ys"
  by (induction xs ys rule: list_induct2) (auto simp: byte_bits_inj)

lemma unat_byte: "unat (b :: byte) < 256"
proof -
  have "unat b < 2 ^ LENGTH(8)" by (rule unsigned_less)
  then show ?thesis by simp
qed

lemma and_bit_nonzero [bit_rules]:
  "k < LENGTH('a) \<Longrightarrow> (c :: 'a::len word) AND push_bit k 1 \<noteq> 0 \<longleftrightarrow> bit c k"
  by (simp add: bit_iff_and_push_bit_not_eq_0)

end
