(* ===== verification/Ring.thy ===== *)
theory Ring
  imports Prelude
begin

text \<open>
  The ring buffer between the threads, \<^verbatim>\<open>lib/librte_ring/rte_ring.h\<close> of the DPDK copy in
  the repository: a table of \<open>2 ^ k\<close> cells and four indices that run modulo \<open>2 ^ 32\<close>. This
  theory models the calls one at a time (\<^verbatim>\<open>Spsc.thy\<close> interleaves the steps of a producer
  and a consumer). The abstract view is the list of the queued objects, and the locale \<open>queue\<close>
  is the contract the pipelines rely on.
\<close>

section \<open>The structure\<close>

text \<open>Name, flags and memory zone take no part in the operations.\<close>

record 'a rte_ring =
  watermark :: int32
  sp_enqueue :: bool
  sc_dequeue :: bool
  prod_size :: int32
  prod_mask :: int32
  prod_head :: int32
  prod_tail :: int32
  cons_size :: int32
  cons_mask :: int32
  cons_head :: int32
  cons_tail :: int32
  cells :: "'a list"

datatype queue_behavior = QUEUE_FIXED | QUEUE_VARIABLE

definition RING_F_SP_ENQ :: int32 where
  "RING_F_SP_ENQ = 1"

definition RING_F_SC_DEQ :: int32 where
  "RING_F_SC_DEQ = 2"

definition RTE_RING_SZ_MASK :: int32 where
  "RTE_RING_SZ_MASK = 0x0fffffff"

definition RTE_RING_QUOT_EXCEED :: int32 where
  "RTE_RING_QUOT_EXCEED = push_bit 31 1"

definition POWEROF2 :: "int32 \<Rightarrow> bool" where
  "POWEROF2 x = ((x - 1) AND x = 0)"

text \<open>The error codes, as \<^verbatim>\<open>errno.h\<close> has them.\<close>

definition ENOBUFS :: int where
  "ENOBUFS = 105"

definition EDQUOT :: int where
  "EDQUOT = 122"

definition ENOENT :: int where
  "ENOENT = 2"

text \<open>The memory behind the structure is an argument: \<open>junk\<close> holds the \<open>count\<close> cells.\<close>

definition rte_ring_init :: "int32 \<Rightarrow> int32 \<Rightarrow> 'a list \<Rightarrow> 'a rte_ring" where
  "rte_ring_init count flags junk =
     \<lparr>watermark = count, sp_enqueue = (flags AND RING_F_SP_ENQ \<noteq> 0),
      sc_dequeue = (flags AND RING_F_SC_DEQ \<noteq> 0),
      prod_size = count, prod_mask = count - 1, prod_head = 0, prod_tail = 0,
      cons_size = count, cons_mask = count - 1, cons_head = 0, cons_tail = 0, cells = junk\<rparr>"

text \<open>\<open>None\<close> is the null pointer, for a size that is not a power of two or too large; memory
  is taken to suffice.\<close>

definition rte_ring_create :: "int32 \<Rightarrow> int32 \<Rightarrow> 'a list \<Rightarrow> 'a rte_ring option" where
  "rte_ring_create count flags junk =
     (if \<not> POWEROF2 count \<or> count > RTE_RING_SZ_MASK then None
      else Some (rte_ring_init count flags junk))"

section \<open>Copying the objects\<close>

text \<open>The unrolled loop and the switch after it copy the objects in order, one at a time.\<close>

definition ENQUEUE_PTRS :: "int32 \<Rightarrow> 'a list \<Rightarrow> 'a rte_ring \<Rightarrow> 'a list" where
  "ENQUEUE_PTRS phead objs r =
     (let size = prod_size r;
          idx = phead AND prod_mask r;
          n = length objs
      in if idx + of_nat n < size
         then fold (\<lambda>i ring. ring[unat idx + i := objs ! i]) [0..<n] (cells r)
         else let k = unat size - unat idx
              in fold (\<lambda>i ring. ring[i - k := objs ! i]) [k..<n]
                   (fold (\<lambda>i ring. ring[unat idx + i := objs ! i]) [0..<k] (cells r)))"

definition DEQUEUE_PTRS :: "int32 \<Rightarrow> nat \<Rightarrow> 'a rte_ring \<Rightarrow> 'a list" where
  "DEQUEUE_PTRS chead n r =
     (let size = cons_size r;
          idx = chead AND prod_mask r
      in if idx + of_nat n < size then map (\<lambda>i. cells r ! (unat idx + i)) [0..<n]
         else let k = unat size - unat idx
              in map (\<lambda>i. cells r ! (unat idx + i)) [0..<k] @ map (\<lambda>i. cells r ! (i - k)) [k..<n])"

section \<open>Enqueue and dequeue\<close>

text \<open>The room check: how many objects go in, or the value returned at once.\<close>

definition enq_count :: "queue_behavior \<Rightarrow> nat \<Rightarrow> int32 \<Rightarrow> int + nat" where
  "enq_count behavior n free_entries =
     (if of_nat n > free_entries then
        (if behavior = QUEUE_FIXED then Inl (- ENOBUFS)
         else if free_entries = 0 then Inl 0 else Inr (unat free_entries))
      else Inr n)"

definition enq_ret :: "queue_behavior \<Rightarrow> nat \<Rightarrow> int32 \<Rightarrow> 'a rte_ring \<Rightarrow> int" where
  "enq_ret behavior n free_entries r =
     (if (prod_mask r + 1) - free_entries + of_nat n > watermark r
      then (if behavior = QUEUE_FIXED then - EDQUOT
            else sint (of_nat n OR RTE_RING_QUOT_EXCEED))
      else (if behavior = QUEUE_FIXED then 0 else int n))"

definition sp_do_enqueue :: "'a list \<Rightarrow> queue_behavior \<Rightarrow> 'a rte_ring \<Rightarrow> int \<times> 'a rte_ring" where
  "sp_do_enqueue objs behavior r =
     (let phead = prod_head r;
          free_entries = prod_mask r + cons_tail r - phead
      in case enq_count behavior (length objs) free_entries of
           Inl e \<Rightarrow> (e, r)
         | Inr n \<Rightarrow>
             (let pnext = phead + of_nat n;
                  r = r\<lparr>prod_head := pnext\<rparr>;
                  r = r\<lparr>cells := ENQUEUE_PTRS phead (take n objs) r\<rparr>
              in (enq_ret behavior n free_entries r, r\<lparr>prod_tail := pnext\<rparr>)))"

text \<open>The version for several producers, run alone: the compare-and-set then succeeds at
  once, and the wait for earlier producers ends at once or never, which is \<open>None\<close>.\<close>

definition mp_do_enqueue :: "'a list \<Rightarrow> queue_behavior \<Rightarrow> 'a rte_ring \<Rightarrow> (int \<times> 'a rte_ring) option" where
  "mp_do_enqueue objs behavior r =
     (if length objs = 0 then Some (0, r)
      else let phead = prod_head r;
               free_entries = prod_mask r + cons_tail r - phead
           in case enq_count behavior (length objs) free_entries of
                Inl e \<Rightarrow> Some (e, r)
              | Inr n \<Rightarrow>
                  (let pnext = phead + of_nat n;
                       r = r\<lparr>prod_head := pnext\<rparr>;
                       r = r\<lparr>cells := ENQUEUE_PTRS phead (take n objs) r\<rparr>
                   in if prod_tail r \<noteq> phead then None
                      else Some (enq_ret behavior n free_entries r, r\<lparr>prod_tail := pnext\<rparr>)))"

definition deq_count :: "queue_behavior \<Rightarrow> nat \<Rightarrow> int32 \<Rightarrow> int + nat" where
  "deq_count behavior n entries =
     (if of_nat n > entries then
        (if behavior = QUEUE_FIXED then Inl (- ENOENT)
         else if entries = 0 then Inl 0 else Inr (unat entries))
      else Inr n)"

text \<open>The objects are returned; a failed call leaves the caller's table as it was.\<close>

definition sc_do_dequeue :: "nat \<Rightarrow> queue_behavior \<Rightarrow> 'a rte_ring \<Rightarrow> int \<times> 'a list \<times> 'a rte_ring" where
  "sc_do_dequeue n behavior r =
     (let chead = cons_head r;
          entries = prod_tail r - chead
      in case deq_count behavior n entries of
           Inl e \<Rightarrow> (e, [], r)
         | Inr n \<Rightarrow>
             (let cnext = chead + of_nat n;
                  r = r\<lparr>cons_head := cnext\<rparr>;
                  objs = DEQUEUE_PTRS chead n r
              in (if behavior = QUEUE_FIXED then 0 else int n, objs, r\<lparr>cons_tail := cnext\<rparr>)))"

definition mc_do_dequeue :: "nat \<Rightarrow> queue_behavior \<Rightarrow> 'a rte_ring \<Rightarrow> (int \<times> 'a list \<times> 'a rte_ring) option" where
  "mc_do_dequeue n behavior r =
     (if n = 0 then Some (0, [], r)
      else let chead = cons_head r;
               entries = prod_tail r - chead
           in case deq_count behavior n entries of
                Inl e \<Rightarrow> Some (e, [], r)
              | Inr n \<Rightarrow>
                  (let cnext = chead + of_nat n;
                       r = r\<lparr>cons_head := cnext\<rparr>;
                       objs = DEQUEUE_PTRS chead n r
                   in if cons_tail r \<noteq> chead then None
                      else Some (if behavior = QUEUE_FIXED then 0 else int n, objs,
                        r\<lparr>cons_tail := cnext\<rparr>)))"

section \<open>The calls of the pipelines\<close>

definition rte_ring_enqueue_bulk :: "'a list \<Rightarrow> 'a rte_ring \<Rightarrow> (int \<times> 'a rte_ring) option" where
  "rte_ring_enqueue_bulk objs r =
     (if sp_enqueue r then Some (sp_do_enqueue objs QUEUE_FIXED r)
      else mp_do_enqueue objs QUEUE_FIXED r)"

definition rte_ring_enqueue :: "'a \<Rightarrow> 'a rte_ring \<Rightarrow> (int \<times> 'a rte_ring) option" where
  "rte_ring_enqueue obj r =
     (if sp_enqueue r then Some (sp_do_enqueue [obj] QUEUE_FIXED r)
      else mp_do_enqueue [obj] QUEUE_FIXED r)"

definition rte_ring_dequeue_bulk :: "nat \<Rightarrow> 'a rte_ring \<Rightarrow> (int \<times> 'a list \<times> 'a rte_ring) option" where
  "rte_ring_dequeue_bulk n r =
     (if sc_dequeue r then Some (sc_do_dequeue n QUEUE_FIXED r)
      else mc_do_dequeue n QUEUE_FIXED r)"

text \<open>The new value of the caller's pointer comes with the result, \<open>obj\<close> being the old one.\<close>

definition rte_ring_dequeue :: "'a \<Rightarrow> 'a rte_ring \<Rightarrow> (int \<times> 'a \<times> 'a rte_ring) option" where
  "rte_ring_dequeue obj r =
     map_option (\<lambda>(ret, objs, r). (ret, case objs of [] \<Rightarrow> obj | x # _ \<Rightarrow> x, r))
       (if sc_dequeue r then Some (sc_do_dequeue 1 QUEUE_FIXED r)
        else mc_do_dequeue 1 QUEUE_FIXED r)"

definition rte_ring_enqueue_burst :: "'a list \<Rightarrow> 'a rte_ring \<Rightarrow> (int \<times> 'a rte_ring) option" where
  "rte_ring_enqueue_burst objs r =
     (if sp_enqueue r then Some (sp_do_enqueue objs QUEUE_VARIABLE r)
      else mp_do_enqueue objs QUEUE_VARIABLE r)"

definition rte_ring_dequeue_burst :: "nat \<Rightarrow> 'a rte_ring \<Rightarrow> (int \<times> 'a list \<times> 'a rte_ring) option" where
  "rte_ring_dequeue_burst n r =
     (if sc_dequeue r then Some (sc_do_dequeue n QUEUE_VARIABLE r)
      else mc_do_dequeue n QUEUE_VARIABLE r)"

definition rte_ring_full :: "'a rte_ring \<Rightarrow> bool" where
  "rte_ring_full r = ((cons_tail r - prod_tail r - 1) AND prod_mask r = 0)"

definition rte_ring_empty :: "'a rte_ring \<Rightarrow> bool" where
  "rte_ring_empty r = (cons_tail r = prod_tail r)"

definition rte_ring_count :: "'a rte_ring \<Rightarrow> nat" where
  "rte_ring_count r = unat ((prod_tail r - cons_tail r) AND prod_mask r)"

definition rte_ring_free_count :: "'a rte_ring \<Rightarrow> nat" where
  "rte_ring_free_count r = unat ((cons_tail r - prod_tail r - 1) AND prod_mask r)"

section \<open>The abstract queue\<close>

definition capacity :: "'a rte_ring \<Rightarrow> nat" where
  "capacity r = unat (prod_mask r)"

definition queued :: "'a rte_ring \<Rightarrow> 'a list" where
  "queued r = map (\<lambda>i. cells r ! unat ((cons_tail r + of_nat i) AND prod_mask r))
     [0..<unat (prod_tail r - cons_tail r)]"

text \<open>A ring between calls: its size is a power of two and head and tail agree.\<close>

definition ring_ok :: "'a rte_ring \<Rightarrow> bool" where
  "ring_ok r \<longleftrightarrow> (\<exists>k \<le> 28. prod_size r = 2 ^ k \<and> cons_size r = 2 ^ k \<and> prod_mask r = mask k
     \<and> cons_mask r = mask k \<and> length (cells r) = 2 ^ k \<and> watermark r = 2 ^ k
     \<and> prod_head r = prod_tail r \<and> cons_head r = cons_tail r
     \<and> unat (prod_tail r - cons_tail r) < 2 ^ k)"

section \<open>Indices\<close>

lemma unat_and_mask: "unat (w AND mask k :: int32) = unat w mod 2 ^ k"
proof -
  have "unat (w AND mask k) = unat (take_bit k w)" by (simp only: take_bit_eq_mask)
  also have "\<dots> = take_bit k (unat w)" by (rule unsigned_take_bit_eq)
  finally show ?thesis by (simp only: take_bit_eq_mod)
qed

lemma mod_dvd_32: "k \<le> 32 \<Longrightarrow> x mod 2 ^ 32 mod 2 ^ k = (x :: nat) mod 2 ^ k"
  by (intro mod_mod_cancel le_imp_power_dvd)

lemma unat_plus_mod: "k \<le> 32 \<Longrightarrow> unat (w + of_nat i :: int32) mod 2 ^ k = (unat w + i) mod 2 ^ k"
  using mod_dvd_32 [of k "unat w + i mod 2 ^ 32"] mod_dvd_32 [of k i]
  by (simp add: unat_word_ariths(1) unat_of_nat) (metis mod_add_right_eq)

lemma two_power_28: "k \<le> 28 \<Longrightarrow> (2 :: nat) ^ k \<le> 268435456"
  using power_increasing [of k 28 "2 :: nat"] by simp

lemma unat_two_power: "k \<le> 28 \<Longrightarrow> unat (2 ^ k :: int32) = 2 ^ k"
proof -
  assume "k \<le> 28"
  then have "(2 :: nat) ^ k < 2 ^ 32" by (intro power_strict_increasing) simp_all
  moreover have "(2 ^ k :: int32) = of_nat (2 ^ k)" by simp
  ultimately show ?thesis by (simp only: unat_of_nat) simp
qed

lemma unat_mask: "k \<le> 28 \<Longrightarrow> unat (mask k :: int32) = 2 ^ k - 1"
proof -
  assume k: "k \<le> 28"
  have "(mask k :: int32) = of_nat (mask k)" by (simp add: of_nat_mask_eq)
  moreover have "mask k < (2 :: nat) ^ 32" using two_power_28 [OF k] by (simp add: mask_eq_exp_minus_1)
  ultimately show ?thesis by (simp only: unat_of_nat) (simp add: mask_eq_exp_minus_1)
qed

lemma ring_slots_distinct:
  "i < L \<Longrightarrow> j < L \<Longrightarrow> (c + i) mod L = (c + j) mod (L :: nat) \<Longrightarrow> i = j"
  using add_mod_inj [of i c L j] by (simp add: add.commute)

section \<open>The copies\<close>

text \<open>Both branches of the copy write object \<open>j\<close> to the cell \<open>head + j\<close>, modulo the size.\<close>

lemma idx_less:
  assumes "k \<le> 28" "a < 2 ^ k" "n \<le> 2 ^ k" "unat w = a"
  shows "w + of_nat n < (2 ^ k :: int32) \<longleftrightarrow> a + n < 2 ^ k"
proof -
  have "a + n < 2 ^ 32" using two_power_28 [OF assms(1)] assms(2,3) by simp
  then have "unat (w + of_nat n) = a + n"
    using assms(4) by (simp add: unat_word_ariths(1) unat_of_nat)
  then show ?thesis by (simp add: word_less_nat_alt unat_two_power [OF assms(1)])
qed

lemma wrap_once:
  fixes a i L :: nat
  assumes "a < L" "L - a \<le> i" "i \<le> L"
  shows "(a + i) mod L = i - (L - a)"
proof -
  have "(a + i) mod L = (a + i - L) mod L" using assms(1,2) by (intro le_mod_geq) simp
  also have "\<dots> = a + i - L" using assms by (intro mod_less) linarith
  finally show ?thesis using assms by simp
qed

lemma ENQUEUE_PTRS_mod:
  assumes "k \<le> 28" "prod_size r = 2 ^ k" "prod_mask r = mask k" "length objs \<le> 2 ^ k"
  shows "ENQUEUE_PTRS h objs r
    = fold (\<lambda>i ring. ring[(unat h + i) mod 2 ^ k := objs ! i]) [0..<length objs] (cells r)"
proof -
  let ?a = "unat h mod 2 ^ k" and ?n = "length objs" and ?L = "2 ^ k :: nat"
  have a: "unat (h AND mask k) = ?a" "?a < ?L" by (simp_all add: unat_and_mask)
  have step: "(unat h + i) mod ?L = (?a + i) mod ?L" for i by (simp add: mod_add_left_eq)
  note less = idx_less [OF assms(1) a(2) assms(4) a(1)]
  show ?thesis
  proof (cases "?a + ?n < ?L")
    case True
    have "fold (\<lambda>i ring. ring[?a + i := objs ! i]) [0..<?n] (cells r)
        = fold (\<lambda>i ring. ring[(?a + i) mod ?L := objs ! i]) [0..<?n] (cells r)"
      using True by (intro fold_cong) auto
    then show ?thesis using True less by (simp add: ENQUEUE_PTRS_def Let_def assms(2,3) a(1) step)
  next
    case False
    let ?k = "?L - ?a"
    have split: "[0..<?n] = [0..<?k] @ [?k..<?n]"
      using upt_add_eq_append [of 0 ?k "?n - ?k"] False by simp
    have "fold (\<lambda>i ring. ring[(?a + i) mod ?L := objs ! i]) [0..<?n] (cells r)
        = fold (\<lambda>i ring. ring[(?a + i) mod ?L := objs ! i]) [?k..<?n]
            (fold (\<lambda>i ring. ring[(?a + i) mod ?L := objs ! i]) [0..<?k] (cells r))"
      unfolding split by simp
    also have "fold (\<lambda>i ring. ring[(?a + i) mod ?L := objs ! i]) [0..<?k] (cells r)
        = fold (\<lambda>i ring. ring[?a + i := objs ! i]) [0..<?k] (cells r)"
      by (intro fold_cong) auto
    also have "fold (\<lambda>i ring. ring[(?a + i) mod ?L := objs ! i]) [?k..<?n] ring
        = fold (\<lambda>i ring. ring[i - ?k := objs ! i]) [?k..<?n] ring" for ring
    proof (rule fold_cong [OF refl refl])
      fix i
      assume "i \<in> set [?k..<?n]"
      then have i: "?k \<le> i" "i < ?n" by simp_all
      show "(\<lambda>ring. ring[(?a + i) mod ?L := objs ! i]) = (\<lambda>ring. ring[i - ?k := objs ! i])"
        using wrap_once [OF a(2) i(1)] i(2) assms(4) by simp
    qed
    finally show ?thesis
      using False less by (simp add: ENQUEUE_PTRS_def Let_def assms(2,3) a(1) step unat_two_power [OF assms(1)])
  qed
qed

lemma DEQUEUE_PTRS_mod:
  assumes "k \<le> 28" "cons_size r = 2 ^ k" "prod_mask r = mask k" "n \<le> 2 ^ k"
  shows "DEQUEUE_PTRS h n r = map (\<lambda>i. cells r ! ((unat h + i) mod 2 ^ k)) [0..<n]"
proof -
  let ?a = "unat h mod 2 ^ k" and ?L = "2 ^ k :: nat"
  have a: "unat (h AND mask k) = ?a" "?a < ?L" by (simp_all add: unat_and_mask)
  have step: "(unat h + i) mod ?L = (?a + i) mod ?L" for i by (simp add: mod_add_left_eq)
  note less = idx_less [OF assms(1) a(2) assms(4) a(1)]
  show ?thesis
  proof (cases "?a + n < ?L")
    case True
    then show ?thesis using less by (simp add: DEQUEUE_PTRS_def Let_def assms(2,3) a(1) step)
  next
    case False
    let ?k = "?L - ?a"
    have split: "[0..<n] = [0..<?k] @ [?k..<n]"
      using upt_add_eq_append [of 0 ?k "n - ?k"] False by simp
    have "map (\<lambda>i. cells r ! ((?a + i) mod ?L)) [?k..<n] = map (\<lambda>i. cells r ! (i - ?k)) [?k..<n]"
    proof (rule map_cong [OF refl])
      fix i
      assume "i \<in> set [?k..<n]"
      then have i: "?k \<le> i" "i < n" by simp_all
      show "cells r ! ((?a + i) mod ?L) = cells r ! (i - ?k)"
        using wrap_once [OF a(2) i(1)] i(2) assms(4) by simp
    qed
    moreover have "map (\<lambda>i. cells r ! ((?a + i) mod ?L)) [0..<?k] = map (\<lambda>i. cells r ! (?a + i)) [0..<?k]"
      by (rule map_cong) auto
    ultimately have "map (\<lambda>i. cells r ! ((?a + i) mod ?L)) [0..<n]
        = map (\<lambda>i. cells r ! (?a + i)) [0..<?k] @ map (\<lambda>i. cells r ! (i - ?k)) [?k..<n]"
      unfolding split map_append by (simp only:)
    then show ?thesis
      using False less by (simp add: DEQUEUE_PTRS_def Let_def assms(2,3) a(1) step unat_two_power [OF assms(1)])
  qed
qed

section \<open>The abstract operations\<close>

lemma fold_slots:
  fixes c L :: nat
  assumes "n \<le> L" "length xs = L"
  shows "length (fold (\<lambda>i ring. ring[(c + i) mod L := v i]) [0..<n] xs) = L"
    and "j < n \<Longrightarrow> fold (\<lambda>i ring. ring[(c + i) mod L := v i]) [0..<n] xs ! ((c + j) mod L) = v j"
    and "(\<And>i. i < n \<Longrightarrow> p \<noteq> (c + i) mod L) \<Longrightarrow>
      fold (\<lambda>i ring. ring[(c + i) mod L := v i]) [0..<n] xs ! p = xs ! p"
proof -
  let ?f = "\<lambda>m. fold (\<lambda>i ring. ring[(c + i) mod L := v i]) [0..<m] xs"
  have inv: "length (?f m) = L \<and> (\<forall>j < m. ?f m ! ((c + j) mod L) = v j)
      \<and> (\<forall>p. (\<forall>i < m. p \<noteq> (c + i) mod L) \<longrightarrow> ?f m ! p = xs ! p)" if "m \<le> n" for m
    using that
  proof (induction m)
    case 0
    then show ?case using assms(2) by simp
  next
    case (Suc m)
    then have IH: "length (?f m) = L" "\<And>j. j < m \<Longrightarrow> ?f m ! ((c + j) mod L) = v j"
      "\<And>p. (\<And>i. i < m \<Longrightarrow> p \<noteq> (c + i) mod L) \<Longrightarrow> ?f m ! p = xs ! p" by simp_all
    have "0 < L" using Suc.prems assms(1) by simp
    then have "(c + m) mod L < L" by simp
    moreover have "(c + m) mod L \<noteq> (c + j) mod L" if "j < m" for j
      using ring_slots_distinct [of j L m c] that Suc.prems assms(1) by auto
    ultimately show ?case using IH by (auto simp: less_Suc_eq nth_list_update)
  qed
  from inv [OF order_refl]
  show "length (?f n) = L" "j < n \<Longrightarrow> ?f n ! ((c + j) mod L) = v j"
    "(\<And>i. i < n \<Longrightarrow> p \<noteq> (c + i) mod L) \<Longrightarrow> ?f n ! p = xs ! p"
    by blast+
qed

lemma queued_mod:
  assumes "k \<le> 28" "prod_mask r = mask k"
  shows "queued r = map (\<lambda>i. cells r ! ((unat (cons_tail r) + i) mod 2 ^ k)) [0..<unat (prod_tail r - cons_tail r)]"
  using assms(1) by (simp add: queued_def assms(2) unat_and_mask unat_plus_mod)

lemma capacity_mask: "k \<le> 28 \<Longrightarrow> prod_mask r = mask k \<Longrightarrow> capacity r = 2 ^ k - 1"
  by (simp add: capacity_def unat_mask)

lemma length_queued: "length (queued r) = unat (prod_tail r - cons_tail r)"
  by (simp add: queued_def)

lemma ring_okE:
  assumes "ring_ok r"
  obtains k where "k \<le> 28" "prod_size r = 2 ^ k" "cons_size r = 2 ^ k" "prod_mask r = mask k"
    "cons_mask r = mask k" "length (cells r) = 2 ^ k" "watermark r = 2 ^ k"
    "prod_head r = prod_tail r" "cons_head r = cons_tail r" "length (queued r) < 2 ^ k"
    "capacity r = 2 ^ k - 1"
  using assms capacity_mask by (auto simp: ring_ok_def length_queued)

text \<open>The free entries, computed modulo \<open>2 ^ 32\<close>, and the difference of the indices.\<close>

lemma free_entries:
  assumes "k \<le> 28" "unat (pt - ct) < 2 ^ k"
  shows "unat (mask k + ct - pt :: int32) = 2 ^ k - 1 - unat (pt - ct)"
proof -
  have e: "mask k + ct - pt = mask k - (pt - ct)" by simp
  have "pt - ct \<le> mask k" using assms by (simp add: word_le_nat_alt unat_mask)
  then show ?thesis unfolding e by (simp add: unat_sub unat_mask [OF assms(1)])
qed

lemma unat_advance:
  assumes "unat (pt - ct :: int32) + n < 2 ^ 32"
  shows "unat (pt + of_nat n - ct) = unat (pt - ct) + n"
proof -
  have e: "pt + of_nat n - ct = (pt - ct) + of_nat n" by simp
  show ?thesis unfolding e using assms by (simp only: unat_word_ariths(1) unat_of_nat) simp
qed

text \<open>What the accepted calls leave.\<close>

definition enq_result :: "'a list \<Rightarrow> 'a rte_ring \<Rightarrow> 'a rte_ring" where
  "enq_result objs r = r\<lparr>prod_head := prod_tail r + of_nat (length objs),
     cells := ENQUEUE_PTRS (prod_tail r) objs r, prod_tail := prod_tail r + of_nat (length objs)\<rparr>"

definition deq_result :: "nat \<Rightarrow> 'a rte_ring \<Rightarrow> 'a rte_ring" where
  "deq_result n r = r\<lparr>cons_head := cons_tail r + of_nat n, cons_tail := cons_tail r + of_nat n\<rparr>"

lemma drop_map_upt: "drop n (map f [0..<m]) = map (\<lambda>i. f (n + i)) [0..<m - n]"
  by (rule nth_equalityI) simp_all

lemma enq_result_queue:
  assumes "ring_ok r" "length (queued r) + length objs \<le> capacity r"
  shows "ring_ok (enq_result objs r)" "queued (enq_result objs r) = queued r @ objs"
    "capacity (enq_result objs r) = capacity r"
proof -
  obtain k where k: "k \<le> 28" "prod_size r = 2 ^ k" "cons_size r = 2 ^ k" "prod_mask r = mask k"
    "cons_mask r = mask k" "length (cells r) = 2 ^ k" "watermark r = 2 ^ k"
    "prod_head r = prod_tail r" "cons_head r = cons_tail r" "length (queued r) < 2 ^ k"
    "capacity r = 2 ^ k - 1"
    by (rule ring_okE [OF assms(1)])
  let ?n = "length objs" and ?m = "length (queued r)" and ?L = "2 ^ k :: nat" and ?r = "enq_result objs r"
  have m: "unat (prod_tail r - cons_tail r) = ?m" by (simp add: length_queued)
  have "0 < ?L" by simp
  then have room: "?m + ?n < ?L" using assms(2) k(11) by linarith
  then have n: "?n \<le> ?L" by simp
  have enq: "cells ?r = fold (\<lambda>i ring. ring[(unat (prod_tail r) + i) mod ?L := objs ! i]) [0..<?n] (cells r)"
    unfolding enq_result_def using ENQUEUE_PTRS_mod [OF k(1,2,4) n] by simp
  note slots = fold_slots [OF n k(6), where c = "unat (prod_tail r)" and v = "(!) objs", folded enq]
  have "?m + ?n < 2 ^ 32" using room two_power_28 [OF k(1)] by simp
  then have adv: "unat (prod_tail r + of_nat ?n - cons_tail r) = ?m + ?n"
    using unat_advance [of "prod_tail r" "cons_tail r" ?n] by (simp add: m)
  show "capacity ?r = capacity r" by (simp add: capacity_def enq_result_def)
  show "ring_ok ?r"
    unfolding ring_ok_def
  proof (intro exI [of _ k] conjI)
    show "length (cells ?r) = 2 ^ k" by (rule slots(1))
    show "unat (prod_tail ?r - cons_tail ?r) < 2 ^ k"
      using adv room by (simp add: enq_result_def)
  qed (simp_all add: enq_result_def k)
  have qr: "queued ?r = map (\<lambda>i. cells ?r ! ((unat (cons_tail r) + i) mod ?L)) [0..<?m + ?n]"
    using queued_mod [OF k(1), of ?r] k(4) adv by (simp add: enq_result_def)
  have tail: "(unat (cons_tail r) + (?m + j)) mod ?L = (unat (prod_tail r) + j) mod ?L" for j
  proof -
    have "of_nat ?m = prod_tail r - cons_tail r" unfolding m [symmetric] by simp
    then have e: "prod_tail r + of_nat j = cons_tail r + of_nat (?m + j)" by simp
    have "unat (prod_tail r + of_nat j) mod ?L = unat (cons_tail r + of_nat (?m + j)) mod ?L"
      by (simp only: e)
    then show ?thesis using k(1) by (simp only: unat_plus_mod)
  qed
  show "queued ?r = queued r @ objs"
  proof (rule nth_equalityI)
    show "length (queued ?r) = length (queued r @ objs)" by (simp add: qr)
    fix i
    assume "i < length (queued ?r)"
    then have i: "i < ?m + ?n" by (simp add: qr)
    show "queued ?r ! i = (queued r @ objs) ! i"
    proof (cases "i < ?m")
      case True
      have "(unat (cons_tail r) + i) mod ?L \<noteq> (unat (prod_tail r) + j) mod ?L" if "j < ?n" for j
      proof
        assume "(unat (cons_tail r) + i) mod ?L = (unat (prod_tail r) + j) mod ?L"
        then have "i = ?m + j"
          unfolding tail [symmetric] by (rule ring_slots_distinct [rotated 2]) (use True that room in linarith)+
        then show False using True by simp
      qed
      then have "cells ?r ! ((unat (cons_tail r) + i) mod ?L) = cells r ! ((unat (cons_tail r) + i) mod ?L)"
        by (rule slots(3))
      moreover have "queued r ! i = cells r ! ((unat (cons_tail r) + i) mod ?L)"
        using True by (subst queued_mod [OF k(1,4)]) (simp only: m nth_map length_upt nth_upt minus_nat.diff_0 add_0)
      ultimately show ?thesis using True i by (simp add: qr nth_append)
    next
      case False
      then have j: "i - ?m < ?n" "?m + (i - ?m) = i" using i by simp_all
      have "cells ?r ! ((unat (cons_tail r) + i) mod ?L) = objs ! (i - ?m)"
        using slots(2) [OF j(1)] tail [of "i - ?m"] by (simp only: j(2))
      then show ?thesis using False i by (simp add: qr nth_append)
    qed
  qed
qed

lemma deq_result_queue:
  assumes "ring_ok r" "n \<le> length (queued r)"
  shows "ring_ok (deq_result n r)" "queued (deq_result n r) = drop n (queued r)"
    "capacity (deq_result n r) = capacity r"
    "DEQUEUE_PTRS (cons_tail r) n (r\<lparr>cons_head := h\<rparr>) = take n (queued r)"
proof -
  obtain k where k: "k \<le> 28" "prod_size r = 2 ^ k" "cons_size r = 2 ^ k" "prod_mask r = mask k"
    "cons_mask r = mask k" "length (cells r) = 2 ^ k" "watermark r = 2 ^ k"
    "prod_head r = prod_tail r" "cons_head r = cons_tail r" "length (queued r) < 2 ^ k"
    "capacity r = 2 ^ k - 1"
    by (rule ring_okE [OF assms(1)])
  let ?m = "length (queued r)" and ?L = "2 ^ k :: nat" and ?r = "deq_result n r"
  have m: "unat (prod_tail r - cons_tail r) = ?m" by (simp add: length_queued)
  have e: "prod_tail r - (cons_tail r + of_nat n) = (prod_tail r - cons_tail r) - of_nat n" by simp
  have "unat (of_nat n :: int32) = n"
    using assms(2) k(10) two_power_28 [OF k(1)] by (simp add: unat_of_nat)
  moreover from this have "(of_nat n :: int32) \<le> prod_tail r - cons_tail r"
    using assms(2) by (simp add: word_le_nat_alt m)
  ultimately have len: "unat (prod_tail r - (cons_tail r + of_nat n)) = ?m - n"
    unfolding e by (simp add: unat_sub m)
  show "capacity ?r = capacity r" by (simp add: capacity_def deq_result_def)
  show "ring_ok ?r"
    unfolding ring_ok_def
  proof (intro exI [of _ k] conjI)
    show "unat (prod_tail ?r - cons_tail ?r) < 2 ^ k"
      using len k(10) by (simp add: deq_result_def)
  qed (simp_all add: deq_result_def k)
  have q: "queued r = map (\<lambda>i. cells r ! ((unat (cons_tail r) + i) mod ?L)) [0..<?m]"
    using queued_mod [OF k(1,4)] by (simp only: m)
  have "n \<le> ?L" using assms(2) k(10) by simp
  then have "DEQUEUE_PTRS (cons_tail r) n (r\<lparr>cons_head := h\<rparr>)
      = map (\<lambda>i. cells r ! ((unat (cons_tail r) + i) mod ?L)) [0..<n]"
    using DEQUEUE_PTRS_mod [OF k(1), of "r\<lparr>cons_head := h\<rparr>" n] k(3,4) by simp
  also have "\<dots> = take n (queued r)" by (subst q) (use assms(2) in \<open>simp add: take_map\<close>)
  finally show "DEQUEUE_PTRS (cons_tail r) n (r\<lparr>cons_head := h\<rparr>) = take n (queued r)" .
  have "queued ?r = map (\<lambda>i. cells r ! ((unat (cons_tail r + of_nat n) + i) mod ?L)) [0..<?m - n]"
    using queued_mod [OF k(1), of ?r] k(4) len by (simp add: deq_result_def)
  also have "\<dots> = map (\<lambda>i. cells r ! ((unat (cons_tail r) + (n + i)) mod ?L)) [0..<?m - n]"
  proof (rule map_cong [OF refl])
    fix i
    have k32: "k \<le> 32" using k(1) by simp
    have "(unat (cons_tail r + of_nat n) + i) mod ?L = (unat (cons_tail r + of_nat n) mod ?L + i) mod ?L"
      by (simp only: mod_add_left_eq)
    also have "\<dots> = (unat (cons_tail r) + n + i) mod ?L"
      by (simp only: unat_plus_mod [OF k32] mod_add_left_eq)
    finally have "(unat (cons_tail r + of_nat n) + i) mod ?L = (unat (cons_tail r) + n + i) mod ?L" .
    then show "cells r ! ((unat (cons_tail r + of_nat n) + i) mod ?L)
        = cells r ! ((unat (cons_tail r) + (n + i)) mod ?L)" by (simp only: add.assoc)
  qed
  also have "\<dots> = drop n (queued r)" by (simp only: drop_map_upt arg_cong [OF q, of "drop n"])
  finally show "queued ?r = drop n (queued r)" .
qed

section \<open>The calls on a ring in order\<close>

definition free_of :: "'a rte_ring \<Rightarrow> nat" where
  "free_of r = capacity r - length (queued r)"

lemma ring_free:
  assumes "ring_ok r"
  shows "unat (prod_mask r + cons_tail r - prod_head r) = free_of r"
    and "length (queued r) \<le> capacity r" and "capacity r < 2 ^ 28"
proof -
  obtain k where k: "k \<le> 28" "prod_mask r = mask k" "prod_head r = prod_tail r"
    "length (queued r) < 2 ^ k" "capacity r = 2 ^ k - 1" by (rule ring_okE [OF assms])
  show "unat (prod_mask r + cons_tail r - prod_head r) = free_of r"
    using free_entries [OF k(1), of "prod_tail r" "cons_tail r"] k
    by (simp add: free_of_def length_queued)
  show "length (queued r) \<le> capacity r" using k by simp
  show "capacity r < 2 ^ 28" using two_power_28 [OF k(1)] unfolding k(5) by simp
qed

lemma less_of_nat: "n < 2 ^ 32 \<Longrightarrow> (of_nat n > (w :: int32)) = (n > unat w)"
  by (simp add: word_less_nat_alt unat_of_nat)

lemma enq_ret_ok:
  assumes "ring_ok r" "n \<le> free_of r" "prod_mask r' = prod_mask r" "watermark r' = watermark r"
  shows "enq_ret b n (prod_mask r + cons_tail r - prod_head r) r' = (if b = QUEUE_FIXED then 0 else int n)"
proof -
  obtain k where k: "k \<le> 28" "prod_mask r = mask k" "watermark r = 2 ^ k" "capacity r = 2 ^ k - 1"
    by (rule ring_okE [OF assms(1)])
  let ?f = "prod_mask r + cons_tail r - prod_head r"
  have f: "unat ?f = free_of r" by (rule ring_free(1) [OF assms(1)])
  have n: "n < 2 ^ 32" using assms(2) ring_free(3) [OF assms(1)] by (simp add: free_of_def)
  have one: "prod_mask r + 1 = 2 ^ k" by (simp add: k(2) mask_eq_exp_minus_1)
  have le: "?f \<le> 2 ^ k" using f k by (simp add: word_le_nat_alt free_of_def unat_two_power)
  have "unat (2 ^ k - ?f) = 2 ^ k - free_of r"
    using unat_sub [OF le] by (simp only: f unat_two_power [OF k(1)])
  moreover have "free_of r \<le> 2 ^ k" by (simp add: free_of_def k(4))
  ultimately have "unat (2 ^ k - ?f) + unat (of_nat n :: int32) \<le> 2 ^ k"
    using assms(2) n by (simp add: unat_of_nat)
  moreover from this have "unat (2 ^ k - ?f + of_nat n) = unat (2 ^ k - ?f) + unat (of_nat n :: int32)"
    using two_power_28 [OF k(1)] by (subst unat_word_ariths(1)) simp
  ultimately have "prod_mask r + 1 - ?f + of_nat n \<le> 2 ^ k"
    unfolding one by (simp add: word_le_nat_alt unat_two_power [OF k(1)])
  then show ?thesis unfolding enq_ret_def assms(3,4) k(3) by (simp only: not_less [symmetric] if_False)
qed

text \<open>The four calls in terms of the abstract queue.\<close>

lemma enqueue_fixed:
  assumes "ring_ok r" "length objs < 2 ^ 32"
  shows "sp_do_enqueue objs QUEUE_FIXED r
      = (if length objs \<le> free_of r then (0, enq_result objs r) else (- ENOBUFS, r))"
    and "objs \<noteq> [] \<Longrightarrow> mp_do_enqueue objs QUEUE_FIXED r
      = Some (if length objs \<le> free_of r then (0, enq_result objs r) else (- ENOBUFS, r))"
proof -
  let ?f = "prod_mask r + cons_tail r - prod_head r"
  have head: "prod_head r = prod_tail r" by (rule ring_okE [OF assms(1)])
  have count: "enq_count QUEUE_FIXED (length objs) ?f
      = (if length objs \<le> free_of r then Inr (length objs) else Inl (- ENOBUFS))"
    by (simp add: enq_count_def less_of_nat [OF assms(2)] ring_free(1) [OF assms(1)])
  have copy: "ENQUEUE_PTRS h xs (r\<lparr>prod_head := h'\<rparr>) = ENQUEUE_PTRS h xs r" for h h' xs
    by (simp add: ENQUEUE_PTRS_def Let_def)
  have ret: "length objs \<le> free_of r \<Longrightarrow> enq_ret QUEUE_FIXED (length objs) ?f
      (r\<lparr>prod_head := h, cells := c\<rparr>) = 0" for h c
    using enq_ret_ok [OF assms(1), of "length objs" "r\<lparr>prod_head := h, cells := c\<rparr>" QUEUE_FIXED] by simp
  show "sp_do_enqueue objs QUEUE_FIXED r
      = (if length objs \<le> free_of r then (0, enq_result objs r) else (- ENOBUFS, r))"
    by (simp add: sp_do_enqueue_def Let_def count copy ret enq_result_def head [symmetric])
  show "objs \<noteq> [] \<Longrightarrow> mp_do_enqueue objs QUEUE_FIXED r
      = Some (if length objs \<le> free_of r then (0, enq_result objs r) else (- ENOBUFS, r))"
    by (simp add: mp_do_enqueue_def Let_def count copy ret enq_result_def head [symmetric])
qed

lemma dequeue_fixed:
  assumes "ring_ok r" "n < 2 ^ 32"
  shows "sc_do_dequeue n QUEUE_FIXED r
      = (if n \<le> length (queued r) then (0, take n (queued r), deq_result n r) else (- ENOENT, [], r))"
    and "0 < n \<Longrightarrow> mc_do_dequeue n QUEUE_FIXED r
      = Some (if n \<le> length (queued r) then (0, take n (queued r), deq_result n r) else (- ENOENT, [], r))"
proof -
  have head: "cons_head r = cons_tail r" by (rule ring_okE [OF assms(1)])
  have count: "deq_count QUEUE_FIXED n (prod_tail r - cons_tail r)
      = (if n \<le> length (queued r) then Inr n else Inl (- ENOENT))"
    by (simp add: deq_count_def less_of_nat [OF assms(2)] length_queued)
  note copy = deq_result_queue(4) [OF assms(1)]
  show "sc_do_dequeue n QUEUE_FIXED r
      = (if n \<le> length (queued r) then (0, take n (queued r), deq_result n r) else (- ENOENT, [], r))"
    by (simp add: sc_do_dequeue_def Let_def count copy deq_result_def head)
  show "0 < n \<Longrightarrow> mc_do_dequeue n QUEUE_FIXED r
      = Some (if n \<le> length (queued r) then (0, take n (queued r), deq_result n r) else (- ENOENT, [], r))"
    by (simp add: mc_do_dequeue_def Let_def count copy deq_result_def head)
qed

lemma ring_state_calls:
  assumes "ring_ok r"
  shows "rte_ring_full r \<longleftrightarrow> length (queued r) = capacity r"
    and "rte_ring_empty r \<longleftrightarrow> queued r = []"
    and "rte_ring_count r = length (queued r)"
    and "rte_ring_free_count r = capacity r - length (queued r)"
proof -
  obtain k where k: "k \<le> 28" "prod_mask r = mask k" "length (queued r) < 2 ^ k"
    "capacity r = 2 ^ k - 1" by (rule ring_okE [OF assms])
  let ?d = "prod_tail r - cons_tail r"
  show count: "rte_ring_count r = length (queued r)"
    using k(3) by (simp add: rte_ring_count_def k(2) unat_and_mask length_queued)
  have e: "cons_tail r - prod_tail r - 1 = - 1 - ?d" by simp
  have "unat (- 1 - ?d) = 2 ^ 32 - 1 - length (queued r)"
  proof -
    have "?d \<le> - 1" by simp
    then have "unat (- 1 - ?d) = unat (- 1 :: int32) - unat ?d" by (rule unat_sub)
    then show ?thesis by (simp only: unsigned_minus_1_eq_mask length_queued mask_eq_exp_minus_1) simp
  qed
  also have "\<dots> = 2 ^ k * (2 ^ (32 - k) - 1) + (capacity r - length (queued r))"
  proof -
    have "(2 :: nat) ^ 32 = 2 ^ k * 2 ^ (32 - k)" using k(1) by (simp flip: power_add)
    moreover have "(2 :: nat) ^ k \<le> 2 ^ k * 2 ^ (32 - k)" by simp
    ultimately show ?thesis using k(3,4) by (simp add: algebra_simps)
  qed
  finally have "unat (- 1 - ?d) mod 2 ^ k = capacity r - length (queued r)"
    using k(4) by simp
  then show free: "rte_ring_free_count r = capacity r - length (queued r)"
    by (simp add: rte_ring_free_count_def e k(2) unat_and_mask)
  have "rte_ring_full r \<longleftrightarrow> rte_ring_free_count r = 0"
    by (simp add: rte_ring_full_def rte_ring_free_count_def unat_eq_0)
  then show "rte_ring_full r \<longleftrightarrow> length (queued r) = capacity r"
    using free k(3,4) by auto
  show "rte_ring_empty r \<longleftrightarrow> queued r = []"
    using length_queued [of r] by (auto simp: rte_ring_empty_def unat_eq_0 simp flip: length_0_conv)
qed

section \<open>The contract of a queue\<close>

datatype 'a call = Enq 'a | Deq 'a

datatype 'a answer = Done int | Got int 'a

text \<open>A sequence of calls on a queue, and on the abstract list bounded by \<open>n\<close>. A failed
  dequeue leaves the caller's pointer as it was.\<close>

fun run_calls :: "('a \<Rightarrow> 'q \<Rightarrow> (int \<times> 'q) option) \<Rightarrow> ('a \<Rightarrow> 'q \<Rightarrow> (int \<times> 'a \<times> 'q) option)
    \<Rightarrow> 'a call list \<Rightarrow> 'q \<Rightarrow> ('a answer list \<times> 'q) option" where
  "run_calls enq deq [] q = Some ([], q)"
| "run_calls enq deq (Enq x # cs) q = (case enq x q of None \<Rightarrow> None | Some (ret, q) \<Rightarrow>
     map_option (\<lambda>(ans, q). (Done ret # ans, q)) (run_calls enq deq cs q))"
| "run_calls enq deq (Deq x # cs) q = (case deq x q of None \<Rightarrow> None | Some (ret, y, q) \<Rightarrow>
     map_option (\<lambda>(ans, q). (Got ret y # ans, q)) (run_calls enq deq cs q))"

fun fifo_calls :: "nat \<Rightarrow> 'a call list \<Rightarrow> 'a list \<Rightarrow> 'a answer list \<times> 'a list" where
  "fifo_calls n [] xs = ([], xs)"
| "fifo_calls n (Enq x # cs) xs =
     (if length xs < n then let (ans, ys) = fifo_calls n cs (xs @ [x]) in (Done 0 # ans, ys)
      else let (ans, ys) = fifo_calls n cs xs in (Done (- ENOBUFS) # ans, ys))"
| "fifo_calls n (Deq x # cs) [] =
     (let (ans, ys) = fifo_calls n cs [] in (Got (- ENOENT) x # ans, ys))"
| "fifo_calls n (Deq x # cs) (y # xs) = (let (ans, ys) = fifo_calls n cs xs in (Got 0 y # ans, ys))"

locale queue =
  fixes ok :: "'q \<Rightarrow> bool" and contents :: "'q \<Rightarrow> 'a list" and cap :: "'q \<Rightarrow> nat"
    and enq :: "'a \<Rightarrow> 'q \<Rightarrow> (int \<times> 'q) option" and deq :: "'a \<Rightarrow> 'q \<Rightarrow> (int \<times> 'a \<times> 'q) option"
  assumes bounded: "ok q \<Longrightarrow> length (contents q) \<le> cap q"
    and enq_room: "ok q \<Longrightarrow> length (contents q) < cap q \<Longrightarrow>
      \<exists>q'. enq x q = Some (0, q') \<and> ok q' \<and> contents q' = contents q @ [x] \<and> cap q' = cap q"
    and enq_full: "ok q \<Longrightarrow> length (contents q) = cap q \<Longrightarrow> enq x q = Some (- ENOBUFS, q)"
    and deq_item: "ok q \<Longrightarrow> contents q = y # ys \<Longrightarrow>
      \<exists>q'. deq x q = Some (0, y, q') \<and> ok q' \<and> contents q' = ys \<and> cap q' = cap q"
    and deq_empty: "ok q \<Longrightarrow> contents q = [] \<Longrightarrow> deq x q = Some (- ENOENT, x, q)"
begin

text \<open>A client that keeps no more objects than the queue holds never sees a full queue.\<close>

lemma enq_cases:
  assumes "ok q"
  obtains (room) q' where "length (contents q) < cap q" "enq x q = Some (0, q')" "ok q'"
    "contents q' = contents q @ [x]" "cap q' = cap q"
  | (full) "length (contents q) = cap q" "enq x q = Some (- ENOBUFS, q)"
  using bounded [OF assms] enq_room [OF assms] enq_full [OF assms] by (metis le_neq_implies_less)

lemma deq_cases:
  assumes "ok q"
  obtains (item) y q' where "contents q = y # contents q'" "deq x q = Some (0, y, q')" "ok q'" "cap q' = cap q"
  | (empty) "contents q = []" "deq x q = Some (- ENOENT, x, q)"
  using deq_item [OF assms] deq_empty [OF assms] by (metis neq_Nil_conv)

lemma fifo:
  "ok q \<Longrightarrow> \<exists>q'. run_calls enq deq cs q = Some (fst (fifo_calls (cap q) cs (contents q)), q')
     \<and> ok q' \<and> contents q' = snd (fifo_calls (cap q) cs (contents q)) \<and> cap q' = cap q"
proof (induction cs arbitrary: q)
  case Nil
  then show ?case by simp
next
  case (Cons c cs)
  show ?case
  proof (cases c)
    case (Enq x)
    show ?thesis
    proof (cases rule: enq_cases [OF Cons.prems, of x])
      case (1 q')
      then show ?thesis using Cons.IH [OF 1(3)] by (auto simp: Enq split_beta Let_def)
    next
      case 2
      then show ?thesis using Cons.IH [OF Cons.prems] by (auto simp: Enq split_beta Let_def)
    qed
  next
    case (Deq x)
    show ?thesis
    proof (cases rule: deq_cases [OF Cons.prems, of x])
      case (1 y q')
      then show ?thesis using Cons.IH [OF 1(3)] by (auto simp: Deq split_beta Let_def)
    next
      case 2
      then show ?thesis using Cons.IH [OF Cons.prems] by (auto simp: Deq split_beta Let_def)
    qed
  qed
qed

end

lemma enq_result_flags [simp]:
  "sp_enqueue (enq_result objs r) = sp_enqueue r" "sc_dequeue (enq_result objs r) = sc_dequeue r"
  "sp_enqueue (deq_result n r) = sp_enqueue r" "sc_dequeue (deq_result n r) = sc_dequeue r"
  by (simp_all add: enq_result_def deq_result_def)

lemma rte_ring_enqueue_run:
  "ring_ok r \<Longrightarrow> rte_ring_enqueue x r
    = Some (if length (queued r) < capacity r then (0, enq_result [x] r) else (- ENOBUFS, r))"
  using enqueue_fixed [of r "[x]"] ring_free(2) [of r]
  by (simp add: rte_ring_enqueue_def free_of_def Suc_le_eq)

lemma rte_ring_dequeue_run:
  "ring_ok r \<Longrightarrow> rte_ring_dequeue x r = Some (case queued r of [] \<Rightarrow> (- ENOENT, x, r)
     | y # _ \<Rightarrow> (0, y, deq_result 1 r))"
  using dequeue_fixed [of r 1]
  by (cases "queued r") (simp_all add: rte_ring_dequeue_def)

interpretation ring: queue ring_ok queued capacity rte_ring_enqueue rte_ring_dequeue
proof unfold_locales
  show "ring_ok q \<Longrightarrow> length (queued q) \<le> capacity q" for q :: "'a rte_ring"
    by (rule ring_free(2))
  show "\<exists>q'. rte_ring_enqueue x q = Some (0, q') \<and> ring_ok q' \<and> queued q' = queued q @ [x] \<and> capacity q' = capacity q"
    if "ring_ok q" "length (queued q) < capacity q" for q and x :: 'a
    using enq_result_queue [OF that(1), of "[x]"] rte_ring_enqueue_run [OF that(1)] that(2) by simp
  show "rte_ring_enqueue x q = Some (- ENOBUFS, q)"
    if "ring_ok q" "length (queued q) = capacity q" for q and x :: 'a
    using rte_ring_enqueue_run [OF that(1)] that(2) by simp
  show "\<exists>q'. rte_ring_dequeue x q = Some (0, y, q') \<and> ring_ok q' \<and> queued q' = ys \<and> capacity q' = capacity q"
    if "ring_ok q" "queued q = y # ys" for q y ys and x :: 'a
    using deq_result_queue [OF that(1), of 1] rte_ring_dequeue_run [OF that(1)] that(2) by simp
  show "rte_ring_dequeue x q = Some (- ENOENT, x, q)"
    if "ring_ok q" "queued q = []" for q and x :: 'a
    using rte_ring_dequeue_run [OF that(1)] that(2) by simp
qed

text \<open>A fresh ring.\<close>

lemma ring_init:
  assumes "k \<le> 28" "length junk = 2 ^ k"
  shows "ring_ok (rte_ring_init (2 ^ k) flags junk)" "queued (rte_ring_init (2 ^ k) flags junk) = []"
    "capacity (rte_ring_init (2 ^ k) flags junk) = 2 ^ k - 1"
proof -
  show q: "queued (rte_ring_init (2 ^ k) flags junk) = []" by (simp add: queued_def rte_ring_init_def)
  show "ring_ok (rte_ring_init (2 ^ k) flags junk)"
    unfolding ring_ok_def
    by (rule exI [of _ k]) (simp add: assms rte_ring_init_def mask_eq_exp_minus_1)
  show "capacity (rte_ring_init (2 ^ k) flags junk) = 2 ^ k - 1"
    using assms(1) by (simp add: capacity_def rte_ring_init_def unat_mask flip: mask_eq_exp_minus_1)
qed

lemma ring_create:
  assumes "k \<le> 27" "length junk = 2 ^ k"
  shows "rte_ring_create (2 ^ k) flags junk = Some (rte_ring_init (2 ^ k) flags junk)"
proof -
  have "POWEROF2 (2 ^ k)"
    unfolding POWEROF2_def mask_eq_exp_minus_1 [symmetric]
    by (rule bit_word_eqI) (simp add: bit_simps)
  moreover have "(2 :: nat) ^ k \<le> 2 ^ 27" using assms(1) by (intro power_increasing) simp_all
  then have "\<not> (2 ^ k :: int32) > RTE_RING_SZ_MASK"
    using assms(1) by (simp add: word_less_nat_alt unat_two_power RTE_RING_SZ_MASK_def)
  ultimately show ?thesis by (simp add: rte_ring_create_def)
qed

lemma burst_run:
  assumes "ring_ok r" "length objs < 2 ^ 32"
  defines "m \<equiv> min (length objs) (free_of r)"
  shows "sp_do_enqueue objs QUEUE_VARIABLE r = (int m, enq_result (take m objs) r)"
    and "mp_do_enqueue objs QUEUE_VARIABLE r = Some (int m, enq_result (take m objs) r)"
proof -
  let ?f = "prod_mask r + cons_tail r - prod_head r"
  have head: "prod_head r = prod_tail r" by (rule ring_okE [OF assms(1)])
  have zero: "?f = 0 \<longleftrightarrow> free_of r = 0" using ring_free(1) [OF assms(1)] by (simp add: unat_eq_0 [symmetric])
  have count: "enq_count QUEUE_VARIABLE (length objs) ?f = (if 0 < m \<or> objs = [] then Inr m else Inl 0)"
    unfolding enq_count_def zero less_of_nat [OF assms(2)] ring_free(1) [OF assms(1)]
    by (auto simp: m_def)
  have copy: "ENQUEUE_PTRS h xs (r\<lparr>prod_head := h'\<rparr>) = ENQUEUE_PTRS h xs r" for h h' xs
    by (simp add: ENQUEUE_PTRS_def Let_def)
  have ret: "enq_ret QUEUE_VARIABLE m ?f (r\<lparr>prod_head := h, cells := c\<rparr>) = int m" for h c
    using enq_ret_ok [OF assms(1), of m "r\<lparr>prod_head := h, cells := c\<rparr>" QUEUE_VARIABLE] by (simp add: m_def)
  have len: "length (take m objs) = m" "min (length objs) m = m" by (simp_all add: m_def)
  obtain k where "k \<le> 28" "prod_size r = 2 ^ k" "prod_mask r = mask k" by (rule ring_okE [OF assms(1)])
  then have "ENQUEUE_PTRS (prod_tail r) [] r = cells r" using ENQUEUE_PTRS_mod [of k r "[]"] by simp
  then have nil: "enq_result [] r = r" by (simp add: enq_result_def head)
  show "sp_do_enqueue objs QUEUE_VARIABLE r = (int m, enq_result (take m objs) r)"
  proof (cases "0 < m \<or> objs = []")
    case True
    then have "enq_count QUEUE_VARIABLE (length objs) ?f = Inr m" unfolding count by simp
    then show ?thesis by (simp add: sp_do_enqueue_def Let_def copy ret enq_result_def head [symmetric] len)
  next
    case False
    then show ?thesis by (simp add: sp_do_enqueue_def count nil)
  qed
  show "mp_do_enqueue objs QUEUE_VARIABLE r = Some (int m, enq_result (take m objs) r)"
  proof (cases "0 < m \<or> objs = []")
    case True
    then have c: "enq_count QUEUE_VARIABLE (length objs) ?f = Inr m" unfolding count by simp
    show ?thesis
    proof (cases "objs = []")
      case True
      then show ?thesis by (simp add: mp_do_enqueue_def nil m_def)
    next
      case False
      then show ?thesis by (simp add: mp_do_enqueue_def Let_def c copy ret enq_result_def head [symmetric] len)
    qed
  next
    case False
    then show ?thesis by (simp add: mp_do_enqueue_def count nil)
  qed
qed

lemma burst_deq_run:
  assumes "ring_ok r" "n < 2 ^ 32"
  defines "m \<equiv> min n (length (queued r))"
  shows "sc_do_dequeue n QUEUE_VARIABLE r = (int m, take m (queued r), deq_result m r)"
    and "mc_do_dequeue n QUEUE_VARIABLE r = Some (int m, take m (queued r), deq_result m r)"
proof -
  have head: "cons_head r = cons_tail r" by (rule ring_okE [OF assms(1)])
  have zero: "prod_tail r - cons_tail r = 0 \<longleftrightarrow> queued r = []"
    using length_queued [of r] by (metis length_0_conv unat_eq_0)
  have count: "deq_count QUEUE_VARIABLE n (prod_tail r - cons_tail r) = (if 0 < m \<or> n = 0 then Inr m else Inl 0)"
    unfolding deq_count_def zero less_of_nat [OF assms(2)] length_queued [symmetric]
    by (auto simp: m_def)
  note copy = deq_result_queue(4) [OF assms(1)]
  have le: "m \<le> length (queued r)" by (simp add: m_def)
  have nil: "deq_result 0 r = r" by (simp add: deq_result_def head)
  show sc: "sc_do_dequeue n QUEUE_VARIABLE r = (int m, take m (queued r), deq_result m r)"
  proof (cases "0 < m \<or> n = 0")
    case True
    then have "deq_count QUEUE_VARIABLE n (prod_tail r - cons_tail r) = Inr m" unfolding count by simp
    then show ?thesis by (simp add: sc_do_dequeue_def Let_def copy [OF le] deq_result_def head)
  next
    case False
    then have "deq_count QUEUE_VARIABLE n (prod_tail r - cons_tail r) = Inl 0" "m = 0" unfolding count by simp_all
    then show ?thesis by (simp add: sc_do_dequeue_def head nil)
  qed
  show "mc_do_dequeue n QUEUE_VARIABLE r = Some (int m, take m (queued r), deq_result m r)"
  proof (cases "n = 0")
    case True
    then show ?thesis by (simp add: mc_do_dequeue_def m_def nil)
  next
    case False
    then have "mc_do_dequeue n QUEUE_VARIABLE r = Some (sc_do_dequeue n QUEUE_VARIABLE r)"
      by (simp add: mc_do_dequeue_def sc_do_dequeue_def Let_def head split: sum.split)
    then show ?thesis by (simp only: sc)
  qed
qed

section \<open>Properties\<close>

text \<open>C16: the ring is a bounded first-in-first-out queue. On a ring of \<open>2 ^ k\<close> cells fresh
  from \<open>rte_ring_create\<close>, whatever its flags, every sequence of enqueue and dequeue calls
  returns, call by call, what the list of at most \<open>2 ^ k - 1\<close> objects returns; the four indices
  may pass \<open>2 ^ 32\<close> as often as they like.\<close>

theorem ring_fifo:
  assumes "k \<le> 27" "length junk = 2 ^ k"
  shows "\<exists>r r'. rte_ring_create (2 ^ k) flags junk = Some r
    \<and> run_calls rte_ring_enqueue rte_ring_dequeue cs r = Some (fst (fifo_calls (2 ^ k - 1) cs []), r')
    \<and> queued r' = snd (fifo_calls (2 ^ k - 1) cs [])"
proof -
  have "k \<le> 28" using assms(1) by simp
  note init = ring_init [OF this assms(2), of flags]
  show ?thesis
    using ring.fifo [OF init(1), of cs] ring_create [OF assms, of flags] unfolding init(2,3) by blast
qed

theorem ring_fifo_witness:
  "\<exists>r r'. rte_ring_create (2 ^ 1) 3 [0, 0 :: nat] = Some r
    \<and> run_calls rte_ring_enqueue rte_ring_dequeue [Enq 7, Enq 8, Deq 0, Deq 5] r
        = Some ([Done 0, Done (- ENOBUFS), Got 0 7, Got (- ENOENT) 5], r')"
  using ring_fifo [of 1 "[0, 0 :: nat]" 3 "[Enq 7, Enq 8, Deq 0, Deq 5]"] by auto

text \<open>The bulk calls take all objects or none. On a ring in order, \<open>rte_ring_enqueue_bulk\<close>
  appends the objects when they fit and otherwise returns \<open>-ENOBUFS\<close> and changes nothing, and
  \<open>rte_ring_dequeue_bulk\<close> removes the first \<open>n\<close> or returns \<open>-ENOENT\<close>; the single- and the
  multi-producer code do the same.\<close>

theorem ring_bulk:
  assumes "ring_ok r" "length objs < 2 ^ 32" "objs \<noteq> []" "n < 2 ^ 32" "0 < n"
  shows "(\<exists>r'. rte_ring_enqueue_bulk objs r = Some (if length (queued r) + length objs \<le> capacity r
      then (0, r') else (- ENOBUFS, r)) \<and> (length (queued r) + length objs \<le> capacity r \<longrightarrow>
        ring_ok r' \<and> queued r' = queued r @ objs \<and> capacity r' = capacity r))
    \<and> (\<exists>r'. rte_ring_dequeue_bulk n r = Some (if n \<le> length (queued r)
      then (0, take n (queued r), r') else (- ENOENT, [], r)) \<and> (n \<le> length (queued r) \<longrightarrow>
        ring_ok r' \<and> queued r' = drop n (queued r) \<and> capacity r' = capacity r))"
proof -
  have room: "length objs \<le> free_of r \<longleftrightarrow> length (queued r) + length objs \<le> capacity r"
    using ring_free(2) [OF assms(1)] by (auto simp: free_of_def)
  show ?thesis
    using enqueue_fixed [OF assms(1,2)] dequeue_fixed [OF assms(1,4)] assms(3,5)
      enq_result_queue [OF assms(1), of objs] deq_result_queue [OF assms(1), of n]
    by (auto simp: rte_ring_enqueue_bulk_def rte_ring_dequeue_bulk_def room)
qed

theorem ring_bulk_witness:
  "\<exists>r'. rte_ring_enqueue_bulk [7, 8, 9 :: nat] (rte_ring_init (2 ^ 2) 0 [0, 0, 0, 0]) = Some (0, r')
    \<and> queued r' = [7, 8, 9]"
proof -
  have "ring_ok (rte_ring_init (2 ^ 2) 0 [0, 0, 0, 0 :: nat])" "queued (rte_ring_init (2 ^ 2) 0 [0, 0, 0, 0 :: nat]) = []"
    "capacity (rte_ring_init (2 ^ 2) 0 [0, 0, 0, 0 :: nat]) = 2 ^ 2 - 1"
    using ring_init [of 2 "[0, 0, 0, 0 :: nat]" 0] by simp_all
  then show ?thesis using ring_bulk [of "rte_ring_init (2 ^ 2) 0 [0, 0, 0, 0]" "[7, 8, 9 :: nat]" 1] by auto
qed

text \<open>The burst calls take as many objects as they can, and say how many.\<close>

theorem ring_burst:
  assumes "ring_ok r" "length objs < 2 ^ 32" "n < 2 ^ 32"
  shows "(\<exists>r'. rte_ring_enqueue_burst objs r
      = Some (int (min (length objs) (capacity r - length (queued r))), r')
      \<and> ring_ok r' \<and> queued r' = queued r @ take (capacity r - length (queued r)) objs)
    \<and> (\<exists>r'. rte_ring_dequeue_burst n r
      = Some (int (min n (length (queued r))), take n (queued r), r')
      \<and> ring_ok r' \<and> queued r' = drop n (queued r))"
proof -
  let ?m = "min (length objs) (free_of r)" and ?k = "min n (length (queued r))"
  have t: "take ?m objs = take (free_of r) objs" "take ?k (queued r) = take n (queued r)"
    "drop ?k (queued r) = drop n (queued r)" by (simp_all add: min_def)
  have tm: "take (min (length objs) a) objs = take a objs" for a by (simp add: min_def)
  have "length (queued r) + length (take ?m objs) \<le> capacity r"
    using ring_free(2) [OF assms(1)] by (auto simp: free_of_def)
  then have "ring_ok (enq_result (take ?m objs) r) \<and> queued (enq_result (take ?m objs) r) = queued r @ take ?m objs"
    using enq_result_queue [OF assms(1)] by blast
  moreover have "ring_ok (deq_result ?k r) \<and> queued (deq_result ?k r) = drop ?k (queued r)"
    using deq_result_queue [OF assms(1), of ?k] by simp
  ultimately show ?thesis
    using burst_run [OF assms(1,2)] burst_deq_run [OF assms(1,3)]
    unfolding t rte_ring_enqueue_burst_def rte_ring_dequeue_burst_def by (auto simp: free_of_def tm)
qed

theorem ring_burst_witness:
  "\<exists>r'. rte_ring_enqueue_burst [7, 8, 9, 10, 11 :: nat] (rte_ring_init (2 ^ 2) 0 [0, 0, 0, 0]) = Some (3, r')
    \<and> queued r' = [7, 8, 9]"
proof -
  have "ring_ok (rte_ring_init (2 ^ 2) 0 [0, 0, 0, 0 :: nat])" "queued (rte_ring_init (2 ^ 2) 0 [0, 0, 0, 0 :: nat]) = []"
    "capacity (rte_ring_init (2 ^ 2) 0 [0, 0, 0, 0 :: nat]) = 2 ^ 2 - 1"
    using ring_init [of 2 "[0, 0, 0, 0 :: nat]" 0] by simp_all
  then show ?thesis using ring_burst [of "rte_ring_init (2 ^ 2) 0 [0, 0, 0, 0]" "[7, 8, 9, 10, 11 :: nat]" 1] by auto
qed

end
