(* ===== verification/Spsc.thy ===== *)
theory Spsc
  imports Ring
begin

text \<open>
  A producer and a consumer at work on one ring at the same time, the use every pipeline of the
  program makes of its rings: the memory accesses of \<open>__rte_ring_sp_do_enqueue\<close> and
  \<open>__rte_ring_sc_do_dequeue\<close> for one object, as a step relation that interleaves them in any
  order. The barriers of the code make the writes visible in program order, so the steps act on
  one memory. The two histories \<open>sent\<close> and \<open>received\<close> are not part of the program: they
  record the objects in the order of the writes to the two tails.
\<close>

section \<open>The steps\<close>

text \<open>Where the producer is: before the room check, before the move of the head, before the
  copy into the cell, before the move of the tail. Its locals are the object and \<open>prod_head\<close>.\<close>

datatype 'a producer = P_Idle | P_Reserve 'a int32 | P_Copy 'a int32 | P_Publish 'a int32

datatype 'a consumer = C_Idle | C_Reserve int32 | C_Copy int32 | C_Release 'a int32

record 'a spsc =
  ring :: "'a rte_ring"
  prod :: "'a producer"
  cons :: "'a consumer"
  sent :: "'a list"
  received :: "'a list"

definition spsc_start :: "'a rte_ring \<Rightarrow> 'a spsc" where
  "spsc_start r = \<lparr>ring = r, prod = P_Idle, cons = C_Idle, sent = [], received = []\<rparr>"

inductive spsc_step :: "'a spsc \<Rightarrow> 'a spsc \<Rightarrow> bool" where
  enq_full: "prod s = P_Idle \<Longrightarrow>
    prod_mask (ring s) + cons_tail (ring s) - prod_head (ring s) = 0 \<Longrightarrow> spsc_step s s"
| enq_room: "prod s = P_Idle \<Longrightarrow>
    prod_mask (ring s) + cons_tail (ring s) - prod_head (ring s) \<noteq> 0 \<Longrightarrow>
    spsc_step s (s\<lparr>prod := P_Reserve x (prod_head (ring s))\<rparr>)"
| enq_head: "prod s = P_Reserve x h \<Longrightarrow>
    spsc_step s (s\<lparr>ring := ring s\<lparr>prod_head := h + 1\<rparr>, prod := P_Copy x h\<rparr>)"
| enq_copy: "prod s = P_Copy x h \<Longrightarrow>
    spsc_step s (s\<lparr>ring := ring s\<lparr>cells := ENQUEUE_PTRS h [x] (ring s)\<rparr>, prod := P_Publish x h\<rparr>)"
| enq_tail: "prod s = P_Publish x h \<Longrightarrow>
    spsc_step s (s\<lparr>ring := ring s\<lparr>prod_tail := h + 1\<rparr>, prod := P_Idle, sent := sent s @ [x]\<rparr>)"
| deq_empty: "cons s = C_Idle \<Longrightarrow> prod_tail (ring s) - cons_head (ring s) = 0 \<Longrightarrow> spsc_step s s"
| deq_item: "cons s = C_Idle \<Longrightarrow> prod_tail (ring s) - cons_head (ring s) \<noteq> 0 \<Longrightarrow>
    spsc_step s (s\<lparr>cons := C_Reserve (cons_head (ring s))\<rparr>)"
| deq_head: "cons s = C_Reserve h \<Longrightarrow>
    spsc_step s (s\<lparr>ring := ring s\<lparr>cons_head := h + 1\<rparr>, cons := C_Copy h\<rparr>)"
| deq_copy: "cons s = C_Copy h \<Longrightarrow>
    spsc_step s (s\<lparr>cons := C_Release (hd (DEQUEUE_PTRS h 1 (ring s))) h\<rparr>)"
| deq_tail: "cons s = C_Release x h \<Longrightarrow>
    spsc_step s (s\<lparr>ring := ring s\<lparr>cons_tail := h + 1\<rparr>, cons := C_Idle,
      received := received s @ [x]\<rparr>)"

inductive_cases spsc_stepE: "spsc_step s t"

definition spsc_reach :: "'a rte_ring \<Rightarrow> 'a spsc \<Rightarrow> bool" where
  "spsc_reach r s \<longleftrightarrow> spsc_step\<^sup>*\<^sup>* (spsc_start r) s"

section \<open>The invariant\<close>

text \<open>The cells between the two tails hold the objects in flight; each side owns the cell at
  its own tail while it works on it.\<close>

definition ring_frame :: "nat \<Rightarrow> 'a rte_ring \<Rightarrow> bool" where
  "ring_frame k r \<longleftrightarrow> prod_size r = 2 ^ k \<and> cons_size r = 2 ^ k \<and> prod_mask r = mask k
     \<and> length (cells r) = 2 ^ k"

definition prod_inv :: "nat \<Rightarrow> 'a spsc \<Rightarrow> bool" where
  "prod_inv k s \<longleftrightarrow> (let n = length (sent s) in case prod s of
       P_Idle \<Rightarrow> prod_head (ring s) = of_nat n
     | P_Reserve x h \<Rightarrow> prod_head (ring s) = of_nat n \<and> h = of_nat n \<and> n < length (received s) + (2 ^ k - 1)
     | P_Copy x h \<Rightarrow> prod_head (ring s) = of_nat (Suc n) \<and> h = of_nat n \<and> n < length (received s) + (2 ^ k - 1)
     | P_Publish x h \<Rightarrow> prod_head (ring s) = of_nat (Suc n) \<and> h = of_nat n
         \<and> n < length (received s) + (2 ^ k - 1) \<and> cells (ring s) ! (n mod 2 ^ k) = x)"

definition cons_inv :: "'a spsc \<Rightarrow> bool" where
  "cons_inv s \<longleftrightarrow> (let n = length (received s) in case cons s of
       C_Idle \<Rightarrow> cons_head (ring s) = of_nat n
     | C_Reserve h \<Rightarrow> cons_head (ring s) = of_nat n \<and> h = of_nat n \<and> n < length (sent s)
     | C_Copy h \<Rightarrow> cons_head (ring s) = of_nat (Suc n) \<and> h = of_nat n \<and> n < length (sent s)
     | C_Release x h \<Rightarrow> cons_head (ring s) = of_nat (Suc n) \<and> h = of_nat n \<and> n < length (sent s)
         \<and> sent s ! n = x)"

definition flight_inv :: "nat \<Rightarrow> 'a spsc \<Rightarrow> bool" where
  "flight_inv k s \<longleftrightarrow> prod_tail (ring s) = of_nat (length (sent s))
     \<and> cons_tail (ring s) = of_nat (length (received s))
     \<and> length (received s) \<le> length (sent s)
     \<and> length (sent s) \<le> length (received s) + (2 ^ k - 1)
     \<and> received s = take (length (received s)) (sent s)
     \<and> (\<forall>i. length (received s) \<le> i \<and> i < length (sent s) \<longrightarrow> cells (ring s) ! (i mod 2 ^ k) = sent s ! i)"

definition spsc_inv :: "nat \<Rightarrow> 'a spsc \<Rightarrow> bool" where
  "spsc_inv k s \<longleftrightarrow> ring_frame k (ring s) \<and> prod_inv k s \<and> cons_inv s \<and> flight_inv k s"

lemma copy_in:
  assumes "k \<le> 28" "ring_frame k r" "h = of_nat n"
  shows "ENQUEUE_PTRS h [x] r = (cells r)[n mod 2 ^ k := x]"
proof -
  have "unat (of_nat n :: int32) mod 2 ^ k = n mod 2 ^ k"
    using unat_plus_mod [of k 0 n] assms(1) by simp
  then show ?thesis
    using ENQUEUE_PTRS_mod [OF assms(1), of r "[x]" h] assms(2,3) by (simp add: ring_frame_def)
qed

lemma copy_out:
  assumes "k \<le> 28" "ring_frame k r" "h = of_nat n"
  shows "hd (DEQUEUE_PTRS h 1 r) = cells r ! (n mod 2 ^ k)"
proof -
  have "unat (of_nat n :: int32) mod 2 ^ k = n mod 2 ^ k"
    using unat_plus_mod [of k 0 n] assms(1) by simp
  then show ?thesis
    using DEQUEUE_PTRS_mod [OF assms(1), of r 1 h] assms(2,3) by (simp add: ring_frame_def)
qed

text \<open>The two checks read differences modulo \<open>2 ^ 32\<close>.\<close>

lemma of_nat_diff_0:
  assumes "m \<le> n" "n - m < 2 ^ 32"
  shows "(of_nat n :: int32) - of_nat m = 0 \<longleftrightarrow> n = m"
proof -
  have "(of_nat n :: int32) - of_nat m = of_nat (n - m)" using assms(1) by (simp add: of_nat_diff)
  moreover have "unat (of_nat (n - m) :: int32) = n - m" using assms(2) by (simp add: unat_of_nat)
  ultimately have "(of_nat n :: int32) - of_nat m = 0 \<longleftrightarrow> n - m = 0" by (metis unat_eq_0)
  then show ?thesis using assms(1) by simp
qed

lemma room_check:
  assumes "k \<le> 28" "m \<le> n" "n \<le> m + (2 ^ k - 1)"
  shows "mask k + of_nat m - (of_nat n :: int32) = 0 \<longleftrightarrow> n = m + (2 ^ k - 1)"
proof -
  have "(mask k :: int32) = of_nat (2 ^ k - 1)"
    using of_nat_mask_eq [of k, where 'a = int32] by (simp add: mask_eq_exp_minus_1 del: of_nat_mask_eq)
  then have "mask k + of_nat m - (of_nat n :: int32) = of_nat (m + (2 ^ k - 1)) - of_nat n"
    by (simp only: of_nat_add add.commute)
  then show ?thesis
    using of_nat_diff_0 [of n "m + (2 ^ k - 1)"] assms two_power_28 [OF assms(1)] by auto
qed

lemma slot_distinct:
  assumes "m \<le> i" "i < m + 2 ^ k" "m \<le> j" "j < m + 2 ^ k" "i \<noteq> (j :: nat)"
  shows "i mod 2 ^ k \<noteq> j mod 2 ^ k"
proof
  assume "i mod 2 ^ k = j mod 2 ^ k"
  then have "(m + (i - m)) mod 2 ^ k = (m + (j - m)) mod 2 ^ k" using assms by simp
  then have "i - m = j - m" by (rule ring_slots_distinct [rotated 2]) (use assms in linarith)+
  then show False using assms by linarith
qed

lemma spsc_inv_step:
  assumes "k \<le> 28" "spsc_step s t" "spsc_inv k s"
  shows "spsc_inv k t"
proof -
  have fr: "ring_frame k (ring s)" and pi: "prod_inv k s" and ci: "cons_inv s" and fl: "flight_inv k s"
    using assms(3) by (simp_all add: spsc_inv_def)
  let ?n = "length (sent s)" and ?m = "length (received s)"
  have f: "prod_tail (ring s) = of_nat ?n" "cons_tail (ring s) = of_nat ?m" "?m \<le> ?n" "?n \<le> ?m + (2 ^ k - 1)"
    "received s = take ?m (sent s)"
    "\<And>i. ?m \<le> i \<Longrightarrow> i < ?n \<Longrightarrow> cells (ring s) ! (i mod 2 ^ k) = sent s ! i"
    using fl unfolding flight_inv_def by blast+
  have mask: "prod_mask (ring s) = mask k" using fr by (simp add: ring_frame_def)
  have pos: "0 < (2 :: nat) ^ k" by simp
  from assms(2) show ?thesis
  proof (cases rule: spsc_step.cases)
    case enq_full
    then show ?thesis using assms(3) by simp
  next
    case (enq_room x)
    then have "?n \<noteq> ?m + (2 ^ k - 1)"
      using pi room_check [OF assms(1) f(3,4)] by (auto simp: prod_inv_def mask f(2))
    then have "?n < ?m + (2 ^ k - 1)" using f(4) by simp
    then show ?thesis using fr pi ci fl enq_room
      by (auto simp: spsc_inv_def prod_inv_def cons_inv_def flight_inv_def Let_def split: consumer.splits)
  next
    case (enq_head x h)
    then show ?thesis using fr pi ci fl
      by (auto simp: spsc_inv_def prod_inv_def cons_inv_def flight_inv_def ring_frame_def Let_def
          split: consumer.splits)
  next
    case (enq_copy x h)
    then have h: "h = of_nat ?n" "?n < ?m + (2 ^ k - 1)" "prod_head (ring s) = of_nat (Suc ?n)"
      using pi by (simp_all add: prod_inv_def Let_def)
    note cp = copy_in [OF assms(1) fr h(1), of x, unfolded h(1)]
    have "(?n mod 2 ^ k) < length (cells (ring s))" using fr by (simp add: ring_frame_def)
    moreover have "(cells (ring s))[?n mod 2 ^ k := x] ! (i mod 2 ^ k) = sent s ! i"
      if "?m \<le> i" "i < ?n" for i
      using slot_distinct [of ?m ?n k i] that h(2) f(6) [OF that] by simp
    ultimately show ?thesis using fr ci fl enq_copy h f(6)
      by (auto simp: spsc_inv_def prod_inv_def cons_inv_def flight_inv_def ring_frame_def Let_def cp
          split: consumer.splits)
  next
    case (enq_tail x h)
    then have h: "h = of_nat ?n" "?n < ?m + (2 ^ k - 1)" "prod_head (ring s) = of_nat (Suc ?n)"
      "cells (ring s) ! (?n mod 2 ^ k) = x" using pi by (simp_all add: prod_inv_def Let_def)
    show ?thesis using fr ci f h enq_tail
      by (auto simp: spsc_inv_def prod_inv_def cons_inv_def flight_inv_def ring_frame_def Let_def
          nth_append less_Suc_eq add.commute split: consumer.splits)
  next
    case deq_empty
    then show ?thesis using assms(3) by simp
  next
    case deq_item
    then have "?n \<noteq> ?m" using ci f(1) by (auto simp: cons_inv_def)
    then have "?m < ?n" using f(3) by simp
    then show ?thesis using fr pi ci fl deq_item
      by (auto simp: spsc_inv_def prod_inv_def cons_inv_def flight_inv_def Let_def split: producer.splits)
  next
    case (deq_head h)
    then show ?thesis using fr pi ci fl
      by (auto simp: spsc_inv_def prod_inv_def cons_inv_def flight_inv_def ring_frame_def Let_def
          split: producer.splits)
  next
    case (deq_copy h)
    then have h: "h = of_nat ?m" "?m < ?n" using ci by (simp_all add: cons_inv_def Let_def)
    have cp: "hd (DEQUEUE_PTRS (of_nat ?m) (Suc 0) (ring s)) = sent s ! ?m"
      using copy_out [OF assms(1) fr refl, of ?m] f(6) [OF order.refl h(2)] by simp
    show ?thesis using fr pi ci fl deq_copy h f(6)
      by (auto simp: spsc_inv_def prod_inv_def cons_inv_def flight_inv_def Let_def cp split: producer.splits)
  next
    case (deq_tail x h)
    then have h: "h = of_nat ?m" "?m < ?n" "sent s ! ?m = x" "cons_head (ring s) = of_nat (Suc ?m)"
      using ci by (simp_all add: cons_inv_def Let_def)
    have "received s @ [x] = take (Suc ?m) (sent s)"
      using f(5) h(2,3) by (metis take_Suc_conv_app_nth)
    then show ?thesis using fr pi f h deq_tail
      by (auto simp: spsc_inv_def prod_inv_def cons_inv_def flight_inv_def ring_frame_def Let_def
          add.commute split: producer.splits)
  qed
qed

lemma spsc_start_inv:
  assumes "k \<le> 28" "length junk = 2 ^ k"
  shows "spsc_inv k (spsc_start (rte_ring_init (2 ^ k) flags junk))"
  using assms by (simp add: spsc_inv_def ring_frame_def prod_inv_def cons_inv_def flight_inv_def
      spsc_start_def rte_ring_init_def mask_eq_exp_minus_1)

lemma spsc_reach_inv:
  assumes "k \<le> 28" "length junk = 2 ^ k" "spsc_reach (rte_ring_init (2 ^ k) flags junk) s"
  shows "spsc_inv k s"
  using assms(3) unfolding spsc_reach_def
proof (induction rule: rtranclp_induct)
  case base
  show ?case by (rule spsc_start_inv [OF assms(1,2)])
next
  case (step s t)
  then show ?case using spsc_inv_step [OF assms(1)] by blast
qed

section \<open>Properties\<close>

text \<open>C17: nothing is lost, doubled or overtaken. In every state that any interleaving of the
  producer's and the consumer's memory accesses reaches from a fresh ring of \<open>2 ^ k\<close> cells, the
  objects received are the first of the objects sent, in order, and at most \<open>2 ^ k - 1\<close> are
  still under way.\<close>

theorem spsc_fifo:
  assumes "k \<le> 27" "length junk = 2 ^ k"
    and "rte_ring_create (2 ^ k) flags junk = Some r" "spsc_reach r s"
  shows "\<exists>rest. sent s = received s @ rest \<and> length rest \<le> 2 ^ k - 1"
proof -
  have r: "r = rte_ring_init (2 ^ k) flags junk" using ring_create [OF assms(1,2), of flags] assms(3) by simp
  have "k \<le> 28" using assms(1) by simp
  then have "flight_inv k s"
    using spsc_reach_inv [OF _ assms(2)] assms(4) unfolding r spsc_inv_def by blast
  then have "received s = take (length (received s)) (sent s)"
    "length (sent s) \<le> length (received s) + (2 ^ k - 1)" "length (received s) \<le> length (sent s)"
    unfolding flight_inv_def by blast+
  then show ?thesis
    by (intro exI [of _ "drop (length (received s)) (sent s)"]) (metis append_take_drop_id diff_le_mono
        diff_add_inverse length_drop)
qed

theorem spsc_fifo_witness:
  "\<exists>s. spsc_reach (rte_ring_init 2 3 [0, 0 :: nat]) s \<and> (\<exists>rest. sent s = received s @ rest \<and> length rest \<le> 2 ^ 1 - 1)"
proof -
  have c: "rte_ring_create (2 ^ 1) 3 [0, 0 :: nat] = Some (rte_ring_init 2 3 [0, 0])"
    using ring_create [of 1 "[0, 0 :: nat]" 3] by simp
  let ?s = "spsc_start (rte_ring_init 2 3 [0, 0 :: nat])"
  have step: "spsc_step ?s (?s\<lparr>prod := P_Reserve 7 (prod_head (ring ?s))\<rparr>)"
    by (rule enq_room) (simp_all add: spsc_start_def rte_ring_init_def)
  then have "spsc_reach (rte_ring_init 2 3 [0, 0 :: nat]) (?s\<lparr>prod := P_Reserve 7 (prod_head (ring ?s))\<rparr>)"
    unfolding spsc_reach_def by (rule r_into_rtranclp)
  moreover from spsc_fifo [OF _ _ c this] have "\<exists>rest. sent (?s\<lparr>prod := P_Reserve 7 (prod_head (ring ?s))\<rparr>)
      = received (?s\<lparr>prod := P_Reserve 7 (prod_head (ring ?s))\<rparr>) @ rest \<and> length rest \<le> 2 ^ 1 - 1"
    by simp
  ultimately show ?thesis by blast
qed

text \<open>C18: the two sides never touch the same cell. Whenever the producer is about to write a
  cell while the consumer is about to read one, the cells differ, and the producer never writes
  a cell whose object has not been received yet.\<close>

theorem spsc_no_race:
  assumes "k \<le> 27" "length junk = 2 ^ k"
    and "rte_ring_create (2 ^ k) flags junk = Some r" "spsc_reach r s"
    and "prod s = P_Copy x h" "cons s = C_Copy h'"
  shows "unat (h AND prod_mask (ring s)) \<noteq> unat (h' AND prod_mask (ring s))
    \<and> (\<forall>i. length (received s) \<le> i \<and> i < length (sent s) \<longrightarrow>
        unat (h AND prod_mask (ring s)) \<noteq> i mod 2 ^ k)"
proof -
  have r: "r = rte_ring_init (2 ^ k) flags junk" using ring_create [OF assms(1,2), of flags] assms(3) by simp
  have k: "k \<le> 28" "k \<le> 32" using assms(1) by simp_all
  have inv: "ring_frame k (ring s)" "prod_inv k s" "cons_inv s"
    using spsc_reach_inv [OF k(1) assms(2)] assms(4) unfolding r spsc_inv_def by blast+
  let ?n = "length (sent s)" and ?m = "length (received s)"
  have h: "h = of_nat ?n" "?n < ?m + (2 ^ k - 1)" "h' = of_nat ?m" "?m < ?n"
    using inv(2,3) assms(5,6) by (simp_all add: prod_inv_def cons_inv_def Let_def)
  have cell: "unat ((of_nat i :: int32) AND mask k) = i mod 2 ^ k" for i
    using unat_plus_mod [OF k(2), of 0 i] by (simp add: unat_and_mask)
  have "?n mod 2 ^ k \<noteq> i mod 2 ^ k" if "?m \<le> i" "i < ?n" for i
    using slot_distinct [of ?m ?n k i] that h(2) by simp
  then show ?thesis
    using h inv(1) by (simp add: cell ring_frame_def)
qed

theorem spsc_no_race_witness:
  "\<exists>s. spsc_reach (rte_ring_init (2 ^ 2) 3 [0, 0, 0, 0 :: nat]) s \<and> prod s = P_Copy 8 1 \<and> cons s = C_Copy 0
    \<and> unat ((1 :: int32) AND prod_mask (ring s)) \<noteq> unat ((0 :: int32) AND prod_mask (ring s))"
proof -
  let ?r = "rte_ring_init (2 ^ 2) 3 [0, 0, 0, 0 :: nat]"
  have c: "rte_ring_create (2 ^ 2) 3 [0, 0, 0, 0 :: nat] = Some ?r"
    using ring_create [of 2 "[0, 0, 0, 0 :: nat]" 3] by simp
  define s where "s = \<lparr>ring = ?r\<lparr>prod_head := 2, cells := [7, 0, 0, 0], prod_tail := 1, cons_head := 1\<rparr>,
    prod = P_Copy 8 1, cons = C_Copy 0, sent = [7], received = []\<rparr>"
  have "spsc_step\<^sup>*\<^sup>* (spsc_start ?r) s"
  proof -
    have "spsc_step (spsc_start ?r) ((spsc_start ?r)\<lparr>prod := P_Reserve 7 0\<rparr>)" (is "spsc_step ?s0 ?s1")
      using enq_room [of "spsc_start ?r" 7] by (simp add: spsc_start_def rte_ring_init_def)
    moreover have "spsc_step ?s1 (?s1\<lparr>ring := ?r\<lparr>prod_head := 1\<rparr>, prod := P_Copy 7 0\<rparr>)" (is "spsc_step _ ?s2")
      using enq_head [of ?s1 7 0] by (simp add: spsc_start_def)
    moreover have "spsc_step ?s2 (?s2\<lparr>ring := ?r\<lparr>prod_head := 1, cells := [7, 0, 0, 0]\<rparr>, prod := P_Publish 7 0\<rparr>)"
      (is "spsc_step _ ?s3")
      using enq_copy [of ?s2 7 0] by (simp add: spsc_start_def rte_ring_init_def ENQUEUE_PTRS_def)
    moreover have "spsc_step ?s3 (?s3\<lparr>ring := ?r\<lparr>prod_head := 1, cells := [7, 0, 0, 0], prod_tail := 1\<rparr>,
        prod := P_Idle, sent := [7]\<rparr>)" (is "spsc_step _ ?s4")
      using enq_tail [of ?s3 7 0] by (simp add: spsc_start_def)
    moreover have "spsc_step ?s4 (?s4\<lparr>prod := P_Reserve 8 1\<rparr>)" (is "spsc_step _ ?s5")
      using enq_room [of ?s4 8] by (simp add: spsc_start_def rte_ring_init_def)
    moreover have "spsc_step ?s5 (?s5\<lparr>ring := ?r\<lparr>prod_head := 2, cells := [7, 0, 0, 0], prod_tail := 1\<rparr>,
        prod := P_Copy 8 1\<rparr>)" (is "spsc_step _ ?s6")
      using enq_head [of ?s5 8 1] by (simp add: spsc_start_def rte_ring_init_def)
    moreover have "spsc_step ?s6 (?s6\<lparr>cons := C_Reserve 0\<rparr>)" (is "spsc_step _ ?s7")
      using deq_item [of ?s6] by (simp add: spsc_start_def rte_ring_init_def)
    moreover have "spsc_step ?s7 s"
      using deq_head [of ?s7 0] by (simp add: spsc_start_def s_def)
    ultimately show ?thesis by (meson converse_rtranclp_into_rtranclp rtranclp.rtrancl_refl)
  qed
  then have reach: "spsc_reach ?r s" by (simp add: spsc_reach_def)
  have "prod s = P_Copy 8 1" "cons s = C_Copy 0" by (simp_all add: s_def)
  with spsc_no_race [OF _ _ c reach this] reach show ?thesis by auto
qed

end
