(* ===== verification/Mempool.thy ===== *)
theory Mempool
  imports Ring "HOL-Library.Multiset"
begin

text \<open>
  The memory pool of \<^verbatim>\<open>librte_mempool\<close> that all packet buffers come from: a ring of free objects,
  and for every core a cache in front of it. The objects a pool was given are at every moment
  either with the clients, in a cache or in the ring; no object is in two places.
\<close>

unbundle bit_operations_syntax

section \<open>The structures\<close>

definition RTE_MEMPOOL_CACHE_MAX_SIZE :: nat where
  "RTE_MEMPOOL_CACHE_MAX_SIZE = 512"

definition RTE_MAX_LCORE :: nat where
  "RTE_MAX_LCORE = 128"

definition MEMPOOL_F_SP_PUT :: int32 where
  "MEMPOOL_F_SP_PUT = 4"

definition MEMPOOL_F_SC_GET :: int32 where
  "MEMPOOL_F_SC_GET = 8"

definition MEMPOOL_F_POOL_CREATED :: int32 where
  "MEMPOOL_F_POOL_CREATED = 16"

text \<open>The live objects of a cache, oldest first; the field \<open>len\<close> of the code is their number.\<close>

record 'a rte_mempool_cache =
  cache_sz :: nat
  flushthresh :: nat
  objs :: "'a list"

datatype mempool_ops = ops_mp_mc | ops_sp_sc | ops_mp_sc | ops_sp_mc

record 'a rte_mempool =
  pool_data :: "'a rte_ring"
  mp_flags :: int32
  mp_size :: nat
  mp_cache_size :: nat
  header_size :: nat
  elt_size :: nat
  trailer_size :: nat
  ops_index :: mempool_ops
  local_cache :: "'a rte_mempool_cache list"
  populated_size :: nat
  elt_list :: "'a list"

section \<open>The ring behind the pool\<close>

definition common_ring_mp_enqueue :: "'a list \<Rightarrow> 'a rte_ring \<Rightarrow> (int \<times> 'a rte_ring) option" where
  "common_ring_mp_enqueue xs r = mp_do_enqueue xs QUEUE_FIXED r"

definition common_ring_sp_enqueue :: "'a list \<Rightarrow> 'a rte_ring \<Rightarrow> (int \<times> 'a rte_ring) option" where
  "common_ring_sp_enqueue xs r = Some (sp_do_enqueue xs QUEUE_FIXED r)"

definition common_ring_mc_dequeue :: "nat \<Rightarrow> 'a rte_ring \<Rightarrow> (int \<times> 'a list \<times> 'a rte_ring) option" where
  "common_ring_mc_dequeue n r = mc_do_dequeue n QUEUE_FIXED r"

definition common_ring_sc_dequeue :: "nat \<Rightarrow> 'a rte_ring \<Rightarrow> (int \<times> 'a list \<times> 'a rte_ring) option" where
  "common_ring_sc_dequeue n r = Some (sc_do_dequeue n QUEUE_FIXED r)"

definition common_ring_get_count :: "'a rte_mempool \<Rightarrow> nat" where
  "common_ring_get_count mp = rte_ring_count (pool_data mp)"

fun ops_enqueue :: "mempool_ops \<Rightarrow> 'a list \<Rightarrow> 'a rte_ring \<Rightarrow> (int \<times> 'a rte_ring) option" where
  "ops_enqueue ops_mp_mc = common_ring_mp_enqueue"
| "ops_enqueue ops_sp_sc = common_ring_sp_enqueue"
| "ops_enqueue ops_mp_sc = common_ring_mp_enqueue"
| "ops_enqueue ops_sp_mc = common_ring_sp_enqueue"

fun ops_dequeue :: "mempool_ops \<Rightarrow> nat \<Rightarrow> 'a rte_ring \<Rightarrow> (int \<times> 'a list \<times> 'a rte_ring) option" where
  "ops_dequeue ops_mp_mc = common_ring_mc_dequeue"
| "ops_dequeue ops_sp_sc = common_ring_sc_dequeue"
| "ops_dequeue ops_mp_sc = common_ring_sc_dequeue"
| "ops_dequeue ops_sp_mc = common_ring_mc_dequeue"

definition rte_mempool_ops_enqueue_bulk :: "'a list \<Rightarrow> 'a rte_mempool \<Rightarrow> (int \<times> 'a rte_mempool) option" where
  "rte_mempool_ops_enqueue_bulk xs mp =
     map_option (\<lambda>(ret, r). (ret, mp\<lparr>pool_data := r\<rparr>)) (ops_enqueue (ops_index mp) xs (pool_data mp))"

definition rte_mempool_ops_dequeue_bulk :: "nat \<Rightarrow> 'a rte_mempool \<Rightarrow> (int \<times> 'a list \<times> 'a rte_mempool) option" where
  "rte_mempool_ops_dequeue_bulk n mp =
     map_option (\<lambda>(ret, xs, r). (ret, xs, mp\<lparr>pool_data := r\<rparr>)) (ops_dequeue (ops_index mp) n (pool_data mp))"

section \<open>Put and get\<close>

text \<open>The cache of a core: an index into the table, none when the pool has no caches or the
  thread no core.\<close>

definition rte_mempool_default_cache :: "'a rte_mempool \<Rightarrow> nat \<Rightarrow> nat option" where
  "rte_mempool_default_cache mp lcore_id =
     (if mp_cache_size mp = 0 then None
      else if RTE_MAX_LCORE \<le> lcore_id then None else Some lcore_id)"

definition set_cache :: "nat \<Rightarrow> 'a list \<Rightarrow> 'a rte_mempool \<Rightarrow> 'a rte_mempool" where
  "set_cache i xs mp = mp\<lparr>local_cache := (local_cache mp)[i := (local_cache mp ! i)\<lparr>objs := xs\<rparr>]\<rparr>"

definition rte_mempool_cache_flush :: "nat \<Rightarrow> 'a rte_mempool \<Rightarrow> 'a rte_mempool option" where
  "rte_mempool_cache_flush i mp =
     map_option (\<lambda>(ret, mp). set_cache i [] mp) (rte_mempool_ops_enqueue_bulk (objs (local_cache mp ! i)) mp)"

definition mempool_generic_put :: "'a list \<Rightarrow> nat option \<Rightarrow> int32 \<Rightarrow> 'a rte_mempool \<Rightarrow> 'a rte_mempool option" where
  "mempool_generic_put xs cache flags mp =
     (let ring_enqueue = map_option snd (rte_mempool_ops_enqueue_bulk xs mp)
      in case cache of
           None \<Rightarrow> ring_enqueue
         | Some i \<Rightarrow>
             if flags AND MEMPOOL_F_SP_PUT \<noteq> 0 \<or> RTE_MEMPOOL_CACHE_MAX_SIZE < length xs then ring_enqueue
             else (let c = local_cache mp ! i;
                       os = objs c @ xs
                   in if flushthresh c \<le> length os
                      then map_option (\<lambda>(ret, mp). set_cache i (take (cache_sz c) os) mp)
                             (rte_mempool_ops_enqueue_bulk (drop (cache_sz c) os) mp)
                      else Some (set_cache i os mp)))"

definition rte_mempool_put_bulk :: "'a list \<Rightarrow> nat \<Rightarrow> 'a rte_mempool \<Rightarrow> 'a rte_mempool option" where
  "rte_mempool_put_bulk xs lcore_id mp =
     mempool_generic_put xs (rte_mempool_default_cache mp lcore_id) (mp_flags mp) mp"

definition rte_mempool_put :: "'a \<Rightarrow> nat \<Rightarrow> 'a rte_mempool \<Rightarrow> 'a rte_mempool option" where
  "rte_mempool_put x lcore_id mp = rte_mempool_put_bulk [x] lcore_id mp"

definition cache_take :: "nat \<Rightarrow> 'a list \<Rightarrow> nat \<Rightarrow> 'a rte_mempool \<Rightarrow> int \<times> 'a list \<times> 'a rte_mempool" where
  "cache_take n os i mp = (0, take n (rev os), set_cache i (take (length os - n) os) mp)"

definition mempool_generic_get :: "nat \<Rightarrow> nat option \<Rightarrow> int32 \<Rightarrow> 'a rte_mempool
    \<Rightarrow> (int \<times> 'a list \<times> 'a rte_mempool) option" where
  "mempool_generic_get n cache flags mp =
     (let ring_dequeue = rte_mempool_ops_dequeue_bulk n mp
      in case cache of
           None \<Rightarrow> ring_dequeue
         | Some i \<Rightarrow>
             (let c = local_cache mp ! i
              in if flags AND MEMPOOL_F_SC_GET \<noteq> 0 \<or> cache_sz c \<le> n then ring_dequeue
                 else if length (objs c) < n then
                   (let req = n + (cache_sz c - length (objs c))
                    in case rte_mempool_ops_dequeue_bulk req mp of
                         None \<Rightarrow> None
                       | Some (ret, xs, mp') \<Rightarrow>
                           if ret < 0 then rte_mempool_ops_dequeue_bulk n mp'
                           else Some (cache_take n (objs c @ xs) i mp'))
                 else Some (cache_take n (objs c) i mp)))"

definition rte_mempool_get_bulk :: "nat \<Rightarrow> nat \<Rightarrow> 'a rte_mempool \<Rightarrow> (int \<times> 'a list \<times> 'a rte_mempool) option" where
  "rte_mempool_get_bulk n lcore_id mp =
     mempool_generic_get n (rte_mempool_default_cache mp lcore_id) (mp_flags mp) mp"

definition rte_mempool_get :: "nat \<Rightarrow> 'a rte_mempool \<Rightarrow> (int \<times> 'a list \<times> 'a rte_mempool) option" where
  "rte_mempool_get lcore_id mp = rte_mempool_get_bulk 1 lcore_id mp"

definition rte_mempool_avail_count :: "'a rte_mempool \<Rightarrow> nat" where
  "rte_mempool_avail_count mp =
     (let count = common_ring_get_count mp
      in if mp_cache_size mp = 0 then count
         else let count = fold (\<lambda>lcore_id count. count + length (objs (local_cache mp ! lcore_id)))
                [0..<RTE_MAX_LCORE] count
              in if mp_size mp < count then mp_size mp else count)"

definition rte_mempool_in_use_count :: "'a rte_mempool \<Rightarrow> nat" where
  "rte_mempool_in_use_count mp = mp_size mp - rte_mempool_avail_count mp"

section \<open>Creating a pool\<close>

definition EINVAL :: int where
  "EINVAL = 22"

definition ENOSPC :: int where
  "ENOSPC = 28"

definition RTE_CACHE_LINE_SIZE :: nat where
  "RTE_CACHE_LINE_SIZE = 64"

definition rte_align32pow2 :: "int32 \<Rightarrow> int32" where
  "rte_align32pow2 x =
     (let x = x - 1;
          x = x OR drop_bit 1 x;
          x = x OR drop_bit 2 x;
          x = x OR drop_bit 4 x;
          x = x OR drop_bit 8 x;
          x = x OR drop_bit 16 x
      in x + 1)"

definition CALC_CACHE_FLUSHTHRESH :: "nat \<Rightarrow> nat" where
  "CALC_CACHE_FLUSHTHRESH c = c * 3 div 2"

definition mempool_cache_init :: "nat \<Rightarrow> 'a rte_mempool_cache" where
  "mempool_cache_init sz = \<lparr>cache_sz = sz, flushthresh = CALC_CACHE_FLUSHTHRESH sz, objs = []\<rparr>"

text \<open>The sizes of header, element and trailer and the memory of the ring are arguments.\<close>

definition rte_mempool_create_empty :: "nat \<Rightarrow> nat \<times> nat \<times> nat \<Rightarrow> nat \<Rightarrow> int32 \<Rightarrow> 'a rte_mempool option" where
  "rte_mempool_create_empty n objsz cache_size flags =
     (if RTE_MEMPOOL_CACHE_MAX_SIZE < cache_size \<or> n < CALC_CACHE_FLUSHTHRESH cache_size then None
      else Some \<lparr>pool_data = rte_ring_init 0 0 [], mp_flags = flags, mp_size = n, mp_cache_size = cache_size,
        header_size = fst objsz, elt_size = fst (snd objsz), trailer_size = snd (snd objsz),
        ops_index = ops_mp_mc,
        local_cache = replicate RTE_MAX_LCORE (mempool_cache_init cache_size),
        populated_size = 0, elt_list = []\<rparr>)"

definition common_ring_alloc :: "'a list \<Rightarrow> 'a rte_mempool \<Rightarrow> 'a rte_mempool option" where
  "common_ring_alloc junk mp =
     (let rg_flags = (if mp_flags mp AND MEMPOOL_F_SP_PUT \<noteq> 0 then RING_F_SP_ENQ else 0)
            OR (if mp_flags mp AND MEMPOOL_F_SC_GET \<noteq> 0 then RING_F_SC_DEQ else 0)
      in map_option (\<lambda>r. mp\<lparr>pool_data := r\<rparr>)
           (rte_ring_create (rte_align32pow2 (of_nat (mp_size mp + 1))) rg_flags junk))"

definition mempool_add_elem :: "'a \<Rightarrow> 'a rte_mempool \<Rightarrow> 'a rte_mempool option" where
  "mempool_add_elem obj mp =
     map_option snd (rte_mempool_ops_enqueue_bulk [obj]
       (mp\<lparr>elt_list := elt_list mp @ [obj], populated_size := populated_size mp + 1\<rparr>))"

definition total_elt_sz :: "'a rte_mempool \<Rightarrow> nat" where
  "total_elt_sz mp = header_size mp + elt_size mp + trailer_size mp"

text \<open>The loop of \<open>rte_mempool_populate_phys\<close> over one chunk of memory: it adds the addresses of
  the elements until the chunk or the pool is full. \<open>m\<close> counts down the elements still missing.\<close>

primrec populate_loop :: "nat \<Rightarrow> nat \<Rightarrow> nat \<Rightarrow> nat \<Rightarrow> nat rte_mempool \<Rightarrow> nat rte_mempool option" where
  "populate_loop 0 vaddr off len mp = Some mp"
| "populate_loop (Suc m) vaddr off len mp =
     (if off + total_elt_sz mp \<le> len then
        (case mempool_add_elem (vaddr + (off + header_size mp)) mp of
           None \<Rightarrow> None
         | Some mp' \<Rightarrow> populate_loop m vaddr (off + total_elt_sz mp) len mp')
      else Some mp)"

definition align_ceil :: "nat \<Rightarrow> nat \<Rightarrow> nat" where
  "align_ceil x a = (x + (a - 1)) div a * a"

definition MEMPOOL_F_NO_CACHE_ALIGN :: int32 where
  "MEMPOOL_F_NO_CACHE_ALIGN = 2"

text \<open>The memory of the internal ring, made at the first call, is the argument \<open>junk\<close>; \<open>None\<close> is a
  ring call that does not return.\<close>

definition rte_mempool_populate_phys :: "nat list \<Rightarrow> nat \<Rightarrow> nat \<Rightarrow> nat rte_mempool
    \<Rightarrow> ((int + nat) \<times> nat rte_mempool) option" where
  "rte_mempool_populate_phys junk vaddr len mp =
     (case (if mp_flags mp AND MEMPOOL_F_POOL_CREATED = 0
            then map_option (\<lambda>mp. mp\<lparr>mp_flags := mp_flags mp OR MEMPOOL_F_POOL_CREATED\<rparr>) (common_ring_alloc junk mp)
            else Some mp) of
        None \<Rightarrow> Some (Inl (- EINVAL), mp)
      | Some mp \<Rightarrow>
          if mp_size mp \<le> populated_size mp then Some (Inl (- ENOSPC), mp)
          else (let a = (if mp_flags mp AND MEMPOOL_F_NO_CACHE_ALIGN \<noteq> 0 then 8 else RTE_CACHE_LINE_SIZE);
                    off = align_ceil vaddr a - vaddr
                in map_option (\<lambda>mp'. (if populated_size mp' = populated_size mp then Inl (- EINVAL)
                     else Inr (populated_size mp' - populated_size mp), mp'))
                     (populate_loop (mp_size mp - populated_size mp) vaddr off len mp)))"

section \<open>The ring behind the pool\<close>

lemma enqueue_fits:
  assumes "ring_ok r" "length (queued r) + length xs \<le> capacity r"
  obtains r' where "ops_enqueue ops xs r = Some (0, r')" "ring_ok r'" "queued r' = queued r @ xs"
    "capacity r' = capacity r"
proof -
  have n: "length xs < 2 ^ 32" "length xs \<le> free_of r"
    using assms(2) ring_free(2,3) [OF assms(1)] by (simp_all add: free_of_def)
  have sp: "sp_do_enqueue xs QUEUE_FIXED r = (0, enq_result xs r)"
    using enqueue_fixed(1) [OF assms(1) n(1)] n(2) by simp
  note res = enq_result_queue [OF assms]
  show ?thesis
  proof (cases "xs = []")
    case True
    then have "mp_do_enqueue xs QUEUE_FIXED r = Some (0, r)" by (simp add: mp_do_enqueue_def)
    then show ?thesis using that res assms(1) True sp
      by (cases ops) (auto simp: common_ring_mp_enqueue_def common_ring_sp_enqueue_def)
  next
    case False
    then have "mp_do_enqueue xs QUEUE_FIXED r = Some (0, enq_result xs r)"
      using enqueue_fixed(2) [OF assms(1) n(1)] n(2) by simp
    then show ?thesis using that res sp
      by (cases ops) (auto simp: common_ring_mp_enqueue_def common_ring_sp_enqueue_def)
  qed
qed

lemma dequeue_cases:
  assumes "ring_ok r" "0 < n" "n < 2 ^ 32"
  obtains (some) r' where "n \<le> length (queued r)" "ops_dequeue ops n r = Some (0, take n (queued r), r')"
    "ring_ok r'" "queued r' = drop n (queued r)" "capacity r' = capacity r"
  | (none) "length (queued r) < n" "ops_dequeue ops n r = Some (- ENOENT, [], r)"
  using dequeue_fixed [OF assms(1,3)] deq_result_queue [OF assms(1), of n] assms(2)
  by (cases ops; cases "n \<le> length (queued r)")
    (auto simp: common_ring_mc_dequeue_def common_ring_sc_dequeue_def)

section \<open>The objects of a pool\<close>

definition cached :: "'a rte_mempool_cache list \<Rightarrow> 'a multiset" where
  "cached cs = sum_list (map (\<lambda>c. mset (objs c)) cs)"

definition pool_objs :: "'a rte_mempool \<Rightarrow> 'a multiset" where
  "pool_objs mp = mset (queued (pool_data mp)) + cached (local_cache mp)"

definition cache_ok :: "nat \<Rightarrow> 'a rte_mempool_cache \<Rightarrow> bool" where
  "cache_ok sz c \<longleftrightarrow> cache_sz c = sz \<and> flushthresh c = CALC_CACHE_FLUSHTHRESH sz
     \<and> length (objs c) \<le> flushthresh c"

definition pool_ok :: "'a rte_mempool \<Rightarrow> bool" where
  "pool_ok mp \<longleftrightarrow> ring_ok (pool_data mp) \<and> mp_size mp \<le> capacity (pool_data mp)
     \<and> mp_cache_size mp \<le> RTE_MEMPOOL_CACHE_MAX_SIZE \<and> length (local_cache mp) = RTE_MAX_LCORE
     \<and> (\<forall>c \<in> set (local_cache mp). cache_ok (mp_cache_size mp) c)"

lemma cached_update:
  "i < length cs \<Longrightarrow> cached (cs[i := c]) + mset (objs (cs ! i)) = cached cs + mset (objs c)"
proof (induction cs arbitrary: i)
  case Nil
  then show ?case by simp
next
  case (Cons a cs)
  then show ?case by (cases i) (auto simp: cached_def ac_simps)
qed

lemma cached_set_cache:
  assumes "i < length (local_cache mp)"
  shows "cached (local_cache (set_cache i xs mp)) + mset (objs (local_cache mp ! i))
    = cached (local_cache mp) + mset xs"
  using cached_update [OF assms] by (simp add: set_cache_def)

lemma set_cache_simps [simp]:
  "pool_data (set_cache i xs mp) = pool_data mp" "mp_size (set_cache i xs mp) = mp_size mp"
  "mp_cache_size (set_cache i xs mp) = mp_cache_size mp" "mp_flags (set_cache i xs mp) = mp_flags mp"
  "length (local_cache (set_cache i xs mp)) = length (local_cache mp)"
  "ops_index (set_cache i xs mp) = ops_index mp"
  by (simp_all add: set_cache_def)

lemma cache_ok_set:
  assumes "\<forall>c \<in> set (local_cache mp). cache_ok sz c" "i < length (local_cache mp)"
    "length xs \<le> CALC_CACHE_FLUSHTHRESH sz"
  shows "\<forall>c \<in> set (local_cache (set_cache i xs mp)). cache_ok sz c"
proof
  fix c
  assume "c \<in> set (local_cache (set_cache i xs mp))"
  then have "c = (local_cache mp ! i)\<lparr>objs := xs\<rparr> \<or> c \<in> set (local_cache mp)"
    unfolding set_cache_def by (auto dest: subsetD [OF set_update_subset_insert])
  then show "cache_ok sz c" using assms nth_mem [OF assms(2)] by (auto simp: cache_ok_def)
qed

text \<open>Objects may move between the ring and one cache, and come (\<open>W\<close>) and go (\<open>Z\<close>).\<close>

lemma move_objs:
  assumes "pool_ok mp" "i < length (local_cache mp)" "ring_ok r" "capacity r = capacity (pool_data mp)"
    and "length ys \<le> CALC_CACHE_FLUSHTHRESH (mp_cache_size mp)"
    and "mset (queued r) + mset ys + Z = mset (queued (pool_data mp)) + mset (objs (local_cache mp ! i)) + W"
  shows "pool_ok (set_cache i ys (mp\<lparr>pool_data := r\<rparr>))"
    and "pool_objs (set_cache i ys (mp\<lparr>pool_data := r\<rparr>)) + Z = pool_objs mp + W"
proof -
  show "pool_ok (set_cache i ys (mp\<lparr>pool_data := r\<rparr>))"
    using assms cache_ok_set [of "mp\<lparr>pool_data := r\<rparr>" _ i ys] by (simp add: pool_ok_def)
  let ?old = "mset (objs (local_cache mp ! i))"
  have "pool_objs (set_cache i ys (mp\<lparr>pool_data := r\<rparr>)) + Z + ?old
      = mset (queued r) + Z + (cached (local_cache (set_cache i ys (mp\<lparr>pool_data := r\<rparr>))) + ?old)"
    by (simp add: pool_objs_def)
  also have "\<dots> = (mset (queued r) + mset ys + Z) + cached (local_cache mp)"
    using cached_set_cache [of i "mp\<lparr>pool_data := r\<rparr>" ys] assms(2) by (simp add: ac_simps)
  also have "\<dots> = pool_objs mp + W + ?old"
    unfolding assms(6) by (simp add: pool_objs_def ac_simps)
  finally show "pool_objs (set_cache i ys (mp\<lparr>pool_data := r\<rparr>)) + Z = pool_objs mp + W" by simp
qed

lemma cache_le:
  fixes mp :: "'a rte_mempool"
  assumes "i < length (local_cache mp)"
  shows "length (objs (local_cache mp ! i)) \<le> size (cached (local_cache mp))"
  using cached_set_cache [OF assms, of "[]"]
  by (metis add.right_neutral le_add2 mset.simps(1) size_mset size_union)

lemma default_cache:
  assumes "pool_ok mp" "rte_mempool_default_cache mp l = Some i"
  shows "i = l" "i < length (local_cache mp)" "cache_sz (local_cache mp ! i) = mp_cache_size mp"
    "flushthresh (local_cache mp ! i) = CALC_CACHE_FLUSHTHRESH (mp_cache_size mp)"
    "length (objs (local_cache mp ! i)) \<le> CALC_CACHE_FLUSHTHRESH (mp_cache_size mp)"
proof -
  show "i = l" using assms(2) by (auto simp: rte_mempool_default_cache_def split: if_splits)
  show i: "i < length (local_cache mp)"
    using assms by (auto simp: rte_mempool_default_cache_def pool_ok_def split: if_splits)
  have "cache_ok (mp_cache_size mp) (local_cache mp ! i)"
    using assms(1) nth_mem [OF i] by (simp add: pool_ok_def)
  then show "cache_sz (local_cache mp ! i) = mp_cache_size mp"
    "flushthresh (local_cache mp ! i) = CALC_CACHE_FLUSHTHRESH (mp_cache_size mp)"
    "length (objs (local_cache mp ! i)) \<le> CALC_CACHE_FLUSHTHRESH (mp_cache_size mp)"
    by (simp_all add: cache_ok_def)
qed

lemma pool_enqueue:
  assumes "pool_ok mp" "length (queued (pool_data mp)) + length xs \<le> capacity (pool_data mp)"
  obtains r where "rte_mempool_ops_enqueue_bulk xs mp = Some (0, mp\<lparr>pool_data := r\<rparr>)" "ring_ok r"
    "queued r = queued (pool_data mp) @ xs" "capacity r = capacity (pool_data mp)"
proof -
  have "ring_ok (pool_data mp)" using assms(1) by (simp add: pool_ok_def)
  then obtain r where r: "ops_enqueue (ops_index mp) xs (pool_data mp) = Some (0, r)" "ring_ok r"
    "queued r = queued (pool_data mp) @ xs" "capacity r = capacity (pool_data mp)"
    using assms(2) by (rule enqueue_fits)
  show ?thesis by (rule that [OF _ r(2-)]) (simp add: rte_mempool_ops_enqueue_bulk_def r(1))
qed

lemma pool_dequeue:
  assumes "pool_ok mp" "0 < n" "n < 2 ^ 32"
  obtains (some) r where "n \<le> length (queued (pool_data mp))"
    "rte_mempool_ops_dequeue_bulk n mp = Some (0, take n (queued (pool_data mp)), mp\<lparr>pool_data := r\<rparr>)"
    "ring_ok r" "queued r = drop n (queued (pool_data mp))" "capacity r = capacity (pool_data mp)"
  | (none) "length (queued (pool_data mp)) < n"
    "rte_mempool_ops_dequeue_bulk n mp = Some (- ENOENT, [], mp)"
proof -
  have "ring_ok (pool_data mp)" using assms(1) by (simp add: pool_ok_def)
  then show ?thesis using that
    by (cases rule: dequeue_cases [OF _ assms(2,3), of "pool_data mp" "ops_index mp"])
      (auto simp: rte_mempool_ops_dequeue_bulk_def)
qed

section \<open>Put and get keep the objects\<close>

lemma ring_put:
  assumes "pool_ok mp" "size (pool_objs mp) + length xs \<le> mp_size mp"
  shows "\<exists>mp'. map_option snd (rte_mempool_ops_enqueue_bulk xs mp) = Some mp' \<and> pool_ok mp'
    \<and> pool_objs mp' = pool_objs mp + mset xs \<and> mp_size mp' = mp_size mp \<and> mp_cache_size mp' = mp_cache_size mp"
proof -
  have "length (queued (pool_data mp)) + length xs \<le> capacity (pool_data mp)"
    using assms by (simp add: pool_ok_def pool_objs_def)
  then obtain r where "rte_mempool_ops_enqueue_bulk xs mp = Some (0, mp\<lparr>pool_data := r\<rparr>)" "ring_ok r"
    "queued r = queued (pool_data mp) @ xs" "capacity r = capacity (pool_data mp)"
    by (rule pool_enqueue [OF assms(1)])
  then show ?thesis using assms(1) by (simp add: pool_ok_def pool_objs_def)
qed

lemma cache_put:
  assumes "pool_ok mp" "size (pool_objs mp) + length xs \<le> mp_size mp"
    and "rte_mempool_default_cache mp l = Some i" and "os = objs (local_cache mp ! i) @ xs"
  shows "\<exists>mp'. (if flushthresh (local_cache mp ! i) \<le> length os
      then map_option (\<lambda>(ret, mp'). set_cache i (take (cache_sz (local_cache mp ! i)) os) mp')
        (rte_mempool_ops_enqueue_bulk (drop (cache_sz (local_cache mp ! i)) os) mp)
      else Some (set_cache i os mp)) = Some mp' \<and> pool_ok mp'
    \<and> pool_objs mp' = pool_objs mp + mset xs \<and> mp_size mp' = mp_size mp \<and> mp_cache_size mp' = mp_cache_size mp"
proof (cases "flushthresh (local_cache mp ! i) \<le> length os")
  case True
  note c = default_cache [OF assms(1,3)]
  let ?sz = "mp_cache_size mp"
  have "length (queued (pool_data mp)) + length os \<le> capacity (pool_data mp)"
    using assms(1,2) cache_le [OF c(2)] by (simp add: pool_ok_def pool_objs_def assms(4))
  then have "length (queued (pool_data mp)) + length (drop ?sz os) \<le> capacity (pool_data mp)" by simp
  then obtain r where r: "rte_mempool_ops_enqueue_bulk (drop ?sz os) mp = Some (0, mp\<lparr>pool_data := r\<rparr>)"
    "ring_ok r" "queued r = queued (pool_data mp) @ drop ?sz os" "capacity r = capacity (pool_data mp)"
    by (rule pool_enqueue [OF assms(1)])
  have "mset (take ?sz os) + mset (drop ?sz os) = mset os" by (metis append_take_drop_id mset_append)
  then have "mset (queued r) + mset (take ?sz os) + {#}
      = mset (queued (pool_data mp)) + mset (objs (local_cache mp ! i)) + mset xs"
    by (simp add: r(3) assms(4) ac_simps)
  moreover have "length (take ?sz os) \<le> CALC_CACHE_FLUSHTHRESH ?sz" by (simp add: CALC_CACHE_FLUSHTHRESH_def)
  ultimately show ?thesis
    using move_objs [OF assms(1) c(2) r(2,4), of "take ?sz os" "{#}" "mset xs"] True by (simp add: c(3) r(1))
next
  case False
  note c = default_cache [OF assms(1,3)]
  have "ring_ok (pool_data mp)" using assms(1) by (simp add: pool_ok_def)
  then show ?thesis
    using move_objs [OF assms(1) c(2) _ refl, of os "{#}" "mset xs"] False by (simp add: assms(4) c(4))
qed

lemma put_bulk:
  assumes "pool_ok mp" "size (pool_objs mp) + length xs \<le> mp_size mp"
  shows "\<exists>mp'. rte_mempool_put_bulk xs l mp = Some mp' \<and> pool_ok mp' \<and> pool_objs mp' = pool_objs mp + mset xs
    \<and> mp_size mp' = mp_size mp \<and> mp_cache_size mp' = mp_cache_size mp"
proof (cases "rte_mempool_default_cache mp l")
  case None
  then show ?thesis using ring_put [OF assms] by (simp add: rte_mempool_put_bulk_def mempool_generic_put_def)
next
  case (Some i)
  then show ?thesis using ring_put [OF assms] cache_put [OF assms Some refl]
    by (auto simp: rte_mempool_put_bulk_def mempool_generic_put_def Let_def
        simp del: map_option_eq_Some append_assoc take_append drop_append length_append)
qed

text \<open>Get, when it succeeds, hands out objects of the pool, and fails only when neither the cache
  nor the ring has them.\<close>

lemma cache_take_ok:
  assumes "pool_ok mp" "rte_mempool_default_cache mp l = Some i" "ring_ok r" "capacity r = capacity (pool_data mp)"
    and "mset (queued r) + mset os = mset (queued (pool_data mp)) + mset (objs (local_cache mp ! i))"
    and "n \<le> length os" "length os \<le> n + CALC_CACHE_FLUSHTHRESH (mp_cache_size mp)"
  shows "\<exists>xs mp'. cache_take n os i (mp\<lparr>pool_data := r\<rparr>) = (0, xs, mp') \<and> length xs = n \<and> pool_ok mp'
    \<and> pool_objs mp = pool_objs mp' + mset xs \<and> mp_size mp' = mp_size mp \<and> mp_cache_size mp' = mp_cache_size mp"
proof -
  note c = default_cache [OF assms(1,2)]
  let ?rest = "take (length os - n) os"
  have "mset (take n (rev os)) + mset ?rest = mset os"
    by (metis append_take_drop_id mset_append mset_rev rev_take take_rev union_commute)
  then have e: "mset (queued r) + mset ?rest + mset (take n (rev os))
      = mset (queued (pool_data mp)) + mset (objs (local_cache mp ! i)) + {#}"
    using assms(5) by (simp add: ac_simps)
  have "length ?rest \<le> CALC_CACHE_FLUSHTHRESH (mp_cache_size mp)" using assms(7) by simp
  note m = move_objs [OF assms(1) c(2) assms(3,4) this e]
  show ?thesis using m assms(6) by (simp add: cache_take_def)
qed

text \<open>What a call for \<open>n\<close> objects may do to the pool: hand out \<open>n\<close> of them, or fail.\<close>

definition got :: "nat \<Rightarrow> 'a rte_mempool \<Rightarrow> (int \<times> 'a list \<times> 'a rte_mempool) option \<Rightarrow> bool" where
  "got n mp res \<longleftrightarrow> (\<exists>xs mp'. res = Some (0, xs, mp') \<and> length xs = n \<and> pool_ok mp'
      \<and> pool_objs mp = pool_objs mp' + mset xs \<and> mp_size mp' = mp_size mp \<and> mp_cache_size mp' = mp_cache_size mp)"

lemma get_ring:
  assumes "pool_ok mp" "0 < n" "n < 2 ^ 32"
  shows "got n mp (rte_mempool_ops_dequeue_bulk n mp)
    \<or> rte_mempool_ops_dequeue_bulk n mp = Some (- ENOENT, [], mp) \<and> length (queued (pool_data mp)) < n"
proof (cases rule: pool_dequeue [OF assms])
  case (1 r)
  have "mset (take n (queued (pool_data mp))) + mset (drop n (queued (pool_data mp))) = mset (queued (pool_data mp))"
    by (metis append_take_drop_id mset_append)
  then have "pool_objs mp = pool_objs (mp\<lparr>pool_data := r\<rparr>) + mset (take n (queued (pool_data mp)))"
    by (simp add: pool_objs_def 1(4) ac_simps)
  moreover have "pool_ok (mp\<lparr>pool_data := r\<rparr>)" using 1(3,5) assms(1) by (simp add: pool_ok_def)
  ultimately show ?thesis using 1(1) by (simp add: got_def 1(2))
next
  case 2
  then show ?thesis by simp
qed

lemma get_refill:
  assumes "pool_ok mp" "rte_mempool_default_cache mp l = Some i"
    and "n < mp_cache_size mp" "length (objs (local_cache mp ! i)) < n"
    and "req = n + (mp_cache_size mp - length (objs (local_cache mp ! i)))"
    and "ring_ok r" "capacity r = capacity (pool_data mp)" "req \<le> length (queued (pool_data mp))"
      "queued r = drop req (queued (pool_data mp))"
  shows "got n mp (Some (cache_take n (objs (local_cache mp ! i) @ take req (queued (pool_data mp))) i
    (mp\<lparr>pool_data := r\<rparr>)))"
proof -
  let ?os = "objs (local_cache mp ! i) @ take req (queued (pool_data mp))"
  have "mset (take req (queued (pool_data mp))) + mset (drop req (queued (pool_data mp))) = mset (queued (pool_data mp))"
    by (metis append_take_drop_id mset_append)
  then have "mset (queued r) + mset ?os = mset (queued (pool_data mp)) + mset (objs (local_cache mp ! i))"
    by (simp add: assms(9) ac_simps)
  moreover have "n \<le> length ?os" "length ?os \<le> n + CALC_CACHE_FLUSHTHRESH (mp_cache_size mp)"
    using assms(3,4,5,8) by (simp_all add: CALC_CACHE_FLUSHTHRESH_def)
  ultimately show ?thesis using cache_take_ok [OF assms(1,2,6,7)] by (simp add: got_def)
qed

lemma get_bulk:
  assumes "pool_ok mp" "0 < n" "n < 2 ^ 31"
  shows "got n mp (rte_mempool_get_bulk n l mp)
    \<or> rte_mempool_get_bulk n l mp = Some (- ENOENT, [], mp) \<and> length (queued (pool_data mp)) < n
      \<and> (\<forall>i. rte_mempool_default_cache mp l = Some i \<and> n < mp_cache_size mp \<and> mp_flags mp AND MEMPOOL_F_SC_GET = 0
          \<longrightarrow> length (objs (local_cache mp ! i)) < n)"
proof (cases "rte_mempool_default_cache mp l")
  case None
  then show ?thesis using get_ring [OF assms(1,2)] assms(3)
    by (simp add: rte_mempool_get_bulk_def mempool_generic_get_def)
next
  case (Some i)
  note c = default_cache [OF assms(1) Some] and get = rte_mempool_get_bulk_def mempool_generic_get_def Let_def Some
  have n32: "n < 2 ^ 32" using assms(3) by simp
  let ?c = "local_cache mp ! i" and ?sz = "mp_cache_size mp"
  consider (ring) "mp_flags mp AND MEMPOOL_F_SC_GET \<noteq> 0 \<or> ?sz \<le> n"
    | (refill) "mp_flags mp AND MEMPOOL_F_SC_GET = 0" "n < ?sz" "length (objs ?c) < n"
    | (full) "mp_flags mp AND MEMPOOL_F_SC_GET = 0" "n < ?sz" "n \<le> length (objs ?c)" by linarith
  then show ?thesis
  proof cases
    case ring
    then have "rte_mempool_get_bulk n l mp = rte_mempool_ops_dequeue_bulk n mp" by (auto simp: get c(3))
    then show ?thesis using get_ring [OF assms(1,2) n32] ring Some by auto
  next
    case full
    have "ring_ok (pool_data mp)" using assms(1) by (simp add: pool_ok_def)
    moreover have "length (objs ?c) \<le> n + CALC_CACHE_FLUSHTHRESH ?sz" using c(5) by simp
    ultimately have "got n mp (Some (cache_take n (objs ?c) i mp))"
      using cache_take_ok [OF assms(1) Some, of "pool_data mp" "objs ?c" n] full(3) by (simp add: got_def)
    then show ?thesis using full by (simp add: get c(3))
  next
    case refill
    let ?req = "n + (?sz - length (objs ?c))"
    have "?sz \<le> 512" using assms(1) by (simp add: pool_ok_def RTE_MEMPOOL_CACHE_MAX_SIZE_def)
    then have req: "0 < ?req" "?req < 2 ^ 32" using assms(2) refill(2) by simp_all
    show ?thesis
    proof (cases rule: pool_dequeue [OF assms(1) req])
      case (1 r)
      then show ?thesis using get_refill [OF assms(1) Some refill(2,3) refl 1(3,5,1,4)] refill
        by (simp add: get c(3))
    next
      case 2
      then have "rte_mempool_get_bulk n l mp = rte_mempool_ops_dequeue_bulk n mp"
        using refill by (simp add: get c(3) ENOENT_def)
      then show ?thesis using get_ring [OF assms(1,2) n32] refill Some by auto
    qed
  qed
qed

section \<open>The size of the ring\<close>

definition smeared :: "nat \<Rightarrow> int32 \<Rightarrow> int32 \<Rightarrow> bool" where
  "smeared d x y \<longleftrightarrow> (\<forall>i. bit y i \<longleftrightarrow> (\<exists>e < d. bit x (i + e)))"

lemma smear_start: "smeared 1 x x"
  by (simp add: smeared_def)

lemma smear_step:
  assumes "smeared d x y"
  shows "smeared (2 * d) x (y OR drop_bit d y)"
  unfolding smeared_def
proof
  fix i
  have "(\<exists>e < 2 * d. bit x (i + e)) \<longleftrightarrow> (\<exists>e < d. bit x (i + e)) \<or> (\<exists>e < d. bit x (d + i + e))" (is "?l \<longleftrightarrow> ?r")
  proof
    assume ?l
    then obtain e where e: "e < 2 * d" "bit x (i + e)" by blast
    show ?r
    proof (cases "e < d")
      case True
      then show ?thesis using e by blast
    next
      case False
      then have "e - d < d" "bit x (d + i + (e - d))" using e by (simp_all add: add.commute add.left_commute)
      then show ?thesis by blast
    qed
  next
    assume ?r
    then show ?l
    proof (elim disjE exE conjE)
      fix e
      assume "e < d" "bit x (i + e)"
      then show ?l by (intro exI [of _ e]) simp
    next
      fix e
      assume "e < d" "bit x (d + i + e)"
      then show ?l by (intro exI [of _ "d + e"]) (simp add: ac_simps)
    qed
  qed
  then show "bit (y OR drop_bit d y) i \<longleftrightarrow> (\<exists>e < 2 * d. bit x (i + e))"
    using assms by (simp add: smeared_def bit_or_iff bit_drop_bit_eq)
qed

lemma bit_less_power:
  fixes w :: int32
  assumes "unat w < 2 ^ k" "k \<le> i"
  shows "\<not> bit w i"
proof
  assume "bit w i"
  then have "bit (unat w) i" by (simp add: bit_unsigned_iff)
  then have "2 ^ i \<le> unat w" by (auto simp: bit_iff_odd) (metis div_less even_zero not_le_imp_less)
  moreover have "(2 :: nat) ^ k \<le> 2 ^ i" using assms(2) by (intro power_increasing) simp_all
  ultimately show False using assms(1) by simp
qed

lemma bit_top:
  fixes w :: int32
  assumes "2 ^ k \<le> unat w" "unat w < 2 ^ Suc k" "k < 32"
  shows "bit w k"
proof -
  have "unat w div 2 ^ k = 1" using assms(1,2) by (intro div_nat_eqI) simp_all
  then have "bit (unat w) k" by (simp add: bit_iff_odd)
  then show ?thesis by (simp add: bit_unsigned_iff)
qed

text \<open>The smallest power of two that is no less than the argument.\<close>

lemma align32pow2:
  assumes "1 \<le> unat x" "unat x \<le> 2 ^ k" "k = 0 \<or> 2 ^ (k - 1) < unat x" "k \<le> 31"
  shows "rte_align32pow2 x = 2 ^ k"
proof -
  let ?y = "x - 1"
  have x1: "unat ?y = unat x - 1" using assms(1) by (subst unat_sub) (simp_all add: word_le_nat_alt)
  define z where "z = (let x = ?y OR drop_bit 1 ?y; x = x OR drop_bit 2 x; x = x OR drop_bit 4 x;
    x = x OR drop_bit 8 x in x OR drop_bit 16 x)"
  have "smeared (2 * (2 * (2 * (2 * (2 * 1))))) ?y z"
    using smear_step [OF smear_step [OF smear_step [OF smear_step [OF smear_step [OF smear_start [of ?y]]]]]]
    by (simp add: z_def Let_def)
  then have bits: "bit z i \<longleftrightarrow> (\<exists>e < 32. bit ?y (i + e))" for i by (simp add: smeared_def)
  have "z = mask k"
  proof (rule bit_word_eqI)
    fix i
    assume i: "i < LENGTH(32)"
    show "bit z i \<longleftrightarrow> bit (mask k :: int32) i"
    proof (cases "i < k")
      case True
      then have "2 ^ (k - 1) \<le> unat ?y" "unat ?y < 2 ^ Suc (k - 1)" using assms(2,3) x1 by auto
      then have "bit ?y (i + (k - 1 - i))" using bit_top [of "k - 1" ?y] True assms(4) by simp
      moreover have "k - 1 - i < 32" using assms(4) by simp
      ultimately have "bit z i" unfolding bits by blast
      then show ?thesis using True i by (simp add: bit_mask_iff)
    next
      case False
      have "unat ?y < 2 ^ k" using x1 assms(1,2) by simp
      then have "\<not> bit ?y (i + e)" for e using bit_less_power [of ?y k "i + e"] False by simp
      then show ?thesis using False by (simp add: bits bit_mask_iff)
    qed
  qed
  then show ?thesis by (simp add: rte_align32pow2_def z_def Let_def mask_eq_exp_minus_1)
qed

section \<open>A fresh pool\<close>

lemma create_empty:
  assumes "cache_size \<le> RTE_MEMPOOL_CACHE_MAX_SIZE" "CALC_CACHE_FLUSHTHRESH cache_size \<le> n"
  obtains mp where "rte_mempool_create_empty n objsz cache_size flags = Some mp" "mp_size mp = n"
    "mp_flags mp = flags" "mp_cache_size mp = cache_size" "populated_size mp = 0" "ops_index mp = ops_mp_mc"
    "local_cache mp = replicate RTE_MAX_LCORE (mempool_cache_init cache_size)"
    "total_elt_sz mp = fst objsz + fst (snd objsz) + snd (snd objsz)" "header_size mp = fst objsz" "elt_list mp = []"
  using assms by (simp add: rte_mempool_create_empty_def total_elt_sz_def)

lemma cached_replicate: "cached (replicate m (mempool_cache_init c)) = {#}"
  by (induction m) (simp_all add: cached_def mempool_cache_init_def)

lemma add_elem:
  assumes "pool_ok mp" "length (queued (pool_data mp)) < capacity (pool_data mp)"
  obtains mp' where "mempool_add_elem x mp = Some mp'" "pool_ok mp'"
    "queued (pool_data mp') = queued (pool_data mp) @ [x]" "capacity (pool_data mp') = capacity (pool_data mp)"
    "local_cache mp' = local_cache mp" "mp_size mp' = mp_size mp" "mp_cache_size mp' = mp_cache_size mp"
    "populated_size mp' = Suc (populated_size mp)" "header_size mp' = header_size mp"
    "total_elt_sz mp' = total_elt_sz mp" "mp_flags mp' = mp_flags mp" "elt_list mp' = elt_list mp @ [x]"
proof -
  let ?mp = "mp\<lparr>elt_list := elt_list mp @ [x], populated_size := populated_size mp + 1\<rparr>"
  have "pool_ok ?mp" using assms(1) by (simp add: pool_ok_def)
  moreover have "length (queued (pool_data ?mp)) + length [x] \<le> capacity (pool_data ?mp)"
    using assms(2) by simp
  ultimately obtain r where r: "rte_mempool_ops_enqueue_bulk [x] ?mp = Some (0, ?mp\<lparr>pool_data := r\<rparr>)" "ring_ok r"
    "queued r = queued (pool_data ?mp) @ [x]" "capacity r = capacity (pool_data ?mp)"
    by (rule pool_enqueue)
  show ?thesis
    by (rule that [of "?mp\<lparr>pool_data := r\<rparr>"])
      (use r assms(1) in \<open>simp_all add: mempool_add_elem_def pool_ok_def total_elt_sz_def\<close>)
qed

lemma populate_all:
  assumes "pool_ok mp" "length (queued (pool_data mp)) + m \<le> capacity (pool_data mp)"
    and "off + m * total_elt_sz mp \<le> len"
  shows "\<exists>mp'. populate_loop m vaddr off len mp = Some mp' \<and> pool_ok mp' \<and> local_cache mp' = local_cache mp
    \<and> queued (pool_data mp') = queued (pool_data mp)
        @ map (\<lambda>i. vaddr + off + i * total_elt_sz mp + header_size mp) [0..<m]
    \<and> mp_size mp' = mp_size mp \<and> mp_cache_size mp' = mp_cache_size mp
    \<and> populated_size mp' = populated_size mp + m \<and> mp_flags mp' = mp_flags mp
    \<and> (elt_list mp = queued (pool_data mp) \<longrightarrow> elt_list mp' = queued (pool_data mp'))"
  using assms
proof (induction m arbitrary: off mp)
  case 0
  then show ?case by simp
next
  case (Suc m)
  have "length (queued (pool_data mp)) < capacity (pool_data mp)" using Suc.prems(2) by simp
  then obtain mp1 where mp1: "mempool_add_elem (vaddr + (off + header_size mp)) mp = Some mp1" "pool_ok mp1"
    "queued (pool_data mp1) = queued (pool_data mp) @ [vaddr + (off + header_size mp)]"
    "capacity (pool_data mp1) = capacity (pool_data mp)"
    "local_cache mp1 = local_cache mp" "mp_size mp1 = mp_size mp" "mp_cache_size mp1 = mp_cache_size mp"
    "populated_size mp1 = Suc (populated_size mp)" "header_size mp1 = header_size mp"
    "total_elt_sz mp1 = total_elt_sz mp" "mp_flags mp1 = mp_flags mp" "elt_list mp1 = elt_list mp @ [vaddr + (off + header_size mp)]"
    by (rule add_elem [OF Suc.prems(1)])
  have e: "map (\<lambda>i. vaddr + off + i * total_elt_sz mp + header_size mp) [0..<Suc m]
    = (vaddr + (off + header_size mp)) # map (\<lambda>i. vaddr + (off + total_elt_sz mp) + i * total_elt_sz mp + header_size mp) [0..<m]"
    by (simp add: upt_conv_Cons map_Suc_upt [symmetric] ac_simps del: upt_Suc)
  have run: "populate_loop (Suc m) vaddr off len mp = populate_loop m vaddr (off + total_elt_sz mp) len mp1"
    using Suc.prems(3) by (simp add: mp1(1))
  have "\<exists>mp'. populate_loop m vaddr (off + total_elt_sz mp) len mp1 = Some mp' \<and> pool_ok mp'
    \<and> local_cache mp' = local_cache mp1 \<and> queued (pool_data mp') = queued (pool_data mp1)
        @ map (\<lambda>i. vaddr + (off + total_elt_sz mp) + i * total_elt_sz mp1 + header_size mp1) [0..<m]
    \<and> mp_size mp' = mp_size mp1 \<and> mp_cache_size mp' = mp_cache_size mp1
    \<and> populated_size mp' = populated_size mp1 + m \<and> mp_flags mp' = mp_flags mp1
    \<and> (elt_list mp1 = queued (pool_data mp1) \<longrightarrow> elt_list mp' = queued (pool_data mp'))"
    by (rule Suc.IH [OF mp1(2)]) (use Suc.prems mp1 in simp_all)
  then show ?case unfolding run e by (simp add: mp1(2-) del: upt_Suc)
qed

definition elt_addr :: "nat \<Rightarrow> nat \<times> nat \<times> nat \<Rightarrow> nat \<Rightarrow> nat" where
  "elt_addr vaddr objsz i = align_ceil vaddr RTE_CACHE_LINE_SIZE
     + i * (fst objsz + fst (snd objsz) + snd (snd objsz)) + fst objsz"

lemma align_ceil_ge: "0 < a \<Longrightarrow> x \<le> align_ceil x a"
proof -
  assume "0 < a"
  then have "(x + (a - 1)) mod a < a" "0 < a" by simp_all
  moreover have "(x + (a - 1)) div a * a + (x + (a - 1)) mod a = x + (a - 1)" by simp
  ultimately show ?thesis unfolding align_ceil_def by linarith
qed

lemma fresh_pool:
  assumes "cache_size \<le> RTE_MEMPOOL_CACHE_MAX_SIZE" "CALC_CACHE_FLUSHTHRESH cache_size \<le> n"
    and "0 < k" "k \<le> 27" "2 ^ (k - 1) \<le> n" "n < 2 ^ k" "length junk = 2 ^ k"
    and "align_ceil vaddr RTE_CACHE_LINE_SIZE - vaddr + n * (fst objsz + fst (snd objsz) + snd (snd objsz)) \<le> len"
  shows "\<exists>mp0 mp. rte_mempool_create_empty n objsz cache_size 0 = Some mp0
    \<and> rte_mempool_populate_phys junk vaddr len mp0 = Some (Inr n, mp)
    \<and> pool_ok mp \<and> mp_size mp = n \<and> mp_cache_size mp = cache_size \<and> mp_flags mp = MEMPOOL_F_POOL_CREATED
    \<and> local_cache mp = replicate RTE_MAX_LCORE (mempool_cache_init cache_size)
    \<and> queued (pool_data mp) = map (elt_addr vaddr objsz) [0..<n] \<and> elt_list mp = map (elt_addr vaddr objsz) [0..<n]"
proof -
  obtain mp0 :: "nat rte_mempool" where mp0: "rte_mempool_create_empty n objsz cache_size 0 = Some mp0" "mp_size mp0 = n"
    "mp_flags mp0 = 0" "mp_cache_size mp0 = cache_size" "populated_size mp0 = 0" "ops_index mp0 = ops_mp_mc"
    "local_cache mp0 = replicate RTE_MAX_LCORE (mempool_cache_init cache_size)"
    "total_elt_sz mp0 = fst objsz + fst (snd objsz) + snd (snd objsz)" "header_size mp0 = fst objsz" "elt_list mp0 = []"
    by (rule create_empty [OF assms(1,2)])
  have k28: "k \<le> 28" using assms(4) by simp
  have n0: "0 < n" using assms(5) by (metis less_le_trans zero_less_numeral zero_less_power)
  have u: "unat (of_nat (n + 1) :: int32) = n + 1"
    using assms(6) two_power_28 [OF k28] by (simp only: unat_of_nat) simp
  have "rte_align32pow2 (of_nat (n + 1)) = 2 ^ k"
    by (rule align32pow2) (use u assms(3-6) in auto)
  then have alloc: "common_ring_alloc junk mp0 = Some (mp0\<lparr>pool_data := rte_ring_init (2 ^ k) 0 junk\<rparr>)"
    by (simp add: common_ring_alloc_def mp0 ring_create [OF assms(4,7)])
  define mp1 where "mp1 = mp0\<lparr>pool_data := rte_ring_init (2 ^ k) 0 junk, mp_flags := MEMPOOL_F_POOL_CREATED\<rparr>"
  note ring = ring_init [OF k28 assms(7), of 0]
  have "pool_ok mp1"
    using assms(1,6) by (auto simp: pool_ok_def mp1_def ring mp0 cache_ok_def mempool_cache_init_def)
  moreover have "length (queued (pool_data mp1)) + n \<le> capacity (pool_data mp1)"
    using assms(6) by (simp add: mp1_def ring)
  moreover have "(align_ceil vaddr RTE_CACHE_LINE_SIZE - vaddr) + n * total_elt_sz mp1 \<le> len"
    using assms(8) mp0(8) by (simp add: mp1_def total_elt_sz_def)
  ultimately obtain mp where mp: "populate_loop n vaddr (align_ceil vaddr RTE_CACHE_LINE_SIZE - vaddr) len mp1 = Some mp"
    "pool_ok mp" "local_cache mp = local_cache mp1"
    "queued (pool_data mp) = queued (pool_data mp1) @ map (\<lambda>i. vaddr + (align_ceil vaddr RTE_CACHE_LINE_SIZE - vaddr)
        + i * total_elt_sz mp1 + header_size mp1) [0..<n]"
    "mp_size mp = mp_size mp1" "mp_cache_size mp = mp_cache_size mp1"
    "populated_size mp = populated_size mp1 + n" "mp_flags mp = mp_flags mp1"
    "elt_list mp1 = queued (pool_data mp1) \<Longrightarrow> elt_list mp = queued (pool_data mp)"
    using populate_all by blast
  have "vaddr + (align_ceil vaddr RTE_CACHE_LINE_SIZE - vaddr) = align_ceil vaddr RTE_CACHE_LINE_SIZE"
    using align_ceil_ge [of RTE_CACHE_LINE_SIZE vaddr] by (simp add: RTE_CACHE_LINE_SIZE_def)
  moreover have "total_elt_sz mp1 = total_elt_sz mp0" by (simp add: mp1_def total_elt_sz_def)
  ultimately have q: "queued (pool_data mp) = map (elt_addr vaddr objsz) [0..<n]"
    using mp(4) mp0(8,9) by (simp add: mp1_def ring elt_addr_def)
  have "rte_mempool_populate_phys junk vaddr len mp0 = Some (Inr n, mp)"
    using mp(1,7) n0 by (simp add: rte_mempool_populate_phys_def mp0 alloc mp1_def MEMPOOL_F_POOL_CREATED_def
        MEMPOOL_F_NO_CACHE_ALIGN_def Let_def)
  then show ?thesis using mp0(1) mp(2,3,5,6,8,9) q by (simp add: mp1_def mp0 ring)
qed

text \<open>The count of the free objects.\<close>

lemma fold_count: "fold (\<lambda>i c. c + length (objs (cs ! i))) [0..<length cs] a = a + size (cached cs)"
proof -
  have "fold (\<lambda>i c. c + f i) xs b = b + sum_list (map f xs)" for f :: "nat \<Rightarrow> nat" and xs b
    by (induction xs arbitrary: b) simp_all
  moreover have "map (\<lambda>i. length (objs (cs ! i))) [0..<length cs] = map (\<lambda>c. length (objs c)) cs"
    by (rule nth_equalityI) simp_all
  moreover have "size (cached cs) = sum_list (map (\<lambda>c. length (objs c)) cs)"
    by (induction cs) (simp_all add: cached_def)
  ultimately show ?thesis by (simp only:)
qed

lemma avail_count:
  assumes "pool_ok mp" "size (pool_objs mp) \<le> mp_size mp" "mp_cache_size mp \<noteq> 0"
  shows "rte_mempool_avail_count mp = size (pool_objs mp)"
proof -
  have "ring_ok (pool_data mp)" "length (local_cache mp) = RTE_MAX_LCORE" using assms(1) by (simp_all add: pool_ok_def)
  then show ?thesis
    using assms(2,3) fold_count [of "local_cache mp"] ring_state_calls(3) [of "pool_data mp"]
    by (simp add: rte_mempool_avail_count_def common_ring_get_count_def pool_objs_def Let_def)
qed

section \<open>The contract of a pool\<close>

text \<open>The calls of the clients of a pool, each by a core: take an object, give back one of those
  held.\<close>

datatype pool_call = Alloc nat | Free nat nat

fun run_pool :: "(nat \<Rightarrow> 'p \<Rightarrow> (int \<times> 'a list \<times> 'p) option) \<Rightarrow> ('a \<Rightarrow> nat \<Rightarrow> 'p \<Rightarrow> 'p option)
    \<Rightarrow> pool_call list \<Rightarrow> 'a list \<Rightarrow> 'p \<Rightarrow> ('a list \<times> 'p) option" where
  "run_pool get put [] held p = Some (held, p)"
| "run_pool get put (Alloc l # cs) held p = (case get l p of None \<Rightarrow> None
     | Some (ret, xs, p) \<Rightarrow> run_pool get put cs (if ret < 0 then held else held @ xs) p)"
| "run_pool get put (Free l i # cs) held p =
     (if i < length held then (case put (held ! i) l p of None \<Rightarrow> None
        | Some p \<Rightarrow> run_pool get put cs (take i held @ drop (Suc i) held) p)
      else run_pool get put cs held p)"

locale object_pool =
  fixes ok :: "'p \<Rightarrow> bool" and contents :: "'p \<Rightarrow> 'a multiset" and room :: "'p \<Rightarrow> nat"
    and get :: "nat \<Rightarrow> 'p \<Rightarrow> (int \<times> 'a list \<times> 'p) option" and put :: "'a \<Rightarrow> nat \<Rightarrow> 'p \<Rightarrow> 'p option"
  assumes get_one: "ok p \<Longrightarrow> (\<exists>x p'. get l p = Some (0, [x], p') \<and> ok p'
      \<and> contents p = add_mset x (contents p') \<and> room p' = room p) \<or> get l p = Some (- ENOENT, [], p)"
    and put_one: "ok p \<Longrightarrow> size (contents p) < room p \<Longrightarrow>
      \<exists>p'. put x l p = Some p' \<and> ok p' \<and> contents p' = add_mset x (contents p) \<and> room p' = room p"
begin

lemma get_cases:
  assumes "ok p"
  obtains (some) x p' where "get l p = Some (0, [x], p')" "ok p'" "contents p = add_mset x (contents p')"
    "room p' = room p"
  | (none) "get l p = Some (- ENOENT, [], p)"
  using get_one [OF assms] by blast

lemma conserved:
  "ok p \<Longrightarrow> mset held + contents p = all \<Longrightarrow> size all \<le> room p \<Longrightarrow>
    \<exists>held' p'. run_pool get put cs held p = Some (held', p') \<and> ok p' \<and> mset held' + contents p' = all"
proof (induction cs arbitrary: held p)
  case Nil
  then show ?case by simp
next
  case (Cons c cs)
  show ?case
  proof (cases c)
    case (Alloc l)
    show ?thesis
    proof (cases rule: get_cases [OF Cons.prems(1), of l])
      case (1 x p')
      then show ?thesis using Cons.IH [OF 1(2), of "held @ [x]"] Cons.prems by (simp add: Alloc)
    next
      case 2
      then show ?thesis using Cons.IH [OF Cons.prems] by (simp add: Alloc ENOENT_def)
    qed
  next
    case (Free l i)
    show ?thesis
    proof (cases "i < length held")
      case True
      then have held: "mset held = add_mset (held ! i) (mset (take i held @ drop (Suc i) held))"
        by (metis id_take_nth_drop mset.simps(2) mset_append union_mset_add_mset_right)
      then have "size (contents p) < room p" using Cons.prems(2,3) by auto
      then obtain p' where p': "put (held ! i) l p = Some p'" "ok p'"
        "contents p' = add_mset (held ! i) (contents p)" "room p' = room p" using put_one [OF Cons.prems(1)] by blast
      have "mset (take i held @ drop (Suc i) held) + contents p' = all"
        using Cons.prems(2) unfolding held p'(3) by simp
      then show ?thesis using Cons.IH [OF p'(2)] Cons.prems(3) True by (simp add: Free p'(1,4))
    next
      case False
      then show ?thesis using Cons.IH [OF Cons.prems] by (simp add: Free)
    qed
  qed
qed

end

lemma distinct_part:
  assumes "mset xs + M = mset ys" "distinct ys"
  shows "distinct xs"
proof -
  obtain zs where "mset zs = M" using ex_mset by blast
  then have "mset (xs @ zs) = mset ys" using assms(1) by simp
  then have "distinct (xs @ zs)" using assms(2) mset_eq_imp_distinct_iff by blast
  then show ?thesis by simp
qed

interpretation mempool: object_pool pool_ok pool_objs mp_size rte_mempool_get rte_mempool_put
proof unfold_locales
  show "(\<exists>x p'. rte_mempool_get l p = Some (0, [x], p') \<and> pool_ok p' \<and> pool_objs p = add_mset x (pool_objs p')
      \<and> mp_size p' = mp_size p) \<or> rte_mempool_get l p = Some (- ENOENT, [], p)"
    if "pool_ok p" for p :: "'a rte_mempool" and l
    using get_bulk [OF that, of 1 l] by (auto simp: rte_mempool_get_def got_def length_Suc_conv)
  show "\<exists>p'. rte_mempool_put x l p = Some p' \<and> pool_ok p' \<and> pool_objs p' = add_mset x (pool_objs p)
      \<and> mp_size p' = mp_size p"
    if "pool_ok p" "size (pool_objs p) < mp_size p" for p and x :: 'a and l
    using put_bulk [OF that(1), of "[x]" l] that(2) by (auto simp: rte_mempool_put_def)
qed

text \<open>A call on behalf of a core leaves the caches of the other cores and the parameters of the
  pool alone.\<close>

definition pool_frame :: "nat \<Rightarrow> 'a rte_mempool \<Rightarrow> 'a rte_mempool \<Rightarrow> bool" where
  "pool_frame l mp mp' \<longleftrightarrow> mp_cache_size mp' = mp_cache_size mp \<and> mp_flags mp' = mp_flags mp
     \<and> (\<forall>j. j \<noteq> l \<longrightarrow> local_cache mp' ! j = local_cache mp ! j)"

lemma ops_frame:
  "rte_mempool_ops_dequeue_bulk n mp = Some (ret, ys, mp') \<Longrightarrow> pool_frame l mp mp'"
  "rte_mempool_ops_enqueue_bulk xs mp = Some (ret', mp'') \<Longrightarrow> pool_frame l mp mp''"
  by (auto simp: rte_mempool_ops_dequeue_bulk_def rte_mempool_ops_enqueue_bulk_def pool_frame_def)

lemma set_cache_frame: "pool_frame l mp mp' \<Longrightarrow> pool_frame l mp (set_cache l xs mp')"
  by (simp add: pool_frame_def) (simp add: set_cache_def)

lemma frame_refl: "pool_frame l mp mp"
  by (simp add: pool_frame_def)

lemma frame_trans: "pool_frame l a b \<Longrightarrow> pool_frame l b c \<Longrightarrow> pool_frame l a c"
  by (simp add: pool_frame_def)

lemma own_cache: "rte_mempool_default_cache mp l = Some i \<Longrightarrow> i = l"
  by (simp add: rte_mempool_default_cache_def split: if_splits)

lemma get_frame:
  assumes "rte_mempool_get l mp = Some (ret, xs, mp')"
  shows "pool_frame l mp mp'"
proof (cases "rte_mempool_default_cache mp l")
  case None
  then show ?thesis
    using assms ops_frame(1) by (simp add: rte_mempool_get_def rte_mempool_get_bulk_def mempool_generic_get_def)
next
  case (Some i)
  note unfolded = assms [unfolded rte_mempool_get_def rte_mempool_get_bulk_def mempool_generic_get_def Let_def
      Some own_cache [OF Some] option.case]
  show ?thesis
    using unfolded by (auto simp: cache_take_def own_cache [OF Some] intro: set_cache_frame frame_refl ops_frame
        split: if_splits option.splits) (metis frame_trans ops_frame(1) set_cache_frame)+
qed

lemma put_frame:
  assumes "rte_mempool_put x l mp = Some mp'"
  shows "pool_frame l mp mp'"
proof (cases "rte_mempool_default_cache mp l")
  case None
  then show ?thesis
    using assms ops_frame(2) by (auto simp: rte_mempool_put_def rte_mempool_put_bulk_def mempool_generic_put_def)
next
  case (Some i)
  note unfolded = assms [unfolded rte_mempool_put_def rte_mempool_put_bulk_def mempool_generic_put_def Let_def
      Some own_cache [OF Some] option.case]
  show ?thesis
    using unfolded by (auto intro: set_cache_frame frame_refl ops_frame split: if_splits option.splits)
qed

lemma get_exact:
  assumes "pool_ok mp" "1 < mp_cache_size mp" "mp_flags mp AND MEMPOOL_F_SC_GET = 0" "l < RTE_MAX_LCORE"
  shows "(\<exists>x mp'. rte_mempool_get l mp = Some (0, [x], mp'))
    \<longleftrightarrow> queued (pool_data mp) \<noteq> [] \<or> objs (local_cache mp ! l) \<noteq> []"
proof -
  have c: "rte_mempool_default_cache mp l = Some l" using assms(2,4) by (simp add: rte_mempool_default_cache_def)
  note d = default_cache [OF assms(1) c]
  show ?thesis
  proof (cases "queued (pool_data mp) \<noteq> [] \<or> objs (local_cache mp ! l) \<noteq> []")
    case True
    then show ?thesis using get_bulk [OF assms(1), of 1 l] assms(2,3) c
      by (auto simp: rte_mempool_get_def got_def length_Suc_conv)
  next
    case False
    have ok: "ring_ok (pool_data mp)" using assms(1) by (simp add: pool_ok_def)
    have "mp_cache_size mp \<le> 512" using assms(1) by (simp add: pool_ok_def RTE_MEMPOOL_CACHE_MAX_SIZE_def)
    then have "rte_mempool_ops_dequeue_bulk n mp = Some (- ENOENT, [], mp)" if "0 < n" "n \<le> 513" for n
      using pool_dequeue [OF assms(1) that(1)] that False by fastforce
    then show ?thesis using False assms(2,3) \<open>mp_cache_size mp \<le> 512\<close>
      by (simp add: rte_mempool_get_def rte_mempool_get_bulk_def mempool_generic_get_def c d(3) Let_def ENOENT_def)
  qed
qed

text \<open>A pool of three elements, for the examples.\<close>

lemma small_pool:
  obtains mp :: "nat rte_mempool" where "pool_ok mp" "mp_size mp = 3" "mp_cache_size mp = 2" "mp_flags mp AND MEMPOOL_F_SC_GET = 0"
    "queued (pool_data mp) = [64, 256, 448]" "pool_objs mp = mset [64, 256, 448]"
proof -
  obtain mp where mp: "pool_ok mp" "mp_size mp = 3" "mp_cache_size mp = 2" "mp_flags mp = MEMPOOL_F_POOL_CREATED"
    "local_cache mp = replicate RTE_MAX_LCORE (mempool_cache_init 2)"
    "queued (pool_data mp) = map (elt_addr 0 (64, 128, 0)) [0..<3]"
    using fresh_pool [of 2 3 2 "[0, 0, 0, 0]" 0 "(64, 128, 0)" 1000]
    by (auto simp: RTE_MEMPOOL_CACHE_MAX_SIZE_def CALC_CACHE_FLUSHTHRESH_def align_ceil_def RTE_CACHE_LINE_SIZE_def)
  have q: "queued (pool_data mp) = [64, 256, 448]"
    by (simp add: mp(6) elt_addr_def align_ceil_def RTE_CACHE_LINE_SIZE_def upt_rec)
  show ?thesis
    by (rule that [OF mp(1-3) _ q])
      (simp_all only: mp(4,5) pool_objs_def q cached_replicate add.right_neutral,
        simp add: MEMPOOL_F_POOL_CREATED_def MEMPOOL_F_SC_GET_def)
qed

section \<open>Properties\<close>

text \<open>What a pool is made of. For a size \<open>n\<close> with \<open>2 ^ (k - 1) \<le> n < 2 ^ k\<close> and a chunk of
  memory with room for \<open>n\<close> elements, \<open>rte_mempool_create_empty\<close> and \<open>rte_mempool_populate_phys\<close>
  succeed and add \<open>n\<close> elements; the internal ring, whose size \<open>rte_align32pow2\<close> computes, holds
  them all. The elements lie inside the chunk and no two of them overlap.\<close>

theorem pool_elements:
  assumes "cache_size \<le> RTE_MEMPOOL_CACHE_MAX_SIZE" "CALC_CACHE_FLUSHTHRESH cache_size \<le> n"
    and "0 < k" "k \<le> 27" "2 ^ (k - 1) \<le> n" "n < 2 ^ k" "length junk = 2 ^ k"
    and "align_ceil vaddr RTE_CACHE_LINE_SIZE - vaddr + n * (header + elt + trailer) \<le> len"
    and "rte_mempool_create_empty n (header, elt, trailer) cache_size 0 = Some mp0"
  shows "\<exists>mp es. rte_mempool_populate_phys junk vaddr len mp0 = Some (Inr n, mp) \<and> pool_objs mp = mset es
    \<and> length es = n \<and> (\<forall>i < n. vaddr + header \<le> es ! i \<and> es ! i + elt + trailer \<le> vaddr + len)
    \<and> (\<forall>j < n. \<forall>i < j. es ! i + elt + trailer + header \<le> es ! j)"
proof -
  let ?es = "map (elt_addr vaddr (header, elt, trailer)) [0..<n]" and ?t = "header + elt + trailer"
  obtain mp where mp: "rte_mempool_populate_phys junk vaddr len mp0 = Some (Inr n, mp)"
    "local_cache mp = replicate RTE_MAX_LCORE (mempool_cache_init cache_size)" "queued (pool_data mp) = ?es"
    using fresh_pool [OF assms(1-7), of vaddr "(header, elt, trailer)" len] assms(8,9) by auto
  have "pool_objs mp = mset ?es" by (simp only: pool_objs_def mp(2,3) cached_replicate add.right_neutral)
  moreover have a: "vaddr \<le> align_ceil vaddr RTE_CACHE_LINE_SIZE"
    by (rule align_ceil_ge) (simp add: RTE_CACHE_LINE_SIZE_def)
  have "vaddr + header \<le> ?es ! i \<and> ?es ! i + elt + trailer \<le> vaddr + len" if "i < n" for i
  proof -
    have "Suc i * ?t \<le> n * ?t" using that by (intro mult_le_mono1) simp
    then show ?thesis using that a assms(8) by (simp add: elt_addr_def)
  qed
  moreover have "?es ! i + elt + trailer + header \<le> ?es ! j" if "j < n" "i < j" for i j
  proof -
    have "Suc i * ?t \<le> j * ?t" using that(2) by (intro mult_le_mono1) simp
    then show ?thesis using that by (simp add: elt_addr_def)
  qed
  ultimately show ?thesis using mp(1) by (intro exI [of _ mp] exI [of _ ?es]) simp
qed

theorem pool_elements_witness:
  "\<exists>mp0 mp es. rte_mempool_create_empty 3 (64, 128, 0) 0 0 = Some mp0
    \<and> rte_mempool_populate_phys [0, 0, 0, 0] 100 1000 mp0 = Some (Inr 3, mp) \<and> pool_objs mp = mset es
    \<and> length es = 3 \<and> es ! 0 + 128 + 0 + 64 \<le> es ! 1"
proof -
  obtain mp0 where c: "rte_mempool_create_empty 3 (64, 128, 0) 0 0 = Some (mp0 :: nat rte_mempool)"
    by (simp add: rte_mempool_create_empty_def RTE_MEMPOOL_CACHE_MAX_SIZE_def CALC_CACHE_FLUSHTHRESH_def)
  have "\<exists>mp es. rte_mempool_populate_phys [0, 0, 0, 0] 100 1000 mp0 = Some (Inr 3, mp) \<and> pool_objs mp = mset es
    \<and> length es = 3 \<and> (\<forall>i < 3. 100 + 64 \<le> es ! i \<and> es ! i + 128 + 0 \<le> 100 + 1000)
    \<and> (\<forall>j < 3. \<forall>i < j. es ! i + 128 + 0 + 64 \<le> es ! j)"
    by (rule pool_elements [where k = 2, OF _ _ _ _ _ _ _ _ c])
      (simp_all add: RTE_MEMPOOL_CACHE_MAX_SIZE_def CALC_CACHE_FLUSHTHRESH_def align_ceil_def RTE_CACHE_LINE_SIZE_def)
  then obtain mp es where "rte_mempool_populate_phys [0, 0, 0, 0] 100 1000 mp0 = Some (Inr 3, mp)"
    "pool_objs mp = mset es" "length es = 3" "\<forall>j < 3. \<forall>i < j. es ! i + 128 + 0 + 64 \<le> es ! j" by blast
  moreover from this(4) have "es ! 0 + 128 + 0 + 64 \<le> es ! 1" by (elim allE [of _ 1]) simp
  ultimately show ?thesis using c by blast
qed

text \<open>C19: no object is lost and none is handed out twice. From a pool that holds the distinct
  objects \<open>all\<close>, every sequence of \<open>rte_mempool_get\<close> and \<open>rte_mempool_put\<close> calls by any cores runs to
  its end, the objects held at the end are distinct, and together with the caches and the ring
  they are the objects of the pool.\<close>

theorem pool_conserves:
  assumes "pool_ok mp" "pool_objs mp = mset all" "distinct all" "length all \<le> mp_size mp"
  shows "\<exists>held mp'. run_pool rte_mempool_get rte_mempool_put cs [] mp = Some (held, mp')
    \<and> distinct held \<and> mset held + pool_objs mp' = mset all"
proof -
  obtain held mp' where h: "run_pool rte_mempool_get rte_mempool_put cs [] mp = Some (held, mp')"
    "mset held + pool_objs mp' = mset all"
    using mempool.conserved [OF assms(1), of "[]" "mset all" cs] assms(2,4) by auto
  have "distinct held" using distinct_part [OF h(2) assms(3)] .
  then show ?thesis using h by blast
qed

theorem pool_conserves_witness:
  "\<exists>mp held mp'. pool_ok mp \<and> pool_objs mp = mset [64, 256, 448 :: nat]
    \<and> run_pool rte_mempool_get rte_mempool_put [Alloc 1, Alloc 9, Free 9 0, Alloc 1] [] mp = Some (held, mp')
    \<and> distinct held \<and> mset held + pool_objs mp' = mset [64, 256, 448]"
proof -
  obtain mp :: "nat rte_mempool" where mp: "pool_ok mp" "mp_size mp = 3" "pool_objs mp = mset [64, 256, 448]"
    by (rule small_pool)
  show ?thesis
    using pool_conserves [OF mp(1,3), of "[Alloc 1, Alloc 9, Free 9 0, Alloc 1]"] mp by auto
qed

text \<open>A core gets an object whenever the ring or its own cache has one, and only then: the
  caches of the other cores do not count.\<close>

theorem pool_get_exact:
  assumes "pool_ok mp" "1 < mp_cache_size mp" "mp_flags mp AND MEMPOOL_F_SC_GET = 0" "l < RTE_MAX_LCORE"
  shows "(\<exists>x mp'. rte_mempool_get l mp = Some (0, [x], mp'))
    \<longleftrightarrow> queued (pool_data mp) \<noteq> [] \<or> objs (local_cache mp ! l) \<noteq> []"
  by (rule get_exact [OF assms])

theorem pool_get_exact_witness:
  "\<exists>mp :: nat rte_mempool. pool_ok mp \<and> (\<exists>x mp'. rte_mempool_get 9 mp = Some (0, [x], mp'))"
proof -
  obtain mp :: "nat rte_mempool" where mp: "pool_ok mp" "mp_cache_size mp = 2" "mp_flags mp AND MEMPOOL_F_SC_GET = 0"
    "queued (pool_data mp) = [64, 256, 448]" by (rule small_pool)
  then show ?thesis using pool_get_exact [OF mp(1) _ mp(3), of 9] by (auto simp: RTE_MAX_LCORE_def)
qed

end
