(* ===== verification/Fair.thy ===== *)
theory Fair
  imports Main
begin

text \<open>
  Threads that share a state and take steps in any order: runs along a schedule, fair
  schedules, and the locale \<open>fair_system\<close> for programs whose threads make progress whenever
  they are ready. Its theorem is that every fair schedule brings such a program to a state in
  which no thread is ready.
\<close>

section \<open>Schedules\<close>

text \<open>\<open>\<sigma> n\<close> is the thread that takes the \<open>n\<close>-th step; \<open>None\<close> is a step that fails.\<close>

primrec run :: "('t \<Rightarrow> 's \<Rightarrow> 's option) \<Rightarrow> (nat \<Rightarrow> 't) \<Rightarrow> nat \<Rightarrow> 's \<Rightarrow> 's option" where
  "run act \<sigma> 0 s = Some s"
| "run act \<sigma> (Suc n) s = Option.bind (run act \<sigma> n s) (act (\<sigma> n))"

definition fair :: "(nat \<Rightarrow> 't) \<Rightarrow> bool" where
  "fair \<sigma> \<longleftrightarrow> (\<forall>t n. \<exists>k \<ge> n. \<sigma> k = t)"

lemma run_add: "run act \<sigma> (n + m) s = Option.bind (run act \<sigma> n s) (run act (\<lambda>j. \<sigma> (n + j)) m)"
  by (induction m) simp_all

lemma fair_suffix: "fair \<sigma> \<Longrightarrow> fair (\<lambda>j. \<sigma> (n + j))"
  unfolding fair_def by (metis add_leD1 add_le_cancel_left le_iff_add)

lemma fair_round_robin:
  assumes "set ts = UNIV"
  shows "fair (\<lambda>n. ts ! (n mod length ts))"
  unfolding fair_def
proof (intro allI)
  fix t n
  obtain i where i: "i < length ts" "ts ! i = t" using assms by (metis UNIV_I in_set_conv_nth)
  have "n \<le> n * length ts + i" using i(1) by (cases "length ts") simp_all
  moreover have "ts ! ((n * length ts + i) mod length ts) = t" using i by simp
  ultimately show "\<exists>k \<ge> n. ts ! (k mod length ts) = t" by blast
qed

section \<open>Progress\<close>

locale fair_system =
  fixes act :: "'t \<Rightarrow> 's \<Rightarrow> 's option" and inv :: "'s \<Rightarrow> bool" and ready :: "'t \<Rightarrow> 's \<Rightarrow> bool"
    and rank :: "'s \<Rightarrow> 'm" and below :: "('m \<times> 'm) set"
  assumes below_wf: "wf below"
    and ready_step: "inv s \<Longrightarrow> ready t s \<Longrightarrow> \<exists>s'. act t s = Some s' \<and> inv s' \<and> (rank s', rank s) \<in> below"
    and idle_step: "inv s \<Longrightarrow> \<not> ready t s \<Longrightarrow>
      \<exists>s'. act t s = Some s' \<and> inv s' \<and> rank s' = rank s \<and> (\<forall>u. ready u s' \<longleftrightarrow> ready u s)"
begin

lemma step:
  assumes "inv s"
  shows "\<exists>s'. act t s = Some s' \<and> inv s'"
  using ready_step [OF assms, of t] idle_step [OF assms, of t] by (cases "ready t s") blast+

lemma runs:
  assumes "inv s"
  shows "\<exists>s'. run act \<sigma> n s = Some s' \<and> inv s'"
proof (induction n)
  case 0
  then show ?case using assms by simp
next
  case (Suc n)
  then obtain s1 where "run act \<sigma> n s = Some s1" "inv s1" by blast
  then show ?case using step [of s1 "\<sigma> n"] by simp
qed

lemma idles:
  assumes "inv s" "\<And>j. j < k \<Longrightarrow> \<not> ready (\<sigma> j) s"
  shows "\<exists>s'. run act \<sigma> k s = Some s' \<and> inv s' \<and> rank s' = rank s \<and> (\<forall>u. ready u s' \<longleftrightarrow> ready u s)"
  using assms(2)
proof (induction k)
  case 0
  then show ?case using assms(1) by simp
next
  case (Suc k)
  obtain s1 where s1: "run act \<sigma> k s = Some s1" "inv s1" "rank s1 = rank s" "\<forall>u. ready u s1 \<longleftrightarrow> ready u s"
    using Suc.IH Suc.prems less_SucI by blast
  have "\<not> ready (\<sigma> k) s1" using s1(4) Suc.prems by blast
  then obtain s2 where "act (\<sigma> k) s1 = Some s2" "inv s2" "rank s2 = rank s1" "\<forall>u. ready u s2 \<longleftrightarrow> ready u s1"
    using idle_step [OF s1(2)] by blast
  then show ?case using s1 by simp
qed

lemma settles:
  "inv s \<Longrightarrow> fair \<sigma> \<Longrightarrow> \<exists>n s'. run act \<sigma> n s = Some s' \<and> inv s' \<and> (\<forall>t. \<not> ready t s')"
proof (induction "rank s" arbitrary: s \<sigma> rule: wf_induct_rule [OF below_wf])
  case 1
  show ?case
  proof (cases "\<exists>t. ready t s")
    case False
    then have "run act \<sigma> 0 s = Some s \<and> inv s \<and> (\<forall>t. \<not> ready t s)" using 1(2) by simp
    then show ?thesis by blast
  next
    case True
    then obtain t k0 where "ready t s" "\<sigma> k0 = t" using 1(3) unfolding fair_def by blast
    then have ex: "ready (\<sigma> k0) s" by simp
    define k where "k = (LEAST k. ready (\<sigma> k) s)"
    have k: "ready (\<sigma> k) s" "\<And>j. j < k \<Longrightarrow> \<not> ready (\<sigma> j) s"
      unfolding k_def using LeastI [of "\<lambda>k. ready (\<sigma> k) s", OF ex] not_less_Least by blast+
    obtain s1 where s1: "run act \<sigma> k s = Some s1" "inv s1" "rank s1 = rank s" "\<forall>u. ready u s1 \<longleftrightarrow> ready u s"
      using idles [OF 1(2), of k \<sigma>] k(2) by blast
    have "ready (\<sigma> k) s1" using s1(4) k(1) by blast
    then obtain s2 where s2: "act (\<sigma> k) s1 = Some s2" "inv s2" "(rank s2, rank s) \<in> below"
      using ready_step [OF s1(2)] s1(3) by metis
    obtain n s3 where "run act (\<lambda>j. \<sigma> (Suc k + j)) n s2 = Some s3" "inv s3" "\<forall>t. \<not> ready t s3"
      using 1(1) [OF s2(3) s2(2) fair_suffix [OF 1(3)]] by blast
    moreover have "run act \<sigma> (Suc k) s = Some s2" using s1(1) s2(1) by simp
    ultimately have "run act \<sigma> (Suc k + n) s = Some s3" using run_add [of act \<sigma> "Suc k" n s] by simp
    then show ?thesis using \<open>inv s3\<close> \<open>\<forall>t. \<not> ready t s3\<close> by blast
  qed
qed

end

end
