(* ===== verification/Network.thy ===== *)
theory Network
  imports Mempool Fair
begin

text \<open>
  Threads that pass packet buffers along rings, as the DPDK programs of the repository run them:
  the state the threads share, what a thread does between two accesses to it, and the facts
  that hold whatever the threads are. A step of a thread is one access to shared state (the flag
  \<open>quit\<close>, one call on a ring, one call on the pool) with the local work around it, and the steps
  of the threads interleave in any order. One call on a ring is one step: \<open>Spsc\<close> shows that
  the memory accesses of a producer and a consumer behave as if their calls were. A buffer being
  worked on belongs to one thread (\<open>hand_unique\<close>), so that the work on it may be one step, too.
\<close>

section \<open>State\<close>

text \<open>Where a thread stands: at the test of \<open>while (!quit)\<close>, at its \<open>k\<close>-th try to get a buffer,
  at work on a buffer, about to return one to the pool, or returned.\<close>

datatype ctrl = Head | Try nat | Busy nat | Return nat | Done

text \<open>The rings are named by \<open>'r\<close>, the threads by \<open>'t\<close>; \<open>mem\<close> holds the buffer at an address,
  \<open>turn\<close> is the counter of a thread for dealing out buffers to several rings, \<open>idle\<close> its counter
  of fruitless polls.\<close>

record ('r, 't, 'b) net =
  mbuf_pool :: "nat rte_mempool"
  mem :: "nat \<Rightarrow> 'b"
  rings :: "'r \<Rightarrow> nat rte_ring"
  ctl :: "'t \<Rightarrow> ctrl"
  turn :: "'t \<Rightarrow> nat"
  idle :: "'t \<Rightarrow> nat"
  csd_count :: nat
  quit :: bool

definition goto :: "'t \<Rightarrow> ctrl \<Rightarrow> ('r, 't, 'b) net \<Rightarrow> ('r, 't, 'b) net" where
  "goto t c s = s\<lparr>ctl := (ctl s)(t := c)\<rparr>"

definition fruitless :: "'t \<Rightarrow> ('r, 't, 'b) net \<Rightarrow> ('r, 't, 'b) net" where
  "fruitless t s = s\<lparr>idle := (idle s)(t := idle s t + 1)\<rparr>"

section \<open>What threads do\<close>

definition loop_head :: "'t \<Rightarrow> ('r, 't, 'b) net \<Rightarrow> ('r, 't, 'b) net option" where
  "loop_head t s = Some (goto t (if quit s then Done else Try 0) s)"

text \<open>Try the rings in order; the pointer is \<open>NULL\<close> before, and what a failed call leaves in it is
  not used.\<close>

definition try_ring :: "'r list \<Rightarrow> 't \<Rightarrow> nat \<Rightarrow> ('r, 't, 'b) net \<Rightarrow> ('r, 't, 'b) net option" where
  "try_ring rs t k s = map_option (\<lambda>(ret, m, q).
       let s = s\<lparr>rings := (rings s)(rs ! k := q)\<rparr>
       in if 0 \<le> ret then goto t (Busy m) s
          else if k + 1 < length rs then goto t (Try (k + 1)) s
          else goto t Head (fruitless t s))
     (rte_ring_dequeue 0 (rings s (rs ! k)))"

text \<open>Take a buffer from the pool and prepare it.\<close>

definition try_pool :: "('b \<Rightarrow> 'b) \<Rightarrow> nat \<Rightarrow> 't \<Rightarrow> nat \<Rightarrow> ('r, 't, 'b) net \<Rightarrow> ('r, 't, 'b) net option" where
  "try_pool prep lcore t k s = map_option (\<lambda>(ret, xs, p).
       let s = s\<lparr>mbuf_pool := p\<rparr>
       in if ret < 0 then goto t Head (fruitless t s)
          else goto t (Busy (hd xs)) (s\<lparr>mem := (mem s)(hd xs := prep (mem s (hd xs)))\<rparr>))
     (rte_mempool_get lcore (mbuf_pool s))"

definition work :: "('b \<Rightarrow> 'b option) \<Rightarrow> nat \<Rightarrow> ('r, 't, 'b) net \<Rightarrow> ('r, 't, 'b) net option" where
  "work f m s = map_option (\<lambda>b. s\<lparr>mem := (mem s)(m := b)\<rparr>) (f (mem s m))"

text \<open>Pass a buffer on; the result of \<open>rte_ring_enqueue\<close> is not looked at.\<close>

definition emit :: "'r \<Rightarrow> 't \<Rightarrow> nat \<Rightarrow> ('r, 't, 'b) net \<Rightarrow> ('r, 't, 'b) net option" where
  "emit r t m s = map_option (\<lambda>(ret, q). goto t Head (s\<lparr>rings := (rings s)(r := q)\<rparr>))
     (rte_ring_enqueue m (rings s r))"

definition release :: "nat \<Rightarrow> 't \<Rightarrow> nat \<Rightarrow> ('r, 't, 'b) net \<Rightarrow> ('r, 't, 'b) net option" where
  "release lcore t m s = map_option (\<lambda>p. goto t Head (s\<lparr>mbuf_pool := p\<rparr>))
     (rte_mempool_put m lcore (mbuf_pool s))"

text \<open>The last stage counts its frames and ends the program.\<close>

definition count_frame :: "nat \<Rightarrow> 't \<Rightarrow> nat \<Rightarrow> ('r, 't, 'b) net \<Rightarrow> ('r, 't, 'b) net" where
  "count_frame limit t m s = goto t (Return m)
     (s\<lparr>csd_count := csd_count s + 1, quit := (quit s \<or> limit \<le> csd_count s + 1)\<rparr>)"

definition thread :: "(nat \<Rightarrow> ('r, 't, 'b) net \<Rightarrow> ('r, 't, 'b) net option)
    \<Rightarrow> (nat \<Rightarrow> ('r, 't, 'b) net \<Rightarrow> ('r, 't, 'b) net option) \<Rightarrow> (nat \<Rightarrow> ('r, 't, 'b) net \<Rightarrow> ('r, 't, 'b) net option)
    \<Rightarrow> 't \<Rightarrow> ('r, 't, 'b) net \<Rightarrow> ('r, 't, 'b) net option" where
  "thread try go back t s = (case ctl s t of
       Head \<Rightarrow> loop_head t s
     | Try k \<Rightarrow> try k s
     | Busy m \<Rightarrow> go m s
     | Return m \<Rightarrow> back m s
     | Done \<Rightarrow> Some s)"

text \<open>The first thread: from the pool to a ring.\<close>

definition reader :: "'t \<Rightarrow> nat \<Rightarrow> ('b \<Rightarrow> 'b) \<Rightarrow> ('b \<Rightarrow> 'b option) \<Rightarrow> 'r \<Rightarrow> ('r, 't, 'b) net \<Rightarrow> ('r, 't, 'b) net option" where
  "reader t lcore prep f rout =
     thread (try_pool prep lcore t) (\<lambda>m s. Option.bind (work f m s) (emit rout t m)) (\<lambda>m s. None) t"

text \<open>One ring in, one ring out.\<close>

definition worker :: "'t \<Rightarrow> 'r \<Rightarrow> ('b \<Rightarrow> 'b option) \<Rightarrow> 'r \<Rightarrow> ('r, 't, 'b) net \<Rightarrow> ('r, 't, 'b) net option" where
  "worker t rin f rout =
     thread (try_ring [rin] t) (\<lambda>m s. Option.bind (work f m s) (emit rout t m)) (\<lambda>m s. None) t"

text \<open>One ring in, several rings out in turn: the counter starts at 0, is incremented for every
  buffer and set to 1 when it reaches \<open>limit\<close>; the value \<open>i\<close> selects the \<open>i\<close>-th ring, and a
  value without a ring leaves the buffer with nobody.\<close>

definition next_turn :: "nat \<Rightarrow> nat \<Rightarrow> nat" where
  "next_turn limit d = (if d + 1 = limit then 1 else d + 1)"

definition splitter :: "'t \<Rightarrow> 'r \<Rightarrow> ('b \<Rightarrow> 'b option) \<Rightarrow> nat \<Rightarrow> 'r list \<Rightarrow> ('r, 't, 'b) net \<Rightarrow> ('r, 't, 'b) net option" where
  "splitter t rin f limit routs =
     thread (try_ring [rin] t)
       (\<lambda>m s. let dis_count = next_turn limit (turn s t)
          in Option.bind (work f m (s\<lparr>turn := (turn s)(t := dis_count)\<rparr>))
               (\<lambda>s. if 1 \<le> dis_count \<and> dis_count \<le> length routs then emit (routs ! (dis_count - 1)) t m s
                    else Some (goto t Head s)))
       (\<lambda>m s. None) t"

text \<open>The last thread: from several rings to the pool.\<close>

definition sinker :: "'t \<Rightarrow> nat \<Rightarrow> 'r list \<Rightarrow> ('b \<Rightarrow> 'b option) \<Rightarrow> nat \<Rightarrow> ('r, 't, 'b) net \<Rightarrow> ('r, 't, 'b) net option" where
  "sinker t lcore rins f limit =
     thread (try_ring rins t) (\<lambda>m s. map_option (count_frame limit t m) (work f m s)) (release lcore t) t"

section \<open>Where the buffers are\<close>

fun held :: "ctrl \<Rightarrow> nat multiset" where
  "held (Busy m) = {#m#}"
| "held (Return m) = {#m#}"
| "held c = {#}"

definition buffers :: "('r :: finite, 't :: finite, 'b) net \<Rightarrow> nat multiset" where
  "buffers s = pool_objs (mbuf_pool s) + (\<Sum>r \<in> UNIV. mset (queued (rings s r))) + (\<Sum>t \<in> UNIV. held (ctl s t))"

lemma sum_update:
  fixes F :: "'i :: finite \<Rightarrow> 'q \<Rightarrow> 'c :: comm_monoid_add" and R :: "'i \<Rightarrow> 'q"
  shows "(\<Sum>i \<in> UNIV. F i ((R(j := q)) i)) + F j (R j) = (\<Sum>i \<in> UNIV. F i (R i)) + F j q"
proof -
  have "(\<Sum>i \<in> UNIV. F i ((R(j := q)) i)) = F j q + (\<Sum>i \<in> UNIV - {j}. F i (R i))"
    by (simp add: sum.remove [of UNIV j])
  moreover have "(\<Sum>i \<in> UNIV. F i (R i)) = F j (R j) + (\<Sum>i \<in> UNIV - {j}. F i (R i))"
    by (simp add: sum.remove [of UNIV j])
  ultimately show ?thesis by (simp add: ac_simps)
qed

lemmas held_update = sum_update [of "\<lambda>_. held"]
lemmas queue_update = sum_update [of "\<lambda>_ q. mset (queued q)"]

lemma count_split:
  fixes F :: "'i :: finite \<Rightarrow> nat multiset"
  shows "count (\<Sum>i \<in> UNIV. F i) m = count (F i) m + count (\<Sum>i \<in> UNIV - {i}. F i) m"
  unfolding sum.remove [OF finite UNIV_I, of F i] by simp

lemma count_elem:
  fixes F :: "'i :: finite \<Rightarrow> nat multiset"
  shows "count (F i) m \<le> count (\<Sum>i \<in> UNIV. F i) m"
  unfolding count_split [of F m i] by simp

lemma count_two:
  fixes F :: "'i :: finite \<Rightarrow> nat multiset"
  assumes "i \<noteq> j"
  shows "count (F i) m + count (F j) m \<le> count (\<Sum>i \<in> UNIV. F i) m"
proof -
  have "(\<Sum>i \<in> UNIV - {i}. F i) = F j + (\<Sum>i \<in> UNIV - {i} - {j}. F i)"
    by (rule sum.remove) (use assms in auto)
  then show ?thesis unfolding count_split [of F m i] by simp
qed

lemma count_buffers:
  fixes s :: "('r :: finite, 't :: finite, 'b) net"
  shows "count (buffers s) m = count (pool_objs (mbuf_pool s)) m
    + count (\<Sum>r \<in> UNIV. mset (queued (rings s r))) m + count (\<Sum>t \<in> UNIV. held (ctl s t)) m"
  by (simp only: buffers_def count_union)

lemma count_mset_pos: "0 < count (mset xs) m \<longleftrightarrow> m \<in> set xs"
  by (simp only: count_greater_zero_iff set_mset_mset)

text \<open>A thread's buffer is nowhere else, and a buffer in a ring is in no other.\<close>

lemma hand_unique:
  fixes s :: "('r :: finite, 't :: finite, 'b) net"
  assumes "buffers s = mset bs" "distinct bs" "m \<in># held (ctl s t)"
  shows "m \<notin> set (queued (rings s r))" "t' \<noteq> t \<Longrightarrow> m \<notin># held (ctl s t')" "m \<notin># pool_objs (mbuf_pool s)" "m \<in> set bs"
proof -
  let ?h = "\<lambda>t. held (ctl s t)" and ?q = "\<lambda>r. mset (queued (rings s r))"
  have le: "count (buffers s) m \<le> 1" using assms(1,2) by (simp add: distinct_count_atmost_1)
  have h: "1 \<le> count (?h t) m" using assms(3) by (simp add: Suc_le_eq)
  note ht = order_trans [OF h count_elem [of ?h t m]]
  then have "count (\<Sum>r \<in> UNIV. ?q r) m = 0" "count (pool_objs (mbuf_pool s)) m = 0"
    using le unfolding count_buffers by linarith+
  then show "m \<notin> set (queued (rings s r))" "m \<notin># pool_objs (mbuf_pool s)"
    using count_elem [of ?q r m] by (simp_all add: count_mset_0_iff not_in_iff del: count_sum)
  have "0 < count (buffers s) m" using ht unfolding count_buffers by linarith
  then show "m \<in> set bs" unfolding assms(1) count_mset_pos .
  show "m \<notin># ?h t'" if "t' \<noteq> t"
  proof -
    have "count (?h t') m = 0" using count_two [OF that, of ?h m] h le unfolding count_buffers by linarith
    then show ?thesis by (simp add: not_in_iff)
  qed
qed

lemma ring_unique:
  fixes s :: "('r :: finite, 't :: finite, 'b) net"
  assumes "buffers s = mset bs" "distinct bs" "m \<in> set (queued (rings s r))"
  shows "r' \<noteq> r \<Longrightarrow> m \<notin> set (queued (rings s r'))" "m \<notin># held (ctl s t)" "m \<notin># pool_objs (mbuf_pool s)" "m \<in> set bs"
proof -
  let ?q = "\<lambda>r. mset (queued (rings s r))"
  have le: "count (buffers s) m \<le> 1" using assms(1,2) by (simp add: distinct_count_atmost_1)
  show "m \<notin># held (ctl s t)" using hand_unique(1) [OF assms(1,2)] assms(3) by blast
  have p: "1 \<le> count (?q r) m" using assms(3) by (simp add: Suc_le_eq)
  note pt = order_trans [OF p count_elem [of ?q r m]]
  show "m \<notin> set (queued (rings s r'))" if "r' \<noteq> r"
  proof -
    have "count (?q r') m = 0" using count_two [OF that, of ?q m] p le unfolding count_buffers by linarith
    then show ?thesis by (simp add: count_mset_0_iff)
  qed
  have "count (pool_objs (mbuf_pool s)) m = 0" using pt le unfolding count_buffers by linarith
  then show "m \<notin># pool_objs (mbuf_pool s)" by (simp add: not_in_iff)
  have "0 < count (buffers s) m" using pt unfolding count_buffers by linarith
  then show "m \<in> set bs" unfolding assms(1) count_mset_pos .
qed

lemma ring_part:
  fixes s :: "('r :: finite, 't :: finite, 'b) net"
  shows "\<exists>M. mset (queued (rings s r)) + M = buffers s"
proof
  show "mset (queued (rings s r)) + (pool_objs (mbuf_pool s) + (\<Sum>r \<in> UNIV - {r}. mset (queued (rings s r)))
      + (\<Sum>t \<in> UNIV. held (ctl s t))) = buffers s"
    by (simp add: buffers_def sum.remove [of UNIV r] ac_simps)
qed

lemma pool_unique:
  fixes s :: "('r :: finite, 't :: finite, 'b) net"
  assumes "buffers s = mset bs" "distinct bs" "m \<in># pool_objs (mbuf_pool s)"
  shows "m \<notin> set (queued (rings s r))" "m \<notin># held (ctl s t)" "m \<in> set bs"
proof -
  show "m \<notin> set (queued (rings s r))" "m \<notin># held (ctl s t)"
    using ring_unique(3) [OF assms(1,2)] hand_unique(3) [OF assms(1,2)] assms(3) by blast+
  have "0 < count (buffers s) m" using assms(3) unfolding count_buffers by simp
  then show "m \<in> set bs" unfolding assms(1) count_mset_pos .
qed

section \<open>The invariant\<close>

text \<open>What a program fixes: the rings a thread polls, or the core of its pool cache if it takes from
  the pool; the cores that use the pool; the thread that counts and its limit. The weights of
  rings, hands and pool fall along the way of a buffer.\<close>

record ('r, 't) shape =
  ins :: "'t \<Rightarrow> 'r list"
  src :: "'t \<Rightarrow> nat option"
  cores :: "nat set"
  cache :: nat
  sink :: 't
  limit :: nat
  turns :: "'t \<Rightarrow> nat"
  ring_weight :: "'r \<Rightarrow> nat"
  hand_weight :: "'t \<Rightarrow> nat"
  pool_weight :: nat

text \<open>What is known of the bytes of a buffer anywhere, on a ring, in the hands of a thread, and when
  the thread returns it.\<close>

record ('r, 't, 'b) content =
  anywhere :: "'b \<Rightarrow> bool"
  on_ring :: "'r \<Rightarrow> 'b \<Rightarrow> bool"
  in_hand :: "'t \<Rightarrow> 'b \<Rightarrow> bool"
  returned :: "'t \<Rightarrow> 'b \<Rightarrow> bool"

definition tries :: "('r, 't) shape \<Rightarrow> 't \<Rightarrow> nat" where
  "tries sh t = (case src sh t of None \<Rightarrow> length (ins sh t) | Some l \<Rightarrow> 1)"

definition net_inv :: "nat multiset \<Rightarrow> ('r :: finite, 't :: finite, 'b) net \<Rightarrow> bool" where
  "net_inv all s \<longleftrightarrow> pool_ok (mbuf_pool s) \<and> mp_size (mbuf_pool s) = size all
     \<and> (\<forall>r. ring_ok (rings s r) \<and> size all \<le> capacity (rings s r)) \<and> buffers s = all"

definition pool_side :: "('r, 't) shape \<Rightarrow> nat rte_mempool \<Rightarrow> bool" where
  "pool_side sh p \<longleftrightarrow> mp_cache_size p = cache sh \<and> mp_flags p AND MEMPOOL_F_SC_GET = 0
     \<and> (\<forall>l < RTE_MAX_LCORE. l \<notin> cores sh \<longrightarrow> objs (local_cache p ! l) = [])"

definition ctl_ok :: "('r, 't) shape \<Rightarrow> ('r, 't, 'b) content \<Rightarrow> ('r, 't, 'b) net \<Rightarrow> 't \<Rightarrow> bool" where
  "ctl_ok sh sp s t = (case ctl s t of
       Head \<Rightarrow> True
     | Try k \<Rightarrow> k < tries sh t \<and> (t = sink sh \<longrightarrow> \<not> quit s)
     | Busy m \<Rightarrow> in_hand sp t (mem s m) \<and> (t = sink sh \<longrightarrow> \<not> quit s)
     | Return m \<Rightarrow> returned sp t (mem s m)
     | Done \<Rightarrow> quit s)"

definition good :: "('r, 't) shape \<Rightarrow> ('r, 't, 'b) content \<Rightarrow> nat list \<Rightarrow> ('r :: finite, 't :: finite, 'b) net \<Rightarrow> bool" where
  "good sh sp bs s \<longleftrightarrow> net_inv (mset bs) s \<and> pool_side sh (mbuf_pool s)
     \<and> (\<forall>m \<in> set bs. anywhere sp (mem s m)) \<and> (\<forall>r. \<forall>m \<in> set (queued (rings s r)). on_ring sp r (mem s m))
     \<and> (\<forall>t. ctl_ok sh sp s t) \<and> (quit s \<longleftrightarrow> limit sh \<le> csd_count s) \<and> csd_count s \<le> limit sh
     \<and> (\<forall>t. turn s t < turns sh t)"

lemma goodD:
  assumes "good sh sp bs s"
  shows "pool_ok (mbuf_pool s)" "mp_size (mbuf_pool s) = length bs" "ring_ok (rings s r)"
    "length bs \<le> capacity (rings s r)" "buffers s = mset bs" "pool_side sh (mbuf_pool s)"
    "m \<in> set bs \<Longrightarrow> anywhere sp (mem s m)" "m \<in> set (queued (rings s r)) \<Longrightarrow> on_ring sp r (mem s m)"
    "ctl_ok sh sp s t" "quit s \<longleftrightarrow> limit sh \<le> csd_count s" "csd_count s \<le> limit sh" "turn s t < turns sh t"
  using assms by (simp_all add: good_def net_inv_def)

lemma goto_simps [simp]:
  "mbuf_pool (goto t c s) = mbuf_pool s" "mem (goto t c s) = mem s" "rings (goto t c s) = rings s"
  "ctl (goto t c s) = (ctl s)(t := c)" "turn (goto t c s) = turn s" "csd_count (goto t c s) = csd_count s"
  "quit (goto t c s) = quit s"
  by (simp_all add: goto_def)

lemma fruitless_simps [simp]:
  "mbuf_pool (fruitless t s) = mbuf_pool s" "mem (fruitless t s) = mem s" "rings (fruitless t s) = rings s"
  "ctl (fruitless t s) = ctl s" "turn (fruitless t s) = turn s" "csd_count (fruitless t s) = csd_count s"
  "quit (fruitless t s) = quit s"
  by (simp_all add: fruitless_def)

text \<open>The shared part of every case: the counters and the pool stay, one thread moves.\<close>

lemma good_move:
  assumes "good sh sp bs s" "buffers s' = buffers s"
    and "pool_ok (mbuf_pool s')" "mp_size (mbuf_pool s') = mp_size (mbuf_pool s)" "pool_side sh (mbuf_pool s')"
    and "\<And>r. ring_ok (rings s' r) \<and> capacity (rings s' r) = capacity (rings s r)"
    and "\<And>m. m \<in> set bs \<Longrightarrow> anywhere sp (mem s' m)"
    and "\<And>r m. m \<in> set (queued (rings s' r)) \<Longrightarrow> on_ring sp r (mem s' m)"
    and "\<And>u. u \<noteq> t \<Longrightarrow> ctl s' u = ctl s u" "\<And>u m. u \<noteq> t \<Longrightarrow> m \<in># held (ctl s u) \<Longrightarrow> mem s' m = mem s m"
    and "ctl_ok sh sp s' t" "csd_count s' = csd_count s" "quit s' = quit s"
    and "\<And>u. turn s' u < turns sh u"
  shows "good sh sp bs s'"
proof -
  note g = goodD [OF assms(1)]
  have "ctl_ok sh sp s' u" for u
  proof (cases "u = t")
    case False
    then show ?thesis using g(9) [of u] assms(9,10,13) by (cases "ctl s u") (simp_all add: ctl_ok_def)
  qed (use assms(11) in simp)
  moreover have "length bs \<le> capacity (rings s' r)" for r using g(4) [of r] assms(6) [of r] by simp
  ultimately show ?thesis using assms g(2,5,10,11) by (simp add: good_def net_inv_def)
qed

lemma good_control:
  assumes "good sh sp bs s" "held (ctl s t) = {#}" "c = Head \<or> (\<exists>k. c = Try k) \<or> c = Done" "ctl_ok sh sp (goto t c s) t"
  shows "good sh sp bs (goto t c s)"
proof -
  note g = goodD [OF assms(1)]
  have "buffers (goto t c s) = buffers s"
    using held_update [of "ctl s" t c] assms(2,3) by (auto simp: buffers_def)
  then show ?thesis
    by (rule good_move [OF assms(1), where t = t]) (use g assms(4) goodD(12) [OF assms(1)] in auto)
qed

lemma good_fruitless: "good sh sp bs (fruitless t s) = good sh sp bs s"
proof -
  have "ctl_ok sh sp (fruitless t s) u = ctl_ok sh sp s u" for u
    by (cases "ctl s u") (simp_all add: ctl_ok_def)
  then show ?thesis by (simp add: good_def net_inv_def buffers_def)
qed

lemma good_take:
  assumes "good sh sp bs s" "held (ctl s t) = {#}" "queued (rings s r) = m # queued q" "ring_ok q"
    "capacity q = capacity (rings s r)" "in_hand sp t (mem s m)" "t = sink sh \<Longrightarrow> \<not> quit s"
  shows "good sh sp bs (goto t (Busy m) (s\<lparr>rings := (rings s)(r := q)\<rparr>))" (is "good sh sp bs ?s")
proof -
  note g = goodD [OF assms(1)]
  have "buffers ?s + {#m#} = buffers s + {#m#}"
    using held_update [of "ctl s" t "Busy m"] queue_update [of "rings s" r q] assms(2)
    unfolding buffers_def assms(3) by (simp add: ac_simps)
  then have b: "buffers ?s = buffers s" by simp
  have "on_ring sp r' (mem ?s m')" if "m' \<in> set (queued (rings ?s r'))" for r' m'
    using g(8) [of m' r'] that assms(3) by (cases "r' = r") simp_all
  then show ?thesis
    using g(1,3,6,7,12) assms(4-7) by (intro good_move [OF assms(1) b, where t = t]) (simp_all add: ctl_ok_def)
qed

lemma pool_side_frame: "pool_frame l p p' \<Longrightarrow> l \<in> cores sh \<Longrightarrow> pool_side sh p \<Longrightarrow> pool_side sh p'"
  unfolding pool_frame_def pool_side_def by metis

lemma good_alloc:
  assumes "good sh sp bs s" "distinct bs" "held (ctl s t) = {#}"
    "pool_ok p" "pool_objs (mbuf_pool s) = add_mset m (pool_objs p)" "mp_size p = mp_size (mbuf_pool s)" "pool_side sh p"
    and "anywhere sp b" "in_hand sp t b" "t \<noteq> sink sh"
  shows "good sh sp bs (goto t (Busy m) (s\<lparr>mbuf_pool := p, mem := (mem s)(m := b)\<rparr>))" (is "good sh sp bs ?s")
proof -
  note g = goodD [OF assms(1)]
  have u: "m \<notin> set (queued (rings s r))" "m \<notin># held (ctl s t')" for r t'
    using pool_unique(1,2) [OF g(5) assms(2), of m] assms(5) by simp_all
  have "buffers ?s = buffers s"
    using held_update [of "ctl s" t "Busy m"] assms(3) unfolding buffers_def assms(5) by (simp add: ac_simps)
  then show ?thesis
  proof (rule good_move [OF assms(1), where t = t])
    show "on_ring sp r (mem ?s m')" if "m' \<in> set (queued (rings ?s r))" for r m'
      using g(8) [of m' r] u(1) [of r] that by auto
    show "mem ?s m' = mem s m'" if "m' \<in># held (ctl s t')" for t' m'
      using u(2) [of t'] that by auto
  qed (use g(1,3,7,12) assms(4,6-10) in \<open>auto simp: ctl_ok_def\<close>)
qed

text \<open>There is room on every ring for a buffer in hand.\<close>

lemma ring_room:
  assumes "good sh sp bs s" "m \<in># held (ctl s t)"
  shows "length (queued (rings s r)) < capacity (rings s r)"
proof -
  note g = goodD [OF assms(1)]
  have "(\<Sum>i \<in> UNIV. held (ctl s i)) = held (ctl s t) + (\<Sum>i \<in> UNIV - {t}. held (ctl s i))"
    "(\<Sum>i \<in> UNIV. mset (queued (rings s i))) = mset (queued (rings s r)) + (\<Sum>i \<in> UNIV - {r}. mset (queued (rings s i)))"
    by (simp_all add: sum.remove [of UNIV])
  moreover have "0 < size (held (ctl s t))" using assms(2) by (simp add: nonempty_has_size [symmetric]) auto
  ultimately have "length (queued (rings s r)) < size (buffers s)" by (simp add: buffers_def)
  then show ?thesis using g(4) [of r] g(5) by simp
qed

lemma good_pass:
  assumes "good sh sp bs s" "distinct bs" "ctl s t = Busy m"
    "queued q = queued (rings s r) @ [m]" "ring_ok q" "capacity q = capacity (rings s r)"
    "anywhere sp b" "on_ring sp r b" "\<And>u. d u < turns sh u"
  shows "good sh sp bs (goto t Head (s\<lparr>turn := d, mem := (mem s)(m := b), rings := (rings s)(r := q)\<rparr>))"
    (is "good sh sp bs ?s")
proof -
  note g = goodD [OF assms(1)]
  have u: "m \<notin> set (queued (rings s r'))" "t' \<noteq> t \<Longrightarrow> m \<notin># held (ctl s t')" for r' t'
    using hand_unique(1,2) [OF g(5) assms(2), of m t] assms(3) by simp_all
  have "buffers ?s + {#m#} = buffers s + {#m#}"
    using held_update [of "ctl s" t Head] queue_update [of "rings s" r q] assms(3)
    unfolding buffers_def assms(4) by (simp add: ac_simps)
  then have "buffers ?s = buffers s" by simp
  then show ?thesis
  proof (rule good_move [OF assms(1), where t = t])
    show "on_ring sp r' (mem ?s m')" if "m' \<in> set (queued (rings ?s r'))" for r' m'
      using g(8) [of m' r'] u(1) [of r'] that assms(4,8) by (cases "r' = r") auto
    show "mem ?s m' = mem s m'" if "t' \<noteq> t" "m' \<in># held (ctl s t')" for t' m'
      using u(2) [of t'] that by auto
  qed (use g(1,3,6,7) assms(5-7,9) in \<open>auto simp: ctl_ok_def\<close>)
qed

lemma good_count:
  assumes "good sh sp bs s" "distinct bs" "ctl s t = Busy m" "t = sink sh" "anywhere sp b" "returned sp t b"
  shows "good sh sp bs (count_frame (limit sh) t m (s\<lparr>mem := (mem s)(m := b)\<rparr>))" (is "good sh sp bs ?s")
proof -
  note g = goodD [OF assms(1)]
  have u: "m \<notin> set (queued (rings s r'))" "t' \<noteq> t \<Longrightarrow> m \<notin># held (ctl s t')" for r' t'
    using hand_unique(1,2) [OF g(5) assms(2), of m t] assms(3) by simp_all
  have "\<not> quit s" using g(9) [of t] assms(3,4) by (simp add: ctl_ok_def)
  then have lim: "csd_count s < limit sh" "\<not> quit s" using g(10) by simp_all
  have "buffers ?s = buffers s"
    using held_update [of "ctl s" t "Return m"] assms(3) by (simp add: buffers_def count_frame_def)
  moreover have "ctl_ok sh sp ?s t'" for t'
    using g(9) [of t'] u(2) [of t'] assms(4,6) lim
    by (cases "t' = t"; cases "ctl s t'") (simp_all add: ctl_ok_def count_frame_def)
  moreover have "on_ring sp r (mem ?s m')" if "m' \<in> set (queued (rings ?s r))" for r m'
    using g(8) [of m' r] u(1) [of r] that by (auto simp: count_frame_def)
  ultimately show ?thesis
    using g(1-7,12) assms(5) lim by (auto simp: good_def net_inv_def count_frame_def)
qed

lemma good_release:
  assumes "good sh sp bs s" "ctl s t = Return m" "pool_ok p" "pool_objs p = add_mset m (pool_objs (mbuf_pool s))"
    "mp_size p = mp_size (mbuf_pool s)" "pool_side sh p"
  shows "good sh sp bs (goto t Head (s\<lparr>mbuf_pool := p\<rparr>))" (is "good sh sp bs ?s")
proof -
  note g = goodD [OF assms(1)]
  have "buffers ?s + {#m#} = buffers s + {#m#}"
    using held_update [of "ctl s" t Head] assms(2) by (simp add: buffers_def assms(4) ac_simps)
  then have "buffers ?s = buffers s" by simp
  then show ?thesis
    by (rule good_move [OF assms(1), where t = t]) (use g(1,3,7,8,12) assms(3,5,6) in \<open>auto simp: ctl_ok_def\<close>)
qed

section \<open>Progress\<close>

text \<open>Whether a try will get a buffer, and whether a thread has something to do.\<close>

definition can :: "('r, 't) shape \<Rightarrow> 't \<Rightarrow> nat \<Rightarrow> ('r, 't, 'b) net \<Rightarrow> bool" where
  "can sh t k s = (case src sh t of
       None \<Rightarrow> queued (rings s (ins sh t ! k)) \<noteq> []
     | Some l \<Rightarrow> queued (pool_data (mbuf_pool s)) \<noteq> [] \<or> objs (local_cache (mbuf_pool s) ! l) \<noteq> [])"

definition supplied :: "('r, 't) shape \<Rightarrow> 't \<Rightarrow> ('r, 't, 'b) net \<Rightarrow> bool" where
  "supplied sh t s \<longleftrightarrow> (\<exists>k < tries sh t. can sh t k s)"

definition ready :: "('r, 't) shape \<Rightarrow> 't \<Rightarrow> ('r, 't, 'b) net \<Rightarrow> bool" where
  "ready sh t s \<longleftrightarrow> held (ctl s t) \<noteq> {#} \<or> ctl s t \<noteq> Done \<and> (quit s \<or> supplied sh t s)"

text \<open>The way still to go: all buffers weighted with their places; and the steps a thread takes at
  most until it gets a buffer, or until it returns.\<close>

fun ctrl_weight :: "('r, 't) shape \<Rightarrow> 't \<Rightarrow> ctrl \<Rightarrow> nat" where
  "ctrl_weight sh t (Busy m) = hand_weight sh t"
| "ctrl_weight sh t (Return m) = pool_weight sh + 1"
| "ctrl_weight sh t c = 0"

definition weight :: "('r, 't) shape \<Rightarrow> ('r :: finite, 't :: finite, 'b) net \<Rightarrow> nat" where
  "weight sh s = pool_weight sh * size (pool_objs (mbuf_pool s))
     + (\<Sum>r \<in> UNIV. ring_weight sh r * length (queued (rings s r))) + (\<Sum>t \<in> UNIV. ctrl_weight sh t (ctl s t))"

definition dist_quit :: "nat \<Rightarrow> ctrl \<Rightarrow> nat" where
  "dist_quit n c = (case c of Head \<Rightarrow> 1 | Try k \<Rightarrow> n - k + 1 | _ \<Rightarrow> 0)"

definition dist_supplied :: "nat \<Rightarrow> (nat \<Rightarrow> bool) \<Rightarrow> ctrl \<Rightarrow> nat" where
  "dist_supplied n p c = (case c of
       Head \<Rightarrow> n + 1
     | Try k \<Rightarrow> if \<exists>j < n. k \<le> j \<and> p j then n - k else n - k + (n + 1)
     | _ \<Rightarrow> 0)"

definition distance :: "('r, 't) shape \<Rightarrow> 't \<Rightarrow> ('r, 't, 'b) net \<Rightarrow> nat" where
  "distance sh t s =
     (if quit s then dist_quit (tries sh t) (ctl s t)
      else if supplied sh t s then dist_supplied (tries sh t) (\<lambda>k. can sh t k s) (ctl s t) else 0)"

definition rank :: "('r, 't) shape \<Rightarrow> ('r :: finite, 't :: finite, 'b) net \<Rightarrow> nat \<times> nat \<times> nat" where
  "rank sh s = (limit sh - csd_count s, weight sh s, \<Sum>t \<in> UNIV. distance sh t s)"

definition below :: "((nat \<times> nat \<times> nat) \<times> (nat \<times> nat \<times> nat)) set" where
  "below = less_than <*lex*> less_than <*lex*> less_than"

lemma wf_below: "wf below"
  by (simp add: below_def wf_lex_prod)

text \<open>What a step of a thread must do.\<close>

definition step_ok :: "('r, 't) shape \<Rightarrow> ('r, 't, 'b) content \<Rightarrow> nat list \<Rightarrow> 't
    \<Rightarrow> ('r :: finite, 't :: finite, 'b) net \<Rightarrow> ('r, 't, 'b) net option \<Rightarrow> bool" where
  "step_ok sh sp bs t s res \<longleftrightarrow> (\<exists>s'. res = Some s' \<and> good sh sp bs s'
     \<and> (if ready sh t s then (rank sh s', rank sh s) \<in> below
        else rank sh s' = rank sh s \<and> (\<forall>u. ready sh u s' = ready sh u s)))"

text \<open>A step that only moves control.\<close>

lemma can_same [simp]: "can sh u k (goto t c s) = can sh u k s" "can sh u k (fruitless t s) = can sh u k s"
  by (simp_all add: can_def split: option.split)

lemma supplied_same [simp]: "supplied sh u (goto t c s) = supplied sh u s" "supplied sh u (fruitless t s) = supplied sh u s"
  by (simp_all add: supplied_def)

lemma control_same:
  "u \<noteq> t \<Longrightarrow> ready sh u (goto t c s) = ready sh u s" "ready sh u (fruitless t s) = ready sh u s"
  "u \<noteq> t \<Longrightarrow> distance sh u (goto t c s) = distance sh u s" "distance sh u (fruitless t s) = distance sh u s"
  by (simp_all add: ready_def distance_def)

lemma weight_control:
  assumes "held (ctl s t) = {#}" "held c = {#}"
  shows "weight sh (goto t c s) = weight sh s"
proof -
  have "ctrl_weight sh t c' = 0" if "held c' = {#}" for c' using that by (cases c') simp_all
  then show ?thesis
    using sum_update [of "ctrl_weight sh" "ctl s" t c] assms by (simp add: weight_def)
qed

lemma weight_fruitless: "weight sh (fruitless t s) = weight sh s"
  by (simp add: weight_def)

lemma distance_split:
  fixes t :: "'t :: finite"
  shows "(\<Sum>u \<in> UNIV. distance sh u (goto t c s)) + distance sh t s
    = (\<Sum>u \<in> UNIV. distance sh u s) + distance sh t (goto t c s)"
proof -
  have "(\<Sum>u \<in> UNIV - {t}. distance sh u (goto t c s)) = (\<Sum>u \<in> UNIV - {t}. distance sh u s)"
    by (rule sum.cong) (simp_all add: control_same)
  then show ?thesis by (simp add: sum.remove [of UNIV t])
qed

lemma control_ready:
  assumes "held (ctl s t) = {#}" "held c = {#}" "distance sh t (goto t c s) < distance sh t s"
  shows "(rank sh (goto t c s), rank sh s) \<in> below"
proof -
  have "(\<Sum>u \<in> UNIV. distance sh u (goto t c s)) < (\<Sum>u \<in> UNIV. distance sh u s)"
    using distance_split [of sh t c s] assms(3) by linarith
  then show ?thesis by (simp add: rank_def below_def weight_control [OF assms(1,2)])
qed

lemma control_idle:
  assumes "held (ctl s t) = {#}" "held c = {#}" "\<not> ready sh t s" "c = Done \<longleftrightarrow> ctl s t = Done" "quit s \<longrightarrow> c = Done"
  shows "rank sh (goto t c s) = rank sh s \<and> (\<forall>u. ready sh u (goto t c s) = ready sh u s)"
proof -
  have "distance sh t (goto t c s) = 0" "distance sh t s = 0"
    using assms by (auto simp: distance_def ready_def dist_quit_def dist_supplied_def)
  moreover have "ready sh u (goto t c s) = ready sh u s" for u
  proof (cases "u = t")
    case True
    then show ?thesis using assms by (auto simp: ready_def)
  qed (simp add: control_same)
  ultimately show ?thesis
    using distance_split [of sh t c s] by (simp add: rank_def weight_control [OF assms(1,2)])
qed

lemma rank_fruitless: "rank sh (fruitless t s) = rank sh s"
  by (simp add: rank_def weight_fruitless control_same)

lemma count_below:
  assumes "csd_count s < limit sh" "csd_count s' = csd_count s + 1"
  shows "(rank sh s', rank sh s) \<in> below"
  using assms by (simp add: rank_def below_def) linarith

lemma weight_below:
  assumes "csd_count s' = csd_count s" "weight sh s' < weight sh s"
  shows "(rank sh s', rank sh s) \<in> below"
  using assms by (simp add: rank_def below_def)

lemma weight_move:
  fixes s s' :: "('r :: finite, 't :: finite, 'b) net"
  assumes "rings s' = (rings s)(r := q)" "ctl s' = (ctl s)(t := c)"
  shows "weight sh s' + pool_weight sh * size (pool_objs (mbuf_pool s)) + ring_weight sh r * length (queued (rings s r))
      + ctrl_weight sh t (ctl s t)
    = weight sh s + pool_weight sh * size (pool_objs (mbuf_pool s')) + ring_weight sh r * length (queued q)
      + ctrl_weight sh t c"
  using sum_update [of "ctrl_weight sh" "ctl s" t c]
    sum_update [of "\<lambda>r q. ring_weight sh r * length (queued q)" "rings s" r q]
  unfolding weight_def assms by linarith

section \<open>The threads of a network\<close>

locale network =
  fixes bs :: "nat list" and sh :: "('r :: finite, 't :: finite) shape" and sp :: "('r, 't, 'b) content"
  assumes distinct_bs: "distinct bs"
    and ring_anywhere: "on_ring sp r b \<Longrightarrow> anywhere sp b"
    and return_anywhere: "returned sp t b \<Longrightarrow> anywhere sp b"
    and take_content: "r \<in> set (ins sh t) \<Longrightarrow> on_ring sp r b \<Longrightarrow> in_hand sp t b"
    and take_weight: "r \<in> set (ins sh t) \<Longrightarrow> hand_weight sh t < ring_weight sh r"
    and source: "src sh t = Some l \<Longrightarrow> l \<in> cores sh \<and> l < RTE_MAX_LCORE \<and> hand_weight sh t < pool_weight sh \<and> t \<noteq> sink sh"
    and tries_pos: "0 < tries sh t"
    and caches: "1 < cache sh" "finite (cores sh)" "card (cores sh) * CALC_CACHE_FLUSHTHRESH (cache sh) < length bs"
    and consumer: "on_ring sp r b \<Longrightarrow> \<exists>t. src sh t = None \<and> r \<in> set (ins sh t)"
    and has_source: "\<exists>t. src sh t \<noteq> None"
begin

lemma control_step:
  assumes "good sh sp bs s" "held (ctl s t) = {#}" "c = Head \<or> (\<exists>k. c = Try k) \<or> c = Done" "ctl_ok sh sp (goto t c s) t"
    and "ready sh t s \<Longrightarrow> distance sh t (goto t c s) < distance sh t s"
    and "\<not> ready sh t s \<Longrightarrow> (c = Done \<longleftrightarrow> ctl s t = Done) \<and> (quit s \<longrightarrow> c = Done)"
  shows "step_ok sh sp bs t s (Some (goto t c s))"
proof -
  have c: "held c = {#}" using assms(3) by auto
  show ?thesis unfolding step_ok_def
    using good_control [OF assms(1-4)] control_ready [OF assms(2) c assms(5)] control_idle [OF assms(2) c _] assms(6)
    by auto
qed

lemma head_step:
  assumes "good sh sp bs s" "ctl s t = Head"
  shows "step_ok sh sp bs t s (loop_head t s)"
proof -
  have "\<exists>j < tries sh t. can sh t j s" if "supplied sh t s" using that by (simp add: supplied_def)
  then show ?thesis unfolding loop_head_def
    using assms tries_pos [of t]
    by (intro control_step) (auto simp: ctl_ok_def ready_def distance_def dist_quit_def dist_supplied_def)
qed

lemma fruitless_step:
  assumes "good sh sp bs s" "ctl s t = Try k" "\<not> can sh t k s" "tries sh t = k + 1"
  shows "step_ok sh sp bs t s (Some (goto t Head (fruitless t s)))"
proof -
  have g: "good sh sp bs (fruitless t s)" using assms(1) by (simp add: good_fruitless)
  have "\<not> (\<exists>j < tries sh t. k \<le> j \<and> can sh t j s)" using assms(3,4) by (metis Suc_eq_plus1 le_antisym less_Suc_eq_le)
  then have "step_ok sh sp bs t (fruitless t s) (Some (goto t Head (fruitless t s)))"
    using assms(2,4) by (intro control_step [OF g])
      (auto simp: ctl_ok_def ready_def distance_def dist_quit_def dist_supplied_def control_same)
  then show ?thesis unfolding step_ok_def by (simp only: control_same rank_fruitless)
qed

lemma next_try_step:
  assumes "good sh sp bs s" "ctl s t = Try k" "\<not> can sh t k s" "k + 1 < tries sh t"
  shows "step_ok sh sp bs t s (Some (goto t (Try (k + 1)) s))"
proof -
  have "ctl_ok sh sp s t" by (rule goodD [OF assms(1)])
  then have ok: "ctl_ok sh sp (goto t (Try (k + 1)) s) t" using assms(2,4) by (simp add: ctl_ok_def)
  have e: "(\<exists>j < tries sh t. k \<le> j \<and> can sh t j s) \<longleftrightarrow> (\<exists>j < tries sh t. k + 1 \<le> j \<and> can sh t j s)"
    using assms(3) by (metis Suc_eq_plus1 Suc_leD le_neq_implies_less less_eq_Suc_le)
  show ?thesis
    using assms(2,4) e by (intro control_step [OF assms(1) _ _ ok])
      (auto simp: ready_def distance_def dist_quit_def dist_supplied_def)
qed

lemma take_step:
  assumes "good sh sp bs s" "ctl s t = Try k" "src sh t = None" "queued (rings s (ins sh t ! k)) = m # queued q"
    "ring_ok q" "capacity q = capacity (rings s (ins sh t ! k))"
  shows "step_ok sh sp bs t s (Some (goto t (Busy m) (s\<lparr>rings := (rings s)(ins sh t ! k := q)\<rparr>)))" (is "step_ok sh sp bs t s (Some ?s)")
proof -
  note g = goodD [OF assms(1)]
  let ?r = "ins sh t ! k"
  have k: "k < tries sh t" "t = sink sh \<longrightarrow> \<not> quit s" using g(9) [of t] assms(2) by (simp_all add: ctl_ok_def)
  then have r: "?r \<in> set (ins sh t)" using assms(3) by (simp add: tries_def)
  have "on_ring sp ?r (mem s m)" using g(8) [of m ?r] assms(4) by simp
  then have "in_hand sp t (mem s m)" by (rule take_content [OF r])
  then have "good sh sp bs ?s" using good_take [OF assms(1) _ assms(4-6)] assms(2) k(2) by simp
  moreover have "supplied sh t s" using k(1) assms(3,4) by (auto simp: supplied_def can_def)
  then have "ready sh t s" by (simp add: ready_def assms(2))
  moreover have "weight sh ?s < weight sh s"
    using weight_move [of ?s s ?r q t "Busy m" sh] take_weight [OF r] assms(2,4) by simp
  ultimately show ?thesis using weight_below [of ?s s sh] by (simp add: step_ok_def)
qed

lemma try_ring_step:
  assumes "good sh sp bs s" "ctl s t = Try k" "src sh t = None"
  shows "step_ok sh sp bs t s (try_ring (ins sh t) t k s)"
proof -
  let ?r = "ins sh t ! k"
  have ok: "ring_ok (rings s ?r)" by (rule goodD [OF assms(1)])
  have n: "tries sh t = length (ins sh t)" "k < tries sh t"
    using assms(3) goodD(9) [OF assms(1), of t] assms(2) by (simp_all add: tries_def ctl_ok_def)
  show ?thesis
  proof (cases rule: ring.deq_cases [OF ok, of 0])
    case (1 m q)
    then show ?thesis using take_step [OF assms 1(1) 1(3,4)] by (simp add: try_ring_def)
  next
    case 2
    then have c: "\<not> can sh t k s" by (simp add: can_def assms(3))
    have "s\<lparr>rings := (rings s)(?r := rings s ?r)\<rparr> = s" by simp
    then show ?thesis
      using 2 next_try_step [OF assms(1,2) c] fruitless_step [OF assms(1,2) c] n
      by (simp add: try_ring_def ENOENT_def)
  qed
qed

lemma try_pool_step:
  assumes "good sh sp bs s" "ctl s t = Try k" "src sh t = Some l"
    and "\<And>b. anywhere sp b \<Longrightarrow> anywhere sp (prep b) \<and> in_hand sp t (prep b)"
  shows "step_ok sh sp bs t s (try_pool prep l t k s)"
proof -
  note g = goodD [OF assms(1)] and src = source [OF assms(3)]
  have k: "tries sh t = 1" "k = 0" using assms(3) g(9) [of t] assms(2) by (simp_all add: tries_def ctl_ok_def)
  have side: "1 < mp_cache_size (mbuf_pool s)" "mp_flags (mbuf_pool s) AND MEMPOOL_F_SC_GET = 0"
    using g(6) caches(1) by (simp_all add: pool_side_def)
  have exact: "(\<exists>x p. rte_mempool_get l (mbuf_pool s) = Some (0, [x], p)) \<longleftrightarrow> can sh t k s"
    using get_exact [OF g(1) side] src by (simp add: can_def assms(3))
  show ?thesis
  proof (cases rule: mempool.get_cases [OF g(1), of l])
    case (1 m p)
    let ?b = "prep (mem s m)"
    let ?s = "goto t (Busy m) (s\<lparr>mbuf_pool := p, mem := (mem s)(m := ?b)\<rparr>)"
    have "m \<in> set bs" using pool_unique(3) [OF g(5) distinct_bs, of m] 1(3) by simp
    then have b: "anywhere sp ?b" "in_hand sp t ?b" using assms(4) g(7) by blast+
    have "pool_side sh p" using pool_side_frame [OF get_frame [OF 1(1)] conjunct1 [OF src] g(6)] .
    then have "good sh sp bs ?s"
      using good_alloc [OF assms(1) distinct_bs _ 1(2-4) _ b] assms(2) src by simp
    moreover have "weight sh ?s < weight sh s"
      using weight_move [of ?s s undefined "rings s undefined" t "Busy m" sh] src 1(3) assms(2) by simp
    moreover have "ready sh t s" using exact 1(1) k assms(2) by (auto simp: ready_def supplied_def)
    ultimately show ?thesis
      using 1(1) weight_below [of ?s s sh] by (simp add: try_pool_def step_ok_def)
  next
    case 2
    then have "\<not> can sh t k s" using exact by (simp add: ENOENT_def)
    then show ?thesis
      using 2 fruitless_step [OF assms(1,2)] k by (simp add: try_pool_def ENOENT_def)
  qed
qed

text \<open>Passing a buffer on never finds a full ring.\<close>

lemma emit_step:
  assumes "good sh sp bs s" "ctl s t = Busy m" "ring_weight sh r < hand_weight sh t"
    and "on_ring sp r b" "\<And>u. d u < turns sh u"
  shows "step_ok sh sp bs t s (emit r t m (s\<lparr>turn := d, mem := (mem s)(m := b)\<rparr>))"
proof -
  note g = goodD [OF assms(1)]
  have "length (queued (rings s r)) < capacity (rings s r)"
    by (rule ring_room [OF assms(1), of m t]) (simp add: assms(2))
  then obtain q where q: "rte_ring_enqueue m (rings s r) = Some (0, q)" "ring_ok q" "queued q = queued (rings s r) @ [m]"
    "capacity q = capacity (rings s r)" using ring.enq_room [OF g(3) [of r]] by blast
  let ?s = "goto t Head (s\<lparr>turn := d, mem := (mem s)(m := b), rings := (rings s)(r := q)\<rparr>)"
  have "good sh sp bs ?s"
    using good_pass [OF assms(1) distinct_bs assms(2) q(3,2,4) ring_anywhere [OF assms(4)] assms(4,5)] .
  moreover have "weight sh ?s < weight sh s"
    using weight_move [of ?s s r q t Head sh] q(3) assms(2,3) by simp
  moreover have "ready sh t s" by (simp add: ready_def assms(2))
  ultimately show ?thesis using q(1) weight_below [of ?s s sh] by (simp add: emit_def step_ok_def)
qed

lemma pass_step:
  assumes "good sh sp bs s" "ctl s t = Busy m" "ring_weight sh r < hand_weight sh t"
    and "\<And>b. in_hand sp t b \<Longrightarrow> \<exists>b'. f b = Some b' \<and> on_ring sp r b'" "\<And>u. d u < turns sh u"
  shows "step_ok sh sp bs t s (Option.bind (work f m (s\<lparr>turn := d\<rparr>)) (emit r t m))"
proof -
  have "in_hand sp t (mem s m)" using goodD(9) [OF assms(1), of t] assms(2) by (simp add: ctl_ok_def)
  then obtain b where "f (mem s m) = Some b" "on_ring sp r b" using assms(4) by blast
  then show ?thesis using emit_step [OF assms(1-3), of b d] assms(5) by (simp add: work_def)
qed

lemma count_step:
  assumes "good sh sp bs s" "ctl s t = Busy m" "t = sink sh"
    and "\<And>b. in_hand sp t b \<Longrightarrow> \<exists>b'. f b = Some b' \<and> returned sp t b'"
  shows "step_ok sh sp bs t s (map_option (count_frame (limit sh) t m) (work f m s))"
proof -
  note g = goodD [OF assms(1)]
  have h: "in_hand sp t (mem s m)" "\<not> quit s" using g(9) [of t] assms(2,3) by (simp_all add: ctl_ok_def)
  then obtain b where b: "f (mem s m) = Some b" "returned sp t b" using assms(4) by blast
  let ?s = "count_frame (limit sh) t m (s\<lparr>mem := (mem s)(m := b)\<rparr>)"
  have "good sh sp bs ?s"
    by (rule good_count [OF assms(1) distinct_bs assms(2,3) return_anywhere [OF b(2)] b(2)])
  moreover have "(rank sh ?s, rank sh s) \<in> below"
    by (rule count_below) (use h(2) g(10) in \<open>simp_all add: count_frame_def\<close>)
  moreover have "ready sh t s" by (simp add: ready_def assms(2))
  ultimately show ?thesis using b(1) by (simp add: work_def step_ok_def)
qed

lemma release_step:
  assumes "good sh sp bs s" "ctl s t = Return m" "l \<in> cores sh"
  shows "step_ok sh sp bs t s (release l t m s)"
proof -
  note g = goodD [OF assms(1)]
  have "(\<Sum>i \<in> UNIV. held (ctl s i)) = held (ctl s t) + (\<Sum>i \<in> UNIV - {t}. held (ctl s i))"
    by (simp add: sum.remove [of UNIV t])
  then have "size (pool_objs (mbuf_pool s)) < size (buffers s)" using assms(2) by (simp add: buffers_def)
  then obtain p where p: "rte_mempool_put m l (mbuf_pool s) = Some p" "pool_ok p"
    "pool_objs p = add_mset m (pool_objs (mbuf_pool s))" "mp_size p = mp_size (mbuf_pool s)"
    using mempool.put_one [OF g(1)] g(2,5) by force
  let ?s = "goto t Head (s\<lparr>mbuf_pool := p\<rparr>)"
  have "pool_side sh p" using pool_side_frame [OF put_frame [OF p(1)] assms(3) g(6)] .
  then have "good sh sp bs ?s" by (rule good_release [OF assms(1,2) p(2-4)])
  moreover have "weight sh ?s < weight sh s"
    using weight_move [of ?s s undefined "rings s undefined" t Head sh] p(3) assms(2) by simp
  moreover have "ready sh t s" by (simp add: ready_def assms(2))
  ultimately show ?thesis using p(1) weight_below [of ?s s sh] by (simp add: release_def step_ok_def)
qed

lemma done_step:
  assumes "good sh sp bs s" "ctl s t = Done"
  shows "step_ok sh sp bs t s (Some s)"
  using assms by (simp add: step_ok_def ready_def)

lemma thread_step:
  assumes "good sh sp bs s" "\<And>k. ctl s t = Try k \<Longrightarrow> step_ok sh sp bs t s (try k s)"
    "\<And>m. ctl s t = Busy m \<Longrightarrow> step_ok sh sp bs t s (go m s)"
    "\<And>m. ctl s t = Return m \<Longrightarrow> step_ok sh sp bs t s (back m s)"
  shows "step_ok sh sp bs t s (thread try go back t s)"
  using assms head_step [OF assms(1)] done_step [OF assms(1)] by (simp add: thread_def split: ctrl.split)

lemma no_return:
  assumes "good sh sp bs s" "\<And>b. \<not> returned sp t b" "ctl s t = Return m"
  shows False
  using goodD(9) [OF assms(1), of t] assms(2,3) by (simp add: ctl_ok_def)

lemma reader_step:
  assumes "good sh sp bs s" "src sh t = Some l" "ring_weight sh r < hand_weight sh t" "\<And>b. \<not> returned sp t b"
    and "\<And>b. anywhere sp b \<Longrightarrow> anywhere sp (prep b) \<and> in_hand sp t (prep b)"
    and "\<And>b. in_hand sp t b \<Longrightarrow> \<exists>b'. f b = Some b' \<and> on_ring sp r b'"
  shows "step_ok sh sp bs t s (reader t l prep f r s)"
  unfolding reader_def
proof (rule thread_step [OF assms(1)])
  show "step_ok sh sp bs t s (try_pool prep l t k s)" if "ctl s t = Try k" for k
    by (rule try_pool_step [OF assms(1) that assms(2,5)])
  show "step_ok sh sp bs t s (Option.bind (work f m s) (emit r t m))" if "ctl s t = Busy m" for m
    using pass_step [OF assms(1) that assms(3,6) goodD(12) [OF assms(1)]] by simp
qed (use no_return [OF assms(1,4)] in blast)

lemma worker_step:
  assumes "good sh sp bs s" "src sh t = None" "ins sh t = [rin]" "ring_weight sh r < hand_weight sh t" "\<And>b. \<not> returned sp t b"
    and "\<And>b. in_hand sp t b \<Longrightarrow> \<exists>b'. f b = Some b' \<and> on_ring sp r b'"
  shows "step_ok sh sp bs t s (worker t rin f r s)"
  unfolding worker_def
proof (rule thread_step [OF assms(1)])
  show "step_ok sh sp bs t s (try_ring [rin] t k s)" if "ctl s t = Try k" for k
    using try_ring_step [OF assms(1) that assms(2)] by (simp add: assms(3))
  show "step_ok sh sp bs t s (Option.bind (work f m s) (emit r t m))" if "ctl s t = Busy m" for m
    using pass_step [OF assms(1) that assms(4,6) goodD(12) [OF assms(1)]] by simp
qed (use no_return [OF assms(1,5)] in blast)

text \<open>The counter of a thread that deals out buffers never takes a value without a ring.\<close>

lemma next_turn_range: "1 < lim \<Longrightarrow> d < lim \<Longrightarrow> 1 \<le> next_turn lim d \<and> next_turn lim d < lim"
  by (auto simp: next_turn_def)

lemma splitter_step:
  assumes "good sh sp bs s" "src sh t = None" "ins sh t = [rin]" "\<And>b. \<not> returned sp t b"
    and "1 < lim" "turns sh t = lim" "lim \<le> length routs + 1"
    and "\<And>r. r \<in> set (take (lim - 1) routs) \<Longrightarrow> ring_weight sh r < hand_weight sh t"
    and "\<And>r b. r \<in> set (take (lim - 1) routs) \<Longrightarrow> in_hand sp t b \<Longrightarrow> \<exists>b'. f b = Some b' \<and> on_ring sp r b'"
  shows "step_ok sh sp bs t s (splitter t rin f lim routs s)"
  unfolding splitter_def
proof (rule thread_step [OF assms(1)])
  show "step_ok sh sp bs t s (try_ring [rin] t k s)" if "ctl s t = Try k" for k
    using try_ring_step [OF assms(1) that assms(2)] by (simp add: assms(3))
  let ?d = "next_turn lim (turn s t)"
  have t: "turn s t < lim" using goodD(12) [OF assms(1), of t] assms(6) by simp
  have d: "1 \<le> ?d" "?d < lim" "?d \<le> length routs" using next_turn_range [OF assms(5) t] assms(7) by simp_all
  have u: "((turn s)(t := ?d)) u < turns sh u" for u
    using goodD(12) [OF assms(1), of u] next_turn_range [OF assms(5) t] assms(6) by simp
  have "routs ! (?d - 1) = take (lim - 1) routs ! (?d - 1)" using d by simp
  then have r: "routs ! (?d - 1) \<in> set (take (lim - 1) routs)" using d by (metis diff_less_mono length_take min_less_iff_conj nth_mem Suc_le_eq diff_Suc_less One_nat_def less_le_trans zero_less_one)
  show "step_ok sh sp bs t s (let dis_count = ?d
      in Option.bind (work f m (s\<lparr>turn := (turn s)(t := dis_count)\<rparr>))
        (\<lambda>s. if 1 \<le> dis_count \<and> dis_count \<le> length routs then emit (routs ! (dis_count - 1)) t m s else Some (goto t Head s)))"
    if "ctl s t = Busy m" for m
  proof -
    have "step_ok sh sp bs t s (Option.bind (work f m (s\<lparr>turn := (turn s)(t := ?d)\<rparr>)) (emit (routs ! (?d - 1)) t m))"
      by (rule pass_step [OF assms(1) that assms(8) [OF r] assms(9) [OF r] u])
    then show ?thesis using d by (simp add: Let_def)
  qed
qed (use no_return [OF assms(1,4)] in blast)

lemma sinker_step:
  assumes "good sh sp bs s" "src sh t = None" "ins sh t = rins" "t = sink sh" "l \<in> cores sh"
    and "\<And>b. in_hand sp t b \<Longrightarrow> \<exists>b'. f b = Some b' \<and> returned sp t b'"
  shows "step_ok sh sp bs t s (sinker t l rins f (limit sh) s)"
  unfolding sinker_def
proof (rule thread_step [OF assms(1)])
  show "step_ok sh sp bs t s (try_ring rins t k s)" if "ctl s t = Try k" for k
    using try_ring_step [OF assms(1) that assms(2)] by (simp add: assms(3))
  show "step_ok sh sp bs t s (map_option (count_frame (limit sh) t m) (work f m s))" if "ctl s t = Busy m" for m
    by (rule count_step [OF assms(1) that assms(4,6)])
  show "step_ok sh sp bs t s (release l t m s)" if "ctl s t = Return m" for m
    by (rule release_step [OF assms(1) that assms(5)])
qed

text \<open>As long as the program runs, some thread has something to do.\<close>

lemma cached_bound:
  assumes "pool_ok p" "pool_side sh p"
  shows "size (cached (local_cache p)) \<le> card (cores sh) * CALC_CACHE_FLUSHTHRESH (cache sh)"
proof -
  let ?len = "\<lambda>l. length (objs (local_cache p ! l))"
  have n: "length (local_cache p) = RTE_MAX_LCORE" using assms(1) by (simp add: pool_ok_def)
  have "size (cached cs) = (\<Sum>l < length cs. length (objs (cs ! l)))" for cs :: "nat rte_mempool_cache list"
    by (induction cs) (simp_all add: cached_def sum.lessThan_Suc_shift del: sum.lessThan_Suc)
  then have "size (cached (local_cache p)) = (\<Sum>l < RTE_MAX_LCORE. ?len l)" by (simp add: n)
  also have "\<dots> = (\<Sum>l \<in> {..<RTE_MAX_LCORE} \<inter> cores sh. ?len l)"
    using assms(2) by (intro sum.mono_neutral_right) (auto simp: pool_side_def)
  also have "\<dots> \<le> (\<Sum>l \<in> {..<RTE_MAX_LCORE} \<inter> cores sh. CALC_CACHE_FLUSHTHRESH (cache sh))"
  proof (rule sum_mono)
    fix l
    assume "l \<in> {..<RTE_MAX_LCORE} \<inter> cores sh"
    then have "cache_ok (mp_cache_size p) (local_cache p ! l)"
      using assms(1) n by (simp add: pool_ok_def)
    then show "?len l \<le> CALC_CACHE_FLUSHTHRESH (cache sh)"
      using assms(2) by (simp add: cache_ok_def pool_side_def)
  qed
  also have "\<dots> = card ({..<RTE_MAX_LCORE} \<inter> cores sh) * CALC_CACHE_FLUSHTHRESH (cache sh)" by simp
  also have "\<dots> \<le> card (cores sh) * CALC_CACHE_FLUSHTHRESH (cache sh)"
    by (intro mult_le_mono1 card_mono caches(2)) simp
  finally show ?thesis .
qed

lemma alive:
  assumes "good sh sp bs s" "\<not> quit s"
  shows "\<exists>t. ready sh t s"
proof (rule ccontr)
  note g = goodD [OF assms(1)]
  assume none: "\<nexists>t. ready sh t s"
  have held: "held (ctl s t) = {#}" for t using none by (auto simp: ready_def)
  have "ctl s t \<noteq> Done" for t using g(9) [of t] assms(2) by (auto simp: ctl_ok_def)
  then have sup: "\<not> supplied sh t s" for t using none by (auto simp: ready_def)
  have q: "queued (rings s r) = []" for r
  proof (rule ccontr)
    assume r: "queued (rings s r) \<noteq> []"
    then obtain m where "m \<in> set (queued (rings s r))" using last_in_set by blast
    then obtain t where t: "src sh t = None" "r \<in> set (ins sh t)" using consumer g(8) by blast
    then obtain k where "k < length (ins sh t)" "ins sh t ! k = r" by (meson in_set_conv_nth)
    then have "supplied sh t s" using t(1) r by (auto simp: supplied_def tries_def can_def)
    then show False using sup by blast
  qed
  obtain t l where t: "src sh t = Some l" using has_source by blast
  have "\<not> can sh t 0 s" using sup [of t] t by (simp add: supplied_def tries_def)
  then have "queued (pool_data (mbuf_pool s)) = []" by (simp add: can_def t)
  then have "buffers s = cached (local_cache (mbuf_pool s))"
    by (simp add: buffers_def pool_objs_def q held)
  then have "size (cached (local_cache (mbuf_pool s))) = length bs" using g(5) by (metis size_mset)
  then show False using cached_bound [OF g(1,6)] caches(3) by simp
qed

lemma final_state:
  assumes "good sh sp bs s" "\<And>t. \<not> ready sh t s"
  shows "quit s" "ctl s t = Done" "csd_count s = limit sh"
proof -
  show q: "quit s" using alive [OF assms(1)] assms(2) by blast
  show "ctl s t = Done" using assms(2) [of t] q by (simp add: ready_def)
  show "csd_count s = limit sh" using goodD(10,11) [OF assms(1)] q by simp
qed

end

text \<open>A network together with its threads.\<close>

locale pipeline = network bs sh sp
  for bs and sh :: "('r :: finite, 't :: finite) shape" and sp :: "('r, 't, 'b) content" +
  fixes act :: "'t \<Rightarrow> ('r, 't, 'b) net \<Rightarrow> ('r, 't, 'b) net option"
  assumes act_step: "good sh sp bs s \<Longrightarrow> step_ok sh sp bs t s (act t s)"

sublocale pipeline \<subseteq> fair_system act "good sh sp bs" "ready sh" "rank sh" below
proof unfold_locales
  show "wf below" by (rule wf_below)
  show "\<exists>s'. act t s = Some s' \<and> good sh sp bs s' \<and> (rank sh s', rank sh s) \<in> below"
    if "good sh sp bs s" "ready sh t s" for s t
    using act_step [OF that(1), of t] that(2) by (auto simp: step_ok_def)
  show "\<exists>s'. act t s = Some s' \<and> good sh sp bs s' \<and> rank sh s' = rank sh s \<and> (\<forall>u. ready sh u s' = ready sh u s)"
    if "good sh sp bs s" "\<not> ready sh t s" for s t
    using act_step [OF that(1), of t] that(2) by (auto simp: step_ok_def)
qed

context pipeline
begin

lemma stays_good:
  assumes "good sh sp bs s"
  shows "\<exists>s'. run act \<sigma> n s = Some s' \<and> good sh sp bs s'"
  by (rule runs [OF assms])

lemma ends:
  assumes "good sh sp bs s" "fair \<sigma>"
  shows "\<exists>n s'. run act \<sigma> n s = Some s' \<and> good sh sp bs s' \<and> quit s' \<and> (\<forall>t. ctl s' t = Done)
    \<and> csd_count s' = limit sh"
  using settles [OF assms] final_state by blast

text \<open>What holds after any number of steps.\<close>

lemma always:
  assumes "good sh sp bs s"
  shows "\<exists>s'. run act \<sigma> n s = Some s' \<and> buffers s' = mset bs
    \<and> (\<forall>r. distinct (queued (rings s' r)) \<and> length (queued (rings s' r)) \<le> length bs)
    \<and> (\<forall>r. \<forall>m \<in> set (queued (rings s' r)). on_ring sp r (mem s' m))
    \<and> (\<forall>t m. ctl s' t = Return m \<longrightarrow> returned sp t (mem s' m))
    \<and> csd_count s' \<le> limit sh \<and> (quit s' \<longleftrightarrow> csd_count s' = limit sh)"
proof -
  obtain s' where r: "run act \<sigma> n s = Some s'" "good sh sp bs s'" using runs [OF assms] by blast
  note g = goodD [OF r(2)]
  have "distinct (queued (rings s' r)) \<and> length (queued (rings s' r)) \<le> length bs" for r
  proof -
    obtain M where M: "mset (queued (rings s' r)) + M = mset bs" using ring_part [of s' r] g(5) by metis
    then have "length (queued (rings s' r)) + size M = length bs" by (metis size_mset size_union)
    then show ?thesis using distinct_part [OF M distinct_bs] by simp
  qed
  moreover have "returned sp t (mem s' m)" if "ctl s' t = Return m" for t m
    using g(9) [of t] that by (simp add: ctl_ok_def)
  ultimately show ?thesis using r(1) g(5,8,10,11) by (intro exI [of _ s']) auto
qed

end

end
