(* ===== verification/Params.thy ===== *)
theory Params
  imports Prelude
begin

text \<open>
  The configuration of the transmitter: the global variables of
  \<^verbatim>\<open>VarINIT/globalVarINIT.c\<close> that the data path reads, the rate table of
  \<^verbatim>\<open>process_data/mcs_table_for_20M.c\<close> and the frame geometry that
  \<^verbatim>\<open>GenInit.c\<close> derives from them. The C variables are \<open>int\<close>; they are modelled as
  mathematical integers (array sizes and indices as naturals), and
  \<open>GenInit_no_overflow\<close> shows that 32 bits hold every intermediate value.
\<close>

section \<open>Global variables\<close>

record globals =
  dotscale :: nat
  Band :: nat
  SampRate :: nat
  MCS :: nat
  APEP_LEN :: nat
  subcar :: nat
  N_tone :: nat
  N_pilot :: nat

definition globals0 :: globals where
  "globals0 = \<lparr>dotscale = 13, Band = 80, SampRate = 40, MCS = 5, APEP_LEN = 512,
     subcar = 256, N_tone = 242, N_pilot = 8\<rparr>"

text \<open>The macros \<open>N_STS\<close> and \<open>N_TX\<close> of \<^verbatim>\<open>headers/globalVarINIT.h\<close>.\<close>

definition N_STS :: nat where
  "N_STS = 4"

definition N_TX :: nat where
  "N_TX = 4"

lemmas [param_simps] = N_STS_def N_TX_def

section \<open>The rate table\<close>

record mcs_params =
  rate_type :: byte
  n_bpscs :: nat
  n_dbps :: nat
  n_cbps :: nat
  n_es :: nat

definition RATE_TYPE :: "byte list" where
  "RATE_TYPE = [0, 0, 1, 0, 1, 2, 1, 5, 1, 5]"

definition N_BPSCS_tab :: "nat list" where
  "N_BPSCS_tab = [1, 2, 2, 4, 4, 6, 6, 6, 8, 8]"

definition N_ES_tab :: "nat list" where
  "N_ES_tab = [1, 1, 1, 1, 1, 1, 1, 1, 1, 1]"

definition N_DBPS_tab :: "nat list" where
  "N_DBPS_tab = [117, 234, 351, 468, 702, 936, 1053, 1170, 1404, 1560]"

definition N_CBPS_tab :: "nat list" where
  "N_CBPS_tab = [234, 468, 468, 936, 936, 1404, 1404, 1404, 1872, 1872]"

definition mcs_table_for_20M :: "globals \<Rightarrow> mcs_params" where
  "mcs_table_for_20M g =
     (let N_SS = N_STS; index = MCS g in
      \<lparr>rate_type = RATE_TYPE ! index,
       n_bpscs = N_BPSCS_tab ! index,
       n_dbps = N_SS * N_DBPS_tab ! index,
       n_cbps = N_SS * N_CBPS_tab ! index,
       n_es = N_ES_tab ! index\<rparr>)"

lemmas mcs_tabs = RATE_TYPE_def N_BPSCS_tab_def N_ES_tab_def N_DBPS_tab_def N_CBPS_tab_def

text \<open>An index past the ten columns is outside the arrays; every user assumes \<open>MCS g < 10\<close>.\<close>

lemma less10_cases:
  assumes "(n::nat) < 10"
  obtains "n = 0" | "n = 1" | "n = 2" | "n = 3" | "n = 4" | "n = 5" | "n = 6" | "n = 7"
    | "n = 8" | "n = 9"
  using assms by fastforce

lemma mcs_cbps_bpscs: "MCS g < 10 \<Longrightarrow>
    n_cbps (mcs_table_for_20M g) = N_STS * (26 * (9 * n_bpscs (mcs_table_for_20M g)))"
  by (cases "MCS g" rule: less10_cases)
    (simp_all add: mcs_table_for_20M_def mcs_tabs param_simps)

lemma mcs_n_es: "MCS g < 10 \<Longrightarrow> n_es (mcs_table_for_20M g) = 1"
  by (cases "MCS g" rule: less10_cases) (simp_all add: mcs_table_for_20M_def mcs_tabs)

lemma mcs_bpscs_cases: "MCS g < 10 \<Longrightarrow> n_bpscs (mcs_table_for_20M g) \<in> {1, 2, 4, 6, 8}"
  by (cases "MCS g" rule: less10_cases) (simp_all add: mcs_table_for_20M_def mcs_tabs)

lemma mcs_dbps_bounds: "MCS g < 10 \<Longrightarrow>
    468 \<le> n_dbps (mcs_table_for_20M g) \<and> n_dbps (mcs_table_for_20M g) \<le> 6240"
  by (cases "MCS g" rule: less10_cases)
    (simp_all add: mcs_table_for_20M_def mcs_tabs param_simps)

text \<open>The code rate, as numerator and denominator, that each puncturing mode stands for.\<close>

definition code_rate :: "byte \<Rightarrow> nat \<times> nat" where
  "code_rate p = (if p = 1 then (3, 4) else if p = 2 then (2, 3) else if p = 5 then (5, 6)
     else (1, 2))"

section \<open>Frame geometry: GenInit\<close>

definition N_service :: int where
  "N_service = 16"

definition N_tail :: int where
  "N_tail = 6"

lemmas [param_simps] = N_service_def N_tail_def

text \<open>
  \<open>ceil((double) a / (double) b)\<close> for positive integers below \<open>2^53\<close> is the exact
  integer quotient rounded up: the rounded quotient of such integers never crosses the
  next integer.
\<close>

definition ceil_div :: "int \<Rightarrow> int \<Rightarrow> int" where
  "ceil_div a b = - ((- a) div b)"

lemma ceil_div_mult: "ceil_div a b * b = a + (- a) mod b"
  unfolding ceil_div_def using div_mult_mod_eq [of "- a" b] by linarith

lemma ceil_div_bounds:
  assumes "0 < b"
  shows "a \<le> ceil_div a b * b" and "ceil_div a b * b < a + b"
  using assms pos_mod_bound [of b "- a"] by (simp_all add: ceil_div_mult)

record frame =
  N_CBPS :: int
  N_SYM :: int
  ScrLength :: int
  valid_bits :: int

definition num_sym :: "globals \<Rightarrow> int" where
  "num_sym g =
     (let m = mcs_table_for_20M g in
      ceil_div (8 * int (APEP_LEN g) + N_service + N_tail * int (n_es m)) (int (n_dbps m)))"

definition GenInit :: "globals \<Rightarrow> frame" where
  "GenInit g =
     (let m = mcs_table_for_20M g;
          dbps = int (n_dbps m);
          es = int (n_es m);
          apep = int (APEP_LEN g);
          sym = ceil_div (8 * apep + N_service + N_tail * es) dbps;
          PSDU_LENGTH = (sym * dbps - N_service - N_tail * es) div 8;
          MAC_PAD = (PSDU_LENGTH - apep) * 8;
          N_PAD = sym * dbps - 8 * PSDU_LENGTH - N_service - N_tail * es
      in \<lparr>N_CBPS = int (n_cbps m), N_SYM = sym,
          ScrLength = apep + 2 + (MAC_PAD + N_PAD) div 8 + 1,
          valid_bits = (apep + 2) * 8 + MAC_PAD + N_PAD\<rparr>)"

text \<open>
  The two lengths GenInit returns, in terms of the number of OFDM symbols: the valid bits
  and the six tail bits fill the data bits of the symbols exactly, and \<open>ScrLength\<close> is
  one byte more than the whole bytes of valid bits.
\<close>

lemma GenInit_valid_bits:
  "MCS g < 10 \<Longrightarrow> valid_bits (GenInit g)
     = N_SYM (GenInit g) * int (n_dbps (mcs_table_for_20M g)) - 6"
  by (simp add: GenInit_def Let_def param_simps mcs_n_es)

lemma GenInit_ScrLength:
  "MCS g < 10 \<Longrightarrow> ScrLength (GenInit g) = valid_bits (GenInit g) div 8 + 1"
  by (simp add: GenInit_def Let_def param_simps mcs_n_es)

lemma GenInit_N_SYM [simp]: "N_SYM (GenInit g) = num_sym g"
  by (simp add: GenInit_def num_sym_def Let_def)

lemma GenInit_N_CBPS: "N_CBPS (GenInit g) = int (n_cbps (mcs_table_for_20M g))"
  by (simp add: GenInit_def Let_def)

lemma num_sym_bounds:
  assumes "MCS g < 10"
  defines "dbps \<equiv> int (n_dbps (mcs_table_for_20M g))"
  shows "8 * int (APEP_LEN g) + 22 \<le> num_sym g * dbps"
    and "num_sym g * dbps < 8 * int (APEP_LEN g) + 22 + dbps"
proof -
  have "0 < dbps" using mcs_dbps_bounds [OF assms(1)] by (simp add: dbps_def)
  from ceil_div_bounds [OF this, of "22 + 8 * int (APEP_LEN g)"]
  show "8 * int (APEP_LEN g) + 22 \<le> num_sym g * dbps"
    and "num_sym g * dbps < 8 * int (APEP_LEN g) + 22 + dbps"
    using assms(1) by (simp_all add: num_sym_def Let_def param_simps mcs_n_es dbps_def)
qed

lemma num_sym_pos: "MCS g < 10 \<Longrightarrow> 0 < num_sym g"
  using num_sym_bounds(1) [of g] mcs_dbps_bounds [of g]
  by (smt (verit) mult_nonneg_nonpos2 of_nat_0_le_iff mult_le_0_iff)

text \<open>
  C division truncates towards zero while \<open>div\<close> rounds down; the dividends of GenInit are
  never negative, so the two agree.
\<close>

lemma GenInit_dividends:
  assumes "MCS g < 10"
  defines "dbps \<equiv> int (n_dbps (mcs_table_for_20M g))"
  shows "0 \<le> num_sym g * dbps - 22"
    and "int (APEP_LEN g) \<le> (num_sym g * dbps - 22) div 8"
  using num_sym_bounds(1) [OF assms(1)] by (simp_all add: dbps_def)

text \<open>The lengths of a frame, as naturals.\<close>

definition scr_len :: "globals \<Rightarrow> nat" where
  "scr_len g = nat (ScrLength (GenInit g))"

definition scr_valid :: "globals \<Rightarrow> nat" where
  "scr_valid g = nat (valid_bits (GenInit g))"

lemma scr_valid_ge: "MCS g < 10 \<Longrightarrow> 8 * (APEP_LEN g + 2) \<le> scr_valid g"
  using num_sym_bounds(1) [of g] GenInit_valid_bits [of g] by (simp add: scr_valid_def)

lemma scr_len_eq: "MCS g < 10 \<Longrightarrow> scr_len g = Suc (scr_valid g div 8)"
proof -
  assume m: "MCS g < 10"
  have "0 \<le> valid_bits (GenInit g)"
    using num_sym_bounds(1) [OF m] GenInit_valid_bits [OF m] by simp
  then show ?thesis
    using GenInit_ScrLength [OF m] by (simp add: scr_len_def scr_valid_def nat_add_distrib
        nat_div_distrib)
qed

definition frame_syms :: "globals \<Rightarrow> nat" where
  "frame_syms g = nat (N_SYM (GenInit g))"

definition frame_code :: "globals \<Rightarrow> nat" where
  "frame_code g = frame_syms g * n_cbps (mcs_table_for_20M g)"

lemma scr_valid_tail: "MCS g < 10 \<Longrightarrow>
    scr_valid g + 6 = frame_syms g * n_dbps (mcs_table_for_20M g)"
proof -
  assume m: "MCS g < 10"
  have "valid_bits (GenInit g) + 6 = num_sym g * int (n_dbps (mcs_table_for_20M g))"
    using GenInit_valid_bits [OF m] by simp
  moreover have "0 \<le> valid_bits (GenInit g)"
    using GenInit_valid_bits [OF m] num_sym_bounds(1) [OF m] by simp
  ultimately show ?thesis
    using num_sym_pos [OF m] unfolding scr_valid_def frame_syms_def GenInit_N_SYM
    by (metis nat_int nat_mult_distrib nat_add_distrib less_imp_le nat_numeral zero_le_numeral)
qed

text \<open>C13: the frame geometry of GenInit. The number of OFDM symbols is the least that
  carries the service bits, the payload and the tail; the scrambler's valid bits plus six
  tail bits fill these symbols exactly, and the scrambler's last byte is the only one that
  is not made of valid bits alone.\<close>

theorem GenInit_geometry:
  assumes "MCS g < 10"
  defines "dbps \<equiv> int (n_dbps (mcs_table_for_20M g))" and "f \<equiv> GenInit g"
  shows "8 * int (APEP_LEN g) + 16 + 6 \<le> N_SYM f * dbps
    \<and> (N_SYM f - 1) * dbps < 8 * int (APEP_LEN g) + 16 + 6
    \<and> valid_bits f + 6 = N_SYM f * dbps
    \<and> 8 * (ScrLength f - 1) \<le> valid_bits f \<and> valid_bits f < 8 * ScrLength f
    \<and> int (APEP_LEN g) + 2 < ScrLength f"
  using num_sym_bounds [OF assms(1)] GenInit_valid_bits [OF assms(1)]
    GenInit_ScrLength [OF assms(1)]
  unfolding assms(2,3) by (simp add: algebra_simps) linarith

theorem GenInit_geometry_witness:
  "GenInit globals0 = \<lparr>N_CBPS = 5616, N_SYM = 2, ScrLength = 936, valid_bits = 7482\<rparr>
   \<and> (8 * 512 + 16 + 6 \<le> (2::int) * 3744 \<and> (2 - 1) * (3744::int) < 8 * 512 + 16 + 6
      \<and> 7482 + 6 = (2::int) * 3744)"
proof -
  have m: "MCS globals0 < 10" by (simp add: globals0_def)
  have g: "GenInit globals0 = \<lparr>N_CBPS = 5616, N_SYM = 2, ScrLength = 936, valid_bits = 7482\<rparr>"
    by (simp add: GenInit_def Let_def globals0_def mcs_table_for_20M_def mcs_tabs param_simps
        ceil_div_def)
  have d: "n_dbps (mcs_table_for_20M globals0) = 3744" "APEP_LEN globals0 = 512"
    by (simp_all add: globals0_def mcs_table_for_20M_def mcs_tabs param_simps)
  from GenInit_geometry [OF m] g show ?thesis by (simp add: d del: GenInit_N_SYM)
qed

text \<open>No 32-bit overflow. For payloads up to 64 MiB every product and sum GenInit
  computes, and hence every value it returns, fits a C \<open>int\<close>.\<close>

theorem GenInit_no_overflow:
  assumes "MCS g < 10" and "APEP_LEN g \<le> 2 ^ 26"
  defines "f \<equiv> GenInit g"
  shows "0 < N_SYM f \<and> N_SYM f * int (n_dbps (mcs_table_for_20M g)) < 2 ^ 31
    \<and> 8 * int (APEP_LEN g) + 22 < 2 ^ 31
    \<and> 0 < ScrLength f \<and> ScrLength f < 2 ^ 31 \<and> 0 < valid_bits f \<and> valid_bits f < 2 ^ 31"
  using num_sym_bounds [OF assms(1)] num_sym_pos [OF assms(1)] GenInit_valid_bits [OF assms(1)]
    GenInit_ScrLength [OF assms(1)] mcs_dbps_bounds [OF assms(1)] assms(2)
  unfolding f_def by simp linarith

theorem GenInit_no_overflow_witness:
  "APEP_LEN globals0 \<le> 2 ^ 26 \<and> ScrLength (GenInit globals0) < 2 ^ 31"
proof -
  have "MCS globals0 < 10" "APEP_LEN globals0 \<le> 2 ^ 26" by (simp_all add: globals0_def)
  from GenInit_no_overflow [OF this] this(2) show ?thesis by blast
qed

end
