(* ===== verification/Scramble.thy ===== *)
theory Scramble
  imports Params
begin

text \<open>
  \<^verbatim>\<open>process_data/process_datafunction/GenDataAndScramble.c\<close>: the bit helpers, the
  scrambler in its two builds (bit by bit, and by the table \<open>ChartTable\<close> when
  \<open>OPTIMIZATION\<close> is defined) and the routine that fills the table. The abstract
  specification is \<open>scramble_bits\<close>, a scrambler on bit streams; both builds are shown to
  compute it, hence to agree, and the stream is recovered by \<open>descramble_bits\<close>.
\<close>

section \<open>Bit helpers\<close>

definition SetN1 :: "byte \<Rightarrow> nat \<Rightarrow> byte" where
  "SetN1 b n = b OR push_bit n 1"

definition SetN0 :: "byte \<Rightarrow> nat \<Rightarrow> byte" where
  "SetN0 b n = b AND NOT (push_bit n 1)"

definition GetBit :: "byte \<Rightarrow> nat \<Rightarrow> byte" where
  "GetBit buf n = drop_bit n buf AND 1"

lemma GetBit_of_bool [bit_rules]: "GetBit b n = of_bool (bit b n)"
  by (simp add: GetBit_def and_one_eq bit_iff_odd_drop_bit mod2_eq_if)

lemma bit_SetN1 [bit_rules]: "n < 8 \<Longrightarrow> bit (SetN1 b n) k \<longleftrightarrow> bit b k \<or> k = n"
  by (auto simp: SetN1_def bit_simps)

lemma bit_SetN0 [bit_rules]: "bit (SetN0 b n) k \<longleftrightarrow> bit b k \<and> k \<noteq> n"
  by (auto simp: SetN0_def bit_simps dest: bit_imp_le_length)

section \<open>One scrambler step\<close>

text \<open>The shift loop \<open>for(j=0;j<6;j++) Reg[j]=Reg[j+1];\<close>.\<close>

definition shift_reg :: "byte list \<Rightarrow> byte list" where
  "shift_reg r = fold (\<lambda>j r. r[j := r ! (j + 1)]) [0..<6] r"

text \<open>The loop body shared by the three scrambling loops, at bit \<open>i\<close> of a data byte.\<close>

definition scr_step :: "byte \<Rightarrow> nat \<Rightarrow> byte \<times> byte list \<Rightarrow> byte \<times> byte list" where
  "scr_step d i = (\<lambda>(ds, r).
     let ds' = (if (unat (GetBit d i) + unat (r ! 0) + unat (r ! 3)) mod 2 \<noteq> 0
                then SetN1 ds i else ds);
         r' = (shift_reg r)[6 := GetBit ds' i]
     in (ds', r'))"

definition GenDataAndScramble_aux :: "byte \<Rightarrow> byte \<Rightarrow> byte \<Rightarrow> byte \<times> byte" where
  "GenDataAndScramble_aux data_scramble databits Reg =
     (let regg = map (GetBit Reg) [0..<7];
          (ds, r) = fold (scr_step databits) [0..<8] (data_scramble, regg)
      in (ds, 64 * r ! 6 + 32 * r ! 5 + 16 * r ! 4 + 8 * r ! 3 + 4 * r ! 2 + 2 * r ! 1 + r ! 0))"

section \<open>The table\<close>

record Scramble_t =
  data_out :: byte
  reg_out :: byte

definition ChartTable0 :: "Scramble_t list list" where
  "ChartTable0 = replicate 256 (replicate 128 \<lparr>data_out = 0, reg_out = 0\<rparr>)"

definition chart_entry :: "Scramble_t \<Rightarrow> byte \<Rightarrow> byte \<Rightarrow> Scramble_t" where
  "chart_entry old i j =
     (let (d, r) = GenDataAndScramble_aux (data_out old) i j in \<lparr>data_out = d, reg_out = r\<rparr>)"

definition Creatnewchart :: "Scramble_t list list \<Rightarrow> Scramble_t list list" where
  "Creatnewchart chart =
     snd (fold (\<lambda>k (i, ch).
       (i + 1,
        fold (\<lambda>j ch. upd2 (unat i) j (chart_entry (ch ! unat i ! j) i (of_nat j)) ch) [0..<128] ch))
       [0..<256] (0 :: byte, chart))"

section \<open>GenDataAndScramble\<close>

text \<open>
  The local array \<open>data\<close>: two zero bytes for the service field, the payload, and zeros.
\<close>

definition data_array :: "globals \<Rightarrow> nat \<Rightarrow> byte list \<Rightarrow> byte list" where
  "data_array g n databits =
     map (\<lambda>i. if i < 2 then 0 else if i < APEP_LEN g + 2 then databits ! (i - 2) else 0) [0..<n]"

text \<open>The build without \<open>OPTIMIZATION\<close>.\<close>

definition scr_byte :: "nat \<Rightarrow> byte \<Rightarrow> nat \<times> byte \<times> byte list \<Rightarrow> nat \<times> byte \<times> byte list" where
  "scr_byte valid d = fold (\<lambda>j (count, st).
     let count = count + 1
     in if count \<le> valid then (count, scr_step d j st) else (count, st)) [0..<8]"

definition scr_body_ref :: "byte list \<Rightarrow> nat \<Rightarrow> nat \<Rightarrow> nat \<times> byte list \<times> byte list
    \<Rightarrow> nat \<times> byte list \<times> byte list" where
  "scr_body_ref dat valid i = (\<lambda>(count, ds, r).
     let (count', b, r') = scr_byte valid (dat ! i) (count, ds ! i, r)
     in (count', ds[i := b], r'))"

definition GenDataAndScramble_ref :: "globals \<Rightarrow> nat \<Rightarrow> byte list \<Rightarrow> nat \<Rightarrow> byte list" where
  "GenDataAndScramble_ref g n databits valid =
     (let dat = data_array g n databits;
          (count, ds, r) = fold (scr_body_ref dat valid) [0..<n]
            (0, replicate n 0, [1, 0, 1, 1, 0, 1, 0])
      in ds)"

text \<open>The build with \<open>OPTIMIZATION\<close>: whole bytes by the table, the last one bit by bit.\<close>

definition scr_body_opt :: "Scramble_t list list \<Rightarrow> byte list \<Rightarrow> nat \<Rightarrow> nat
    \<Rightarrow> nat \<times> byte list \<times> byte \<Rightarrow> nat \<times> byte list \<times> byte" where
  "scr_body_opt chart dat valid i = (\<lambda>(count, ds, reg).
     let count = count + 8
     in if count \<le> valid
        then (let e = chart ! unat (dat ! i) ! unat reg
              in (count, ds[i := data_out e], reg_out e))
        else (let Reg = map (GetBit reg) [0..<7];
                  w = valid mod 8;
                  (b, Reg') = fold (scr_step (dat ! i)) [0..<w] (ds ! i, Reg)
              in (count, ds[i := b], reg)))"

definition GenDataAndScramble :: "Scramble_t list list \<Rightarrow> globals \<Rightarrow> nat \<Rightarrow> byte list \<Rightarrow> nat
    \<Rightarrow> byte list" where
  "GenDataAndScramble chart g n databits valid =
     (let dat = data_array g n databits;
          (count, ds, reg) = fold (scr_body_opt chart dat valid) [0..<n]
            (0, replicate n 0, 45)
      in ds)"

section \<open>The scrambler on bit streams\<close>

fun scramble_bits :: "bool list \<Rightarrow> bool list \<Rightarrow> bool list" where
  "scramble_bits r [] = []"
| "scramble_bits r (x # xs) =
     (let y = (x \<noteq> (r ! 0 \<noteq> r ! 3)) in y # scramble_bits (tl r @ [y]) xs)"

fun scramble_state :: "bool list \<Rightarrow> bool list \<Rightarrow> bool list" where
  "scramble_state r [] = r"
| "scramble_state r (x # xs) = scramble_state (tl r @ [x \<noteq> (r ! 0 \<noteq> r ! 3)]) xs"

fun descramble_bits :: "bool list \<Rightarrow> bool list \<Rightarrow> bool list" where
  "descramble_bits r [] = []"
| "descramble_bits r (y # ys) = (y \<noteq> (r ! 0 \<noteq> r ! 3)) # descramble_bits (tl r @ [y]) ys"

definition scr_seed :: "bool list" where
  "scr_seed = [True, False, True, True, False, True, False]"

lemma length_scramble_bits [simp]: "length (scramble_bits r xs) = length xs"
  by (induction r xs rule: scramble_bits.induct) (auto simp: Let_def)

lemma length_scramble_state [simp]: "length r = 7 \<Longrightarrow> length (scramble_state r xs) = 7"
  by (induction r xs rule: scramble_state.induct) auto

lemma scramble_bits_append:
  "scramble_bits r (xs @ ys) = scramble_bits r xs @ scramble_bits (scramble_state r xs) ys"
  by (induction r xs rule: scramble_bits.induct) (auto simp: Let_def)

lemma scramble_state_append:
  "scramble_state r (xs @ ys) = scramble_state (scramble_state r xs) ys"
  by (induction r xs rule: scramble_state.induct) auto

lemma descramble_scramble [simp]: "descramble_bits r (scramble_bits r xs) = xs"
  by (induction r xs rule: scramble_bits.induct) (auto simp: Let_def)

text \<open>The register always holds the last seven output bits.\<close>

lemma scramble_state_recent:
  "length r = 7 \<Longrightarrow> scramble_state r xs = drop (length xs) (r @ scramble_bits r xs)"
proof (induction r xs rule: scramble_bits.induct)
  case (1 r)
  then show ?case by simp
next
  case (2 r x xs)
  define y where "y = (x \<noteq> (r ! 0 \<noteq> r ! 3))"
  from "2.prems" have "r = hd r # tl r" by (cases r) auto
  then have "drop (Suc (length xs)) (r @ y # scramble_bits (tl r @ [y]) xs)
      = drop (length xs) (tl r @ y # scramble_bits (tl r @ [y]) xs)"
    by (metis append_Cons drop_Suc_Cons)
  with 2 show ?case by (simp add: Let_def y_def [symmetric])
qed

lemma scramble_bits_nth:
  "length r = 7 \<Longrightarrow> n < length xs \<Longrightarrow>
    scramble_bits r xs ! n
      = (xs ! n \<noteq> ((r @ scramble_bits r xs) ! n \<noteq> (r @ scramble_bits r xs) ! (n + 3)))"
proof -
  assume r: "length r = 7" and n: "n < length xs"
  define s where "s = scramble_state r (take n xs)"
  have split: "xs = take n xs @ xs ! n # drop (Suc n) xs" using n by (simp add: id_take_nth_drop)
  let ?y = "xs ! n \<noteq> (s ! 0 \<noteq> s ! 3)"
  have out: "scramble_bits r xs
      = scramble_bits r (take n xs) @ ?y # scramble_bits (tl s @ [?y]) (drop (Suc n) xs)"
    by (subst split) (simp add: scramble_bits_append s_def Let_def)
  have s: "s = drop n (r @ scramble_bits r (take n xs))"
    unfolding s_def using scramble_state_recent [OF r, of "take n xs"] n by simp
  have pre: "(r @ scramble_bits r xs) ! (n + k) = s ! k" if "k < 7" for k
  proof -
    let ?p = "r @ scramble_bits r (take n xs)"
    have len: "length ?p = n + 7" using r n by simp
    have "(r @ scramble_bits r xs) ! (n + k) = (?p @ drop n (scramble_bits r xs)) ! (n + k)"
      using n by (simp add: out)
    also have "\<dots> = ?p ! (n + k)" using that len by (subst nth_append) simp
    also have "\<dots> = s ! k" by (subst s, subst nth_drop) (use len in auto)
    finally show ?thesis .
  qed
  from pre [of 0] pre [of 3] show ?thesis
    using out n by (simp add: nth_append)
qed

section \<open>The code computes the stream scrambler\<close>

lemma shift_reg_7: "length r = 7 \<Longrightarrow> (shift_reg r)[6 := x] = tl r @ [x]"
  by (erule list7_cases) (simp add: shift_reg_def upt_6)

text \<open>A register of the code holds 0 or 1 in each cell; \<open>reg_of\<close> is such a register.\<close>

definition reg_of :: "bool list \<Rightarrow> byte list" where
  "reg_of bs = map of_bool bs"

lemma length_reg_of [simp]: "length (reg_of bs) = length bs"
  by (simp add: reg_of_def)

lemma reg_of_seed: "[1, 0, 1, 1, 0, 1, 0] = reg_of scr_seed"
  by (simp add: reg_of_def scr_seed_def)

lemma scr_step_reg:
  fixes d ds :: byte
  assumes "length bs = 7" "i < 8" "\<not> bit ds i"
  defines "y \<equiv> (bit d i \<noteq> (bs ! 0 \<noteq> bs ! 3))"
  shows "scr_step d i (ds, reg_of bs) = (if y then SetN1 ds i else ds, reg_of (tl bs @ [y]))"
proof -
  have bs: "(reg_of bs) ! 0 = of_bool (bs ! 0)" "(reg_of bs) ! 3 = of_bool (bs ! 3)"
    using assms(1) by (simp_all add: reg_of_def)
  have odd: "((unat (GetBit d i) + unat (of_bool (bs ! 0) :: byte)
      + unat (of_bool (bs ! 3) :: byte)) mod 2 \<noteq> 0) = y"
    by (auto simp: GetBit_of_bool y_def)
  have sh: "(shift_reg (reg_of bs))[6 := x] = tl (reg_of bs) @ [x]" for x
    using assms(1) by (intro shift_reg_7) simp
  have last: "GetBit (if y then SetN1 ds i else ds) i = of_bool y"
    using assms(2,3) by (simp add: GetBit_of_bool bit_SetN1)
  have tl: "tl (reg_of bs) @ [of_bool y] = reg_of (tl bs @ [y])"
    by (simp add: reg_of_def map_tl)
  show ?thesis
    by (simp only: scr_step_def Let_def prod.case bs odd sh last tl)
qed

lemma scr_bits_byte:
  assumes "length bs = 7" "m \<le> 8"
  shows "\<exists>b. fold (scr_step d) [0..<m] (0, reg_of bs)
        = (b, reg_of (scramble_state bs (take m (byte_bits d))))
      \<and> byte_bits b = scramble_bits bs (take m (byte_bits d)) @ replicate (8 - m) False"
  using assms(2)
proof (induction m)
  case 0
  have "byte_bits 0 = replicate 8 False" by (rule nth_equalityI) auto
  then show ?case by simp
next
  case (Suc m)
  then obtain b where b: "fold (scr_step d) [0..<m] (0, reg_of bs)
        = (b, reg_of (scramble_state bs (take m (byte_bits d))))"
      "byte_bits b = scramble_bits bs (take m (byte_bits d)) @ replicate (8 - m) False"
    by auto
  define s where "s = scramble_state bs (take m (byte_bits d))"
  define y where "y = (bit d m \<noteq> (s ! 0 \<noteq> s ! 3))"
  have s7: "length s = 7" using assms(1) by (simp add: s_def)
  have m8: "m < 8" using Suc.prems by simp
  have unset: "\<not> bit b m"
  proof -
    have "bit b m = (scramble_bits bs (take m (byte_bits d)) @ replicate (8 - m) False) ! m"
      using b(2) m8 by (simp flip: nth_byte_bits)
    then show ?thesis using m8 by (simp add: nth_append)
  qed
  have take: "take (Suc m) (byte_bits d) = take m (byte_bits d) @ [bit d m]"
    using m8 by (simp add: take_Suc_conv_app_nth)
  let ?b' = "if y then SetN1 b m else b"
  have step: "fold (scr_step d) [0..<Suc m] (0, reg_of bs) = (?b', reg_of (tl s @ [y]))"
    using scr_step_reg [OF s7 m8 unset, of d] by (simp add: b(1) s_def y_def)
  have state: "scramble_state bs (take (Suc m) (byte_bits d)) = tl s @ [y]"
    by (simp add: take scramble_state_append s_def [symmetric] y_def)
  have outs: "scramble_bits bs (take (Suc m) (byte_bits d))
      = scramble_bits bs (take m (byte_bits d)) @ [y]"
    by (simp add: take scramble_bits_append s_def [symmetric] y_def Let_def)
  have bits: "byte_bits ?b' = (byte_bits b)[m := y]"
    by (rule nth_equalityI)
      (auto simp: nth_list_update bit_SetN1 m8 unset)
  have rep: "replicate (8 - m) False = False # replicate (8 - Suc m) False"
    using m8 by (simp flip: replicate_Suc add: Suc_diff_Suc)
  have "byte_bits ?b'
      = scramble_bits bs (take (Suc m) (byte_bits d)) @ replicate (8 - Suc m) False"
    using m8 by (simp add: bits b(2) rep outs list_update_append)
  with step state show ?case by auto
qed

section \<open>The table entries\<close>

lemma reg_index_roundtrip:
  assumes "length bs = 7"
  defines "r \<equiv> reg_of bs"
  defines "R \<equiv> 64 * r ! 6 + 32 * r ! 5 + 16 * r ! 4 + 8 * r ! 3 + 4 * r ! 2 + 2 * r ! 1 + r ! 0"
  shows "map (GetBit R) [0..<7] = r" and "unat R < 128"
proof -
  obtain a b c d e f g where bs: "bs = [a, b, c, d, e, f, g]"
    using assms(1) by (rule list7_cases)
  show "map (GetBit R) [0..<7] = r" "unat R < 128"
    unfolding R_def r_def bs
    by (cases a; cases b; cases c; cases d; cases e; cases f; cases g;
        simp add: reg_of_def GetBit_def upt_7)+
qed

lemma Creatnewchart_nth:
  assumes "length chart = 256" "\<And>k. k < 256 \<Longrightarrow> length (chart ! k) = 128"
    and "k < 256" "j < 128"
  shows "Creatnewchart chart ! k ! j = chart_entry (chart ! k ! j) (of_nat k) (of_nat j)"
  unfolding Creatnewchart_def
  using assms by (intro counter_table_nth) simp_all

definition chart :: "Scramble_t list list" where
  "chart = Creatnewchart ChartTable0"

lemma chart_lookup:
  fixes d R :: byte
  assumes "length bs = 7" "map (GetBit R) [0..<7] = reg_of bs" "unat R < 128"
  defines "e \<equiv> chart ! unat d ! unat R" and "s \<equiv> scramble_state bs (byte_bits d)"
  shows "byte_bits (data_out e) = scramble_bits bs (byte_bits d)"
    and "map (GetBit (reg_out e)) [0..<7] = reg_of s" and "unat (reg_out e) < 128"
proof -
  have e: "e = chart_entry \<lparr>data_out = 0, reg_out = 0\<rparr> d R"
    using assms(3) unat_byte [of d] Creatnewchart_nth [of ChartTable0 "unat d" "unat R"]
    by (simp add: e_def chart_def ChartTable0_def)
  obtain b where b: "fold (scr_step d) [0..<8] (0, reg_of bs) = (b, reg_of s)"
      "byte_bits b = scramble_bits bs (byte_bits d)"
    using scr_bits_byte [OF assms(1), of 8 d] by (auto simp: s_def)
  have s7: "length s = 7" using assms(1) by (simp add: s_def)
  note rt = reg_index_roundtrip [OF s7]
  show "byte_bits (data_out e) = scramble_bits bs (byte_bits d)"
    and "map (GetBit (reg_out e)) [0..<7] = reg_of s" and "unat (reg_out e) < 128"
    using b rt by (simp_all add: e chart_entry_def GenDataAndScramble_aux_def assms(2))
qed

section \<open>The interface of a byte scrambler\<close>

text \<open>
  Both builds scramble whole bytes with a register of their own representation and end
  with a partial byte. \<open>holds r bs\<close> says that the register \<open>r\<close> stands for the seven
  bits \<open>bs\<close>; the laws say that a byte step computes the stream scrambler on the byte's
  bits.
\<close>

locale byte_scrambler =
  fixes step :: "byte \<Rightarrow> 'r \<Rightarrow> byte \<times> 'r"
    and part :: "nat \<Rightarrow> byte \<Rightarrow> 'r \<Rightarrow> byte"
    and holds :: "'r \<Rightarrow> bool list \<Rightarrow> bool"
  assumes seven: "holds r bs \<Longrightarrow> length bs = 7"
    and step_bits: "holds r bs \<Longrightarrow> byte_bits (fst (step d r)) = scramble_bits bs (byte_bits d)"
    and step_holds: "holds r bs \<Longrightarrow> holds (snd (step d r)) (scramble_state bs (byte_bits d))"
    and part_bits: "holds r bs \<Longrightarrow> w < 8 \<Longrightarrow>
      byte_bits (part w d r) = scramble_bits bs (take w (byte_bits d)) @ replicate (8 - w) False"

fun byte_run :: "(byte \<Rightarrow> 'r \<Rightarrow> byte \<times> 'r) \<Rightarrow> 'r \<Rightarrow> byte list \<Rightarrow> byte list \<times> 'r" where
  "byte_run step r [] = ([], r)"
| "byte_run step r (d # ds) =
     (let (b, r') = step d r; (bs, r'') = byte_run step r' ds in (b # bs, r''))"

lemma length_byte_run [simp]: "length (fst (byte_run step r ds)) = length ds"
  by (induction ds arbitrary: r) (simp_all add: split_beta)

lemma byte_run_snoc:
  "byte_run step r (ds @ [d]) =
     (fst (byte_run step r ds) @ [fst (step d (snd (byte_run step r ds)))],
      snd (step d (snd (byte_run step r ds))))"
  by (induction ds arbitrary: r) (auto simp: Let_def split: prod.splits)

context byte_scrambler
begin

lemma run_bits:
  "holds r bs \<Longrightarrow> bytes_bits (fst (byte_run step r ds)) = scramble_bits bs (bytes_bits ds)
    \<and> holds (snd (byte_run step r ds)) (scramble_state bs (bytes_bits ds))"
proof (induction ds arbitrary: r bs)
  case Nil
  then show ?case by simp
next
  case (Cons d ds)
  from Cons.IH [OF step_holds [OF Cons.prems, of d]] step_bits [OF Cons.prems, of d]
  show ?case
    by (simp add: split_beta scramble_bits_append scramble_state_append)
qed

lemma frame_bits:
  assumes "holds r bs" "w < 8"
  shows "bytes_bits (fst (byte_run step r ds) @ [part w d (snd (byte_run step r ds))])
    = scramble_bits bs (bytes_bits ds @ take w (byte_bits d)) @ replicate (8 - w) False"
  using run_bits [OF assms(1), of ds] part_bits [of "snd (byte_run step r ds)" _ w d] assms(2)
  by (simp add: scramble_bits_append)

end

text \<open>The bitwise provider.\<close>

definition bitwise_step :: "byte \<Rightarrow> byte list \<Rightarrow> byte \<times> byte list" where
  "bitwise_step d r = fold (scr_step d) [0..<8] (0, r)"

definition bitwise_part :: "nat \<Rightarrow> byte \<Rightarrow> byte list \<Rightarrow> byte" where
  "bitwise_part w d r = fst (fold (scr_step d) [0..<w] (0, r))"

definition reg_holds :: "byte list \<Rightarrow> bool list \<Rightarrow> bool" where
  "reg_holds r bs \<longleftrightarrow> length bs = 7 \<and> r = reg_of bs"

interpretation bitwise: byte_scrambler bitwise_step bitwise_part reg_holds
proof unfold_locales
  fix r bs d and w :: nat
  assume h: "reg_holds r bs"
  then show "length bs = 7" by (simp add: reg_holds_def)
  from h show "byte_bits (fst (bitwise_step d r)) = scramble_bits bs (byte_bits d)"
    and "reg_holds (snd (bitwise_step d r)) (scramble_state bs (byte_bits d))"
    using scr_bits_byte [of bs 8 d] by (auto simp: reg_holds_def bitwise_step_def)
  assume "w < 8"
  with h show "byte_bits (bitwise_part w d r)
      = scramble_bits bs (take w (byte_bits d)) @ replicate (8 - w) False"
    using scr_bits_byte [of bs w d] by (auto simp: reg_holds_def bitwise_part_def)
qed

text \<open>The table-driven provider.\<close>

definition table_step :: "byte \<Rightarrow> byte \<Rightarrow> byte \<times> byte" where
  "table_step d R = (let e = chart ! unat d ! unat R in (data_out e, reg_out e))"

definition table_part :: "nat \<Rightarrow> byte \<Rightarrow> byte \<Rightarrow> byte" where
  "table_part w d R = fst (fold (scr_step d) [0..<w] (0, map (GetBit R) [0..<7]))"

definition index_holds :: "byte \<Rightarrow> bool list \<Rightarrow> bool" where
  "index_holds R bs \<longleftrightarrow> length bs = 7 \<and> map (GetBit R) [0..<7] = reg_of bs \<and> unat R < 128"

interpretation table: byte_scrambler table_step table_part index_holds
proof unfold_locales
  fix R bs d and w :: nat
  assume h: "index_holds R bs"
  then show "length bs = 7" by (simp add: index_holds_def)
  from h show "byte_bits (fst (table_step d R)) = scramble_bits bs (byte_bits d)"
    and "index_holds (snd (table_step d R)) (scramble_state bs (byte_bits d))"
    using chart_lookup [of bs R d] by (auto simp: index_holds_def table_step_def Let_def)
  assume "w < 8"
  with h show "byte_bits (table_part w d R)
      = scramble_bits bs (take w (byte_bits d)) @ replicate (8 - w) False"
    using scr_bits_byte [of bs w d] by (auto simp: index_holds_def table_part_def)
qed

section \<open>The two routines as runs\<close>

lemma scr_byte_steps:
  assumes "c \<le> valid"
  shows "fold (\<lambda>j (count, st). let count = count + 1
      in if count \<le> valid then (count, scr_step d j st) else (count, st)) [0..<m] (c, st)
    = (c + m, fold (scr_step d) [0..<min m (valid - c)] st)"
proof (induction m)
  case 0
  then show ?case by simp
next
  case (Suc m)
  show ?case
  proof (cases "m < valid - c")
    case True
    then have "min (Suc m) (valid - c) = Suc m" "min m (valid - c) = m" "Suc (c + m) \<le> valid"
      by auto
    with Suc show ?thesis by simp
  next
    case False
    then have "min (Suc m) (valid - c) = valid - c" "min m (valid - c) = valid - c"
      "\<not> Suc (c + m) \<le> valid" using assms by auto
    with Suc show ?thesis by simp
  qed
qed

lemma scr_byte_eq: "c \<le> valid \<Longrightarrow>
    scr_byte valid d (c, st) = (c + 8, fold (scr_step d) [0..<min 8 (valid - c)] st)"
  unfolding scr_byte_def by (rule scr_byte_steps)

lemma length_data_array [simp]: "length (data_array g n databits) = n"
  by (simp add: data_array_def)

text \<open>A loop that replaces byte \<open>i\<close> of a zeroed array by a byte step, for \<open>i < q\<close>.\<close>

lemma byte_loop:
  assumes "\<And>i ds r. i < q \<Longrightarrow> ds ! i = 0 \<Longrightarrow>
      body i (8 * i, ds, r) = (8 * i + 8, ds[i := fst (step (dat ! i) r)], snd (step (dat ! i) r))"
    and "q \<le> n" "length dat = n"
  shows "fold body [0..<q] (0, replicate n 0, r)
    = (8 * q, fst (byte_run step r (take q dat)) @ replicate (n - q) 0,
       snd (byte_run step r (take q dat)))"
  using assms(1,2)
proof (induction q)
  case 0
  then show ?case by simp
next
  case (Suc q)
  let ?run = "byte_run step r (take q dat)"
  have IH: "fold body [0..<q] (0, replicate n 0, r)
      = (8 * q, fst ?run @ replicate (n - q) 0, snd ?run)"
    using Suc by simp
  have len: "length (fst ?run) = q" using Suc.prems assms(3) by simp
  have zero: "(fst ?run @ replicate (n - q) 0) ! q = (0 :: byte)"
    using len Suc.prems(2) by (simp add: nth_append)
  have rep: "replicate (n - q) (0 :: byte) = 0 # replicate (n - Suc q) 0"
    using Suc.prems(2) by (simp flip: replicate_Suc add: Suc_diff_Suc)
  have "take (Suc q) dat = take q dat @ [dat ! q]"
    using Suc.prems(2) assms(3) by (simp add: take_Suc_conv_app_nth)
  then show ?case
    using Suc.prems(1) [of q, OF _ zero] len
    by (simp add: IH byte_run_snoc rep list_update_append)
qed

lemma fold_upt_last: "fold f [0..<Suc q] s = f q (fold f [0..<q] s)"
  by simp

lemma ref_run:
  fixes g :: globals and databits :: "byte list"
  assumes "valid = 8 * q + w" "w < 8"
  defines "dat \<equiv> data_array g (Suc q) databits"
  shows "GenDataAndScramble_ref g (Suc q) databits valid
    = (let run = byte_run bitwise_step (reg_of scr_seed) (take q dat)
       in fst run @ [bitwise_part w (dat ! q) (snd run)])"
proof -
  have body: "scr_body_ref dat valid i (8 * i, ds, r)
      = (8 * i + 8, ds[i := fst (bitwise_step (dat ! i) r)], snd (bitwise_step (dat ! i) r))"
    if "i < q" "ds ! i = 0" for i ds r
    using that assms(1) by (simp add: scr_body_ref_def scr_byte_eq bitwise_step_def split_beta)
  have last: "scr_body_ref dat valid q (8 * q, xs @ [0], r)
      = (8 * q + 8, xs @ [bitwise_part w (dat ! q) r], snd (fold (scr_step (dat ! q)) [0..<w] (0, r)))"
    if "length xs = q" for xs r
    using that assms(1,2)
    by (simp add: scr_body_ref_def scr_byte_eq split_beta bitwise_part_def nth_append
        list_update_append)
  have loop: "fold (scr_body_ref dat valid) [0..<q] (0, replicate (Suc q) 0, reg_of scr_seed)
      = (8 * q, fst (byte_run bitwise_step (reg_of scr_seed) (take q dat)) @ [0],
         snd (byte_run bitwise_step (reg_of scr_seed) (take q dat)))"
    using byte_loop [of q _ bitwise_step dat, OF body, of "Suc q" "reg_of scr_seed"]
    by (simp add: dat_def)
  have "length (fst (byte_run bitwise_step (reg_of scr_seed) (take q dat))) = q"
    by (simp add: dat_def)
  from last [OF this] show ?thesis
    unfolding GenDataAndScramble_ref_def Let_def reg_of_seed dat_def [symmetric] fold_upt_last
      loop by simp
qed

lemma opt_run:
  fixes g :: globals and databits :: "byte list"
  assumes "valid = 8 * q + w" "w < 8"
  defines "dat \<equiv> data_array g (Suc q) databits"
  shows "GenDataAndScramble chart g (Suc q) databits valid
    = (let run = byte_run table_step 45 (take q dat)
       in fst run @ [table_part w (dat ! q) (snd run)])"
proof -
  have body: "scr_body_opt chart dat valid i (8 * i, ds, r)
      = (8 * i + 8, ds[i := fst (table_step (dat ! i) r)], snd (table_step (dat ! i) r))"
    if "i < q" "ds ! i = 0" for i ds r
    using that assms(1) by (simp add: scr_body_opt_def table_step_def Let_def)
  have last: "scr_body_opt chart dat valid q (8 * q, xs @ [0], r)
      = (8 * q + 8, xs @ [table_part w (dat ! q) r], r)"
    if "length xs = q" for xs r
  proof -
    have "valid mod 8 = w" "\<not> 8 * q + 8 \<le> valid" using assms(1,2) by simp_all
    with that show ?thesis
      by (simp add: scr_body_opt_def Let_def split_beta table_part_def nth_append
          list_update_append)
  qed
  have loop: "fold (scr_body_opt chart dat valid) [0..<q] (0, replicate (Suc q) 0, 45)
      = (8 * q, fst (byte_run table_step 45 (take q dat)) @ [0],
         snd (byte_run table_step 45 (take q dat)))"
    using byte_loop [of q _ table_step dat, OF body, of "Suc q" "45"]
    by (simp add: dat_def)
  have "length (fst (byte_run table_step 45 (take q dat))) = q"
    by (simp add: dat_def)
  from last [OF this] show ?thesis
    unfolding GenDataAndScramble_def Let_def dat_def [symmetric] fold_upt_last
      loop by simp
qed

section \<open>Properties\<close>

lemma index_holds_seed: "index_holds 45 scr_seed"
  by (simp add: index_holds_def scr_seed_def reg_of_def GetBit_def upt_7)

lemma reg_holds_seed: "reg_holds (reg_of scr_seed) scr_seed"
  by (simp add: reg_holds_def scr_seed_def)

lemma frame_split:
  assumes "n = Suc (valid div 8)"
  obtains q w where "valid = 8 * q + w" "w < 8" "n = Suc q"
  using assms by (metis div_mult_mod_eq mod_less_divisor mult.commute zero_less_numeral)

lemma take_valid_bits:
  assumes "length dat = Suc q" "w < 8"
  shows "take (8 * q + w) (bytes_bits dat) = bytes_bits (take q dat) @ take w (byte_bits (dat ! q))"
proof -
  have "dat = take q dat @ [dat ! q]"
    using assms(1) by (metis lessI take_Suc_conv_app_nth take_all_iff order_refl)
  then have "bytes_bits dat = bytes_bits (take q dat) @ byte_bits (dat ! q)"
    by (metis bytes_bits_Cons bytes_bits_Nil bytes_bits_append append_Nil2)
  then show ?thesis using assms by simp
qed

text \<open>What both builds compute, stated once through the interface.\<close>

lemma ref_bits:
  assumes "n = Suc (valid div 8)"
  shows "bytes_bits (GenDataAndScramble_ref g n databits valid)
    = scramble_bits scr_seed (take valid (bytes_bits (data_array g n databits)))
      @ replicate (8 * n - valid) False"
proof -
  from assms obtain q w where qw: "valid = 8 * q + w" "w < 8" "n = Suc q" by (rule frame_split)
  show ?thesis
    unfolding qw(3) ref_run [OF qw(1,2)] Let_def bitwise.frame_bits [OF reg_holds_seed qw(2)]
    using qw(2) by (simp only: qw(1) take_valid_bits length_data_array) simp
qed

lemma opt_bits:
  assumes "n = Suc (valid div 8)"
  shows "bytes_bits (GenDataAndScramble chart g n databits valid)
    = scramble_bits scr_seed (take valid (bytes_bits (data_array g n databits)))
      @ replicate (8 * n - valid) False"
proof -
  from assms obtain q w where qw: "valid = 8 * q + w" "w < 8" "n = Suc q" by (rule frame_split)
  show ?thesis
    unfolding qw(3) opt_run [OF qw(1,2)] Let_def table.frame_bits [OF index_holds_seed qw(2)]
    using qw(2) by (simp only: qw(1) take_valid_bits length_data_array) simp
qed

lemma length_ref: "n = Suc (valid div 8) \<Longrightarrow> length (GenDataAndScramble_ref g n databits valid) = n"
  by (erule frame_split) (simp add: ref_run Let_def)

lemma length_opt: "n = Suc (valid div 8) \<Longrightarrow> length (GenDataAndScramble chart g n databits valid) = n"
  by (erule frame_split) (simp add: opt_run Let_def)

lemma chart_ref_eq:
  assumes "MCS g < 10"
  shows "GenDataAndScramble chart g (scr_len g) databits (scr_valid g)
    = GenDataAndScramble_ref g (scr_len g) databits (scr_valid g)"
  using opt_bits [OF scr_len_eq [OF assms]] ref_bits [OF scr_len_eq [OF assms]]
    length_opt [OF scr_len_eq [OF assms]] length_ref [OF scr_len_eq [OF assms]]
  by (metis bytes_bits_inj)

text \<open>C7: the table-driven scrambler (\<open>OPTIMIZATION\<close>) returns the bytes of the bit-by-bit
  scrambler, for every rate, payload length and payload.\<close>

theorem scramble_table_equiv:
  assumes "MCS g < 10"
  shows "GenDataAndScramble (Creatnewchart ChartTable0) g (scr_len g) databits (scr_valid g)
    = GenDataAndScramble_ref g (scr_len g) databits (scr_valid g)"
  unfolding chart_def [symmetric] by (rule chart_ref_eq [OF assms])

theorem scramble_table_equiv_witness:
  "GenDataAndScramble (Creatnewchart ChartTable0) globals0 936 (replicate 512 7) 7482
    = GenDataAndScramble_ref globals0 936 (replicate 512 7) 7482"
proof -
  have m: "MCS globals0 < 10" by (simp add: globals0_def)
  have "scr_len globals0 = 936" "scr_valid globals0 = 7482"
    by (simp_all add: scr_len_def scr_valid_def GenInit_def Let_def globals0_def
        mcs_table_for_20M_def mcs_tabs param_simps ceil_div_def)
  with scramble_table_equiv [OF m, of "replicate 512 7"] show ?thesis by simp
qed

text \<open>C12: the scrambler as a shift-register code. Bit \<open>n\<close> of the output is bit \<open>n\<close> of
  the service field and payload, exclusive-or the output bits seven and four places before
  (polynomial \<open>x^7 + x^4 + 1\<close> over the scrambled stream), and every bit past the valid
  ones is zero.\<close>

theorem scramble_recurrence:
  fixes databits :: "byte list"
  assumes "MCS g < 10"
  defines "out \<equiv> bytes_bits (GenDataAndScramble (Creatnewchart ChartTable0) g (scr_len g)
      databits (scr_valid g))"
    and "dat \<equiv> bytes_bits (data_array g (scr_len g) databits)"
  shows "length out = 8 * scr_len g
    \<and> (\<forall>n. 7 \<le> n \<and> n < scr_valid g \<longrightarrow> out ! n = (dat ! n \<noteq> (out ! (n - 7) \<noteq> out ! (n - 4))))
    \<and> (\<forall>n. scr_valid g \<le> n \<and> n < 8 * scr_len g \<longrightarrow> \<not> out ! n)"
proof (intro conjI allI impI)
  note len = scr_len_eq [OF assms(1)]
  let ?ys = "scramble_bits scr_seed (take (scr_valid g) dat)"
  have out: "out = ?ys @ replicate (8 * scr_len g - scr_valid g) False"
    unfolding out_def dat_def chart_def [symmetric] by (rule opt_bits [OF len])
  have valid: "scr_valid g \<le> 8 * scr_len g" using len by simp
  then have ys: "length ?ys = scr_valid g" by (simp add: dat_def)
  show "length out = 8 * scr_len g" unfolding out length_append ys using valid by simp
  fix n
  { assume n: "7 \<le> n \<and> n < scr_valid g"
    have seed: "length scr_seed = 7" by (simp add: scr_seed_def)
    have "n < length (take (scr_valid g) dat)" using n valid by (simp add: dat_def)
    from scramble_bits_nth [OF seed this]
    have "?ys ! n = (dat ! n \<noteq> ((scr_seed @ ?ys) ! n \<noteq> (scr_seed @ ?ys) ! (n + 3)))"
      using n by simp
    moreover have "n + 3 - 7 = n - 4" "n - 7 < scr_valid g" "n - 4 < scr_valid g"
      using n by linarith+
    ultimately show "out ! n = (dat ! n \<noteq> (out ! (n - 7) \<noteq> out ! (n - 4)))"
      using n ys by (simp add: out nth_append seed)
  next
    assume n: "scr_valid g \<le> n \<and> n < 8 * scr_len g"
    then have "n - scr_valid g < 8 * scr_len g - scr_valid g" by linarith
    with n show "\<not> out ! n" using ys by (simp add: out nth_append) }
qed

theorem scramble_recurrence_witness:
  "length (bytes_bits (GenDataAndScramble (Creatnewchart ChartTable0) globals0 (scr_len globals0)
      (replicate 512 7) (scr_valid globals0))) = 8 * scr_len globals0"
proof -
  have "MCS globals0 < 10" by (simp add: globals0_def)
  from scramble_recurrence [OF this] show ?thesis by blast
qed

lemma data_array_split:
  assumes "APEP_LEN g \<le> length databits" "APEP_LEN g + 2 \<le> n"
  shows "data_array g n databits
    = [0, 0] @ take (APEP_LEN g) databits @ replicate (n - 2 - APEP_LEN g) 0"
proof (rule nth_equalityI)
  show "length (data_array g n databits)
      = length ([0, 0] @ take (APEP_LEN g) databits @ replicate (n - 2 - APEP_LEN g) 0)"
    using assms by simp
  fix i
  assume "i < length (data_array g n databits)"
  then show "data_array g n databits ! i
      = ([0, 0] @ take (APEP_LEN g) databits @ replicate (n - 2 - APEP_LEN g) 0) ! i"
    using assms by (auto simp: data_array_def nth_append nth_Cons' numeral_2_eq_2)
qed

text \<open>What is left of the payload after descrambling.\<close>

lemma descrambled_payload:
  fixes databits :: "byte list"
  assumes "MCS g < 10" and "APEP_LEN g \<le> length databits"
  shows "take (8 * APEP_LEN g) (drop 16 (descramble_bits scr_seed
      (take (scr_valid g) (bytes_bits (GenDataAndScramble_ref g (scr_len g) databits (scr_valid g))))))
    = bytes_bits (take (APEP_LEN g) databits)"
proof -
  note len = scr_len_eq [OF assms(1)]
  let ?dat = "data_array g (scr_len g) databits"
  have "scr_valid g \<le> 8 * scr_len g" using len by simp
  then have rx: "descramble_bits scr_seed (take (scr_valid g)
      (bytes_bits (GenDataAndScramble_ref g (scr_len g) databits (scr_valid g)))) = take (scr_valid g) (bytes_bits ?dat)"
    by (simp add: ref_bits [OF len])
  have ge: "8 * (APEP_LEN g + 2) \<le> scr_valid g" using assms(1) by (rule scr_valid_ge)
  have "APEP_LEN g + 2 \<le> scr_len g" using ge len by simp
  from data_array_split [OF assms(2) this]
  have "drop 16 (bytes_bits ?dat) = bytes_bits (take (APEP_LEN g) databits)
      @ bytes_bits (replicate (scr_len g - 2 - APEP_LEN g) 0)"
    by simp
  moreover have "take (8 * APEP_LEN g) (drop 16 (take (scr_valid g) xs))
      = take (8 * APEP_LEN g) (drop 16 xs)" for xs :: "bool list"
    using ge by (simp add: drop_take take_take min_def)
  ultimately show ?thesis using assms(2) by (simp add: rx)
qed

text \<open>The payload survives. A receiver that runs the descrambler from the same seed over
  the valid bits and drops the sixteen service bits recovers the payload bytes.\<close>

theorem scramble_roundtrip:
  fixes databits :: "byte list"
  assumes "MCS g < 10" and "APEP_LEN g \<le> length databits"
  defines "out \<equiv> GenDataAndScramble (Creatnewchart ChartTable0) g (scr_len g) databits
      (scr_valid g)"
  shows "take (8 * APEP_LEN g)
      (drop 16 (descramble_bits scr_seed (take (scr_valid g) (bytes_bits out))))
    = bytes_bits (take (APEP_LEN g) databits)"
  unfolding out_def chart_def [symmetric] chart_ref_eq [OF assms(1)] by (rule descrambled_payload [OF assms(1,2)])

theorem scramble_roundtrip_witness:
  "take 4096 (drop 16 (descramble_bits scr_seed (take (scr_valid globals0)
      (bytes_bits (GenDataAndScramble (Creatnewchart ChartTable0) globals0 (scr_len globals0)
        (replicate 512 7) (scr_valid globals0))))))
    = bytes_bits (replicate 512 7)"
proof -
  have m: "MCS globals0 < 10" and a: "APEP_LEN globals0 = 512" by (simp_all add: globals0_def)
  then have "APEP_LEN globals0 \<le> length (replicate 512 7)" by simp
  from scramble_roundtrip [OF m this] show ?thesis by (simp add: a)
qed

end
