(* ===== verification/Bcc.thy ===== *)
theory Bcc
  imports Params
begin

text \<open>
  \<^verbatim>\<open>BCCencode/ccoding_byte.c\<close>: the convolutional code of rate 1/2 and constraint
  length 7, its punctured modes, the encoder that shifts bit by bit
  (\<open>ccodedot11_encode\<close>), the table of whole bytes (\<open>init_BCCencode_table\<close>) and the
  encoder that runs on it (\<open>check_BCCcode\<close>). The abstract specification is the code on bit
  streams, \<open>conv_out\<close>, followed by \<open>puncture\<close>.
\<close>

section \<open>The code table\<close>

definition gdot11 :: "int32 list" where
  "gdot11 = [91, 121]"

definition gdot11_rev :: "int32 list" where
  "gdot11_rev = [109, 79]"

text \<open>The octal literals of the source: \<open>0133\<close>, \<open>0171\<close>, \<open>0155\<close>, \<open>0117\<close>.\<close>

lemma gdot11_octal: "[91, 121, 109, 79]
    = [1 * 64 + 3 * 8 + 3, 1 * 64 + 7 * 8 + 1, 1 * 64 + 5 * 8 + 5, (1 * 64 + 1 * 8 + 7 :: nat)]"
  by simp

definition code_sum :: "int32 \<Rightarrow> int32 \<Rightarrow> int32" where
  "code_sum g i = fold (\<lambda>k sum. if (i AND g) AND push_bit k 1 \<noteq> 0 then sum + 1 else sum) [0..<7] 0"

definition code_entry :: "int32 list \<Rightarrow> int32 \<Rightarrow> byte" where
  "code_entry gs i = fold (\<lambda>j t. t OR ucast (push_bit j (code_sum (gs ! j) i AND 1))) [0..<2] 0"

definition ccodedot11_init :: "byte list \<Rightarrow> byte list" where
  "ccodedot11_init tab = fold (\<lambda>i tab. tab[i := code_entry gdot11 (of_nat i)]) [0..<128] tab"

definition ccodedot11_init_inv :: "byte list \<Rightarrow> byte list" where
  "ccodedot11_init_inv tab = fold (\<lambda>i tab. tab[i := code_entry gdot11_rev (of_nat i)]) [0..<128] tab"

section \<open>The bit-by-bit encoder\<close>

text \<open>
  The shift register. It is an \<open>unsigned int\<close> in \<open>ccodedot11_encode\<close> and an
  \<open>unsigned char\<close> in \<open>init_BCCencode_table\<close>; the step is the same at both widths.
\<close>

definition enc_shift :: "'b::len word \<Rightarrow> nat \<Rightarrow> 'a::len word \<Rightarrow> 'a word" where
  "enc_shift c shiftbit state =
     (let state = drop_bit 1 state
      in if c AND push_bit shiftbit 1 \<noteq> 0 then state OR 64 else state)"

text \<open>One turn of the inner loop, in each case of the \<open>switch\<close>. The third component
  is what has been written through \<open>outPtr\<close> so far.\<close>

definition enc_bit :: "byte list \<Rightarrow> byte \<Rightarrow> byte \<Rightarrow> nat \<Rightarrow> int32 \<times> nat \<times> byte list
    \<Rightarrow> int32 \<times> nat \<times> byte list" where
  "enc_bit tab puncturing c shiftbit = (\<lambda>(state, bit_index, outs).
     let state' = enc_shift c shiftbit state;
         w = tab ! unat state';
         A = w AND 1;
         B = drop_bit 1 w AND 1
     in if puncturing = 0 then (state', bit_index, outs @ [A, B])
        else if puncturing = 1 then
          (state', if bit_index = 2 then 0 else bit_index + 1,
           outs @ (if bit_index < 2 then [A] else []) @ (if bit_index \<noteq> 1 then [B] else []))
        else if puncturing = 2 then
          (state', if bit_index = 0 then 1 else 0,
           outs @ [A] @ (if bit_index = 0 then [B] else []))
        else if puncturing = 5 then
          (state', if bit_index = 4 then 0 else bit_index + 1,
           outs @ (if bit_index < 2 \<or> bit_index = 3 then [A] else [])
             @ (if bit_index \<noteq> 1 \<and> bit_index \<noteq> 3 then [B] else []))
        else (state, bit_index, outs))"

text \<open>The outer loop. A read past the end of the input is \<open>None\<close>.\<close>

fun enc_loop :: "(byte \<Rightarrow> 's \<Rightarrow> 's) \<Rightarrow> nat \<Rightarrow> byte list \<Rightarrow> 's \<Rightarrow> 's option" where
  "enc_loop body 0 inp s = Some s"
| "enc_loop body (Suc n) [] s = None"
| "enc_loop body (Suc n) (c # inp) s = enc_loop body n inp (body c s)"

definition enc_byte :: "byte list \<Rightarrow> byte \<Rightarrow> byte \<Rightarrow> int32 \<times> nat \<times> byte list
    \<Rightarrow> int32 \<times> nat \<times> byte list" where
  "enc_byte tab puncturing c = fold (enc_bit tab puncturing c) [0..<8]"

definition ccodedot11_encode :: "byte list \<Rightarrow> nat \<Rightarrow> byte list \<Rightarrow> byte \<Rightarrow> byte list option" where
  "ccodedot11_encode tab numbytes inp puncturing =
     map_option (snd \<circ> snd) (enc_loop (enc_byte tab puncturing) numbytes inp (0, 0, []))"

section \<open>The table of bytes and the encoder on it\<close>

record BCCStruct_t =
  outbits :: "byte list"
  endstate :: byte

definition BCCTable0 :: "BCCStruct_t list list" where
  "BCCTable0 = replicate 256 (replicate 128 \<lparr>outbits = replicate 16 0, endstate = 0\<rparr>)"

text \<open>Filling one entry: the 16 output bits through \<open>dataptr\<close>, then the end state.\<close>

definition bcc_fill_bit :: "byte list \<Rightarrow> int32 \<Rightarrow> nat \<Rightarrow> byte \<times> byte list \<Rightarrow> byte \<times> byte list" where
  "bcc_fill_bit tab c shiftbit = (\<lambda>(e, buf).
     let e' = enc_shift c shiftbit e;
         w = tab ! unat e'
     in (e', (buf[2 * shiftbit := w AND 1])[2 * shiftbit + 1 := drop_bit 1 w AND 1]))"

definition bcc_fill :: "byte list \<Rightarrow> BCCStruct_t \<Rightarrow> int32 \<Rightarrow> byte \<Rightarrow> BCCStruct_t" where
  "bcc_fill tab old c startstate =
     (let (e, buf) = fold (bcc_fill_bit tab c) [0..<8] (startstate, outbits old)
      in \<lparr>outbits = buf, endstate = e\<rparr>)"

definition init_BCCencode_table :: "byte list \<Rightarrow> BCCStruct_t list list
    \<Rightarrow> byte list \<times> BCCStruct_t list list" where
  "init_BCCencode_table tab0 bcc =
     (let tab = ccodedot11_init tab0 in
      (tab,
       snd (fold (\<lambda>i (c, bcc).
         (c + 1,
          fold (\<lambda>st bcc. upd2 (unat c) st (bcc_fill tab (bcc ! unat c ! st) c (of_nat st)) bcc)
            [0..<128] bcc))
         [0..<256] (0 :: int32, bcc))))"

text \<open>
  One turn of the \<open>j\<close> loop of \<open>check_BCCcode\<close>. In mode 0 it handles one bit per turn, in
  the others \<open>j\<close> is advanced in the middle, so a turn at \<open>j = 2 * t\<close> handles the pair
  \<open>2 * t\<close>, \<open>2 * t + 1\<close>.
\<close>

definition chk_pair :: "byte \<Rightarrow> byte list \<Rightarrow> nat \<Rightarrow> nat \<times> byte list \<Rightarrow> nat \<times> byte list" where
  "chk_pair puncturing ob t = (\<lambda>(bit_index, outs).
     let j = 2 * t; j' = j + 1
     in if puncturing = 1 then
          (if bit_index = 2 then 0 else bit_index + 1,
           outs @ (if bit_index < 2 then [ob ! j] else []) @ (if bit_index \<noteq> 1 then [ob ! j'] else []))
        else if puncturing = 2 then
          (if bit_index = 0 then 1 else 0,
           outs @ [ob ! j] @ (if bit_index = 0 then [ob ! j'] else []))
        else
          (if bit_index = 4 then 0 else bit_index + 1,
           outs @ (if bit_index < 2 \<or> bit_index = 3 then [ob ! j] else [])
             @ (if bit_index \<noteq> 1 \<and> bit_index \<noteq> 3 then [ob ! j'] else [])))"

definition chk_byte :: "BCCStruct_t list list \<Rightarrow> byte \<Rightarrow> byte \<Rightarrow> byte \<times> nat \<times> byte list
    \<Rightarrow> byte \<times> nat \<times> byte list" where
  "chk_byte bcc puncturing c = (\<lambda>(initstate, bit_index, outs).
     let e = bcc ! unat c ! unat initstate
     in if puncturing = 0 then
          (endstate e, bit_index, fold (\<lambda>j outs. outs @ [outbits e ! j]) [0..<16] outs)
        else let (bit_index', outs') = fold (chk_pair puncturing (outbits e)) [0..<8] (bit_index, outs)
          in (endstate e, bit_index', outs'))"

text \<open>In the default case of the \<open>switch\<close> nothing is read.\<close>

definition check_BCCcode :: "BCCStruct_t list list \<Rightarrow> nat \<Rightarrow> byte list \<Rightarrow> byte \<Rightarrow> byte
    \<Rightarrow> byte list option" where
  "check_BCCcode bcc numbytes inp initstate puncturing =
     (if puncturing \<in> {0, 1, 2, 5}
      then map_option (snd \<circ> snd) (enc_loop (chk_byte bcc puncturing) numbytes inp (initstate, 0, []))
      else Some [])"

section \<open>The code on bit streams\<close>

text \<open>The window holds the last seven bits, the oldest first.\<close>

definition parA :: "bool list \<Rightarrow> bool" where
  "parA w = (w ! 6 \<noteq> (w ! 4 \<noteq> (w ! 3 \<noteq> (w ! 1 \<noteq> w ! 0))))"

definition parB :: "bool list \<Rightarrow> bool" where
  "parB w = (w ! 6 \<noteq> (w ! 5 \<noteq> (w ! 4 \<noteq> (w ! 3 \<noteq> w ! 0))))"

fun conv_out :: "bool list \<Rightarrow> bool list \<Rightarrow> bool list" where
  "conv_out w [] = []"
| "conv_out w (x # xs) = (let w' = tl w @ [x] in parA w' # parB w' # conv_out w' xs)"

definition conv_state :: "bool list \<Rightarrow> bool list \<Rightarrow> bool list" where
  "conv_state w xs = fold (\<lambda>x w. tl w @ [x]) xs w"

definition keeps :: "byte \<Rightarrow> nat \<Rightarrow> bool \<times> bool" where
  "keeps p k = (if p = 0 then (True, True) else if p = 1 then (k < 2, k \<noteq> 1)
     else if p = 2 then (True, k = 0) else (k < 2 \<or> k = 3, k \<noteq> 1 \<and> k \<noteq> 3))"

definition punc_period :: "byte \<Rightarrow> nat" where
  "punc_period p = (if p = 0 then 1 else if p = 1 then 3 else if p = 2 then 2 else 5)"

fun puncture :: "byte \<Rightarrow> nat \<Rightarrow> 'a list \<Rightarrow> 'a list" where
  "puncture p k (a # b # xs) =
     (if fst (keeps p k) then [a] else []) @ (if snd (keeps p k) then [b] else [])
       @ puncture p (Suc k mod punc_period p) xs"
| "puncture p k _ = []"

definition modes :: "byte set" where
  "modes = {0, 1, 2, 5}"

section \<open>The code table holds the generator polynomials\<close>

lemma odd_code_sum:
  "odd (code_sum g i)
    \<longleftrightarrow> odd (card {k. k < 7 \<and> bit i k \<and> bit g k})"
proof -
  have step: "odd (fold (\<lambda>k sum. if (i AND g) AND push_bit k 1 \<noteq> 0 then sum + 1 else sum) [0..<n]
      (0 :: int32)) \<longleftrightarrow> odd (card {k. k < n \<and> bit i k \<and> bit g k})" if "n \<le> 7" for n
    using that
  proof (induction n)
    case 0
    then show ?case by simp
  next
    case (Suc n)
    have "{k. k < Suc n \<and> bit i k \<and> bit g k}
        = {k. k < n \<and> bit i k \<and> bit g k} \<union> (if bit i n \<and> bit g n then {n} else {})"
      by (auto simp: less_Suc_eq)
    moreover have "finite {k. k < n \<and> bit i k \<and> bit g k}" by simp
    moreover have "(i AND g) AND push_bit n 1 \<noteq> 0 \<longleftrightarrow> bit i n \<and> bit g n"
      using Suc.prems by (subst and_bit_nonzero) (simp_all add: bit_and_iff)
    ultimately show ?case
      using Suc by simp
  qed
  show ?thesis unfolding code_sum_def by (rule step) simp
qed

lemma code_entry_outputs:
  assumes "length gs = 2"
  shows "code_entry gs i AND 1 = of_bool (odd (code_sum (gs ! 0) i))"
    and "drop_bit 1 (code_entry gs i) AND 1 = of_bool (odd (code_sum (gs ! 1) i))"
proof -
  have entry: "code_entry gs i = ucast (code_sum (gs ! 0) i AND 1)
      OR ucast (push_bit 1 (code_sum (gs ! 1) i AND 1))"
    by (simp add: code_entry_def upt_rec)
  show "code_entry gs i AND 1 = of_bool (odd (code_sum (gs ! 0) i))"
    unfolding entry by (rule bit_word_eqI) (auto simp: bit_simps bit_0)
  show "drop_bit 1 (code_entry gs i) AND 1 = of_bool (odd (code_sum (gs ! 1) i))"
    unfolding entry by (rule bit_word_eqI) (auto simp: bit_simps bit_0 bit_double_iff mult.commute [of _ "2 :: int32"])
qed

text \<open>A register of the code at either width holds a window.\<close>

definition holds_win :: "'a::len word \<Rightarrow> bool list \<Rightarrow> bool" where
  "holds_win s w \<longleftrightarrow> length w = 7 \<and> (\<forall>k. bit s k \<longleftrightarrow> k < 7 \<and> w ! k)"

lemma holds_win_zero: "holds_win 0 (replicate 7 False)"
  by (simp add: holds_win_def)

lemma holds_win_length: "holds_win s w \<Longrightarrow> length w = 7"
  by (simp add: holds_win_def)

lemma bit_64: "bit (64 :: int) k \<longleftrightarrow> k = 6"
proof -
  have "(64 :: int) = push_bit 6 1" by simp
  then show ?thesis by (simp only: bit_push_bit_iff) (auto simp: bit_1_iff)
qed

lemma enc_shift_win:
  fixes s :: "'a::len word" and c :: "'b::len word"
  assumes "holds_win s w" "7 \<le> LENGTH('a)" "i < LENGTH('b)"
  shows "holds_win (enc_shift c i s) (tl w @ [bit c i])"
proof -
  have len: "length w = 7" using assms(1) by (rule holds_win_length)
  have nz: "c AND push_bit i 1 \<noteq> 0 \<longleftrightarrow> bit c i" using assms(3) by (rule and_bit_nonzero)
  have "bit (enc_shift c i s) k \<longleftrightarrow> k < 7 \<and> (tl w @ [bit c i]) ! k" for k
  proof -
    have b: "bit s (Suc k) \<longleftrightarrow> Suc k < 7 \<and> w ! Suc k" using assms(1) by (simp add: holds_win_def)
    have "bit (enc_shift c i s) k \<longleftrightarrow> (k < 6 \<and> w ! Suc k) \<or> (bit c i \<and> k = 6)"
      using assms(2) nz b by (auto simp: enc_shift_def Let_def bit_drop_bit_eq bit_or_iff bit_64)
    also have "\<dots> \<longleftrightarrow> k < 7 \<and> (tl w @ [bit c i]) ! k"
      using len by (auto simp: nth_append nth_tl less_Suc_eq_le)
    finally show ?thesis .
  qed
  then show ?thesis using len by (simp add: holds_win_def)
qed

lemma holds_win_unat:
  fixes s :: "'a::len word"
  assumes "holds_win s w"
  shows "unat s < 128"
proof -
  have "take_bit 7 s = s"
    using assms by (intro bit_word_eqI) (auto simp: bit_take_bit_iff holds_win_def)
  then have "unat s = take_bit 7 (unat s)" by (metis unsigned_take_bit_eq)
  then show ?thesis using take_bit_nat_less_exp [of 7 "unat s"] by simp
qed

text \<open>The two output bits at a register are the parities of its window.\<close>

lemma card_below_7: "card {k. k < 7 \<and> P k} = length (filter P [0..<7])"
proof -
  have "{k. k < 7 \<and> P k} = set (filter P [0..<7])" by auto
  then show ?thesis by (metis distinct_card distinct_filter distinct_upt)
qed

lemma code_sum_parity:
  fixes s :: "'a::len word"
  assumes "holds_win s w"
  shows "odd (code_sum 91 (of_nat (unat s))) = parA w"
    and "odd (code_sum 121 (of_nat (unat s))) = parB w"
proof -
  have b: "bit (of_nat (unat s) :: int32) k \<longleftrightarrow> w ! k" if "k < 7" for k
    using assms that by (simp add: bit_of_nat_iff bit_unsigned_iff holds_win_def)
  have "odd (code_sum g (of_nat (unat s)))
      \<longleftrightarrow> odd (length (filter (\<lambda>k. w ! k \<and> bit g k) [0..<7]))" for g :: int32
  proof -
    have "filter (\<lambda>k. bit (of_nat (unat s) :: int32) k \<and> bit g k) [0..<7]
        = filter (\<lambda>k. w ! k \<and> bit g k) [0..<7]"
      by (rule filter_cong) (auto simp only: b set_upt atLeastLessThan_iff)
    then show ?thesis by (simp only: odd_code_sum card_below_7)
  qed
  then show "odd (code_sum 91 (of_nat (unat s))) = parA w"
    and "odd (code_sum 121 (of_nat (unat s))) = parB w"
    by (auto simp: upt_7 parA_def parB_def)
qed

lemma ccodedot11_init_nth:
  "length t = 128 \<Longrightarrow> i < 128 \<Longrightarrow> ccodedot11_init t ! i = code_entry gdot11 (of_nat i)"
  by (simp add: ccodedot11_init_def loop_simps)

lemma table_outputs:
  fixes s :: "'a::len word"
  assumes "holds_win s w" "length t = 128"
  shows "ccodedot11_init t ! unat s AND 1 = of_bool (parA w)"
    and "drop_bit 1 (ccodedot11_init t ! unat s) AND 1 = of_bool (parB w)"
proof -
  have "ccodedot11_init t ! unat s = code_entry gdot11 (of_nat (unat s))"
    by (rule ccodedot11_init_nth [OF assms(2) holds_win_unat [OF assms(1)]])
  moreover have "length gdot11 = 2" "gdot11 ! 0 = 91" "gdot11 ! 1 = 121"
    by (simp_all add: gdot11_def)
  ultimately show "ccodedot11_init t ! unat s AND 1 = of_bool (parA w)"
    and "drop_bit 1 (ccodedot11_init t ! unat s) AND 1 = of_bool (parB w)"
    by (simp_all only: code_entry_outputs code_sum_parity [OF assms(1)])
qed

section \<open>Puncturing\<close>

lemma modes_cases:
  assumes "p \<in> modes"
  obtains "p = 0" | "p = 1" | "p = 2" | "p = 5"
  using assms by (auto simp: modes_def)

lemma punc_period_pos [simp]: "0 < punc_period p"
  by (simp add: punc_period_def)

lemma puncture_map: "puncture p k (map f xs) = map f (puncture p k xs)"
  by (induction p k xs rule: puncture.induct) auto

lemma puncture_append:
  "even (length xs) \<Longrightarrow> k < punc_period p \<Longrightarrow>
    puncture p k (xs @ ys)
      = puncture p k xs @ puncture p ((k + length xs div 2) mod punc_period p) ys"
proof (induction p k xs rule: puncture.induct)
  case (1 p k a b xs)
  then show ?case by (simp add: mod_add_left_eq)
qed simp_all

lemma length_conv_out [simp]: "length (conv_out w xs) = 2 * length xs"
  by (induction w xs rule: conv_out.induct) (simp_all add: Let_def)

lemma conv_state_simps [simp]:
  "conv_state w [] = w" "conv_state w (x # xs) = conv_state (tl w @ [x]) xs"
  by (simp_all add: conv_state_def)

lemma conv_out_append: "conv_out w (xs @ ys) = conv_out w xs @ conv_out (conv_state w xs) ys"
  by (induction w xs rule: conv_out.induct) (simp_all add: Let_def)

lemma conv_state_append: "conv_state w (xs @ ys) = conv_state (conv_state w xs) ys"
  by (simp add: conv_state_def)

lemma length_conv_state: "length w = 7 \<Longrightarrow> length (conv_state w xs) = 7"
  by (induction xs arbitrary: w) simp_all

section \<open>The interface of a byte coder\<close>

text \<open>
  Both encoders consume a byte at a time, append a punctured selection of its sixteen
  coded bits and move to a next state. The laws of a provider: it keeps a window of the
  last seven bits, and its sixteen bits are those of the code.
\<close>

definition coded_byte :: "('s \<Rightarrow> byte \<Rightarrow> byte list) \<Rightarrow> ('s \<Rightarrow> byte \<Rightarrow> 's) \<Rightarrow> byte \<Rightarrow> byte
    \<Rightarrow> 's \<times> nat \<times> byte list \<Rightarrow> 's \<times> nat \<times> byte list" where
  "coded_byte bits nxt p c = (\<lambda>(s, k, outs).
     (nxt s c, (k + 8) mod punc_period p, outs @ puncture p k (bits s c)))"

locale byte_coder =
  fixes bits :: "'s \<Rightarrow> byte \<Rightarrow> byte list"
    and nxt :: "'s \<Rightarrow> byte \<Rightarrow> 's"
    and holds :: "'s \<Rightarrow> bool list \<Rightarrow> bool"
  assumes window: "holds s w \<Longrightarrow> length w = 7"
    and bits: "holds s w \<Longrightarrow> bits s c = map of_bool (conv_out w (byte_bits c))"
    and nxt: "holds s w \<Longrightarrow> holds (nxt s c) (conv_state w (byte_bits c))"
begin

lemma run:
  assumes "holds s w" "k < punc_period p"
  shows "map_option (snd \<circ> snd) (enc_loop (coded_byte bits nxt p) n inp (s, k, outs))
    = (if n \<le> length inp
       then Some (outs @ map of_bool (puncture p k (conv_out w (bytes_bits (take n inp)))))
       else None)"
  using assms
proof (induction n arbitrary: inp s w k outs)
  case 0
  then show ?case by simp
next
  case (Suc n)
  show ?case
  proof (cases inp)
    case Nil
    then show ?thesis by simp
  next
    case (Cons c cs)
    have "puncture p k (conv_out w (byte_bits c) @ ys)
        = puncture p k (conv_out w (byte_bits c)) @ puncture p ((k + 8) mod punc_period p) ys" for ys
      using puncture_append [of "conv_out w (byte_bits c)" k p ys] Suc.prems by simp
    then show ?thesis
      using Suc.IH [OF nxt [OF Suc.prems(1), of c], of "(k + 8) mod punc_period p" cs] Suc.prems
      by (simp add: Cons coded_byte_def bits [OF Suc.prems(1)] puncture_map conv_out_append)
  qed
qed

end

section \<open>The two providers\<close>

text \<open>Shifting \<open>n\<close> bits of a byte into the register, with the coded bits.\<close>

definition enc_run :: "byte list \<Rightarrow> 'b::len word \<Rightarrow> 'a::len word \<Rightarrow> nat \<Rightarrow> 'a word \<times> byte list" where
  "enc_run tab c s n = fold (\<lambda>i (s, outs).
     let s' = enc_shift c i s; w = tab ! unat s'
     in (s', outs @ [w AND 1, drop_bit 1 w AND 1])) [0..<n] (s, [])"

lemma enc_run_0 [simp]: "enc_run tab c s 0 = (s, [])"
  by (simp add: enc_run_def)

lemma enc_run_Suc: "enc_run tab c s (Suc n)
    = (let s' = enc_shift c n (fst (enc_run tab c s n)); w = tab ! unat s'
       in (s', snd (enc_run tab c s n) @ [w AND 1, drop_bit 1 w AND 1]))"
  by (simp add: enc_run_def split_beta Let_def)

lemma length_enc_run [simp]: "length (snd (enc_run tab c s n)) = 2 * n"
  by (induction n) (simp_all add: enc_run_Suc Let_def)

lemma enc_run_code:
  fixes s :: "'a::len word" and c :: "'b::len word"
  assumes "holds_win s w" "7 \<le> LENGTH('a)" "8 \<le> LENGTH('b)" "length t = 128" "n \<le> 8"
  defines "r \<equiv> enc_run (ccodedot11_init t) c s n"
  shows "holds_win (fst r) (conv_state w (map (bit c) [0..<n]))
    \<and> snd r = map of_bool (conv_out w (map (bit c) [0..<n]))"
  using assms(5) unfolding r_def
proof (induction n)
  case 0
  then show ?case using assms(1) by simp
next
  case (Suc n)
  let ?r = "enc_run (ccodedot11_init t) c s n"
  let ?w = "conv_state w (map (bit c) [0..<n])"
  have IH: "holds_win (fst ?r) ?w" "snd ?r = map of_bool (conv_out w (map (bit c) [0..<n]))"
    using Suc by simp_all
  have win: "holds_win (enc_shift c n (fst ?r)) (tl ?w @ [bit c n])"
    using IH(1) assms(2,3) Suc.prems by (intro enc_shift_win) simp_all
  show ?case
    using win table_outputs [OF win assms(4)] IH(2)
    by (simp add: enc_run_Suc Let_def conv_state_append conv_out_append)
qed

definition direct_bits :: "byte list \<Rightarrow> int32 \<Rightarrow> byte \<Rightarrow> byte list" where
  "direct_bits tab s c = snd (enc_run tab c s 8)"

definition direct_next :: "byte list \<Rightarrow> int32 \<Rightarrow> byte \<Rightarrow> int32" where
  "direct_next tab s c = fst (enc_run tab c s 8)"

definition code_table :: "byte list" where
  "code_table = ccodedot11_init (replicate 128 0)"

interpretation direct: byte_coder "direct_bits code_table" "direct_next code_table" holds_win
proof unfold_locales
  fix s :: int32 and w :: "bool list" and c :: byte
  assume s: "holds_win s w"
  show "length w = 7" using s by (rule holds_win_length)
  show "direct_bits code_table s c = map of_bool (conv_out w (byte_bits c))"
    and "holds_win (direct_next code_table s c) (conv_state w (byte_bits c))"
    using enc_run_code [OF s, of "replicate 128 0" 8 c]
    by (simp_all add: direct_bits_def direct_next_def code_table_def byte_bits_def)
qed

text \<open>The entries of the table are runs of the 8-bit register over one byte.\<close>

lemma bcc_fill_run:
  assumes "length (outbits old) = 16"
  shows "bcc_fill tab old c st
    = \<lparr>outbits = snd (enc_run tab c st 8), endstate = fst (enc_run tab c st 8)\<rparr>"
proof -
  have "fold (bcc_fill_bit tab c) [0..<n] (st, outbits old)
      = (fst (enc_run tab c st n), snd (enc_run tab c st n) @ drop (2 * n) (outbits old))"
    if "n \<le> 8" for n
    using that
  proof (induction n)
    case 0
    then show ?case by simp
  next
    case (Suc n)
    have "drop (2 * n) (outbits old)
        = outbits old ! (2 * n) # outbits old ! (2 * n + 1) # drop (2 * Suc n) (outbits old)"
      using Suc.prems assms by (simp add: Cons_nth_drop_Suc)
    with Suc show ?case
      by (simp add: bcc_fill_bit_def enc_run_Suc Let_def list_update_append)
  qed
  from this [of 8] show ?thesis using assms by (simp add: bcc_fill_def split_beta)
qed

definition bcc_table :: "BCCStruct_t list list" where
  "bcc_table = snd (init_BCCencode_table (replicate 128 0) BCCTable0)"

lemma bcc_table_nth:
  assumes "k < 256" "j < 128"
  shows "bcc_table ! k ! j = \<lparr>outbits = snd (enc_run code_table (of_nat k :: int32) (of_nat j :: byte) 8),
    endstate = fst (enc_run code_table (of_nat k :: int32) (of_nat j :: byte) 8)\<rparr>"
proof -
  let ?f = "\<lambda>old c st. bcc_fill code_table old c (of_nat st)"
  have "bcc_table ! k ! j = bcc_fill code_table (BCCTable0 ! k ! j) (of_nat k) (of_nat j)"
    unfolding bcc_table_def init_BCCencode_table_def Let_def snd_conv code_table_def [symmetric]
    by (rule counter_table_nth [where f = ?f and N = 256 and m = 128])
      (use assms in \<open>simp_all add: BCCTable0_def\<close>)
  moreover have "length (outbits (BCCTable0 ! k ! j)) = 16"
    using assms by (simp add: BCCTable0_def)
  ultimately show ?thesis by (simp add: bcc_fill_run)
qed

definition lookup_bits :: "byte \<Rightarrow> byte \<Rightarrow> byte list" where
  "lookup_bits s c = outbits (bcc_table ! unat c ! unat s)"

definition lookup_next :: "byte \<Rightarrow> byte \<Rightarrow> byte" where
  "lookup_next s c = endstate (bcc_table ! unat c ! unat s)"

interpretation lookup: byte_coder lookup_bits lookup_next holds_win
proof unfold_locales
  fix s :: byte and w :: "bool list" and c :: byte
  assume s: "holds_win s w"
  show "length w = 7" using s by (rule holds_win_length)
  have b: "map (bit (of_nat (unat c) :: int32)) [0..<8] = byte_bits c"
    by (simp add: byte_bits_def bit_of_nat_iff bit_unsigned_iff)
  have id: "(of_nat (unat s) :: byte) = s" by simp
  show "lookup_bits s c = map of_bool (conv_out w (byte_bits c))"
    and "holds_win (lookup_next s c) (conv_state w (byte_bits c))"
    using enc_run_code [OF s, of "replicate 128 0" 8 "of_nat (unat c) :: int32"]
      holds_win_unat [OF s] unat_byte [of c]
    by (simp_all add: lookup_bits_def lookup_next_def bcc_table_nth code_table_def [symmetric] b id
        del: of_nat_unat)
qed

section \<open>The code is a byte coder with puncturing\<close>

lemma enc_loop_cong:
  assumes "\<And>c s. P s \<Longrightarrow> body c s = body' c s \<and> P (body' c s)" and "P s"
  shows "enc_loop body n inp s = enc_loop body' n inp s"
  using assms(2)
proof (induction n arbitrary: inp s)
  case 0
  then show ?case by simp
next
  case (Suc n)
  with assms(1) [of s] show ?case by (cases inp) auto
qed

lemma enc_bit_puncture:
  assumes "p \<in> modes" "k < punc_period p"
  shows "enc_bit tab p c i (s, k, outs)
    = (let s' = enc_shift c i s; w = tab ! unat s'
       in (s', Suc k mod punc_period p, outs @ puncture p k [w AND 1, drop_bit 1 w AND 1]))"
  using assms(2) by (cases rule: modes_cases [OF assms(1)])
    (auto simp: enc_bit_def Let_def keeps_def punc_period_def mod_Suc)

lemma enc_byte_coded:
  assumes "p \<in> modes" "k < punc_period p"
  shows "enc_byte tab p c (s, k, outs) = coded_byte (direct_bits tab) (direct_next tab) p c (s, k, outs)"
proof -
  have "fold (enc_bit tab p c) [0..<n] (s, k, outs)
      = (fst (enc_run tab c s n), (k + n) mod punc_period p, outs @ puncture p k (snd (enc_run tab c s n)))"
    for n
  proof (induction n)
    case 0
    then show ?case using assms(2) by simp
  next
    case (Suc n)
    then show ?case
      using enc_bit_puncture [OF assms(1), of "(k + n) mod punc_period p" tab c n] assms(2)
      by (simp add: enc_run_Suc Let_def puncture_append mod_Suc_eq)
  qed
  from this [of 8] show ?thesis
    by (simp add: enc_byte_def coded_byte_def direct_bits_def direct_next_def)
qed

lemma chk_pairs_puncture:
  assumes "p \<in> modes" "p \<noteq> 0" "k < punc_period p" "length ob = 16" "n \<le> 8"
  shows "fold (chk_pair p ob) [0..<n] (k, outs)
    = ((k + n) mod punc_period p, outs @ puncture p k (take (2 * n) ob))"
  using assms(5)
proof (induction n)
  case 0
  then show ?case using assms(3) by simp
next
  case (Suc n)
  let ?k = "(k + n) mod punc_period p"
  have pair: "chk_pair p ob n (j, os)
      = (Suc j mod punc_period p, os @ puncture p j [ob ! (2 * n), ob ! (2 * n + 1)])"
    if "j < punc_period p" for j os
    using that assms(2) by (cases rule: modes_cases [OF assms(1)])
      (auto simp: chk_pair_def Let_def keeps_def punc_period_def mod_Suc)
  have "take (2 * Suc n) ob = take (2 * n) ob @ [ob ! (2 * n), ob ! (2 * n + 1)]"
    using Suc.prems assms(4) by (simp add: take_Suc_conv_app_nth)
  moreover have "puncture p k (take (2 * n) ob @ [ob ! (2 * n), ob ! (2 * n + 1)])
      = puncture p k (take (2 * n) ob) @ puncture p ?k [ob ! (2 * n), ob ! (2 * n + 1)]"
    using Suc.prems assms(3,4) by (subst puncture_append) simp_all
  ultimately show ?case
    using Suc pair [of ?k] by (simp add: mod_Suc_eq)
qed

lemma puncture_mode_0: "even (length xs) \<Longrightarrow> puncture 0 k xs = xs"
  by (induction "0 :: byte" k xs rule: puncture.induct) (auto simp: keeps_def elim: oddE)

lemma append_each: "fold (\<lambda>j outs. outs @ [f j]) js outs = outs @ map f js"
  by (induction js arbitrary: outs) simp_all

lemma chk_byte_coded:
  assumes "p \<in> modes" "k < punc_period p" "length (lookup_bits s c) = 16"
  shows "chk_byte bcc_table p c (s, k, outs) = coded_byte lookup_bits lookup_next p c (s, k, outs)"
proof (cases "p = 0")
  case True
  have "map ((!) (lookup_bits s c)) [0..<16] = lookup_bits s c"
    using assms(3) by (metis map_nth)
  with True show ?thesis
    using assms(2,3)
    by (simp add: chk_byte_def coded_byte_def Let_def append_each puncture_mode_0 punc_period_def
        lookup_bits_def lookup_next_def)
next
  case False
  with chk_pairs_puncture [OF assms(1) False assms(2,3), of 8] show ?thesis
    using assms(3) by (simp add: chk_byte_def coded_byte_def Let_def lookup_bits_def lookup_next_def)
qed

lemma encode_spec:
  assumes "p \<in> modes"
  shows "ccodedot11_encode code_table n inp p
    = (if n \<le> length inp
       then Some (map of_bool (puncture p 0 (conv_out (replicate 7 False) (bytes_bits (take n inp)))))
       else None)"
proof -
  have "enc_loop (enc_byte code_table p) n inp (0, 0, [])
      = enc_loop (coded_byte (direct_bits code_table) (direct_next code_table) p) n inp (0, 0, [])"
    by (rule enc_loop_cong [where P = "\<lambda>(s, k, outs). k < punc_period p"])
      (auto simp: enc_byte_coded [OF assms] coded_byte_def)
  then show ?thesis
    unfolding ccodedot11_encode_def
    using direct.run [OF holds_win_zero, of 0 p n inp "[]"] by simp
qed

lemma check_spec:
  assumes "p \<in> modes" "holds_win st w"
  shows "check_BCCcode bcc_table n inp st p
    = (if n \<le> length inp
       then Some (map of_bool (puncture p 0 (conv_out w (bytes_bits (take n inp)))))
       else None)"
proof -
  let ?P = "\<lambda>(s, k, outs :: byte list). (\<exists>w. holds_win s w) \<and> k < punc_period p"
  have "enc_loop (chk_byte bcc_table p) n inp (st, 0, [])
      = enc_loop (coded_byte lookup_bits lookup_next p) n inp (st, 0, [])"
  proof (rule enc_loop_cong [where P = ?P], clarify)
    fix c s :: byte and k w and outs :: "byte list"
    assume s: "holds_win s w" and k: "k < punc_period p"
    have "length (lookup_bits s c) = 16" by (simp add: lookup.bits [OF s])
    from chk_byte_coded [OF assms(1) k this, of outs] lookup.nxt [OF s, of c]
    show "chk_byte bcc_table p c (s, k, outs) = coded_byte lookup_bits lookup_next p c (s, k, outs)
      \<and> (case coded_byte lookup_bits lookup_next p c (s, k, outs) of
          (s, k, outs) \<Rightarrow> (\<exists>w. holds_win s w) \<and> k < punc_period p)"
      by (auto simp: coded_byte_def)
  next
    show "?P (st, 0, [])" using assms(2) by auto
  qed
  then show ?thesis
    unfolding check_BCCcode_def
    using lookup.run [OF assms(2), of 0 p n inp "[]"] assms(1) by (simp add: modes_def)
qed

section \<open>Lengths\<close>

text \<open>The number of coded bits for \<open>m\<close> input bits at a rate: \<open>m\<close> over the rate, rounded up.\<close>

definition coded_len :: "byte \<Rightarrow> nat \<Rightarrow> nat" where
  "coded_len p m = (m * snd (code_rate p) + (fst (code_rate p) - 1)) div fst (code_rate p)"

lemma div_add_period: "0 < d \<Longrightarrow> ((d * q + r) * e + c) div d = q * e + (r * e + c) div d" for d :: nat
proof -
  assume "0 < d"
  have "(d * q + r) * e + c = (r * e + c) + (q * e) * d" by (simp add: algebra_simps)
  then show ?thesis using \<open>0 < d\<close> by (simp only: div_mult_self1)
qed

lemma rate_period: "p \<in> modes \<Longrightarrow> fst (code_rate p) = punc_period p"
  by (erule modes_cases) (simp_all add: code_rate_def punc_period_def)

lemma coded_len_less_period:
  assumes "p \<in> modes" "r < punc_period p"
  shows "coded_len p (Suc r) = coded_len p r + length (puncture p r [a, b])"
proof -
  have "r = 0 \<or> r = 1 \<or> r = 2 \<or> r = 3 \<or> r = 4"
    using assms by (auto simp: punc_period_def split: if_splits)
  with assms(2) show ?thesis
    by (elim disjE; cases rule: modes_cases [OF assms(1)])
      (simp_all add: coded_len_def punc_period_def code_rate_def keeps_def)
qed

lemma coded_len_Suc:
  assumes "p \<in> modes"
  shows "coded_len p (Suc n) = coded_len p n + length (puncture p (n mod punc_period p) [a, b])"
proof -
  define q r where "q = n div punc_period p" and "r = n mod punc_period p"
  have split: "coded_len p (punc_period p * q + r') = q * snd (code_rate p) + coded_len p r'" for r'
    unfolding coded_len_def rate_period [OF assms] by (rule div_add_period) simp
  have r: "r < punc_period p" and n: "n = punc_period p * q + r" by (simp_all add: r_def q_def)
  then have n': "Suc n = punc_period p * q + Suc r" by simp
  have "coded_len p (Suc n) = coded_len p n + length (puncture p r [a, b])"
    unfolding n' unfolding n split coded_len_less_period [OF assms r, of a b] by simp
  then show ?thesis by (simp only: r_def)
qed

lemma length_puncture:
  assumes "p \<in> modes" "length xs = 2 * m"
  shows "length (puncture p 0 xs) = coded_len p m"
proof -
  have "length (puncture p 0 (take (2 * n) xs)) = coded_len p n" if "n \<le> m" for n
    using that
  proof (induction n)
    case 0
    then show ?case
      by (cases rule: modes_cases [OF assms(1)]) (simp_all add: coded_len_def code_rate_def)
  next
    case (Suc n)
    have "take (2 * Suc n) xs = take (2 * n) xs @ [xs ! (2 * n), xs ! (2 * n + 1)]"
      using Suc.prems assms(2) by (simp add: take_Suc_conv_app_nth)
    moreover have "puncture p 0 (take (2 * n) xs @ ys)
        = puncture p 0 (take (2 * n) xs) @ puncture p (n mod punc_period p) ys" for ys
      using Suc.prems assms(2) by (subst puncture_append) simp_all
    ultimately show ?case
      using Suc coded_len_Suc [OF assms(1), of n "xs ! (2 * n)" "xs ! (2 * n + 1)"]
      by (simp del: puncture.simps)
  qed
  from this [of m] show ?thesis using assms(2) by simp
qed

lemma mcs_rate_modes: "MCS g < 10 \<Longrightarrow> rate_type (mcs_table_for_20M g) \<in> modes"
  by (cases "MCS g" rule: less10_cases) (simp_all add: mcs_table_for_20M_def mcs_tabs modes_def)

lemma mcs_dbps_4: "MCS g < 10 \<Longrightarrow> 4 dvd n_dbps (mcs_table_for_20M g)"
  by (simp add: mcs_table_for_20M_def param_simps Let_def)

text \<open>The bits of a whole number of symbols give the coded bits of that many symbols.\<close>

lemma coded_len_symbols:
  assumes "MCS g < 10"
  defines "m \<equiv> mcs_table_for_20M g"
  shows "coded_len (rate_type m) (n * n_dbps m) = n * n_cbps m"
    and "coded_len (rate_type m) (n * n_dbps m + k) \<le> n * n_cbps m + 2 * k"
proof -
  have step: "coded_len p (Suc i) \<le> coded_len p i + 2" if "p \<in> modes" for p i
  proof -
    have "length (puncture p (i mod punc_period p) [True, True]) \<le> 2" by simp
    with coded_len_Suc [OF that, of i True True] show ?thesis by simp
  qed
  show eq: "coded_len (rate_type m) (n * n_dbps m) = n * n_cbps m"
    using assms(1) unfolding m_def
    by (cases "MCS g" rule: less10_cases)
      (simp_all add: mcs_table_for_20M_def mcs_tabs param_simps coded_len_def code_rate_def)
  show "coded_len (rate_type m) (n * n_dbps m + k) \<le> n * n_cbps m + 2 * k"
  proof (induction k)
    case 0
    then show ?case by (simp add: eq)
  next
    case (Suc k)
    then show ?case
      using step [of "rate_type m" "n * n_dbps m + k"] mcs_rate_modes [OF assms(1)]
      by (simp add: m_def)
  qed
qed

section \<open>The encoder of the data field\<close>

text \<open>
  \<open>BCC_encoder_OPT\<close> of \<^verbatim>\<open>process_data/process_datafunction/BCC_encoder.c\<close>: \<open>outPtr\<close> is
  the buffer of the first row of \<open>code_out\<close>. A read past \<open>data_scramble\<close> or a write past
  the buffer is \<open>None\<close>.
\<close>

definition BCC_encoder_OPT :: "BCCStruct_t list list \<Rightarrow> globals \<Rightarrow> byte list \<Rightarrow> nat \<Rightarrow> byte list
    \<Rightarrow> byte list option" where
  "BCC_encoder_OPT bcc g data_scramble scrlen code_out =
     (let numbytes = scrlen + 1; p = rate_type (mcs_table_for_20M g)
      in case check_BCCcode bcc numbytes data_scramble 0 p of
           None \<Rightarrow> None
         | Some outs \<Rightarrow> write_prefix code_out outs)"

text \<open>The encoder reads four or eight bits more than the symbols carry, never fewer.\<close>

lemma frame_extra_bits:
  assumes "MCS g < 10"
  shows "\<exists>k \<le> 8. 8 * (scr_len g + 1) = scr_valid g + 6 + k"
proof -
  obtain d where d: "n_dbps (mcs_table_for_20M g) = 4 * d"
    using mcs_dbps_4 [OF assms] by (rule dvdE)
  have "scr_valid g + 6 = 4 * (frame_syms g * d)"
    using scr_valid_tail [OF assms] by (simp add: d)
  then have "scr_valid g mod 8 = 2 \<or> scr_valid g mod 8 = 6" by presburger
  moreover have "8 * (scr_len g + 1) = 8 * (scr_valid g div 8) + 16"
    using scr_len_eq [OF assms] by simp
  ultimately show ?thesis
    using mult_div_mod_eq [of 8 "scr_valid g"]
    by (intro exI [of _ "10 - scr_valid g mod 8"]) linarith
qed

lemma code_prefix:
  assumes "p \<in> modes" "n \<le> length xs"
  shows "take (coded_len p n) (puncture p 0 (conv_out w xs)) = puncture p 0 (conv_out w (take n xs))"
proof -
  have "conv_out w xs = conv_out w (take n xs) @ conv_out (conv_state w (take n xs)) (drop n xs)"
    by (metis append_take_drop_id conv_out_append)
  moreover have "length (puncture p 0 (conv_out w (take n xs))) = coded_len p n"
    using assms by (intro length_puncture) simp_all
  ultimately show ?thesis by (simp add: puncture_append)
qed

lemma encoder_opt_prefix:
  assumes "MCS g < 10" "scr_len g + 1 \<le> length dat" "frame_code g + 24 \<le> length buf"
  defines "p \<equiv> rate_type (mcs_table_for_20M g)"
  shows "\<exists>b. BCC_encoder_OPT bcc_table g dat (scr_len g) buf = Some b \<and> length b = length buf
    \<and> take (frame_code g) b = map of_bool
        (puncture p 0 (conv_out (replicate 7 False) (take (scr_valid g + 6) (bytes_bits dat))))"
proof -
  let ?n = "scr_len g + 1"
  let ?out = "puncture p 0 (conv_out (replicate 7 False) (bytes_bits (take ?n dat)))"
  have p: "p \<in> modes" unfolding p_def using assms(1) by (rule mcs_rate_modes)
  obtain k where k: "k \<le> 8" "8 * ?n = scr_valid g + 6 + k"
    using frame_extra_bits [OF assms(1)] by blast
  have bits: "length (bytes_bits (take ?n dat)) = 8 * ?n" using assms(2) by simp
  have len: "length ?out = coded_len p (frame_syms g * n_dbps (mcs_table_for_20M g) + k)"
    using length_puncture [OF p, of "conv_out (replicate 7 False) (bytes_bits (take ?n dat))" "8 * ?n"]
      bits k(2) scr_valid_tail [OF assms(1)] by simp
  have fits: "length ?out \<le> frame_code g + 2 * k"
    unfolding len unfolding frame_code_def p_def by (rule coded_len_symbols(2) [OF assms(1)])
  have code: "frame_code g = coded_len p (scr_valid g + 6)"
    unfolding scr_valid_tail [OF assms(1)] frame_code_def p_def
    by (rule coded_len_symbols(1) [OF assms(1), symmetric])
  have "take (scr_valid g + 6) (bytes_bits (take ?n dat)) = take (scr_valid g + 6) (bytes_bits dat)"
  proof -
    have "bytes_bits dat = bytes_bits (take ?n dat) @ bytes_bits (drop ?n dat)"
      by (metis append_take_drop_id bytes_bits_append)
    with k(2) bits show ?thesis by simp
  qed
  with code_prefix [OF p, of "scr_valid g + 6" "bytes_bits (take ?n dat)" "replicate 7 False"]
    k(2) bits
  have pre: "take (frame_code g) ?out
      = puncture p 0 (conv_out (replicate 7 False) (take (scr_valid g + 6) (bytes_bits dat)))"
    by (simp add: code)
  have ge: "frame_code g \<le> length ?out"
    using arg_cong [OF pre, of length] code
      length_puncture [OF p, of "conv_out (replicate 7 False) (take (scr_valid g + 6) (bytes_bits dat))"
        "scr_valid g + 6"] k(2) assms(2) by simp
  let ?b = "map of_bool ?out @ drop (length ?out) buf"
  have "BCC_encoder_OPT bcc_table g dat (scr_len g) buf = Some ?b"
    using check_spec [OF p holds_win_zero, of ?n dat] assms(2,3) fits k(1)
    by (simp add: BCC_encoder_OPT_def Let_def p_def [symmetric] write_prefix_def)
  moreover have "length ?b = length buf" using assms(3) fits k(1) by simp
  moreover have "take (frame_code g) ?b = map of_bool (take (frame_code g) ?out)"
    using ge by (simp add: take_map)
  ultimately show ?thesis using pre by auto
qed

section \<open>Properties\<close>

lemma init_table_fst: "fst (init_BCCencode_table (replicate 128 0) BCCTable0) = code_table"
  by (simp add: init_BCCencode_table_def Let_def code_table_def)

text \<open>C8: the table-driven encoder agrees with the bit-by-bit one. For each of the four
  puncturing modes, every input and every byte count, \<open>check_BCCcode\<close> started in state zero
  on the tables of \<open>init_BCCencode_table\<close> writes the bytes that \<open>ccodedot11_encode\<close> writes,
  and fails exactly when the latter does.\<close>

theorem bcc_table_equiv:
  assumes "init_BCCencode_table (replicate 128 0) BCCTable0 = (tab, bcc)" and "p \<in> {0, 1, 2, 5}"
  shows "check_BCCcode bcc n inp 0 p = ccodedot11_encode tab n inp p"
proof -
  have "tab = code_table" "bcc = bcc_table"
    using assms(1) init_table_fst by (simp_all add: bcc_table_def)
  moreover have "p \<in> modes" using assms(2) by (simp add: modes_def)
  ultimately show ?thesis by (simp add: check_spec [OF _ holds_win_zero] encode_spec)
qed

theorem bcc_table_equiv_witness:
  "check_BCCcode (snd (init_BCCencode_table (replicate 128 0) BCCTable0)) 3 [139, 0, 127] 0 5
    = ccodedot11_encode (fst (init_BCCencode_table (replicate 128 0) BCCTable0)) 3 [139, 0, 127] 5"
  by (rule bcc_table_equiv [OF prod.collapse [symmetric]]) simp

lemma conv_out_nth:
  "length w = 7 \<Longrightarrow> k < length xs \<Longrightarrow>
    conv_out w xs ! (2 * k) = parA (take 7 (drop (Suc k) (w @ xs)))
    \<and> conv_out w xs ! (2 * k + 1) = parB (take 7 (drop (Suc k) (w @ xs)))"
proof (induction xs arbitrary: w k)
  case Nil
  then show ?case by simp
next
  case (Cons x xs)
  have tl: "length (tl w @ [x]) = 7" using Cons.prems(1) by simp
  have w: "drop (Suc 0) w = tl w" by (simp add: drop_Suc)
  show ?case
  proof (cases k)
    case 0
    then show ?thesis using tl Cons.prems(1) by (simp add: Let_def w)
  next
    case (Suc j)
    have "drop (Suc (Suc j)) (w @ x # xs) = drop (Suc j) ((tl w @ [x]) @ xs)"
      using Cons.prems(1) by (cases w) auto
    then show ?thesis
      using Cons.IH [OF tl, of j] Cons.prems Suc by (simp add: Let_def)
  qed
qed

text \<open>C10: the mother code. In mode 0 the encoder turns \<open>n\<close> bytes into two bytes per bit;
  with \<open>x\<close> the input bits preceded by six zeros, output \<open>2k\<close> is the parity of the taps
  \<open>0133\<close> and output \<open>2k + 1\<close> that of the taps \<open>0171\<close>, so the code is the industry-standard
  rate 1/2 code of the standard, least significant bit of each byte first.\<close>

theorem bcc_generator_polynomials:
  assumes "n \<le> length inp"
  defines "x \<equiv> replicate 6 False @ bytes_bits inp"
  shows "\<exists>out. ccodedot11_encode (ccodedot11_init (replicate 128 0)) n inp 0 = Some out
    \<and> length out = 16 * n
    \<and> (\<forall>k < 8 * n.
        out ! (2 * k) = of_bool (x ! (k + 6) \<noteq> (x ! (k + 4) \<noteq> (x ! (k + 3) \<noteq> (x ! (k + 1) \<noteq> x ! k))))
        \<and> out ! (2 * k + 1)
          = of_bool (x ! (k + 6) \<noteq> (x ! (k + 5) \<noteq> (x ! (k + 4) \<noteq> (x ! (k + 3) \<noteq> x ! k)))))"
proof -
  define xs where "xs = bytes_bits (take n inp)"
  have len: "length xs = 8 * n" using assms(1) by (simp add: xs_def)
  have "bytes_bits inp = xs @ bytes_bits (drop n inp)"
    unfolding xs_def by (metis append_take_drop_id bytes_bits_append)
  then have x: "take 7 (drop k x) = take 7 (drop (Suc k) (replicate 7 False @ xs))" if "k < 8 * n" for k
    using that len by (simp add: x_def)
  have par: "parA (take 7 (drop k x))
        = (x ! (k + 6) \<noteq> (x ! (k + 4) \<noteq> (x ! (k + 3) \<noteq> (x ! (k + 1) \<noteq> x ! k))))"
    "parB (take 7 (drop k x))
        = (x ! (k + 6) \<noteq> (x ! (k + 5) \<noteq> (x ! (k + 4) \<noteq> (x ! (k + 3) \<noteq> x ! k))))"
    if "k < 8 * n" for k
  proof -
    have "k \<le> length x" using that assms(1) by (simp add: x_def)
    then show "parA (take 7 (drop k x))
        = (x ! (k + 6) \<noteq> (x ! (k + 4) \<noteq> (x ! (k + 3) \<noteq> (x ! (k + 1) \<noteq> x ! k))))"
      "parB (take 7 (drop k x))
        = (x ! (k + 6) \<noteq> (x ! (k + 5) \<noteq> (x ! (k + 4) \<noteq> (x ! (k + 3) \<noteq> x ! k))))"
      by (simp_all add: parA_def parB_def)
  qed
  let ?out = "map of_bool (conv_out (replicate 7 False) xs) :: byte list"
  have "(0 :: byte) \<in> modes" by (simp add: modes_def)
  then have enc: "ccodedot11_encode (ccodedot11_init (replicate 128 0)) n inp 0 = Some ?out"
    using encode_spec [of 0 n inp] assms(1)
    by (simp add: code_table_def xs_def puncture_mode_0)
  have taps: "?out ! (2 * k) = of_bool (parA (take 7 (drop k x)))"
    "?out ! (2 * k + 1) = of_bool (parB (take 7 (drop k x)))" if "k < 8 * n" for k
    using conv_out_nth [of "replicate 7 False" k xs] that len by (simp_all add: x [OF that])
  have out_len: "length ?out = 16 * n" using len by simp
  show ?thesis
    by (intro exI [of _ ?out] conjI allI impI enc out_len) (simp_all only: taps par)
qed

theorem bcc_generator_polynomials_witness:
  "\<exists>out. ccodedot11_encode (ccodedot11_init (replicate 128 0)) 2 [139, 7] 0 = Some out
    \<and> length out = 32 \<and> out ! 0 = 1 \<and> out ! 1 = 1"
proof -
  have "2 \<le> length [139, 7 :: byte]" by simp
  from bcc_generator_polynomials [OF this] obtain out where
    "ccodedot11_encode (ccodedot11_init (replicate 128 0)) 2 [139, 7] 0 = Some out"
    "length out = 16 * 2"
    and taps: "\<forall>k < 8 * 2.
      out ! (2 * k) = of_bool ((replicate 6 False @ bytes_bits [139, 7]) ! (k + 6)
        \<noteq> ((replicate 6 False @ bytes_bits [139, 7]) ! (k + 4)
        \<noteq> ((replicate 6 False @ bytes_bits [139, 7]) ! (k + 3)
        \<noteq> ((replicate 6 False @ bytes_bits [139, 7]) ! (k + 1)
        \<noteq> (replicate 6 False @ bytes_bits [139, 7]) ! k))))
      \<and> out ! (2 * k + 1) = of_bool ((replicate 6 False @ bytes_bits [139, 7]) ! (k + 6)
        \<noteq> ((replicate 6 False @ bytes_bits [139, 7]) ! (k + 5)
        \<noteq> ((replicate 6 False @ bytes_bits [139, 7]) ! (k + 4)
        \<noteq> ((replicate 6 False @ bytes_bits [139, 7]) ! (k + 3)
        \<noteq> (replicate 6 False @ bytes_bits [139, 7]) ! k))))"
    by blast
  from taps [rule_format, of 0] have "out ! 0 = 1" "out ! 1 = 1"
    by (simp_all add: nth_append nth_Cons' byte_bits_def upt_8)
  with \<open>ccodedot11_encode _ _ _ _ = _\<close> \<open>length out = 16 * 2\<close> show ?thesis by auto
qed

text \<open>C11: the other modes puncture the mother code. In mode 1, 2 or 5 the output is the mode-0
  output with the pairs thinned out by the period-3, -2 or -5 pattern, and its length is the
  number of input bits over the code rate (3/4, 2/3, 5/6), rounded up.\<close>

theorem bcc_punctured_modes:
  assumes "p \<in> {0, 1, 2, 5}" and "n \<le> length inp"
  defines "enc m \<equiv> ccodedot11_encode (ccodedot11_init (replicate 128 0)) n inp m"
  shows "\<exists>mother. enc 0 = Some mother \<and> enc p = Some (puncture p 0 mother)
    \<and> length (puncture p 0 mother)
        = (8 * n * snd (code_rate p) + (fst (code_rate p) - 1)) div fst (code_rate p)"
proof -
  have p: "p \<in> modes" and z: "0 \<in> modes" using assms(1) by (simp_all add: modes_def)
  let ?m = "conv_out (replicate 7 False) (bytes_bits (take n inp))"
  have "enc 0 = Some (map of_bool ?m)" "enc p = Some (puncture p 0 (map of_bool ?m))"
    unfolding enc_def code_table_def [symmetric]
    using encode_spec [OF z, of n inp] encode_spec [OF p, of n inp] assms(2)
    by (simp_all add: puncture_mode_0 puncture_map)
  moreover have "length (puncture p 0 (map of_bool ?m :: byte list)) = coded_len p (8 * n)"
    by (rule length_puncture [OF p]) (use assms(2) in simp)
  ultimately show ?thesis unfolding coded_len_def by blast
qed

theorem bcc_punctured_modes_witness:
  "\<exists>mother. ccodedot11_encode (ccodedot11_init (replicate 128 0)) 3 [139, 0, 127] 0 = Some mother
    \<and> ccodedot11_encode (ccodedot11_init (replicate 128 0)) 3 [139, 0, 127] 1
        = Some (puncture 1 0 mother) \<and> length (puncture 1 0 mother) = 32"
proof -
  have "(1 :: byte) \<in> {0, 1, 2, 5}" "3 \<le> length [139, 0, 127 :: byte]" by simp_all
  from bcc_punctured_modes [OF this] show ?thesis by (simp add: code_rate_def)
qed

text \<open>The encoder of the data field on the frame buffers of the pipeline. Given a
  buffer with at least \<open>ScrLength + 1\<close> scrambled bytes and room for the coded bits of the
  frame and 24 more bytes, it neither reads nor writes out of bounds, keeps the buffer's
  size, and its first \<open>N_SYM * N_CBPS\<close> bytes are the punctured code of exactly the first
  \<open>N_SYM * N_DBPS\<close> input bits: the bits it encodes beyond these never reach the frame.\<close>

theorem encoder_opt_frame:
  assumes "MCS g < 10" "scr_len g + 1 \<le> length dat" "frame_code g + 24 \<le> length buf"
  defines "m \<equiv> mcs_table_for_20M g"
  shows "\<exists>b. BCC_encoder_OPT (snd (init_BCCencode_table (replicate 128 0) BCCTable0)) g dat
      (scr_len g) buf = Some b
    \<and> length b = length buf
    \<and> take (frame_code g) b = map of_bool (puncture (rate_type m) 0
        (conv_out (replicate 7 False) (take (frame_syms g * n_dbps m) (bytes_bits dat))))"
  using encoder_opt_prefix [OF assms(1-3)]
  unfolding m_def bcc_table_def scr_valid_tail [OF assms(1)] .

theorem encoder_opt_frame_witness:
  "\<exists>b. BCC_encoder_OPT (snd (init_BCCencode_table (replicate 128 0) BCCTable0)) globals0
      (replicate 937 5) 936 (replicate 11256 0) = Some b \<and> length b = 11256"
proof -
  have m: "MCS globals0 < 10" by (simp add: globals0_def)
  have l: "scr_len globals0 = 936" "frame_code globals0 = 11232"
    by (simp_all add: scr_len_def frame_code_def frame_syms_def GenInit_def Let_def globals0_def
        mcs_table_for_20M_def mcs_tabs param_simps ceil_div_def num_sym_def)
  from encoder_opt_frame [OF m, of "replicate 937 5" "replicate 11256 0"] show ?thesis
    by (auto simp: l)
qed

text \<open>The encoder over-reads a buffer of exactly \<open>ScrLength\<close> bytes. \<open>GenDataAndScramble\<close>
  produces \<open>ScrLength\<close> bytes and \<open>GenerateData\<close> allocates as many, but the encoder asks for
  one more: on such a buffer both builds read past its end, for every rate and payload.\<close>

theorem encoder_over_reads:
  assumes "MCS g < 10" "length dat = scr_len g"
  shows "BCC_encoder_OPT (snd (init_BCCencode_table (replicate 128 0) BCCTable0)) g dat
      (scr_len g) buf = None
    \<and> ccodedot11_encode (ccodedot11_init (replicate 128 0)) (scr_len g + 1) dat
        (rate_type (mcs_table_for_20M g)) = None"
  using check_spec [OF mcs_rate_modes [OF assms(1)] holds_win_zero, of "scr_len g + 1" dat]
    encode_spec [OF mcs_rate_modes [OF assms(1)], of "scr_len g + 1" dat] assms(2)
  by (simp add: BCC_encoder_OPT_def Let_def bcc_table_def [symmetric] code_table_def)

theorem encoder_over_reads_witness:
  "BCC_encoder_OPT (snd (init_BCCencode_table (replicate 128 0) BCCTable0)) globals0
      (replicate (scr_len globals0) 0) (scr_len globals0) [] = None"
proof -
  have "MCS globals0 < 10" by (simp add: globals0_def)
  from encoder_over_reads [OF this, of "replicate (scr_len globals0) 0" "[]"] show ?thesis by simp
qed

end
