(* ===== verification/Interleave.thy ===== *)
theory Interleave
  imports Bcc "HOL-Library.While_Combinator"
begin

text \<open>
  The stream parser and the interleaver: \<open>BCC_encoder\<close> of
  \<^verbatim>\<open>process_data/process_datafunction/BCC_encoder.c\<close>, which permutes the coded bits of
  a frame, and \<open>generate_stream_code_in_table\<close> of \<^verbatim>\<open>modulate_opt.c\<close>, which permutes
  the bit numbers of one symbol once and for all. The loops count from 1 in the source;
  \<open>k1 = k - 1\<close> and \<open>i_ss - 1\<close> are the loop variables here.
\<close>

section \<open>The operations\<close>

definition stream_s :: "nat \<Rightarrow> nat" where
  "stream_s N_BPSCS = (if N_BPSCS div 2 > 1 then N_BPSCS div 2 else 1)"

definition parse_src :: "nat \<Rightarrow> nat \<Rightarrow> nat \<Rightarrow> nat \<Rightarrow> nat" where
  "parse_src s N_ES ss k1 = (let S = N_STS * s; floor2 = k1 div N_ES div s
     in ss * s + S * floor2 + k1 mod s)"

definition stream_parser :: "nat \<Rightarrow> nat \<Rightarrow> nat \<Rightarrow> 'a list \<Rightarrow> 'a list list \<Rightarrow> 'a list list" where
  "stream_parser s N_ES len output parser =
     fold (\<lambda>ss. fold (\<lambda>k1. upd2 ss k1 (output ! parse_src s N_ES ss k1)) [0..<len]) [0..<N_STS] parser"

definition perm1 :: "nat \<Rightarrow> nat \<Rightarrow> nat" where
  "perm1 N_BPSCS k1 = (let N_COL = 26; N_ROW = 9 * N_BPSCS; floor1 = k1 div N_COL
     in N_ROW * (k1 mod N_COL) + floor1)"

definition perm2 :: "nat \<Rightarrow> nat \<Rightarrow> nat \<Rightarrow> nat" where
  "perm2 s N_CBPSS k1 = (let N_COL = 26; floor1 = k1 div s; floor2 = N_COL * k1 div N_CBPSS;
     floor2 = k1 + N_CBPSS - floor2 in s * floor1 + floor2 mod s)"

definition wrap_neg :: "nat \<Rightarrow> int \<Rightarrow> int" where
  "wrap_neg N_CBPSS = while (\<lambda>floor1. floor1 < 0) (\<lambda>floor1. floor1 + int N_CBPSS)"

definition J_tab :: "nat list" where
  "J_tab = [0, 5, 2, 7, 3, 6, 1, 4]"

definition N_ROT :: nat where
  "N_ROT = (if N_STS > 4 then 28 else 58)"

definition rot_index :: "nat \<Rightarrow> nat \<Rightarrow> nat" where
  "rot_index N_BPSCS ss = (let floor1 = ss * 2; floor2 = ss div 3
     in (floor1 mod 3 + 3 * floor2) * N_ROT * N_BPSCS)"

definition perm3 :: "nat \<Rightarrow> nat \<Rightarrow> nat \<Rightarrow> nat \<Rightarrow> nat" where
  "perm3 N_BPSCS N_CBPSS ss k1 =
     (if N_STS = 1 then k1
      else if N_STS \<ge> 5 then
        nat (wrap_neg N_CBPSS (int k1 - int (J_tab ! ss * N_ROT * N_BPSCS)))
      else nat (wrap_neg N_CBPSS (int k1 - int (rot_index N_BPSCS ss))))"

text \<open>
  One symbol, at offset \<open>off\<close> of the rows: the first permutation writes \<open>code_out\<close> from the
  parser rows, the second writes the parser rows back from \<open>code_out\<close>, the third writes
  \<open>code_out\<close> again. The first two loops run over bits outside and streams inside, the third
  the other way round unless there is one stream.
\<close>

definition interleave1 :: "nat \<Rightarrow> nat \<Rightarrow> nat \<Rightarrow> 'a list list \<Rightarrow> 'a list list \<Rightarrow> 'a list list" where
  "interleave1 bp n off parser code_out =
     fold (\<lambda>k1. fold (\<lambda>ss. upd2 ss (perm1 bp k1 + off) (parser ! ss ! (k1 + off))) [0..<N_STS])
       [0..<n] code_out"

definition interleave2 :: "nat \<Rightarrow> nat \<Rightarrow> nat \<Rightarrow> 'a list list \<Rightarrow> 'a list list \<Rightarrow> 'a list list" where
  "interleave2 s n off code_out parser =
     fold (\<lambda>k1. fold (\<lambda>ss. upd2 ss (perm2 s n k1 + off) (code_out ! ss ! (k1 + off))) [0..<N_STS])
       [0..<n] parser"

definition interleave3 :: "nat \<Rightarrow> nat \<Rightarrow> nat \<Rightarrow> 'a list list \<Rightarrow> 'a list list \<Rightarrow> 'a list list" where
  "interleave3 bp n off parser code_out =
     (if N_STS = 1 then
        fold (\<lambda>k1. fold (\<lambda>ss. upd2 ss (perm3 bp n ss k1 + off) (parser ! ss ! (k1 + off))) [0..<N_STS])
          [0..<n] code_out
      else
        fold (\<lambda>ss. fold (\<lambda>k1. upd2 ss (perm3 bp n ss k1 + off) (parser ! ss ! (k1 + off))) [0..<n])
          [0..<N_STS] code_out)"

definition interleave_symbol :: "nat \<Rightarrow> nat \<Rightarrow> nat \<Rightarrow> 'a list list \<times> 'a list list
    \<Rightarrow> 'a list list \<times> 'a list list" where
  "interleave_symbol bp n off = (\<lambda>(parser, code_out).
     let s = stream_s bp;
         code_out = interleave1 bp n off parser code_out;
         parser = interleave2 s n off code_out parser;
         code_out = interleave3 bp n off parser code_out
     in (parser, code_out))"

text \<open>
  \<open>output\<close> and the parser rows are fresh from \<open>malloc\<close>: their contents \<open>buf\<close> and \<open>junk\<close>
  are arguments. \<open>None\<close> is an access outside a buffer during encoding.
\<close>

definition BCC_encoder :: "byte list \<Rightarrow> globals \<Rightarrow> byte list \<Rightarrow> nat \<Rightarrow> nat \<Rightarrow> byte list list \<Rightarrow> nat
    \<Rightarrow> byte list \<Rightarrow> byte list list \<Rightarrow> byte list list option" where
  "BCC_encoder tab g data_scramble scrlen nsym code_out CodeLength buf junk =
     (let numbytes = scrlen + 1;
          m = mcs_table_for_20M g;
          N_CBPSS = n_cbps m div N_STS
      in case ccodedot11_encode tab numbytes data_scramble (rate_type m) of
           None \<Rightarrow> None
         | Some outs \<Rightarrow>
             (case write_prefix buf outs of
                None \<Rightarrow> None
              | Some output \<Rightarrow>
                  (let parser = stream_parser (stream_s (n_bpscs m)) (n_es m) CodeLength output junk
                   in Some (snd (fold (\<lambda>sym. interleave_symbol (n_bpscs m) N_CBPSS (sym * N_CBPSS))
                        [0..<nsym] (parser, code_out))))))"

definition generate_stream_code_in_table :: "nat \<Rightarrow> nat \<Rightarrow> nat \<Rightarrow> int16 list list \<Rightarrow> int16 list list
    \<Rightarrow> int16 list list" where
  "generate_stream_code_in_table N_BPSCS cbps N_ES junk code_in =
     (let CodeLength = cbps div N_STS;
          output = map of_nat [0..<CodeLength * N_STS];
          parser = stream_parser (stream_s N_BPSCS) N_ES CodeLength output junk
      in snd (interleave_symbol N_BPSCS CodeLength 0 (parser, code_in)))"

section \<open>The permutations\<close>

lemma stream_s_pos [simp]: "0 < stream_s bp"
  by (simp add: stream_s_def)

lemma stream_s_dvd: "bp \<in> {1, 2, 4, 6, 8} \<Longrightarrow> stream_s bp dvd 9 * bp"
  by (auto simp: stream_s_def)

lemma wrap_neg_mod:
  assumes "0 < n" "x < int n"
  shows "wrap_neg n x = x mod int n"
proof -
  have "(\<lambda>y. y mod int n = x mod int n \<and> y < int n) (wrap_neg n x) \<and> \<not> wrap_neg n x < 0"
    unfolding wrap_neg_def
    by (rule while_rule [where P = "\<lambda>y. y mod int n = x mod int n \<and> y < int n"
          and r = "measure (\<lambda>y. nat (- y))"]) (use assms in auto)
  then show ?thesis by (metis mod_pos_pos_trivial not_less)
qed

lemma perm3_mod:
  assumes "0 < n" "k < n"
  shows "perm3 bp n ss k = nat ((int k - int (rot_index bp ss)) mod int n)"
  using assms by (simp add: perm3_def N_STS_def wrap_neg_mod)

lemma perm1_bij:
  assumes "n = 26 * (9 * bp)" "0 < bp"
  shows "bij_betw (perm1 bp) {..<n} {..<n}"
proof (rule bij_betw_imageI)
  have row: "k div 26 < 9 * bp" if "k < n" for k
    using that assms by (simp add: less_mult_imp_div_less mult.commute)
  have parts: "perm1 bp k div (9 * bp) = k mod 26" "perm1 bp k mod (9 * bp) = k div 26" if "k < n" for k
    using row [OF that] assms(2) by (simp_all add: perm1_def Let_def)
  show inj: "inj_on (perm1 bp) {..<n}"
    by (rule inj_onI) (metis parts lessThan_iff div_mult_mod_eq)
  have "perm1 bp k < n" if "k < n" for k
  proof -
    have "k mod 26 \<le> 25" by simp
    then have "9 * bp * (k mod 26) \<le> 9 * bp * 25" by (rule mult_le_mono2)
    with row [OF that] show ?thesis using assms(1) unfolding perm1_def Let_def by linarith
  qed
  then have "perm1 bp ` {..<n} \<subseteq> {..<n}" by auto
  then show "perm1 bp ` {..<n} = {..<n}" by (rule endo_inj_surj [OF finite_lessThan _ inj])
qed

lemma perm2_block:
  assumes "n = 26 * R" "0 < R" "s dvd R" "0 < s" "k < n"
  shows "perm2 s n k = s * (k div s) + (k mod s + (n - k div s div (R div s))) mod s"
proof -
  have "26 * k div n = k div R" using assms(1) by simp
  moreover have "k div R = k div s div (R div s)"
    using assms(3,4) by (metis div_mult2_eq dvd_mult_div_cancel)
  moreover have "k div R \<le> n" using assms(5) by (meson div_le_dividend le_trans less_imp_le)
  ultimately have "(k + n - 26 * k div n) mod s = (k + (n - k div s div (R div s))) mod s"
    by simp
  also have "\<dots> = (k mod s + (n - k div s div (R div s))) mod s" by (simp add: mod_add_left_eq)
  finally show ?thesis by (simp add: perm2_def Let_def)
qed

lemma perm2_bij:
  assumes "n = 26 * R" "0 < R" "s dvd R" "0 < s"
  shows "bij_betw (perm2 s n) {..<n} {..<n}"
proof (rule bij_betw_imageI)
  note block = perm2_block [OF assms]
  have div: "perm2 s n k div s = k div s" if "k < n" for k
    using assms(4) by (simp add: block [OF that])
  show inj: "inj_on (perm2 s n) {..<n}"
  proof (rule inj_onI)
    fix a b
    assume a: "a \<in> {..<n}" and b: "b \<in> {..<n}" and eq: "perm2 s n a = perm2 s n b"
    then have q: "a div s = b div s" using div [of a] div [of b] by simp
    with a b eq have "(a mod s + (n - b div s div (R div s))) mod s
        = (b mod s + (n - b div s div (R div s))) mod s"
      by (simp add: block)
    then have "a mod s = b mod s" by (rule add_mod_inj) (use assms(4) in simp_all)
    with q show "a = b" by (metis div_mult_mod_eq)
  qed
  have "perm2 s n k < n" if "k < n" for k
  proof -
    have "s dvd n" using assms(1,3) by simp
    then obtain t where t: "n = s * t" ..
    then have "k div s < t" using that assms(4) by (simp add: less_mult_imp_div_less mult.commute)
    then have "perm2 s n k div s < t" using div [OF that] by simp
    then show ?thesis using t assms(4) by (simp add: div_less_iff_less_mult mult.commute)
  qed
  then have "perm2 s n ` {..<n} \<subseteq> {..<n}" by auto
  then show "perm2 s n ` {..<n} = {..<n}" by (rule endo_inj_surj [OF finite_lessThan _ inj])
qed

lemma perm3_bij:
  assumes "0 < n"
  shows "bij_betw (perm3 bp n ss) {..<n} {..<n}"
proof (rule bij_betw_imageI)
  let ?c = "int (rot_index bp ss)"
  have val: "int (perm3 bp n ss k) = (int k - ?c) mod int n" if "k < n" for k
    using perm3_mod [OF assms that, of bp ss] assms by simp
  show inj: "inj_on (perm3 bp n ss) {..<n}"
  proof (rule inj_onI)
    fix a b
    assume a: "a \<in> {..<n}" and b: "b \<in> {..<n}" and eq: "perm3 bp n ss a = perm3 bp n ss b"
    then have "(int a - ?c) mod int n = (int b - ?c) mod int n" using val by (metis lessThan_iff)
    then have "((int a - ?c) + ?c) mod int n = ((int b - ?c) + ?c) mod int n"
      by (metis mod_add_left_eq)
    with a b show "a = b" by simp
  qed
  have "int (perm3 bp n ss k) < int n" if "k < n" for k
    unfolding val [OF that] using assms by simp
  then have "perm3 bp n ss ` {..<n} \<subseteq> {..<n}" by auto
  then show "perm3 bp n ss ` {..<n} = {..<n}" by (rule endo_inj_surj [OF finite_lessThan _ inj])
qed

section \<open>One symbol\<close>

definition rows_ge :: "nat \<Rightarrow> 'a list list \<Rightarrow> bool" where
  "rows_ge len d \<longleftrightarrow> N_STS \<le> length d \<and> (\<forall>ss < N_STS. len \<le> length (d ! ss))"

lemma rows_ge_writes2 [simp]: "rows_ge len (writes2 ws d) = rows_ge len d"
  by (simp add: rows_ge_def)

lemma rows_ge_mono: "rows_ge len d \<Longrightarrow> len' \<le> len \<Longrightarrow> rows_ge len' d"
  by (auto simp: rows_ge_def)

lemmas interleave_writes = interleave1_def interleave2_def interleave3_def fold_fold_nest

lemma rows_ge_interleave [simp]:
  "rows_ge len (interleave1 bp n off p c) = rows_ge len c"
  "rows_ge len (interleave2 s n off c p) = rows_ge len p"
  "rows_ge len (interleave3 bp n off p c) = rows_ge len c"
  by (simp_all add: interleave_writes)

lemma inj_on_offset: "bij_betw f {..<n} {..<n} \<Longrightarrow> inj_on (\<lambda>k. f k + off) {..<n :: nat}"
  by (auto simp: bij_betw_def inj_on_def)

lemma bij_less: "bij_betw f {..<n} {..<n} \<Longrightarrow> k < n \<Longrightarrow> f k < (n :: nat)"
  by (auto simp: bij_betw_def)

text \<open>What each of the three loops does to a row: the bits of the symbol are permuted from
  the other array, the bits of other symbols are kept.\<close>

lemma permute_stage:
  fixes src :: "'a list list"
  assumes "bij_betw (f ss) {..<n} {..<n}" "ss < N_STS" "rows_ge (off + n) d"
  defines "w \<equiv> nest_writes n N_STS (\<lambda>ss k. f ss k + off) (\<lambda>ss k. src ! ss ! (k + off))"
    and "w' \<equiv> nest_writes_rows n N_STS (\<lambda>ss k. f ss k + off) (\<lambda>ss k. src ! ss ! (k + off))"
  shows "k < n \<Longrightarrow> writes2 w d ! ss ! (f ss k + off) = src ! ss ! (k + off)"
    and "k < n \<Longrightarrow> writes2 w' d ! ss ! (f ss k + off) = src ! ss ! (k + off)"
    and "q < off \<or> off + n \<le> q \<Longrightarrow> writes2 w d ! ss ! q = d ! ss ! q"
    and "q < off \<or> off + n \<le> q \<Longrightarrow> writes2 w' d ! ss ! q = d ! ss ! q"
proof -
  have inj: "inj_on (\<lambda>k. f ss k + off) {..<n}" using assms(1) by (rule inj_on_offset)
  have row: "ss < length d" "off + n \<le> length (d ! ss)" using assms(2,3) by (auto simp: rows_ge_def)
  { assume k: "k < n"
    have pos: "f ss k + off < length (d ! ss)" using bij_less [OF assms(1) k] row(2) by simp
    show "writes2 w d ! ss ! (f ss k + off) = src ! ss ! (k + off)"
      "writes2 w' d ! ss ! (f ss k + off) = src ! ss ! (k + off)"
      using nest_written [where f = "\<lambda>ss k. f ss k + off", OF assms(2) k inj row(1) pos]
      by (simp_all add: w_def w'_def) }
  { assume q: "q < off \<or> off + n \<le> q"
    have "f ss k + off \<noteq> q" if "k < n" for k using bij_less [OF assms(1) that] q by auto
    from nest_untouched [of n ss N_STS "\<lambda>ss k. f ss k + off" q, OF this]
    show "writes2 w d ! ss ! q = d ! ss ! q" "writes2 w' d ! ss ! q = d ! ss ! q"
      by (simp_all add: w_def w'_def) }
qed

text \<open>The three permutations of a symbol together.\<close>

definition sym_perm :: "nat \<Rightarrow> nat \<Rightarrow> nat \<Rightarrow> nat \<Rightarrow> nat" where
  "sym_perm bp n ss k = perm3 bp n ss (perm2 (stream_s bp) n (perm1 bp k))"

definition row_params :: "nat \<Rightarrow> nat \<Rightarrow> bool" where
  "row_params bp n \<longleftrightarrow> n = 26 * (9 * bp) \<and> bp \<in> {1, 2, 4, 6, 8}"

lemma row_params_pos: "row_params bp n \<Longrightarrow> 0 < n"
  by (auto simp: row_params_def)

lemma row_params_bij:
  assumes "row_params bp n"
  shows "bij_betw (perm1 bp) {..<n} {..<n}"
    and "bij_betw (perm2 (stream_s bp) n) {..<n} {..<n}"
    and "bij_betw (perm3 bp n ss) {..<n} {..<n}"
proof -
  have n: "n = 26 * (9 * bp)" and bp: "bp \<in> {1, 2, 4, 6, 8}" and "0 < bp"
    using assms by (auto simp: row_params_def)
  then show "bij_betw (perm1 bp) {..<n} {..<n}"
    "bij_betw (perm2 (stream_s bp) n) {..<n} {..<n}"
    using perm1_bij [OF n] perm2_bij [OF n _ stream_s_dvd [OF bp] stream_s_pos] by simp_all
  show "bij_betw (perm3 bp n ss) {..<n} {..<n}"
    using row_params_pos [OF assms] by (rule perm3_bij)
qed

lemma sym_perm_bij: "row_params bp n \<Longrightarrow> bij_betw (sym_perm bp n ss) {..<n} {..<n}"
proof -
  assume bp: "row_params bp n"
  have "sym_perm bp n ss = perm3 bp n ss \<circ> (perm2 (stream_s bp) n \<circ> perm1 bp)"
    by (simp add: fun_eq_iff sym_perm_def)
  then show ?thesis
    using bij_betw_trans [OF bij_betw_trans [OF row_params_bij(1) [OF bp] row_params_bij(2) [OF bp]]
        row_params_bij(3) [OF bp]] by simp
qed

lemma interleave_symbol_run:
  assumes bp: "row_params bp n" and "rows_ge (off + n) parser" "rows_ge (off + n) code_out" "ss < N_STS"
  defines "r \<equiv> interleave_symbol bp n off (parser, code_out)"
  shows "k < n \<Longrightarrow> snd r ! ss ! (sym_perm bp n ss k + off) = parser ! ss ! (k + off)"
    and "q < off \<or> off + n \<le> q \<Longrightarrow> snd r ! ss ! q = code_out ! ss ! q"
    and "q < off \<or> off + n \<le> q \<Longrightarrow> fst r ! ss ! q = parser ! ss ! q"
    and "rows_ge len (fst r) = rows_ge len parser"
    and "rows_ge len (snd r) = rows_ge len code_out"
proof -
  let ?s = "stream_s bp"
  define c1 where "c1 = interleave1 bp n off parser code_out"
  define p2 where "p2 = interleave2 ?s n off c1 parser"
  have r: "r = (p2, interleave3 bp n off p2 c1)"
    by (simp add: r_def interleave_symbol_def Let_def p2_def c1_def)
  have c1_ge: "rows_ge (off + n) c1" and p2_ge: "rows_ge (off + n) p2"
    using assms(2,3) by (simp_all add: c1_def p2_def)
  note s1 = permute_stage [where f = "\<lambda>_. perm1 bp" and d = code_out and src = parser, OF row_params_bij(1) [OF bp] assms(4,3)]
  note s2 = permute_stage [where f = "\<lambda>_. perm2 ?s n" and d = parser and src = c1, OF row_params_bij(2) [OF bp] assms(4,2)]
  note s3 = permute_stage [where f = "perm3 bp n" and d = c1 and src = p2, OF row_params_bij(3) [OF bp] assms(4) c1_ge]
  have c1: "c1 ! ss ! (perm1 bp k + off) = parser ! ss ! (k + off)" if "k < n" for k
    using s1(1) [OF that] by (simp add: c1_def interleave_writes)
  have p2: "p2 ! ss ! (perm2 ?s n k + off) = c1 ! ss ! (k + off)" if "k < n" for k
    using s2(1) [OF that] by (simp add: p2_def interleave_writes)
  have c3: "snd r ! ss ! (perm3 bp n ss k + off) = p2 ! ss ! (k + off)" if "k < n" for k
    using s3(1,2) [OF that] by (simp add: r interleave_writes)
  { assume k: "k < n"
    then show "snd r ! ss ! (sym_perm bp n ss k + off) = parser ! ss ! (k + off)"
      unfolding sym_perm_def
      by (simp add: c3 p2 c1 bij_less [OF row_params_bij(1) [OF bp]] bij_less [OF row_params_bij(2) [OF bp]]) }
  { assume q: "q < off \<or> off + n \<le> q"
    show "snd r ! ss ! q = code_out ! ss ! q"
      using s1(3) [OF q] s3(3,4) [OF q] by (simp add: r c1_def interleave_writes)
    show "fst r ! ss ! q = parser ! ss ! q"
      using s2(3) [OF q] by (simp add: r p2_def interleave_writes) }
  show "rows_ge len (fst r) = rows_ge len parser" "rows_ge len (snd r) = rows_ge len code_out"
    by (simp_all add: r p2_def c1_def)
qed

section \<open>All symbols\<close>

lemma interleave_symbols_run:
  assumes "row_params bp n" "rows_ge (N * n) parser" "rows_ge (N * n) code_out" "ss < N_STS"
  defines "r m \<equiv> fold (\<lambda>sym. interleave_symbol bp n (sym * n)) [0..<m] (parser, code_out)"
  shows "m \<le> N \<Longrightarrow>
      rows_ge (N * n) (fst (r m)) \<and> rows_ge (N * n) (snd (r m))
      \<and> (\<forall>q < m. \<forall>k < n. snd (r m) ! ss ! (sym_perm bp n ss k + q * n) = parser ! ss ! (k + q * n))
      \<and> (\<forall>q \<ge> m * n. fst (r m) ! ss ! q = parser ! ss ! q)"
proof (induction m)
  case 0
  then show ?case using assms(2,3) by (simp add: r_def)
next
  case (Suc m)
  then have IH: "rows_ge (N * n) (fst (r m))" "rows_ge (N * n) (snd (r m))"
    and old: "\<And>q k. q < m \<Longrightarrow> k < n \<Longrightarrow>
        snd (r m) ! ss ! (sym_perm bp n ss k + q * n) = parser ! ss ! (k + q * n)"
    and rest: "\<And>q. m * n \<le> q \<Longrightarrow> fst (r m) ! ss ! q = parser ! ss ! q"
    by simp_all
  have "m * n + n \<le> N * n" using Suc.prems mult_le_mono1 [of "Suc m" N n] by simp
  then have ge: "rows_ge (m * n + n) (fst (r m))" "rows_ge (m * n + n) (snd (r m))"
    using IH by (auto elim: rows_ge_mono)
  have step: "r (Suc m) = interleave_symbol bp n (m * n) (fst (r m), snd (r m))"
    by (simp add: r_def)
  note run = interleave_symbol_run [OF assms(1) ge assms(4), folded step]
  have "snd (r (Suc m)) ! ss ! (sym_perm bp n ss k + q * n) = parser ! ss ! (k + q * n)"
    if "q < Suc m" "k < n" for q k
  proof (cases "q = m")
    case True
    then show ?thesis using run(1) [OF that(2)] rest [of "k + m * n"] by simp
  next
    case False
    then have q: "q < m" using that(1) by simp
    have "sym_perm bp n ss k < n" by (rule bij_less [OF sym_perm_bij [OF assms(1)] that(2)])
    moreover have "q * n + n \<le> m * n" using q mult_le_mono1 [of "Suc q" m n] by simp
    ultimately have "sym_perm bp n ss k + q * n < m * n" by simp
    then show ?thesis using run(2) old [OF q that(2)] by simp
  qed
  moreover have "fst (r (Suc m)) ! ss ! q = parser ! ss ! q" if "Suc m * n \<le> q" for q
    using run(3) [of q] rest [of q] that by simp
  ultimately show ?case using run(4,5) IH by simp
qed

lemma stream_parser_nth:
  assumes "rows_ge len parser" "ss < N_STS" "k < len"
  shows "stream_parser s es len output parser ! ss ! k = output ! parse_src s es ss k"
proof -
  have "inj_on (\<lambda>k. k) {..<len}" by (simp add: inj_on_def)
  moreover have "ss < length parser" "k < length (parser ! ss)" using assms by (auto simp: rows_ge_def)
  ultimately show ?thesis
    unfolding stream_parser_def fold_fold_nest(2)
    using assms(2,3) nest_written(2) [where f = "\<lambda>_ k. k"] by blast
qed

lemma rows_ge_stream_parser [simp]:
  "rows_ge l (stream_parser s es len output parser) = rows_ge l parser"
  by (simp add: stream_parser_def fold_fold_nest)

lemma parse_src_one:
  "parse_src s 1 ss k = ss * s + N_STS * s * (k div s) + k mod s"
  "parse_src s (Suc 0) ss k = ss * s + N_STS * s * (k div s) + k mod s"
  by (simp_all add: parse_src_def Let_def)

lemma parse_src_parts:
  fixes k :: nat
  assumes "0 < s" "ss < N_STS"
  defines "j \<equiv> parse_src s 1 ss k"
  shows "j div (N_STS * s) = k div s" and "j div s mod N_STS = ss" and "j mod s = k mod s"
proof -
  have k: "k mod s < s" using assms(1) by simp
  have pos: "0 < N_STS" by (simp add: N_STS_def)
  have j: "j = s * (ss + N_STS * (k div s)) + k mod s"
    by (simp add: j_def parse_src_one algebra_simps)
  have js: "j div s = ss + N_STS * (k div s)" and "j mod s = k mod s"
    unfolding j using k by (simp_all add: div_mult_self1_is_m)
  then show "j div s mod N_STS = ss" and "j mod s = k mod s" using assms(2) by simp_all
  have "j div (N_STS * s) = j div s div N_STS"
    by (simp add: div_mult2_eq [symmetric] mult.commute)
  also have "\<dots> = k div s" using js assms(2) pos by simp
  finally show "j div (N_STS * s) = k div s" .
qed

definition parse_inv :: "nat \<Rightarrow> nat \<Rightarrow> nat \<times> nat" where
  "parse_inv s j = (j div s mod N_STS, s * (j div (N_STS * s)) + j mod s)"

lemma parse_src_inverse:
  assumes "0 < s"
  shows "parse_src s 1 (fst (parse_inv s j)) (snd (parse_inv s j)) = j"
proof -
  have "s * (j div s) + j mod s = j" by simp
  moreover have "j div s = N_STS * (j div s div N_STS) + j div s mod N_STS" by simp
  moreover have "j div s div N_STS = j div (N_STS * s)" by (simp add: div_mult2_eq [symmetric] mult.commute)
  ultimately have "s * (N_STS * (j div (N_STS * s)) + j div s mod N_STS) + j mod s = j" by simp
  then show ?thesis using assms by (simp add: parse_src_one parse_inv_def algebra_simps)
qed

lemma parse_inv_range:
  assumes "0 < s" "s dvd n" "j < N_STS * n"
  shows "fst (parse_inv s j) < N_STS \<and> snd (parse_inv s j) < n"
proof -
  obtain t where t: "n = s * t" using assms(2) ..
  have pos: "0 < N_STS" by (simp add: N_STS_def)
  have "j < t * (N_STS * s)" using assms(3) by (simp add: t mult_ac)
  then have "j div (N_STS * s) < t" using pos assms(1) by (simp add: div_less_iff_less_mult)
  then have "s * (j div (N_STS * s)) + s \<le> s * t"
    using mult_le_mono2 [of "Suc (j div (N_STS * s))" t s] by simp
  moreover have "j mod s < s" using assms(1) by simp
  ultimately show ?thesis using pos t by (simp add: parse_inv_def)
qed

lemma parse_src_bij:
  assumes "0 < s" "s dvd n"
  shows "bij_betw (\<lambda>(ss, k). parse_src s 1 ss k) ({..<N_STS} \<times> {..<n}) {..<N_STS * n}"
proof (rule bij_betw_byWitness [where f' = "parse_inv s"])
  obtain t where t: "n = s * t" using assms(2) ..
  have pos: "0 < N_STS" by (simp add: N_STS_def)
  show "\<forall>a \<in> {..<N_STS} \<times> {..<n}. parse_inv s ((\<lambda>(ss, k). parse_src s 1 ss k) a) = a"
    using parse_src_parts [OF assms(1)] by (auto simp: parse_inv_def)
  show "\<forall>j \<in> {..<N_STS * n}. (\<lambda>(ss, k). parse_src s 1 ss k) (parse_inv s j) = j"
    using parse_src_inverse [OF assms(1)] by (simp add: split_beta)
  have "parse_src s 1 ss k < N_STS * n" if ss: "ss < N_STS" and k: "k < n" for ss k
  proof -
    have "k div s < t" using k t assms(1) by (simp add: less_mult_imp_div_less mult.commute)
    then have "parse_src s 1 ss k div (N_STS * s) < t"
      using parse_src_parts(1) [OF assms(1) ss] by simp
    then have "parse_src s 1 ss k < t * (N_STS * s)"
      using pos assms(1) by (simp add: div_less_iff_less_mult)
    then show ?thesis by (simp add: t mult_ac)
  qed
  then show "(\<lambda>(ss, k). parse_src s 1 ss k) ` ({..<N_STS} \<times> {..<n}) \<subseteq> {..<N_STS * n}"
    by auto
  have "parse_inv s j \<in> {..<N_STS} \<times> {..<n}" if j: "j < N_STS * n" for j
    using parse_inv_range [OF assms j] by (simp add: mem_Times_iff)
  then show "parse_inv s ` {..<N_STS * n} \<subseteq> {..<N_STS} \<times> {..<n}"
    by (intro image_subsetI) (simp only: lessThan_iff)
qed

lemma parse_src_symbol:
  assumes "0 < s" "s dvd n"
  shows "parse_src s 1 ss (k + q * n) = parse_src s 1 ss k + q * (N_STS * n)"
proof -
  obtain t where t: "n = s * t" using assms(2) ..
  have e: "k + q * n = k + s * (q * t)" by (simp add: t mult_ac)
  have "(k + q * n) div s = k div s + q * t" "(k + q * n) mod s = k mod s"
    unfolding e using assms(1) by simp_all
  then show ?thesis by (simp add: parse_src_one t algebra_simps)
qed

section \<open>The encoder and the table\<close>

lemma mcs_row_params:
  assumes "MCS g < 10"
  defines "m \<equiv> mcs_table_for_20M g"
  shows "row_params (n_bpscs m) (n_cbps m div N_STS)" and "N_STS * (n_cbps m div N_STS) = n_cbps m"
    and "stream_s (n_bpscs m) dvd n_cbps m div N_STS"
proof -
  have c: "n_cbps m = N_STS * (26 * (9 * n_bpscs m))" and b: "n_bpscs m \<in> {1, 2, 4, 6, 8}"
    unfolding m_def using assms(1) by (rule mcs_cbps_bpscs, rule mcs_bpscs_cases)
  have d: "n_cbps m div N_STS = 26 * (9 * n_bpscs m)" by (simp add: c N_STS_def)
  show "row_params (n_bpscs m) (n_cbps m div N_STS)" unfolding row_params_def d using b by simp
  show "N_STS * (n_cbps m div N_STS) = n_cbps m" by (simp add: c N_STS_def)
  show "stream_s (n_bpscs m) dvd n_cbps m div N_STS"
    unfolding d using stream_s_dvd [OF b] by (rule dvd_mult)
qed

text \<open>The code bits of a frame, as both encoders leave them at the start of their output.\<close>

definition frame_bits :: "globals \<Rightarrow> byte list \<Rightarrow> byte list" where
  "frame_bits g dat = map of_bool (puncture (rate_type (mcs_table_for_20M g)) 0
     (conv_out (replicate 7 False) (take (scr_valid g + 6) (bytes_bits dat))))"

text \<open>Length of a row of \<open>code_out\<close>, the argument \<open>CodeLength\<close>.\<close>

definition row_len :: "globals \<Rightarrow> nat" where
  "row_len g = frame_syms g * n_cbps (mcs_table_for_20M g) div N_STS"

lemma row_len_eq: "MCS g < 10 \<Longrightarrow>
    row_len g = frame_syms g * (n_cbps (mcs_table_for_20M g) div N_STS)"
  unfolding row_len_def by (metis div_mult_swap dvd_triv_left mcs_row_params(2))

lemma row_len_frame: "MCS g < 10 \<Longrightarrow> row_len g * N_STS = frame_code g"
  using mcs_row_params(2) [of g] by (simp add: row_len_eq frame_code_def mult_ac)

lemma encoder_ref_output:
  assumes "MCS g < 10" "scr_len g + 1 \<le> length dat" "row_len g * N_STS + 24 \<le> length buf"
  shows "\<exists>output. (case ccodedot11_encode code_table (scr_len g + 1) dat (rate_type (mcs_table_for_20M g))
      of None \<Rightarrow> None | Some outs \<Rightarrow> write_prefix buf outs) = Some output
    \<and> BCC_encoder_OPT bcc_table g dat (scr_len g) buf = Some output
    \<and> take (frame_code g) output = frame_bits g dat"
proof -
  have p: "rate_type (mcs_table_for_20M g) \<in> modes" by (rule mcs_rate_modes [OF assms(1)])
  have "frame_code g + 24 \<le> length buf"
    using assms(3) row_len_frame [OF assms(1)] by simp
  from encoder_opt_prefix [OF assms(1,2) this] obtain b where
    b: "BCC_encoder_OPT bcc_table g dat (scr_len g) buf = Some b"
      "take (frame_code g) b = frame_bits g dat"
    unfolding frame_bits_def by blast
  have "check_BCCcode bcc_table (scr_len g + 1) dat 0 (rate_type (mcs_table_for_20M g))
      = ccodedot11_encode code_table (scr_len g + 1) dat (rate_type (mcs_table_for_20M g))"
    by (simp add: check_spec [OF p holds_win_zero] encode_spec [OF p])
  with b show ?thesis by (simp add: BCC_encoder_OPT_def)
qed

lemma encoder_ref_rows:
  assumes "MCS g < 10" "scr_len g + 1 \<le> length dat" "row_len g * N_STS + 24 \<le> length buf"
    and "rows_ge (row_len g) junk" "rows_ge (row_len g) code_out"
  defines "m \<equiv> mcs_table_for_20M g"
  defines "n \<equiv> n_cbps m div N_STS"
  shows "\<exists>rows. BCC_encoder code_table g dat (scr_len g) (frame_syms g) code_out (row_len g) buf junk
      = Some rows
    \<and> (\<forall>ss < N_STS. \<forall>q < frame_syms g. \<forall>k < n. rows ! ss ! (sym_perm (n_bpscs m) n ss k + q * n)
        = frame_bits g dat ! (parse_src (stream_s (n_bpscs m)) 1 ss k + q * n_cbps m))"
proof -
  note pars = mcs_row_params [OF assms(1), folded m_def, folded n_def]
  obtain buf2 where buf2: "(case ccodedot11_encode code_table (scr_len g + 1) dat
        (rate_type (mcs_table_for_20M g)) of None \<Rightarrow> None | Some outs \<Rightarrow> write_prefix buf outs)
        = Some buf2"
    and bits: "take (frame_code g) buf2 = frame_bits g dat"
    using encoder_ref_output [OF assms(1-3)] by blast
  then obtain outs where enc: "ccodedot11_encode code_table (scr_len g + 1) dat
        (rate_type (mcs_table_for_20M g)) = Some outs" and wr: "write_prefix buf outs = Some buf2"
    by (auto split: option.splits)
  let ?parser = "stream_parser (stream_s (n_bpscs m)) 1 (row_len g) buf2 junk"
  let ?r = "fold (\<lambda>sym. interleave_symbol (n_bpscs m) n (sym * n)) [0..<frame_syms g] (?parser, code_out)"
  have len: "row_len g = frame_syms g * n" unfolding n_def m_def by (rule row_len_eq [OF assms(1)])
  have "BCC_encoder code_table g dat (scr_len g) (frame_syms g) code_out (row_len g) buf junk
      = Some (snd ?r)"
    using enc wr mcs_n_es [OF assms(1)] by (simp add: BCC_encoder_def Let_def m_def n_def)
  moreover have "snd ?r ! ss ! (sym_perm (n_bpscs m) n ss k + q * n)
      = frame_bits g dat ! (parse_src (stream_s (n_bpscs m)) 1 ss k + q * n_cbps m)"
    if ss: "ss < N_STS" and q: "q < frame_syms g" and k: "k < n" for ss q k
  proof -
    let ?src = "parse_src (stream_s (n_bpscs m)) 1 ss"
    have kq: "k + q * n < row_len g"
      using k q mult_le_mono1 [of "Suc q" "frame_syms g" n] by (simp add: len)
    have "snd ?r ! ss ! (sym_perm (n_bpscs m) n ss k + q * n) = ?parser ! ss ! (k + q * n)"
      using interleave_symbols_run [OF pars(1), of "frame_syms g" ?parser code_out ss "frame_syms g"]
        assms(4,5) ss q k by (simp add: len)
    also have "\<dots> = buf2 ! ?src (k + q * n)"
      by (rule stream_parser_nth [OF assms(4) ss kq])
    also have "?src (k + q * n) = ?src k + q * n_cbps m"
      using parse_src_symbol [OF stream_s_pos pars(3)] pars(2) by simp
    also have "buf2 ! \<dots> = frame_bits g dat ! \<dots>"
    proof -
      have "(\<lambda>(ss, k). parse_src (stream_s (n_bpscs m)) 1 ss k) (ss, k) \<in> {..<N_STS * n}"
        using parse_src_bij [OF stream_s_pos pars(3)] ss k by (blast dest: bij_betwE)
      then have "?src k < n_cbps m" using pars(2) by simp
      then have "?src k + q * n_cbps m < frame_code g"
        using q mult_le_mono1 [of "Suc q" "frame_syms g" "n_cbps m"]
        by (simp add: frame_code_def m_def)
      then show ?thesis using bits by (metis nth_take)
    qed
    finally show ?thesis .
  qed
  ultimately show ?thesis by blast
qed

lemma stream_table_entry:
  assumes "row_params bp n" "stream_s bp dvd n" "rows_ge n junk" "rows_ge n code_in"
    and "ss < N_STS" "k < n"
  shows "generate_stream_code_in_table bp (N_STS * n) 1 junk code_in ! ss ! sym_perm bp n ss k
    = of_nat (parse_src (stream_s bp) 1 ss k)"
proof -
  let ?output = "map of_nat [0..<n * N_STS] :: int16 list"
  let ?parser = "stream_parser (stream_s bp) 1 n ?output junk"
  have n: "N_STS * n div N_STS = n" by (simp add: N_STS_def)
  have ge: "rows_ge (0 + n) ?parser" "rows_ge (0 + n) code_in" using assms(3,4) by simp_all
  have "snd (interleave_symbol bp n 0 (?parser, code_in)) ! ss ! sym_perm bp n ss k = ?parser ! ss ! k"
    using interleave_symbol_run(1) [OF assms(1) ge assms(5,6)] by simp
  also have "\<dots> = ?output ! parse_src (stream_s bp) 1 ss k"
    by (rule stream_parser_nth [OF assms(3,5,6)])
  also have "\<dots> = of_nat (parse_src (stream_s bp) 1 ss k)"
  proof -
    have "(\<lambda>(ss, k). parse_src (stream_s bp) 1 ss k) (ss, k) \<in> {..<N_STS * n}"
      using parse_src_bij [OF stream_s_pos assms(2)] assms(5,6) by (blast dest: bij_betwE)
    then show ?thesis by (simp add: mult.commute)
  qed
  finally show ?thesis by (simp add: generate_stream_code_in_table_def n)
qed

section \<open>Properties\<close>

text \<open>The table of one symbol for a configuration.\<close>

definition stream_table :: "globals \<Rightarrow> int16 list list \<Rightarrow> int16 list list \<Rightarrow> int16 list list" where
  "stream_table g junk code_in = (let m = mcs_table_for_20M g in
     generate_stream_code_in_table (n_bpscs m) (n_cbps m) (n_es m) junk code_in)"

lemma mcs_cbps_max: "MCS g < 10 \<Longrightarrow> n_cbps (mcs_table_for_20M g) \<le> 7488"
  by (cases "MCS g" rule: less10_cases)
    (simp_all add: mcs_table_for_20M_def mcs_tabs param_simps)

lemma stream_table_nth:
  assumes "MCS g < 10"
  defines "m \<equiv> mcs_table_for_20M g"
  defines "n \<equiv> n_cbps m div N_STS"
  assumes "rows_ge n junk" "rows_ge n code_in" "ss < N_STS" "k < n"
  shows "unat (stream_table g junk code_in ! ss ! sym_perm (n_bpscs m) n ss k)
    = parse_src (stream_s (n_bpscs m)) 1 ss k"
proof -
  note pars = mcs_row_params [OF assms(1), folded m_def, folded n_def]
  have "stream_table g junk code_in ! ss ! sym_perm (n_bpscs m) n ss k
      = of_nat (parse_src (stream_s (n_bpscs m)) 1 ss k)"
    using stream_table_entry [OF pars(1,3) assms(4-7)] pars(2) mcs_n_es [OF assms(1)]
    by (simp add: stream_table_def Let_def m_def)
  moreover have "(\<lambda>(ss, k). parse_src (stream_s (n_bpscs m)) 1 ss k) (ss, k) \<in> {..<N_STS * n}"
    using parse_src_bij [OF stream_s_pos pars(3)] assms(6,7) by (blast dest: bij_betwE)
  then have "parse_src (stream_s (n_bpscs m)) 1 ss k < 7488"
    using pars(2) mcs_cbps_max [OF assms(1)] by (simp add: m_def)
  ultimately show ?thesis by (simp add: unat_of_nat)
qed

lemma stream_table_less:
  assumes "MCS g < 10"
  defines "m \<equiv> mcs_table_for_20M g"
  defines "n \<equiv> n_cbps m div N_STS"
  assumes "rows_ge n junk" "rows_ge n code_in" "ss < N_STS" "r < n"
  shows "unat (stream_table g junk code_in ! ss ! r) < n_cbps m"
proof -
  note pars = mcs_row_params [OF assms(1), folded m_def, folded n_def]
  obtain k where k: "k < n" "r = sym_perm (n_bpscs m) n ss k"
    using sym_perm_bij [OF pars(1), of ss] assms(7) by (auto simp: bij_betw_def image_iff set_eq_iff)
  have "(\<lambda>(ss, k). parse_src (stream_s (n_bpscs m)) 1 ss k) (ss, k) \<in> {..<N_STS * n}"
    using parse_src_bij [OF stream_s_pos pars(3)] assms(6) k(1) by (blast dest: bij_betwE)
  then show ?thesis
    using stream_table_nth [OF assms(1), folded m_def, folded n_def, OF assms(4-6) k(1)] pars(2)
    by (simp add: k(2))
qed

lemma BCC_encoder_rows:
  assumes "BCC_encoder tab g dat scrlen nsym code_out L buf junk = Some rows"
  shows "rows_ge len rows = rows_ge len code_out"
proof -
  have "rows_ge len (snd (fold (\<lambda>q. interleave_symbol bp n (q * n)) qs pc)) = rows_ge len (snd pc)"
    for bp n qs and pc :: "byte list list \<times> byte list list"
    by (induction qs arbitrary: pc) (simp_all add: interleave_symbol_def split_beta Let_def)
  then show ?thesis
    using assms by (auto simp: BCC_encoder_def Let_def split: option.splits)
qed

lemma interleave_table_rows:
  assumes "MCS g < 10" "scr_len g + 1 \<le> length dat" "row_len g * N_STS + 24 \<le> length buf"
    and "rows_ge (row_len g) junk" "rows_ge (row_len g) code_out"
  defines "m \<equiv> mcs_table_for_20M g"
  defines "n \<equiv> n_cbps m div N_STS"
  assumes "rows_ge n tjunk" "rows_ge n code_in"
  shows "\<exists>rows outs.
      BCC_encoder code_table g dat (scr_len g) (frame_syms g) code_out (row_len g) buf junk = Some rows
    \<and> BCC_encoder_OPT bcc_table g dat (scr_len g) buf = Some outs
    \<and> length outs = length buf \<and> take (frame_code g) outs = frame_bits g dat
    \<and> (\<forall>ss < N_STS. \<forall>q < frame_syms g. \<forall>r < n.
        rows ! ss ! (r + q * n) = outs ! (unat (stream_table g tjunk code_in ! ss ! r) + q * n_cbps m))"
proof -
  let ?bp = "n_bpscs m"
  note pars = mcs_row_params [OF assms(1), folded m_def, folded n_def]
  obtain rows where rows: "BCC_encoder code_table g dat (scr_len g) (frame_syms g) code_out
        (row_len g) buf junk = Some rows"
    and cells: "\<And>ss q k. ss < N_STS \<Longrightarrow> q < frame_syms g \<Longrightarrow> k < n \<Longrightarrow>
        rows ! ss ! (sym_perm ?bp n ss k + q * n)
          = frame_bits g dat ! (parse_src (stream_s ?bp) 1 ss k + q * n_cbps m)"
    using encoder_ref_rows [OF assms(1-5)] unfolding m_def n_def by blast
  obtain outs where outs: "BCC_encoder_OPT bcc_table g dat (scr_len g) buf = Some outs"
    and bits: "take (frame_code g) outs = frame_bits g dat"
    using encoder_ref_output [OF assms(1-3)] by blast
  have "rows ! ss ! (r + q * n) = outs ! (unat (stream_table g tjunk code_in ! ss ! r) + q * n_cbps m)"
    if ss: "ss < N_STS" and q: "q < frame_syms g" and r: "r < n" for ss q r
  proof -
    obtain k where k: "k < n" "r = sym_perm ?bp n ss k"
      using sym_perm_bij [OF pars(1), of ss] r by (auto simp: bij_betw_def image_iff set_eq_iff)
    let ?j = "parse_src (stream_s ?bp) 1 ss k"
    have T: "unat (stream_table g tjunk code_in ! ss ! r) = ?j"
      using stream_table_nth [OF assms(1), folded m_def, folded n_def, OF assms(8,9) ss k(1)] k(2) by simp
    have "(\<lambda>(ss, k). parse_src (stream_s ?bp) 1 ss k) (ss, k) \<in> {..<N_STS * n}"
      using parse_src_bij [OF stream_s_pos pars(3)] ss k(1) by (blast dest: bij_betwE)
    then have "?j < n_cbps m" using pars(2) by simp
    then have "?j + q * n_cbps m < frame_code g"
      using q mult_le_mono1 [of "Suc q" "frame_syms g" "n_cbps m"] by (simp add: frame_code_def m_def)
    then have "frame_bits g dat ! (?j + q * n_cbps m) = outs ! (?j + q * n_cbps m)"
      using bits by (metis nth_take)
    then show ?thesis using cells [OF ss q k(1)] T unfolding k(2) by simp
  qed
  moreover have "length outs = length buf"
    using outs by (auto simp: BCC_encoder_OPT_def write_prefix_def split: option.splits if_splits)
  ultimately show ?thesis using rows outs bits by blast
qed

text \<open>The interleaver is a permutation. At every rate the three index maps are
  bijections of the positions of a row, and the entries of the table that
  \<open>generate_stream_code_in_table\<close> fills are, over the four streams and their positions, every
  coded bit number of a symbol exactly once.\<close>

theorem interleaver_bijection:
  assumes "MCS g < 10"
  defines "m \<equiv> mcs_table_for_20M g"
  defines "n \<equiv> n_cbps m div N_STS"
  assumes "rows_ge n junk" "rows_ge n code_in"
  shows "bij_betw (perm1 (n_bpscs m)) {..<n} {..<n}
    \<and> bij_betw (perm2 (stream_s (n_bpscs m)) n) {..<n} {..<n}
    \<and> (\<forall>ss. bij_betw (perm3 (n_bpscs m) n ss) {..<n} {..<n})
    \<and> bij_betw (\<lambda>(ss, r). unat (stream_table g junk code_in ! ss ! r))
        ({..<N_STS} \<times> {..<n}) {..<n_cbps m}"
proof -
  let ?bp = "n_bpscs m" and ?T = "stream_table g junk code_in"
  note pars = mcs_row_params [OF assms(1), folded m_def, folded n_def]
  have perm: "bij_betw (\<lambda>(ss, k). (ss, sym_perm ?bp n ss k)) ({..<N_STS} \<times> {..<n}) ({..<N_STS} \<times> {..<n})"
  proof (rule bij_betw_imageI)
    have inj: "inj_on (sym_perm ?bp n ss) {..<n}" and im: "sym_perm ?bp n ss ` {..<n} = {..<n}" for ss
      using sym_perm_bij [OF pars(1), of ss] by (auto simp: bij_betw_def)
    show "inj_on (\<lambda>(ss, k). (ss, sym_perm ?bp n ss k)) ({..<N_STS} \<times> {..<n})"
      using inj by (auto simp: inj_on_def)
    show "(\<lambda>(ss, k). (ss, sym_perm ?bp n ss k)) ` ({..<N_STS} \<times> {..<n}) = {..<N_STS} \<times> {..<n}"
      using im by (auto simp: image_iff set_eq_iff)
  qed
  have src: "bij_betw (\<lambda>(ss, k). parse_src (stream_s ?bp) 1 ss k) ({..<N_STS} \<times> {..<n}) {..<n_cbps m}"
    using parse_src_bij [OF stream_s_pos pars(3)] by (simp only: pars(2))
  have "bij_betw ((\<lambda>(ss, r). unat (?T ! ss ! r)) \<circ> (\<lambda>(ss, k). (ss, sym_perm ?bp n ss k)))
      ({..<N_STS} \<times> {..<n}) {..<n_cbps m}"
  proof (rule bij_betw_cong [THEN iffD1, OF _ src])
    fix a
    assume "a \<in> {..<N_STS} \<times> {..<n}"
    then show "(\<lambda>(ss, k). parse_src (stream_s ?bp) 1 ss k) a
        = ((\<lambda>(ss, r). unat (?T ! ss ! r)) \<circ> (\<lambda>(ss, k). (ss, sym_perm ?bp n ss k))) a"
      using stream_table_nth [OF assms(1), folded m_def, folded n_def, OF assms(4,5)] by auto
  qed
  then have "bij_betw (\<lambda>(ss, r). unat (?T ! ss ! r)) ({..<N_STS} \<times> {..<n}) {..<n_cbps m}"
    by (rule bij_betw_comp_iff [OF perm, THEN iffD2])
  then show ?thesis using row_params_bij [OF pars(1)] by blast
qed

theorem interleaver_bijection_witness:
  "bij_betw (\<lambda>(ss, r). unat (stream_table globals0 (replicate 4 (replicate 1404 0))
      (replicate 4 (replicate 1404 0)) ! ss ! r)) ({..<4} \<times> {..<1404}) {..<5616}"
proof -
  have m: "MCS globals0 < 10" by (simp add: globals0_def)
  have c: "n_cbps (mcs_table_for_20M globals0) = 5616"
    by (simp add: globals0_def mcs_table_for_20M_def mcs_tabs param_simps)
  have "rows_ge (n_cbps (mcs_table_for_20M globals0) div N_STS) (replicate 4 (replicate 1404 0))"
    by (simp add: rows_ge_def c N_STS_def)
  from interleaver_bijection [OF m this this] show ?thesis by (simp add: c N_STS_def)
qed

text \<open>C9: the table-driven interleaver agrees with the direct one. On the same scrambled
  bytes \<open>BCC_encoder\<close> and \<open>BCC_encoder_OPT\<close> both succeed, and bit \<open>r\<close> of symbol \<open>q\<close> in
  stream \<open>ss\<close> of the interleaved rows is the bit of the encoder's output that the table
  names, \<open>table[ss][r] + q * N_CBPS\<close>.\<close>

theorem interleave_table_equiv:
  assumes "MCS g < 10" "scr_len g + 1 \<le> length dat" "row_len g * N_STS + 24 \<le> length buf"
    and "rows_ge (row_len g) junk" "rows_ge (row_len g) code_out"
  defines "m \<equiv> mcs_table_for_20M g"
  defines "n \<equiv> n_cbps m div N_STS"
  assumes "rows_ge n tjunk" "rows_ge n code_in"
    and "init_BCCencode_table (replicate 128 0) BCCTable0 = (tab, bcc)"
  shows "\<exists>rows outs.
      BCC_encoder tab g dat (scr_len g) (frame_syms g) code_out (row_len g) buf junk = Some rows
    \<and> BCC_encoder_OPT bcc g dat (scr_len g) buf = Some outs
    \<and> (\<forall>ss < N_STS. \<forall>q < frame_syms g. \<forall>r < n.
        rows ! ss ! (r + q * n) = outs ! (unat (stream_table g tjunk code_in ! ss ! r) + q * n_cbps m))"
proof -
  have "tab = code_table" "bcc = bcc_table"
    using assms(10) init_table_fst by (simp_all add: bcc_table_def)
  then show ?thesis
    using interleave_table_rows [OF assms(1-5), folded m_def, folded n_def, OF assms(8,9)] by blast
qed

theorem interleave_table_equiv_witness:
  "\<exists>rows outs.
      BCC_encoder (fst (init_BCCencode_table (replicate 128 0) BCCTable0)) globals0 (replicate 937 5)
        936 2 (replicate 4 (replicate 2808 0)) 2808 (replicate 11256 0) (replicate 4 (replicate 2808 0))
        = Some rows
    \<and> BCC_encoder_OPT (snd (init_BCCencode_table (replicate 128 0) BCCTable0)) globals0
        (replicate 937 5) 936 (replicate 11256 0) = Some outs
    \<and> rows ! 3 ! (7 + 1 * 1404) = outs ! (unat (stream_table globals0 (replicate 4 (replicate 1404 0))
        (replicate 4 (replicate 1404 0)) ! 3 ! 7) + 1 * 5616)"
proof -
  let ?junk = "replicate 4 (replicate 2808 0) :: byte list list"
  let ?tjunk = "replicate 4 (replicate 1404 0) :: int16 list list"
  have m: "MCS globals0 < 10" by (simp add: globals0_def)
  have c: "n_cbps (mcs_table_for_20M globals0) = 5616"
    by (simp add: globals0_def mcs_table_for_20M_def mcs_tabs param_simps)
  have l: "scr_len globals0 = 936" "frame_syms globals0 = 2" "row_len globals0 = 2808"
    by (simp_all add: scr_len_def frame_code_def frame_syms_def GenInit_def Let_def globals0_def
        mcs_table_for_20M_def mcs_tabs param_simps ceil_div_def num_sym_def row_len_def)
  have "scr_len globals0 + 1 \<le> length (replicate 937 (5 :: byte))"
    "row_len globals0 * N_STS + 24 \<le> length (replicate 11256 (0 :: byte))"
    "rows_ge (row_len globals0) ?junk"
    "rows_ge (n_cbps (mcs_table_for_20M globals0) div N_STS) ?tjunk"
    by (simp_all add: l c N_STS_def rows_ge_def)
  from interleave_table_equiv [OF m this(1,2,3,3,4,4) prod.collapse [symmetric]]
  obtain rows outs where
    "BCC_encoder (fst (init_BCCencode_table (replicate 128 0) BCCTable0)) globals0 (replicate 937 5)
        936 2 (replicate 4 (replicate 2808 0)) 2808 (replicate 11256 0) (replicate 4 (replicate 2808 0))
        = Some rows"
    "BCC_encoder_OPT (snd (init_BCCencode_table (replicate 128 0) BCCTable0)) globals0
        (replicate 937 5) 936 (replicate 11256 0) = Some outs"
    and cells: "\<And>ss q r. ss < 4 \<Longrightarrow> q < 2 \<Longrightarrow> r < 1404 \<Longrightarrow> rows ! ss ! (r + q * 1404)
        = outs ! (unat (stream_table globals0 ?tjunk ?tjunk ! ss ! r) + q * 5616)"
    by (auto simp: l c N_STS_def)
  with cells [of 3 1 7] show ?thesis by (auto simp: N_STS_def)
qed

text \<open>A receiver's deinterleaver: coded bit \<open>j\<close> of symbol \<open>q\<close> is looked up at its place.\<close>

definition deinterleave :: "globals \<Rightarrow> byte list list \<Rightarrow> byte list" where
  "deinterleave g rows =
     (let m = mcs_table_for_20M g; n = n_cbps m div N_STS in
      map (\<lambda>i. let q = i div n_cbps m; (ss, k) = parse_inv (stream_s (n_bpscs m)) (i mod n_cbps m)
               in rows ! ss ! (sym_perm (n_bpscs m) n ss k + q * n)) [0..<frame_code g])"

text \<open>Nothing is lost in the encoder. From the rows that \<open>BCC_encoder\<close> returns a receiver
  recovers the coded bits of the whole frame in their order; whatever the rows, the encoder's
  output buffer and the parser rows held before.\<close>

theorem interleave_roundtrip:
  assumes "MCS g < 10" "scr_len g + 1 \<le> length dat" "row_len g * N_STS + 24 \<le> length buf"
    and "rows_ge (row_len g) junk" "rows_ge (row_len g) code_out"
  shows "\<exists>rows. BCC_encoder (ccodedot11_init (replicate 128 0)) g dat (scr_len g) (frame_syms g)
      code_out (row_len g) buf junk = Some rows
    \<and> deinterleave g rows = map of_bool (puncture (rate_type (mcs_table_for_20M g)) 0
        (conv_out (replicate 7 False)
          (take (frame_syms g * n_dbps (mcs_table_for_20M g)) (bytes_bits dat))))"
proof -
  define m where "m = mcs_table_for_20M g"
  define n where "n = n_cbps m div N_STS"
  note pars = mcs_row_params [OF assms(1), folded m_def, folded n_def]
  obtain rows where rows: "BCC_encoder code_table g dat (scr_len g) (frame_syms g) code_out
        (row_len g) buf junk = Some rows"
    and cells: "\<And>ss q k. ss < N_STS \<Longrightarrow> q < frame_syms g \<Longrightarrow> k < n \<Longrightarrow>
        rows ! ss ! (sym_perm (n_bpscs m) n ss k + q * n)
          = frame_bits g dat ! (parse_src (stream_s (n_bpscs m)) 1 ss k + q * n_cbps m)"
    using encoder_ref_rows [OF assms] unfolding m_def n_def by blast
  have len: "length (frame_bits g dat) = frame_code g"
  proof -
    obtain outs where "take (frame_code g) outs = frame_bits g dat"
      using encoder_ref_output [OF assms(1-3)] by blast
    have "coded_len (rate_type m) (scr_valid g + 6) = frame_code g"
      unfolding scr_valid_tail [OF assms(1)] frame_code_def m_def
      by (rule coded_len_symbols(1) [OF assms(1)])
    moreover have "scr_valid g + 6 \<le> 8 * length dat"
      using frame_extra_bits [OF assms(1)] assms(2) by auto
    ultimately show ?thesis
      unfolding frame_bits_def m_def [symmetric]
      using length_puncture [OF mcs_rate_modes [OF assms(1)], folded m_def,
          of "conv_out (replicate 7 False) (take (scr_valid g + 6) (bytes_bits dat))" "scr_valid g + 6"]
      by simp
  qed
  have "deinterleave g rows = frame_bits g dat"
  proof (rule nth_equalityI)
    show "length (deinterleave g rows) = length (frame_bits g dat)"
      by (simp add: deinterleave_def len Let_def)
    fix i
    assume "i < length (deinterleave g rows)"
    then have i: "i < frame_code g" by (simp add: deinterleave_def Let_def)
    have pos: "0 < n_cbps m" using pars(2) row_params_pos [OF pars(1)] by (metis N_STS_def
          mult_pos_pos zero_less_numeral)
    obtain ss k where sk: "parse_inv (stream_s (n_bpscs m)) (i mod n_cbps m) = (ss, k)"
      by (cases "parse_inv (stream_s (n_bpscs m)) (i mod n_cbps m)")
    have "ss < N_STS \<and> k < n"
      using parse_inv_range [OF stream_s_pos pars(3), of "i mod n_cbps m"] pars(2) pos sk by simp
    moreover have "i div n_cbps m < frame_syms g"
      using i pos by (simp add: frame_code_def m_def div_less_iff_less_mult)
    moreover have "parse_src (stream_s (n_bpscs m)) 1 ss k = i mod n_cbps m"
      using parse_src_inverse [OF stream_s_pos, of "n_bpscs m" "i mod n_cbps m"] by (simp add: sk)
    ultimately show "deinterleave g rows ! i = frame_bits g dat ! i"
      using i by (simp add: deinterleave_def Let_def m_def [symmetric] n_def [symmetric] sk cells)
  qed
  with rows show ?thesis
    unfolding code_table_def frame_bits_def scr_valid_tail [OF assms(1)] by blast
qed

theorem interleave_roundtrip_witness:
  "\<exists>rows. BCC_encoder (ccodedot11_init (replicate 128 0)) globals0 (replicate 937 5)
        936 2 (replicate 4 (replicate 2808 0)) 2808 (replicate 11256 0) (replicate 4 (replicate 2808 0))
        = Some rows"
proof -
  let ?junk = "replicate 4 (replicate 2808 0) :: byte list list"
  have m: "MCS globals0 < 10" by (simp add: globals0_def)
  have l: "scr_len globals0 = 936" "frame_syms globals0 = 2" "row_len globals0 = 2808"
    by (simp_all add: scr_len_def frame_code_def frame_syms_def GenInit_def Let_def globals0_def
        mcs_table_for_20M_def mcs_tabs param_simps ceil_div_def num_sym_def row_len_def)
  have "scr_len globals0 + 1 \<le> length (replicate 937 (5 :: byte))"
    "row_len globals0 * N_STS + 24 \<le> length (replicate 11256 (0 :: byte))"
    "rows_ge (row_len globals0) ?junk"
    by (simp_all add: l N_STS_def rows_ge_def)
  from interleave_roundtrip [OF m this(1,2,3,3)] show ?thesis by (simp add: l) blast
qed

end
