(* ===== verification/Complex32.thy ===== *)
theory Complex32
  imports Prelude
begin

text \<open>
  Fixed-point complex numbers: the operations of \<^verbatim>\<open>typeDef/commonStructure.c\<close> on pairs
  of 16-bit integers with \<open>dotscale\<close> fraction bits, and the vector versions of
  \<^verbatim>\<open>intrinsics_interface/intrinsics_interface_v2.c\<close>. The AVX2 intrinsics are not code of
  this repository: they are the arguments \<open>mulhrs\<close>, \<open>add\<close> and \<open>sub\<close> (one 16-bit lane of
  \<open>_mm256_mulhrs_epi16\<close>, \<open>_mm256_add_epi16\<close>, \<open>_mm256_sub_epi16\<close>), and the locale \<open>avx2\<close>
  states what Intel documents of them.
\<close>

section \<open>Scalar operations\<close>

record complex32 =
  re :: int16
  im :: int16

definition cpx :: "int \<Rightarrow> int \<Rightarrow> complex32" where
  "cpx x y = \<lparr>re = word_of_int x, im = word_of_int y\<rparr>"

text \<open>The products are computed in \<open>int\<close>, shifted arithmetically and cut to 16 bits.\<close>

definition scale_down :: "nat \<Rightarrow> int \<Rightarrow> int16" where
  "scale_down dotscale t = ucast (signed_drop_bit dotscale (word_of_int t :: int32))"

definition multForComplex32 :: "nat \<Rightarrow> complex32 \<Rightarrow> complex32 \<Rightarrow> complex32" where
  "multForComplex32 dotscale ra rb =
     (let treal = sint (re ra) * sint (re rb) - sint (im ra) * sint (im rb);
          timag = sint (re ra) * sint (im rb) + sint (im ra) * sint (re rb)
      in \<lparr>re = scale_down dotscale treal, im = scale_down dotscale timag\<rparr>)"

definition addForComplex32 :: "complex32 \<Rightarrow> complex32 \<Rightarrow> complex32" where
  "addForComplex32 ra rb = \<lparr>re = word_of_int (sint (re ra) + sint (re rb)),
     im = word_of_int (sint (im ra) + sint (im rb))\<rparr>"

definition reduceForComplex32 :: "complex32 \<Rightarrow> complex32 \<Rightarrow> complex32" where
  "reduceForComplex32 ra rb = \<lparr>re = word_of_int (sint (re ra) - sint (re rb)),
     im = word_of_int (sint (im ra) - sint (im rb))\<rparr>"

text \<open>The versions through pointers; the result is the new value of \<open>*dst\<close>.\<close>

definition Add_Complex32 :: "complex32 \<Rightarrow> complex32 \<Rightarrow> complex32 \<Rightarrow> complex32" where
  "Add_Complex32 src1 src2 dst =
     (dst\<lparr>im := word_of_int (sint (im src1) + sint (im src2))\<rparr>)
       \<lparr>re := word_of_int (sint (re src1) + sint (re src2))\<rparr>"

definition Sub_Complex32 :: "complex32 \<Rightarrow> complex32 \<Rightarrow> complex32 \<Rightarrow> complex32" where
  "Sub_Complex32 src1 src2 dst =
     (dst\<lparr>im := word_of_int (sint (im src1) - sint (im src2))\<rparr>)
       \<lparr>re := word_of_int (sint (re src1) - sint (re src2))\<rparr>"

definition Multy_Complex32 :: "nat \<Rightarrow> complex32 \<Rightarrow> complex32 \<Rightarrow> complex32 \<Rightarrow> complex32" where
  "Multy_Complex32 dotscale ra rb dst =
     (let treal = sint (re ra) * sint (re rb) - sint (im ra) * sint (im rb);
          timag = sint (re ra) * sint (im rb) + sint (im ra) * sint (re rb)
      in (dst\<lparr>re := scale_down dotscale treal\<rparr>)\<lparr>im := scale_down dotscale timag\<rparr>)"

section \<open>Matrix product\<close>

definition multForMatrix :: "nat \<Rightarrow> complex32 list list \<Rightarrow> complex32 list \<Rightarrow> complex32 list
    \<Rightarrow> complex32 list" where
  "multForMatrix dotscale h x dest =
     fold (\<lambda>j dest. dest[j := fold (\<lambda>i temp. addForComplex32 temp
         (multForComplex32 dotscale (h ! i ! j) (x ! i))) [0..<4] (cpx 0 0)]) [0..<4] dest"

section \<open>Vector operations\<close>

definition Mult_complex32Vector_2 :: "(int16 \<Rightarrow> int16 \<Rightarrow> int16) \<Rightarrow> (int16 \<Rightarrow> int16 \<Rightarrow> int16)
    \<Rightarrow> (int16 \<Rightarrow> int16 \<Rightarrow> int16) \<Rightarrow> complex32 list \<Rightarrow> complex32 list \<Rightarrow> complex32 list \<Rightarrow> complex32 list" where
  "Mult_complex32Vector_2 mulhrs add sub a b dest =
     (let lanes = [0..<16];
          a_real = map (\<lambda>i. re (a ! i)) lanes; a_imag = map (\<lambda>i. im (a ! i)) lanes;
          b_real = map (\<lambda>i. re (b ! i)) lanes; b_imag = map (\<lambda>i. im (b ! i)) lanes;
          a_b_real = map2 mulhrs a_real b_real;
          a_b_imag = map2 mulhrs a_imag b_imag;
          a_real_b_imag = map2 mulhrs a_real b_imag;
          a_imag_b_real = map2 mulhrs a_imag b_real;
          dest_real = map2 sub a_b_real a_b_imag;
          dest_imag = map2 add a_real_b_imag a_imag_b_real
      in fold (\<lambda>i dest. dest[i := \<lparr>re = push_bit 2 (dest_real ! i), im = push_bit 2 (dest_imag ! i)\<rparr>])
           lanes dest)"

definition Add_complex32Vector_2 :: "(int16 \<Rightarrow> int16 \<Rightarrow> int16) \<Rightarrow> complex32 list \<Rightarrow> complex32 list
    \<Rightarrow> complex32 list \<Rightarrow> complex32 list" where
  "Add_complex32Vector_2 add a b dest =
     (let lanes = [0..<16];
          dest_real = map2 add (map (\<lambda>i. re (a ! i)) lanes) (map (\<lambda>i. re (b ! i)) lanes);
          dest_imag = map2 add (map (\<lambda>i. im (a ! i)) lanes) (map (\<lambda>i. im (b ! i)) lanes)
      in fold (\<lambda>i dest. dest[i := \<lparr>re = dest_real ! i, im = dest_imag ! i\<rparr>]) lanes dest)"

definition Sub_complex32Vector_2 :: "(int16 \<Rightarrow> int16 \<Rightarrow> int16) \<Rightarrow> complex32 list \<Rightarrow> complex32 list
    \<Rightarrow> complex32 list \<Rightarrow> complex32 list" where
  "Sub_complex32Vector_2 sub a b dest =
     (let lanes = [0..<16];
          dest_real = map2 sub (map (\<lambda>i. re (a ! i)) lanes) (map (\<lambda>i. re (b ! i)) lanes);
          dest_imag = map2 sub (map (\<lambda>i. im (a ! i)) lanes) (map (\<lambda>i. im (b ! i)) lanes)
      in fold (\<lambda>i dest. dest[i := \<lparr>re = dest_real ! i, im = dest_imag ! i\<rparr>]) lanes dest)"

text \<open>The four by four product: the sixteen products in one vector, then three vector sums
  of eight lanes that hold the real and imaginary parts of the four results in turn.\<close>

definition Mult_Matrix_AVX2_4 :: "(int16 \<Rightarrow> int16 \<Rightarrow> int16) \<Rightarrow> (int16 \<Rightarrow> int16 \<Rightarrow> int16)
    \<Rightarrow> (int16 \<Rightarrow> int16 \<Rightarrow> int16) \<Rightarrow> complex32 list list \<Rightarrow> complex32 list \<Rightarrow> complex32 list
    \<Rightarrow> complex32 list" where
  "Mult_Matrix_AVX2_4 mulhrs add sub h x dest =
     (let a = [h!0!0, h!1!0, h!2!0, h!3!0, h!0!1, h!1!1, h!2!1, h!3!1,
               h!0!2, h!1!2, h!2!2, h!3!2, h!0!3, h!1!3, h!2!3, h!3!3];
          b = [x!0, x!1, x!2, x!3, x!0, x!1, x!2, x!3, x!0, x!1, x!2, x!3, x!0, x!1, x!2, x!3];
          c = Mult_complex32Vector_2 mulhrs add sub a b (replicate 16 (cpx 0 0));
          c1 = [re (c!0), im (c!0), re (c!4), im (c!4), re (c!8), im (c!8), re (c!12), im (c!12)];
          c2 = [re (c!1), im (c!1), re (c!5), im (c!5), re (c!9), im (c!9), re (c!13), im (c!13)];
          c3 = [re (c!2), im (c!2), re (c!6), im (c!6), re (c!10), im (c!10), re (c!14), im (c!14)];
          c4 = [re (c!3), im (c!3), re (c!7), im (c!7), re (c!11), im (c!11), re (c!15), im (c!15)];
          temp1 = map2 add (map2 add (map2 add c1 c2) c3) c4
      in fold (\<lambda>i dest. dest[i := \<lparr>re = temp1 ! (2 * i), im = temp1 ! (2 * i + 1)\<rparr>]) [0..<4] dest)"

text \<open>Bytewise logic on 32 bytes; \<open>f\<close> is one byte of the intrinsic.\<close>

definition Logic_Vector_2 :: "(byte \<Rightarrow> byte \<Rightarrow> byte) \<Rightarrow> byte list \<Rightarrow> byte list \<Rightarrow> byte list \<Rightarrow> byte list" where
  "Logic_Vector_2 f a b dest =
     (let lanes = [0..<32];
          dest_i = map2 f (map (\<lambda>i. a ! i) lanes) (map (\<lambda>i. b ! i) lanes)
      in fold (\<lambda>i dest. dest[i := dest_i ! i]) lanes dest)"

definition Xor_Vector_2 :: "byte list \<Rightarrow> byte list \<Rightarrow> byte list \<Rightarrow> byte list" where
  "Xor_Vector_2 = Logic_Vector_2 (\<lambda>x y. x XOR y)"

definition Or_Vector_2 :: "byte list \<Rightarrow> byte list \<Rightarrow> byte list \<Rightarrow> byte list" where
  "Or_Vector_2 = Logic_Vector_2 (\<lambda>x y. x OR y)"

definition And_Vector_2 :: "byte list \<Rightarrow> byte list \<Rightarrow> byte list \<Rightarrow> byte list" where
  "And_Vector_2 = Logic_Vector_2 (\<lambda>x y. x AND y)"

section \<open>Exactness of the scalar operations\<close>

lemma sint_int16 [simp]: "- (2 ^ 15) \<le> x \<Longrightarrow> x < 2 ^ 15 \<Longrightarrow> sint (word_of_int x :: int16) = x"
  by (simp add: signed_of_int signed_take_bit_int_eq_self)

lemma sint_int32: "- (2 ^ 31) \<le> x \<Longrightarrow> x < 2 ^ 31 \<Longrightarrow> sint (word_of_int x :: int32) = x"
  by (simp add: signed_of_int signed_take_bit_int_eq_self)

lemma sint16_range: "- 32768 \<le> sint (x :: int16)" "sint (x :: int16) \<le> 32767"
  using sint_range_size [of x] by (simp_all add: word_size)

lemma ucast_word_of_sint: "ucast (w :: int32) = (word_of_int (sint w) :: int16)"
  by (rule bit_word_eqI) (simp add: bit_simps bit_word_of_int_iff)

lemma scale_down_13:
  assumes "- (2 ^ 28) \<le> t" "t < 2 ^ 28"
  shows "sint (scale_down 13 t) = t div 8192"
proof -
  have "sint (signed_drop_bit 13 (word_of_int t :: int32)) = t div 8192"
    using assms by (simp add: sint_signed_drop_bit_eq sint_int32 drop_bit_eq_div)
  moreover have "- 268435456 div 8192 \<le> t div 8192" "t div 8192 \<le> 268435455 div 8192"
    using assms by (intro zdiv_mono1; simp)+
  then have "- 32768 \<le> t div 8192" "t div 8192 < 32768" by simp_all
  ultimately show ?thesis by (simp add: scale_down_def ucast_word_of_sint)
qed

section \<open>The vector operations, lane by lane\<close>

lemma lanes_fill:
  assumes "length dest = n"
  shows "fold (\<lambda>i dest. dest[i := f i]) [0..<n] dest = map f [0..<n]"
  using fold_fill_const [OF assms] .

lemma Mult_lane:
  assumes "length dest = 16" "i < 16"
  shows "Mult_complex32Vector_2 mulhrs add sub a b dest ! i
    = \<lparr>re = push_bit 2 (sub (mulhrs (re (a!i)) (re (b!i))) (mulhrs (im (a!i)) (im (b!i)))),
       im = push_bit 2 (add (mulhrs (re (a!i)) (im (b!i))) (mulhrs (im (a!i)) (re (b!i))))\<rparr>"
  using assms by (simp add: Mult_complex32Vector_2_def Let_def fold_fill_const)

lemma length_Mult [simp]:
  "length dest = 16 \<Longrightarrow> length (Mult_complex32Vector_2 mulhrs add sub a b dest) = 16"
  by (simp add: Mult_complex32Vector_2_def Let_def fold_fill_const)

text \<open>What Intel documents of one lane of the three intrinsics.\<close>

locale avx2 =
  fixes mulhrs add sub :: "int16 \<Rightarrow> int16 \<Rightarrow> int16"
  assumes mulhrs: "mulhrs x y = word_of_int ((sint x * sint y + 2 ^ 14) div 2 ^ 15)"
    and add: "add x y = x + y"
    and sub: "sub x y = x - y"
begin

lemma add_vector:
  assumes "length dest = 16"
  shows "Add_complex32Vector_2 add a b dest = map (\<lambda>i. addForComplex32 (a ! i) (b ! i)) [0..<16]"
  using assms
  by (simp add: Add_complex32Vector_2_def Let_def fold_fill_const addForComplex32_def add
      cong: map_cong)

lemma sub_vector:
  assumes "length dest = 16"
  shows "Sub_complex32Vector_2 sub a b dest = map (\<lambda>i. reduceForComplex32 (a ! i) (b ! i)) [0..<16]"
  using assms
  by (simp add: Sub_complex32Vector_2_def Let_def fold_fill_const reduceForComplex32_def sub
      cong: map_cong)

end

text \<open>
  The rounded products of the vector unit against the truncated product of the scalar code,
  on integers: \<open>p\<close> and \<open>q\<close> are the two products that are subtracted or added.
\<close>

lemma div_bounds: "0 < k \<Longrightarrow> k * (x div k) \<le> x \<and> x < k * (x div k) + k" for k x :: int
proof -
  assume "0 < k"
  then have "0 \<le> x mod k" "x mod k < k" by simp_all
  moreover have "k * (x div k) + x mod k = x" by simp
  ultimately show ?thesis by linarith
qed

lemma rounding_aux:
  fixes p q r1 r2 s :: int
  assumes "32768 * r1 \<le> p + 16384 \<and> p + 16384 < 32768 * r1 + 32768"
    and "32768 * r2 \<le> q + 16384 \<and> q + 16384 < 32768 * r2 + 32768"
  shows "8192 * s \<le> p - q \<and> p - q < 8192 * s + 8192 \<Longrightarrow> \<bar>4 * (r1 - r2) - s\<bar> \<le> 4"
    and "8192 * s \<le> p + q \<and> p + q < 8192 * s + 8192 \<Longrightarrow> \<bar>4 * (r1 + r2) - s\<bar> \<le> 4"
  using assms by (auto simp: abs_le_iff)

lemma rounding_error:
  fixes p q :: int
  shows "\<bar>4 * ((p + 16384) div 32768 - (q + 16384) div 32768) - (p - q) div 8192\<bar> \<le> 4"
    and "\<bar>4 * ((p + 16384) div 32768 + (q + 16384) div 32768) - (p + q) div 8192\<bar> \<le> 4"
proof -
  have k: "(0 :: int) < 32768" "(0 :: int) < 8192" by simp_all
  note d = div_bounds [OF k(1), of "p + 16384"] div_bounds [OF k(1), of "q + 16384"]
    div_bounds [OF k(2), of "p - q"] div_bounds [OF k(2), of "p + q"]
  show "\<bar>4 * ((p + 16384) div 32768 - (q + 16384) div 32768) - (p - q) div 8192\<bar> \<le> 4"
    using rounding_aux(1) [OF d(1,2,3)] .
  show "\<bar>4 * ((p + 16384) div 32768 + (q + 16384) div 32768) - (p + q) div 8192\<bar> \<le> 4"
    using rounding_aux(2) [OF d(1,2,4)] .
qed

lemma div_small:
  fixes p k m :: int
  assumes "\<bar>p\<bar> \<le> k * m" "0 < k"
  shows "\<bar>p div k\<bar> \<le> m"
proof -
  have "p div k \<le> (k * m) div k" "(k * (- m)) div k \<le> p div k" using assms by (intro zdiv_mono1; simp)+
  moreover have "(k * m) div k = m" "(k * (- m)) div k = - m" using assms(2) by (simp_all del: mult_minus_right)
  ultimately show ?thesis by linarith
qed

lemma round_range:
  fixes p m :: int
  assumes "\<bar>p\<bar> \<le> 32768 * m"
  shows "\<bar>(p + 16384) div 32768\<bar> \<le> m"
proof -
  have "(p + 16384) div 32768 \<le> (16384 + m * 32768) div 32768" "(16384 + (- m) * 32768) div 32768 \<le> (p + 16384) div 32768"
    using assms by (intro zdiv_mono1; simp)+
  then show ?thesis by simp
qed

lemma four_times: "\<bar>x\<bar> \<le> m \<Longrightarrow> \<bar>y\<bar> \<le> m \<Longrightarrow> \<bar>4 * (x - y)\<bar> \<le> 8 * m \<and> \<bar>4 * (x + y)\<bar> \<le> 8 * m" for x y m :: int
  by (simp add: abs_le_iff)

text \<open>Components bounded in magnitude.\<close>

definition cbound :: "int \<Rightarrow> complex32 \<Rightarrow> bool" where
  "cbound B z \<longleftrightarrow> \<bar>sint (re z)\<bar> \<le> B \<and> \<bar>sint (im z)\<bar> \<le> B"

lemma prod_bound: "\<bar>x\<bar> \<le> A \<Longrightarrow> \<bar>y\<bar> \<le> B \<Longrightarrow> \<bar>x * y\<bar> \<le> A * B" for x y A B :: int
  by (simp add: abs_mult mult_mono')

lemma mult_exact:
  assumes "cbound A a" "cbound B b" "A * B < 2 ^ 27"
  shows "sint (re (multForComplex32 13 a b))
      = (sint (re a) * sint (re b) - sint (im a) * sint (im b)) div 8192"
    and "sint (im (multForComplex32 13 a b))
      = (sint (re a) * sint (im b) + sint (im a) * sint (re b)) div 8192"
proof -
  have "\<bar>sint (re a) * sint (re b)\<bar> \<le> A * B" "\<bar>sint (im a) * sint (im b)\<bar> \<le> A * B"
    "\<bar>sint (re a) * sint (im b)\<bar> \<le> A * B" "\<bar>sint (im a) * sint (re b)\<bar> \<le> A * B"
    using assms(1,2) by (auto simp: cbound_def intro!: prod_bound)
  with assms(3) show "sint (re (multForComplex32 13 a b))
      = (sint (re a) * sint (re b) - sint (im a) * sint (im b)) div 8192"
    "sint (im (multForComplex32 13 a b))
      = (sint (re a) * sint (im b) + sint (im a) * sint (re b)) div 8192"
    by (simp_all add: multForComplex32_def scale_down_13)
qed

context avx2
begin

lemma mulhrs_sint:
  assumes "\<bar>sint x * sint y\<bar> \<le> 32768 * 4095"
  shows "sint (mulhrs x y) = (sint x * sint y + 16384) div 32768"
  using round_range [OF assms] by (simp add: mulhrs)

lemma lane_exact:
  assumes "\<bar>r1\<bar> \<le> 4095" "\<bar>r2\<bar> \<le> 4095" "sint x = r1" "sint y = r2"
  shows "sint (push_bit 2 (sub x y)) = 4 * (r1 - r2)"
    and "sint (push_bit 2 (add x y)) = 4 * (r1 + r2)"
proof -
  have w: "x = word_of_int r1" "y = word_of_int r2" using assms(3,4) by auto
  have "push_bit 2 (sub x y) = word_of_int (4 * (r1 - r2))"
    "push_bit 2 (add x y) = word_of_int (4 * (r1 + r2))"
    by (simp_all add: w sub add push_bit_eq_mult)
  moreover have "sint (word_of_int (4 * (r1 - r2)) :: int16) = 4 * (r1 - r2)"
    "sint (word_of_int (4 * (r1 + r2)) :: int16) = 4 * (r1 + r2)"
    using assms(1,2) by (intro sint_int16; simp add: abs_le_iff)+
  ultimately show "sint (push_bit 2 (sub x y)) = 4 * (r1 - r2)"
    "sint (push_bit 2 (add x y)) = 4 * (r1 + r2)"
    by (simp_all only:)
qed

lemma mult_vector:
  assumes "length dest = 16" "i < 16" "cbound A (a ! i)" "cbound B (b ! i)" "A * B \<le> 32768 * m" "m \<le> 4095"
  defines "d \<equiv> Mult_complex32Vector_2 mulhrs add sub a b dest ! i"
    and "c \<equiv> multForComplex32 13 (a ! i) (b ! i)"
  shows "\<bar>sint (re d)\<bar> \<le> 8 * m \<and> \<bar>sint (re c)\<bar> \<le> 8 * m \<and> \<bar>sint (re d) - sint (re c)\<bar> \<le> 4"
    and "\<bar>sint (im d)\<bar> \<le> 8 * m \<and> \<bar>sint (im c)\<bar> \<le> 8 * m \<and> \<bar>sint (im d) - sint (im c)\<bar> \<le> 4"
proof -
  let ?x = "a ! i" and ?y = "b ! i"
  have "\<bar>sint (re ?x) * sint (re ?y)\<bar> \<le> A * B" "\<bar>sint (im ?x) * sint (im ?y)\<bar> \<le> A * B"
    "\<bar>sint (re ?x) * sint (im ?y)\<bar> \<le> A * B" "\<bar>sint (im ?x) * sint (re ?y)\<bar> \<le> A * B"
    using assms(3,4) by (auto simp: cbound_def intro!: prod_bound)
  note p = this [THEN order_trans, OF assms(5)]
  have "32768 * m \<le> 32768 * 4095" using assms(6) by simp
  note q = p [THEN order_trans, OF this]
  note r = p [THEN round_range] and R = q [THEN round_range] and s = q [THEN mulhrs_sint]
  have "A * B < 2 ^ 27" using assms(5,6) by simp
  note e = mult_exact [OF assms(3,4) this, folded c_def]
  have d: "sint (re d) = 4 * ((sint (re ?x) * sint (re ?y) + 16384) div 32768 - (sint (im ?x) * sint (im ?y) + 16384) div 32768)"
    "sint (im d) = 4 * ((sint (re ?x) * sint (im ?y) + 16384) div 32768 + (sint (im ?x) * sint (re ?y) + 16384) div 32768)"
    using lane_exact(1) [OF R(1,2) s(1,2)] lane_exact(2) [OF R(3,4) s(3,4)]
    by (simp_all add: d_def Mult_lane [OF assms(1,2)] del: push_bit_push_bit)
  have c: "\<bar>sint (re c)\<bar> \<le> 8 * m" "\<bar>sint (im c)\<bar> \<le> 8 * m"
    unfolding e using p by (intro div_small; simp)+
  show "\<bar>sint (re d)\<bar> \<le> 8 * m \<and> \<bar>sint (re c)\<bar> \<le> 8 * m \<and> \<bar>sint (re d) - sint (re c)\<bar> \<le> 4"
    using c(1) four_times [OF r(1,2)] rounding_error(1) unfolding d e by blast
  show "\<bar>sint (im d)\<bar> \<le> 8 * m \<and> \<bar>sint (im c)\<bar> \<le> 8 * m \<and> \<bar>sint (im d) - sint (im c)\<bar> \<le> 4"
    using c(2) four_times [OF r(3,4)] rounding_error(2) unfolding d e by blast
qed

end

text \<open>The documented behaviour is that of a function.\<close>

definition mulhrs_lane :: "int16 \<Rightarrow> int16 \<Rightarrow> int16" where
  "mulhrs_lane x y = word_of_int ((sint x * sint y + 2 ^ 14) div 2 ^ 15)"

interpretation lanes: avx2 mulhrs_lane "(+)" "(-)"
  by unfold_locales (simp_all add: mulhrs_lane_def)

section \<open>The matrix product\<close>

lemma less4_cases:
  assumes "(n :: nat) < 4"
  obtains "n = 0" | "n = 1" | "n = 2" | "n = 3"
  using assms by fastforce

lemma upt_4: "[0..<4] = [0, 1, 2, 3 :: nat]"
  by (simp add: upt_rec)

lemma word_add_sint: "word_of_int (sint x + sint y) = (x + y :: int16)"
  by simp

lemma sum4_sint:
  fixes a b c d :: int16
  assumes "\<bar>sint a\<bar> \<le> 8191" "\<bar>sint b\<bar> \<le> 8191" "\<bar>sint c\<bar> \<le> 8191" "\<bar>sint d\<bar> \<le> 8191"
  shows "sint (a + b + c + d) = sint a + sint b + sint c + sint d"
proof -
  have "a + b + c + d = word_of_int (sint a + sint b + sint c + sint d)" by simp
  moreover have "sint (word_of_int (sint a + sint b + sint c + sint d) :: int16)
      = sint a + sint b + sint c + sint d"
    using assms by (intro sint_int16; simp add: abs_le_iff)
  ultimately show ?thesis by (simp only:)
qed

lemma multForMatrix_entry:
  fixes h :: "complex32 list list" and x :: "complex32 list" and ds :: nat
  assumes "length dest = 4" "j < 4"
  defines "P i \<equiv> multForComplex32 ds (h ! i ! j) (x ! i)"
  shows "re (multForMatrix ds h x dest ! j) = re (P 0) + re (P 1) + re (P 2) + re (P 3)"
    and "im (multForMatrix ds h x dest ! j) = im (P 0) + im (P 1) + im (P 2) + im (P 3)"
  using assms(1,2) unfolding P_def
  by (cases rule: less4_cases [OF assms(2)];
      simp add: multForMatrix_def upt_4 addForComplex32_def cpx_def)+

context avx2
begin

lemma matrix_sums:
  fixes c :: "complex32 list"
  assumes "length dest = 4" "j < 4"
  defines "T \<equiv> map2 add (map2 add (map2 add
        [re (c!0), im (c!0), re (c!4), im (c!4), re (c!8), im (c!8), re (c!12), im (c!12)]
        [re (c!1), im (c!1), re (c!5), im (c!5), re (c!9), im (c!9), re (c!13), im (c!13)])
        [re (c!2), im (c!2), re (c!6), im (c!6), re (c!10), im (c!10), re (c!14), im (c!14)])
        [re (c!3), im (c!3), re (c!7), im (c!7), re (c!11), im (c!11), re (c!15), im (c!15)]"
  shows "fold (\<lambda>i dest. dest[i := \<lparr>re = T ! (2 * i), im = T ! (2 * i + 1)\<rparr>]) [0..<4] dest ! j
    = \<lparr>re = re (c!(4*j)) + re (c!(4*j+1)) + re (c!(4*j+2)) + re (c!(4*j+3)),
       im = im (c!(4*j)) + im (c!(4*j+1)) + im (c!(4*j+2)) + im (c!(4*j+3))\<rparr>"
proof -
  have T: "T = [re (c!0) + re (c!1) + re (c!2) + re (c!3), im (c!0) + im (c!1) + im (c!2) + im (c!3),
      re (c!4) + re (c!5) + re (c!6) + re (c!7), im (c!4) + im (c!5) + im (c!6) + im (c!7),
      re (c!8) + re (c!9) + re (c!10) + re (c!11), im (c!8) + im (c!9) + im (c!10) + im (c!11),
      re (c!12) + re (c!13) + re (c!14) + re (c!15), im (c!12) + im (c!13) + im (c!14) + im (c!15)]"
    by (simp only: T_def zip.simps zip_Cons_Cons list.map split_conv add)
      simp
  have "fold (\<lambda>i dest. dest[i := \<lparr>re = T ! (2 * i), im = T ! (2 * i + 1)\<rparr>]) [0..<4] dest ! j
      = \<lparr>re = T ! (2 * j), im = T ! (2 * j + 1)\<rparr>"
    using assms(1,2) by (simp add: fold_fill_const)
  also have "\<dots> = \<lparr>re = re (c!(4*j)) + re (c!(4*j+1)) + re (c!(4*j+2)) + re (c!(4*j+3)),
       im = im (c!(4*j)) + im (c!(4*j+1)) + im (c!(4*j+2)) + im (c!(4*j+3))\<rparr>"
    unfolding T by (cases rule: less4_cases [OF assms(2)]) (simp_all add: numeral_2_eq_2)
  finally show ?thesis .
qed

lemma matrix_entry:
  fixes h :: "complex32 list list" and x :: "complex32 list"
  assumes "length dest = 4" "j < 4"
  defines "a \<equiv> map (\<lambda>n. h ! (n mod 4) ! (n div 4)) [0..<16]" and "b \<equiv> map (\<lambda>n. x ! (n mod 4)) [0..<16]"
  defines "Q i \<equiv> Mult_complex32Vector_2 mulhrs add sub a b (replicate 16 (cpx 0 0)) ! (4 * j + i)"
  shows "re (Mult_Matrix_AVX2_4 mulhrs add sub h x dest ! j) = re (Q 0) + re (Q 1) + re (Q 2) + re (Q 3)"
    and "im (Mult_Matrix_AVX2_4 mulhrs add sub h x dest ! j) = im (Q 0) + im (Q 1) + im (Q 2) + im (Q 3)"
proof -
  have a: "a = [h!0!0, h!1!0, h!2!0, h!3!0, h!0!1, h!1!1, h!2!1, h!3!1,
               h!0!2, h!1!2, h!2!2, h!3!2, h!0!3, h!1!3, h!2!3, h!3!3]"
    and b: "b = [x!0, x!1, x!2, x!3, x!0, x!1, x!2, x!3, x!0, x!1, x!2, x!3, x!0, x!1, x!2, x!3]"
    by (simp_all add: a_def b_def upt_16)
  let ?c = "Mult_complex32Vector_2 mulhrs add sub a b (replicate 16 (cpx 0 0))"
  have "Mult_Matrix_AVX2_4 mulhrs add sub h x dest ! j
      = \<lparr>re = re (?c!(4*j)) + re (?c!(4*j+1)) + re (?c!(4*j+2)) + re (?c!(4*j+3)),
         im = im (?c!(4*j)) + im (?c!(4*j+1)) + im (?c!(4*j+2)) + im (?c!(4*j+3))\<rparr>"
    unfolding Mult_Matrix_AVX2_4_def a [symmetric] b [symmetric] Let_def
    by (rule matrix_sums [OF assms(1,2)])
  then show "re (Mult_Matrix_AVX2_4 mulhrs add sub h x dest ! j) = re (Q 0) + re (Q 1) + re (Q 2) + re (Q 3)"
    and "im (Mult_Matrix_AVX2_4 mulhrs add sub h x dest ! j) = im (Q 0) + im (Q 1) + im (Q 2) + im (Q 3)"
    by (simp_all only: Q_def add_0_right complex32.simps)
qed

lemma matrix_vector:
  assumes "length dest = 4" "length dest' = 4" "j < 4"
    and "\<forall>i < 4. cbound A (h ! i ! j)" "\<forall>i < 4. cbound B (x ! i)" "A * B \<le> 2 ^ 25 - 2 ^ 15"
  shows "let d = Mult_Matrix_AVX2_4 mulhrs add sub h x dest ! j; c = multForMatrix 13 h x dest' ! j
    in \<bar>sint (re d) - sint (re c)\<bar> \<le> 16 \<and> \<bar>sint (im d) - sint (im c)\<bar> \<le> 16"
proof -
  let ?a = "map (\<lambda>n. h ! (n mod 4) ! (n div 4)) [0..<16]" and ?b = "map (\<lambda>n. x ! (n mod 4)) [0..<16]"
  let ?Q = "\<lambda>i. Mult_complex32Vector_2 mulhrs add sub ?a ?b (replicate 16 (cpx 0 0)) ! (4 * j + i)"
  let ?P = "\<lambda>i. multForComplex32 13 (h ! i ! j) (x ! i)"
  have each: "(\<bar>sint (re (?Q i))\<bar> \<le> 8191 \<and> \<bar>sint (re (?P i))\<bar> \<le> 8191 \<and> \<bar>sint (re (?Q i)) - sint (re (?P i))\<bar> \<le> 4)
      \<and> (\<bar>sint (im (?Q i))\<bar> \<le> 8191 \<and> \<bar>sint (im (?P i))\<bar> \<le> 8191 \<and> \<bar>sint (im (?Q i)) - sint (im (?P i))\<bar> \<le> 4)"
    if i: "i < 4" for i
  proof -
    have n: "4 * j + i < 16" "(4 * j + i) mod 4 = i" "(4 * j + i) div 4 = j" using i assms(3) by simp_all
    then have e: "?a ! (4 * j + i) = h ! i ! j" "?b ! (4 * j + i) = x ! i" by simp_all
    have bd: "cbound A (?a ! (4 * j + i))" "cbound B (?b ! (4 * j + i))"
      unfolding e using assms(4,5) i by simp_all
    have m: "length (replicate 16 (cpx 0 0)) = 16" "A * B \<le> 32768 * 1023" "(1023 :: int) \<le> 4095"
      using assms(6) by simp_all
    show ?thesis
      using mult_vector [OF m(1) n(1) bd m(2,3)] unfolding e by linarith
  qed
  note e = each [of 0] each [of 1] each [of 2] each [of 3]
  show ?thesis
    unfolding Let_def matrix_entry [OF assms(1,3)] multForMatrix_entry [OF assms(2,3)]
    using e by (simp add: sum4_sint abs_le_iff)
qed

end

text \<open>The vector product approximates the scalar one. Whatever \<open>mulhrs\<close>, \<open>add\<close> and \<open>sub\<close>
  are that behave as documented, each of the sixteen lanes of \<open>Mult_complex32Vector_2\<close> is
  within 4 units (2^-11) of \<open>multForComplex32\<close> in both parts, and nothing wraps, when the
  components are at most \<open>A\<close> and \<open>B\<close> in magnitude with \<open>A * B\<close> at most \<open>2^27 - 2^15\<close>.\<close>

theorem avx_mult_error:
  assumes "avx2 mulhrs add sub" "length dest = 16" "i < 16"
    and "cbound A (a ! i)" "cbound B (b ! i)" "A * B \<le> 2 ^ 27 - 2 ^ 15"
  shows "let d = Mult_complex32Vector_2 mulhrs add sub a b dest ! i;
      c = multForComplex32 13 (a ! i) (b ! i)
    in \<bar>sint (re d) - sint (re c)\<bar> \<le> 4 \<and> \<bar>sint (im d) - sint (im c)\<bar> \<le> 4
      \<and> sint (re c) = (sint (re (a ! i)) * sint (re (b ! i)) - sint (im (a ! i)) * sint (im (b ! i))) div 8192
      \<and> sint (im c) = (sint (re (a ! i)) * sint (im (b ! i)) + sint (im (a ! i)) * sint (re (b ! i))) div 8192"
proof -
  have "A * B < 2 ^ 27" using assms(6) by simp
  from mult_exact [OF assms(4,5) this] show ?thesis
    using avx2.mult_vector [OF assms(1-5), of 4095] assms(6) by (simp add: Let_def)
qed

theorem avx_mult_error_witness:
  "\<bar>sint (re (Mult_complex32Vector_2 mulhrs_lane (+) (-) (replicate 16 (cpx 9424 (- 628)))
      (replicate 16 (cpx 5793 5793)) (replicate 16 (cpx 0 0)) ! 3))
    - sint (re (multForComplex32 13 (replicate 16 (cpx 9424 (- 628)) ! 3) (replicate 16 (cpx 5793 5793) ! 3)))\<bar> \<le> 4"
proof -
  have b: "cbound 9424 (replicate 16 (cpx 9424 (- 628)) ! 3)" "cbound 8192 (replicate 16 (cpx 5793 5793) ! 3)"
    by (simp_all add: cbound_def cpx_def)
  have l: "length (replicate 16 (cpx 0 0)) = 16" "(3 :: nat) < 16" "(9424 :: int) * 8192 \<le> 2 ^ 27 - 2 ^ 15"
    by simp_all
  show ?thesis
    using avx_mult_error [OF lanes.avx2_axioms l(1,2) b l(3)] unfolding Let_def by (elim conjE)
qed

text \<open>The vector sum and difference are the scalar ones, lane by lane and wrap-around
  included.\<close>

theorem avx_add_sub_exact:
  assumes "avx2 mulhrs add sub" "length dest = 16"
  shows "Add_complex32Vector_2 add a b dest = map (\<lambda>i. addForComplex32 (a ! i) (b ! i)) [0..<16]
    \<and> Sub_complex32Vector_2 sub a b dest = map (\<lambda>i. reduceForComplex32 (a ! i) (b ! i)) [0..<16]
    \<and> (\<forall>i. Add_Complex32 (a ! i) (b ! i) dst = addForComplex32 (a ! i) (b ! i)
        \<and> Sub_Complex32 (a ! i) (b ! i) dst = reduceForComplex32 (a ! i) (b ! i))"
  using avx2.add_vector [OF assms] avx2.sub_vector [OF assms]
  by (simp add: Add_Complex32_def Sub_Complex32_def addForComplex32_def reduceForComplex32_def)

theorem avx_add_sub_exact_witness:
  "Add_complex32Vector_2 (+) (replicate 16 (cpx 1 2)) (replicate 16 (cpx 3 4)) (replicate 16 (cpx 0 0))
    = map (\<lambda>i. addForComplex32 (replicate 16 (cpx 1 2) ! i) (replicate 16 (cpx 3 4) ! i)) [0..<16]"
  using avx_add_sub_exact [OF lanes.avx2_axioms, of "replicate 16 (cpx 0 0)"] by simp

text \<open>The four by four matrix product on the vector unit is within 16 units of the scalar
  one in every entry, and nothing wraps, for components at most \<open>A\<close> and \<open>B\<close> with \<open>A * B\<close> at
  most \<open>2^25 - 2^15\<close>.\<close>

theorem avx_matrix_error:
  assumes "avx2 mulhrs add sub" "length dest = 4" "length dest' = 4" "j < 4"
    and "\<forall>i < 4. cbound A (h ! i ! j)" "\<forall>i < 4. cbound B (x ! i)" "A * B \<le> 2 ^ 25 - 2 ^ 15"
  shows "let d = Mult_Matrix_AVX2_4 mulhrs add sub h x dest ! j; c = multForMatrix 13 h x dest' ! j
    in \<bar>sint (re d) - sint (re c)\<bar> \<le> 16 \<and> \<bar>sint (im d) - sint (im c)\<bar> \<le> 16"
  by (rule avx2.matrix_vector [OF assms])

theorem avx_matrix_error_witness:
  "let d = Mult_Matrix_AVX2_4 mulhrs_lane (+) (-) (replicate 4 (replicate 4 (cpx 4000 (- 1))))
        (replicate 4 (cpx (- 8192) 8)) (replicate 4 (cpx 0 0)) ! 2;
      c = multForMatrix 13 (replicate 4 (replicate 4 (cpx 4000 (- 1)))) (replicate 4 (cpx (- 8192) 8))
        (replicate 4 (cpx 0 0)) ! 2
    in \<bar>sint (re d) - sint (re c)\<bar> \<le> 16 \<and> \<bar>sint (im d) - sint (im c)\<bar> \<le> 16"
proof -
  have b: "\<forall>i < 4. cbound 4000 (replicate 4 (replicate 4 (cpx 4000 (- 1))) ! i ! 2)"
    "\<forall>i < 4. cbound 8192 (replicate 4 (cpx (- 8192) 8) ! i)"
    by (simp_all add: cbound_def cpx_def)
  have l: "length (replicate 4 (cpx 0 0)) = 4" "(2 :: nat) < 4" "(4000 :: int) * 8192 \<le> 2 ^ 25 - 2 ^ 15"
    by simp_all
  show ?thesis by (rule avx_matrix_error [OF lanes.avx2_axioms l(1) l(1) l(2) b l(3)])
qed

end
