(* ===== verification/Pilots.thy ===== *)
theory Pilots
  imports Interleave Complex32
begin

text \<open>
  The insertion of pilot and zero subcarriers. Two routines share its loop: it walks over the
  positions of a symbol and writes, to every stream, a pilot, a zero or the next data item:
  \<open>PilotAdd_SubcarMap\<close> of \<^verbatim>\<open>PilotAdd_SubcarMap.c\<close> on constellation points and
  \<open>PilotAdd_table\<close> of \<^verbatim>\<open>modulate_opt.c\<close> on the bit numbers of the interleaver table. The
  control of the loop is \<open>slot_at\<close>; its abstract view is the list of slots of a symbol, and
  \<open>table_layout\<close> shows that the two layouts describe the same symbol.
\<close>

section \<open>Index arrays\<close>

definition pilot_index80 :: "nat list" where
  "pilot_index80 = [26, 54, 90, 118, 140, 168, 204, 232]"

definition zero_index80 :: "nat list" where
  "zero_index80 = [1, 2, 3, 4, 5, 6, 128, 129, 130, 252, 253, 254, 255, 256]"

text \<open>The arrays of the same names in \<^verbatim>\<open>modulate_opt.c\<close>, in positions of bits.\<close>

definition pilot_index80_bits :: "nat list" where
  "pilot_index80_bits = [121, 284, 495, 658, 770, 933, 1144, 1307]"

definition zero_index80_bits :: "nat list" where
  "zero_index80_bits = [1, 2, 3, 4, 5, 6, 713, 714, 715, 1422, 1423, 1424, 1425, 1426]"

definition pilot_N :: nat where
  "pilot_N = 8"

definition zero_N :: nat where
  "zero_N = 14"

definition Data_pilot80 :: "complex32 list" where
  "Data_pilot80 = [cpx 8192 0, cpx 8192 0, cpx 8192 0, cpx (- 8192) 0, cpx (- 8192) 0,
     cpx 8192 0, cpx 8192 0, cpx 8192 0]"

definition Data_pilot :: "int list" where
  "Data_pilot = [6002, 6002, 6002, 6000, 6000, 6002, 6002, 6002]"

section \<open>The control of the loop\<close>

text \<open>
  The conditions read \<open>pilot_index80[p]\<close> before they test \<open>p < pilot_N\<close>, so the element
  after the last is read as well; \<open>oob\<close> stands for what is found there.
\<close>

definition at_or :: "nat \<Rightarrow> nat list \<Rightarrow> nat \<Rightarrow> nat" where
  "at_or oob xs i = (if i < length xs then xs ! i else oob)"

datatype slot = Pilot nat | Zero | Data nat | Skip

text \<open>The state holds the counters \<open>n\<close>, \<open>p\<close> and \<open>z\<close>; \<open>guard\<close> is the test on \<open>n\<close> of the
  third branch, trivial in \<open>PilotAdd_SubcarMap\<close>.\<close>

definition slot_at :: "nat \<Rightarrow> nat list \<Rightarrow> nat list \<Rightarrow> (nat \<Rightarrow> bool) \<Rightarrow> nat \<Rightarrow> nat \<times> nat \<times> nat
    \<Rightarrow> slot \<times> nat \<times> nat \<times> nat" where
  "slot_at oob pidx zidx guard j = (\<lambda>(n, p, z).
     if j + 1 = at_or oob pidx p \<and> p < pilot_N then (Pilot p, n, p + 1, z)
     else if j + 1 = at_or oob zidx z \<and> z < zero_N then (Zero, n, p, z + 1)
     else if guard n then (Data n, n + 1, p, z)
     else (Skip, n, p, z))"

text \<open>One symbol: position \<open>j\<close> of every stream \<open>tx\<close> receives \<open>val tx slot\<close>.\<close>

definition place_cell :: "(nat \<Rightarrow> nat \<times> nat \<times> nat \<Rightarrow> slot \<times> nat \<times> nat \<times> nat) \<Rightarrow> (nat \<Rightarrow> slot \<Rightarrow> 'a)
    \<Rightarrow> nat \<Rightarrow> nat \<Rightarrow> (nat \<times> nat \<times> nat) \<times> 'a list list \<Rightarrow> (nat \<times> nat \<times> nat) \<times> 'a list list" where
  "place_cell ctl val off j = (\<lambda>(st, rows).
     let (sl, st') = ctl j st in
     (st', if sl = Skip then rows else fold (\<lambda>tx. upd2 tx (j + off) (val tx sl)) [0..<N_STS] rows))"

definition place_symbol :: "(nat \<Rightarrow> nat \<times> nat \<times> nat \<Rightarrow> slot \<times> nat \<times> nat \<times> nat) \<Rightarrow> (nat \<Rightarrow> slot \<Rightarrow> 'a)
    \<Rightarrow> nat \<Rightarrow> nat \<Rightarrow> 'a list list \<Rightarrow> 'a list list" where
  "place_symbol ctl val off L rows = snd (fold (place_cell ctl val off) [0..<L] ((0, 0, 0), rows))"

section \<open>The slots of a symbol\<close>

fun lay :: "(nat \<Rightarrow> 's \<Rightarrow> slot \<times> 's) \<Rightarrow> nat list \<Rightarrow> 's \<Rightarrow> slot list" where
  "lay ctl [] st = []"
| "lay ctl (j # js) st = (let (sl, st') = ctl j st in sl # lay ctl js st')"

definition layout :: "(nat \<Rightarrow> nat \<times> nat \<times> nat \<Rightarrow> slot \<times> nat \<times> nat \<times> nat) \<Rightarrow> nat \<Rightarrow> slot list" where
  "layout ctl L = lay ctl [0..<L] (0, 0, 0)"

lemma length_lay [simp]: "length (lay ctl js st) = length js"
  by (induction js arbitrary: st) (simp_all add: split_beta Let_def)

lemma length_layout [simp]: "length (layout ctl L) = L"
  by (simp add: layout_def)

lemma lay_append: "lay ctl (xs @ ys) st = lay ctl xs st @ lay ctl ys (fold (\<lambda>j st. snd (ctl j st)) xs st)"
  by (induction xs arbitrary: st) (simp_all add: split_beta Let_def)

lemma upd_all_nth:
  assumes "rows_ge (Suc q) rows" "tx < N_STS"
  shows "fold (\<lambda>tx. upd2 tx q (v tx)) [0..<N_STS] rows ! tx ! q = v tx"
    and "p \<noteq> q \<Longrightarrow> fold (\<lambda>tx. upd2 tx q (v tx)) [0..<N_STS] rows ! tx ! p = rows ! tx ! p"
    and "rows_ge len (fold (\<lambda>tx. upd2 tx q (v tx)) [0..<N_STS] rows) = rows_ge len rows"
proof -
  let ?ws = "map (\<lambda>tx. (tx, q, v tx)) [0..<N_STS]"
  have w: "fold (\<lambda>tx. upd2 tx q (v tx)) [0..<N_STS] rows = writes2 ?ws rows"
    by (simp add: writes2_def fold_map comp_def)
  have row: "tx < length rows" "q < length (rows ! tx)"
    using assms by (auto simp: rows_ge_def Suc_le_eq)
  have mem: "(tx, q, v tx) \<in> set ?ws" using assms(2) by auto
  have uniq: "u = v tx" if "(tx, q, u) \<in> set ?ws" for u using that by auto
  show "fold (\<lambda>tx. upd2 tx q (v tx)) [0..<N_STS] rows ! tx ! q = v tx"
    unfolding w by (rule writes2_written [OF mem uniq row])
  show "p \<noteq> q \<Longrightarrow> fold (\<lambda>tx. upd2 tx q (v tx)) [0..<N_STS] rows ! tx ! p = rows ! tx ! p"
    unfolding w by (rule writes2_untouched) auto
  show "rows_ge len (fold (\<lambda>tx. upd2 tx q (v tx)) [0..<N_STS] rows) = rows_ge len rows"
    unfolding w by simp
qed

text \<open>What the loop leaves in the rows: the layout, read through \<open>val\<close>.\<close>

lemma place_symbol_run:
  assumes "rows_ge (off + L) rows" "tx < N_STS"
  shows "j < L \<Longrightarrow> place_symbol ctl val off L rows ! tx ! (j + off)
      = (if layout ctl L ! j = Skip then rows ! tx ! (j + off) else val tx (layout ctl L ! j))"
    and "q < off \<or> off + L \<le> q \<Longrightarrow> place_symbol ctl val off L rows ! tx ! q = rows ! tx ! q"
    and "rows_ge len (place_symbol ctl val off L rows) = rows_ge len rows"
proof -
  let ?st = "\<lambda>m. fold (\<lambda>j st. snd (ctl j st)) [0..<m] (0, 0, 0)"
  let ?r = "\<lambda>m. fold (place_cell ctl val off) [0..<m] ((0, 0, 0), rows)"
  have inv: "fst (?r m) = ?st m
      \<and> (\<forall>j < m. snd (?r m) ! tx ! (j + off)
          = (if layout ctl m ! j = Skip then rows ! tx ! (j + off) else val tx (layout ctl m ! j)))
      \<and> (\<forall>q. q < off \<or> off + m \<le> q \<longrightarrow> snd (?r m) ! tx ! q = rows ! tx ! q)
      \<and> (\<forall>len. rows_ge len (snd (?r m)) = rows_ge len rows)" if "m \<le> L" for m
    using that
  proof (induction m)
    case 0
    then show ?case by simp
  next
    case (Suc m)
    then have IH: "fst (?r m) = ?st m"
      and old: "\<And>j. j < m \<Longrightarrow> snd (?r m) ! tx ! (j + off)
          = (if layout ctl m ! j = Skip then rows ! tx ! (j + off) else val tx (layout ctl m ! j))"
      and rest: "\<And>q. q < off \<or> off + m \<le> q \<Longrightarrow> snd (?r m) ! tx ! q = rows ! tx ! q"
      and ge: "\<And>len. rows_ge len (snd (?r m)) = rows_ge len rows"
      by auto
    obtain sl st' where c: "ctl m (?st m) = (sl, st')" by (cases "ctl m (?st m)")
    have lay: "layout ctl (Suc m) = layout ctl m @ [sl]"
      by (simp add: layout_def lay_append c)
    let ?new = "fold (\<lambda>tx. upd2 tx (m + off) (val tx sl)) [0..<N_STS] (snd (?r m))"
    have step: "?r (Suc m) = (st', if sl = Skip then snd (?r m) else ?new)"
      by (simp add: place_cell_def split_beta Let_def IH c)
    have "rows_ge (Suc (m + off)) (snd (?r m))"
      unfolding ge using assms(1) Suc.prems by (auto elim: rows_ge_mono)
    note new = upd_all_nth [OF this assms(2)]
    have "snd (?r (Suc m)) ! tx ! (j + off)
        = (if layout ctl (Suc m) ! j = Skip then rows ! tx ! (j + off) else val tx (layout ctl (Suc m) ! j))"
      if "j < Suc m" for j
    proof (cases "j = m")
      case True
      then show ?thesis using rest [of "m + off"] unfolding step lay by (simp add: nth_append new(1))
    next
      case False
      with that have "j < m" by simp
      then show ?thesis using old [of j] unfolding step lay by (simp add: nth_append new(2))
    qed
    moreover have "snd (?r (Suc m)) ! tx ! q = rows ! tx ! q" if "q < off \<or> off + Suc m \<le> q" for q
    proof -
      have "q \<noteq> m + off" using that by auto
      moreover have "q < off \<or> off + m \<le> q" using that by auto
      ultimately show ?thesis using rest [of q] unfolding step by (simp add: new(2))
    qed
    moreover have "fst (?r (Suc m)) = ?st (Suc m)" unfolding step by (simp add: c)
    moreover have "rows_ge len (snd (?r (Suc m))) = rows_ge len rows" for len
      unfolding step by (simp add: ge new(3))
    ultimately show ?case by blast
  qed
  from inv [OF order_refl]
  show "j < L \<Longrightarrow> place_symbol ctl val off L rows ! tx ! (j + off)
      = (if layout ctl L ! j = Skip then rows ! tx ! (j + off) else val tx (layout ctl L ! j))"
    and "q < off \<or> off + L \<le> q \<Longrightarrow> place_symbol ctl val off L rows ! tx ! q = rows ! tx ! q"
    and "rows_ge len (place_symbol ctl val off L rows) = rows_ge len rows"
    by (auto simp: place_symbol_def)
qed

lemma length_row_place_symbol [simp]:
  "length (place_symbol ctl val off L rows ! tx) = length (rows ! tx)"
proof -
  have w: "fold (\<lambda>tx. upd2 tx q (v tx)) [0..<N_STS] rows
      = writes2 (map (\<lambda>tx. (tx, q, v tx)) [0..<N_STS]) rows" for q v and rows :: "'a list list"
    by (simp add: writes2_def fold_map comp_def)
  have "length (snd (fold (place_cell ctl val off) js r) ! tx) = length (snd r ! tx)" for js r
    by (induction js arbitrary: r) (auto simp: place_cell_def split_beta Let_def w)
  from this [of _ "((0, 0, 0), rows)"] show ?thesis by (simp add: place_symbol_def)
qed

text \<open>The loop over the symbols of a frame.\<close>

lemma place_symbols_run:
  assumes "rows_ge (nsym * L) rows" "tx < N_STS" "Skip \<notin> set (layout ctl L)"
  shows "i < nsym \<Longrightarrow> j < L \<Longrightarrow>
      fold (\<lambda>i. place_symbol ctl (val i) (i * L) L) [0..<nsym] rows ! tx ! (j + i * L)
      = val i tx (layout ctl L ! j)"
    and "length (fold (\<lambda>i. place_symbol ctl (val i) (i * L) L) [0..<nsym] rows ! tx)
      = length (rows ! tx)"
proof -
  let ?f = "\<lambda>m. fold (\<lambda>i. place_symbol ctl (val i) (i * L) L) [0..<m] rows"
  have inv: "rows_ge (nsym * L) (?f m) \<and> length (?f m ! tx) = length (rows ! tx)
      \<and> (\<forall>i < m. \<forall>j < L. ?f m ! tx ! (j + i * L) = val i tx (layout ctl L ! j))" if "m \<le> nsym" for m
    using that
  proof (induction m)
    case 0
    then show ?case using assms(1) by simp
  next
    case (Suc m)
    then have IH: "rows_ge (nsym * L) (?f m)" "length (?f m ! tx) = length (rows ! tx)"
      and old: "\<And>i j. i < m \<Longrightarrow> j < L \<Longrightarrow> ?f m ! tx ! (j + i * L) = val i tx (layout ctl L ! j)"
      by auto
    have step: "?f (Suc m) = place_symbol ctl (val m) (m * L) L (?f m)" by simp
    have "m * L + L \<le> nsym * L" using mult_le_mono1 [OF Suc.prems, of L] by simp
    then have ge: "rows_ge (m * L + L) (?f m)" by (rule rows_ge_mono [OF IH(1)])
    note run = place_symbol_run [where ctl = ctl and val = "val m", OF ge assms(2)]
    have "?f (Suc m) ! tx ! (j + i * L) = val i tx (layout ctl L ! j)" if "i < Suc m" "j < L" for i j
    proof (cases "i = m")
      case True
      have "layout ctl L ! j \<noteq> Skip" using assms(3) that(2) by (metis length_layout nth_mem)
      then show ?thesis unfolding step True using run(1) [OF that(2)] by simp
    next
      case False
      then have "i < m" using that(1) by simp
      then have "Suc i * L \<le> m * L" by (intro mult_le_mono1) simp
      then have "j + i * L < m * L" using that(2) by simp
      then show ?thesis unfolding step using run(2) [of "j + i * L"] old [OF \<open>i < m\<close> that(2)] by simp
    qed
    then show ?case unfolding step using IH run(3) by simp
  qed
  from inv [OF order_refl]
  show "i < nsym \<Longrightarrow> j < L \<Longrightarrow> ?f nsym ! tx ! (j + i * L) = val i tx (layout ctl L ! j)"
    and "length (?f nsym ! tx) = length (rows ! tx)"
    by auto
qed

section \<open>The two layouts\<close>

text \<open>The element read after the last one does not matter.\<close>

lemma slot_at_oob:
  assumes "length pidx = pilot_N" "length zidx = zero_N"
  shows "slot_at oob pidx zidx guard j (n, p, z) =
    (if p < 8 \<and> j + 1 = pidx ! p then (Pilot p, n, p + 1, z)
     else if z < 14 \<and> j + 1 = zidx ! z then (Zero, n, p, z + 1)
     else if guard n then (Data n, n + 1, p, z) else (Skip, n, p, z))"
  using assms by (auto simp: slot_at_def at_or_def pilot_N_def zero_N_def)

lemma lay_run:
  assumes "length pidx = pilot_N" "length zidx = zero_N" "\<And>m. m < n + d \<Longrightarrow> guard m"
    and "a + d \<le> L" "p < 8 \<Longrightarrow> a + d < pidx ! p" "z < 14 \<Longrightarrow> a + d < zidx ! z"
  shows "lay (slot_at oob pidx zidx guard) [a..<L] (n, p, z)
    = map Data [n..<n + d] @ lay (slot_at oob pidx zidx guard) [a + d..<L] (n + d, p, z)"
  using assms(3-)
proof (induction d arbitrary: a n)
  case 0
  then show ?case by simp
next
  case (Suc d)
  have "[a..<L] = a # [Suc a..<L]" using Suc.prems(2) by (simp add: upt_conv_Cons)
  moreover have "slot_at oob pidx zidx guard a (n, p, z) = (Data n, Suc n, p, z)"
    using Suc.prems by (auto simp: slot_at_oob [OF assms(1,2)])
  moreover have "lay (slot_at oob pidx zidx guard) [Suc a..<L] (Suc n, p, z)
      = map Data [Suc n..<Suc n + d] @ lay (slot_at oob pidx zidx guard) [Suc a + d..<L] (Suc n + d, p, z)"
    using Suc.prems by (intro Suc.IH) auto
  ultimately show ?case by (simp add: upt_conv_Cons)
qed

text \<open>Conditional rules that evaluate a layout: from a position either a pilot or a zero comes
  next, or a run of data up to the next of them.\<close>

lemma lay_hit:
  assumes "length pidx = pilot_N" "length zidx = zero_N" "a < L"
  shows "p < 8 \<Longrightarrow> a + 1 = pidx ! p \<Longrightarrow> lay (slot_at oob pidx zidx guard) [a..<L] (n, p, z)
      = Pilot p # lay (slot_at oob pidx zidx guard) [a + 1..<L] (n, p + 1, z)"
    and "\<not> (p < 8 \<and> a + 1 = pidx ! p) \<Longrightarrow> z < 14 \<Longrightarrow> a + 1 = zidx ! z \<Longrightarrow>
      lay (slot_at oob pidx zidx guard) [a..<L] (n, p, z)
      = Zero # lay (slot_at oob pidx zidx guard) [a + 1..<L] (n, p, z + 1)"
  using assms by (simp_all add: upt_conv_Cons slot_at_oob)

lemma lay_next:
  assumes "length pidx = pilot_N" "length zidx = zero_N"
    and "z < 14" "a + 1 < zidx ! z"
  shows "p < 8 \<Longrightarrow> a + 1 < pidx ! p \<Longrightarrow> min (pidx ! p) (zidx ! z) - 1 - a = d \<Longrightarrow> a + d \<le> L
    \<Longrightarrow> \<forall>m < n + d. guard m \<Longrightarrow> lay (slot_at oob pidx zidx guard) [a..<L] (n, p, z)
      = map Data [n..<n + d] @ lay (slot_at oob pidx zidx guard) [a + d..<L] (n + d, p, z)"
    and "\<not> p < 8 \<Longrightarrow> zidx ! z - 1 - a = d \<Longrightarrow> a + d \<le> L
    \<Longrightarrow> \<forall>m < n + d. guard m \<Longrightarrow> lay (slot_at oob pidx zidx guard) [a..<L] (n, p, z)
      = map Data [n..<n + d] @ lay (slot_at oob pidx zidx guard) [a + d..<L] (n + d, p, z)"
  using assms(3,4) by (auto intro!: lay_run [OF assms(1,2)])

lemma all_below_lim: "n \<le> lim \<Longrightarrow> \<forall>m < n. m < (lim :: nat)"
  by simp

text \<open>A slot of the point layout stands for the slots of the six bits of the point.\<close>

definition expand :: "slot \<Rightarrow> slot list" where
  "expand sl = (case sl of Data d \<Rightarrow> map Data [6 * d..<6 * d + 6] | _ \<Rightarrow> [sl])"

lemma expand_simps [simp]: "expand (Pilot p) = [Pilot p]" "expand Zero = [Zero]"
  by (simp_all add: expand_def)

lemma expand_run: "a \<le> b \<Longrightarrow> concat (map (expand \<circ> Data) [a..<b]) = map Data [6 * a..<6 * b]"
proof (induction b)
  case 0
  then show ?case by simp
next
  case (Suc b)
  show ?case
  proof (cases "a = Suc b")
    case False
    with Suc.prems have "a \<le> b" by simp
    moreover from this have "[6 * a..<6 * Suc b] = [6 * a..<6 * b] @ [6 * b..<6 * b + 6]"
      using upt_add_eq_append [of "6 * a" "6 * b" 6] by (simp add: add.commute)
    ultimately show ?thesis using Suc.IH by (simp add: expand_def)
  qed simp
qed

definition map_layout :: "nat \<Rightarrow> slot list" where
  "map_layout oob = layout (slot_at oob pilot_index80 zero_index80 (\<lambda>_. True)) 256"

definition table_layout :: "nat \<Rightarrow> slot list" where
  "table_layout oob =
     layout (slot_at oob pilot_index80_bits zero_index80_bits (\<lambda>n. n < 1404)) 1426"

lemma lengths_index:
  "length pilot_index80 = pilot_N" "length zero_index80 = zero_N"
  "length pilot_index80_bits = pilot_N" "length zero_index80_bits = zero_N"
  by (simp_all add: pilot_index80_def zero_index80_def pilot_index80_bits_def zero_index80_bits_def
      pilot_N_def zero_N_def)

lemmas map_rules = lay_hit [OF lengths_index(1,2)]
  lay_next [where guard = "\<lambda>_. True", OF lengths_index(1,2)]
lemmas table_rules = lay_hit [OF lengths_index(3,4)]
  lay_next [where guard = "\<lambda>n. n < 1404", OF lengths_index(3,4)]

lemma index_nth:
  "pilot_index80 ! i = [26, 54, 90, 118, 140, 168, 204, 232] ! i"
  "zero_index80 ! i = [1, 2, 3, 4, 5, 6, 128, 129, 130, 252, 253, 254, 255, 256] ! i"
  "pilot_index80_bits ! i = [121, 284, 495, 658, 770, 933, 1144, 1307] ! i"
  "zero_index80_bits ! i
     = [1, 2, 3, 4, 5, 6, 713, 714, 715, 1422, 1423, 1424, 1425, 1426] ! i"
  by (simp_all only: pilot_index80_def zero_index80_def pilot_index80_bits_def zero_index80_bits_def)

lemma map_layout_eq: "map_layout oob =
    [Zero, Zero, Zero, Zero, Zero, Zero] @ map Data [0..<19] @ Pilot 0 # map Data [19..<46]
    @ Pilot (Suc 0) # map Data [46..<81] @ Pilot (Suc (Suc 0)) # map Data [81..<108]
    @ Pilot (Suc (Suc (Suc 0))) # map Data [108..<117] @ [Zero, Zero, Zero] @ map Data [117..<126]
    @ Pilot (Suc (Suc (Suc (Suc 0)))) # map Data [126..<153]
    @ Pilot (Suc (Suc (Suc (Suc (Suc 0))))) # map Data [153..<188]
    @ Pilot (Suc (Suc (Suc (Suc (Suc (Suc 0)))))) # map Data [188..<215]
    @ Pilot (Suc (Suc (Suc (Suc (Suc (Suc (Suc 0))))))) # map Data [215..<234]
    @ [Zero, Zero, Zero, Zero, Zero]"
  unfolding map_layout_def layout_def
  by (simp add: map_rules index_nth del: upt_conv_Cons upt_rec_numeral)

lemma table_layout_eq: "table_layout oob =
    [Zero, Zero, Zero, Zero, Zero, Zero] @ map Data [0..<114] @ Pilot 0 # map Data [114..<276]
    @ Pilot (Suc 0) # map Data [276..<486] @ Pilot (Suc (Suc 0)) # map Data [486..<648]
    @ Pilot (Suc (Suc (Suc 0))) # map Data [648..<702] @ [Zero, Zero, Zero] @ map Data [702..<756]
    @ Pilot (Suc (Suc (Suc (Suc 0)))) # map Data [756..<918]
    @ Pilot (Suc (Suc (Suc (Suc (Suc 0))))) # map Data [918..<1128]
    @ Pilot (Suc (Suc (Suc (Suc (Suc (Suc 0)))))) # map Data [1128..<1290]
    @ Pilot (Suc (Suc (Suc (Suc (Suc (Suc (Suc 0))))))) # map Data [1290..<1404]
    @ [Zero, Zero, Zero, Zero, Zero]"
  unfolding table_layout_def layout_def
  by (simp add: table_rules all_below_lim index_nth del: upt_conv_Cons upt_rec_numeral)

text \<open>The layout of the table is that of the subcarriers with every data point spelled out as
  its six bits.\<close>

definition expand_all :: "slot list \<Rightarrow> slot list" where
  "expand_all sls = concat (map expand sls)"

lemma expand_all_simps:
  "expand_all [] = []"
  "expand_all (Pilot p # sls) = Pilot p # expand_all sls"
  "expand_all (Zero # sls) = Zero # expand_all sls"
  "a \<le> b \<Longrightarrow> expand_all (map Data [a..<b] @ sls) = map Data [6 * a..<6 * b] @ expand_all sls"
proof -
  show "expand_all []  = []" "expand_all (Pilot p # sls) = Pilot p # expand_all sls"
    "expand_all (Zero # sls) = Zero # expand_all sls"
    by (simp_all add: expand_all_def)
  assume "a \<le> b"
  then show "expand_all (map Data [a..<b] @ sls) = map Data [6 * a..<6 * b] @ expand_all sls"
    by (simp only: expand_all_def map_append concat_append map_map expand_run)
qed

lemma no_skip: "Skip \<notin> set (map_layout oob)" "Skip \<notin> set (table_layout oob)"
  unfolding map_layout_eq table_layout_eq by (auto simp del: upt_conv_Cons upt_rec_numeral)

lemma table_layout: "table_layout oob = expand_all (map_layout oob')"
  unfolding table_layout_eq map_layout_eq
  by (simp add: expand_all_simps del: upt_conv_Cons upt_rec_numeral)

end
