(* ===== verification/Modulate.thy ===== *)
theory Modulate
  imports Pilots
begin

text \<open>
  The constellation mapper of the plain build: \<open>modulate\<close>, \<open>bi2de\<close> and \<open>Modulation_11ax\<close> of
  \<^verbatim>\<open>process_data/process_datafunction/modulate.c\<close> on the tables of
  \<^verbatim>\<open>VarINIT/globalVarINIT.c\<close>, and \<open>PilotAdd_SubcarMap\<close>, which lays the points out on
  the subcarriers. \<open>bit_point\<close> is the specification: the point of a group of bits.
\<close>

section \<open>Constellations\<close>

text \<open>The literal tables list the points row by row, the imaginary part falling and, within a
  row, the real part rising.\<close>

definition qam :: "int list \<Rightarrow> complex32 list" where
  "qam levels = concat (map (\<lambda>y. map (\<lambda>x. cpx x y) levels) (rev levels))"

definition QAM1 :: "complex32 list" where
  "QAM1 = [cpx (- 8192) 0, cpx 8192 0]"

definition QAM2 :: "complex32 list" where
  "QAM2 = [cpx (- 5793) 5793, cpx 5793 5793, cpx (- 5793) (- 5793), cpx 5793 (- 5793)]"

definition QAM4 :: "complex32 list" where
  "QAM4 = qam [- 7772, - 2591, 2591, 7772]"

definition QAM8 :: "complex32 list" where
  "QAM8 = qam [- 8848, - 6320, - 3792, - 1264, 1264, 3792, 6320, 8848]"

definition QAM16 :: "complex32 list" where
  "QAM16 = qam [- 9424, - 8168, - 6911, - 5655, - 4398, - 3141, - 1885, - 628,
     628, 1885, 3141, 4398, 5655, 6911, 8168, 9424]"

definition gray_index :: "int list" where
  "gray_index = [1, 2, 4, 3, 8, 7, 5, 6, 16, 15, 13, 14, 9, 10, 12, 11]"

definition constellation :: "nat \<Rightarrow> complex32 list option" where
  "constellation mode = (if mode = 0 then Some QAM1 else if mode = 1 then Some QAM2
     else if mode = 2 then Some QAM4 else if mode = 3 then Some QAM8
     else if mode = 4 then Some QAM16 else None)"

definition twice :: "nat \<Rightarrow> int" where
  "twice N = 2 ^ N"

text \<open>The point of two labels: \<open>k = (twice(mode)-imag_j)*twice(mode)+real_j\<close>, then \<open>C[k-1]\<close>.\<close>

definition point_at :: "complex32 list \<Rightarrow> nat \<Rightarrow> nat \<Rightarrow> nat \<Rightarrow> complex32" where
  "point_at C mode a b =
     (let real_j = gray_index ! a; imag_j = gray_index ! b;
          k = (twice mode - imag_j) * twice mode + real_j
      in C ! nat (k - 1))"

section \<open>The operations\<close>

definition bi2de_value :: "nat \<Rightarrow> byte list \<Rightarrow> nat \<Rightarrow> int" where
  "bi2de_value mode row j =
     fold (\<lambda>k out. if row ! (mode * j + k) = 1 then out + twice (mode - (k + 1)) else out)
       [0..<mode] 0"

definition bi2de_row :: "nat \<Rightarrow> nat \<Rightarrow> byte list \<Rightarrow> byte list" where
  "bi2de_row mode num row =
     fold (\<lambda>j row. row[j := word_of_int (bi2de_value mode row j)]) [0..<num] row"

definition bi2de :: "byte list list \<Rightarrow> nat \<Rightarrow> nat \<Rightarrow> byte list list" where
  "bi2de code_out BCC_length mode =
     (let num = BCC_length div mode
      in fold (\<lambda>i rows. rows[i := bi2de_row mode num (rows ! i)]) [0..<N_STS] code_out)"

definition Modulation_11ax :: "byte list list \<Rightarrow> nat \<Rightarrow> nat \<Rightarrow> complex32 list list
    \<Rightarrow> complex32 list list option" where
  "Modulation_11ax code_out NumSampEffect mode sym_mod =
     (case constellation mode of
        None \<Rightarrow> None
      | Some C \<Rightarrow> Some (fold (\<lambda>i. fold (\<lambda>j. upd2 i j
            (point_at C mode (unat (code_out ! i ! (2 * j))) (unat (code_out ! i ! (2 * j + 1)))))
          [0..<NumSampEffect]) [0..<N_STS] sym_mod))"

text \<open>The exits of \<open>modulate\<close>.\<close>

datatype mod_error = Size_wrong | Mode_0 | Mode_wrong

record mod_result =
  mod_code :: "byte list list"
  mod_sym :: "complex32 list list"
  mod_num :: nat

definition modulate :: "globals \<Rightarrow> byte list list \<Rightarrow> nat \<Rightarrow> nat \<Rightarrow> complex32 list list
    \<Rightarrow> mod_error + mod_result" where
  "modulate g code_out BCC_length nsym sym_mod =
     (let m = mcs_table_for_20M g;
          mode = n_bpscs m div 2;
          NumSampEffect = n_cbps m * nsym div N_STS div n_bpscs m
      in if BCC_length \<noteq> n_bpscs m * NumSampEffect then Inl Size_wrong
         else if mode = 0 then Inl Mode_0
         else (let code = bi2de code_out BCC_length mode
               in case Modulation_11ax code NumSampEffect mode sym_mod of
                    None \<Rightarrow> Inl Mode_wrong
                  | Some syms \<Rightarrow> Inr \<lparr>mod_code = code, mod_sym = syms, mod_num = NumSampEffect\<rparr>))"

text \<open>\<open>Data_pilot\<close> of a symbol is \<open>Data_pilot80\<close> rotated by the symbol number.\<close>

definition pilots_of :: "globals \<Rightarrow> nat \<Rightarrow> complex32 list" where
  "pilots_of g symb = (let circshift = symb mod N_pilot g
     in map (\<lambda>j. Data_pilot80 ! ((j + circshift) mod pilot_N)) [0..<pilot_N])"

definition subcar_value :: "globals \<Rightarrow> complex32 list list \<Rightarrow> nat \<Rightarrow> nat \<Rightarrow> slot \<Rightarrow> complex32" where
  "subcar_value g sym_mod symb tx sl = (case sl of
       Pilot p \<Rightarrow> pilots_of g symb ! p
     | Zero \<Rightarrow> cpx 0 0
     | Data n \<Rightarrow> sym_mod ! tx ! (n + symb * (N_tone g - N_pilot g))
     | Skip \<Rightarrow> cpx 0 0)"

definition PilotAdd_SubcarMap :: "nat \<Rightarrow> globals \<Rightarrow> complex32 list list \<Rightarrow> nat \<Rightarrow> complex32 list list
    \<Rightarrow> complex32 list list" where
  "PilotAdd_SubcarMap oob g sym_mod nsym subcar_map_data =
     fold (\<lambda>symb. place_symbol (slot_at oob pilot_index80 zero_index80 (\<lambda>_. True))
         (subcar_value g sym_mod symb) (symb * subcar g) (subcar g)) [0..<nsym] subcar_map_data"

section \<open>Constellation facts\<close>

lemma QAM2_rows: "QAM2 = qam [- 5793, 5793]"
  by (simp add: QAM2_def qam_def)

lemma QAM4_literal: "QAM4 =
  [cpx (-7772) 7772, cpx (-2591) 7772, cpx 2591 7772, cpx 7772 7772,
   cpx (-7772) 2591, cpx (-2591) 2591, cpx 2591 2591, cpx 7772 2591,
   cpx (-7772) (-2591), cpx (-2591) (-2591), cpx 2591 (-2591), cpx 7772 (-2591),
   cpx (-7772) (-7772), cpx (-2591) (-7772), cpx 2591 (-7772), cpx 7772 (-7772)]"
  by (simp add: QAM4_def qam_def)

section \<open>The mapper\<close>

definition bit_point :: "nat \<Rightarrow> byte list \<Rightarrow> nat \<Rightarrow> complex32" where
  "bit_point mode row d =
     point_at (the (constellation mode)) mode (nat (bi2de_value mode row (2 * d)))
       (nat (bi2de_value mode row (2 * d + 1)))"

lemma bi2de_value_range: "0 \<le> bi2de_value mode row j \<and> bi2de_value mode row j < 2 ^ mode"
proof -
  let ?f = "\<lambda>k out. if row ! (mode * j + k) = 1 then out + twice (mode - (k + 1)) else out"
  define F where "F n = fold ?f [0..<n] 0" for n
  have step: "F (Suc n) = ?f n (F n)" for n by (simp add: F_def)
  have "n \<le> mode \<Longrightarrow> 0 \<le> F n \<and> F n + 2 ^ (mode - n) \<le> 2 ^ mode" for n
  proof (induction n)
    case 0
    then show ?case by (simp add: F_def)
  next
    case (Suc n)
    define e :: int where "e = 2 ^ (mode - Suc n)"
    have "(2 :: int) ^ (mode - n) = 2 * e" "0 < e"
      using Suc.prems by (simp_all flip: power_Suc add: Suc_diff_Suc e_def)
    moreover have "twice (mode - (n + 1)) = e" by (simp add: twice_def e_def)
    ultimately show ?case
      using Suc unfolding step e_def [symmetric] by auto
  qed
  from this [of mode] show ?thesis by (simp add: bi2de_value_def F_def)
qed

lemma bi2de_value_cong:
  "(\<And>k. r ! (mode * j + k) = r' ! (mode * j' + k)) \<Longrightarrow> bi2de_value mode r j = bi2de_value mode r' j'"
  by (simp add: bi2de_value_def)

text \<open>The conversion works in place: the write at \<open>j\<close> never touches bits still to be read.\<close>

lemma bi2de_row_nth:
  assumes "0 < mode" "mode \<le> 4" "num * mode \<le> length row"
  shows "j < num \<Longrightarrow> unat (bi2de_row mode num row ! j) = nat (bi2de_value mode row j)"
    and "length (bi2de_row mode num row) = length row"
proof -
  let ?b = "\<lambda>j row. row[j := word_of_int (bi2de_value mode row j) :: byte]"
  have inv: "length (fold ?b [0..<m] row) = length row
      \<and> (\<forall>j < m. fold ?b [0..<m] row ! j = word_of_int (bi2de_value mode row j))
      \<and> (\<forall>q \<ge> m. fold ?b [0..<m] row ! q = row ! q)" if "m \<le> num" for m
    using that
  proof (induction m)
    case 0
    then show ?case by simp
  next
    case (Suc m)
    let ?r = "fold ?b [0..<m] row"
    have "1 * m \<le> mode * m" using assms(1) by (intro mult_le_mono1) simp
    then have "m \<le> mode * m + k" for k by linarith
    then have same: "?r ! (mode * m + k) = row ! (mode * m + k)" for k using Suc by simp
    have val: "bi2de_value mode ?r m = bi2de_value mode row m"
      by (rule bi2de_value_cong) (rule same)
    have "num \<le> length row" using assms(1,3) by (metis Suc_leI le_trans mult.right_neutral mult_le_mono2
          One_nat_def)
    then have "m < length row" using Suc.prems by simp
    then show ?case using Suc by (auto simp: val nth_list_update less_Suc_eq)
  qed
  show "length (bi2de_row mode num row) = length row"
    using inv [OF order_refl] by (simp add: bi2de_row_def)
  assume "j < num"
  then have "bi2de_row mode num row ! j = word_of_int (bi2de_value mode row j)"
    using inv [OF order_refl] by (simp add: bi2de_row_def)
  moreover have "bi2de_value mode row j < 2 ^ 4"
    using bi2de_value_range [of mode row j] power_increasing [OF assms(2), of "2 :: int"] by simp
  ultimately show "unat (bi2de_row mode num row ! j) = nat (bi2de_value mode row j)"
    using bi2de_value_range [of mode row j] by (simp add: unsigned_of_int take_bit_int_eq_self)
qed

lemma bi2de_row_beyond: "num \<le> q \<Longrightarrow> bi2de_row mode num row ! q = row ! q"
proof -
  let ?b = "\<lambda>j row. row[j := word_of_int (bi2de_value mode row j) :: byte]"
  have "m \<le> q \<Longrightarrow> fold ?b [0..<m] row ! q = row ! q" for m
    by (induction m) simp_all
  then show "num \<le> q \<Longrightarrow> bi2de_row mode num row ! q = row ! q" by (simp add: bi2de_row_def)
qed

lemma fold_rows:
  assumes "i < length rows"
  shows "fold (\<lambda>i rows. rows[i := f (rows ! i)]) [0..<n] rows ! i
    = (if i < n then f (rows ! i) else rows ! i)"
proof -
  have "length (fold (\<lambda>i rows. rows[i := f (rows ! i)]) [0..<n] rows) = length rows
    \<and> (\<forall>i < length rows. fold (\<lambda>i rows. rows[i := f (rows ! i)]) [0..<n] rows ! i
      = (if i < n then f (rows ! i) else rows ! i))"
    by (induction n) (auto simp: nth_list_update less_Suc_eq)
  with assms show ?thesis by blast
qed

lemma Modulation_rows:
  assumes "rows_ge num sym_mod" "tx < N_STS" "d < num"
  shows "fold (\<lambda>i. fold (\<lambda>j. upd2 i j (v i j)) [0..<num]) [0..<N_STS] sym_mod ! tx ! d = v tx d"
proof -
  have "inj_on (\<lambda>k. k) {..<num}" by simp
  moreover have "tx < length sym_mod" "d < length (sym_mod ! tx)" using assms by (auto simp: rows_ge_def)
  ultimately show ?thesis
    unfolding fold_fold_nest(2) using nest_written(2) [where f = "\<lambda>_ k. k"] assms(2,3) by blast
qed

text \<open>The supported rates: everything but BPSK.\<close>

lemma mcs_mode:
  assumes "0 < MCS g" "MCS g < 10"
  defines "m \<equiv> mcs_table_for_20M g"
  shows "0 < n_bpscs m div 2" and "n_bpscs m div 2 \<le> 4" and "n_bpscs m = 2 * (n_bpscs m div 2)"
    and "n_cbps m * nsym div N_STS div n_bpscs m = 234 * nsym"
    and "n_cbps m div N_STS = 234 * n_bpscs m"
  using assms(1) unfolding m_def
  by (cases rule: less10_cases [OF assms(2)];
      simp add: mcs_table_for_20M_def mcs_tabs param_simps)+

lemma modulate_run:
  assumes "0 < MCS g" "MCS g < 10" "rows_ge (n_bpscs (mcs_table_for_20M g) * (234 * nsym)) code_out"
    and "rows_ge (234 * nsym) sym_mod"
  defines "m \<equiv> mcs_table_for_20M g"
  shows "\<exists>r. modulate g code_out (n_bpscs m * (234 * nsym)) nsym sym_mod = Inr r
    \<and> mod_num r = 234 * nsym
    \<and> (\<forall>tx < N_STS. \<forall>d < 234 * nsym.
        mod_sym r ! tx ! d = bit_point (n_bpscs m div 2) (code_out ! tx) d)"
proof -
  let ?mode = "n_bpscs m div 2" and ?N = "234 * nsym"
  note mode = mcs_mode [OF assms(1,2), folded m_def]
  let ?code = "bi2de code_out (n_bpscs m * ?N) ?mode"
  have "?mode = 0 \<or> ?mode = 1 \<or> ?mode = 2 \<or> ?mode = 3 \<or> ?mode = 4" using mode(2) by linarith
  then obtain C where C: "constellation ?mode = Some C"
    unfolding constellation_def by (elim disjE) simp_all
  let ?syms = "fold (\<lambda>i. fold (\<lambda>j. upd2 i j
      (point_at C ?mode (unat (?code ! i ! (2 * j))) (unat (?code ! i ! (2 * j + 1)))))
    [0..<?N]) [0..<N_STS] sym_mod"
  have "n_bpscs m * ?N = 2 * ?mode * ?N" using arg_cong [OF mode(3), of "\<lambda>x. x * ?N"] .
  also have "\<dots> = ?mode * (2 * ?N)" by (simp only: mult_ac)
  finally have e: "n_bpscs m * ?N = ?mode * (2 * ?N)" .
  have len: "n_bpscs m * ?N div ?mode = 2 * ?N"
    unfolding e using mode(1) by (intro nonzero_mult_div_cancel_left) simp
  have run: "modulate g code_out (n_bpscs m * ?N) nsym sym_mod
      = Inr \<lparr>mod_code = ?code, mod_sym = ?syms, mod_num = ?N\<rparr>"
    using mode(1) by (simp add: modulate_def Let_def m_def [symmetric] mode(4) Modulation_11ax_def C)
  have "?syms ! tx ! d = bit_point ?mode (code_out ! tx) d" if tx: "tx < N_STS" and d: "d < ?N" for tx d
  proof -
    have "tx < length code_out" "n_bpscs m * ?N \<le> length (code_out ! tx)"
      using assms(3) tx by (auto simp: rows_ge_def m_def)
    then have row: "tx < length code_out" "2 * ?N * ?mode \<le> length (code_out ! tx)"
      by (simp_all only: e mult.commute [of ?mode])
    then have "?code ! tx = bi2de_row ?mode (2 * ?N) (code_out ! tx)"
      using tx by (simp add: bi2de_def Let_def len fold_rows [OF row(1)])
    then have "unat (?code ! tx ! j) = nat (bi2de_value ?mode (code_out ! tx) j)" if "j < 2 * ?N" for j
      using bi2de_row_nth(1) [OF mode(1,2) row(2) that] by simp
    then show ?thesis
      using Modulation_rows [OF assms(4) tx d] d by (simp add: bit_point_def C)
  qed
  then have pts: "\<forall>tx < N_STS. \<forall>d < ?N. ?syms ! tx ! d = bit_point ?mode (code_out ! tx) d" by blast
  let ?r = "\<lparr>mod_code = ?code, mod_sym = ?syms, mod_num = ?N\<rparr>"
  have "mod_num ?r = ?N" by simp
  moreover have "\<forall>tx < N_STS. \<forall>d < ?N. mod_sym ?r ! tx ! d = bit_point ?mode (code_out ! tx) d"
    unfolding mod_result.simps by (rule pts)
  ultimately show ?thesis using run by blast
qed

section \<open>Gray labels\<close>

text \<open>The amplitudes of a constellation.\<close>

definition levels_of :: "nat \<Rightarrow> int list" where
  "levels_of mode = (if mode = 1 then [- 5793, 5793]
     else if mode = 2 then [- 7772, - 2591, 2591, 7772]
     else if mode = 3 then [- 8848, - 6320, - 3792, - 1264, 1264, 3792, 6320, 8848]
     else [- 9424, - 8168, - 6911, - 5655, - 4398, - 3141, - 1885, - 628,
       628, 1885, 3141, 4398, 5655, 6911, 8168, 9424])"

lemma mode_cases:
  assumes "0 < mode" "mode \<le> (4 :: nat)"
  obtains "mode = 1" | "mode = 2" | "mode = 3" | "mode = 4"
  using assms by linarith

lemma levels_of_facts:
  assumes "0 < mode" "mode \<le> 4"
  shows "length (levels_of mode) = 2 ^ mode" "sorted_wrt (<) (levels_of mode)"
    "map uminus (rev (levels_of mode)) = levels_of mode"
    "constellation mode = Some (qam (levels_of mode))"
  by (cases rule: mode_cases [OF assms];
      simp add: levels_of_def constellation_def QAM2_rows QAM4_def QAM8_def QAM16_def)+

lemma qam_nth:
  assumes "x < length levels" "y < length levels"
  shows "qam levels ! (y * length levels + x) = cpx (levels ! x) (rev levels ! y)"
proof -
  let ?f = "\<lambda>i. map (\<lambda>x. cpx x (rev levels ! i)) levels"
  have "map (\<lambda>y. map (\<lambda>x. cpx x y) levels) (rev levels) = map ?f [0..<length levels]"
    by (rule nth_equalityI) simp_all
  then show ?thesis
    using concat_blocks_nth [of "length levels" ?f "length levels" y x] assms by (simp add: qam_def)
qed

text \<open>The position of a label: \<open>gray_index\<close> inverts the reflected binary code.\<close>

lemma gray_code:
  assumes "0 < mode" "mode \<le> 4" "a < 2 ^ mode"
  shows "1 \<le> gray_index ! a \<and> gray_index ! a \<le> 2 ^ mode
    \<and> (let p = nat (gray_index ! a) - 1 in p < 2 ^ mode \<and> p XOR (p div 2) = a)"
proof -
  have all: "\<forall>a \<in> set [0..<16]. (nat (gray_index ! a) - 1) XOR ((nat (gray_index ! a) - 1) div 2) = a"
    by (simp add: gray_index_def upt_16)
  have "\<forall>a \<in> set [0..<2 ^ mode]. 1 \<le> gray_index ! a \<and> gray_index ! a \<le> 2 ^ mode"
    by (cases rule: mode_cases [OF assms(1,2)]; simp add: gray_index_def upt_rec)
  then have r: "1 \<le> gray_index ! a" "gray_index ! a \<le> 2 ^ mode" using assms(3) by simp_all
  have "a < 16" using power_increasing [OF assms(2), of "2 :: nat"] assms(3) by simp
  then have "(nat (gray_index ! a) - 1) XOR ((nat (gray_index ! a) - 1) div 2) = a" using all by simp
  moreover have "nat (gray_index ! a) \<le> 2 ^ mode" "0 < nat (gray_index ! a)"
    using r by (simp_all add: nat_le_iff)
  then have "nat (gray_index ! a) - 1 < 2 ^ mode" by linarith
  ultimately show ?thesis using r by (simp only: Let_def)
qed

text \<open>The point of two labels in terms of their positions.\<close>

lemma point_at_levels:
  assumes "0 < mode" "mode \<le> 4" "a < 2 ^ mode" "b < 2 ^ mode"
  shows "point_at (the (constellation mode)) mode a b
    = cpx (levels_of mode ! (nat (gray_index ! a) - 1)) (levels_of mode ! (nat (gray_index ! b) - 1))"
proof -
  let ?n = "2 ^ mode :: nat"
  note f = levels_of_facts [OF assms(1,2)]
  define x where "x = nat (gray_index ! a) - 1"
  define y where "y = nat (gray_index ! b) - 1"
  have of_pos: "g = int (nat g - 1) + 1" if "1 \<le> g" for g using that by linarith
  have "1 \<le> gray_index ! a" "1 \<le> gray_index ! b" and small: "x < ?n" "y < ?n"
    using gray_code [OF assms(1,2,3)] gray_code [OF assms(1,2,4)] by (simp_all add: x_def y_def Let_def)
  from this(1,2) have xy: "gray_index ! a = int x + 1" "gray_index ! b = int y + 1" "x < ?n" "y < ?n"
    using small unfolding x_def y_def by (blast intro: of_pos)+
  define z where "z = ?n - 1 - y"
  have z: "2 ^ mode - (int y + 1) = int z" using xy(4) by (simp add: z_def of_nat_diff)
  have "(twice mode - gray_index ! b) * twice mode + gray_index ! a - 1 = int (z * ?n + x)"
    unfolding xy(1,2) twice_def z by simp
  then have "point_at (the (constellation mode)) mode a b = qam (levels_of mode) ! (z * ?n + x)"
    by (simp add: point_at_def Let_def f(4) del: of_nat_add of_nat_mult)
  also have "\<dots> = cpx (levels_of mode ! x) (rev (levels_of mode) ! z)"
    using qam_nth [of x "levels_of mode" z] xy(3,4) by (simp add: f(1) z_def)
  also have "rev (levels_of mode) ! z = levels_of mode ! y"
    using xy(4) by (simp add: rev_nth f(1) z_def)
  finally show ?thesis by (simp add: x_def y_def)
qed

text \<open>The label of a group of bits, the first the highest.\<close>

definition label :: "byte list \<Rightarrow> nat" where
  "label bits = foldl (\<lambda>a b. 2 * a + of_bool (b = 1)) 0 bits"

lemma bi2de_label:
  "nat (bi2de_value mode row j) = label (map ((!) row) [mode * j..<mode * j + mode])"
proof -
  let ?f = "\<lambda>k out. if row ! (mode * j + k) = 1 then out + twice (mode - (k + 1)) else out"
  have "n \<le> mode \<Longrightarrow> fold ?f [0..<n] 0 = 2 ^ (mode - n) * int (label (map ((!) row) [mode * j..<mode * j + n]))" for n
  proof (induction n)
    case 0
    then show ?case by (simp add: label_def)
  next
    case (Suc n)
    have "(2 :: int) ^ (mode - n) = 2 * 2 ^ (mode - Suc n)"
      using Suc.prems by (simp flip: power_Suc add: Suc_diff_Suc)
    then show ?case using Suc by (simp add: label_def twice_def algebra_simps)
  qed
  from this [of mode] show ?thesis by (simp add: bi2de_value_def)
qed

lemma label_less: "label bits < 2 ^ length bits"
proof (induction bits rule: rev_induct)
  case Nil
  then show ?case by (simp add: label_def)
next
  case (snoc b bits)
  then show ?case by (simp add: label_def)
qed

lemma bit_point_levels:
  assumes "0 < mode" "mode \<le> 4"
  shows "\<exists>p q. p < 2 ^ mode \<and> q < 2 ^ mode
    \<and> p XOR (p div 2) = label (map ((!) row) [2 * mode * d..<2 * mode * d + mode])
    \<and> q XOR (q div 2) = label (map ((!) row) [2 * mode * d + mode..<2 * mode * d + 2 * mode])
    \<and> bit_point mode row d = cpx (levels_of mode ! p) (levels_of mode ! q)"
proof -
  let ?a = "label (map ((!) row) [2 * mode * d..<2 * mode * d + mode])"
  let ?b = "label (map ((!) row) [2 * mode * d + mode..<2 * mode * d + 2 * mode])"
  have ab: "?a < 2 ^ mode" "?b < 2 ^ mode"
    using label_less [of "map ((!) row) [2 * mode * d..<2 * mode * d + mode]"]
      label_less [of "map ((!) row) [2 * mode * d + mode..<2 * mode * d + 2 * mode]"] by simp_all
  have idx: "mode * (2 * d) = 2 * mode * d" "mode * (2 * d + 1) = 2 * mode * d + mode"
    "2 * mode * d + mode + mode = 2 * mode * d + 2 * mode" by (simp_all add: algebra_simps)
  have "bit_point mode row d = point_at (the (constellation mode)) mode ?a ?b"
    unfolding bit_point_def bi2de_label idx ..
  also note point_at_levels [OF assms ab]
  finally show ?thesis
    using gray_code [OF assms ab(1)] gray_code [OF assms ab(2)] unfolding Let_def by blast
qed

section \<open>Properties\<close>

text \<open>C15: the mapper of the plain build. At the rates 1 to 9, on rows of code bits of the
  length the encoder gives, \<open>modulate\<close> returns, and each point of each stream has as its real
  and imaginary parts the amplitudes whose positions carry, in the reflected Gray code, the
  first and the second half of its bits as labels; so neighbours in the constellation differ in
  one bit. The amplitudes rise with the position and lie symmetric around zero.\<close>

theorem modulate_gray:
  assumes "0 < MCS g" "MCS g < 10"
  defines "m \<equiv> mcs_table_for_20M g"
  defines "mode \<equiv> n_bpscs m div 2"
  assumes "rows_ge (n_bpscs m * (234 * nsym)) code_out" "rows_ge (234 * nsym) sym_mod"
  shows "\<exists>r levels. modulate g code_out (n_bpscs m * (234 * nsym)) nsym sym_mod = Inr r
    \<and> mod_num r = 234 * nsym
    \<and> length levels = 2 ^ mode \<and> sorted_wrt (<) levels \<and> map uminus (rev levels) = levels
    \<and> (\<forall>tx < N_STS. \<forall>d < 234 * nsym. \<exists>p q. p < 2 ^ mode \<and> q < 2 ^ mode
        \<and> p XOR (p div 2) = label (map ((!) (code_out ! tx)) [2 * mode * d..<2 * mode * d + mode])
        \<and> q XOR (q div 2)
            = label (map ((!) (code_out ! tx)) [2 * mode * d + mode..<2 * mode * d + 2 * mode])
        \<and> mod_sym r ! tx ! d = cpx (levels ! p) (levels ! q))"
proof -
  note md = mcs_mode(1,2) [OF assms(1,2), folded m_def, folded mode_def]
  obtain r where r: "modulate g code_out (n_bpscs m * (234 * nsym)) nsym sym_mod = Inr r"
      "mod_num r = 234 * nsym"
    and pts: "\<forall>tx < N_STS. \<forall>d < 234 * nsym. mod_sym r ! tx ! d = bit_point mode (code_out ! tx) d"
    using modulate_run [OF assms(1,2) assms(5) [unfolded m_def] assms(6)] unfolding m_def mode_def by blast
  show ?thesis
  proof (intro exI [of _ r] exI [of _ "levels_of mode"] conjI allI impI)
    fix tx d
    assume "tx < N_STS" "d < 234 * nsym"
    then show "\<exists>p q. p < 2 ^ mode \<and> q < 2 ^ mode
        \<and> p XOR (p div 2) = label (map ((!) (code_out ! tx)) [2 * mode * d..<2 * mode * d + mode])
        \<and> q XOR (q div 2)
            = label (map ((!) (code_out ! tx)) [2 * mode * d + mode..<2 * mode * d + 2 * mode])
        \<and> mod_sym r ! tx ! d = cpx (levels_of mode ! p) (levels_of mode ! q)"
      using bit_point_levels [OF md] by (simp only: pts)
  qed (rule r levels_of_facts [OF md])+
qed

theorem modulate_gray_witness:
  "\<exists>r levels. modulate globals0 (replicate 4 (replicate 2808 1)) 2808 2 (replicate 4 (replicate 468 (cpx 0 0)))
      = Inr r
    \<and> length levels = 8 \<and> sorted_wrt (<) levels
    \<and> (\<exists>p q. p < 8 \<and> p XOR (p div 2) = 7 \<and> mod_sym r ! 2 ! 467 = cpx (levels ! p) (levels ! q))"
proof -
  have m: "0 < MCS globals0" "MCS globals0 < 10" by (simp_all add: globals0_def)
  have b: "n_bpscs (mcs_table_for_20M globals0) = 6"
    by (simp add: globals0_def mcs_table_for_20M_def mcs_tabs param_simps)
  have rows: "rows_ge (n_bpscs (mcs_table_for_20M globals0) * (234 * 2)) (replicate 4 (replicate 2808 (1 :: byte)))"
    "rows_ge (234 * 2) (replicate 4 (replicate 468 (cpx 0 0)))"
    by (simp_all add: rows_ge_def N_STS_def b)
  have lab: "label (map ((!) (replicate 4 (replicate 2808 (1 :: byte)) ! 2)) [6 * 467..<6 * 467 + 3]) = 7"
    by (simp add: label_def upt_rec)
  obtain r levels where *: "modulate globals0 (replicate 4 (replicate 2808 1)) 2808 2
        (replicate 4 (replicate 468 (cpx 0 0))) = Inr r"
      "length levels = 8" "sorted_wrt (<) levels"
    and "\<forall>tx < N_STS. \<forall>d < 234 * 2. \<exists>p q. p < 8 \<and> q < 8
        \<and> p XOR (p div 2) = label (map ((!) (replicate 4 (replicate 2808 1) ! tx)) [6 * d..<6 * d + 3])
        \<and> q XOR (q div 2) = label (map ((!) (replicate 4 (replicate 2808 1) ! tx)) [6 * d + 3..<6 * d + 6])
        \<and> mod_sym r ! tx ! d = cpx (levels ! p) (levels ! q)"
    using modulate_gray [OF m rows] by (auto simp: b)
  from this(4) [rule_format, of 2 467] have "\<exists>p q. p < 8 \<and> p XOR (p div 2) = 7
      \<and> mod_sym r ! 2 ! 467 = cpx (levels ! p) (levels ! q)"
    unfolding lab N_STS_def by auto
  with * show ?thesis by blast
qed

text \<open>The power of the constellations. The mean energy of the points of each table, BPSK
  included, is that of the fixed-point unit \<open>8192\<close> up to one part in a thousand, and no part
  leaves the range of \<open>int16\<close> doubled, so that the sum of two points cannot overflow.\<close>

definition energy :: "complex32 \<Rightarrow> int" where
  "energy c = (sint (re c))\<^sup>2 + (sint (im c))\<^sup>2"

theorem constellation_energy:
  assumes "constellation mode = Some C"
  shows "length C = (if mode = 0 then 2 else 4 ^ mode)
    \<and> \<bar>sum_list (map energy C) - int (length C) * 8192\<^sup>2\<bar> * 1000 \<le> int (length C) * 8192\<^sup>2
    \<and> (\<forall>c \<in> set C. 2 * \<bar>sint (re c)\<bar> < 2 ^ 15 \<and> 2 * \<bar>sint (im c)\<bar> < 2 ^ 15)"
proof -
  have "mode = 0 \<and> C = QAM1 \<or> mode = 1 \<and> C = QAM2 \<or> mode = 2 \<and> C = QAM4 \<or> mode = 3 \<and> C = QAM8
    \<or> mode = 4 \<and> C = QAM16"
    using assms by (auto simp: constellation_def split: if_splits)
  then show ?thesis
    by (elim disjE conjE; simp add: QAM1_def QAM2_def QAM4_def QAM8_def QAM16_def qam_def energy_def cpx_def)
qed

theorem constellation_energy_witness:
  "\<bar>sum_list (map energy QAM16) - 256 * 8192\<^sup>2\<bar> * 1000 \<le> 256 * 8192\<^sup>2"
proof -
  have "constellation 4 = Some QAM16" by (simp add: constellation_def)
  from constellation_energy [OF this] show ?thesis by (elim conjE) simp
qed

end
