(* ===== verification/ModulateOpt.thy ===== *)
theory ModulateOpt
  imports Modulate "HOL-Library.Monad_Syntax"
begin

text \<open>
  The mapper of the build with \<open>OPTIMIZATION\<close>, \<^verbatim>\<open>modulate_opt.c\<close>: the interleaver table
  with pilot markers (\<open>PilotAdd_table\<close>, \<open>initial_streamwave_table\<close>), the table from six bits
  to a point (\<open>init_mapping_table\<close>) and the mapper that walks the first and looks up the second
  (\<open>stream_interweave_mapping\<close>, called by \<open>modulate_mapping\<close>). An access outside an array is
  \<open>None\<close>. The refinement theorem states that for the rates with six bits per point and up to
  two symbols this mapper writes what \<open>BCC_encoder\<close>, \<open>modulate\<close> and \<open>PilotAdd_SubcarMap\<close> write.
\<close>

section \<open>Checked array accesses\<close>

definition get :: "'a list \<Rightarrow> nat \<Rightarrow> 'a option" where
  "get xs i = (if i < length xs then Some (xs ! i) else None)"

definition put :: "'a list \<Rightarrow> nat \<Rightarrow> 'a \<Rightarrow> 'a list option" where
  "put xs i v = (if i < length xs then Some (xs[i := v]) else None)"

section \<open>The table with pilot markers\<close>

definition markers_of :: "globals \<Rightarrow> nat \<Rightarrow> int list" where
  "markers_of g i = (let cirshift = i mod N_pilot g
     in map (\<lambda>j. Data_pilot ! ((j + cirshift) mod pilot_N)) [0..<pilot_N])"

definition table_value :: "globals \<Rightarrow> int16 list list \<Rightarrow> nat \<Rightarrow> nat \<Rightarrow> slot \<Rightarrow> int16" where
  "table_value g code_in i tx sl = (case sl of
       Pilot p \<Rightarrow> word_of_int (markers_of g i ! p)
     | Zero \<Rightarrow> 6001
     | Data n \<Rightarrow> code_in ! tx ! n
     | Skip \<Rightarrow> 0)"

definition PilotAdd_table :: "nat \<Rightarrow> globals \<Rightarrow> int16 list list \<Rightarrow> nat \<Rightarrow> int16 list list \<Rightarrow> nat \<Rightarrow> nat
    \<Rightarrow> int16 list list" where
  "PilotAdd_table oob g code_in code_inLength code_out code_outLength nsym =
     fold (\<lambda>i. place_symbol
         (slot_at oob pilot_index80_bits zero_index80_bits (\<lambda>n. n < code_inLength))
         (table_value g code_in i) (i * code_outLength) code_outLength) [0..<nsym] code_out"

text \<open>The two arrays of rows fresh from \<open>malloc\<close> are arguments.\<close>

definition initial_streamwave_table :: "nat \<Rightarrow> globals \<Rightarrow> nat \<Rightarrow> int16 list list \<Rightarrow> int16 list list
    \<Rightarrow> int16 list list \<Rightarrow> int16 list list" where
  "initial_streamwave_table oob g nsym junk code_in_table streamweave_table =
     (let m = mcs_table_for_20M g;
          CodeLength = n_cbps m div N_STS;
          TableLength = CodeLength + pilot_N + zero_N;
          code_in = generate_stream_code_in_table (n_bpscs m) (n_cbps m) (n_es m) junk code_in_table
      in PilotAdd_table oob g code_in CodeLength streamweave_table TableLength nsym)"

section \<open>The table of points\<close>

definition mapping_entry :: "complex32 list \<Rightarrow> nat \<Rightarrow> nat \<Rightarrow> complex32 option" where
  "mapping_entry C mode i = do {
     let topThr = drop_bit 3 (i AND 56);
     let atfThr = i AND 7;
     imag_j \<leftarrow> get gray_index atfThr;
     real_j \<leftarrow> get gray_index topThr;
     let k = (twice mode - imag_j) * twice mode + real_j;
     if 0 \<le> k - 1 then get C (nat (k - 1)) else None }"

definition init_mapping_table :: "globals \<Rightarrow> complex32 list option" where
  "init_mapping_table g = do {
     let m = mcs_table_for_20M g;
     let mode = n_bpscs m div 2;
     C \<leftarrow> constellation mode;
     those (map (mapping_entry C mode) [0..<2 ^ n_bpscs m]) }"

section \<open>The mapper\<close>

definition pilot_type :: "complex32 list" where
  "pilot_type = [cpx (- 8192) 0, cpx 0 0, cpx 8192 0]"

text \<open>The address of a point: the low bits of six bytes of the encoder's output, the first as
  the highest.\<close>

fun addr_bits :: "int16 list \<Rightarrow> byte list \<Rightarrow> nat \<Rightarrow> nat \<Rightarrow> nat \<Rightarrow> nat \<Rightarrow> nat option" where
  "addr_bits tab outs shift j 0 addr = Some addr"
| "addr_bits tab outs shift j (Suc k) addr = do {
     e \<leftarrow> get tab j;
     b \<leftarrow> get outs (nat (sint e) + shift);
     addr_bits tab outs shift (j + 1) k (2 * addr OR unat (b AND 1)) }"

text \<open>The loop over \<open>j\<close> of one stream, which advances \<open>j\<close> by five more after a group; \<open>base\<close> is
  the offset of the stream in the flat buffer.\<close>

function map_loop :: "int16 list \<Rightarrow> byte list \<Rightarrow> complex32 list \<Rightarrow> nat \<Rightarrow> nat \<Rightarrow> nat \<Rightarrow> nat \<Rightarrow> nat \<Rightarrow> nat
    \<Rightarrow> complex32 list \<Rightarrow> complex32 list option" where
  "map_loop tab outs pts TableLength cbps base L j t buf =
     (if j < L then do {
        e \<leftarrow> get tab j;
        if 6000 \<le> sint e
        then do {
          c \<leftarrow> get pilot_type (nat (sint e - 6000));
          buf \<leftarrow> put buf (base + t) c;
          map_loop tab outs pts TableLength cbps base L (j + 1) (t + 1) buf }
        else do {
          addr_p \<leftarrow> addr_bits tab outs (if TableLength \<le> j then cbps else 0) j 6 0;
          c \<leftarrow> get pts addr_p;
          buf \<leftarrow> put buf (base + t) c;
          map_loop tab outs pts TableLength cbps base L (j + 6) (t + 1) buf } }
      else Some buf)"
  by pat_completeness auto
termination
  by (relation "measure (\<lambda>(tab, outs, pts, TableLength, cbps, base, L, j, t, buf). L - j)") auto

declare map_loop.simps [simp del]

fun map_streams :: "nat list \<Rightarrow> (nat \<Rightarrow> complex32 list \<Rightarrow> complex32 list option) \<Rightarrow> complex32 list
    \<Rightarrow> complex32 list option" where
  "map_streams [] f buf = Some buf"
| "map_streams (i # is) f buf = do { buf \<leftarrow> f i buf; map_streams is f buf }"

definition stream_interweave_mapping :: "globals \<Rightarrow> byte list \<Rightarrow> complex32 list \<Rightarrow> int16 list list
    \<Rightarrow> complex32 list \<Rightarrow> complex32 list option" where
  "stream_interweave_mapping g outs sym_mod weave pts =
     (let m = mcs_table_for_20M g;
          nsym = nat (num_sym g);
          N_CBPSS = n_cbps m div N_STS;
          TableLength = N_CBPSS + pilot_N + zero_N
      in map_streams [0..<N_STS]
           (\<lambda>i buf. map_loop (weave ! i) outs pts TableLength (n_cbps m) (i * subcar g * nsym)
              (TableLength * nsym) 0 0 buf) sym_mod)"

definition modulate_mapping :: "globals \<Rightarrow> byte list \<Rightarrow> complex32 list \<Rightarrow> int16 list list
    \<Rightarrow> complex32 list \<Rightarrow> complex32 list option" where
  "modulate_mapping g BCC_output subcar_map_data streamweave_table subcar_map_data_table =
     stream_interweave_mapping g BCC_output subcar_map_data streamweave_table subcar_map_data_table"

section \<open>The table of points for six bits\<close>

lemma those_map: "(\<And>x. x \<in> set xs \<Longrightarrow> f x = Some (g x)) \<Longrightarrow> those (map f xs) = Some (map g xs)"
  by (induction xs) simp_all

lemma less8_cases:
  assumes "(n :: nat) < 8"
  obtains "n = 0" | "n = 1" | "n = 2" | "n = 3" | "n = 4" | "n = 5" | "n = 6" | "n = 7"
  using assms by fastforce

lemma gray_range: "a < 8 \<Longrightarrow> 1 \<le> gray_index ! a \<and> gray_index ! a \<le> 8"
  by (erule less8_cases; simp add: gray_index_def)

lemma label_bits:
  fixes i :: nat
  assumes "i < 64"
  shows "drop_bit 3 (i AND 56) = i div 8" and "i AND 7 = i mod 8"
proof -
  have m: "(mask 3 :: nat) = 7" by (simp add: mask_eq_exp_minus_1)
  show "i AND 7 = i mod 8"
    using take_bit_eq_mask [of 3 i] by (simp add: m take_bit_eq_mod)
  have "drop_bit 3 (i AND 56) = drop_bit 3 i AND drop_bit 3 56" by (rule drop_bit_and)
  also have "drop_bit 3 (56 :: nat) = 7" by (simp add: drop_bit_eq_div)
  also have "drop_bit 3 i AND 7 = take_bit 3 (drop_bit 3 i)" by (simp add: take_bit_eq_mask m)
  also have "\<dots> = i div 8" using assms by (simp add: drop_bit_eq_div take_bit_eq_mod)
  finally show "drop_bit 3 (i AND 56) = i div 8" .
qed

lemma length_QAM8: "length QAM8 = 64"
  by (simp add: QAM8_def qam_def)

lemma mapping_entry_6:
  assumes "i < 64"
  shows "mapping_entry QAM8 3 i = Some (point_at QAM8 3 (i div 8) (i mod 8))"
proof -
  have a: "i div 8 < 8" "i mod 8 < 8" using assms by simp_all
  note r = gray_range [OF a(1)] gray_range [OF a(2)]
  have len: "length gray_index = 16" by (simp add: gray_index_def)
  let ?k = "(8 - gray_index ! (i mod 8)) * 8 + gray_index ! (i div 8)"
  have "0 \<le> ?k - 1 \<and> ?k - 1 < 64" using r by auto
  then have k: "0 \<le> ?k - 1" "nat (?k - 1) < length QAM8" by (simp_all add: length_QAM8 nat_less_iff)
  have g: "get gray_index (i mod 8) = Some (gray_index ! (i mod 8))"
    "get gray_index (i div 8) = Some (gray_index ! (i div 8))"
    using a by (simp_all add: get_def len)
  have t: "twice 3 = 8" by (simp add: twice_def)
  have "get QAM8 (nat (?k - 1)) = Some (QAM8 ! nat (?k - 1))" using k(2) by (simp only: get_def if_True)
  then show ?thesis
    unfolding mapping_entry_def label_bits [OF assms] Let_def g point_at_def t
    using k(1) by (simp only: bind.bind_lunit if_True)
qed

lemma mapping_table_6:
  assumes "n_bpscs (mcs_table_for_20M g) = 6"
  shows "init_mapping_table g = Some (map (\<lambda>i. point_at QAM8 3 (i div 8) (i mod 8)) [0..<64])"
  using those_map [of "[0..<64]" "mapping_entry QAM8 3"] mapping_entry_6
  by (simp add: init_mapping_table_def assms constellation_def del: upt_conv_Cons upt_rec_numeral)

section \<open>The walk over a row of the table\<close>

datatype item = Mark int16 | Group nat "int16 list"

fun item_entries :: "item \<Rightarrow> int16 list" where
  "item_entries (Mark e) = [e]"
| "item_entries (Group sh es) = es"

definition addr_of :: "byte list \<Rightarrow> nat \<Rightarrow> int16 list \<Rightarrow> nat \<Rightarrow> nat" where
  "addr_of outs sh es a = foldl (\<lambda>a e. 2 * a OR unat (outs ! (nat (sint e) + sh) AND 1)) a es"

fun item_value :: "byte list \<Rightarrow> complex32 list \<Rightarrow> item \<Rightarrow> complex32" where
  "item_value outs pts (Mark e) = pilot_type ! nat (sint e - 6000)"
| "item_value outs pts (Group sh es) = pts ! addr_of outs sh es 0"

fun fits :: "nat \<Rightarrow> nat \<Rightarrow> byte list \<Rightarrow> nat \<Rightarrow> item list \<Rightarrow> bool" where
  "fits TL cbps outs j [] = True"
| "fits TL cbps outs j (Mark e # its) = (6000 \<le> sint e \<and> sint e \<le> 6002 \<and> fits TL cbps outs (j + 1) its)"
| "fits TL cbps outs j (Group sh es # its) =
     (length es = 6 \<and> sh = (if TL \<le> j then cbps else 0)
      \<and> (\<forall>e \<in> set es. sint e < 6000 \<and> nat (sint e) + sh < length outs)
      \<and> fits TL cbps outs (j + 6) its)"

lemma addr_bits_run:
  "drop j tab = es @ rest \<Longrightarrow> (\<forall>e \<in> set es. nat (sint e) + sh < length outs) \<Longrightarrow>
    addr_bits tab outs sh j (length es) a = Some (addr_of outs sh es a)"
proof (induction es arbitrary: j a)
  case Nil
  then show ?case by (simp add: addr_of_def)
next
  case (Cons e es)
  have j: "j < length tab" "tab ! j = e"
    using Cons.prems(1) by (metis append_Cons drop_eq_Nil not_le list.distinct(1),
        metis append_Cons drop_eq_Nil not_le list.distinct(1) Cons_nth_drop_Suc list.inject)
  then have "drop (Suc j) tab = es @ rest"
    using Cons.prems(1) by (metis append_Cons Cons_nth_drop_Suc list.inject)
  then show ?case
    using Cons j by (simp add: get_def addr_of_def)
qed

lemma or_bit: "2 * a OR unat (b AND 1 :: byte) = 2 * a + of_bool (odd b)"
proof -
  have "unat (b AND 1) = of_bool (odd b)" by (simp add: and_one_eq mod2_eq_if)
  then show ?thesis by (simp add: or_Suc_0_eq)
qed

lemma addr_of_less: "a < 2 ^ k \<Longrightarrow> addr_of outs sh es a < 2 ^ (k + length es)"
proof (induction es arbitrary: a k)
  case Nil
  then show ?case by (simp add: addr_of_def)
next
  case (Cons e es)
  have "addr_of outs sh es (2 * a + of_bool (odd (outs ! (nat (sint e) + sh)))) < 2 ^ (Suc k + length es)"
    by (rule Cons.IH) (use Cons.prems in simp)
  then show ?case by (simp add: addr_of_def or_bit)
qed

lemma map_loop_items:
  assumes "length pts = 64"
  shows "drop j tab = concat (map item_entries its) \<Longrightarrow> j \<le> length tab \<Longrightarrow>
    fits TL cbps outs j its \<Longrightarrow> base + t + length its \<le> length buf \<Longrightarrow>
    \<exists>buf'. map_loop tab outs pts TL cbps base (length tab) j t buf = Some buf'
      \<and> length buf' = length buf
      \<and> (\<forall>i < length its. buf' ! (base + t + i) = item_value outs pts (its ! i))
      \<and> (\<forall>p. p < base + t \<or> base + t + length its \<le> p \<longrightarrow> buf' ! p = buf ! p)"
proof (induction its arbitrary: j t buf)
  case Nil
  then show ?case by (subst map_loop.simps) simp
next
  case (Cons it its)
  let ?c = "item_value outs pts it"
  let ?buf = "buf[base + t := ?c]"
  let ?d = "length (item_entries it)"
  have d: "0 < ?d" using Cons.prems(3) by (cases it) auto
  have dr: "drop j tab = item_entries it @ concat (map item_entries its)" using Cons.prems(1) by simp
  then have lt: "j < length tab" using d by (metis drop_all append_is_Nil_conv length_greater_0_conv not_le)
  have len: "j + ?d \<le> length tab" using arg_cong [OF dr, of length] lt by simp
  have hd: "tab ! j = hd (item_entries it)"
    using dr lt d by (metis hd_append2 hd_drop_conv_nth length_greater_0_conv)
  have rest: "drop (j + ?d) tab = concat (map item_entries its)"
    using dr by (metis add.commute append_eq_conv_conj drop_drop)
  have put: "put buf (base + t) ?c = Some ?buf" using Cons.prems(4) by (simp add: put_def)
  have f: "fits TL cbps outs (j + ?d) its" using Cons.prems(3) by (cases it) auto
  have step: "map_loop tab outs pts TL cbps base (length tab) j t buf
      = map_loop tab outs pts TL cbps base (length tab) (j + ?d) (t + 1) ?buf"
  proof (cases it)
    case (Mark e)
    then have e: "tab ! j = e" "6000 \<le> sint e" "sint e \<le> 6002" using hd Cons.prems(3) by auto
    then have "get pilot_type (nat (sint e - 6000)) = Some ?c"
      by (simp add: Mark get_def pilot_type_def)
    then show ?thesis using e lt put by (subst map_loop.simps) (simp add: Mark get_def [of tab])
  next
    case (Group sh es)
    then have es: "length es = 6" "sh = (if TL \<le> j then cbps else 0)"
      "\<forall>e \<in> set es. sint e < 6000 \<and> nat (sint e) + sh < length outs" using Cons.prems(3) by auto
    have "hd es \<in> set es" using es(1) by (intro hd_in_set) auto
    then have "sint (tab ! j) < 6000" using hd es(3) by (simp add: Group)
    moreover have "addr_bits tab outs sh j 6 0 = Some (addr_of outs sh es 0)"
      using addr_bits_run [of j tab es "concat (map item_entries its)" sh outs 0] dr es by (simp add: Group)
    moreover have "addr_of outs sh es 0 < 64" using addr_of_less [of 0 0 outs sh es] es(1) by simp
    then have "get pts (addr_of outs sh es 0) = Some ?c" using assms by (simp add: get_def Group)
    ultimately show ?thesis
      using lt put es by (subst map_loop.simps) (simp add: Group get_def [of tab])
  qed
  have room: "base + (t + 1) + length its \<le> length ?buf" using Cons.prems(4) by simp
  from Cons.IH [OF rest len f room] obtain buf' where
    buf': "map_loop tab outs pts TL cbps base (length tab) (j + ?d) (t + 1) ?buf = Some buf'"
      "length buf' = length buf"
    and new: "\<forall>i < length its. buf' ! (base + (t + 1) + i) = item_value outs pts (its ! i)"
    and old: "\<forall>p. p < base + (t + 1) \<or> base + (t + 1) + length its \<le> p \<longrightarrow> buf' ! p = ?buf ! p"
    unfolding length_list_update by blast
  have "buf' ! (base + t + i) = item_value outs pts ((it # its) ! i)" if "i < length (it # its)" for i
  proof (cases i)
    case 0
    then show ?thesis using old [rule_format, of "base + t"] Cons.prems(4) by simp
  next
    case (Suc i')
    then show ?thesis using new [rule_format, of i'] that by simp
  qed
  moreover have "buf' ! p = buf ! p" if "p < base + t \<or> base + t + length (it # its) \<le> p" for p
    using old [rule_format, of p] that by (auto simp: nth_list_update)
  ultimately show ?case using step buf' by auto
qed

section \<open>The items of a symbol\<close>

lemma fits_append:
  "fits TL cbps outs j (xs @ ys) \<longleftrightarrow>
    fits TL cbps outs j xs \<and> fits TL cbps outs (j + length (concat (map item_entries xs))) ys"
proof (induction xs arbitrary: j)
  case Nil
  then show ?case by simp
next
  case (Cons x xs)
  then show ?case by (cases x) (auto simp: add.assoc)
qed

definition item_of :: "globals \<Rightarrow> int16 list list \<Rightarrow> nat \<Rightarrow> nat \<Rightarrow> nat \<Rightarrow> slot \<Rightarrow> item" where
  "item_of g T cbps q tx sl = (case sl of
       Data d \<Rightarrow> Group (q * cbps) (map ((!) (T ! tx)) [6 * d..<6 * d + 6])
     | _ \<Rightarrow> Mark (table_value g T q tx sl))"

lemma item_of_simps:
  "item_of g T cbps q tx (Pilot p) = Mark (word_of_int (markers_of g q ! p))"
  "item_of g T cbps q tx Zero = Mark 6001"
  "item_of g T cbps q tx (Data d) = Group (q * cbps) (map ((!) (T ! tx)) [6 * d..<6 * d + 6])"
  by (simp_all add: item_of_def table_value_def)

lemma item_of_entries: "item_entries (item_of g T cbps q tx sl) = map (table_value g T q tx) (expand sl)"
  by (cases sl) (simp_all add: item_of_def expand_def table_value_def comp_def)

lemma items_entries: "concat (map item_entries (map (item_of g T cbps q tx) sls))
    = map (table_value g T q tx) (expand_all sls)"
  by (simp add: expand_all_def map_concat comp_def item_of_entries)

text \<open>The marker at a slot that is not data.\<close>

lemma marker_range:
  assumes "i < 8"
  shows "6000 \<le> sint (word_of_int (Data_pilot ! i) :: int16)"
    and "sint (word_of_int (Data_pilot ! i) :: int16) \<le> 6002"
    and "pilot_type ! nat (sint (word_of_int (Data_pilot ! i) :: int16) - 6000) = Data_pilot80 ! i"
  by (cases rule: less8_cases [OF assms];
      simp add: Data_pilot_def Data_pilot80_def pilot_type_def)+

lemma markers_of_nth: "p < 8 \<Longrightarrow> markers_of g q ! p = Data_pilot ! ((p + q mod N_pilot g) mod 8)"
  by (simp add: markers_of_def pilot_N_def)

lemma pilots_of_nth: "p < 8 \<Longrightarrow> pilots_of g q ! p = Data_pilot80 ! ((p + q mod N_pilot g) mod 8)"
  by (simp add: pilots_of_def pilot_N_def)

definition table_ok :: "int16 list list \<Rightarrow> nat \<Rightarrow> nat \<Rightarrow> byte list \<Rightarrow> nat \<Rightarrow> bool" where
  "table_ok T n cbps outs lim \<longleftrightarrow>
     (\<forall>tx < N_STS. \<forall>r < n. sint (T ! tx ! r) < 6000 \<and> nat (sint (T ! tx ! r)) + lim < length outs)"

lemma fits_symbol:
  assumes "table_ok T 1404 cbps outs (q * cbps)" "tx < N_STS"
  shows "(\<forall>sl \<in> set sls. sl \<noteq> Skip \<and> (\<forall>p. sl = Pilot p \<longrightarrow> p < 8) \<and> (\<forall>d. sl = Data d \<longrightarrow> d < 234)) \<Longrightarrow>
    (\<forall>j'. j \<le> j' \<and> j' < j + length (expand_all sls) \<longrightarrow> q * cbps = (if TL \<le> j' then cbps else 0)) \<Longrightarrow>
    fits TL cbps outs j (map (item_of g T cbps q tx) sls)"
proof (induction sls arbitrary: j)
  case Nil
  then show ?case by simp
next
  case (Cons sl sls)
  have ex: "expand_all (sl # sls) = expand sl @ expand_all sls" by (simp add: expand_all_def)
  have rest: "fits TL cbps outs (j + length (expand sl)) (map (item_of g T cbps q tx) sls)"
    using Cons.prems unfolding ex by (intro Cons.IH) auto
  show ?case
  proof (cases sl)
    case (Pilot p)
    then have "p < 8" using Cons.prems(1) by simp
    then have "(p + q mod N_pilot g) mod 8 < 8" "markers_of g q ! p = Data_pilot ! ((p + q mod N_pilot g) mod 8)"
      by (simp_all add: markers_of_nth)
    then show ?thesis
      using rest marker_range(1,2) by (simp add: Pilot item_of_simps)
  next
    case Zero
    then show ?thesis using rest by (simp add: Zero item_of_simps)
  next
    case (Data d)
    then have "d < 234" using Cons.prems(1) by simp
    then have "\<forall>r \<in> {6 * d..<6 * d + 6}. r < 1404" by simp
    then have "\<forall>r \<in> {6 * d..<6 * d + 6}. sint (T ! tx ! r) < 6000 \<and> nat (sint (T ! tx ! r)) + q * cbps < length outs"
      using assms unfolding table_ok_def by blast
    moreover have "q * cbps = (if TL \<le> j then cbps else 0)"
      using Cons.prems(2) [rule_format, of j] unfolding ex by (simp add: Data expand_def)
    moreover have "length (expand sl) = 6" by (simp add: Data expand_def)
    ultimately show ?thesis
      using rest by (simp add: Data item_of_simps del: upt_conv_Cons)
  next
    case Skip
    then show ?thesis using Cons.prems(1) by simp
  qed
qed

lemma map_layout_slots: "\<forall>sl \<in> set (map_layout oob). sl \<noteq> Skip
    \<and> (\<forall>p. sl = Pilot p \<longrightarrow> p < 8) \<and> (\<forall>d. sl = Data d \<longrightarrow> d < 234)"
  unfolding map_layout_eq by (auto simp del: upt_conv_Cons upt_rec_numeral)

lemma length_expand_map: "length (expand_all (map_layout oob)) = 1426"
  using arg_cong [OF table_layout [of 0 oob], of length] by (simp add: table_layout_def)

text \<open>The items of a row of the table, symbol by symbol.\<close>

definition row_items :: "globals \<Rightarrow> int16 list list \<Rightarrow> nat \<Rightarrow> nat \<Rightarrow> nat \<Rightarrow> item list" where
  "row_items g T cbps tx nsym =
     concat (map (\<lambda>q. map (item_of g T cbps q tx) (map_layout 0)) [0..<nsym])"

lemma length_map_layout [simp]: "length (map_layout oob) = 256"
  by (simp add: map_layout_def)

lemma length_row_items [simp]: "length (row_items g T cbps tx nsym) = 256 * nsym"
  by (induction nsym) (simp_all add: row_items_def)

lemma row_items_nth:
  "q < nsym \<Longrightarrow> j < 256 \<Longrightarrow>
    row_items g T cbps tx nsym ! (q * 256 + j) = item_of g T cbps q tx (map_layout 0 ! j)"
  by (simp add: row_items_def concat_blocks_nth [where L = 256])

lemma row_items_entries: "concat (map item_entries (row_items g T cbps tx nsym))
    = concat (map (\<lambda>q. map (table_value g T q tx) (table_layout oob)) [0..<nsym])"
proof -
  have "concat (map item_entries (concat (map (\<lambda>q. map (item_of g T cbps q tx) (map_layout 0)) qs)))
      = concat (map (\<lambda>q. map (table_value g T q tx) (table_layout oob)) qs)" for qs
    by (induction qs) (simp_all add: items_entries table_layout [of oob 0] del: map_map)
  then show ?thesis by (simp only: row_items_def)
qed

lemma length_table_layout [simp]: "length (table_layout oob) = 1426"
  by (simp add: table_layout_def)

lemma fits_row:
  assumes "\<And>q. q < nsym \<Longrightarrow> table_ok T 1404 cbps outs (q * cbps)" "tx < N_STS" "nsym \<le> 2"
  shows "fits 1426 cbps outs 0 (row_items g T cbps tx nsym)"
  using assms(1,3)
proof (induction nsym)
  case 0
  then show ?case by (simp add: row_items_def)
next
  case (Suc q)
  have row: "row_items g T cbps tx (Suc q)
      = row_items g T cbps tx q @ map (item_of g T cbps q tx) (map_layout 0)"
    by (simp add: row_items_def)
  have "length (concat (map item_entries (row_items g T cbps tx q))) = q * 1426"
    unfolding row_items_entries [where oob = 0] by (induction q) simp_all
  moreover have "fits 1426 cbps outs (q * 1426) (map (item_of g T cbps q tx) (map_layout 0))"
  proof (rule fits_symbol [OF _ assms(2) map_layout_slots])
    show "table_ok T 1404 cbps outs (q * cbps)" using Suc.prems(1) by simp
    have "q = 0 \<or> q = 1" using Suc.prems(2) by auto
    then show "\<forall>j'. q * 1426 \<le> j' \<and> j' < q * 1426 + length (expand_all (map_layout 0)) \<longrightarrow>
        q * cbps = (if 1426 \<le> j' then cbps else 0)"
      unfolding length_expand_map by auto
  qed
  moreover have "fits 1426 cbps outs 0 (row_items g T cbps tx q)"
    using Suc by simp
  ultimately show ?case unfolding row fits_append by simp
qed

lemma weave_row:
  assumes "n_bpscs (mcs_table_for_20M g) = 6" "MCS g < 10"
    and "rows_ge (1426 * nsym) wjunk" "tx < N_STS" "length (wjunk ! tx) = 1426 * nsym"
  shows "initial_streamwave_table oob g nsym junk cin wjunk ! tx
    = concat (map item_entries (row_items g (stream_table g junk cin)
        (n_cbps (mcs_table_for_20M g)) tx nsym))"
proof -
  let ?T = "stream_table g junk cin" and ?ctl = "slot_at oob pilot_index80_bits zero_index80_bits (\<lambda>n. n < 1404)"
  let ?w = "fold (\<lambda>i. place_symbol ?ctl (table_value g ?T i) (i * 1426) 1426) [0..<nsym] wjunk"
  let ?blocks = "concat (map (\<lambda>q. map (table_value g ?T q tx) (table_layout oob)) [0..<nsym])"
  have n: "n_cbps (mcs_table_for_20M g) div N_STS = 1404"
    using mcs_cbps_bpscs [OF assms(2)] by (simp add: assms(1) N_STS_def)
  have w: "initial_streamwave_table oob g nsym junk cin wjunk = ?w"
    by (simp add: initial_streamwave_table_def PilotAdd_table_def Let_def n pilot_N_def zero_N_def
        stream_table_def)
  have ge: "rows_ge (nsym * 1426) wjunk" using assms(3) by (simp add: mult.commute)
  have no: "Skip \<notin> set (layout ?ctl 1426)" using no_skip(2) by (simp add: table_layout_def)
  have len: "length (?w ! tx) = nsym * 1426"
    using place_symbols_run(2) [OF ge assms(4) no] assms(5) by simp
  have lenb: "length ?blocks = nsym * 1426" by (induction nsym) simp_all
  have "?w ! tx = ?blocks"
  proof (rule nth_equalityI)
    show "length (?w ! tx) = length ?blocks" by (simp only: len lenb)
    fix i
    assume "i < length (?w ! tx)"
    then have i: "i < nsym * 1426" by (simp only: len)
    then have q: "i div 1426 < nsym" "i mod 1426 < 1426" by (simp_all add: less_mult_imp_div_less)
    have "?w ! tx ! (i mod 1426 + i div 1426 * 1426)
        = table_value g ?T (i div 1426) tx (table_layout oob ! (i mod 1426))"
      unfolding table_layout_def by (rule place_symbols_run(1) [OF ge assms(4) no q])
    also have "\<dots> = ?blocks ! (i div 1426 * 1426 + i mod 1426)"
      using q by (subst concat_blocks_nth [where L = 1426]) simp_all
    finally show "?w ! tx ! i = ?blocks ! i" by simp
  qed
  then show ?thesis unfolding w row_items_entries [where oob = oob] .
qed

text \<open>All streams.\<close>

lemma map_streams_run:
  assumes "\<And>i. i < n \<Longrightarrow> fits TL cbps outs 0 (its i)"
    and "\<And>i. i < n \<Longrightarrow> tab i = concat (map item_entries (its i))"
    and "\<And>i. i < n \<Longrightarrow> length (its i) = w" "\<And>i. i < n \<Longrightarrow> length (tab i) = L"
    and "length pts = 64" "n * w \<le> length buf"
  shows "\<exists>flat. map_streams [0..<n] (\<lambda>i buf. map_loop (tab i) outs pts TL cbps (i * w) L 0 0 buf) buf = Some flat
    \<and> length flat = length buf
    \<and> (\<forall>i < n. \<forall>k < w. flat ! (i * w + k) = item_value outs pts (its i ! k))"
proof -
  let ?f = "\<lambda>i buf. map_loop (tab i) outs pts TL cbps (i * w) L 0 0 buf"
  have split: "map_streams (xs @ [x]) f b = do { b \<leftarrow> map_streams xs f b; f x b }" for xs x f b
    by (induction xs arbitrary: b) (simp_all split: Option.bind_splits)
  have "\<exists>flat. map_streams [0..<m] ?f buf = Some flat \<and> length flat = length buf
      \<and> (\<forall>i < m. \<forall>k < w. flat ! (i * w + k) = item_value outs pts (its i ! k))" if "m \<le> n" for m
    using that
  proof (induction m)
    case 0
    then show ?case by simp
  next
    case (Suc m)
    then obtain b where b: "map_streams [0..<m] ?f buf = Some b" "length b = length buf"
      and old: "\<And>i k. i < m \<Longrightarrow> k < w \<Longrightarrow> b ! (i * w + k) = item_value outs pts (its i ! k)"
      by auto
    have m: "m < n" using Suc.prems by simp
    have "Suc m * w \<le> n * w" using Suc.prems by (rule mult_le_mono1)
    then have room: "m * w + 0 + length (its m) \<le> length b"
      using assms(3) [OF m] assms(6) b(2) by simp
    have "drop 0 (tab m) = concat (map item_entries (its m))" using assms(2) [OF m] by simp
    from map_loop_items [OF assms(5) this _ assms(1) [OF m] room]
    obtain flat where flat: "?f m b = Some flat" "length flat = length b"
      and new: "\<And>k. k < w \<Longrightarrow> flat ! (m * w + k) = item_value outs pts (its m ! k)"
      and rest: "\<And>p. p < m * w \<Longrightarrow> flat ! p = b ! p"
      unfolding assms(3,4) [OF m] by auto
    have "flat ! (i * w + k) = item_value outs pts (its i ! k)" if "i < Suc m" "k < w" for i k
    proof (cases "i = m")
      case True
      then show ?thesis using new that by simp
    next
      case False
      then have "i < m" using that by simp
      then have "i * w + k < m * w" using that(2) mult_le_mono1 [of "Suc i" m w] by simp
      then show ?thesis using rest old [OF \<open>i < m\<close> that(2)] by simp
    qed
    moreover have "map_streams [0..<Suc m] ?f buf = Some flat"
      using b(1) flat(1) by (simp add: split)
    ultimately show ?case using flat(2) b(2) by auto
  qed
  from this [OF order_refl] show ?thesis .
qed

text \<open>The value of an item is that of the slot on the subcarrier.\<close>

lemma upt_6_from: "[a..<a + 6] = [a, a + 1, a + 2, a + 3, a + 4, a + 5 :: nat]"
  by (simp add: upt_rec)

lemma upt_3: "[0..<3] = [0, 1, 2 :: nat]"
  by (simp add: upt_rec)

lemma bi2de_value_3: "bi2de_value 3 row j
    = 4 * of_bool (row ! (3 * j) = 1) + 2 * of_bool (row ! (3 * j + 1) = 1) + of_bool (row ! (3 * j + 2) = 1)"
  by (simp add: bi2de_value_def upt_3 twice_def)

lemma addr_of_step:
  "addr_of outs sh [] a = a"
  "addr_of outs sh (e # es) a = addr_of outs sh es (2 * a + of_bool (odd (outs ! (nat (sint e) + sh))))"
  by (simp_all only: addr_of_def foldl.simps or_bit)

lemma group_value:
  fixes bv :: "nat \<Rightarrow> byte" and dat :: nat
  assumes "\<And>k. k < 6 \<Longrightarrow> outs ! (nat (sint (es ! k)) + sh) = bv k" "length es = 6"
    and "\<And>k. k < 6 \<Longrightarrow> bv k = 0 \<or> bv k = 1" "\<And>k. k < 6 \<Longrightarrow> row ! (6 * dat + k) = bv k"
    and "pts = map (\<lambda>i. point_at QAM8 3 (i div 8) (i mod 8)) [0..<64]"
  shows "pts ! addr_of outs sh es 0 = bit_point 3 row dat"
proof -
  define b where "b k = (of_bool (bv k = 1) :: nat)" for k
  have odd: "of_bool (odd (bv k)) = b k" if "k < 6" for k
    using assms(3) [of k] that by (auto simp: b_def)
  have es: "es = map ((!) es) [0..<6]" using map_nth [of es] assms(2) by simp
  have read: "of_bool (odd (outs ! (nat (sint (es ! k)) + sh))) = b k" if "k < 6" for k
    using odd assms(1) [OF that] that by auto
  have below: "(0 :: nat) < 6" "(1 :: nat) < 6" "(2 :: nat) < 6" "(3 :: nat) < 6" "(4 :: nat) < 6"
    "(5 :: nat) < 6" by simp_all
  have "addr_of outs sh es 0 = 2 * (2 * (2 * (2 * (2 * (2 * 0 + b 0) + b 1) + b 2) + b 3) + b 4) + b 5"
    by (subst es) (simp only: upt_6 list.map addr_of_step below [THEN read])
  then have a: "addr_of outs sh es 0 = 8 * (4 * b 0 + 2 * b 1 + b 2) + (4 * b 3 + 2 * b 4 + b 5)"
    by simp
  have "b k \<le> 1" for k by (simp add: b_def)
  note this [of 0] this [of 1] this [of 2] this [of 3] this [of 4] this [of 5]
  then have lo: "4 * b 3 + 2 * b 4 + b 5 < 8" and hi: "4 * b 0 + 2 * b 1 + b 2 < 8" by linarith+
  have split: "(8 * y + x) div 8 = y" "(8 * y + x) mod 8 = x" "y < 8 \<Longrightarrow> 8 * y + x < 64"
    if "x < 8" for x y :: nat using that by simp_all
  have d: "addr_of outs sh es 0 div 8 = 4 * b 0 + 2 * b 1 + b 2"
    "addr_of outs sh es 0 mod 8 = 4 * b 3 + 2 * b 4 + b 5"
    "addr_of outs sh es 0 < 64"
    unfolding a by (rule split [OF lo])+ (rule hi)
  note r = below [THEN assms(4), simplified]
  have "nat (bi2de_value 3 row (2 * dat)) = 4 * b 0 + 2 * b 1 + b 2"
    by (simp add: bi2de_value_3 b_def r)
  moreover have "nat (bi2de_value 3 row (2 * dat + 1)) = 4 * b 3 + 2 * b 4 + b 5"
    using r(4-6) by (simp add: bi2de_value_3 b_def add.commute)
  ultimately show ?thesis
    using d(3) by (simp add: assms(5) bit_point_def constellation_def d(1,2))
qed

lemma item_value_slot:
  assumes "sl \<noteq> Skip" "\<forall>p. sl = Pilot p \<longrightarrow> p < 8" "\<forall>d. sl = Data d \<longrightarrow> d < 234"
    and "N_tone g - N_pilot g = 234" "pts = map (\<lambda>i. point_at QAM8 3 (i div 8) (i mod 8)) [0..<64]"
    and "\<And>d. d < 234 \<Longrightarrow> syms ! tx ! (d + q * 234) = bit_point 3 (rows ! tx) (d + q * 234)"
    and "\<And>r. r < 1404 \<Longrightarrow> rows ! tx ! (r + q * 1404) = outs ! (nat (sint (T ! tx ! r)) + q * cbps)"
    and "\<And>r. r < 1404 \<Longrightarrow> outs ! (nat (sint (T ! tx ! r)) + q * cbps) \<in> {0, 1}"
  shows "item_value outs pts (item_of g T cbps q tx sl) = subcar_value g syms q tx sl"
proof (cases sl)
  case (Pilot p)
  then have "p < 8" using assms(2) by simp
  then have "markers_of g q ! p = Data_pilot ! ((p + q mod N_pilot g) mod 8)"
    "pilots_of g q ! p = Data_pilot80 ! ((p + q mod N_pilot g) mod 8)"
    by (simp_all add: markers_of_nth pilots_of_nth)
  then show ?thesis
    by (simp add: Pilot item_of_simps subcar_value_def marker_range(3))
next
  case Zero
  then show ?thesis by (simp add: item_of_simps subcar_value_def pilot_type_def)
next
  case (Data d)
  then have d: "d < 234" using assms(3) by simp
  let ?es = "map ((!) (T ! tx)) [6 * d..<6 * d + 6]"
  let ?bv = "\<lambda>k. outs ! (nat (sint (T ! tx ! (6 * d + k))) + q * cbps)"
  have "pts ! addr_of outs (q * cbps) ?es 0 = bit_point 3 (rows ! tx) (d + q * 234)"
  proof (rule group_value [where bv = ?bv, OF _ _ _ _ assms(5)])
    show "length ?es = 6" by simp
    fix k :: nat
    assume k: "k < 6"
    show "outs ! (nat (sint (?es ! k)) + q * cbps) = ?bv k" using k by (simp del: upt_conv_Cons)
    have r: "6 * d + k < 1404" using d k by simp
    show "?bv k = 0 \<or> ?bv k = 1" using assms(8) [OF r] by simp
    have "6 * (d + q * 234) + k = 6 * d + k + q * 1404" by simp
    then show "rows ! tx ! (6 * (d + q * 234) + k) = ?bv k" using assms(7) [OF r] by (simp only:)
  qed
  then show ?thesis using assms(6) [OF d] by (simp add: Data item_of_simps subcar_value_def assms(4) del: upt_conv_Cons)
next
  case Skip
  then show ?thesis using assms(1) by simp
qed

section \<open>The refinement\<close>

lemma sint_small: "unat (w :: int16) < 2 ^ 15 \<Longrightarrow> nat (sint w) = unat w \<and> sint w = int (unat w)"
proof -
  assume a: "unat w < 2 ^ 15"
  have u: "uint w = int (unat w)" by (rule uint_nat)
  have "signed_take_bit 15 (int k) = int k" if "k < 2 ^ 15" for k
    by (rule signed_take_bit_int_eq_self) (use that in simp_all)
  from this [OF a] have "sint w = int (unat w)" unfolding sint_uint u by simp
  then show ?thesis by simp
qed

text \<open>The setting: the rates with six bits per point on the 242-tone layout.\<close>

definition six_bit_setting :: "globals \<Rightarrow> bool" where
  "six_bit_setting g \<longleftrightarrow> MCS g \<in> {5, 6, 7} \<and> subcar g = 256 \<and> N_tone g = 242 \<and> N_pilot g = 8
     \<and> frame_syms g \<le> 2"

lemma six_bit_params:
  assumes "six_bit_setting g"
  shows "0 < MCS g" "MCS g < 10" "n_bpscs (mcs_table_for_20M g) = 6"
    "n_cbps (mcs_table_for_20M g) = 5616"
proof -
  have "MCS g = 5 \<or> MCS g = 6 \<or> MCS g = 7" using assms by (auto simp: six_bit_setting_def)
  then show "0 < MCS g" "MCS g < 10" "n_bpscs (mcs_table_for_20M g) = 6"
    "n_cbps (mcs_table_for_20M g) = 5616"
    by (elim disjE; simp add: mcs_table_for_20M_def mcs_tabs param_simps)+
qed

lemma six_bit_row_len:
  assumes "six_bit_setting g"
  shows "n_cbps (mcs_table_for_20M g) div N_STS = 1404" "row_len g = 6 * (234 * frame_syms g)"
    "frame_code g = frame_syms g * 5616"
  using six_bit_params [OF assms]
  by (simp_all add: N_STS_def row_len_eq frame_code_def)

text \<open>What the two encoders and \<open>modulate\<close> leave, in terms of the signed table entries.\<close>

lemma six_bit_encoders:
  assumes "six_bit_setting g" "scr_len g + 1 \<le> length dat" "row_len g * N_STS + 24 \<le> length buf"
    and "rows_ge (row_len g) junk" "rows_ge (row_len g) code_out"
    and "rows_ge 1404 tjunk" "rows_ge 1404 cin"
  obtains rows outs where
    "BCC_encoder code_table g dat (scr_len g) (frame_syms g) code_out (row_len g) buf junk = Some rows"
    "BCC_encoder_OPT bcc_table g dat (scr_len g) buf = Some outs"
    "\<And>tx q r. tx < N_STS \<Longrightarrow> q < frame_syms g \<Longrightarrow> r < 1404 \<Longrightarrow> rows ! tx ! (r + q * 1404)
        = outs ! (nat (sint (stream_table g tjunk cin ! tx ! r)) + q * 5616)"
    "\<And>tx q r. tx < N_STS \<Longrightarrow> q < frame_syms g \<Longrightarrow> r < 1404 \<Longrightarrow>
        outs ! (nat (sint (stream_table g tjunk cin ! tx ! r)) + q * 5616) \<in> {0, 1}"
    "\<And>q. q < frame_syms g \<Longrightarrow> table_ok (stream_table g tjunk cin) 1404 5616 outs (q * 5616)"
    "rows_ge (row_len g) rows"
proof -
  let ?T = "stream_table g tjunk cin"
  note par = six_bit_params [OF assms(1)] and len = six_bit_row_len [OF assms(1)]
  have tj: "rows_ge (n_cbps (mcs_table_for_20M g) div N_STS) tjunk"
    "rows_ge (n_cbps (mcs_table_for_20M g) div N_STS) cin" using assms(6,7) by (simp_all only: len)
  obtain rows outs where
    rows: "BCC_encoder code_table g dat (scr_len g) (frame_syms g) code_out (row_len g) buf junk = Some rows"
    and outs: "BCC_encoder_OPT bcc_table g dat (scr_len g) buf = Some outs"
    and lo: "length outs = length buf" and bits: "take (frame_code g) outs = frame_bits g dat"
    and cells: "\<And>ss q r. ss < N_STS \<Longrightarrow> q < frame_syms g \<Longrightarrow> r < 1404 \<Longrightarrow>
        rows ! ss ! (r + q * 1404) = outs ! (unat (?T ! ss ! r) + q * 5616)"
    using interleave_table_rows [OF par(2) assms(2-5) tj] unfolding len(1) unfolding par(4) by blast
  have less: "unat (?T ! tx ! r) < 5616" if "tx < N_STS" "r < 1404" for tx r
    using stream_table_less [OF par(2) tj that(1)] that(2) unfolding len(1) unfolding par(4) by blast
  have sm: "nat (sint (?T ! tx ! r)) = unat (?T ! tx ! r)" "sint (?T ! tx ! r) < 6000"
    if "tx < N_STS" "r < 1404" for tx r
  proof -
    have "unat (?T ! tx ! r) < 2 ^ 15" using less [OF that] by simp
    note sm = sint_small [OF this]
    show "nat (sint (?T ! tx ! r)) = unat (?T ! tx ! r)" by (rule conjunct1 [OF sm])
    show "sint (?T ! tx ! r) < 6000" unfolding conjunct2 [OF sm] using less [OF that] by linarith
  qed
  have frame: "unat (?T ! tx ! r) + q * 5616 < frame_code g" if "tx < N_STS" "r < 1404" "q < frame_syms g" for tx r q
    using less [OF that(1,2)] mult_le_mono1 [of "Suc q" "frame_syms g" 5616] that(3) by (simp add: len)
  have big: "frame_code g < length outs"
    using assms(3) unfolding lo row_len_frame [OF par(2)] by linarith
  have bit: "outs ! i \<in> {0, 1}" if "i < frame_code g" for i
  proof -
    have "outs ! i = frame_bits g dat ! i" using bits that by (metis nth_take)
    moreover have "i < length (frame_bits g dat)" unfolding bits [symmetric] using that big by simp
    ultimately show ?thesis by (simp add: frame_bits_def)
  qed
  show thesis
  proof (rule that [OF rows outs])
    show "rows_ge (row_len g) rows" using assms(5) by (simp only: BCC_encoder_rows [OF rows])
  next
    fix q
    assume q: "q < frame_syms g"
    show "table_ok ?T 1404 5616 outs (q * 5616)"
      unfolding table_ok_def
    proof (intro allI impI)
      fix tx r :: nat
      assume t: "tx < N_STS" "r < 1404"
      show "sint (?T ! tx ! r) < 6000 \<and> nat (sint (?T ! tx ! r)) + q * 5616 < length outs"
        using sm [OF t] frame [OF t q] big by linarith
    qed
  next
    fix tx q r
    assume t: "tx < N_STS" "q < frame_syms g" "r < (1404 :: nat)"
    show "rows ! tx ! (r + q * 1404) = outs ! (nat (sint (?T ! tx ! r)) + q * 5616)"
      using cells [OF t] sm(1) [OF t(1,3)] by simp
    show "outs ! (nat (sint (?T ! tx ! r)) + q * 5616) \<in> {0, 1}"
      using bit [OF frame [OF t(1,3,2)]] sm(1) [OF t(1,3)] by simp
  qed
qed

text \<open>What the mapper leaves, item by item.\<close>

lemma mapper_items:
  assumes "six_bit_setting g"
    and "\<And>q. q < frame_syms g \<Longrightarrow> table_ok (stream_table g tjunk cin) 1404 5616 outs (q * 5616)"
    and "N_STS \<le> length wjunk" "\<forall>tx < N_STS. length (wjunk ! tx) = 1426 * frame_syms g"
    and "1024 * frame_syms g \<le> length flat0" "length P = 64"
  shows "\<exists>flat. modulate_mapping g outs flat0
        (initial_streamwave_table oob g (frame_syms g) tjunk cin wjunk) P = Some flat
    \<and> (\<forall>tx < N_STS. \<forall>q < frame_syms g. \<forall>j < 256. flat ! (tx * (256 * frame_syms g) + (q * 256 + j))
        = item_value outs P (item_of g (stream_table g tjunk cin) 5616 q tx (map_layout 0 ! j)))"
proof -
  let ?nsym = "frame_syms g" and ?T = "stream_table g tjunk cin"
  let ?weave = "initial_streamwave_table oob g ?nsym tjunk cin wjunk"
  let ?its = "\<lambda>tx. row_items g ?T 5616 tx ?nsym"
  note par = six_bit_params [OF assms(1)] and n = six_bit_row_len(1) [OF assms(1)]
  have set: "subcar g = 256" "?nsym \<le> 2" using assms(1) by (simp_all add: six_bit_setting_def)
  have ge: "rows_ge (1426 * ?nsym) wjunk" using assms(3,4) by (simp add: rows_ge_def)
  have tab: "?weave ! tx = concat (map item_entries (?its tx))" if "tx < N_STS" for tx
    using weave_row [OF par(3,2) ge that assms(4) [rule_format, OF that]] unfolding par(4) .
  have wl: "length (concat (map (\<lambda>q. map (f q) (table_layout 0)) [0..<k])) = 1426 * k"
    for f :: "nat \<Rightarrow> slot \<Rightarrow> int16" and k
    by (induction k) simp_all
  have wlen: "length (?weave ! tx) = 1426 * ?nsym" if "tx < N_STS" for tx
    by (simp only: tab [OF that] row_items_entries [where oob = 0] wl)
  have room: "N_STS * (256 * ?nsym) \<le> length flat0" using assms(5) by (simp add: N_STS_def)
  have fits: "fits 1426 5616 outs 0 (?its tx)" if "tx < N_STS" for tx
    using assms(2) that set(2) by (rule fits_row)
  from map_streams_run [of N_STS 1426 5616 outs ?its "(!) ?weave" "256 * ?nsym" "1426 * ?nsym" P flat0,
      OF fits tab length_row_items wlen assms(6) room]
  obtain flat where
    flat: "map_streams [0..<N_STS] (\<lambda>i buf. map_loop (?weave ! i) outs P 1426 5616 (i * (256 * ?nsym))
        (1426 * ?nsym) 0 0 buf) flat0 = Some flat"
    and val: "\<And>tx k. tx < N_STS \<Longrightarrow> k < 256 * ?nsym \<Longrightarrow>
        flat ! (tx * (256 * ?nsym) + k) = item_value outs P (?its tx ! k)"
    by blast
  have "modulate_mapping g outs flat0 ?weave P = Some flat"
    using flat unfolding modulate_mapping_def stream_interweave_mapping_def Let_def n set(1)
    by (simp add: par(4) pilot_N_def zero_N_def frame_syms_def mult.assoc)
  moreover have "flat ! (tx * (256 * ?nsym) + (q * 256 + j))
      = item_value outs P (item_of g ?T 5616 q tx (map_layout 0 ! j))"
    if "tx < N_STS" "q < ?nsym" "j < 256" for tx q j
  proof -
    have "q * 256 + j < 256 * ?nsym" using that by simp
    then show ?thesis using val [OF that(1)] row_items_nth [OF that(2,3)] by simp
  qed
  ultimately show ?thesis by blast
qed

lemma mapper_slots:
  assumes "six_bit_setting g" "scr_len g + 1 \<le> length dat" "row_len g * N_STS + 24 \<le> length buf"
    and "rows_ge (row_len g) junk" "rows_ge (row_len g) code_out"
    and "rows_ge (234 * frame_syms g) sym0"
    and "rows_ge 1404 tjunk" "rows_ge 1404 cin"
    and "N_STS \<le> length wjunk" "\<forall>tx < N_STS. length (wjunk ! tx) = 1426 * frame_syms g"
    and "1024 * frame_syms g \<le> length flat0"
  shows "\<exists>rows r outs pts flat.
      BCC_encoder code_table g dat (scr_len g) (frame_syms g) code_out (row_len g) buf junk = Some rows
    \<and> modulate g rows (row_len g) (frame_syms g) sym0 = Inr r
    \<and> BCC_encoder_OPT bcc_table g dat (scr_len g) buf = Some outs
    \<and> init_mapping_table g = Some pts
    \<and> modulate_mapping g outs flat0 (initial_streamwave_table oob g (frame_syms g) tjunk cin wjunk) pts
        = Some flat
    \<and> (\<forall>tx < N_STS. \<forall>q < frame_syms g. \<forall>j < 256.
        flat ! (tx * (256 * frame_syms g) + (q * 256 + j))
          = subcar_value g (mod_sym r) q tx (map_layout 0 ! j))"
proof -
  let ?T = "stream_table g tjunk cin"
  note par = six_bit_params [OF assms(1)] and rl = six_bit_row_len(2) [OF assms(1)]
  have N: "N_tone g - N_pilot g = 234" using assms(1) by (simp add: six_bit_setting_def)
  obtain rows outs where
    rows: "BCC_encoder code_table g dat (scr_len g) (frame_syms g) code_out (row_len g) buf junk = Some rows"
    and outs: "BCC_encoder_OPT bcc_table g dat (scr_len g) buf = Some outs"
    and cells: "\<And>tx q r. tx < N_STS \<Longrightarrow> q < frame_syms g \<Longrightarrow> r < 1404 \<Longrightarrow>
        rows ! tx ! (r + q * 1404) = outs ! (nat (sint (?T ! tx ! r)) + q * 5616)"
    and bit: "\<And>tx q r. tx < N_STS \<Longrightarrow> q < frame_syms g \<Longrightarrow> r < 1404 \<Longrightarrow>
        outs ! (nat (sint (?T ! tx ! r)) + q * 5616) \<in> {0, 1}"
    and ok: "\<And>q. q < frame_syms g \<Longrightarrow> table_ok ?T 1404 5616 outs (q * 5616)"
    and ge: "rows_ge (row_len g) rows"
    using six_bit_encoders [OF assms(1-5,7,8)] by blast
  have "rows_ge (n_bpscs (mcs_table_for_20M g) * (234 * frame_syms g)) rows"
    using ge by (simp only: rl par(3))
  from modulate_run [OF par(1,2) this assms(6)] obtain r where
    r: "modulate g rows (row_len g) (frame_syms g) sym0 = Inr r"
    and pts: "\<And>tx d. tx < N_STS \<Longrightarrow> d < 234 * frame_syms g \<Longrightarrow> mod_sym r ! tx ! d = bit_point 3 (rows ! tx) d"
    unfolding par(3) rl by auto
  obtain P where P: "init_mapping_table g = Some P"
    "P = map (\<lambda>i. point_at QAM8 3 (i div 8) (i mod 8)) [0..<64]"
    using mapping_table_6 [OF par(3)] by blast
  have "length P = 64" by (simp add: P(2))
  from mapper_items [OF assms(1) ok assms(9-11) this] obtain flat where
    run: "modulate_mapping g outs flat0 (initial_streamwave_table oob g (frame_syms g) tjunk cin wjunk) P
        = Some flat"
    and val: "\<And>tx q j. tx < N_STS \<Longrightarrow> q < frame_syms g \<Longrightarrow> j < 256 \<Longrightarrow>
        flat ! (tx * (256 * frame_syms g) + (q * 256 + j))
          = item_value outs P (item_of g ?T 5616 q tx (map_layout 0 ! j))"
    by blast
  have "item_value outs P (item_of g ?T 5616 q tx (map_layout 0 ! j))
      = subcar_value g (mod_sym r) q tx (map_layout 0 ! j)"
    if tx: "tx < N_STS" and q: "q < frame_syms g" and j: "j < 256" for tx q j
  proof (rule item_value_slot [where rows = rows, OF _ _ _ N P(2)])
    have "map_layout 0 ! j \<in> set (map_layout 0)" using j by simp
    with map_layout_slots [of 0] show "map_layout 0 ! j \<noteq> Skip"
      "\<forall>p. map_layout 0 ! j = Pilot p \<longrightarrow> p < 8" "\<forall>d. map_layout 0 ! j = Data d \<longrightarrow> d < 234" by blast+
    show "mod_sym r ! tx ! (d + q * 234) = bit_point 3 (rows ! tx) (d + q * 234)" if "d < 234" for d
      using pts [OF tx, of "d + q * 234"] that q mult_le_mono1 [of "Suc q" "frame_syms g" 234] by simp
  qed (rule cells [OF tx q], assumption, rule bit [OF tx q])
  with val have "flat ! (tx * (256 * frame_syms g) + (q * 256 + j))
      = subcar_value g (mod_sym r) q tx (map_layout 0 ! j)"
    if "tx < N_STS" "q < frame_syms g" "j < 256" for tx q j using that by simp
  with rows r outs P(1) run show ?thesis by blast
qed

lemma PilotAdd_nth:
  assumes "subcar g = 256" "rows_ge (nsym * 256) sub0" "tx < N_STS" "q < nsym" "j < 256"
  shows "PilotAdd_SubcarMap oob g syms nsym sub0 ! tx ! (j + q * 256)
    = subcar_value g syms q tx (map_layout 0 ! j)"
proof -
  have "Skip \<notin> set (layout (slot_at oob pilot_index80 zero_index80 (\<lambda>_. True)) 256)"
    using no_skip(1) by (simp add: map_layout_def)
  from place_symbols_run(1) [OF assms(2,3) this assms(4,5)]
  show ?thesis
    unfolding PilotAdd_SubcarMap_def assms(1) map_layout_def [symmetric] map_layout_eq [of oob]
      map_layout_eq [of 0] .
qed

section \<open>Properties\<close>

text \<open>C14: the optimised mapper refines the plain chain. At the rates with six bits per point,
  for frames of up to two symbols: from the same scrambled bytes, \<open>BCC_encoder\<close>, \<open>modulate\<close> and
  \<open>PilotAdd_SubcarMap\<close> on the one side, and \<open>BCC_encoder_OPT\<close> with \<open>modulate_mapping\<close>, its table
  from \<open>initial_streamwave_table\<close> and its points from \<open>init_mapping_table\<close>, on the other, both
  succeed and put the same point on every subcarrier of every symbol of every stream. Every
  access of the mapper is within its array.\<close>

theorem mapping_refines:
  assumes "six_bit_setting g" "scr_len g + 1 \<le> length dat" "row_len g * N_STS + 24 \<le> length buf"
    and "rows_ge (row_len g) junk" "rows_ge (row_len g) code_out"
    and "rows_ge (234 * frame_syms g) sym0" "rows_ge (frame_syms g * 256) sub0"
    and "rows_ge 1404 tjunk" "rows_ge 1404 cin"
    and "N_STS \<le> length wjunk" "\<forall>tx < N_STS. length (wjunk ! tx) = 1426 * frame_syms g"
    and "1024 * frame_syms g \<le> length flat0"
    and "init_BCCencode_table (replicate 128 0) BCCTable0 = (tab, bcc)"
  shows "\<exists>rows r outs pts flat.
      BCC_encoder tab g dat (scr_len g) (frame_syms g) code_out (row_len g) buf junk = Some rows
    \<and> modulate g rows (row_len g) (frame_syms g) sym0 = Inr r
    \<and> BCC_encoder_OPT bcc g dat (scr_len g) buf = Some outs
    \<and> init_mapping_table g = Some pts
    \<and> modulate_mapping g outs flat0 (initial_streamwave_table oob g (frame_syms g) tjunk cin wjunk) pts
        = Some flat
    \<and> (\<forall>tx < N_STS. \<forall>q < frame_syms g. \<forall>j < 256.
        flat ! (tx * (256 * frame_syms g) + (q * 256 + j))
          = PilotAdd_SubcarMap oob' g (mod_sym r) (frame_syms g) sub0 ! tx ! (j + q * 256))"
proof -
  have tab: "tab = code_table" "bcc = bcc_table"
    using assms(13) init_table_fst by (simp_all add: bcc_table_def)
  have "subcar g = 256" using assms(1) by (simp add: six_bit_setting_def)
  note plain = PilotAdd_nth [OF this assms(7)]
  show ?thesis
    using mapper_slots [OF assms(1-6,8-12), of oob] unfolding tab by (auto simp: plain)
qed

theorem mapping_refines_witness:
  "\<exists>rows r outs pts flat.
      BCC_encoder code_table globals0 (replicate 937 7) (scr_len globals0) 2 (replicate 4 (replicate 2808 0))
        2808 (replicate 11256 0) (replicate 4 (replicate 2808 0)) = Some rows
    \<and> modulate globals0 rows 2808 2 (replicate 4 (replicate 468 (cpx 0 0))) = Inr r
    \<and> BCC_encoder_OPT bcc_table globals0 (replicate 937 7) (scr_len globals0) (replicate 11256 0) = Some outs
    \<and> init_mapping_table globals0 = Some pts
    \<and> modulate_mapping globals0 outs (replicate 2048 (cpx 0 0))
        (initial_streamwave_table 0 globals0 2 (replicate 4 (replicate 1404 0)) (replicate 4 (replicate 1404 0))
          (replicate 4 (replicate 2852 0))) pts = Some flat
    \<and> flat ! (3 * (256 * 2) + (1 * 256 + 200))
        = PilotAdd_SubcarMap 0 globals0 (mod_sym r) 2 (replicate 4 (replicate 512 (cpx 0 0))) ! 3 ! (200 + 1 * 256)"
proof -
  have l: "scr_len globals0 = 936" and s: "frame_syms globals0 = 2" and r: "row_len globals0 = 2808"
    by (simp_all add: scr_len_def frame_code_def frame_syms_def GenInit_def Let_def globals0_def
        mcs_table_for_20M_def mcs_tabs param_simps ceil_div_def num_sym_def row_len_def)
  have set: "six_bit_setting globals0" unfolding six_bit_setting_def s by (simp add: globals0_def)
  have t: "init_BCCencode_table (replicate 128 0) BCCTable0 = (code_table, bcc_table)"
    using init_table_fst by (simp add: bcc_table_def prod_eq_iff)
  have h: "scr_len globals0 + 1 \<le> length (replicate 937 (7 :: byte))"
    "row_len globals0 * N_STS + 24 \<le> length (replicate 11256 (0 :: byte))"
    "rows_ge (row_len globals0) (replicate 4 (replicate 2808 (0 :: byte)))"
    "rows_ge (row_len globals0) (replicate 4 (replicate 2808 (0 :: byte)))"
    "rows_ge (234 * frame_syms globals0) (replicate 4 (replicate 468 (cpx 0 0)))"
    "rows_ge (frame_syms globals0 * 256) (replicate 4 (replicate 512 (cpx 0 0)))"
    "rows_ge 1404 (replicate 4 (replicate 1404 (0 :: int16)))"
    "rows_ge 1404 (replicate 4 (replicate 1404 (0 :: int16)))"
    "N_STS \<le> length (replicate 4 (replicate 2852 (0 :: int16)))"
    "\<forall>tx < N_STS. length (replicate 4 (replicate 2852 (0 :: int16)) ! tx) = 1426 * frame_syms globals0"
    "1024 * frame_syms globals0 \<le> length (replicate 2048 (cpx 0 0))"
    by (simp_all add: s l r rows_ge_def N_STS_def)
  have four: "(3 :: nat) < N_STS" "(1 :: nat) < 2" "(200 :: nat) < 256" by (simp_all add: N_STS_def)
  show ?thesis
    using mapping_refines [OF set h t, of 0 0] unfolding s r
    by (elim exE conjE) (intro exI conjI, assumption+, simp only: four)
qed

end
