(* ===== verification/Floats.thy ===== *)
theory Floats
  imports Prelude Complex_Main
begin

text \<open>
  Floating point. A value of type \<open>float\<close> or \<open>double\<close> is the real number it stands for, and every
  operation rounds its exact result. The rounding and the routines of the mathematics library are
  arguments of the definitions that use them (record \<open>fpu\<close>); the locales \<open>float_rounding\<close> and
  \<open>float_unit\<close> state what IEEE 754 and the C library document of them. They hold of rounding to
  the nearest number of 24 and of 53 binary digits, and of sine and cosine rounded that way.
\<close>

section \<open>Conversion to an integer\<close>

text \<open>The conversion of a floating-point number to an integer drops the fraction.\<close>

definition trunc :: "real \<Rightarrow> int" where
  "trunc x = (if x < 0 then \<lceil>x\<rceil> else \<lfloor>x\<rfloor>)"

lemma trunc_near: "\<bar>of_int (trunc x) - x\<bar> < 1" "\<bar>of_int (trunc x)\<bar> \<le> \<bar>x\<bar>"
proof -
  show "\<bar>of_int (trunc x) - x\<bar> < 1" unfolding trunc_def by (cases "x < 0"; simp; linarith)
  show "\<bar>of_int (trunc x)\<bar> \<le> \<bar>x\<bar>" unfolding trunc_def by (cases "x < 0"; simp; linarith)
qed

lemma trunc_bound:
  assumes "\<bar>x\<bar> \<le> 1"
  shows "\<bar>trunc (x * 8192)\<bar> \<le> 8192"
proof -
  have "- 8192 \<le> x * 8192" "x * 8192 \<le> 8192" using assms by (simp_all add: abs_le_iff)
  then show ?thesis by (simp add: trunc_def abs_le_iff) linarith
qed

section \<open>What is known of the rounding\<close>

text \<open>Integers of 24 bits are exact; other results are off by half a unit of the last of 24 digits,
  or, near zero, by less than any number that matters here.\<close>

locale float_rounding =
  fixes fl :: "real \<Rightarrow> real"
  assumes fl_int: "\<bar>i\<bar> \<le> 2 ^ 24 \<Longrightarrow> fl (of_int i) = of_int i"
    and fl_near: "\<bar>x\<bar> \<le> 2 ^ 40 \<Longrightarrow> \<bar>fl x - x\<bar> \<le> \<bar>x\<bar> / 2 ^ 24 + 1 / 2 ^ 100"

text \<open>The rounding to \<open>float\<close> and to \<open>double\<close>, and \<open>cos\<close> and \<open>sin\<close> of \<open>math.h\<close>.\<close>

record fpu =
  fsingle :: "real \<Rightarrow> real"
  fdouble :: "real \<Rightarrow> real"
  fcos :: "real \<Rightarrow> real"
  fsin :: "real \<Rightarrow> real"

locale float_unit =
  fixes fp :: fpu
  assumes fsingle_rounding: "float_rounding (fsingle fp)"
    and fdouble_int: "\<bar>i\<bar> \<le> 2 ^ 53 \<Longrightarrow> fdouble fp (of_int i) = of_int i"
    and fdouble_near: "\<bar>x\<bar> \<le> 2 ^ 40 \<Longrightarrow> \<bar>fdouble fp x - x\<bar> \<le> \<bar>x\<bar> / 2 ^ 53 + 1 / 2 ^ 100"
    and fcos_0: "fcos fp 0 = 1"
    and fsin_0: "fsin fp 0 = 0"
    and fcos_near: "\<bar>x\<bar> \<le> 2 ^ 20 \<Longrightarrow> \<bar>fcos fp x - cos x\<bar> \<le> 1 / 2 ^ 52"
    and fsin_near: "\<bar>x\<bar> \<le> 2 ^ 20 \<Longrightarrow> \<bar>fsin fp x - sin x\<bar> \<le> 1 / 2 ^ 52"
    and fcos_le: "\<bar>fcos fp x\<bar> \<le> 1"
    and fsin_le: "\<bar>fsin fp x\<bar> \<le> 1"

sublocale float_unit \<subseteq> float_rounding "fsingle fp"
  by (rule fsingle_rounding)

section \<open>Rounding to the nearest number of so many digits\<close>

definition rounded :: "nat \<Rightarrow> real \<Rightarrow> real" where
  "rounded n x = (if x = 0 then 0
     else let u = 2 powr (real n - of_int \<lfloor>log 2 \<bar>x\<bar>\<rfloor>) in of_int (round (x * u)) / u)"

definition single :: "real \<Rightarrow> real" where
  "single = rounded 23"

definition double :: "real \<Rightarrow> real" where
  "double = rounded 52"

lemma rounded_0 [simp]: "rounded n 0 = 0"
  by (simp add: rounded_def)

lemma rounded_near: "\<bar>rounded n x - x\<bar> \<le> \<bar>x\<bar> / 2 ^ Suc n"
proof (cases "x = 0")
  case False
  let ?e = "\<lfloor>log 2 \<bar>x\<bar>\<rfloor>"
  let ?u = "2 powr (real n - of_int ?e) :: real"
  have u: "0 < ?u" by simp
  have "of_int ?e \<le> log 2 \<bar>x\<bar>" by (rule of_int_floor_le)
  then have "2 powr of_int ?e \<le> \<bar>x\<bar>" using False le_log_iff [of 2 "\<bar>x\<bar>" "of_int ?e"] by simp
  moreover have "1 / ?u = 2 powr of_int ?e / 2 ^ n" by (simp add: powr_diff powr_realpow)
  ultimately have ulp: "1 / ?u \<le> \<bar>x\<bar> / 2 ^ n" by (simp add: divide_right_mono)
  have "\<bar>of_int (round (x * ?u)) - x * ?u\<bar> \<le> 1 / 2" by (rule of_int_round_abs_le)
  then have "\<bar>of_int (round (x * ?u)) - x * ?u\<bar> / ?u \<le> 1 / 2 / ?u" using u by (intro divide_right_mono) simp_all
  moreover have "rounded n x - x = (of_int (round (x * ?u)) - x * ?u) / ?u"
    using False u by (simp add: rounded_def Let_def field_simps)
  ultimately have "\<bar>rounded n x - x\<bar> \<le> 1 / 2 / ?u" using u by (simp add: abs_divide)
  then show ?thesis using ulp by simp
qed simp

lemma rounded_int:
  assumes "\<bar>i\<bar> \<le> 2 ^ Suc n"
  shows "rounded n (of_int i) = of_int i"
proof (cases "\<bar>i\<bar> = 0 \<or> \<bar>i\<bar> = 2 ^ Suc n")
  case True
  then consider "i = 0" | "i = 2 ^ Suc n" | "i = - (2 ^ Suc n)" by linarith
  then show ?thesis
  proof cases
    case 1
    then show ?thesis by simp
  next
    case 2
    have "log 2 (2 ^ Suc n :: real) = Suc n" using log_pow_cancel [of 2 "Suc n"] by simp
    then have e: "\<lfloor>log 2 \<bar>real_of_int i\<bar>\<rfloor> = int (Suc n)" using 2 by (simp only: of_int_power of_int_numeral) simp
    have u: "(2 :: real) powr (real n - of_int (int (Suc n))) = 1 / 2" by (simp add: powr_minus_divide)
    have "real_of_int i * (1 / 2) = of_int (2 ^ n)" by (simp add: 2)
    then have "round (real_of_int i * (1 / 2)) = 2 ^ n" by (simp only: round_of_int)
    then show ?thesis unfolding rounded_def e u by (simp add: Let_def 2)
  next
    case 3
    have "log 2 (2 ^ Suc n :: real) = Suc n" using log_pow_cancel [of 2 "Suc n"] by simp
    then have e: "\<lfloor>log 2 \<bar>real_of_int i\<bar>\<rfloor> = int (Suc n)" using 3 by (simp only: of_int_power of_int_numeral of_int_minus abs_minus_cancel) simp
    have u: "(2 :: real) powr (real n - of_int (int (Suc n))) = 1 / 2" by (simp add: powr_minus_divide)
    have "real_of_int i * (1 / 2) = of_int (- (2 ^ n))" by (simp add: 3)
    then have "round (real_of_int i * (1 / 2)) = - (2 ^ n)" by (simp only: round_of_int)
    then show ?thesis unfolding rounded_def e u by (simp add: Let_def 3)
  qed
next
  case False
  then have i: "1 \<le> \<bar>i\<bar>" "\<bar>i\<bar> < 2 ^ Suc n" using assms by linarith+
  let ?x = "real_of_int i"
  let ?e = "\<lfloor>log 2 \<bar>?x\<bar>\<rfloor>"
  have "real_of_int \<bar>i\<bar> < real_of_int (2 ^ Suc n)" using i(2) by (simp only: of_int_less_iff)
  then have "1 \<le> \<bar>?x\<bar>" "\<bar>?x\<bar> < 2 ^ Suc n" using i by simp_all
  moreover have "2 ^ Suc n = (2 :: real) powr real (Suc n)" by (rule powr_realpow [symmetric]) simp
  ultimately have "0 \<le> log 2 \<bar>?x\<bar>" "log 2 \<bar>?x\<bar> < real (Suc n)" by (simp_all add: log_less_iff del: power_Suc of_nat_Suc)
  then have e: "0 \<le> ?e" "?e \<le> int n" by linarith+
  then obtain m where m: "int n - ?e = int m" by (metis diff_ge_0_iff_ge zero_le_imp_eq_int)
  have "real n - real_of_int ?e = real_of_int (int n - ?e)" by simp
  then have u: "2 powr (real n - real_of_int ?e) = of_int (2 ^ m)" by (simp only: m) (simp add: powr_realpow)
  have "round (?x * of_int (2 ^ m)) = i * 2 ^ m" by (metis of_int_mult round_of_int)
  then show ?thesis using i by (simp add: rounded_def Let_def u)
qed

text \<open>A number between -1 and 1 stays there.\<close>

lemma rounded_le:
  assumes "\<bar>x\<bar> \<le> 1"
  shows "\<bar>rounded n x\<bar> \<le> 1"
proof (cases "x = 0 \<or> \<bar>x\<bar> = 1")
  case True
  then consider "x = 0" | "x = of_int 1" | "x = of_int (- 1)" by fastforce
  then show ?thesis
    using rounded_int [of 1 n] rounded_int [of "- 1" n] by cases (simp_all add: one_le_power del: power_Suc)
next
  case False
  let ?e = "\<lfloor>log 2 \<bar>x\<bar>\<rfloor>"
  let ?u = "2 powr (real n - of_int ?e) :: real"
  have x: "0 < \<bar>x\<bar>" "\<bar>x\<bar> < 1" using False assms by auto
  then have "log 2 \<bar>x\<bar> < 0" by simp
  then have "?e < 0" unfolding floor_less_iff by simp
  then have "?e \<le> - 1" by linarith
  then have e: "of_int ?e \<le> - (1 :: real)" by (simp only: of_int_le_iff [symmetric, where 'a = real] of_int_minus of_int_1)
  have "\<bar>x\<bar> < 2 powr (of_int ?e + 1)" using x(1) by (simp add: log_less_iff [symmetric])
  then have "\<bar>x\<bar> * ?u < 2 powr (of_int ?e + 1) * ?u" by simp
  also have "\<dots> = 2 powr real (Suc n)" by (simp add: powr_add [symmetric] add.commute)
  also have "\<dots> = of_int (2 ^ Suc n)" by (simp add: powr_realpow del: power_Suc of_nat_Suc)
  finally have b: "\<bar>x * ?u\<bar> < of_int (2 ^ Suc n)" by (simp add: abs_mult)
  have "round (x * ?u) \<le> round (of_int (2 ^ Suc n) :: real)" "round (of_int (- (2 ^ Suc n)) :: real) \<le> round (x * ?u)"
    by (intro round_mono; use b in \<open>simp add: abs_less_iff\<close>)+
  then have "\<bar>round (x * ?u)\<bar> \<le> 2 ^ Suc n" unfolding round_of_int by (simp add: abs_le_iff)
  then have "real_of_int \<bar>round (x * ?u)\<bar> \<le> real_of_int (2 ^ Suc n)" by (simp only: of_int_le_iff)
  moreover have "2 ^ Suc n \<le> ?u"
  proof -
    have "2 powr real (Suc n) \<le> ?u" using e by (intro powr_mono) simp_all
    then show ?thesis by (simp add: powr_realpow del: power_Suc of_nat_Suc)
  qed
  ultimately show ?thesis using False by (simp add: rounded_def Let_def abs_divide divide_le_eq)
qed

lemma single_near: "\<bar>single x - x\<bar> \<le> \<bar>x\<bar> / 2 ^ 24"
  using rounded_near [of 23 x] by (simp add: single_def)

lemma single_int: "\<bar>i\<bar> \<le> 2 ^ 24 \<Longrightarrow> single (of_int i) = of_int i"
  using rounded_int [of i 23] by (simp add: single_def)

interpretation singles: float_rounding single
proof
  show "\<bar>i\<bar> \<le> 2 ^ 24 \<Longrightarrow> single (of_int i) = of_int i" for i by (rule single_int)
  show "\<bar>single x - x\<bar> \<le> \<bar>x\<bar> / 2 ^ 24 + 1 / 2 ^ 100" for x using single_near [of x] by simp
qed

text \<open>The unit with these roundings.\<close>

definition ieee :: fpu where
  "ieee = \<lparr>fsingle = single, fdouble = double, fcos = (\<lambda>x. double (cos x)), fsin = (\<lambda>x. double (sin x))\<rparr>"

lemma double_near: "\<bar>double x - x\<bar> \<le> \<bar>x\<bar> / 2 ^ 53"
  using rounded_near [of 52 x] by (simp add: double_def)

lemma double_unit: "\<bar>x\<bar> \<le> 1 \<Longrightarrow> \<bar>double x - x\<bar> \<le> 1 / 2 ^ 52"
  using double_near [of x] by simp

lemma double_int: "\<bar>i\<bar> \<le> 2 ^ 53 \<Longrightarrow> double (of_int i) = of_int i"
  using rounded_int [of i 52] by (simp add: double_def)

interpretation ieee: float_unit ieee
proof (rule float_unit.intro)
  show "float_rounding (fsingle ieee)" by (simp add: ieee_def singles.float_rounding_axioms)
  show "\<bar>i\<bar> \<le> 2 ^ 53 \<Longrightarrow> fdouble ieee (of_int i) = of_int i" for i by (simp add: ieee_def double_int)
  show "\<bar>fdouble ieee x - x\<bar> \<le> \<bar>x\<bar> / 2 ^ 53 + 1 / 2 ^ 100" for x using double_near [of x] by (simp add: ieee_def)
  show "fcos ieee 0 = 1" "fsin ieee 0 = 0" using double_int [of 1] by (simp_all add: ieee_def double_def)
  show "\<bar>fcos ieee x - cos x\<bar> \<le> 1 / 2 ^ 52" "\<bar>fsin ieee x - sin x\<bar> \<le> 1 / 2 ^ 52" for x
    by (simp_all only: ieee_def fpu.simps) (intro double_unit; simp)+
  show "\<bar>fcos ieee x\<bar> \<le> 1" "\<bar>fsin ieee x\<bar> \<le> 1" for x
    by (simp_all add: ieee_def double_def rounded_le)
qed

end
