(* ===== verification/Csd.thy ===== *)
theory Csd
  imports Complex32 Params Floats
begin

text \<open>
  Cyclic shift diversity: every antenna sends the same tones turned by a phase that grows with
  the tone. The phase tables (\<^verbatim>\<open>csdForHeLTF.c\<close>, \<^verbatim>\<open>csdForPreamble.c\<close>), their use on the
  training fields and on the data (\<^verbatim>\<open>Data_CSD.c\<close>), in the scalar build and in the build with
  AVX2. The scalar \<^verbatim>\<open>Data_CSD.c\<close> computes its phases in \<open>double\<close>, the other two in \<open>float\<close>. The
  intrinsics are arguments, as in \<open>Complex32\<close>, and so is the floating-point unit \<open>fp\<close>.
\<close>

section \<open>The shifts\<close>

definition CyclicShiftTable :: "int list" where
  "CyclicShiftTable = [0, 0, - 200, 0, - 100, - 200, 0, - 50, - 100, - 150,
     0, - 175, - 25, - 50, - 75, 0, - 200, - 25, - 150, - 175, - 125,
     0, - 200, - 150, - 25, - 175, - 75, - 50, 0, - 175, - 150, - 125,
     - 25, - 100, - 50, - 200]"

definition tcsTableForPreamble :: "nat \<Rightarrow> int" where
  "tcsTableForPreamble Ntxindex = (let index = (N_TX * (N_TX - 1)) div 2 + Ntxindex in CyclicShiftTable ! index)"

definition T_iss_CS8 :: "int list" where
  "T_iss_CS8 = [0, - 400, - 200, - 600, - 350, - 650, - 100, - 750]"

text \<open>The eight tables \<open>T_iss_CS1\<close> to \<open>T_iss_CS8\<close> are the prefixes of the last.\<close>

definition shiftTableForHeLTF :: "int list list" where
  "shiftTableForHeLTF = map (\<lambda>n. take n T_iss_CS8) [1, 2, 3, 4, 5, 6, 7, 8]"

section \<open>The phase tables\<close>

text \<open>\<open>expComlex32\<close> has a \<open>float\<close> for the phase and multiplies in \<open>float\<close>; sine, cosine and the product with
  a power of two, which is exact, are in \<open>double\<close>.\<close>

definition expComlex32 :: "fpu \<Rightarrow> nat \<Rightarrow> real \<Rightarrow> int \<Rightarrow> complex32" where
  "expComlex32 fp scale phase i =
     (let x = fsingle fp (of_int i * phase)
      in cpx (trunc (fcos fp x * 2 ^ scale)) (trunc (fsin fp x * 2 ^ scale)))"

definition heltf_phase :: "fpu \<Rightarrow> nat \<Rightarrow> real" where
  "heltf_phase fp NTXindex = fsingle fp (fdouble fp (- fdouble fp 0.00049087385
     * of_int (shiftTableForHeLTF ! (N_TX - 1) ! NTXindex)))"

definition preamble_phase :: "fpu \<Rightarrow> nat \<Rightarrow> real" where
  "preamble_phase fp NTXindex = fsingle fp (fdouble fp (- fdouble fp 0.00196349541
     * of_int (tcsTableForPreamble NTXindex)))"

definition initcsdTableForHeLTF :: "fpu \<Rightarrow> nat \<Rightarrow> complex32 list list" where
  "initcsdTableForHeLTF fp scale =
     map (\<lambda>NTXindex. let phase = heltf_phase fp NTXindex
       in map (\<lambda>i. expComlex32 fp scale phase (int i - 128)) [0..<256]) [0..<4]"

definition initcsdTableForPreamble :: "fpu \<Rightarrow> nat \<Rightarrow> complex32 list list" where
  "initcsdTableForPreamble fp scale =
     map (\<lambda>NTXindex. let phase = preamble_phase fp NTXindex
       in map (\<lambda>i. expComlex32 fp scale phase (int i - 32)) [0..<64]) [0..<4]"

section \<open>Turning a field\<close>

text \<open>The scalar build: \<open>length\<close> tones, the middle one at phase zero.\<close>

definition csdForHeLTF_ref :: "fpu \<Rightarrow> nat \<Rightarrow> complex32 list \<Rightarrow> nat \<Rightarrow> nat \<Rightarrow> complex32 list" where
  "csdForHeLTF_ref fp scale pStreamBfcsd NTXindex len =
     map (\<lambda>i. multForComplex32 scale (pStreamBfcsd ! i)
       (expComlex32 fp scale (heltf_phase fp NTXindex) (int (len div 2) - int (len - i)))) [0..<len]"

definition csdForPreamble_ref :: "fpu \<Rightarrow> nat \<Rightarrow> complex32 list \<Rightarrow> nat \<Rightarrow> nat \<Rightarrow> complex32 list" where
  "csdForPreamble_ref fp scale pStreamBfcsd NTXindex len =
     map (\<lambda>i. multForComplex32 scale (pStreamBfcsd ! i)
       (expComlex32 fp scale (preamble_phase fp NTXindex) (int (len div 2) + 1 - int (len - i)))) [0..<len]"

text \<open>One call of \<open>Mult_complex32Vector_2\<close> on pointers into three arrays.\<close>

definition mult_block :: "(int16 \<Rightarrow> int16 \<Rightarrow> int16) \<Rightarrow> (int16 \<Rightarrow> int16 \<Rightarrow> int16) \<Rightarrow> (int16 \<Rightarrow> int16 \<Rightarrow> int16)
    \<Rightarrow> complex32 list \<Rightarrow> nat \<Rightarrow> complex32 list \<Rightarrow> nat \<Rightarrow> nat \<Rightarrow> complex32 list \<Rightarrow> complex32 list" where
  "mult_block mulhrs add sub a i b j k dest =
     take k dest @ Mult_complex32Vector_2 mulhrs add sub (drop i a) (drop j b) (take 16 (drop k dest))
       @ drop (k + 16) dest"

definition csdForHeLTF :: "(int16 \<Rightarrow> int16 \<Rightarrow> int16) \<Rightarrow> (int16 \<Rightarrow> int16 \<Rightarrow> int16) \<Rightarrow> (int16 \<Rightarrow> int16 \<Rightarrow> int16) \<Rightarrow> fpu
    \<Rightarrow> nat \<Rightarrow> complex32 list \<Rightarrow> nat \<Rightarrow> complex32 list \<Rightarrow> complex32 list" where
  "csdForHeLTF mulhrs add sub fp scale pStreamBfcsd NTXindex pStreamAfcsd =
     (let csdTableForHeLTF = initcsdTableForHeLTF fp scale
      in fold (\<lambda>i. mult_block mulhrs add sub pStreamBfcsd (i * 16) (csdTableForHeLTF ! NTXindex) (i * 16) (i * 16))
           [0..<16] pStreamAfcsd)"

definition csdForPreamble :: "(int16 \<Rightarrow> int16 \<Rightarrow> int16) \<Rightarrow> (int16 \<Rightarrow> int16 \<Rightarrow> int16) \<Rightarrow> (int16 \<Rightarrow> int16 \<Rightarrow> int16) \<Rightarrow> fpu
    \<Rightarrow> nat \<Rightarrow> complex32 list \<Rightarrow> nat \<Rightarrow> nat \<Rightarrow> complex32 list \<Rightarrow> complex32 list" where
  "csdForPreamble mulhrs add sub fp scale pStreamBfcsd NTXindex len pStreamAfcsd =
     (let csdTableForPreamble = initcsdTableForPreamble fp scale;
          start = (64 - len) div 2 + 1;
          expan = fold (\<lambda>i e. e[i := pStreamBfcsd ! (i - start)]) [start..<start + len] (replicate 64 (cpx 0 0))
      in fold (\<lambda>i. mult_block mulhrs add sub expan (i * 16) (csdTableForPreamble ! NTXindex) (i * 16) (i * 16))
           [0..<4] pStreamAfcsd)"

section \<open>The data field\<close>

text \<open>The scalar build, on one row per stream.\<close>

definition data_phase :: "fpu \<Rightarrow> nat \<Rightarrow> real" where
  "data_phase fp i = (let pi = fdouble fp 3.14159265359
     in fdouble fp (fdouble fp (fdouble fp (fdouble fp ((- 2) * pi) * of_int (T_iss_CS8 ! i)) * 78125) / 1000000000))"

definition data_exp :: "fpu \<Rightarrow> real \<Rightarrow> int \<Rightarrow> complex32" where
  "data_exp fp phase j =
     (let real_j = fcos fp (fdouble fp (phase * of_int j)); imag_j = fsin fp (fdouble fp (phase * of_int j))
      in cpx (trunc (real_j * 2 ^ 13)) (trunc (imag_j * 2 ^ 13)))"

definition Data_CSD_ref :: "fpu \<Rightarrow> globals \<Rightarrow> complex32 list list \<Rightarrow> nat \<Rightarrow> complex32 list list \<Rightarrow> complex32 list list" where
  "Data_CSD_ref fp g subcar_map_data nsym csd_data =
     fold (\<lambda>i. let exp_table = map (\<lambda>j. data_exp fp (data_phase fp i) (int j - int (subcar g div 2))) [0..<subcar g]
       in fold (\<lambda>n. fold (\<lambda>j. upd2 i (j + n * subcar g)
            (multForComplex32 (dotscale g) (subcar_map_data ! i ! (j + n * subcar g)) (exp_table ! j)))
            [0..<subcar g]) [0..<nsym]) [0..<N_STS] csd_data"

text \<open>The build with AVX2, on one flat buffer for all streams.\<close>

definition Data_CSD_aux :: "(int16 \<Rightarrow> int16 \<Rightarrow> int16) \<Rightarrow> (int16 \<Rightarrow> int16 \<Rightarrow> int16) \<Rightarrow> (int16 \<Rightarrow> int16 \<Rightarrow> int16) \<Rightarrow> fpu
    \<Rightarrow> globals \<Rightarrow> complex32 list \<Rightarrow> nat \<Rightarrow> nat \<Rightarrow> complex32 list \<Rightarrow> complex32 list" where
  "Data_CSD_aux mulhrs add sub fp g subcar_map_data nsym NTXindex csd_data =
     (let csdTableForHeLTF = initcsdTableForHeLTF fp (dotscale g)
      in fold (\<lambda>n. fold (\<lambda>j. mult_block mulhrs add sub
            subcar_map_data (NTXindex * subcar g * nsym + n * 256 + j * 16)
            (csdTableForHeLTF ! NTXindex) (j * 16)
            (NTXindex * subcar g * nsym + n * 256 + j * 16)) [0..<16]) [0..<nsym] csd_data)"

text \<open>The version on one row per stream.\<close>

definition Data_CSD :: "(int16 \<Rightarrow> int16 \<Rightarrow> int16) \<Rightarrow> (int16 \<Rightarrow> int16 \<Rightarrow> int16) \<Rightarrow> (int16 \<Rightarrow> int16 \<Rightarrow> int16) \<Rightarrow> fpu
    \<Rightarrow> globals \<Rightarrow> complex32 list list \<Rightarrow> nat \<Rightarrow> complex32 list list \<Rightarrow> complex32 list list" where
  "Data_CSD mulhrs add sub fp g subcar_map_data nsym csd_data =
     (let csdTableForHeLTF = initcsdTableForHeLTF fp (dotscale g)
      in fold (\<lambda>i csd_data. csd_data[i := fold (\<lambda>n. fold (\<lambda>j. mult_block mulhrs add sub
            (subcar_map_data ! i) (n * 256 + j * 16) (csdTableForHeLTF ! i) (j * 16) (n * 256 + j * 16)) [0..<16])
            [0..<nsym] (csd_data ! i)]) [0..<N_STS] csd_data)"

section \<open>Blocks of sixteen\<close>

definition lane :: "(int16 \<Rightarrow> int16 \<Rightarrow> int16) \<Rightarrow> (int16 \<Rightarrow> int16 \<Rightarrow> int16) \<Rightarrow> (int16 \<Rightarrow> int16 \<Rightarrow> int16)
    \<Rightarrow> complex32 \<Rightarrow> complex32 \<Rightarrow> complex32" where
  "lane mulhrs add sub a b = Mult_complex32Vector_2 mulhrs add sub (replicate 16 a) (replicate 16 b)
     (replicate 16 (cpx 0 0)) ! 0"

lemma lane_eq:
  "lane mulhrs add sub a b = \<lparr>re = push_bit 2 (sub (mulhrs (re a) (re b)) (mulhrs (im a) (im b))),
     im = push_bit 2 (add (mulhrs (re a) (im b)) (mulhrs (im a) (re b)))\<rparr>"
  by (simp add: lane_def Mult_lane)

lemma length_mult_block [simp]:
  "k + 16 \<le> length dest \<Longrightarrow> length (mult_block mulhrs add sub a i b j k dest) = length dest"
  by (simp add: mult_block_def)

lemma mult_block_nth:
  assumes "k + 16 \<le> length dest" "i + 16 \<le> length a" "j + 16 \<le> length b" "p < length dest"
  shows "mult_block mulhrs add sub a i b j k dest ! p
    = (if k \<le> p \<and> p < k + 16 then lane mulhrs add sub (a ! (i + (p - k))) (b ! (j + (p - k))) else dest ! p)"
proof -
  let ?m = "Mult_complex32Vector_2 mulhrs add sub (drop i a) (drop j b) (take 16 (drop k dest))"
  have len: "length (take 16 (drop k dest)) = 16" using assms(1) by simp
  have m: "length ?m = 16" by (rule length_Mult [OF len])
  have "?m ! q = lane mulhrs add sub (a ! (i + q)) (b ! (j + q))" if "q < 16" for q
    using assms(2,3) that by (simp add: Mult_lane [OF len that] lane_eq)
  then show ?thesis
    using assms(1,4) m by (auto simp: mult_block_def nth_append min_def)
qed

lemma length_mult_blocks:
  "d + 16 * m \<le> length dest \<Longrightarrow>
    length (fold (\<lambda>j. mult_block mulhrs add sub a (s + j * 16) b (j * 16) (d + j * 16)) [0..<m] dest) = length dest"
  by (induction m) simp_all

lemma mult_blocks_nth:
  assumes "d + 16 * m \<le> length dest" "s + 16 * m \<le> length a" "16 * m \<le> length b" "p < length dest"
  shows "fold (\<lambda>j. mult_block mulhrs add sub a (s + j * 16) b (j * 16) (d + j * 16)) [0..<m] dest ! p
    = (if d \<le> p \<and> p < d + 16 * m then lane mulhrs add sub (a ! (s + (p - d))) (b ! (p - d)) else dest ! p)"
  using assms
proof (induction m)
  case 0
  show ?case by auto
next
  case (Suc m)
  let ?d = "fold (\<lambda>j. mult_block mulhrs add sub a (s + j * 16) b (j * 16) (d + j * 16)) [0..<m] dest"
  have len: "length ?d = length dest" using Suc.prems by (intro length_mult_blocks) simp
  have "mult_block mulhrs add sub a (s + m * 16) b (m * 16) (d + m * 16) ?d ! p
    = (if d + m * 16 \<le> p \<and> p < d + m * 16 + 16
       then lane mulhrs add sub (a ! (s + m * 16 + (p - (d + m * 16)))) (b ! (m * 16 + (p - (d + m * 16)))) else ?d ! p)"
    using Suc.prems len by (intro mult_block_nth) simp_all
  moreover have "?d ! p = (if d \<le> p \<and> p < d + 16 * m
      then lane mulhrs add sub (a ! (s + (p - d))) (b ! (p - d)) else dest ! p)"
    using Suc by simp
  ultimately show ?case by auto
qed

section \<open>The tables are bounded\<close>

lemma sint_trunc:
  assumes "\<bar>x\<bar> \<le> 1"
  shows "sint (word_of_int (trunc (x * 8192)) :: int16) = trunc (x * 8192)"
  using trunc_bound [OF assms] by (intro sint_int16) simp_all

context float_unit
begin

lemma exp_parts:
  "sint (re (expComlex32 fp 13 phase i)) = trunc (fcos fp (fsingle fp (of_int i * phase)) * 8192)"
  "sint (im (expComlex32 fp 13 phase i)) = trunc (fsin fp (fsingle fp (of_int i * phase)) * 8192)"
  by (simp_all add: expComlex32_def cpx_def Let_def sint_trunc [OF fcos_le] sint_trunc [OF fsin_le])

lemma data_exp_parts:
  "sint (re (data_exp fp phase i)) = trunc (fcos fp (fdouble fp (phase * of_int i)) * 8192)"
  "sint (im (data_exp fp phase i)) = trunc (fsin fp (fdouble fp (phase * of_int i)) * 8192)"
  by (simp_all add: data_exp_def cpx_def Let_def sint_trunc [OF fcos_le] sint_trunc [OF fsin_le])

lemma exp_cbound: "cbound 8192 (expComlex32 fp 13 phase i)"
  by (simp add: cbound_def exp_parts trunc_bound [OF fcos_le] trunc_bound [OF fsin_le])

lemma data_exp_cbound: "cbound 8192 (data_exp fp phase i)"
  by (simp add: cbound_def data_exp_parts trunc_bound [OF fcos_le] trunc_bound [OF fsin_le])

end

lemma heltf_table_nth:
  "tx < 4 \<Longrightarrow> i < 256 \<Longrightarrow> initcsdTableForHeLTF fp scale ! tx ! i = expComlex32 fp scale (heltf_phase fp tx) (int i - 128)"
  "tx < 4 \<Longrightarrow> length (initcsdTableForHeLTF fp scale ! tx) = 256"
  by (simp_all add: initcsdTableForHeLTF_def Let_def)

lemma preamble_table_nth:
  "tx < 4 \<Longrightarrow> i < 64 \<Longrightarrow> initcsdTableForPreamble fp scale ! tx ! i = expComlex32 fp scale (preamble_phase fp tx) (int i - 32)"
  "tx < 4 \<Longrightarrow> length (initcsdTableForPreamble fp scale ! tx) = 64"
  by (simp_all add: initcsdTableForPreamble_def Let_def)

context float_unit
begin

lemma unit_0 [simp]: "fsingle fp 0 = 0" "fdouble fp 0 = 0"
  using fl_int [of 0] fdouble_int [of 0] by simp_all

lemma exp_0: "expComlex32 fp 13 (heltf_phase fp 0) i = cpx 8192 0"
  by (simp add: expComlex32_def heltf_phase_def shiftTableForHeLTF_def T_iss_CS8_def N_TX_def trunc_def fcos_0 fsin_0)

end

section \<open>The angles\<close>

text \<open>How far the angles the code computes are from the numbers it writes down.\<close>

lemma scaled: "\<bar>x - y\<bar> \<le> e \<Longrightarrow> \<bar>k\<bar> \<le> K \<Longrightarrow> \<bar>x * k - y * k\<bar> \<le> e * K" for x y k :: real
  using mult_mono [of "\<bar>x - y\<bar>" e "\<bar>k\<bar>" K] by (simp add: abs_mult left_diff_distrib [symmetric])

lemma step_le: "\<bar>x' - x\<bar> \<le> \<bar>x\<bar> / r + d \<Longrightarrow> 0 < r \<Longrightarrow> \<bar>x - y\<bar> \<le> e \<Longrightarrow> \<bar>y\<bar> \<le> B
    \<Longrightarrow> \<bar>x' - y\<bar> \<le> e + ((e + B) / r + d)" for x y :: real
proof -
  assume a: "\<bar>x' - x\<bar> \<le> \<bar>x\<bar> / r + d" "0 < r" "\<bar>x - y\<bar> \<le> e" "\<bar>y\<bar> \<le> B"
  then have "\<bar>x\<bar> / r \<le> (e + B) / r" by (intro divide_right_mono) linarith+
  then show "\<bar>x' - y\<bar> \<le> e + ((e + B) / r + d)" using a by linarith
qed

lemma shifts_le: "tx < 4 \<Longrightarrow> \<bar>real_of_int (T_iss_CS8 ! tx)\<bar> \<le> 600"
  by (elim less4_cases) (simp_all add: T_iss_CS8_def)

context float_unit
begin

lemma fdouble_step:
  assumes "\<bar>x - y\<bar> \<le> e" "\<bar>y\<bar> \<le> B" "e + B \<le> 2 ^ 40"
  shows "\<bar>fdouble fp x - y\<bar> \<le> e + ((e + B) / 2 ^ 53 + 1 / 2 ^ 100)"
  using assms by (intro step_le [of _ x] fdouble_near; (linarith | simp))

lemma fsingle_step:
  assumes "\<bar>x - y\<bar> \<le> e" "\<bar>y\<bar> \<le> B" "e + B \<le> 2 ^ 40"
  shows "\<bar>fsingle fp x - y\<bar> \<le> e + ((e + B) / 2 ^ 24 + 1 / 2 ^ 100)"
  using assms by (intro step_le [of _ x] fl_near; (linarith | simp))

lemma heltf_phase_near:
  assumes "tx < 4"
  shows "\<bar>heltf_phase fp tx - (- 0.00049087385) * of_int (T_iss_CS8 ! tx)\<bar> \<le> 1 / 2 ^ 25"
proof -
  let ?T = "real_of_int (T_iss_CS8 ! tx)" and ?c = "0.00049087385 :: real"
  note T = shifts_le [OF assms]
  have "\<bar>fdouble fp ?c - ?c\<bar> \<le> 0 + ((0 + 1 / 2000) / 2 ^ 53 + 1 / 2 ^ 100)" by (rule fdouble_step) simp_all
  then have "\<bar>- fdouble fp ?c - (- ?c)\<bar> \<le> 1 / 2 ^ 60" by (simp add: abs_minus_commute)
  from scaled [OF this T] have d: "\<bar>- fdouble fp ?c * ?T - (- ?c) * ?T\<bar> \<le> 1 / 2 ^ 50" by simp
  have B: "\<bar>(- ?c) * ?T\<bar> \<le> 0.3" using scaled [of ?c 0 ?c ?T 600] T by (simp add: abs_mult)
  have "\<bar>fdouble fp (- fdouble fp ?c * ?T) - (- ?c) * ?T\<bar> \<le> 1 / 2 ^ 50 + ((1 / 2 ^ 50 + 0.3) / 2 ^ 53 + 1 / 2 ^ 100)"
    by (rule fdouble_step [OF d B]) simp
  then have "\<bar>fdouble fp (- fdouble fp ?c * ?T) - (- ?c) * ?T\<bar> \<le> 1 / 2 ^ 49" by simp
  from fsingle_step [OF this B] have "\<bar>heltf_phase fp tx - (- ?c) * ?T\<bar> \<le> 1 / 2 ^ 49 + ((1 / 2 ^ 49 + 0.3) / 2 ^ 24 + 1 / 2 ^ 100)"
    using assms by (simp add: heltf_phase_def shiftTableForHeLTF_def N_TX_def)
  then show ?thesis by simp
qed

text \<open>The steps of \<^verbatim>\<open>Data_CSD.c\<close> for any constant in the place of \<open>pi\<close>.\<close>

lemma turn_near:
  fixes p T :: real
  assumes "\<bar>p\<bar> \<le> 4" "\<bar>T\<bar> \<le> 600"
  shows "\<bar>fdouble fp (fdouble fp ((- 2) * fdouble fp p) * T) - (- 2) * p * T\<bar> \<le> 1 / 2 ^ 37"
proof -
  have "\<bar>fdouble fp p - p\<bar> \<le> 0 + ((0 + 4) / 2 ^ 53 + 1 / 2 ^ 100)" using assms(1) by (intro fdouble_step) simp_all
  then have "\<bar>fdouble fp p - p\<bar> \<le> 1 / 2 ^ 50" by simp
  from scaled [OF this, of "- 2" 2] have "\<bar>(- 2) * fdouble fp p - (- 2) * p\<bar> \<le> 1 / 2 ^ 49"
    unfolding mult.commute [of _ "- 2 :: real"] by simp
  from fdouble_step [OF this, of 8] have "\<bar>fdouble fp ((- 2) * fdouble fp p) - (- 2) * p\<bar> \<le> 1 / 2 ^ 48"
    using assms(1) by (simp add: abs_mult)
  from scaled [OF this assms(2)] have b: "\<bar>fdouble fp ((- 2) * fdouble fp p) * T - (- 2) * p * T\<bar> \<le> 1 / 2 ^ 48 * 600" .
  have "\<bar>p\<bar> * \<bar>T\<bar> \<le> 4 * 600" using assms by (intro mult_mono) simp_all
  then have "\<bar>(- 2) * p * T\<bar> \<le> 4800" by (simp add: abs_mult mult.commute)
  from fdouble_step [OF b this] show ?thesis by simp
qed

lemma turn_scaled:
  fixes b y :: real
  assumes "\<bar>b - y\<bar> \<le> 1 / 2 ^ 37" "\<bar>y\<bar> \<le> 4800"
  shows "\<bar>fdouble fp (fdouble fp (b * 78125) / 1000000000) - y * 78125 / 1000000000\<bar> \<le> 1 / 2 ^ 28"
proof -
  have c: "\<bar>b * 78125 - y * 78125\<bar> \<le> 1 / 2 ^ 37 * 78125" by (rule scaled [OF assms(1)]) simp
  have C: "\<bar>y * 78125\<bar> \<le> 4800 * 78125" using assms(2) by (simp add: abs_mult)
  have "\<bar>fdouble fp (b * 78125) - y * 78125\<bar> \<le> 1" using fdouble_step [OF c C] by simp
  from scaled [OF this, of "1 / 1000000000" "1 / 1000000000"]
  have d: "\<bar>fdouble fp (b * 78125) / 1000000000 - y * 78125 / 1000000000\<bar> \<le> 1 / 1000000000" by simp
  have D: "\<bar>y * 78125 / 1000000000\<bar> \<le> 1" using assms(2) by (simp add: abs_mult)
  show ?thesis using fdouble_step [OF d D] by simp
qed

lemma data_phase_near:
  assumes "tx < 4"
  shows "\<bar>data_phase fp tx - (- 0.00049087385) * of_int (T_iss_CS8 ! tx)\<bar> \<le> 1 / 2 ^ 25"
proof -
  let ?T = "real_of_int (T_iss_CS8 ! tx)" and ?p = "3.14159265359 :: real"
  note T = shifts_le [OF assms]
  have "\<bar>?p\<bar> \<le> 4" by simp
  note b = turn_near [OF this T]
  have "\<bar>?p\<bar> * \<bar>?T\<bar> \<le> 4 * 600" using T by (intro mult_mono) simp_all
  then have "\<bar>(- 2) * ?p * ?T\<bar> \<le> 4800" unfolding abs_mult by simp
  from turn_scaled [OF b this]
  have "\<bar>data_phase fp tx - (- 2) * ?p * ?T * 78125 / 1000000000\<bar> \<le> 1 / 2 ^ 28" by (simp only: data_phase_def Let_def)
  from this have near: "\<bar>data_phase fp tx - (- 0.00049087385) * ?T\<bar> \<le> 1 / 2 ^ 28 + w"
    if "(- 2) * ?p * ?T * 78125 / 1000000000 - (- 0.00049087385) * ?T = d" "\<bar>d\<bar> \<le> w" for d w
    using that by argo
  have d: "\<bar>?T * (- 2 * ?p * 78125 / 1000000000 - (- 0.00049087385))\<bar> \<le> 600 * (1 / 10 ^ 11)"
    unfolding abs_mult by (intro mult_mono T) simp_all
  have e: "(- 2) * ?p * ?T * 78125 / 1000000000 - (- 0.00049087385) * ?T = ?T * (- 2 * ?p * 78125 / 1000000000 - (- 0.00049087385))"
    by algebra
  from near [OF e d] show ?thesis by (rule order_trans) simp
qed

lemma phase_le: "tx < 4 \<Longrightarrow> \<bar>heltf_phase fp tx\<bar> \<le> 1"
proof -
  assume tx: "tx < 4"
  have "\<bar>(- 0.00049087385) * real_of_int (T_iss_CS8 ! tx)\<bar> \<le> 1 / 2" using shifts_le [OF tx] by (simp add: abs_mult)
  moreover have "1 / 2 ^ 25 \<le> (1 / 2 :: real)" by simp
  ultimately show ?thesis using heltf_phase_near [OF tx] by linarith
qed

lemma preamble_phase_le:
  assumes "tx < 4"
  shows "\<bar>preamble_phase fp tx\<bar> \<le> 1"
proof -
  let ?T = "real_of_int (tcsTableForPreamble tx)" and ?c = "0.00196349541 :: real"
  have T: "\<bar>?T\<bar> \<le> 150" using assms
    by (elim less4_cases) (simp_all add: tcsTableForPreamble_def CyclicShiftTable_def N_TX_def Let_def)
  have "\<bar>fdouble fp ?c - ?c\<bar> \<le> 0 + ((0 + 1 / 500) / 2 ^ 53 + 1 / 2 ^ 100)" by (rule fdouble_step) simp_all
  also have "\<dots> \<le> 1 / 4000" by simp
  finally have "\<bar>- fdouble fp ?c - 0\<bar> \<le> 1 / 400" unfolding abs_le_iff by simp
  from scaled [OF this T] have d: "\<bar>- fdouble fp ?c * ?T - 0\<bar> \<le> 1 / 400 * 150" by simp
  from fdouble_step [OF this, of 0] have "\<bar>fdouble fp (- fdouble fp ?c * ?T) - 0\<bar> \<le> 1 / 2" by simp
  from fsingle_step [OF this, of 0] show ?thesis by (simp add: preamble_phase_def)
qed

text \<open>The angle of a tone, and the energy of its phase.\<close>

lemma angle_le:
  assumes "\<bar>phase\<bar> \<le> 1" "\<bar>i\<bar> \<le> 128"
  shows "\<bar>of_int i * phase\<bar> \<le> 128" "\<bar>fsingle fp (of_int i * phase)\<bar> \<le> 2 ^ 20"
proof -
  have "\<bar>real_of_int i\<bar> \<le> 128" using assms(2) by linarith
  then show le: "\<bar>of_int i * phase\<bar> \<le> 128"
    using mult_mono [of "\<bar>real_of_int i\<bar>" 128 "\<bar>phase\<bar>" 1] assms(1) by (simp add: abs_mult)
  then have "\<bar>fsingle fp (of_int i * phase) - of_int i * phase\<bar> \<le> 0 + ((0 + 128) / 2 ^ 24 + 1 / 2 ^ 100)"
    by (intro fsingle_step) simp_all
  then have "\<bar>fsingle fp (of_int i * phase) - of_int i * phase\<bar> \<le> 1" by simp
  then show "\<bar>fsingle fp (of_int i * phase)\<bar> \<le> 2 ^ 20" using le by simp
qed

lemma trunc_square: "\<bar>t\<bar> \<le> 8192 \<Longrightarrow> t\<^sup>2 - 20000 \<le> (real_of_int (trunc t))\<^sup>2"
proof -
  assume t: "\<bar>t\<bar> \<le> 8192"
  have "\<bar>t\<bar> \<le> \<bar>real_of_int (trunc t)\<bar> + 1" using trunc_near(1) [of t] by linarith
  then have "t\<^sup>2 \<le> (\<bar>real_of_int (trunc t)\<bar> + 1)\<^sup>2" by (metis abs_ge_zero power2_abs power_mono)
  moreover have "\<bar>real_of_int (trunc t)\<bar> \<le> \<bar>t\<bar>" by (rule trunc_near(2))
  ultimately show ?thesis using t by (simp add: power2_eq_square algebra_simps)
qed

lemma square_close: "\<bar>a\<bar> \<le> 1 \<Longrightarrow> \<bar>b\<bar> \<le> 1 \<Longrightarrow> \<bar>a - b\<bar> \<le> d \<Longrightarrow> b\<^sup>2 - 2 * d \<le> a\<^sup>2" for a b d :: real
proof -
  assume a: "\<bar>a\<bar> \<le> 1" "\<bar>b\<bar> \<le> 1" "\<bar>a - b\<bar> \<le> d"
  then have "\<bar>b - a\<bar> * \<bar>b + a\<bar> \<le> d * 2" by (intro mult_mono) linarith+
  moreover have "(b - a) * (b + a) = b\<^sup>2 - a\<^sup>2" by (simp add: power2_eq_square algebra_simps)
  ultimately have "\<bar>b\<^sup>2 - a\<^sup>2\<bar> \<le> d * 2" by (simp only: abs_mult [symmetric])
  then show ?thesis by linarith
qed

lemma exp_energy:
  assumes "\<bar>phase\<bar> \<le> 1" "\<bar>i\<bar> \<le> 128"
  shows "8180\<^sup>2 \<le> (sint (re (expComlex32 fp 13 phase i)))\<^sup>2 + (sint (im (expComlex32 fp 13 phase i)))\<^sup>2"
proof -
  let ?a = "fsingle fp (of_int i * phase)"
  let ?x = "fcos fp ?a" and ?y = "fsin fp ?a"
  let ?c = "trunc (?x * 8192)" and ?s = "trunc (?y * 8192)"
  have "(cos ?a)\<^sup>2 - 2 * (1 / 2 ^ 52) \<le> ?x\<^sup>2" "(sin ?a)\<^sup>2 - 2 * (1 / 2 ^ 52) \<le> ?y\<^sup>2"
    using fcos_near [OF angle_le(2) [OF assms]] fsin_near [OF angle_le(2) [OF assms]]
    by (intro square_close fcos_le fsin_le; simp)+
  from add_mono [OF this] have "((sin ?a)\<^sup>2 + (cos ?a)\<^sup>2) - 4 * (1 / 2 ^ 52) \<le> ?x\<^sup>2 + ?y\<^sup>2" by argo
  then have "1 - 1 / 2 ^ 50 \<le> ?x\<^sup>2 + ?y\<^sup>2" unfolding sin_cos_squared_add by simp
  then have "8192\<^sup>2 * (1 - 1 / 2 ^ 50) \<le> (?x * 8192)\<^sup>2 + (?y * 8192)\<^sup>2" by (simp add: power_mult_distrib)
  moreover have "(?x * 8192)\<^sup>2 - 20000 \<le> (real_of_int ?c)\<^sup>2" "(?y * 8192)\<^sup>2 - 20000 \<le> (real_of_int ?s)\<^sup>2"
    using fcos_le fsin_le by (intro trunc_square; simp add: abs_mult)+
  ultimately have "(8180 :: real)\<^sup>2 \<le> (real_of_int ?c)\<^sup>2 + (real_of_int ?s)\<^sup>2" by simp
  then have "real_of_int (8180\<^sup>2) \<le> real_of_int (?c\<^sup>2 + ?s\<^sup>2)" by simp
  then show ?thesis unfolding exp_parts by (simp only: of_int_le_iff)
qed

end

text \<open>Two points close to each other.\<close>

definition near :: "int \<Rightarrow> complex32 \<Rightarrow> complex32 \<Rightarrow> bool" where
  "near e x y \<longleftrightarrow> \<bar>sint (re x) - sint (re y)\<bar> \<le> e \<and> \<bar>sint (im x) - sint (im y)\<bar> \<le> e"

context avx2
begin

lemma lane_near:
  assumes "cbound A a" "cbound B b" "A * B \<le> 2 ^ 27 - 2 ^ 15"
  shows "near 4 (lane mulhrs add sub a b) (multForComplex32 13 a b)"
  using mult_vector [of "replicate 16 (cpx 0 0)" 0 A "replicate 16 a" B "replicate 16 b" 4095] assms
  by (simp add: near_def lane_def)

lemma lane_zero: "lane mulhrs add sub (cpx 0 0) b = cpx 0 0"
  by (simp add: lane_eq cpx_def mulhrs add sub)

end

section \<open>The data field, tone by tone\<close>

lemma length_data_symbols:
  "base + 256 * m \<le> length csd0 \<Longrightarrow>
    length (fold (\<lambda>n. fold (\<lambda>j. mult_block mulhrs add sub sub0 (base + n * 256 + j * 16) tab (j * 16)
      (base + n * 256 + j * 16)) [0..<16]) [0..<m] csd0) = length csd0"
  by (induction m) (simp_all add: length_mult_blocks)

lemma data_symbols_nth:
  assumes "base + 256 * m \<le> length csd0" "base + 256 * m \<le> length sub0" "length tab = 256" "p < length csd0"
  shows "fold (\<lambda>n. fold (\<lambda>j. mult_block mulhrs add sub sub0 (base + n * 256 + j * 16) tab (j * 16)
      (base + n * 256 + j * 16)) [0..<16]) [0..<m] csd0 ! p
    = (if base \<le> p \<and> p < base + 256 * m then lane mulhrs add sub (sub0 ! p) (tab ! ((p - base) mod 256)) else csd0 ! p)"
  using assms
proof (induction m)
  case 0
  show ?case by auto
next
  case (Suc m)
  let ?d = "fold (\<lambda>n. fold (\<lambda>j. mult_block mulhrs add sub sub0 (base + n * 256 + j * 16) tab (j * 16)
      (base + n * 256 + j * 16)) [0..<16]) [0..<m] csd0"
  have len: "length ?d = length csd0" using Suc.prems by (intro length_data_symbols) simp
  have "fold (\<lambda>j. mult_block mulhrs add sub sub0 (base + m * 256 + j * 16) tab (j * 16) (base + m * 256 + j * 16)) [0..<16] ?d ! p
    = (if base + m * 256 \<le> p \<and> p < base + m * 256 + 16 * 16
       then lane mulhrs add sub (sub0 ! (base + m * 256 + (p - (base + m * 256)))) (tab ! (p - (base + m * 256))) else ?d ! p)"
    using Suc.prems len by (intro mult_blocks_nth) simp_all
  moreover have "(p - base) mod 256 = p - (base + m * 256)" if "base + m * 256 \<le> p" "p < base + m * 256 + 256"
  proof -
    have "p - base = (p - (base + m * 256)) + m * 256" "p - (base + m * 256) < 256" using that by linarith+
    then show ?thesis by (metis mod_less mod_mult_self1)
  qed
  moreover have "?d ! p = (if base \<le> p \<and> p < base + 256 * m
      then lane mulhrs add sub (sub0 ! p) (tab ! ((p - base) mod 256)) else csd0 ! p)"
    using Suc by simp
  ultimately show ?case by auto
qed

lemma stream_fits: "tx < 4 \<Longrightarrow> tx * 256 * nsym + 256 * nsym \<le> 1024 * (nsym :: nat)"
proof -
  assume "tx < 4"
  then have "(tx + 1) * (256 * nsym) \<le> 4 * (256 * nsym)" by (intro mult_le_mono1) simp
  then show ?thesis by (simp add: algebra_simps)
qed

lemma length_Data_CSD_aux:
  assumes "subcar g = 256" "tx < 4" "1024 * nsym \<le> length csd0"
  shows "length (Data_CSD_aux mulhrs add sub fp g sub0 nsym tx csd0) = length csd0"
  unfolding Data_CSD_aux_def Let_def assms(1)
  by (rule length_data_symbols) (rule order_trans [OF stream_fits [OF assms(2)] assms(3)])

lemma Data_CSD_aux_nth:
  assumes "subcar g = 256" "tx < 4" "1024 * nsym \<le> length csd0" "1024 * nsym \<le> length sub0" "p < length csd0"
  shows "Data_CSD_aux mulhrs add sub fp g sub0 nsym tx csd0 ! p
    = (if tx * 256 * nsym \<le> p \<and> p < tx * 256 * nsym + 256 * nsym
       then lane mulhrs add sub (sub0 ! p) (initcsdTableForHeLTF fp (dotscale g) ! tx ! ((p - tx * 256 * nsym) mod 256))
       else csd0 ! p)"
  unfolding Data_CSD_aux_def Let_def assms(1)
  by (rule data_symbols_nth [OF order_trans [OF stream_fits [OF assms(2)] assms(3)]
      order_trans [OF stream_fits [OF assms(2)] assms(4)] heltf_table_nth(2) [OF assms(2)] assms(5)])

text \<open>All streams, one after the other.\<close>

definition csd_streams :: "(int16 \<Rightarrow> int16 \<Rightarrow> int16) \<Rightarrow> (int16 \<Rightarrow> int16 \<Rightarrow> int16) \<Rightarrow> (int16 \<Rightarrow> int16 \<Rightarrow> int16) \<Rightarrow> fpu
    \<Rightarrow> globals \<Rightarrow> complex32 list \<Rightarrow> nat \<Rightarrow> complex32 list \<Rightarrow> complex32 list" where
  "csd_streams mulhrs add sub fp g sub0 nsym csd0 =
     fold (\<lambda>i. Data_CSD_aux mulhrs add sub fp g sub0 nsym i) [0..<N_STS] csd0"

lemma length_streams:
  assumes "subcar g = 256" "1024 * nsym \<le> length csd0" "m \<le> 4"
  shows "length (fold (\<lambda>i. Data_CSD_aux mulhrs add sub fp g sub0 nsym i) [0..<m] csd0) = length csd0"
  using assms(3) by (induction m) (simp_all add: length_Data_CSD_aux [OF assms(1)] assms(2))

lemma streams_upto:
  assumes "subcar g = 256" "1024 * nsym \<le> length csd0" "1024 * nsym \<le> length sub0" "m \<le> 4" "p < length csd0"
  shows "fold (\<lambda>i. Data_CSD_aux mulhrs add sub fp g sub0 nsym i) [0..<m] csd0 ! p
    = (if p < m * (256 * nsym)
       then lane mulhrs add sub (sub0 ! p) (initcsdTableForHeLTF fp (dotscale g) ! (p div (256 * nsym)) ! (p mod 256))
       else csd0 ! p)"
  using assms(4)
proof (induction m)
  case 0
  show ?case by simp
next
  case (Suc m)
  let ?d = "fold (\<lambda>i. Data_CSD_aux mulhrs add sub fp g sub0 nsym i) [0..<m] csd0"
  have len: "length ?d = length csd0" using Suc.prems by (intro length_streams assms(1,2)) simp
  have step: "Data_CSD_aux mulhrs add sub fp g sub0 nsym m ?d ! p
    = (if m * 256 * nsym \<le> p \<and> p < m * 256 * nsym + 256 * nsym
       then lane mulhrs add sub (sub0 ! p) (initcsdTableForHeLTF fp (dotscale g) ! m ! ((p - m * 256 * nsym) mod 256))
       else ?d ! p)"
    using Suc.prems assms len by (intro Data_CSD_aux_nth) simp_all
  have blk: "p div (256 * nsym) = m" "(p - m * 256 * nsym) mod 256 = p mod 256"
    if "m * 256 * nsym \<le> p" "p < m * 256 * nsym + 256 * nsym"
  proof -
    show "p div (256 * nsym) = m" using that by (intro div_nat_eqI) (simp_all add: algebra_simps)
    have "p = (p - m * 256 * nsym) + 256 * (m * nsym)" using that(1) by simp
    then show "(p - m * 256 * nsym) mod 256 = p mod 256" by (metis mod_mult_self2)
  qed
  show ?case using step Suc blk by (auto simp: algebra_simps)
qed

lemma csd_streams_nth:
  assumes "subcar g = 256" "1024 * nsym \<le> length csd0" "1024 * nsym \<le> length sub0"
    and "tx < 4" "n < nsym" "j < 256"
  shows "csd_streams mulhrs add sub fp g sub0 nsym csd0 ! (tx * (256 * nsym) + (n * 256 + j))
    = lane mulhrs add sub (sub0 ! (tx * (256 * nsym) + (n * 256 + j))) (initcsdTableForHeLTF fp (dotscale g) ! tx ! j)"
proof -
  let ?p = "tx * (256 * nsym) + (n * 256 + j)"
  have "(n + 1) * 256 \<le> nsym * 256" using assms(5) by (intro mult_le_mono1) simp
  then have in_row: "n * 256 + j < 256 * nsym" using assms(6) by simp
  have "(tx + 1) * (256 * nsym) \<le> 4 * (256 * nsym)" using assms(4) by (intro mult_le_mono1) simp
  then have "tx * (256 * nsym) + 256 * nsym \<le> 4 * (256 * nsym)" by (simp only: add_mult_distrib mult_1)
  then have lt: "?p < 4 * (256 * nsym)" using in_row by linarith
  have "?p div (256 * nsym) = tx" using in_row by simp
  moreover have "?p = (tx * nsym + n) * 256 + j" by (simp add: algebra_simps)
  then have "?p mod 256 = j" using assms(6) by (metis mod_less mod_mult_self3)
  ultimately show ?thesis
    using streams_upto [OF assms(1-3), of 4 ?p mulhrs add sub] lt assms(2) by (simp add: csd_streams_def N_STS_def)
qed

section \<open>The preamble, tone by tone\<close>

lemma length_fold_place: "length (fold (\<lambda>i e. e[i := f i]) is e) = length e"
  by (induction "is" arbitrary: e) simp_all

lemma fold_place: "n + len \<le> length e \<Longrightarrow> p < length e \<Longrightarrow>
    fold (\<lambda>i e. e[i := f i]) [n..<n + len] e ! p = (if n \<le> p \<and> p < n + len then f p else e ! p)"
  by (induction len) (auto simp: nth_list_update length_fold_place)

lemma csdForPreamble_nth:
  assumes "NTXindex < 4" "length dest = 64" "len \<le> 62" "p < 64"
  defines "start \<equiv> (64 - len) div 2 + 1"
  shows "csdForPreamble mulhrs add sub fp scale s NTXindex len dest ! p
    = lane mulhrs add sub (if start \<le> p \<and> p < start + len then s ! (p - start) else cpx 0 0)
        (expComlex32 fp scale (preamble_phase fp NTXindex) (int p - 32))"
proof -
  let ?e = "fold (\<lambda>i e. e[i := s ! (i - start)]) [start..<start + len] (replicate 64 (cpx 0 0))"
  have fits: "start + len \<le> 64" using assms(3) unfolding start_def by linarith
  have len: "length ?e = 64" by (simp add: length_fold_place)
  have "?e ! p = (if start \<le> p \<and> p < start + len then s ! (p - start) else replicate 64 (cpx 0 0) ! p)"
    using fits assms(4) by (intro fold_place) simp_all
  then have e: "?e ! p = (if start \<le> p \<and> p < start + len then s ! (p - start) else cpx 0 0)"
    using assms(4) by simp
  have "csdForPreamble mulhrs add sub fp scale s NTXindex len dest ! p
    = fold (\<lambda>j. mult_block mulhrs add sub ?e (0 + j * 16) (initcsdTableForPreamble fp scale ! NTXindex) (j * 16) (0 + j * 16))
        [0..<4] dest ! p"
    by (simp only: csdForPreamble_def Let_def start_def add_0)
  also have "\<dots> = (if 0 \<le> p \<and> p < 0 + 16 * 4
      then lane mulhrs add sub (?e ! (0 + (p - 0))) (initcsdTableForPreamble fp scale ! NTXindex ! (p - 0)) else dest ! p)"
    using assms(1,2,4) len preamble_table_nth(2) [OF assms(1)] by (intro mult_blocks_nth) simp_all
  finally show ?thesis using assms(4) e preamble_table_nth(1) [OF assms(1,4)] by simp
qed

lemma csdForHeLTF_at:
  assumes "NTXindex < 4" "256 \<le> length dest" "256 \<le> length s"
  shows "length (csdForHeLTF mulhrs add sub fp scale s NTXindex dest) = length dest"
    and "p < length dest \<Longrightarrow> csdForHeLTF mulhrs add sub fp scale s NTXindex dest ! p
    = (if p < 256 then lane mulhrs add sub (s ! p) (expComlex32 fp scale (heltf_phase fp NTXindex) (int p - 128)) else dest ! p)"
proof -
  let ?r = "fold (\<lambda>j. mult_block mulhrs add sub s (0 + j * 16) (initcsdTableForHeLTF fp scale ! NTXindex) (j * 16) (0 + j * 16))
        [0..<16] dest"
  have r: "csdForHeLTF mulhrs add sub fp scale s NTXindex dest = ?r"
    by (simp only: csdForHeLTF_def Let_def add_0)
  show "length (csdForHeLTF mulhrs add sub fp scale s NTXindex dest) = length dest"
    unfolding r by (rule length_mult_blocks) (use assms(2) in simp)
  assume "p < length dest"
  then have "?r ! p = (if 0 \<le> p \<and> p < 0 + 16 * 16
      then lane mulhrs add sub (s ! (0 + (p - 0))) (initcsdTableForHeLTF fp scale ! NTXindex ! (p - 0)) else dest ! p)"
    using assms heltf_table_nth(2) [OF assms(1)] by (intro mult_blocks_nth) simp_all
  then show "csdForHeLTF mulhrs add sub fp scale s NTXindex dest ! p
    = (if p < 256 then lane mulhrs add sub (s ! p) (expComlex32 fp scale (heltf_phase fp NTXindex) (int p - 128)) else dest ! p)"
    using heltf_table_nth(1) [OF assms(1), of p fp scale] by (simp add: r)
qed

section \<open>Properties\<close>

text \<open>The vector build turns the data like the scalar one. For points of magnitude at most
  16380, every tone of every symbol of every stream that the calls of \<open>__Data_CSD_aux\<close> leave
  in the flat buffer is within 4 units of the scalar \<open>csdForHeLTF\<close> of that symbol, and nothing
  overflows; the first stream is not turned.\<close>

theorem data_csd_near:
  assumes "avx2 mulhrs add sub" "subcar g = 256" "dotscale g = 13"
    and "1024 * nsym \<le> length csd0" "1024 * nsym \<le> length sub0"
    and "tx < 4" "n < nsym" "j < 256" "cbound 16380 (sub0 ! (tx * (256 * nsym) + (n * 256 + j)))"
    and FU: "float_unit fp"
  shows "near 4 (csd_streams mulhrs add sub fp g sub0 nsym csd0 ! (tx * (256 * nsym) + (n * 256 + j)))
      (csdForHeLTF_ref fp 13 (drop (tx * (256 * nsym) + n * 256) sub0) tx 256 ! j)
    \<and> csdForHeLTF_ref fp 13 (drop (tx * (256 * nsym) + n * 256) sub0) 0 256 ! j = sub0 ! (tx * (256 * nsym) + (n * 256 + j))"
proof -
  let ?z = "sub0 ! (tx * (256 * nsym) + (n * 256 + j))"
  have "(tx * nsym + n + 1) * 256 \<le> (4 * nsym) * 256"
  proof (intro mult_le_mono1)
    have "(tx + 1) * nsym \<le> 4 * nsym" using assms(6) by (intro mult_le_mono1) simp
    then have "tx * nsym + nsym \<le> 4 * nsym" by (simp only: add_mult_distrib mult_1)
    then show "tx * nsym + n + 1 \<le> 4 * nsym" using assms(7) by linarith
  qed
  then have fits: "tx * (256 * nsym) + (n * 256 + j) < length sub0"
    using assms(5,8) by (simp add: algebra_simps)
  have ref: "csdForHeLTF_ref fp 13 (drop (tx * (256 * nsym) + n * 256) sub0) t 256 ! j
    = multForComplex32 13 ?z (expComlex32 fp 13 (heltf_phase fp t) (int j - 128))" for t
    using assms(8) fits by (simp add: csdForHeLTF_ref_def of_nat_diff add.assoc)
  have "expComlex32 fp 13 (heltf_phase fp 0) (int j - 128) = cpx 8192 0"
    by (rule float_unit.exp_0 [OF FU])
  then have "multForComplex32 13 ?z (expComlex32 fp 13 (heltf_phase fp 0) (int j - 128)) = ?z"
    using mult_exact [OF assms(9) float_unit.exp_cbound [OF FU], of "heltf_phase fp 0" "int j - 128"]
    by (intro complex32.equality signed_word_eqI) (simp_all add: cpx_def)
  moreover have "near 4 (lane mulhrs add sub ?z (expComlex32 fp 13 (heltf_phase fp tx) (int j - 128)))
      (multForComplex32 13 ?z (expComlex32 fp 13 (heltf_phase fp tx) (int j - 128)))"
    by (rule avx2.lane_near [OF assms(1,9) float_unit.exp_cbound [OF FU]]) simp
  ultimately show ?thesis
    using csd_streams_nth [OF assms(2,4,5,6-8)] heltf_table_nth(1) [OF assms(6,8)] by (simp add: ref assms(3))
qed

theorem data_csd_near_witness:
  "near 4 (csd_streams mulhrs_lane (+) (-) ieee globals0 (replicate 2048 (cpx 9424 (- 628))) 2 (replicate 2048 (cpx 0 0)) ! 1700)
    (csdForHeLTF_ref ieee 13 (drop 1536 (replicate 2048 (cpx 9424 (- 628)))) 3 256 ! 164)"
proof -
  have "cbound 16380 (replicate 2048 (cpx 9424 (- 628)) ! (3 * (256 * 2) + (0 * 256 + 164)))"
    by (simp add: cbound_def cpx_def)
  moreover have "(1024 :: nat) * 2 \<le> length (replicate 2048 (cpx 0 0))"
    "(1024 :: nat) * 2 \<le> length (replicate 2048 (cpx 9424 (- 628)))" by simp_all
  ultimately show ?thesis
    using data_csd_near [OF lanes.avx2_axioms, of globals0 2 "replicate 2048 (cpx 0 0)"
        "replicate 2048 (cpx 9424 (- 628))" 3 0 164 ieee] ieee.float_unit_axioms by (simp add: globals0_def)
qed

text \<open>The two builds agree on the preamble. For a field of \<open>len\<close> tones, the vector build
  leaves in the 64 tones, at the place the scalar build writes to, values within 4 units of the
  scalar ones, and zeros everywhere else.\<close>

theorem preamble_csd_near:
  assumes "avx2 mulhrs add sub" "NTXindex < 4" "length dest = 64" "len \<le> 61" "odd len" "length s = len"
    and "\<forall>i < len. cbound 16380 (s ! i)" "p < 64" and FU: "float_unit fp"
  shows "if (64 - len) div 2 + 1 \<le> p \<and> p < (64 - len) div 2 + 1 + len
    then near 4 (csdForPreamble mulhrs add sub fp 13 s NTXindex len dest ! p)
           (csdForPreamble_ref fp 13 s NTXindex len ! (p - ((64 - len) div 2 + 1)))
    else csdForPreamble mulhrs add sub fp 13 s NTXindex len dest ! p = cpx 0 0"
proof -
  let ?start = "(64 - len) div 2 + 1"
  obtain m where m: "len = 2 * m + 1" using assms(5) by (rule oddE)
  have st: "?start = 32 - m" using assms(4) by (simp add: m)
  have l62: "len \<le> 62" using assms(4) by simp
  note nth = csdForPreamble_nth [OF assms(2,3) l62 assms(8)]
  show ?thesis
  proof (cases "?start \<le> p \<and> p < ?start + len")
    case True
    then have i: "p - ?start < len" "p = ?start + (p - ?start)" by linarith+
    have ph: "int (len div 2) + 1 - int (len - (p - ?start)) = int p - 32"
      using i assms(4) unfolding st by (simp add: m)
    have "near 4 (lane mulhrs add sub (s ! (p - ?start)) (expComlex32 fp 13 (preamble_phase fp NTXindex) (int p - 32)))
      (multForComplex32 13 (s ! (p - ?start)) (expComlex32 fp 13 (preamble_phase fp NTXindex) (int p - 32)))"
      by (rule avx2.lane_near [OF assms(1) _ float_unit.exp_cbound [OF FU], of 16380]) (use assms(7) i in simp_all)
    moreover have "csdForPreamble_ref fp 13 s NTXindex len ! (p - ?start)
      = multForComplex32 13 (s ! (p - ?start)) (expComlex32 fp 13 (preamble_phase fp NTXindex) (int p - 32))"
      unfolding ph [symmetric] using i(1) by (simp add: csdForPreamble_ref_def)
    ultimately show ?thesis unfolding nth if_P [OF True] by (simp only:)
  next
    case False
    then show ?thesis unfolding nth if_not_P [OF False] avx2.lane_zero [OF assms(1)] by simp
  qed
qed

theorem preamble_csd_near_witness:
  "near 4 (csdForPreamble mulhrs_lane (+) (-) ieee 13 (replicate 53 (cpx 8192 0)) 2 53 (replicate 64 (cpx 0 0)) ! 30)
     (csdForPreamble_ref ieee 13 (replicate 53 (cpx 8192 0)) 2 53 ! 24)"
proof -
  have "\<forall>i < 53. cbound 16380 (replicate 53 (cpx 8192 0) ! i)" by (simp add: cbound_def cpx_def)
  then show ?thesis
    using preamble_csd_near [OF lanes.avx2_axioms, of 2 "replicate 64 (cpx 0 0)" 53 "replicate 53 (cpx 8192 0)" 30 ieee] ieee.float_unit_axioms by simp
qed

end
