(* ===== verification/Stages.thy ===== *)
theory Stages
  imports Scramble ModulateOpt Csd
begin

text \<open>
  The four stages of the transmitter as the threads of the DPDK programs run them, each inside
  one packet buffer: \<open>ReadData\<close>, \<open>GenDataAndScramble_DPDK\<close>, \<open>BCC_encoder_DPDK\<close>,
  \<open>modulate_DPDK\<close> and \<open>CSD_encode_DPDK\<close> of \<^verbatim>\<open>maindpdk_test_2.c\<close>. A buffer is its bytes; the
  stages use two areas of it in turn, one at the data pointer and one \<open>OFF\<close> bytes further on,
  and an access outside its area is \<open>None\<close>. The offset is an argument, because the programs
  differ in it.
\<close>

section \<open>Packet buffers\<close>

definition RTE_PKTMBUF_HEADROOM :: int16 where
  "RTE_PKTMBUF_HEADROOM = 128"

definition RTE_MBUF_DEFAULT_BUF_SIZE :: nat where
  "RTE_MBUF_DEFAULT_BUF_SIZE = 2048 + 128"

text \<open>The fields of the header that describe the data, and a buffer that owns its bytes.\<close>

record mbuf_header =
  buf_len :: int16
  data_off :: int16
  refcnt :: int16
  nb_segs :: byte
  port :: byte
  ol_flags :: "64 word"
  packet_type :: int32
  pkt_len :: int32
  data_len :: int16
  vlan_tci :: int16
  vlan_tci_outer :: int16
  tx_offload :: "64 word"

record rte_mbuf = mbuf_header +
  buf :: "byte list"

text \<open>\<open>room\<close> is the size of the data room of the pool, \<open>mbuf_size\<close> that of the header.\<close>

definition rte_pktmbuf_init :: "nat \<Rightarrow> rte_mbuf" where
  "rte_pktmbuf_init room =
     (let len = (of_nat room :: int16)
      in \<lparr>buf_len = len, data_off = min RTE_PKTMBUF_HEADROOM len, refcnt = 0,
          nb_segs = 1, port = 0xff, ol_flags = 0, packet_type = 0, pkt_len = 0, data_len = 0,
          vlan_tci = 0, vlan_tci_outer = 0, tx_offload = 0, buf = replicate room 0\<rparr>)"

definition rte_pktmbuf_reset_headroom :: "'a mbuf_header_scheme \<Rightarrow> 'a mbuf_header_scheme" where
  "rte_pktmbuf_reset_headroom m = m\<lparr>data_off := min RTE_PKTMBUF_HEADROOM (buf_len m)\<rparr>"

declare rte_pktmbuf_reset_headroom_def [simp]

definition rte_pktmbuf_reset :: "'a mbuf_header_scheme \<Rightarrow> 'a mbuf_header_scheme" where
  "rte_pktmbuf_reset m = (rte_pktmbuf_reset_headroom (m\<lparr>pkt_len := 0, tx_offload := 0, vlan_tci := 0,
     vlan_tci_outer := 0, nb_segs := 1, port := 0xff, ol_flags := 0, packet_type := 0\<rparr>))\<lparr>data_len := 0\<rparr>"

text \<open>What \<open>rte_pktmbuf_alloc\<close> does to a buffer fresh from the pool.\<close>

definition rte_pktmbuf_prepare :: "'a mbuf_header_scheme \<Rightarrow> 'a mbuf_header_scheme" where
  "rte_pktmbuf_prepare m = rte_pktmbuf_reset (m\<lparr>refcnt := 1\<rparr>)"

definition rte_pktmbuf_mtod_offset :: "rte_mbuf \<Rightarrow> nat \<Rightarrow> nat" where
  "rte_pktmbuf_mtod_offset m off = unat (data_off m) + off"

text \<open>The \<open>n\<close> bytes at an offset of the data, read and written.\<close>

definition area :: "rte_mbuf \<Rightarrow> nat \<Rightarrow> nat \<Rightarrow> byte list option" where
  "area m off n =
     (let p = rte_pktmbuf_mtod_offset m off
      in if p + n \<le> length (buf m) then Some (take n (drop p (buf m))) else None)"

definition set_area :: "rte_mbuf \<Rightarrow> nat \<Rightarrow> byte list \<Rightarrow> rte_mbuf option" where
  "set_area m off bs =
     (let p = rte_pktmbuf_mtod_offset m off
      in if p + length bs \<le> length (buf m)
         then Some (m\<lparr>buf := take p (buf m) @ bs @ drop (p + length bs) (buf m)\<rparr>) else None)"

section \<open>Complex numbers as bytes\<close>

definition cpx_bytes :: "complex32 \<Rightarrow> byte list" where
  "cpx_bytes z = [ucast (re z), ucast (drop_bit 8 (re z)), ucast (im z), ucast (drop_bit 8 (im z))]"

definition le16 :: "byte \<Rightarrow> byte \<Rightarrow> int16" where
  "le16 lo hi = ucast lo OR push_bit 8 (ucast hi)"

fun bytes_cpxs :: "byte list \<Rightarrow> complex32 list" where
  "bytes_cpxs (a # b # c # d # bs) = \<lparr>re = le16 a b, im = le16 c d\<rparr> # bytes_cpxs bs"
| "bytes_cpxs bs = []"

definition cpxs_bytes :: "complex32 list \<Rightarrow> byte list" where
  "cpxs_bytes zs = concat (map cpx_bytes zs)"

lemma le16_bytes: "le16 (ucast w) (ucast (drop_bit 8 w)) = w"
  by (rule bit_word_eqI) (auto simp: le16_def bit_simps)

lemma length_cpxs_bytes [simp]: "length (cpxs_bytes zs) = 4 * length zs"
  by (induction zs) (simp_all add: cpxs_bytes_def cpx_bytes_def)

lemma bytes_cpxs_bytes [simp]: "bytes_cpxs (cpxs_bytes zs) = zs"
  by (induction zs) (simp_all add: cpxs_bytes_def cpx_bytes_def le16_bytes)

lemma length_bytes_cpxs [simp]: "length (bytes_cpxs bs) = length bs div 4"
  by (induction bs rule: bytes_cpxs.induct) simp_all

section \<open>The stages\<close>

definition ReadData :: "byte list \<Rightarrow> rte_mbuf \<Rightarrow> rte_mbuf option" where
  "ReadData Data_in m = set_area m 0 Data_in"

text \<open>\<open>ScrLength\<close>, \<open>N_SYM\<close>, \<open>N_CBPS\<close> and \<open>valid_bits\<close> are the results of \<open>GenInit\<close>.\<close>

definition scramble_stage :: "nat \<Rightarrow> Scramble_t list list \<Rightarrow> globals \<Rightarrow> rte_mbuf \<Rightarrow> rte_mbuf option" where
  "scramble_stage OFF tab g m = do {
     databits \<leftarrow> area m 0 (APEP_LEN g);
     set_area m OFF (GenDataAndScramble tab g (scr_len g) databits (scr_valid g)) }"

text \<open>The areas of the encoder and the mapper reach from their pointers to the end of the area.\<close>

definition rest_len :: "rte_mbuf \<Rightarrow> nat \<Rightarrow> nat" where
  "rest_len m off = length (buf m) - rte_pktmbuf_mtod_offset m off"

definition encode_stage :: "nat \<Rightarrow> BCCStruct_t list list \<Rightarrow> globals \<Rightarrow> rte_mbuf \<Rightarrow> rte_mbuf option" where
  "encode_stage OFF bcc g m = do {
     data_scramble \<leftarrow> area m OFF (rest_len m OFF);
     BCCencodeout \<leftarrow> area m 0 OFF;
     outs \<leftarrow> BCC_encoder_OPT bcc g data_scramble (scr_len g) BCCencodeout;
     set_area m 0 outs }"

definition modulate_stage :: "nat \<Rightarrow> globals \<Rightarrow> int16 list list \<Rightarrow> complex32 list \<Rightarrow> rte_mbuf \<Rightarrow> rte_mbuf option" where
  "modulate_stage OFF g weave pts m = do {
     BCCencodeout \<leftarrow> area m 0 OFF;
     subcar_map_data \<leftarrow> area m OFF (4 * (rest_len m OFF div 4));
     out \<leftarrow> modulate_mapping g BCCencodeout (bytes_cpxs subcar_map_data) weave pts;
     set_area m OFF (cpxs_bytes out) }"

definition csd_stage :: "nat \<Rightarrow> (int16 \<Rightarrow> int16 \<Rightarrow> int16) \<Rightarrow> (int16 \<Rightarrow> int16 \<Rightarrow> int16) \<Rightarrow> (int16 \<Rightarrow> int16 \<Rightarrow> int16) \<Rightarrow> fpu
    \<Rightarrow> globals \<Rightarrow> rte_mbuf \<Rightarrow> rte_mbuf option" where
  "csd_stage OFF mulhrs add sub fp g m = do {
     csd_data \<leftarrow> area m 0 (N_STS * (subcar g * frame_syms g) * 4);
     subcar_map_data \<leftarrow> area m OFF (N_STS * (subcar g * frame_syms g) * 4);
     set_area m 0 (cpxs_bytes (csd_streams mulhrs add sub fp g (bytes_cpxs subcar_map_data) (frame_syms g)
       (bytes_cpxs csd_data))) }"

section \<open>Areas\<close>

lemma set_area_run:
  assumes "unat (data_off m) + off + length bs \<le> length (buf m)"
  obtains m' where "set_area m off bs = Some m'" "length (buf m') = length (buf m)" "data_off m' = data_off m"
    "area m' off (length bs) = Some bs"
    "\<And>off' n. off' + n \<le> off \<or> off + length bs \<le> off' \<Longrightarrow> area m' off' n = area m off' n"
proof -
  let ?p = "unat (data_off m) + off"
  let ?m = "m\<lparr>buf := take ?p (buf m) @ bs @ drop (?p + length bs) (buf m)\<rparr>"
  show thesis
  proof (rule that [of ?m])
    show "set_area m off bs = Some ?m" using assms by (simp add: set_area_def rte_pktmbuf_mtod_offset_def Let_def)
    show "length (buf ?m) = length (buf m)" "data_off ?m = data_off m" using assms by simp_all
    show "area ?m off (length bs) = Some bs" using assms by (simp add: area_def rte_pktmbuf_mtod_offset_def)
    show "area ?m off' n = area m off' n" if "off' + n \<le> off \<or> off + length bs \<le> off'" for off' n
    proof -
      let ?q = "unat (data_off m) + off'"
      have "take n (drop ?q (buf ?m)) = take n (drop ?q (buf m))" if "?q + n \<le> length (buf m)"
        using \<open>off' + n \<le> off \<or> off + length bs \<le> off'\<close> that assms
        by (intro nth_equalityI) (auto simp: nth_append ac_simps)
      then show ?thesis using assms by (simp add: area_def rte_pktmbuf_mtod_offset_def Let_def)
    qed
  qed
qed

lemma area_some:
  assumes "unat (data_off m) + off + n \<le> length (buf m)"
  obtains bs where "area m off n = Some bs" "length bs = n"
  using assms by (simp add: area_def rte_pktmbuf_mtod_offset_def)

lemma area_eq: "area m off n = Some bs \<longleftrightarrow>
    unat (data_off m) + off + n \<le> length (buf m) \<and> bs = take n (drop (unat (data_off m) + off) (buf m))"
  by (auto simp: area_def rte_pktmbuf_mtod_offset_def Let_def)

lemma area_part:
  assumes "area m off n = Some bs" "i + k \<le> n"
  shows "area m (off + i) k = Some (take k (drop i bs))"
proof -
  have "take k (drop i bs) = take k (drop (unat (data_off m) + (off + i)) (buf m))"
    using assms by (simp add: area_eq drop_take min_def add.assoc add.commute add.left_commute)
  then show ?thesis using assms unfolding area_eq by simp
qed

section \<open>What the stages leave\<close>

definition roomy :: "nat \<Rightarrow> rte_mbuf \<Rightarrow> bool" where
  "roomy OFF m \<longleftrightarrow> 11256 \<le> OFF \<and> unat (data_off m) \<le> 128 \<and> 128 + OFF + 8192 \<le> length (buf m)"

text \<open>The plain chain of the transmitter, on fresh arrays: encoder, mapper, pilots. \<open>mem\<close> is what
  the encoder's own buffer holds before.\<close>

definition plain_chain :: "globals \<Rightarrow> byte list \<Rightarrow> byte list \<Rightarrow> complex32 list list" where
  "plain_chain g mem dat =
     (let nsym = frame_syms g; rl = row_len g
      in case BCC_encoder code_table g dat (scr_len g) nsym (replicate N_STS (replicate rl 0)) rl
             mem (replicate N_STS (replicate rl 0)) of
           None \<Rightarrow> []
         | Some rows \<Rightarrow> (case modulate g rows rl nsym (replicate N_STS (replicate (234 * nsym) (cpx 0 0))) of
               Inl _ \<Rightarrow> []
             | Inr r \<Rightarrow> PilotAdd_SubcarMap 0 g (mod_sym r) nsym (replicate N_STS (replicate (nsym * 256) (cpx 0 0)))))"

definition tables_ready :: "globals \<Rightarrow> Scramble_t list list \<Rightarrow> BCCStruct_t list list \<Rightarrow> int16 list list
    \<Rightarrow> complex32 list \<Rightarrow> bool" where
  "tables_ready g tab bcc weave pts \<longleftrightarrow> tab = chart \<and> bcc = bcc_table \<and> init_mapping_table g = Some pts
     \<and> (\<exists>oob tjunk cin wjunk. rows_ge 1404 tjunk \<and> rows_ge 1404 cin \<and> N_STS \<le> length wjunk
         \<and> (\<forall>tx < N_STS. length (wjunk ! tx) = 1426 * frame_syms g)
         \<and> weave = initial_streamwave_table oob g (frame_syms g) tjunk cin wjunk)"

definition scrambled :: "globals \<Rightarrow> byte list \<Rightarrow> byte list" where
  "scrambled g D = GenDataAndScramble_ref g (scr_len g) D (scr_valid g)"

definition read_done :: "globals \<Rightarrow> byte list \<Rightarrow> rte_mbuf \<Rightarrow> bool" where
  "read_done g D m \<longleftrightarrow> area m 0 (APEP_LEN g) = Some D"

definition scramble_done :: "nat \<Rightarrow> globals \<Rightarrow> byte list \<Rightarrow> rte_mbuf \<Rightarrow> bool" where
  "scramble_done OFF g D m \<longleftrightarrow> area m OFF (scr_len g) = Some (scrambled g D)"

definition encode_done :: "nat \<Rightarrow> globals \<Rightarrow> byte list \<Rightarrow> rte_mbuf \<Rightarrow> bool" where
  "encode_done OFF g D m \<longleftrightarrow> (\<exists>rest old outs. rest \<noteq> [] \<and> length old = OFF \<and> area m 0 OFF = Some outs
     \<and> BCC_encoder_OPT bcc_table g (scrambled g D @ rest) (scr_len g) old = Some outs)"

definition frame_points :: "globals \<Rightarrow> byte list \<Rightarrow> complex32 list \<Rightarrow> bool" where
  "frame_points g D zs \<longleftrightarrow> (\<exists>rest mem. rest \<noteq> [] \<and> row_len g * N_STS + 24 \<le> length mem \<and> (\<forall>tx < N_STS. \<forall>q < frame_syms g. \<forall>j < 256.
     zs ! (tx * (256 * frame_syms g) + (q * 256 + j)) = plain_chain g mem (scrambled g D @ rest) ! tx ! (j + q * 256)
     \<and> cbound 16380 (zs ! (tx * (256 * frame_syms g) + (q * 256 + j)))))"

definition map_done :: "nat \<Rightarrow> globals \<Rightarrow> byte list \<Rightarrow> rte_mbuf \<Rightarrow> bool" where
  "map_done OFF g D m \<longleftrightarrow> (\<exists>bs. area m OFF (N_STS * (256 * frame_syms g) * 4) = Some bs
     \<and> frame_points g D (bytes_cpxs bs))"

lemma six_bit_sizes:
  assumes "six_bit_setting g"
  shows "frame_syms g \<le> 2" "0 < frame_syms g" "scr_len g < 8192" "APEP_LEN g \<le> 8192" "row_len g * N_STS + 24 \<le> 11256"
    "N_STS * (256 * frame_syms g) * 4 \<le> 8192" "APEP_LEN g \<le> scr_len g"
proof -
  have mcs: "MCS g < 10" by (rule six_bit_params(2) [OF assms])
  have "MCS g = 5 \<or> MCS g = 6 \<or> MCS g = 7" using assms by (auto simp: six_bit_setting_def)
  then have dbps: "n_dbps (mcs_table_for_20M g) \<le> 4680"
    by (elim disjE; simp add: mcs_table_for_20M_def mcs_tabs param_simps)
  show n: "frame_syms g \<le> 2" using assms by (simp add: six_bit_setting_def)
  show "0 < frame_syms g" using num_sym_pos [OF mcs] by (simp add: frame_syms_def)
  have "scr_valid g + 6 \<le> 2 * 4680"
    unfolding scr_valid_tail [OF mcs] by (intro mult_le_mono n dbps)
  then show s: "scr_len g < 8192" using scr_len_eq [OF mcs] by simp
  show a: "APEP_LEN g \<le> scr_len g" using scr_valid_ge [OF mcs] scr_len_eq [OF mcs] by simp
  show "APEP_LEN g \<le> 8192" using a s by simp
  show "row_len g * N_STS + 24 \<le> 11256"
    using row_len_frame [OF mcs] six_bit_row_len(3) [OF assms] n by simp
  show "N_STS * (256 * frame_syms g) * 4 \<le> 8192" using n by (simp add: N_STS_def)
qed

lemma roomy_prepare: "roomy OFF m \<Longrightarrow> roomy OFF (rte_pktmbuf_prepare m)"
  by (simp add: roomy_def rte_pktmbuf_prepare_def rte_pktmbuf_reset_def RTE_PKTMBUF_HEADROOM_def min_def word_le_nat_alt)

lemma roomy_same: "roomy OFF m \<Longrightarrow> length (buf m') = length (buf m) \<Longrightarrow> data_off m' = data_off m \<Longrightarrow> roomy OFF m'"
  by (simp add: roomy_def)

lemma read_stage:
  assumes "six_bit_setting g" "roomy OFF m" "length D = APEP_LEN g"
  shows "\<exists>m'. ReadData D m = Some m' \<and> roomy OFF m' \<and> read_done g D m'"
proof -
  have "unat (data_off m) + 0 + length D \<le> length (buf m)"
    using assms(2,3) six_bit_sizes [OF assms(1)] by (simp add: roomy_def)
  then show ?thesis
    by (rule set_area_run) (use assms roomy_same in \<open>auto simp: ReadData_def read_done_def\<close>)
qed

lemma scramble_stage_run:
  assumes "six_bit_setting g" "roomy OFF m" "read_done g D m"
  shows "\<exists>m'. scramble_stage OFF chart g m = Some m' \<and> roomy OFF m' \<and> scramble_done OFF g D m'"
proof -
  note sz = six_bit_sizes [OF assms(1)] and mcs = six_bit_params(2) [OF assms(1)]
  let ?S = "GenDataAndScramble chart g (scr_len g) D (scr_valid g)"
  have e: "?S = scrambled g D" unfolding scrambled_def by (rule chart_ref_eq [OF mcs])
  have "length ?S = scr_len g" by (rule length_opt [OF scr_len_eq [OF mcs]])
  then have l: "length ?S = scr_len g" .
  then have "unat (data_off m) + OFF + length ?S \<le> length (buf m)"
    using assms(2) sz by (simp add: roomy_def)
  then show ?thesis
    by (rule set_area_run)
      (use assms roomy_same l e in \<open>auto simp: scramble_stage_def read_done_def scramble_done_def\<close>)
qed

lemma encode_stage_run:
  assumes "six_bit_setting g" "roomy OFF m" "scramble_done OFF g D m"
  shows "\<exists>m'. encode_stage OFF bcc_table g m = Some m' \<and> roomy OFF m' \<and> encode_done OFF g D m'"
proof -
  note sz = six_bit_sizes [OF assms(1)] and mcs = six_bit_params(2) [OF assms(1)]
  have rm: "11256 \<le> OFF" "unat (data_off m) + OFF + 8192 \<le> length (buf m)" using assms(2) by (simp_all add: roomy_def)
  let ?n = "rest_len m OFF"
  have n: "unat (data_off m) + OFF + ?n = length (buf m)" "scr_len g < ?n"
    using rm(2) sz(3) by (simp_all add: rest_len_def rte_pktmbuf_mtod_offset_def)
  obtain dat where dat: "area m OFF ?n = Some dat" "length dat = ?n"
    by (rule area_some [of m OFF ?n]) (use n in simp)
  obtain old where old: "area m 0 OFF = Some old" "length old = OFF"
    by (rule area_some [of m 0 OFF]) (use rm in simp)
  have "area m (OFF + 0) (scr_len g) = Some (take (scr_len g) (drop 0 dat))"
    by (rule area_part [OF dat(1)]) (use n(2) in simp)
  then have "scrambled g D = take (scr_len g) dat" using assms(3) by (simp add: scramble_done_def)
  then have d: "dat = scrambled g D @ drop (scr_len g) dat" "drop (scr_len g) dat \<noteq> []"
    using n(2) dat(2) by simp_all
  have l: "scr_len g + 1 \<le> length dat" "frame_code g + 24 \<le> length old"
    using n(2) dat(2) old(2) rm(1) sz(5) row_len_frame [OF mcs] by simp_all
  from encoder_opt_prefix [OF mcs l] obtain outs where
    outs: "BCC_encoder_OPT bcc_table g dat (scr_len g) old = Some outs" "length outs = length old" by blast
  have "unat (data_off m) + 0 + length outs \<le> length (buf m)" using outs(2) old(2) rm by simp
  then obtain m' where m': "set_area m 0 outs = Some m'" "length (buf m') = length (buf m)" "data_off m' = data_off m"
    "area m' 0 (length outs) = Some outs" by (rule set_area_run)
  have "encode_stage OFF bcc_table g m = Some m'" by (simp add: encode_stage_def dat old outs(1) m'(1))
  moreover have "encode_done OFF g D m'"
    unfolding encode_done_def using d old(2) m'(4) outs by metis
  ultimately show ?thesis using roomy_same [OF assms(2) m'(2,3)] by blast
qed

lemma length_map_loop:
  "map_loop tab outs pts TL cbps base L j t b = Some b' \<Longrightarrow> length b' = length b"
proof (induction tab outs pts TL cbps base L j t b rule: map_loop.induct)
  case (1 tab outs pts TL cbps base L j t b)
  show ?case
  proof (cases "j < L")
    case False
    then show ?thesis using "1.prems" by (simp add: map_loop.simps [of tab])
  next
    case True
    obtain e where e: "get tab j = Some e"
      using "1.prems" True by (auto simp: map_loop.simps [of tab] bind_eq_Some_conv)
    show ?thesis
    proof (cases "6000 \<le> sint e")
      case big: True
      then obtain c b1 where "get pilot_type (nat (sint e - 6000)) = Some c" "put b (base + t) c = Some b1"
        "map_loop tab outs pts TL cbps base L (j + 1) (t + 1) b1 = Some b'"
        using "1.prems" True e by (auto simp: map_loop.simps [of tab] bind_eq_Some_conv)
      then show ?thesis using "1.IH"(1) [OF True e big] by (auto simp: put_def split: if_splits)
    next
      case small: False
      then obtain a c b1 where "addr_bits tab outs (if TL \<le> j then cbps else 0) j 6 0 = Some a" "get pts a = Some c"
        "put b (base + t) c = Some b1" "map_loop tab outs pts TL cbps base L (j + 6) (t + 1) b1 = Some b'"
        using "1.prems" True e by (auto simp: map_loop.simps [of tab] bind_eq_Some_conv)
      then show ?thesis using "1.IH"(2) [OF True e small] by (auto simp: put_def split: if_splits)
    qed
  qed
qed

lemma length_modulate_mapping:
  assumes "modulate_mapping g outs flat0 weave pts = Some flat"
  shows "length flat = length flat0"
proof -
  have "map_streams is f b = Some b' \<Longrightarrow> (\<And>i b b'. f i b = Some b' \<Longrightarrow> length b' = length b) \<Longrightarrow> length b' = length b"
    for "is" f and b b' :: "complex32 list"
    by (induction "is" arbitrary: b) (auto simp: bind_eq_Some_conv)
  then show ?thesis
    using assms length_map_loop unfolding modulate_mapping_def stream_interweave_mapping_def Let_def by blast
qed

text \<open>The points are within the constellation.\<close>

lemma levels_bound:
  assumes "0 < mode" "mode \<le> 4" "p < 2 ^ mode"
  shows "\<bar>levels_of mode ! p\<bar> \<le> 9424"
proof -
  have "\<forall>x \<in> set (levels_of mode). \<bar>x\<bar> \<le> 9424"
    by (cases rule: mode_cases [OF assms(1,2)]; simp add: levels_of_def)
  then show ?thesis using levels_of_facts(1) [OF assms(1,2)] assms(3) nth_mem by metis
qed

lemma bit_point_cbound:
  assumes "0 < mode" "mode \<le> 4"
  shows "cbound 16380 (bit_point mode row d)"
proof -
  obtain p q where pq: "p < 2 ^ mode" "q < 2 ^ mode" "bit_point mode row d = cpx (levels_of mode ! p) (levels_of mode ! q)"
    using bit_point_levels [OF assms, of row d] by blast
  have "\<bar>levels_of mode ! p\<bar> \<le> 9424" "\<bar>levels_of mode ! q\<bar> \<le> 9424" using levels_bound [OF assms] pq by blast+
  then show ?thesis by (simp add: pq(3) cbound_def cpx_def abs_le_iff)
qed

lemma pilot_cbound:
  assumes "p < 8"
  shows "cbound 16380 (pilots_of g q ! p)"
proof -
  have "\<forall>z \<in> set Data_pilot80. cbound 16380 z" by (simp add: Data_pilot80_def cbound_def cpx_def)
  moreover have "(p + q mod N_pilot g) mod pilot_N < length Data_pilot80" by (simp add: Data_pilot80_def pilot_N_def)
  ultimately show ?thesis using assms nth_mem by (fastforce simp: pilots_of_def Let_def pilot_N_def)
qed

lemma subcar_value_cbound:
  assumes "sl \<noteq> Skip" "\<forall>p. sl = Pilot p \<longrightarrow> p < 8"
    and "\<And>d. sl = Data d \<Longrightarrow> cbound 16380 (subcar_value g syms q tx sl)"
  shows "cbound 16380 (subcar_value g syms q tx sl)"
proof -
  have "cbound 16380 (cpx 0 0)" by (simp add: cbound_def cpx_def)
  then show ?thesis using assms by (cases sl) (auto simp: subcar_value_def pilot_cbound)
qed

text \<open>The plain chain on an input with one byte after the scrambled ones, and the mapper's points.\<close>

lemma plain_chain_points:
  assumes "six_bit_setting g" "scr_len g + 1 \<le> length dat" "row_len g * N_STS + 24 \<le> length old"
    and "tables_ready g tab bcc weave pts" "BCC_encoder_OPT bcc_table g dat (scr_len g) old = Some outs"
    and "1024 * frame_syms g \<le> length flat0"
  shows "\<exists>flat. modulate_mapping g outs flat0 weave pts = Some flat
    \<and> (\<forall>tx < N_STS. \<forall>q < frame_syms g. \<forall>j < 256.
        flat ! (tx * (256 * frame_syms g) + (q * 256 + j)) = plain_chain g old dat ! tx ! (j + q * 256)
        \<and> cbound 16380 (flat ! (tx * (256 * frame_syms g) + (q * 256 + j))))"
proof -
  let ?nsym = "frame_syms g" and ?rl = "row_len g"
  let ?R = "replicate N_STS (replicate ?rl (0 :: byte))" and ?Y = "replicate N_STS (replicate (234 * ?nsym) (cpx 0 0))"
  note sz = six_bit_sizes [OF assms(1)] and par = six_bit_params [OF assms(1)] and rl = six_bit_row_len(2) [OF assms(1)]
  obtain oob tjunk cin wjunk where t: "rows_ge 1404 tjunk" "rows_ge 1404 cin" "N_STS \<le> length wjunk"
    "\<forall>tx < N_STS. length (wjunk ! tx) = 1426 * ?nsym"
    "weave = initial_streamwave_table oob g ?nsym tjunk cin wjunk" "init_mapping_table g = Some pts"
    using assms(4) unfolding tables_ready_def by blast
  have ge: "rows_ge ?rl ?R" "rows_ge (234 * ?nsym) ?Y" by (simp_all add: rows_ge_def)
  obtain rows r flat where
    rows: "BCC_encoder code_table g dat (scr_len g) ?nsym ?R ?rl old ?R = Some rows"
    and r: "modulate g rows ?rl ?nsym ?Y = Inr r"
    and flat: "modulate_mapping g outs flat0 weave pts = Some flat"
    and val: "\<And>tx q j. tx < N_STS \<Longrightarrow> q < ?nsym \<Longrightarrow> j < 256 \<Longrightarrow>
        flat ! (tx * (256 * ?nsym) + (q * 256 + j)) = subcar_value g (mod_sym r) q tx (map_layout 0 ! j)"
    using mapper_slots [OF assms(1-3) ge(1,1,2) t(1-4) assms(6), of oob] assms(5) t(5,6) by auto
  let ?Z = "replicate N_STS (replicate (?nsym * 256) (cpx 0 0))"
  have chain: "plain_chain g old dat = PilotAdd_SubcarMap 0 g (mod_sym r) ?nsym ?Z"
    by (simp add: plain_chain_def Let_def rows r)
  have "subcar g = 256" using assms(1) by (simp add: six_bit_setting_def)
  note slots = PilotAdd_nth [OF this, of ?nsym ?Z _ _ _ 0 "mod_sym r"]
  have gz: "rows_ge (?nsym * 256) ?Z" by (simp add: rows_ge_def)
  have "rows_ge (n_bpscs (mcs_table_for_20M g) * (234 * ?nsym)) rows"
    using BCC_encoder_rows [OF rows, of "6 * (234 * ?nsym)"] ge(1) by (simp only: rl par(3))
  from modulate_run [OF par(1,2) this ge(2)] r have
    pts: "\<And>tx d. tx < N_STS \<Longrightarrow> d < 234 * ?nsym \<Longrightarrow> mod_sym r ! tx ! d = bit_point 3 (rows ! tx) d"
    unfolding par(3) rl by auto
  have N: "N_tone g - N_pilot g = 234" using assms(1) by (simp add: six_bit_setting_def)
  have "cbound 16380 (subcar_value g (mod_sym r) q tx (map_layout 0 ! j))"
    if "tx < N_STS" "q < ?nsym" "j < 256" for tx q j
  proof (rule subcar_value_cbound)
    have "map_layout 0 ! j \<in> set (map_layout 0)" using that(3) by simp
    with map_layout_slots [of 0] have sl: "map_layout 0 ! j \<noteq> Skip" "\<forall>p. map_layout 0 ! j = Pilot p \<longrightarrow> p < 8"
      "\<forall>d. map_layout 0 ! j = Data d \<longrightarrow> d < 234" by blast+
    show "map_layout 0 ! j \<noteq> Skip" "\<forall>p. map_layout 0 ! j = Pilot p \<longrightarrow> p < 8" by (rule sl(1), rule sl(2))
    fix d
    assume d: "map_layout 0 ! j = Data d"
    then have "d + q * 234 < 234 * ?nsym" using sl(3) that(2) mult_le_mono1 [of "Suc q" ?nsym 234] by simp
    then show "cbound 16380 (subcar_value g (mod_sym r) q tx (map_layout 0 ! j))"
      using pts [OF that(1)] bit_point_cbound [of 3] by (simp add: subcar_value_def d N)
  qed
  then show ?thesis using flat val slots [OF gz] unfolding chain by auto
qed

lemma take_cpxs_bytes: "take (k * 4) (cpxs_bytes zs) = cpxs_bytes (take k zs)"
proof (induction zs arbitrary: k)
  case Nil
  then show ?case by (simp add: cpxs_bytes_def)
next
  case (Cons z zs)
  have four: "length (cpx_bytes z) = 4" by (simp add: cpx_bytes_def)
  show ?case
    by (cases k) (use Cons in \<open>simp_all add: cpxs_bytes_def four\<close>)
qed

lemma flat_index:
  assumes "tx < N_STS" "q < n" "j < 256"
  shows "tx * (256 * n) + (q * 256 + j) < N_STS * (256 * n)"
proof -
  have "(q + 1) * 256 \<le> n * 256" "(tx + 1) * (256 * n) \<le> N_STS * (256 * n)"
    using assms by (intro mult_le_mono1; simp)+
  then have "q * 256 + 256 \<le> 256 * n" "tx * (256 * n) + 256 * n \<le> N_STS * (256 * n)"
    by (simp_all only: add_mult_distrib mult_1 mult.commute [of n 256])
  then show ?thesis using assms(3) by linarith
qed

lemma frame_points_take: "frame_points g D zs \<Longrightarrow> frame_points g D (take (N_STS * (256 * frame_syms g)) zs)"
  unfolding frame_points_def by (simp add: flat_index)

lemma modulate_stage_run:
  assumes "six_bit_setting g" "roomy OFF m" "encode_done OFF g D m" "tables_ready g tab bcc weave pts"
  shows "\<exists>m'. modulate_stage OFF g weave pts m = Some m' \<and> roomy OFF m' \<and> map_done OFF g D m'"
proof -
  note sz = six_bit_sizes [OF assms(1)] and mcs = six_bit_params(2) [OF assms(1)]
  have rm: "11256 \<le> OFF" "unat (data_off m) + OFF + 8192 \<le> length (buf m)" using assms(2) by (simp_all add: roomy_def)
  let ?n = "rest_len m OFF" and ?k = "N_STS * (256 * frame_syms g)"
  have n: "unat (data_off m) + OFF + ?n = length (buf m)" "8192 \<le> ?n"
    using rm(2) by (simp_all add: rest_len_def rte_pktmbuf_mtod_offset_def)
  have len: "length (scrambled g D) = scr_len g"
    unfolding scrambled_def by (rule length_ref [OF scr_len_eq [OF mcs]])
  obtain rest old outs where e: "rest \<noteq> []" "length old = OFF" "area m 0 OFF = Some outs"
    "BCC_encoder_OPT bcc_table g (scrambled g D @ rest) (scr_len g) old = Some outs"
    using assms(3) unfolding encode_done_def by blast
  have "4 * (?n div 4) \<le> ?n" by simp
  then obtain bs where bs: "area m OFF (4 * (?n div 4)) = Some bs" "length bs = 4 * (?n div 4)"
    using area_some [of m OFF "4 * (?n div 4)"] n(1) by (metis add_le_cancel_left)
  have fit: "1024 * frame_syms g \<le> length (bytes_cpxs bs)" using n(2) sz(1) bs(2) by simp
  have "scr_len g + 1 \<le> length (scrambled g D @ rest)" using e(1) len by (cases rest) simp_all
  moreover have oldlen: "row_len g * N_STS + 24 \<le> length old" using sz(5) rm(1) e(2) by simp
  ultimately obtain flat where
    flat: "modulate_mapping g outs (bytes_cpxs bs) weave pts = Some flat"
    and pts: "\<forall>tx < N_STS. \<forall>q < frame_syms g. \<forall>j < 256.
        flat ! (tx * (256 * frame_syms g) + (q * 256 + j)) = plain_chain g old (scrambled g D @ rest) ! tx ! (j + q * 256)
        \<and> cbound 16380 (flat ! (tx * (256 * frame_syms g) + (q * 256 + j)))"
    using plain_chain_points [OF assms(1) _ _ assms(4) e(4) fit] by blast
  have fp: "frame_points g D flat" unfolding frame_points_def using e(1) oldlen pts by blast
  have lf: "length (cpxs_bytes flat) = 4 * (?n div 4)"
    using length_modulate_mapping [OF flat] bs(2) by simp
  then have "unat (data_off m) + OFF + length (cpxs_bytes flat) \<le> length (buf m)" using n(1) by simp
  then obtain m' where m': "set_area m OFF (cpxs_bytes flat) = Some m'" "length (buf m') = length (buf m)"
    "data_off m' = data_off m" "area m' OFF (length (cpxs_bytes flat)) = Some (cpxs_bytes flat)" by (rule set_area_run)
  have run: "modulate_stage OFF g weave pts m = Some m'" by (simp add: modulate_stage_def e(3) bs(1) flat m'(1))
  have k: "?k * 4 \<le> length (cpxs_bytes flat)" using sz(6) n(2) unfolding lf by simp
  then have "area m' OFF (?k * 4) = Some (take (?k * 4) (cpxs_bytes flat))"
    using area_part [OF m'(4), of 0 "?k * 4"] by simp
  moreover have "bytes_cpxs (take (?k * 4) (cpxs_bytes flat)) = take ?k flat"
    by (simp only: take_cpxs_bytes bytes_cpxs_bytes)
  ultimately have "map_done OFF g D m'"
    unfolding map_done_def using frame_points_take [OF fp] by metis
  then show ?thesis using run roomy_same [OF assms(2) m'(2,3)] by blast
qed

text \<open>The last stage.\<close>

definition csd_done :: "fpu \<Rightarrow> globals \<Rightarrow> byte list \<Rightarrow> rte_mbuf \<Rightarrow> bool" where
  "csd_done fp g D m \<longleftrightarrow> (\<exists>rest mem bs. rest \<noteq> [] \<and> row_len g * N_STS + 24 \<le> length mem
     \<and> area m 0 (N_STS * (256 * frame_syms g) * 4) = Some bs
     \<and> (\<forall>tx < N_STS. \<forall>q < frame_syms g. \<forall>j < 256.
         near 4 (bytes_cpxs bs ! (tx * (256 * frame_syms g) + (q * 256 + j)))
           (multForComplex32 13 (plain_chain g mem (scrambled g D @ rest) ! tx ! (j + q * 256))
              (expComlex32 fp 13 (heltf_phase fp tx) (int j - 128)))))"

lemma csd_stage_run:
  assumes "six_bit_setting g" "roomy OFF m" "map_done OFF g D m" "avx2 mulhrs add sub" "dotscale g = 13"
    and FU: "float_unit fp"
  shows "\<exists>m'. csd_stage OFF mulhrs add sub fp g m = Some m' \<and> roomy OFF m' \<and> csd_done fp g D m'"
proof -
  note sz = six_bit_sizes [OF assms(1)]
  have rm: "11256 \<le> OFF" "unat (data_off m) + OFF + 8192 \<le> length (buf m)" using assms(2) by (simp_all add: roomy_def)
  have sc: "subcar g = 256" using assms(1) by (simp add: six_bit_setting_def)
  let ?k = "N_STS * (256 * frame_syms g)"
  obtain bs where bs: "area m OFF (?k * 4) = Some bs" "frame_points g D (bytes_cpxs bs)"
    using assms(3) unfolding map_done_def by blast
  obtain cs where cs: "area m 0 (?k * 4) = Some cs" "length cs = ?k * 4"
    by (rule area_some [of m 0 "?k * 4"]) (use rm sz(6) in linarith)
  have lb: "length bs = ?k * 4" using bs(1) by (auto simp: area_eq)
  let ?out = "csd_streams mulhrs add sub fp g (bytes_cpxs bs) (frame_syms g) (bytes_cpxs cs)"
  have fit: "1024 * frame_syms g \<le> length (bytes_cpxs cs)" "1024 * frame_syms g \<le> length (bytes_cpxs bs)"
    using cs(2) lb by (simp_all add: N_STS_def)
  have lo: "length ?out = ?k"
    using length_streams [OF sc fit(1), of N_STS] cs(2) by (simp add: csd_streams_def N_STS_def)
  then have "unat (data_off m) + 0 + length (cpxs_bytes ?out) \<le> length (buf m)" using rm sz(6) by simp
  then obtain m' where m': "set_area m 0 (cpxs_bytes ?out) = Some m'" "length (buf m') = length (buf m)"
    "data_off m' = data_off m" "area m' 0 (length (cpxs_bytes ?out)) = Some (cpxs_bytes ?out)" by (rule set_area_run)
  have run: "csd_stage OFF mulhrs add sub fp g m = Some m'" 
    unfolding csd_stage_def sc bs(1) cs(1) by (simp add: m'(1))
  obtain rest mem where pt: "rest \<noteq> []" "row_len g * N_STS + 24 \<le> length mem"
    "\<And>tx q j. tx < N_STS \<Longrightarrow> q < frame_syms g \<Longrightarrow> j < 256 \<Longrightarrow>
      bytes_cpxs bs ! (tx * (256 * frame_syms g) + (q * 256 + j)) = plain_chain g mem (scrambled g D @ rest) ! tx ! (j + q * 256)
      \<and> cbound 16380 (bytes_cpxs bs ! (tx * (256 * frame_syms g) + (q * 256 + j)))"
    using bs(2) unfolding frame_points_def by blast
  have "near 4 (?out ! (tx * (256 * frame_syms g) + (q * 256 + j)))
      (multForComplex32 13 (plain_chain g mem (scrambled g D @ rest) ! tx ! (j + q * 256))
         (expComlex32 fp 13 (heltf_phase fp tx) (int j - 128)))"
    if t: "tx < N_STS" "q < frame_syms g" "j < 256" for tx q j
  proof -
    have t4: "tx < 4" using t(1) by (simp add: N_STS_def)
    let ?z = "bytes_cpxs bs ! (tx * (256 * frame_syms g) + (q * 256 + j))"
    have "near 4 (lane mulhrs add sub ?z (expComlex32 fp 13 (heltf_phase fp tx) (int j - 128)))
        (multForComplex32 13 ?z (expComlex32 fp 13 (heltf_phase fp tx) (int j - 128)))"
      by (rule avx2.lane_near [OF assms(4) conjunct2 [OF pt(3) [OF t]] float_unit.exp_cbound [OF FU]]) simp
    then show ?thesis
      using csd_streams_nth [OF sc fit t4 t(2,3)] heltf_table_nth(1) [OF t4 t(3)] pt(3) [OF t] by (simp add: assms(5))
  qed
  moreover have "bytes_cpxs (cpxs_bytes ?out) = ?out" by simp
  moreover have "area m' 0 (?k * 4) = Some (cpxs_bytes ?out)" using m'(4) lo by (simp add: mult.commute)
  ultimately have "csd_done fp g D m'" unfolding csd_done_def using pt(1,2) by metis
  then show ?thesis using run roomy_same [OF assms(2) m'(2,3)] by blast
qed

section \<open>Properties\<close>

text \<open>C3: one frame through the stages of the pipeline. At the rates with six bits per point and
  frames of up to two symbols, in a packet buffer with \<open>OFF\<close> at least 11256 bytes and 8192
  bytes behind it and at most the default headroom, whatever the buffer held before: the five stages run one after the other
  without an access outside their areas, and leave at the data pointer, for every tone of every
  symbol of every stream, a point within 4 units of the phase-turned point that the plain
  chain of encoder, mapper and pilot insertion gives for the scrambled payload.\<close>

theorem frame_stages:
  assumes "six_bit_setting g" "dotscale g = 13" "avx2 mulhrs add sub" "tables_ready g tab bcc weave pts"
    and "roomy OFF m" "length D = APEP_LEN g" and FU: "float_unit fp"
  shows "\<exists>m1 m2 m3 m4 m5. ReadData D m = Some m1 \<and> scramble_stage OFF tab g m1 = Some m2
    \<and> encode_stage OFF bcc g m2 = Some m3 \<and> modulate_stage OFF g weave pts m3 = Some m4
    \<and> csd_stage OFF mulhrs add sub fp g m4 = Some m5 \<and> csd_done fp g D m5"
proof -
  have t: "tab = chart" "bcc = bcc_table" using assms(4) by (simp_all add: tables_ready_def)
  obtain m1 where m1: "ReadData D m = Some m1" "roomy OFF m1" "read_done g D m1"
    using read_stage [OF assms(1,5,6)] by blast
  obtain m2 where m2: "scramble_stage OFF tab g m1 = Some m2" "roomy OFF m2" "scramble_done OFF g D m2"
    using scramble_stage_run [OF assms(1) m1(2,3)] unfolding t by blast
  obtain m3 where m3: "encode_stage OFF bcc g m2 = Some m3" "roomy OFF m3" "encode_done OFF g D m3"
    using encode_stage_run [OF assms(1) m2(2,3)] unfolding t by blast
  obtain m4 where m4: "modulate_stage OFF g weave pts m3 = Some m4" "roomy OFF m4" "map_done OFF g D m4"
    using modulate_stage_run [OF assms(1) m3(2,3) assms(4)] by blast
  obtain m5 where "csd_stage OFF mulhrs add sub fp g m4 = Some m5" "csd_done fp g D m5"
    using csd_stage_run [OF assms(1) m4(2,3) assms(3,2) FU] by blast
  with m1(1) m2(1) m3(1) m4(1) show ?thesis by blast
qed

lemma setting_globals0: "six_bit_setting globals0" "frame_syms globals0 = 2" "scr_len globals0 = 936"
proof -
  show n: "frame_syms globals0 = 2" "scr_len globals0 = 936"
    by (simp_all add: scr_len_def frame_syms_def GenInit_def Let_def globals0_def
        mcs_table_for_20M_def mcs_tabs param_simps ceil_div_def num_sym_def)
  show "six_bit_setting globals0" unfolding six_bit_setting_def n by (simp add: globals0_def)
qed

lemma tables_ready_globals0:
  obtains weave pts where "tables_ready globals0 chart bcc_table weave pts"
proof -
  obtain pts where "init_mapping_table globals0 = Some pts"
    using mapping_table_6 [OF six_bit_params(3) [OF setting_globals0(1)]] by blast
  moreover have "rows_ge 1404 (replicate 4 (replicate 1404 (0 :: int16)))" "N_STS \<le> length (replicate 4 (replicate 2852 (0 :: int16)))"
    "\<forall>tx < N_STS. length (replicate 4 (replicate 2852 (0 :: int16)) ! tx) = 1426 * frame_syms globals0"
    by (simp_all add: rows_ge_def N_STS_def setting_globals0)
  ultimately show ?thesis unfolding tables_ready_def using that tables_ready_def by blast
qed

theorem frame_stages_witness:
  "\<exists>weave pts m1 m2 m3 m4 m5. ReadData (replicate 512 7) (rte_pktmbuf_init 34816) = Some m1
    \<and> scramble_stage 17408 chart globals0 m1 = Some m2 \<and> encode_stage 17408 bcc_table globals0 m2 = Some m3
    \<and> modulate_stage 17408 globals0 weave pts m3 = Some m4
    \<and> csd_stage 17408 mulhrs_lane (+) (-) ieee globals0 m4 = Some m5 \<and> csd_done ieee globals0 (replicate 512 7) m5"
proof -
  obtain weave pts where t: "tables_ready globals0 chart bcc_table weave pts" by (rule tables_ready_globals0)
  have "roomy 17408 (rte_pktmbuf_init 34816)"
    by (simp add: roomy_def rte_pktmbuf_init_def Let_def RTE_PKTMBUF_HEADROOM_def min_def)
  moreover have "length (replicate 512 (7 :: byte)) = APEP_LEN globals0" "dotscale globals0 = 13" by (simp_all add: globals0_def)
  ultimately show ?thesis
    using frame_stages [OF setting_globals0(1) _ lanes.avx2_axioms t _ _ ieee.float_unit_axioms] by blast
qed

end
