(* ===== verification/Startup.thy ===== *)
theory Startup
  imports Network Stages
begin

text \<open>
  What the DPDK programs of the repository share: the creation of the pool of packet buffers and
  of the rings in \<open>main\<close>, and the contents of the buffers between the stages. The tables the
  stages read are made once in \<open>main\<close> before the threads start, and never written again.
\<close>

section \<open>The pool of packet buffers\<close>

text \<open>The size of the header \<open>struct rte_mbuf\<close>, two cache lines.\<close>

definition sizeof_rte_mbuf :: nat where
  "sizeof_rte_mbuf = 2 * RTE_CACHE_LINE_SIZE"

text \<open>The pool takes its elements from one chunk of memory at \<open>vaddr\<close>; \<open>header\<close> and \<open>trailer\<close> are
  what the pool keeps around an element, \<open>junk\<close> the memory of its ring, \<open>store\<close> what memory holds
  before.\<close>

definition rte_pktmbuf_pool_create :: "nat \<Rightarrow> nat \<Rightarrow> nat \<Rightarrow> nat \<Rightarrow> nat \<Rightarrow> nat list \<Rightarrow> nat \<Rightarrow> nat \<Rightarrow> (nat \<Rightarrow> rte_mbuf)
    \<Rightarrow> (nat rte_mempool \<times> (nat \<Rightarrow> rte_mbuf)) option" where
  "rte_pktmbuf_pool_create n cache_size data_room_size header trailer junk vaddr len store =
     (let objsz = (header, sizeof_rte_mbuf + data_room_size, trailer)
      in case rte_mempool_create_empty n objsz cache_size 0 of
           None \<Rightarrow> None
         | Some mp \<Rightarrow> (case rte_mempool_populate_phys junk vaddr len mp of
             Some (Inr k, mp) \<Rightarrow> Some (mp, fold (\<lambda>m store. store(m := rte_pktmbuf_init data_room_size)) (elt_list mp) store)
           | _ \<Rightarrow> None))"

lemma fold_init: "fold (\<lambda>m store. store(m := b)) es store a = (if a \<in> set es then b else store a)"
  by (induction es arbitrary: store) auto

definition chunk_fits :: "nat \<Rightarrow> nat \<Rightarrow> nat \<Rightarrow> nat \<Rightarrow> nat \<Rightarrow> nat \<Rightarrow> bool" where
  "chunk_fits n data_room_size header trailer vaddr len \<longleftrightarrow>
     align_ceil vaddr RTE_CACHE_LINE_SIZE - vaddr + n * (header + (sizeof_rte_mbuf + data_room_size) + trailer) \<le> len"

definition buffer_addrs :: "nat \<Rightarrow> nat \<Rightarrow> nat \<Rightarrow> nat \<Rightarrow> nat \<Rightarrow> nat list" where
  "buffer_addrs n data_room_size header trailer vaddr =
     map (elt_addr vaddr (header, sizeof_rte_mbuf + data_room_size, trailer)) [0..<n]"

lemma distinct_addrs: "distinct (buffer_addrs n room header trailer vaddr)"
  by (auto simp: buffer_addrs_def distinct_map inj_on_def elt_addr_def sizeof_rte_mbuf_def RTE_CACHE_LINE_SIZE_def)

lemma length_addrs [simp]: "length (buffer_addrs n room header trailer vaddr) = n"
  by (simp add: buffer_addrs_def)

lemma pool_create:
  assumes "cache_size \<le> RTE_MEMPOOL_CACHE_MAX_SIZE" "CALC_CACHE_FLUSHTHRESH cache_size \<le> n"
    and "0 < k" "k \<le> 27" "2 ^ (k - 1) \<le> n" "n < 2 ^ k" "length junk = 2 ^ k"
    and "chunk_fits n room header trailer vaddr len"
  shows "\<exists>mp store1. rte_pktmbuf_pool_create n cache_size room header trailer junk vaddr len store = Some (mp, store1)
    \<and> pool_ok mp \<and> mp_size mp = n \<and> mp_cache_size mp = cache_size \<and> mp_flags mp AND MEMPOOL_F_SC_GET = 0
    \<and> pool_objs mp = mset (buffer_addrs n room header trailer vaddr)
    \<and> (\<forall>l < RTE_MAX_LCORE. objs (local_cache mp ! l) = [])
    \<and> (\<forall>m \<in> set (buffer_addrs n room header trailer vaddr). store1 m = rte_pktmbuf_init room)"
proof -
  let ?sz = "(header, sizeof_rte_mbuf + room, trailer)"
  have "align_ceil vaddr RTE_CACHE_LINE_SIZE - vaddr + n * (fst ?sz + fst (snd ?sz) + snd (snd ?sz)) \<le> len"
    using assms(8) by (simp add: chunk_fits_def)
  then obtain mp0 mp where mp: "rte_mempool_create_empty n ?sz cache_size 0 = Some mp0"
    "rte_mempool_populate_phys junk vaddr len mp0 = Some (Inr n, mp)" "pool_ok mp" "mp_size mp = n"
    "mp_cache_size mp = cache_size" "mp_flags mp = MEMPOOL_F_POOL_CREATED"
    "local_cache mp = replicate RTE_MAX_LCORE (mempool_cache_init cache_size)"
    "queued (pool_data mp) = map (elt_addr vaddr ?sz) [0..<n]" "elt_list mp = map (elt_addr vaddr ?sz) [0..<n]"
    using fresh_pool [OF assms(1-7), of vaddr ?sz len] by blast
  have "pool_objs mp = mset (buffer_addrs n room header trailer vaddr)"
    by (simp add: pool_objs_def mp(7,8) cached_replicate buffer_addrs_def)
  moreover have "\<forall>l < RTE_MAX_LCORE. objs (local_cache mp ! l) = []" by (simp add: mp(7) mempool_cache_init_def)
  ultimately show ?thesis
    using mp(1-6) by (simp add: rte_pktmbuf_pool_create_def Let_def fold_init mp(9) buffer_addrs_def
        MEMPOOL_F_POOL_CREATED_def MEMPOOL_F_SC_GET_def)
qed

section \<open>Starting the threads\<close>

text \<open>A ring or a pool that could not be made ends the program.\<close>

definition launch :: "('r \<Rightarrow> nat rte_ring option) \<Rightarrow> (nat rte_mempool \<times> (nat \<Rightarrow> 'b)) option \<Rightarrow> ('r, 't, 'b) net option" where
  "launch rs p = (if \<exists>r. rs r = None then None else map_option (\<lambda>(mp, store).
     \<lparr>mbuf_pool = mp, mem = store, rings = (\<lambda>r. the (rs r)), ctl = (\<lambda>t. Head), turn = (\<lambda>t. 0), idle = (\<lambda>t. 0),
      csd_count = 0, quit = False\<rparr>) p)"

lemma good_launch:
  fixes sh :: "('r :: finite, 't :: finite) shape"
  assumes "\<And>r. rs r = Some (rte_ring_init (2 ^ j) flags (js r))" "\<And>r. length (js r) = 2 ^ j" "j \<le> 28"
    and "pool_ok mp" "mp_size mp = length bs" "mp_cache_size mp = cache sh" "mp_flags mp AND MEMPOOL_F_SC_GET = 0"
      "pool_objs mp = mset bs" "\<forall>l < RTE_MAX_LCORE. objs (local_cache mp ! l) = []"
    and "\<And>m. m \<in> set bs \<Longrightarrow> anywhere sp (store m)" "length bs < 2 ^ j" "0 < limit sh" "\<And>t. 0 < turns sh t"
  shows "\<exists>s. launch rs (Some (mp, store)) = Some s \<and> good sh sp bs s"
proof -
  note r = ring_init [OF assms(3,2), of flags]
  have "(\<Sum>t :: 't \<in> UNIV. held Head) = {#}" by simp
  then show ?thesis
    using assms(4-13)
    by (simp add: launch_def assms(1) good_def net_inv_def pool_side_def ctl_ok_def buffers_def r)
qed

text \<open>\<open>main\<close> up to the launch of the threads: the rings, then the pool.\<close>

definition start_program :: "int32 \<Rightarrow> int32 \<Rightarrow> nat \<Rightarrow> nat \<Rightarrow> nat \<Rightarrow> ('r \<Rightarrow> nat list) \<Rightarrow> nat \<Rightarrow> nat \<Rightarrow> nat list \<Rightarrow> nat \<Rightarrow> nat
    \<Rightarrow> (nat \<Rightarrow> rte_mbuf) \<Rightarrow> ('r, 't, rte_mbuf) net option" where
  "start_program ring_size flags n cache_size data_room_size js header trailer junk vaddr len store =
     launch (\<lambda>r. rte_ring_create ring_size flags (js r))
       (rte_pktmbuf_pool_create n cache_size data_room_size header trailer junk vaddr len store)"

lemma start_good:
  fixes sh :: "('r :: finite, 't :: finite) shape"
  assumes "0 < k" "k \<le> 27" "2 ^ (k - 1) \<le> n" "n < 2 ^ k" "ring_size = 2 ^ k"
    and "\<forall>r. length (js r) = 2 ^ k" "length junk = 2 ^ k" "chunk_fits n room header trailer vaddr len"
    and "cache sh \<le> RTE_MEMPOOL_CACHE_MAX_SIZE" "CALC_CACHE_FLUSHTHRESH (cache sh) \<le> n"
    and "anywhere sp (rte_pktmbuf_init room)" "0 < limit sh" "\<And>t. 0 < turns sh t"
  shows "\<exists>s. start_program ring_size flags n (cache sh) room js header trailer junk vaddr len store = Some s
    \<and> good sh sp (buffer_addrs n room header trailer vaddr) s"
proof -
  obtain mp store1 where p: "rte_pktmbuf_pool_create n (cache sh) room header trailer junk vaddr len store
      = Some (mp, store1)" "pool_ok mp" "mp_size mp = n" "mp_cache_size mp = cache sh"
    "mp_flags mp AND MEMPOOL_F_SC_GET = 0" "pool_objs mp = mset (buffer_addrs n room header trailer vaddr)"
    "\<forall>l < RTE_MAX_LCORE. objs (local_cache mp ! l) = []"
    "\<forall>m \<in> set (buffer_addrs n room header trailer vaddr). store1 m = rte_pktmbuf_init room"
    using pool_create [OF assms(9,10,1-4,7,8), of store] by blast
  have r: "rte_ring_create ring_size flags (js r) = Some (rte_ring_init (2 ^ k) flags (js r))" for r
    unfolding assms(5) by (rule ring_create) (use assms(2,6) in simp_all)
  have js: "length (js r) = 2 ^ k" for r using assms(6) by simp
  have k: "k \<le> 28" using assms(2) by simp
  show ?thesis
    unfolding start_program_def p(1)
    by (rule good_launch [where js = js, OF r js k p(2) _ p(4,5,6,7)]) (use p(3,8) assms(4,11-13) in simp_all)
qed

section \<open>Constants of the two test programs\<close>

definition NUM_MBUFS :: nat where
  "NUM_MBUFS = 2047"

definition MBUF_CACHE_SIZE :: nat where
  "MBUF_CACHE_SIZE = 128"

definition ring_size :: int32 where
  "ring_size = 2048"

definition CSD_LIMIT :: nat where
  "CSD_LIMIT = 100000"

text \<open>The second area of a buffer starts at half of its data room.\<close>

definition OFF8 :: nat where
  "OFF8 = RTE_MBUF_DEFAULT_BUF_SIZE * 8"

definition BUF16 :: nat where
  "BUF16 = RTE_MBUF_DEFAULT_BUF_SIZE * 16"

text \<open>The two other programs take larger buffers.\<close>

definition OFF15 :: nat where
  "OFF15 = RTE_MBUF_DEFAULT_BUF_SIZE * 15"

definition BUF30 :: nat where
  "BUF30 = RTE_MBUF_DEFAULT_BUF_SIZE * 30"

definition test_addrs :: "nat \<Rightarrow> nat \<Rightarrow> nat \<Rightarrow> nat list" where
  "test_addrs = buffer_addrs NUM_MBUFS BUF16"

definition test_start :: "('r \<Rightarrow> nat list) \<Rightarrow> nat \<Rightarrow> nat \<Rightarrow> nat list \<Rightarrow> nat \<Rightarrow> nat \<Rightarrow> (nat \<Rightarrow> rte_mbuf)
    \<Rightarrow> ('r, 't, rte_mbuf) net option" where
  "test_start = start_program ring_size (RING_F_SP_ENQ OR RING_F_SC_DEQ) NUM_MBUFS MBUF_CACHE_SIZE BUF16"

lemma test_addrs_simps [simp]: "distinct (test_addrs h tr v)" "length (test_addrs h tr v) = NUM_MBUFS"
  by (simp_all add: test_addrs_def distinct_addrs)

lemma test_start_good:
  fixes sh :: "('r :: finite, 't :: finite) shape"
  assumes "\<forall>r. length (js r) = 2048" "length junk = 2048" "chunk_fits NUM_MBUFS BUF16 header trailer vaddr len"
    and "cache sh = MBUF_CACHE_SIZE" "anywhere sp (rte_pktmbuf_init BUF16)" "0 < limit sh" "\<And>t. 0 < turns sh t"
  shows "\<exists>s. test_start js header trailer junk vaddr len store = Some s \<and> good sh sp (test_addrs header trailer vaddr) s"
  unfolding test_start_def test_addrs_def assms(4) [symmetric]
  by (rule start_good [where k = 11])
    (use assms in \<open>simp_all add: ring_size_def NUM_MBUFS_def MBUF_CACHE_SIZE_def RTE_MEMPOOL_CACHE_MAX_SIZE_def
      CALC_CACHE_FLUSHTHRESH_def\<close>)

lemma test_memory: "chunk_fits NUM_MBUFS BUF16 64 0 0 71661376"
  by (simp add: chunk_fits_def NUM_MBUFS_def BUF16_def RTE_MBUF_DEFAULT_BUF_SIZE_def sizeof_rte_mbuf_def
      RTE_CACHE_LINE_SIZE_def align_ceil_def)

section \<open>The configured transmitter\<close>

record transmitter =
  glob :: globals
  scr_tab :: "Scramble_t list list"
  bcc_tab :: "BCCStruct_t list list"
  weave_tab :: "int16 list list"
  point_tab :: "complex32 list"
  mulhrs_epi16 :: "int16 \<Rightarrow> int16 \<Rightarrow> int16"
  adds_epi16 :: "int16 \<Rightarrow> int16 \<Rightarrow> int16"
  subs_epi16 :: "int16 \<Rightarrow> int16 \<Rightarrow> int16"
  fp_unit :: fpu
  payload :: "byte list"

definition setup_ok :: "transmitter \<Rightarrow> bool" where
  "setup_ok P \<longleftrightarrow> six_bit_setting (glob P) \<and> dotscale (glob P) = 13
     \<and> avx2 (mulhrs_epi16 P) (adds_epi16 P) (subs_epi16 P) \<and> float_unit (fp_unit P)
     \<and> tables_ready (glob P) (scr_tab P) (bcc_tab P) (weave_tab P) (point_tab P)
     \<and> length (payload P) = APEP_LEN (glob P)"

text \<open>The stages with the tables of the transmitter.\<close>

definition read_P :: "transmitter \<Rightarrow> rte_mbuf \<Rightarrow> rte_mbuf option" where
  "read_P P = ReadData (payload P)"

definition scramble_P :: "nat \<Rightarrow> transmitter \<Rightarrow> rte_mbuf \<Rightarrow> rte_mbuf option" where
  "scramble_P OFF P = scramble_stage OFF (scr_tab P) (glob P)"

definition encode_P :: "nat \<Rightarrow> transmitter \<Rightarrow> rte_mbuf \<Rightarrow> rte_mbuf option" where
  "encode_P OFF P = encode_stage OFF (bcc_tab P) (glob P)"

definition modulate_P :: "nat \<Rightarrow> transmitter \<Rightarrow> rte_mbuf \<Rightarrow> rte_mbuf option" where
  "modulate_P OFF P = modulate_stage OFF (glob P) (weave_tab P) (point_tab P)"

definition csd_P :: "nat \<Rightarrow> transmitter \<Rightarrow> rte_mbuf \<Rightarrow> rte_mbuf option" where
  "csd_P OFF P = csd_stage OFF (mulhrs_epi16 P) (adds_epi16 P) (subs_epi16 P) (fp_unit P) (glob P)"

text \<open>The contents of a buffer after each stage.\<close>

datatype stage = Fresh | Read | Scrambled | Encoded | Mapped | Shifted

definition holds :: "nat \<Rightarrow> transmitter \<Rightarrow> stage \<Rightarrow> rte_mbuf \<Rightarrow> bool" where
  "holds OFF P st b \<longleftrightarrow> roomy OFF b \<and> (case st of
       Fresh \<Rightarrow> True
     | Read \<Rightarrow> read_done (glob P) (payload P) b
     | Scrambled \<Rightarrow> scramble_done OFF (glob P) (payload P) b
     | Encoded \<Rightarrow> encode_done OFF (glob P) (payload P) b
     | Mapped \<Rightarrow> map_done OFF (glob P) (payload P) b
     | Shifted \<Rightarrow> csd_done (fp_unit P) (glob P) (payload P) b)"

text \<open>The weights: the further a buffer has come, the less it weighs.\<close>

fun stage_weight :: "stage \<Rightarrow> nat" where
  "stage_weight Fresh = 9"
| "stage_weight Read = 7"
| "stage_weight Scrambled = 5"
| "stage_weight Encoded = 3"
| "stage_weight Mapped = 1"
| "stage_weight Shifted = 0"

lemma holds_fresh: "holds OFF P st b \<Longrightarrow> holds OFF P Fresh b"
  by (simp add: holds_def)

lemma holds_prepare: "holds OFF P Fresh b \<Longrightarrow> holds OFF P Fresh (rte_pktmbuf_prepare b)"
  by (simp add: holds_def roomy_prepare)

lemma stage_runs:
  assumes "setup_ok P"
  shows "holds OFF P Fresh b \<Longrightarrow> \<exists>b'. read_P P b = Some b' \<and> holds OFF P Read b'"
    "holds OFF P Read b \<Longrightarrow> \<exists>b'. scramble_P OFF P b = Some b' \<and> holds OFF P Scrambled b'"
    "holds OFF P Scrambled b \<Longrightarrow> \<exists>b'. encode_P OFF P b = Some b' \<and> holds OFF P Encoded b'"
    "holds OFF P Encoded b \<Longrightarrow> \<exists>b'. modulate_P OFF P b = Some b' \<and> holds OFF P Mapped b'"
    "holds OFF P Mapped b \<Longrightarrow> \<exists>b'. csd_P OFF P b = Some b' \<and> holds OFF P Shifted b'"
proof -
  have ok: "six_bit_setting (glob P)" "dotscale (glob P) = 13" "avx2 (mulhrs_epi16 P) (adds_epi16 P) (subs_epi16 P)"
    "tables_ready (glob P) (scr_tab P) (bcc_tab P) (weave_tab P) (point_tab P)"
    "length (payload P) = APEP_LEN (glob P)" "scr_tab P = chart" "bcc_tab P = bcc_table" "float_unit (fp_unit P)"
    using assms by (simp_all add: setup_ok_def tables_ready_def)
  show "holds OFF P Fresh b \<Longrightarrow> \<exists>b'. read_P P b = Some b' \<and> holds OFF P Read b'"
    using read_stage [OF ok(1) _ ok(5)] by (simp add: holds_def read_P_def)
  show "holds OFF P Read b \<Longrightarrow> \<exists>b'. scramble_P OFF P b = Some b' \<and> holds OFF P Scrambled b'"
    using scramble_stage_run [OF ok(1)] by (simp add: holds_def scramble_P_def ok(6))
  show "holds OFF P Scrambled b \<Longrightarrow> \<exists>b'. encode_P OFF P b = Some b' \<and> holds OFF P Encoded b'"
    using encode_stage_run [OF ok(1)] by (simp add: holds_def encode_P_def ok(7))
  show "holds OFF P Encoded b \<Longrightarrow> \<exists>b'. modulate_P OFF P b = Some b' \<and> holds OFF P Mapped b'"
    using modulate_stage_run [OF ok(1) _ _ ok(4)] by (simp add: holds_def modulate_P_def)
  show "holds OFF P Mapped b \<Longrightarrow> \<exists>b'. csd_P OFF P b = Some b' \<and> holds OFF P Shifted b'"
    using csd_stage_run [OF ok(1) _ _ ok(3,2,8)] by (simp add: holds_def csd_P_def)
qed

text \<open>All stages, one after the other, as a worker of \<^verbatim>\<open>maindpdk2.c\<close> runs them.\<close>

definition all_stages :: "transmitter \<Rightarrow> rte_mbuf \<Rightarrow> rte_mbuf option" where
  "all_stages P b = Option.bind (scramble_P OFF15 P b) (\<lambda>b. Option.bind (encode_P OFF15 P b) (\<lambda>b.
     Option.bind (modulate_P OFF15 P b) (csd_P OFF15 P)))"

lemma all_stages_run:
  assumes "setup_ok P" "holds OFF15 P Read b"
  shows "\<exists>b'. all_stages P b = Some b' \<and> holds OFF15 P Shifted b'"
  unfolding all_stages_def using stage_runs(2-5) [OF assms(1), where OFF = OFF15] assms(2) by fastforce

lemma all_stages_read:
  assumes "setup_ok P" "roomy OFF15 m"
  shows "\<exists>b. Option.bind (read_P P m) (all_stages P) = Some b \<and> csd_done (fp_unit P) (glob P) (payload P) b"
proof -
  have "holds OFF15 P Fresh m" using assms(2) by (simp add: holds_def)
  then obtain a where "read_P P m = Some a" "holds OFF15 P Read a" using stage_runs(1) [OF assms(1)] by blast
  then show ?thesis using all_stages_run [OF assms(1)] by (fastforce simp: holds_def)
qed

text \<open>A transmitter for the examples: the variables as declared, a payload of sevens.\<close>

definition default_setup :: transmitter where
  "default_setup = \<lparr>glob = globals0, scr_tab = chart, bcc_tab = bcc_table,
     weave_tab = initial_streamwave_table undefined globals0 (frame_syms globals0) (replicate 4 (replicate 1404 0))
       (replicate 4 (replicate 1404 0)) (replicate 4 (replicate 2852 0)),
     point_tab = the (init_mapping_table globals0), mulhrs_epi16 = mulhrs_lane, adds_epi16 = (+), subs_epi16 = (-), fp_unit = ieee,
     payload = replicate 512 7\<rparr>"

lemma default_setup_ok: "setup_ok default_setup"
proof -
  obtain pts where pts: "init_mapping_table globals0 = Some pts"
    using mapping_table_6 [OF six_bit_params(3) [OF setting_globals0(1)]] by blast
  have w: "rows_ge 1404 (replicate 4 (replicate 1404 (0 :: int16)))" "N_STS \<le> length (replicate 4 (replicate 2852 (0 :: int16)))"
    "\<forall>tx < N_STS. length (replicate 4 (replicate 2852 (0 :: int16)) ! tx) = 1426 * frame_syms globals0"
    by (simp_all add: rows_ge_def N_STS_def setting_globals0)
  have "tables_ready globals0 chart bcc_table (weave_tab default_setup) (the (init_mapping_table globals0))"
    unfolding tables_ready_def default_setup_def using w by (simp only: transmitter.simps pts option.sel) blast
  moreover have "dotscale globals0 = 13" "APEP_LEN globals0 = 512" by (simp_all add: globals0_def)
  ultimately show ?thesis
    unfolding setup_ok_def using setting_globals0(1) lanes.avx2_axioms ieee.float_unit_axioms by (simp add: default_setup_def)
qed

lemma roomy_init: "11256 \<le> OFF \<Longrightarrow> OFF + 8320 \<le> room \<Longrightarrow> holds OFF P Fresh (rte_pktmbuf_init room)"
  by (simp add: holds_def roomy_def rte_pktmbuf_init_def Let_def RTE_PKTMBUF_HEADROOM_def min_def word_le_nat_alt)

lemma roomy_init8: "holds OFF8 P Fresh (rte_pktmbuf_init BUF16)"
  by (rule roomy_init) (simp_all add: OFF8_def BUF16_def RTE_MBUF_DEFAULT_BUF_SIZE_def)

lemma roomy_init15: "holds OFF15 P Fresh (rte_pktmbuf_init BUF30)"
  by (rule roomy_init) (simp_all add: OFF15_def BUF30_def RTE_MBUF_DEFAULT_BUF_SIZE_def)

end
