(* ===== verification/Main_test_2.thy ===== *)
theory Main_test_2
  imports Startup
begin

text \<open>
  The active program of the repository, \<^verbatim>\<open>maindpdk_test_2.c\<close>: eleven rings, nine
  threads, one pool of 2047 packet buffers that go round from the pool through the stages and
  back. \<open>step\<close> is a step of one of the threads; the theorems are about all orders of steps.
\<close>

section \<open>The program\<close>

datatype t2_ring = Beforescramble | scramble_2_BCC1 | scramble_2_BCC2
  | BCC_2_modulation1 | BCC_2_modulation2 | BCC_2_modulation3 | BCC_2_modulation4
  | modulation_2_CSD1 | modulation_2_CSD2 | modulation_2_CSD3 | modulation_2_CSD4

datatype t2_thread = T_ReadData | T_Scramble | T_BCC1 | T_BCC2 | T_modulate1 | T_modulate2 | T_modulate3 | T_modulate4
  | T_CSD

lemma UNIV_t2_ring: "UNIV = {Beforescramble, scramble_2_BCC1, scramble_2_BCC2,
  BCC_2_modulation1, BCC_2_modulation2, BCC_2_modulation3, BCC_2_modulation4,
  modulation_2_CSD1, modulation_2_CSD2, modulation_2_CSD3, modulation_2_CSD4}"
  using t2_ring.exhaust by auto

lemma UNIV_t2_thread: "UNIV = {T_ReadData, T_Scramble, T_BCC1, T_BCC2, T_modulate1, T_modulate2, T_modulate3,
  T_modulate4, T_CSD}"
  using t2_thread.exhaust by auto

instance t2_ring :: finite
  by standard (simp add: UNIV_t2_ring)

instance t2_thread :: finite
  by standard (simp add: UNIV_t2_thread)

type_synonym t2_net = "(t2_ring, t2_thread, rte_mbuf) net"

definition ReadData_Loop :: "transmitter \<Rightarrow> t2_net \<Rightarrow> t2_net option" where
  "ReadData_Loop P = reader T_ReadData 1 rte_pktmbuf_prepare (read_P P) Beforescramble"

definition GenDataAndScramble_Loop :: "transmitter \<Rightarrow> t2_net \<Rightarrow> t2_net option" where
  "GenDataAndScramble_Loop P =
     splitter T_Scramble Beforescramble (scramble_P OFF8 P) 3 [scramble_2_BCC1, scramble_2_BCC2]"

definition BCC_encoder_Loop1 :: "transmitter \<Rightarrow> t2_net \<Rightarrow> t2_net option" where
  "BCC_encoder_Loop1 P =
     splitter T_BCC1 scramble_2_BCC1 (encode_P OFF8 P) 3 [BCC_2_modulation1, BCC_2_modulation2]"

definition BCC_encoder_Loop2 :: "transmitter \<Rightarrow> t2_net \<Rightarrow> t2_net option" where
  "BCC_encoder_Loop2 P =
     splitter T_BCC2 scramble_2_BCC2 (encode_P OFF8 P) 3 [BCC_2_modulation3, BCC_2_modulation4]"

definition modulate_Loop1 :: "transmitter \<Rightarrow> t2_net \<Rightarrow> t2_net option" where
  "modulate_Loop1 P = worker T_modulate1 BCC_2_modulation1 (modulate_P OFF8 P) modulation_2_CSD1"

definition modulate_Loop2 :: "transmitter \<Rightarrow> t2_net \<Rightarrow> t2_net option" where
  "modulate_Loop2 P = worker T_modulate2 BCC_2_modulation2 (modulate_P OFF8 P) modulation_2_CSD2"

definition modulate_Loop3 :: "transmitter \<Rightarrow> t2_net \<Rightarrow> t2_net option" where
  "modulate_Loop3 P = worker T_modulate3 BCC_2_modulation3 (modulate_P OFF8 P) modulation_2_CSD3"

definition modulate_Loop4 :: "transmitter \<Rightarrow> t2_net \<Rightarrow> t2_net option" where
  "modulate_Loop4 P = worker T_modulate4 BCC_2_modulation4 (modulate_P OFF8 P) modulation_2_CSD4"

definition Data_CSD_Loop1 :: "transmitter \<Rightarrow> t2_net \<Rightarrow> t2_net option" where
  "Data_CSD_Loop1 P =
     sinker T_CSD 9 [modulation_2_CSD1, modulation_2_CSD2, modulation_2_CSD3, modulation_2_CSD4] (csd_P OFF8 P) CSD_LIMIT"

text \<open>The functions launched on the cores 1 to 9.\<close>

definition t2_step :: "transmitter \<Rightarrow> t2_thread \<Rightarrow> t2_net \<Rightarrow> t2_net option" where
  "t2_step P t = (case t of
       T_ReadData \<Rightarrow> ReadData_Loop P
     | T_Scramble \<Rightarrow> GenDataAndScramble_Loop P
     | T_BCC1 \<Rightarrow> BCC_encoder_Loop1 P
     | T_BCC2 \<Rightarrow> BCC_encoder_Loop2 P
     | T_modulate1 \<Rightarrow> modulate_Loop1 P
     | T_modulate2 \<Rightarrow> modulate_Loop2 P
     | T_modulate3 \<Rightarrow> modulate_Loop3 P
     | T_modulate4 \<Rightarrow> modulate_Loop4 P
     | T_CSD \<Rightarrow> Data_CSD_Loop1 P)"

text \<open>\<open>main\<close> up to the launch. The memory of the rings and of the pool, and what it holds before,
  are arguments.\<close>

definition t2_main :: "(t2_ring \<Rightarrow> nat list) \<Rightarrow> nat \<Rightarrow> nat \<Rightarrow> nat list \<Rightarrow> nat \<Rightarrow> nat \<Rightarrow> (nat \<Rightarrow> rte_mbuf) \<Rightarrow> t2_net option" where
  "t2_main = test_start"

section \<open>The network\<close>

fun t2_ring_stage :: "t2_ring \<Rightarrow> stage" where
  "t2_ring_stage Beforescramble = Read"
| "t2_ring_stage scramble_2_BCC1 = Scrambled"
| "t2_ring_stage scramble_2_BCC2 = Scrambled"
| "t2_ring_stage modulation_2_CSD1 = Mapped"
| "t2_ring_stage modulation_2_CSD2 = Mapped"
| "t2_ring_stage modulation_2_CSD3 = Mapped"
| "t2_ring_stage modulation_2_CSD4 = Mapped"
| "t2_ring_stage r = Encoded"

fun t2_hand_stage :: "t2_thread \<Rightarrow> stage" where
  "t2_hand_stage T_ReadData = Fresh"
| "t2_hand_stage T_Scramble = Read"
| "t2_hand_stage T_BCC1 = Scrambled"
| "t2_hand_stage T_BCC2 = Scrambled"
| "t2_hand_stage T_CSD = Mapped"
| "t2_hand_stage t = Encoded"

definition t2_content :: "transmitter \<Rightarrow> (t2_ring, t2_thread, rte_mbuf) content" where
  "t2_content P = \<lparr>anywhere = holds OFF8 P Fresh, on_ring = (\<lambda>r. holds OFF8 P (t2_ring_stage r)),
     in_hand = (\<lambda>t. holds OFF8 P (t2_hand_stage t)), returned = (\<lambda>t b. t = T_CSD \<and> holds OFF8 P Shifted b)\<rparr>"

fun t2_ins :: "t2_thread \<Rightarrow> t2_ring list" where
  "t2_ins T_ReadData = []"
| "t2_ins T_Scramble = [Beforescramble]"
| "t2_ins T_BCC1 = [scramble_2_BCC1]"
| "t2_ins T_BCC2 = [scramble_2_BCC2]"
| "t2_ins T_modulate1 = [BCC_2_modulation1]"
| "t2_ins T_modulate2 = [BCC_2_modulation2]"
| "t2_ins T_modulate3 = [BCC_2_modulation3]"
| "t2_ins T_modulate4 = [BCC_2_modulation4]"
| "t2_ins T_CSD = [modulation_2_CSD1, modulation_2_CSD2, modulation_2_CSD3, modulation_2_CSD4]"

definition t2_shape :: "(t2_ring, t2_thread) shape" where
  "t2_shape = \<lparr>ins = t2_ins, src = (\<lambda>t. if t = T_ReadData then Some 1 else None), cores = {1, 9},
     cache = MBUF_CACHE_SIZE, sink = T_CSD, limit = CSD_LIMIT, turns = (\<lambda>t. 3),
     ring_weight = (\<lambda>r. stage_weight (t2_ring_stage r) + 1), hand_weight = (\<lambda>t. stage_weight (t2_hand_stage t)),
     pool_weight = 10\<rparr>"

lemma t2_network:
  assumes "setup_ok P" "distinct bs" "length bs = NUM_MBUFS"
  shows "network bs t2_shape (t2_content P)"
proof
  show "distinct bs" by fact
  show "on_ring (t2_content P) r b \<Longrightarrow> anywhere (t2_content P) b" for r b
    by (auto simp: t2_content_def intro: holds_fresh)
  show "returned (t2_content P) t b \<Longrightarrow> anywhere (t2_content P) b" for t b
    by (auto simp: t2_content_def intro: holds_fresh)
  show "r \<in> set (ins t2_shape t) \<Longrightarrow> on_ring (t2_content P) r b \<Longrightarrow> in_hand (t2_content P) t b" for r t b
    by (cases t) (auto simp: t2_content_def t2_shape_def)
  show "r \<in> set (ins t2_shape t) \<Longrightarrow> hand_weight t2_shape t < ring_weight t2_shape r" for r t
    by (cases t) (auto simp: t2_shape_def)
  show "src t2_shape t = Some l \<Longrightarrow> l \<in> cores t2_shape \<and> l < RTE_MAX_LCORE
      \<and> hand_weight t2_shape t < pool_weight t2_shape \<and> t \<noteq> sink t2_shape" for t l
    by (auto simp: t2_shape_def RTE_MAX_LCORE_def split: if_splits)
  show "0 < tries t2_shape t" for t
    by (cases t) (simp_all add: t2_shape_def tries_def)
  show "1 < cache t2_shape" "finite (cores t2_shape)"
    "card (cores t2_shape) * CALC_CACHE_FLUSHTHRESH (cache t2_shape) < length bs"
    by (simp_all add: t2_shape_def MBUF_CACHE_SIZE_def CALC_CACHE_FLUSHTHRESH_def assms(3) NUM_MBUFS_def)
  show "\<exists>t. src t2_shape t = None \<and> r \<in> set (ins t2_shape t)" for r
  proof -
    have "\<exists>t. t \<noteq> T_ReadData \<and> r \<in> set (t2_ins t)"
      by (cases r) (metis list.set_intros t2_ins.simps t2_thread.distinct)+
    then show ?thesis by (auto simp: t2_shape_def)
  qed
  show "\<exists>t. src t2_shape t \<noteq> None" by (auto simp: t2_shape_def)
qed

lemma t2_pipeline:
  assumes "setup_ok P" "distinct bs" "length bs = NUM_MBUFS"
  shows "pipeline bs t2_shape (t2_content P) (t2_step P)"
proof -
  have net: "network bs t2_shape (t2_content P)" by (rule t2_network [OF assms])
  note runs = stage_runs [OF assms(1), where OFF = OFF8]
  note shape = t2_shape_def t2_content_def
  have "step_ok t2_shape (t2_content P) bs t s (t2_step P t s)" if g: "good t2_shape (t2_content P) bs s" for s t
  proof (cases t)
    case T_ReadData
    show ?thesis unfolding T_ReadData t2_step_def t2_thread.case ReadData_Loop_def
      by (rule network.reader_step [OF net g]) (use runs(1) holds_prepare in \<open>auto simp: shape\<close>)
  next
    case T_Scramble
    show ?thesis unfolding T_Scramble t2_step_def t2_thread.case GenDataAndScramble_Loop_def
      by (rule network.splitter_step [OF net g]) (use runs(2) in \<open>auto simp: shape\<close>)
  next
    case T_BCC1
    show ?thesis unfolding T_BCC1 t2_step_def t2_thread.case BCC_encoder_Loop1_def
      by (rule network.splitter_step [OF net g]) (use runs(3) in \<open>auto simp: shape\<close>)
  next
    case T_BCC2
    show ?thesis unfolding T_BCC2 t2_step_def t2_thread.case BCC_encoder_Loop2_def
      by (rule network.splitter_step [OF net g]) (use runs(3) in \<open>auto simp: shape\<close>)
  next
    case T_modulate1
    show ?thesis unfolding T_modulate1 t2_step_def t2_thread.case modulate_Loop1_def
      by (rule network.worker_step [OF net g]) (use runs(4) in \<open>auto simp: shape\<close>)
  next
    case T_modulate2
    show ?thesis unfolding T_modulate2 t2_step_def t2_thread.case modulate_Loop2_def
      by (rule network.worker_step [OF net g]) (use runs(4) in \<open>auto simp: shape\<close>)
  next
    case T_modulate3
    show ?thesis unfolding T_modulate3 t2_step_def t2_thread.case modulate_Loop3_def
      by (rule network.worker_step [OF net g]) (use runs(4) in \<open>auto simp: shape\<close>)
  next
    case T_modulate4
    show ?thesis unfolding T_modulate4 t2_step_def t2_thread.case modulate_Loop4_def
      by (rule network.worker_step [OF net g]) (use runs(4) in \<open>auto simp: shape\<close>)
  next
    case T_CSD
    have "step_ok t2_shape (t2_content P) bs T_CSD s (sinker T_CSD 9
        [modulation_2_CSD1, modulation_2_CSD2, modulation_2_CSD3, modulation_2_CSD4] (csd_P OFF8 P) (limit t2_shape) s)"
      by (rule network.sinker_step [OF net g]) (use runs(5) in \<open>auto simp: shape\<close>)
    then show ?thesis unfolding T_CSD t2_step_def t2_thread.case Data_CSD_Loop1_def by (simp add: t2_shape_def)
  qed
  then show ?thesis using net by (intro pipeline.intro) (auto intro: pipeline_axioms.intro)
qed

text \<open>The state after \<open>main\<close>.\<close>

lemma t2_main_good:
  assumes "\<forall>r. length (js r) = 2048" "length junk = 2048" "chunk_fits NUM_MBUFS BUF16 header trailer vaddr len"
  shows "\<exists>s. t2_main js header trailer junk vaddr len store = Some s
    \<and> good t2_shape (t2_content P) (test_addrs header trailer vaddr) s"
  unfolding t2_main_def
  by (rule test_start_good [OF assms]) (simp_all add: t2_shape_def t2_content_def CSD_LIMIT_def roomy_init8)

interpretation test_2: pipeline "test_addrs 64 0 0" t2_shape "t2_content default_setup" "t2_step default_setup"
  by (rule t2_pipeline [OF default_setup_ok]) simp_all

section \<open>Properties\<close>

lemma t2_always:
  assumes "setup_ok P" "\<forall>r. length (js r) = 2048" "length junk = 2048"
    and "chunk_fits NUM_MBUFS BUF16 header trailer vaddr len"
  shows "\<exists>s0 s. t2_main js header trailer junk vaddr len store = Some s0 \<and> run (t2_step P) \<sigma> n s0 = Some s
    \<and> good t2_shape (t2_content P) (test_addrs header trailer vaddr) s0
    \<and> buffers s = mset (test_addrs header trailer vaddr)
    \<and> (\<forall>r. distinct (queued (rings s r)) \<and> length (queued (rings s r)) \<le> NUM_MBUFS)
    \<and> (\<forall>r. \<forall>m \<in> set (queued (rings s r)). holds OFF8 P (t2_ring_stage r) (mem s m))
    \<and> (\<forall>t m. ctl s t = Return m \<longrightarrow> t = T_CSD \<and> holds OFF8 P Shifted (mem s m))
    \<and> csd_count s \<le> CSD_LIMIT \<and> (quit s \<longleftrightarrow> csd_count s = CSD_LIMIT)"
proof -
  obtain s0 where s0: "t2_main js header trailer junk vaddr len store = Some s0"
    "good t2_shape (t2_content P) (test_addrs header trailer vaddr) s0" using t2_main_good [OF assms(2-4)] by blast
  have "pipeline (test_addrs header trailer vaddr) t2_shape (t2_content P) (t2_step P)"
    by (rule t2_pipeline [OF assms(1)]) simp_all
  from pipeline.always [OF this s0(2), of \<sigma> n] s0 show ?thesis
    by (simp add: t2_shape_def t2_content_def)
qed

text \<open>C6: the buffers of the running program. However the nine threads' steps interleave, no step
  fails, the pool, the rings and the threads together hold the 2047 buffers of the pool, each
  exactly once, and no ring holds more than 2047, so that no \<open>rte_ring_enqueue\<close>, whose result
  the code ignores, finds a full ring and loses a buffer.\<close>

theorem t2_conserves:
  assumes "setup_ok P" "\<forall>r. length (js r) = 2048" "length junk = 2048"
    and "chunk_fits NUM_MBUFS BUF16 header trailer vaddr len"
  shows "\<exists>s0 s. t2_main js header trailer junk vaddr len store = Some s0 \<and> run (t2_step P) \<sigma> n s0 = Some s
    \<and> buffers s = mset (test_addrs header trailer vaddr) \<and> distinct (test_addrs header trailer vaddr)
    \<and> (\<forall>r. distinct (queued (rings s r)) \<and> length (queued (rings s r)) \<le> NUM_MBUFS)"
  using t2_always [OF assms, of store \<sigma> n] by (meson test_addrs_simps(1))

theorem t2_conserves_witness:
  "\<exists>s0 s. t2_main (\<lambda>r. replicate 2048 0) 64 0 (replicate 2048 0) 0 71661376 (\<lambda>m. rte_pktmbuf_init 0) = Some s0
    \<and> run (t2_step default_setup) (\<lambda>n. if even n then T_ReadData else T_CSD) 1000 s0 = Some s
    \<and> buffers s = mset (test_addrs 64 0 0)"
  using t2_conserves [OF default_setup_ok _ _ test_memory, of "\<lambda>r. replicate 2048 0" "replicate 2048 0"] by force

text \<open>C20: what the buffers hold. However the steps interleave, a buffer on a ring holds what the
  stages before that ring leave, computed from the payload by the plain chain; and a buffer
  returned to the pool holds the finished frame.\<close>

theorem t2_frames:
  assumes "setup_ok P" "\<forall>r. length (js r) = 2048" "length junk = 2048"
    and "chunk_fits NUM_MBUFS BUF16 header trailer vaddr len"
  shows "\<exists>s0 s. t2_main js header trailer junk vaddr len store = Some s0 \<and> run (t2_step P) \<sigma> n s0 = Some s
    \<and> (\<forall>m \<in> set (queued (rings s Beforescramble)). read_done (glob P) (payload P) (mem s m))
    \<and> (\<forall>r \<in> {scramble_2_BCC1, scramble_2_BCC2}. \<forall>m \<in> set (queued (rings s r)). scramble_done OFF8 (glob P) (payload P) (mem s m))
    \<and> (\<forall>r \<in> {BCC_2_modulation1, BCC_2_modulation2, BCC_2_modulation3, BCC_2_modulation4}.
        \<forall>m \<in> set (queued (rings s r)). encode_done OFF8 (glob P) (payload P) (mem s m))
    \<and> (\<forall>r \<in> {modulation_2_CSD1, modulation_2_CSD2, modulation_2_CSD3, modulation_2_CSD4}.
        \<forall>m \<in> set (queued (rings s r)). map_done OFF8 (glob P) (payload P) (mem s m))
    \<and> (\<forall>t m. ctl s t = Return m \<longrightarrow> t = T_CSD \<and> csd_done (fp_unit P) (glob P) (payload P) (mem s m))"
proof -
  obtain s0 s where s: "t2_main js header trailer junk vaddr len store = Some s0" "run (t2_step P) \<sigma> n s0 = Some s"
    and st: "\<And>r m. m \<in> set (queued (rings s r)) \<Longrightarrow> holds OFF8 P (t2_ring_stage r) (mem s m)"
    and ret: "\<And>t m. ctl s t = Return m \<Longrightarrow> t = T_CSD \<and> holds OFF8 P Shifted (mem s m)"
    using t2_always [OF assms, of store \<sigma> n] by blast
  show ?thesis
    using s st [where r = Beforescramble] st [where r = scramble_2_BCC1] st [where r = scramble_2_BCC2]
      st [where r = BCC_2_modulation1] st [where r = BCC_2_modulation2] st [where r = BCC_2_modulation3]
      st [where r = BCC_2_modulation4] st [where r = modulation_2_CSD1] st [where r = modulation_2_CSD2]
      st [where r = modulation_2_CSD3] st [where r = modulation_2_CSD4] ret
    by (intro exI [of _ s0] exI [of _ s]) (simp add: holds_def)
qed

theorem t2_frames_witness:
  "\<exists>s0 s. t2_main (\<lambda>r. replicate 2048 0) 64 0 (replicate 2048 0) 0 71661376 (\<lambda>m. rte_pktmbuf_init 0) = Some s0
    \<and> run (t2_step default_setup) (\<lambda>n. if even n then T_ReadData else T_Scramble) 1000 s0 = Some s
    \<and> (\<forall>m \<in> set (queued (rings s scramble_2_BCC1)). scramble_done OFF8 globals0 (replicate 512 7) (mem s m))"
proof -
  have "glob default_setup = globals0" "payload default_setup = replicate 512 7" by (simp_all add: default_setup_def)
  then show ?thesis
    using t2_frames [OF default_setup_ok _ _ test_memory, of "\<lambda>r. replicate 2048 0" "replicate 2048 0" "\<lambda>m. rte_pktmbuf_init 0"
        "\<lambda>n. if even n then T_ReadData else T_Scramble" 1000] by force
qed

text \<open>C5: the program ends. If every thread is scheduled again and again, in whatever order, the
  program comes to a state where exactly 100000 frames have been coded, \<open>quit\<close> is set, every
  thread has returned, and all buffers lie on the rings or in the pool.\<close>

theorem t2_ends:
  assumes "setup_ok P" "\<forall>r. length (js r) = 2048" "length junk = 2048"
    and "chunk_fits NUM_MBUFS BUF16 header trailer vaddr len" "fair \<sigma>"
  shows "\<exists>s0 n s. t2_main js header trailer junk vaddr len store = Some s0 \<and> run (t2_step P) \<sigma> n s0 = Some s
    \<and> quit s \<and> csd_count s = 100000 \<and> (\<forall>t. ctl s t = Done) \<and> buffers s = mset (test_addrs header trailer vaddr)"
proof -
  obtain s0 where s0: "t2_main js header trailer junk vaddr len store = Some s0"
    "good t2_shape (t2_content P) (test_addrs header trailer vaddr) s0" using t2_main_good [OF assms(2-4)] by blast
  have "pipeline (test_addrs header trailer vaddr) t2_shape (t2_content P) (t2_step P)"
    by (rule t2_pipeline [OF assms(1)]) simp_all
  from pipeline.ends [OF this s0(2) assms(5)] obtain n s where s: "run (t2_step P) \<sigma> n s0 = Some s"
    "good t2_shape (t2_content P) (test_addrs header trailer vaddr) s" "quit s" "\<forall>t. ctl s t = Done"
    "csd_count s = limit t2_shape" by blast
  have "csd_count s = 100000" using s(5) by (simp add: t2_shape_def CSD_LIMIT_def)
  then show ?thesis using s0(1) s(1,3,4) goodD(5) [OF s(2)] by blast
qed

theorem t2_ends_witness:
  "\<exists>s0 n s. t2_main (\<lambda>r. replicate 2048 0) 64 0 (replicate 2048 0) 0 71661376 (\<lambda>m. rte_pktmbuf_init 0) = Some s0
    \<and> run (t2_step default_setup) (\<lambda>n. [T_ReadData, T_Scramble, T_BCC1, T_BCC2, T_modulate1, T_modulate2, T_modulate3,
        T_modulate4, T_CSD] ! (n mod 9)) n s0 = Some s \<and> csd_count s = 100000"
proof -
  have "fair (\<lambda>n. [T_ReadData, T_Scramble, T_BCC1, T_BCC2, T_modulate1, T_modulate2, T_modulate3, T_modulate4, T_CSD]
      ! (n mod 9))"
    using fair_round_robin [of "[T_ReadData, T_Scramble, T_BCC1, T_BCC2, T_modulate1, T_modulate2, T_modulate3,
        T_modulate4, T_CSD]"] by (simp add: UNIV_t2_thread)
  then show ?thesis
    using t2_ends [OF default_setup_ok _ _ test_memory, of "\<lambda>r. replicate 2048 0" "replicate 2048 0"] by force
qed

end
