(* ===== verification/Main_test.thy ===== *)
theory Main_test
  imports Startup
begin

text \<open>
  The program \<^verbatim>\<open>maindpdk_test.c\<close>, which the repository compiles when \<open>RUNMAINDPDK\<close> is
  defined: as \<open>Main_test_2\<close>, with six threads for the mapping. The threads of the encoder deal out
  to three rings each, but their counters go back to 1 when they reach 3, before the third ring
  has had its turn: two of the six threads never get a buffer (\<open>t1_starved\<close>).
\<close>

section \<open>The program\<close>

datatype t1_ring = Beforescramble | scramble_2_BCC1 | scramble_2_BCC2
  | BCC_2_modulation1 | BCC_2_modulation2 | BCC_2_modulation3 | BCC_2_modulation4 | BCC_2_modulation5 | BCC_2_modulation6
  | modulation_2_CSD1 | modulation_2_CSD2 | modulation_2_CSD3 | modulation_2_CSD4 | modulation_2_CSD5 | modulation_2_CSD6
  | AfterCSD1

datatype t1_thread = T_ReadData | T_Scramble | T_BCC1 | T_BCC2
  | T_modulate1 | T_modulate2 | T_modulate3 | T_modulate4 | T_modulate5 | T_modulate6
  | T_CSD

lemma UNIV_t1_ring: "UNIV = {Beforescramble, scramble_2_BCC1, scramble_2_BCC2, BCC_2_modulation1, BCC_2_modulation2,
  BCC_2_modulation3, BCC_2_modulation4, BCC_2_modulation5, BCC_2_modulation6, modulation_2_CSD1,
  modulation_2_CSD2, modulation_2_CSD3, modulation_2_CSD4, modulation_2_CSD5, modulation_2_CSD6,
  AfterCSD1}"
  using t1_ring.exhaust by auto

lemma UNIV_t1_thread: "UNIV = {T_ReadData, T_Scramble, T_BCC1, T_BCC2, T_modulate1, T_modulate2,
  T_modulate3, T_modulate4, T_modulate5, T_modulate6, T_CSD}"
  using t1_thread.exhaust by auto

instance t1_ring :: finite
  by standard (simp add: UNIV_t1_ring)

instance t1_thread :: finite
  by standard (simp add: UNIV_t1_thread)

type_synonym t1_net = "(t1_ring, t1_thread, rte_mbuf) net"

definition t1_ReadData_Loop :: "transmitter \<Rightarrow> t1_net \<Rightarrow> t1_net option" where
  "t1_ReadData_Loop P = reader T_ReadData 1 rte_pktmbuf_prepare (read_P P) Beforescramble"

definition t1_GenDataAndScramble_Loop :: "transmitter \<Rightarrow> t1_net \<Rightarrow> t1_net option" where
  "t1_GenDataAndScramble_Loop P = 
     splitter T_Scramble Beforescramble (scramble_P OFF8 P) 3 [scramble_2_BCC1, scramble_2_BCC2]"

definition t1_BCC_encoder_Loop1 :: "transmitter \<Rightarrow> t1_net \<Rightarrow> t1_net option" where
  "t1_BCC_encoder_Loop1 P = 
     splitter T_BCC1 scramble_2_BCC1 (encode_P OFF8 P) 3 [BCC_2_modulation1, BCC_2_modulation2, BCC_2_modulation3]"

definition t1_BCC_encoder_Loop2 :: "transmitter \<Rightarrow> t1_net \<Rightarrow> t1_net option" where
  "t1_BCC_encoder_Loop2 P = 
     splitter T_BCC2 scramble_2_BCC2 (encode_P OFF8 P) 3 [BCC_2_modulation4, BCC_2_modulation5, BCC_2_modulation6]"

definition t1_modulate_Loop1 :: "transmitter \<Rightarrow> t1_net \<Rightarrow> t1_net option" where
  "t1_modulate_Loop1 P = worker T_modulate1 BCC_2_modulation1 (modulate_P OFF8 P) modulation_2_CSD1"

definition t1_modulate_Loop2 :: "transmitter \<Rightarrow> t1_net \<Rightarrow> t1_net option" where
  "t1_modulate_Loop2 P = worker T_modulate2 BCC_2_modulation2 (modulate_P OFF8 P) modulation_2_CSD2"

definition t1_modulate_Loop3 :: "transmitter \<Rightarrow> t1_net \<Rightarrow> t1_net option" where
  "t1_modulate_Loop3 P = worker T_modulate3 BCC_2_modulation3 (modulate_P OFF8 P) modulation_2_CSD3"

definition t1_modulate_Loop4 :: "transmitter \<Rightarrow> t1_net \<Rightarrow> t1_net option" where
  "t1_modulate_Loop4 P = worker T_modulate4 BCC_2_modulation4 (modulate_P OFF8 P) modulation_2_CSD4"

definition t1_modulate_Loop5 :: "transmitter \<Rightarrow> t1_net \<Rightarrow> t1_net option" where
  "t1_modulate_Loop5 P = worker T_modulate5 BCC_2_modulation5 (modulate_P OFF8 P) modulation_2_CSD5"

definition t1_modulate_Loop6 :: "transmitter \<Rightarrow> t1_net \<Rightarrow> t1_net option" where
  "t1_modulate_Loop6 P = worker T_modulate6 BCC_2_modulation6 (modulate_P OFF8 P) modulation_2_CSD6"

definition t1_Data_CSD_Loop1 :: "transmitter \<Rightarrow> t1_net \<Rightarrow> t1_net option" where
  "t1_Data_CSD_Loop1 P = 
     sinker T_CSD 11 [modulation_2_CSD1, modulation_2_CSD2, modulation_2_CSD3, modulation_2_CSD4, modulation_2_CSD5, modulation_2_CSD6]
       (csd_P OFF8 P) CSD_LIMIT"

text \<open>The functions launched on the cores 1 to 11; the launch of \<open>retrieve_Loop\<close> is commented out.\<close>

definition t1_step :: "transmitter \<Rightarrow> t1_thread \<Rightarrow> t1_net \<Rightarrow> t1_net option" where
  "t1_step P t = (case t of
       T_ReadData \<Rightarrow> t1_ReadData_Loop P
     | T_Scramble \<Rightarrow> t1_GenDataAndScramble_Loop P
     | T_BCC1 \<Rightarrow> t1_BCC_encoder_Loop1 P
     | T_BCC2 \<Rightarrow> t1_BCC_encoder_Loop2 P
     | T_modulate1 \<Rightarrow> t1_modulate_Loop1 P
     | T_modulate2 \<Rightarrow> t1_modulate_Loop2 P
     | T_modulate3 \<Rightarrow> t1_modulate_Loop3 P
     | T_modulate4 \<Rightarrow> t1_modulate_Loop4 P
     | T_modulate5 \<Rightarrow> t1_modulate_Loop5 P
     | T_modulate6 \<Rightarrow> t1_modulate_Loop6 P
     | T_CSD \<Rightarrow> t1_Data_CSD_Loop1 P)"

definition t1_main :: "(t1_ring \<Rightarrow> nat list) \<Rightarrow> nat \<Rightarrow> nat \<Rightarrow> nat list \<Rightarrow> nat \<Rightarrow> nat \<Rightarrow> (nat \<Rightarrow> rte_mbuf) \<Rightarrow> t1_net option" where
  "t1_main = test_start"

section \<open>The network\<close>

text \<open>What a ring holds; nothing on the rings that are never fed.\<close>

definition t1_unused :: "t1_ring set" where
  "t1_unused = {BCC_2_modulation3, BCC_2_modulation6, modulation_2_CSD3, modulation_2_CSD6, AfterCSD1}"

fun t1_ring_stage :: "t1_ring \<Rightarrow> stage" where
  "t1_ring_stage Beforescramble = Read"
| "t1_ring_stage scramble_2_BCC1 = Scrambled"
| "t1_ring_stage scramble_2_BCC2 = Scrambled"
| "t1_ring_stage modulation_2_CSD1 = Mapped"
| "t1_ring_stage modulation_2_CSD2 = Mapped"
| "t1_ring_stage modulation_2_CSD3 = Mapped"
| "t1_ring_stage modulation_2_CSD4 = Mapped"
| "t1_ring_stage modulation_2_CSD5 = Mapped"
| "t1_ring_stage modulation_2_CSD6 = Mapped"
| "t1_ring_stage AfterCSD1 = Mapped"
| "t1_ring_stage r = Encoded"

fun t1_hand_stage :: "t1_thread \<Rightarrow> stage" where
  "t1_hand_stage T_ReadData = Fresh"
| "t1_hand_stage T_Scramble = Read"
| "t1_hand_stage T_BCC1 = Scrambled"
| "t1_hand_stage T_BCC2 = Scrambled"
| "t1_hand_stage T_CSD = Mapped"
| "t1_hand_stage t = Encoded"

definition t1_content :: "transmitter \<Rightarrow> (t1_ring, t1_thread, rte_mbuf) content" where
  "t1_content P = \<lparr>anywhere = holds OFF8 P Fresh,
     on_ring = (\<lambda>r b. r \<notin> t1_unused \<and> holds OFF8 P (t1_ring_stage r) b),
     in_hand = (\<lambda>t b. t \<notin> {T_modulate3, T_modulate6} \<and> holds OFF8 P (t1_hand_stage t) b),
     returned = (\<lambda>t b. t = T_CSD \<and> holds OFF8 P Shifted b)\<rparr>"

fun t1_ins :: "t1_thread \<Rightarrow> t1_ring list" where
  "t1_ins T_ReadData = []"
| "t1_ins T_Scramble = [Beforescramble]"
| "t1_ins T_BCC1 = [scramble_2_BCC1]"
| "t1_ins T_BCC2 = [scramble_2_BCC2]"
| "t1_ins T_modulate1 = [BCC_2_modulation1]"
| "t1_ins T_modulate2 = [BCC_2_modulation2]"
| "t1_ins T_modulate3 = [BCC_2_modulation3]"
| "t1_ins T_modulate4 = [BCC_2_modulation4]"
| "t1_ins T_modulate5 = [BCC_2_modulation5]"
| "t1_ins T_modulate6 = [BCC_2_modulation6]"
| "t1_ins T_CSD = [modulation_2_CSD1, modulation_2_CSD2, modulation_2_CSD3, modulation_2_CSD4, modulation_2_CSD5, modulation_2_CSD6]"

definition t1_shape :: "(t1_ring, t1_thread) shape" where
  "t1_shape = \<lparr>ins = t1_ins, src = (\<lambda>t. if t = T_ReadData then Some 1 else None), cores = {1, 11},
     cache = MBUF_CACHE_SIZE, sink = T_CSD, limit = CSD_LIMIT, turns = (\<lambda>t. 3),
     ring_weight = (\<lambda>r. stage_weight (t1_ring_stage r) + 1), hand_weight = (\<lambda>t. stage_weight (t1_hand_stage t)),
     pool_weight = 10\<rparr>"

lemma t1_network:
  assumes "setup_ok P" "distinct bs" "length bs = NUM_MBUFS"
  shows "network bs t1_shape (t1_content P)"
proof
  show "distinct bs" by fact
  show "on_ring (t1_content P) r b \<Longrightarrow> anywhere (t1_content P) b" for r b
    by (auto simp: t1_content_def intro: holds_fresh)
  show "returned (t1_content P) t b \<Longrightarrow> anywhere (t1_content P) b" for t b
    by (auto simp: t1_content_def intro: holds_fresh)
  show "r \<in> set (ins t1_shape t) \<Longrightarrow> on_ring (t1_content P) r b \<Longrightarrow> in_hand (t1_content P) t b" for r t b
    by (cases t) (auto simp: t1_content_def t1_shape_def t1_unused_def)
  show "r \<in> set (ins t1_shape t) \<Longrightarrow> hand_weight t1_shape t < ring_weight t1_shape r" for r t
    by (cases t) (auto simp: t1_shape_def)
  show "src t1_shape t = Some l \<Longrightarrow> l \<in> cores t1_shape \<and> l < RTE_MAX_LCORE
      \<and> hand_weight t1_shape t < pool_weight t1_shape \<and> t \<noteq> sink t1_shape" for t l
    by (auto simp: t1_shape_def RTE_MAX_LCORE_def split: if_splits)
  show "0 < tries t1_shape t" for t
    by (cases t) (simp_all add: t1_shape_def tries_def)
  show "1 < cache t1_shape" "finite (cores t1_shape)"
    "card (cores t1_shape) * CALC_CACHE_FLUSHTHRESH (cache t1_shape) < length bs"
    by (simp_all add: t1_shape_def MBUF_CACHE_SIZE_def CALC_CACHE_FLUSHTHRESH_def assms(3) NUM_MBUFS_def)
  show "\<exists>t. src t1_shape t = None \<and> r \<in> set (ins t1_shape t)" if "on_ring (t1_content P) r b" for r b
  proof -
    have "r \<noteq> AfterCSD1" using that by (auto simp: t1_content_def t1_unused_def)
    then have "\<exists>t. t \<noteq> T_ReadData \<and> r \<in> set (t1_ins t)"
      by (cases r) (metis list.set_intros t1_ins.simps t1_thread.distinct)+
    then show ?thesis by (auto simp: t1_shape_def)
  qed
  show "\<exists>t. src t1_shape t \<noteq> None" by (auto simp: t1_shape_def)
qed

lemma t1_pipeline:
  assumes "setup_ok P" "distinct bs" "length bs = NUM_MBUFS"
  shows "pipeline bs t1_shape (t1_content P) (t1_step P)"
proof -
  have net: "network bs t1_shape (t1_content P)" by (rule t1_network [OF assms])
  note runs = stage_runs [OF assms(1), where OFF = OFF8]
  note shape = t1_shape_def t1_content_def t1_unused_def
  have "step_ok t1_shape (t1_content P) bs t s (t1_step P t s)" if g: "good t1_shape (t1_content P) bs s" for s t
  proof (cases t)
    case T_ReadData
    show ?thesis unfolding T_ReadData t1_step_def t1_thread.case t1_ReadData_Loop_def
      by (rule network.reader_step [OF net g]) (use runs(1) holds_prepare in \<open>auto simp: shape\<close>)
  next
    case T_Scramble
    show ?thesis unfolding T_Scramble t1_step_def t1_thread.case t1_GenDataAndScramble_Loop_def
      by (rule network.splitter_step [OF net g]) (use runs(2) in \<open>auto simp: shape\<close>)
  next
    case T_BCC1
    show ?thesis unfolding T_BCC1 t1_step_def t1_thread.case t1_BCC_encoder_Loop1_def
      by (rule network.splitter_step [OF net g]) (use runs(3) in \<open>auto simp: shape\<close>)
  next
    case T_BCC2
    show ?thesis unfolding T_BCC2 t1_step_def t1_thread.case t1_BCC_encoder_Loop2_def
      by (rule network.splitter_step [OF net g]) (use runs(3) in \<open>auto simp: shape\<close>)
  next
    case T_modulate1
    show ?thesis unfolding T_modulate1 t1_step_def t1_thread.case t1_modulate_Loop1_def
      by (rule network.worker_step [OF net g]) (use runs(4) in \<open>auto simp: shape\<close>)
  next
    case T_modulate2
    show ?thesis unfolding T_modulate2 t1_step_def t1_thread.case t1_modulate_Loop2_def
      by (rule network.worker_step [OF net g]) (use runs(4) in \<open>auto simp: shape\<close>)
  next
    case T_modulate3
    show ?thesis unfolding T_modulate3 t1_step_def t1_thread.case t1_modulate_Loop3_def
      by (rule network.worker_step [OF net g]) (use runs(4) in \<open>auto simp: shape\<close>)
  next
    case T_modulate4
    show ?thesis unfolding T_modulate4 t1_step_def t1_thread.case t1_modulate_Loop4_def
      by (rule network.worker_step [OF net g]) (use runs(4) in \<open>auto simp: shape\<close>)
  next
    case T_modulate5
    show ?thesis unfolding T_modulate5 t1_step_def t1_thread.case t1_modulate_Loop5_def
      by (rule network.worker_step [OF net g]) (use runs(4) in \<open>auto simp: shape\<close>)
  next
    case T_modulate6
    show ?thesis unfolding T_modulate6 t1_step_def t1_thread.case t1_modulate_Loop6_def
      by (rule network.worker_step [OF net g]) (use runs(4) in \<open>auto simp: shape\<close>)
  next
    case T_CSD
    have "step_ok t1_shape (t1_content P) bs T_CSD s (sinker T_CSD 11
        [modulation_2_CSD1, modulation_2_CSD2, modulation_2_CSD3, modulation_2_CSD4, modulation_2_CSD5, modulation_2_CSD6] (csd_P OFF8 P) (limit t1_shape) s)"
      by (rule network.sinker_step [OF net g]) (use runs(5) in \<open>auto simp: shape\<close>)
    then show ?thesis unfolding T_CSD t1_step_def t1_thread.case t1_Data_CSD_Loop1_def by (simp add: t1_shape_def)
  qed
  then show ?thesis using net by (intro pipeline.intro) (auto intro: pipeline_axioms.intro)
qed

text \<open>The state after \<open>main\<close>.\<close>

lemma t1_main_good:
  assumes "\<forall>r. length (js r) = 2048" "length junk = 2048" "chunk_fits NUM_MBUFS BUF16 header trailer vaddr len"
  shows "\<exists>s. t1_main js header trailer junk vaddr len store = Some s
    \<and> good t1_shape (t1_content P) (test_addrs header trailer vaddr) s"
  unfolding t1_main_def
  by (rule test_start_good [OF assms]) (simp_all add: t1_shape_def t1_content_def CSD_LIMIT_def roomy_init8)

interpretation test_1: pipeline "test_addrs 64 0 0" t1_shape "t1_content default_setup" "t1_step default_setup"
  by (rule t1_pipeline [OF default_setup_ok]) simp_all

section \<open>Properties\<close>

text \<open>C21: two of the six mapping threads starve. However the steps interleave, the rings
  \<open>BCC_2_modulation3\<close> and \<open>BCC_2_modulation6\<close> and the rings behind them stay empty, and the
  threads that poll them never hold a buffer.\<close>

theorem t1_starved:
  assumes "setup_ok P" "\<forall>r. length (js r) = 2048" "length junk = 2048"
    and "chunk_fits NUM_MBUFS BUF16 header trailer vaddr len"
  shows "\<exists>s0 s. t1_main js header trailer junk vaddr len store = Some s0 \<and> run (t1_step P) \<sigma> n s0 = Some s
    \<and> (\<forall>r \<in> {BCC_2_modulation3, BCC_2_modulation6, modulation_2_CSD3, modulation_2_CSD6}. queued (rings s r) = [])
    \<and> (\<forall>m. ctl s T_modulate3 \<noteq> Busy m \<and> ctl s T_modulate6 \<noteq> Busy m)"
proof -
  obtain s0 where s0: "t1_main js header trailer junk vaddr len store = Some s0"
    "good t1_shape (t1_content P) (test_addrs header trailer vaddr) s0" using t1_main_good [OF assms(2-4)] by blast
  have pipe: "pipeline (test_addrs header trailer vaddr) t1_shape (t1_content P) (t1_step P)"
    by (rule t1_pipeline [OF assms(1)]) simp_all
  from pipeline.stays_good [OF this s0(2), of \<sigma> n] obtain s where s: "run (t1_step P) \<sigma> n s0 = Some s"
    "good t1_shape (t1_content P) (test_addrs header trailer vaddr) s"
    by blast
  have "queued (rings s r) = []" if "r \<in> t1_unused" for r
  proof (rule ccontr)
    assume "queued (rings s r) \<noteq> []"
    then have "last (queued (rings s r)) \<in> set (queued (rings s r))" by simp
    then show False using goodD(8) [OF s(2)] that by (auto simp: t1_content_def)
  qed
  moreover have "ctl s t \<noteq> Busy m" if "t \<in> {T_modulate3, T_modulate6}" for t m
    using goodD(9) [OF s(2), of t] that by (auto simp: ctl_ok_def t1_content_def)
  ultimately show ?thesis using s0(1) s(1) by (auto simp: t1_unused_def)
qed

theorem t1_starved_witness:
  "\<exists>s0 s. t1_main (\<lambda>r. replicate 2048 0) 64 0 (replicate 2048 0) 0 71661376 (\<lambda>m. rte_pktmbuf_init 0) = Some s0
    \<and> run (t1_step default_setup) (\<lambda>n. if even n then T_ReadData else T_BCC1) 1000 s0 = Some s
    \<and> queued (rings s BCC_2_modulation3) = []"
  using t1_starved [OF default_setup_ok _ _ test_memory, of "\<lambda>r. replicate 2048 0" "replicate 2048 0"] by force

text \<open>The program with six mapping threads ends, too: if every thread is scheduled again and again, in whatever order, the
  program comes to a state where exactly 100000 frames have been coded, \<open>quit\<close> is set, every
  thread has returned, and all buffers lie on the rings or in the pool.\<close>

theorem t1_ends:
  assumes "setup_ok P" "\<forall>r. length (js r) = 2048" "length junk = 2048"
    and "chunk_fits NUM_MBUFS BUF16 header trailer vaddr len" "fair \<sigma>"
  shows "\<exists>s0 n s. t1_main js header trailer junk vaddr len store = Some s0 \<and> run (t1_step P) \<sigma> n s0 = Some s
    \<and> quit s \<and> csd_count s = 100000 \<and> (\<forall>t. ctl s t = Done) \<and> buffers s = mset (test_addrs header trailer vaddr)"
proof -
  obtain s0 where s0: "t1_main js header trailer junk vaddr len store = Some s0"
    "good t1_shape (t1_content P) (test_addrs header trailer vaddr) s0" using t1_main_good [OF assms(2-4)] by blast
  have "pipeline (test_addrs header trailer vaddr) t1_shape (t1_content P) (t1_step P)"
    by (rule t1_pipeline [OF assms(1)]) simp_all
  from pipeline.ends [OF this s0(2) assms(5)] obtain n s where s: "run (t1_step P) \<sigma> n s0 = Some s"
    "good t1_shape (t1_content P) (test_addrs header trailer vaddr) s" "quit s" "\<forall>t. ctl s t = Done"
    "csd_count s = limit t1_shape" by blast
  have "csd_count s = 100000" using s(5) by (simp add: t1_shape_def CSD_LIMIT_def)
  then show ?thesis using s0(1) s(1,3,4) goodD(5) [OF s(2)] by blast
qed

theorem t1_ends_witness:
  "\<exists>s0 n s. t1_main (\<lambda>r. replicate 2048 0) 64 0 (replicate 2048 0) 0 71661376 (\<lambda>m. rte_pktmbuf_init 0) = Some s0
    \<and> run (t1_step default_setup) (\<lambda>n. [T_ReadData, T_Scramble, T_BCC1, T_BCC2, T_modulate1, T_modulate2, T_modulate3,
        T_modulate4, T_modulate5, T_modulate6, T_CSD] ! (n mod 11)) n s0 = Some s \<and> csd_count s = 100000"
proof -
  have "fair (\<lambda>n. [T_ReadData, T_Scramble, T_BCC1, T_BCC2, T_modulate1, T_modulate2, T_modulate3, T_modulate4, T_modulate5, T_modulate6, T_CSD]
      ! (n mod 11))"
    using fair_round_robin [of "[T_ReadData, T_Scramble, T_BCC1, T_BCC2, T_modulate1, T_modulate2, T_modulate3,
        T_modulate4, T_modulate5, T_modulate6, T_CSD]"] by (simp add: UNIV_t1_thread)
  then show ?thesis
    using t1_ends [OF default_setup_ok _ _ test_memory, of "\<lambda>r. replicate 2048 0" "replicate 2048 0"] by force
qed

end
