(* ===== verification/Main1.thy ===== *)
theory Main1
  imports Startup
begin

text \<open>
  The program \<^verbatim>\<open>maindpdk1.c\<close>, compiled when \<open>RUNMAINDPDK\<close> is defined: one thread per
  stage, six rings of 512 cells that any thread may use, a pool of 511 buffers. The last thread,
  for the inverse Fourier transform, polls a ring that nobody feeds: the call that would is
  commented out. The transform itself is a parameter, \<open>ifft\<close>.
\<close>

section \<open>The program\<close>

datatype m1_ring = Ring_Beforescramble | Ring_scramble_2_BCC | Ring_BCC_2_modulation | Ring_modulation_2_CSD
  | Ring_CSD_2_IFFTAndaddWindow | Ring_AfterIFFT

datatype m1_thread = T_ReadData | T_Scramble | T_BCC | T_modulate | T_CSD | T_IFFT

lemma UNIV_m1_ring: "UNIV = {Ring_Beforescramble, Ring_scramble_2_BCC, Ring_BCC_2_modulation, Ring_modulation_2_CSD,
  Ring_CSD_2_IFFTAndaddWindow, Ring_AfterIFFT}"
  using m1_ring.exhaust by auto

lemma UNIV_m1_thread: "UNIV = {T_ReadData, T_Scramble, T_BCC, T_modulate, T_CSD, T_IFFT}"
  using m1_thread.exhaust by auto

instance m1_ring :: finite
  by standard (simp add: UNIV_m1_ring)

instance m1_thread :: finite
  by standard (simp add: UNIV_m1_thread)

definition M1_NUM_MBUFS :: nat where
  "M1_NUM_MBUFS = 511"

definition M1_CACHE_SIZE :: nat where
  "M1_CACHE_SIZE = 32"

type_synonym m1_net = "(m1_ring, m1_thread, rte_mbuf) net"

definition m1_ReadData_Loop :: "transmitter \<Rightarrow> m1_net \<Rightarrow> m1_net option" where
  "m1_ReadData_Loop P = reader T_ReadData 1 rte_pktmbuf_prepare (read_P P) Ring_Beforescramble"

definition m1_GenDataAndScramble_Loop :: "transmitter \<Rightarrow> m1_net \<Rightarrow> m1_net option" where
  "m1_GenDataAndScramble_Loop P = worker T_Scramble Ring_Beforescramble (scramble_P OFF15 P) Ring_scramble_2_BCC"

definition m1_BCC_encoder_Loop :: "transmitter \<Rightarrow> m1_net \<Rightarrow> m1_net option" where
  "m1_BCC_encoder_Loop P = worker T_BCC Ring_scramble_2_BCC (encode_P OFF15 P) Ring_BCC_2_modulation"

definition m1_modulate_Loop :: "transmitter \<Rightarrow> m1_net \<Rightarrow> m1_net option" where
  "m1_modulate_Loop P = worker T_modulate Ring_BCC_2_modulation (modulate_P OFF15 P) Ring_modulation_2_CSD"

text \<open>The test is \<open>CSD_encode_DPDK_count > 100000\<close>, after the increment.\<close>

definition m1_Data_CSD_Loop :: "transmitter \<Rightarrow> m1_net \<Rightarrow> m1_net option" where
  "m1_Data_CSD_Loop P = sinker T_CSD 5 [Ring_modulation_2_CSD] (csd_P OFF15 P) 100001"

definition m1_IFFTAndaddWindow_loop :: "(rte_mbuf \<Rightarrow> rte_mbuf option) \<Rightarrow> m1_net \<Rightarrow> m1_net option" where
  "m1_IFFTAndaddWindow_loop ifft =
     thread (try_ring [Ring_CSD_2_IFFTAndaddWindow] T_IFFT)
       (\<lambda>m s. map_option (\<lambda>s. let n = turn s T_IFFT + 1
            in goto T_IFFT (Return m) (s\<lparr>turn := (turn s)(T_IFFT := n), quit := (quit s \<or> 100 < n)\<rparr>))
          (work ifft m s))
       (release 6 T_IFFT) T_IFFT"

text \<open>The functions launched on the cores 1 to 6.\<close>

definition m1_step :: "transmitter \<Rightarrow> (rte_mbuf \<Rightarrow> rte_mbuf option) \<Rightarrow> m1_thread \<Rightarrow> m1_net \<Rightarrow> m1_net option" where
  "m1_step P ifft t = (case t of
       T_ReadData \<Rightarrow> m1_ReadData_Loop P
     | T_Scramble \<Rightarrow> m1_GenDataAndScramble_Loop P
     | T_BCC \<Rightarrow> m1_BCC_encoder_Loop P
     | T_modulate \<Rightarrow> m1_modulate_Loop P
     | T_CSD \<Rightarrow> m1_Data_CSD_Loop P
     | T_IFFT \<Rightarrow> m1_IFFTAndaddWindow_loop ifft)"

definition m1_main :: "(m1_ring \<Rightarrow> nat list) \<Rightarrow> nat \<Rightarrow> nat \<Rightarrow> nat list \<Rightarrow> nat \<Rightarrow> nat \<Rightarrow> (nat \<Rightarrow> rte_mbuf) \<Rightarrow> m1_net option" where
  "m1_main = start_program 512 0 M1_NUM_MBUFS M1_CACHE_SIZE BUF30"

section \<open>The network\<close>

fun m1_ring_stage :: "m1_ring \<Rightarrow> stage" where
  "m1_ring_stage Ring_Beforescramble = Read"
| "m1_ring_stage Ring_scramble_2_BCC = Scrambled"
| "m1_ring_stage Ring_BCC_2_modulation = Encoded"
| "m1_ring_stage Ring_modulation_2_CSD = Mapped"
| "m1_ring_stage r = Shifted"

fun m1_hand_stage :: "m1_thread \<Rightarrow> stage" where
  "m1_hand_stage T_ReadData = Fresh"
| "m1_hand_stage T_Scramble = Read"
| "m1_hand_stage T_BCC = Scrambled"
| "m1_hand_stage T_modulate = Encoded"
| "m1_hand_stage T_CSD = Mapped"
| "m1_hand_stage T_IFFT = Shifted"

definition m1_content :: "transmitter \<Rightarrow> (m1_ring, m1_thread, rte_mbuf) content" where
  "m1_content P = \<lparr>anywhere = holds OFF15 P Fresh,
     on_ring = (\<lambda>r b. r \<notin> {Ring_CSD_2_IFFTAndaddWindow, Ring_AfterIFFT} \<and> holds OFF15 P (m1_ring_stage r) b),
     in_hand = (\<lambda>t b. t \<noteq> T_IFFT \<and> holds OFF15 P (m1_hand_stage t) b),
     returned = (\<lambda>t b. t = T_CSD \<and> holds OFF15 P Shifted b)\<rparr>"

fun m1_ins :: "m1_thread \<Rightarrow> m1_ring list" where
  "m1_ins T_ReadData = []"
| "m1_ins T_Scramble = [Ring_Beforescramble]"
| "m1_ins T_BCC = [Ring_scramble_2_BCC]"
| "m1_ins T_modulate = [Ring_BCC_2_modulation]"
| "m1_ins T_CSD = [Ring_modulation_2_CSD]"
| "m1_ins T_IFFT = [Ring_CSD_2_IFFTAndaddWindow]"

definition m1_shape :: "(m1_ring, m1_thread) shape" where
  "m1_shape = \<lparr>ins = m1_ins, src = (\<lambda>t. if t = T_ReadData then Some 1 else None), cores = {1, 5},
     cache = M1_CACHE_SIZE, sink = T_CSD, limit = 100001, turns = (\<lambda>t. 101),
     ring_weight = (\<lambda>r. stage_weight (m1_ring_stage r) + 1), hand_weight = (\<lambda>t. stage_weight (m1_hand_stage t)),
     pool_weight = 10\<rparr>"

lemma m1_network:
  assumes "distinct bs" "length bs = M1_NUM_MBUFS"
  shows "network bs m1_shape (m1_content P)"
proof
  show "distinct bs" by fact
  show "on_ring (m1_content P) r b \<Longrightarrow> anywhere (m1_content P) b" for r b
    by (auto simp: m1_content_def intro: holds_fresh)
  show "returned (m1_content P) t b \<Longrightarrow> anywhere (m1_content P) b" for t b
    by (auto simp: m1_content_def intro: holds_fresh)
  show "r \<in> set (ins m1_shape t) \<Longrightarrow> on_ring (m1_content P) r b \<Longrightarrow> in_hand (m1_content P) t b" for r t b
    by (cases t) (auto simp: m1_content_def m1_shape_def)
  show "r \<in> set (ins m1_shape t) \<Longrightarrow> hand_weight m1_shape t < ring_weight m1_shape r" for r t
    by (cases t) (auto simp: m1_shape_def)
  show "src m1_shape t = Some l \<Longrightarrow> l \<in> cores m1_shape \<and> l < RTE_MAX_LCORE
      \<and> hand_weight m1_shape t < pool_weight m1_shape \<and> t \<noteq> sink m1_shape" for t l
    by (auto simp: m1_shape_def RTE_MAX_LCORE_def split: if_splits)
  show "0 < tries m1_shape t" for t
    by (cases t) (simp_all add: m1_shape_def tries_def)
  show "1 < cache m1_shape" "finite (cores m1_shape)"
    "card (cores m1_shape) * CALC_CACHE_FLUSHTHRESH (cache m1_shape) < length bs"
    by (simp_all add: m1_shape_def M1_CACHE_SIZE_def CALC_CACHE_FLUSHTHRESH_def assms(2) M1_NUM_MBUFS_def)
  show "\<exists>t. src m1_shape t = None \<and> r \<in> set (ins m1_shape t)" if "on_ring (m1_content P) r b" for r b
  proof -
    have "r \<noteq> Ring_AfterIFFT" using that by (auto simp: m1_content_def)
    then have "\<exists>t. t \<noteq> T_ReadData \<and> r \<in> set (m1_ins t)"
      by (cases r) (metis list.set_intros m1_ins.simps m1_thread.distinct)+
    then show ?thesis by (auto simp: m1_shape_def)
  qed
  show "\<exists>t. src m1_shape t \<noteq> None" by (auto simp: m1_shape_def)
qed

lemma m1_pipeline:
  assumes "setup_ok P" "distinct bs" "length bs = M1_NUM_MBUFS"
  shows "pipeline bs m1_shape (m1_content P) (m1_step P ifft)"
proof -
  have net: "network bs m1_shape (m1_content P)" by (rule m1_network [OF assms(2,3)])
  note runs = stage_runs [OF assms(1), where OFF = OFF15]
  note shape = m1_shape_def m1_content_def
  have "step_ok m1_shape (m1_content P) bs t s (m1_step P ifft t s)" if g: "good m1_shape (m1_content P) bs s" for s t
  proof (cases t)
    case T_ReadData
    show ?thesis unfolding T_ReadData m1_step_def m1_thread.case m1_ReadData_Loop_def
      by (rule network.reader_step [OF net g]) (use runs(1) holds_prepare in \<open>auto simp: shape\<close>)
  next
    case T_Scramble
    show ?thesis unfolding T_Scramble m1_step_def m1_thread.case m1_GenDataAndScramble_Loop_def
      by (rule network.worker_step [OF net g]) (use runs(2) in \<open>auto simp: shape\<close>)
  next
    case T_BCC
    show ?thesis unfolding T_BCC m1_step_def m1_thread.case m1_BCC_encoder_Loop_def
      by (rule network.worker_step [OF net g]) (use runs(3) in \<open>auto simp: shape\<close>)
  next
    case T_modulate
    show ?thesis unfolding T_modulate m1_step_def m1_thread.case m1_modulate_Loop_def
      by (rule network.worker_step [OF net g]) (use runs(4) in \<open>auto simp: shape\<close>)
  next
    case T_CSD
    have "step_ok m1_shape (m1_content P) bs T_CSD s
        (sinker T_CSD 5 [Ring_modulation_2_CSD] (csd_P OFF15 P) (limit m1_shape) s)"
      by (rule network.sinker_step [OF net g]) (use runs(5) in \<open>auto simp: shape\<close>)
    then show ?thesis unfolding T_CSD m1_step_def m1_thread.case m1_Data_CSD_Loop_def by (simp add: m1_shape_def)
  next
    case T_IFFT
    have "ctl s T_IFFT \<noteq> Busy m" "ctl s T_IFFT \<noteq> Return m" for m
      using goodD(9) [OF g, of T_IFFT] by (auto simp: ctl_ok_def m1_content_def)
    moreover have "step_ok m1_shape (m1_content P) bs T_IFFT s (try_ring [Ring_CSD_2_IFFTAndaddWindow] T_IFFT k s)"
      if "ctl s T_IFFT = Try k" for k
      using network.try_ring_step [OF net g that] by (simp add: m1_shape_def)
    ultimately show ?thesis unfolding T_IFFT m1_step_def m1_thread.case m1_IFFTAndaddWindow_loop_def
      by (intro network.thread_step [OF net g]) blast+
  qed
  then show ?thesis using net by (intro pipeline.intro) (auto intro: pipeline_axioms.intro)
qed

definition m1_addrs :: "nat \<Rightarrow> nat \<Rightarrow> nat \<Rightarrow> nat list" where
  "m1_addrs = buffer_addrs M1_NUM_MBUFS BUF30"

lemma m1_addrs_simps [simp]: "distinct (m1_addrs h tr v)" "length (m1_addrs h tr v) = M1_NUM_MBUFS"
  by (simp_all add: m1_addrs_def distinct_addrs)

lemma m1_main_good:
  assumes "\<forall>r. length (js r) = 512" "length junk = 512" "chunk_fits M1_NUM_MBUFS BUF30 header trailer vaddr len"
  shows "\<exists>s. m1_main js header trailer junk vaddr len store = Some s
    \<and> good m1_shape (m1_content P) (m1_addrs header trailer vaddr) s"
proof -
  have c: "M1_CACHE_SIZE = cache m1_shape" by (simp add: m1_shape_def)
  show ?thesis
    unfolding m1_main_def m1_addrs_def c
    by (intro start_good [where k = 9])
      (use assms roomy_init15 in \<open>simp_all add: m1_shape_def m1_content_def M1_NUM_MBUFS_def M1_CACHE_SIZE_def
        RTE_MEMPOOL_CACHE_MAX_SIZE_def CALC_CACHE_FLUSHTHRESH_def\<close>)
qed

interpretation main_1: pipeline "m1_addrs 64 0 0" m1_shape "m1_content default_setup" "m1_step default_setup Some"
  by (rule m1_pipeline [OF default_setup_ok]) simp_all

section \<open>Properties\<close>

text \<open>C22: \<^verbatim>\<open>maindpdk1.c\<close> ends, too. If every thread is scheduled again and again, the program comes
  to a state where 100001 frames have been coded, one more than the 100000 it reports, every
  thread has returned, and all buffers are on the rings or in the pool; the thread for the
  inverse transform has never held a buffer, whatever the transform would do.\<close>

theorem m1_ends:
  assumes "setup_ok P" "\<forall>r. length (js r) = 512" "length junk = 512"
    and "chunk_fits M1_NUM_MBUFS BUF30 header trailer vaddr len" "fair \<sigma>"
  shows "\<exists>s0 n s. m1_main js header trailer junk vaddr len store = Some s0 \<and> run (m1_step P ifft) \<sigma> n s0 = Some s
    \<and> quit s \<and> csd_count s = 100001 \<and> (\<forall>t. ctl s t = Done) \<and> buffers s = mset (m1_addrs header trailer vaddr)
    \<and> (\<forall>k. \<exists>s'. run (m1_step P ifft) \<sigma> k s0 = Some s' \<and> (\<forall>m. ctl s' T_IFFT \<noteq> Busy m))"
proof -
  obtain s0 where s0: "m1_main js header trailer junk vaddr len store = Some s0"
    "good m1_shape (m1_content P) (m1_addrs header trailer vaddr) s0" using m1_main_good [OF assms(2-4)] by blast
  have pipe: "pipeline (m1_addrs header trailer vaddr) m1_shape (m1_content P) (m1_step P ifft)"
    by (rule m1_pipeline [OF assms(1)]) simp_all
  from pipeline.ends [OF this s0(2) assms(5)] obtain n s where s: "run (m1_step P ifft) \<sigma> n s0 = Some s"
    "good m1_shape (m1_content P) (m1_addrs header trailer vaddr) s" "quit s" "\<forall>t. ctl s t = Done"
    "csd_count s = limit m1_shape" by blast
  have "csd_count s = 100001" using s(5) by (simp add: m1_shape_def)
  moreover have "\<exists>s'. run (m1_step P ifft) \<sigma> k s0 = Some s' \<and> (\<forall>m. ctl s' T_IFFT \<noteq> Busy m)" for k
  proof -
    obtain s' where s': "run (m1_step P ifft) \<sigma> k s0 = Some s'" "good m1_shape (m1_content P) (m1_addrs header trailer vaddr) s'"
      using pipeline.stays_good [OF pipe s0(2), of \<sigma> k] by blast
    have "ctl s' T_IFFT \<noteq> Busy m" for m
      using goodD(9) [OF s'(2), of T_IFFT] by (auto simp: ctl_ok_def m1_content_def)
    then show ?thesis using s'(1) by blast
  qed
  ultimately show ?thesis using s0(1) s(1,3,4) goodD(5) [OF s(2)] by blast
qed

theorem m1_ends_witness:
  "\<exists>s0 n s. m1_main (\<lambda>r. replicate 512 0) 64 0 (replicate 512 0) 0 33456192 (\<lambda>m. rte_pktmbuf_init 0) = Some s0
    \<and> run (m1_step default_setup Some) (\<lambda>n. [T_ReadData, T_Scramble, T_BCC, T_modulate, T_CSD, T_IFFT] ! (n mod 6)) n s0
        = Some s \<and> csd_count s = 100001"
proof -
  have "fair (\<lambda>n. [T_ReadData, T_Scramble, T_BCC, T_modulate, T_CSD, T_IFFT] ! (n mod 6))"
    using fair_round_robin [of "[T_ReadData, T_Scramble, T_BCC, T_modulate, T_CSD, T_IFFT]"] by (simp add: UNIV_m1_thread)
  moreover have "chunk_fits M1_NUM_MBUFS BUF30 64 0 0 33456192"
    by (simp add: chunk_fits_def M1_NUM_MBUFS_def BUF30_def RTE_MBUF_DEFAULT_BUF_SIZE_def sizeof_rte_mbuf_def
        RTE_CACHE_LINE_SIZE_def align_ceil_def)
  ultimately show ?thesis
    using m1_ends [OF default_setup_ok, of "\<lambda>r. replicate 512 0" "replicate 512 0" 64 0 0 33456192] by force
qed

end
