(* ===== verification/Main2.thy ===== *)
theory Main2
  imports Startup
begin

text \<open>
  The program \<^verbatim>\<open>maindpdk2.c\<close>, compiled when \<open>RUNMAINDPDK\<close> is defined: one thread deals out the
  buffers of the pool to eight rings and works on the eighth ring itself, seven threads take a
  buffer each and run all stages on it, a last thread polls their eight result rings and gives the
  buffers back. The rings hold 255 buffers, the pool 4095, and no thread looks whether its
  \<open>rte_ring_enqueue\<close> found room. As in \<open>Network\<close>, a step of a thread is one access to shared state
  with the local work around it.
\<close>

section \<open>The program\<close>

text \<open>\<open>Gen i\<close> is \<open>Ring_GenerateDatai\<close> and \<open>Ret i\<close> is \<open>Ring_RetriveDatai\<close>, for \<open>i\<close> from 1 to 8.\<close>

datatype m2_ring = Gen nat | Ret nat

datatype m2_thread = T_ReadData | T_Generate1 | T_Generate2 | T_Generate3 | T_Generate4 | T_Generate5
  | T_Generate6 | T_Generate7 | T_Retrive

lemma UNIV_m2_thread: "UNIV = {T_ReadData, T_Generate1, T_Generate2, T_Generate3, T_Generate4, T_Generate5,
  T_Generate6, T_Generate7, T_Retrive}"
  using m2_thread.exhaust by auto

instance m2_thread :: finite
  by standard (simp add: UNIV_m2_thread)

text \<open>Where a thread stands: at the test of \<open>while (!quit)\<close>; in \<open>FindEmptyRing\<close> at the \<open>k\<close>-th ring;
  before \<open>rte_pktmbuf_alloc\<close>, with the ring found; before the test of the ring whose turn it is, with
  the buffer; before the call that puts the buffer on a ring; before the call on its own ring; at
  work; at the \<open>k\<close>-th result ring; about to give a buffer back; at the test of the count; returned.\<close>

datatype m2_ctrl = AtHead | Find nat | Allocate nat | Place nat nat | Put nat nat | Own | Working nat
  | Poll nat | Giving nat | AtCount | Finished

record m2_net =
  pool2 :: "nat rte_mempool"
  store2 :: "nat \<Rightarrow> rte_mbuf"
  ring2 :: "m2_ring \<Rightarrow> nat rte_ring"
  stand :: "m2_thread \<Rightarrow> m2_ctrl"
  dis_count :: nat
  Retrive_DPDK_count :: nat
  quit2 :: bool

definition M2_NUM_MBUFS :: nat where
  "M2_NUM_MBUFS = 4095"

definition interval :: nat where
  "interval = 4"

definition RETRIVE_LIMIT :: nat where
  "RETRIVE_LIMIT = 100000"

definition m2_goto :: "m2_thread \<Rightarrow> m2_ctrl \<Rightarrow> m2_net \<Rightarrow> m2_net" where
  "m2_goto t c s = s\<lparr>stand := (stand s)(t := c)\<rparr>"

definition set_ring :: "m2_ring \<Rightarrow> nat rte_ring \<Rightarrow> m2_net \<Rightarrow> m2_net" where
  "set_ring r q s = s\<lparr>ring2 := (ring2 s)(r := q)\<rparr>"

definition set_buf :: "nat \<Rightarrow> rte_mbuf \<Rightarrow> m2_net \<Rightarrow> m2_net" where
  "set_buf m b s = s\<lparr>store2 := (store2 s)(m := b)\<rparr>"

text \<open>The calls of \<open>FindEmptyRing\<close>; 0 is the answer that all rings are full, after which the reader
  works on its own ring.\<close>

definition FindEmptyRing :: "nat \<Rightarrow> m2_net \<Rightarrow> m2_ctrl" where
  "FindEmptyRing k s = (if \<not> rte_ring_full (ring2 s (Gen k)) then Allocate k else if k < 8 then Find (k + 1) else Own)"

text \<open>The ring whose turn it is; 0 if there is none.\<close>

definition deal_ring :: "nat \<Rightarrow> nat" where
  "deal_ring d = (if d < interval then 1
     else if interval \<le> d \<and> d < interval * 2 then 2
     else if interval * 2 \<le> d \<and> d < interval * 3 then 3
     else if interval * 3 \<le> d \<and> d < interval * 4 then 4
     else if interval * 4 \<le> d \<and> d < interval * 5 then 5
     else if interval * 5 \<le> d \<and> d < interval * 6 then 6
     else if interval * 6 \<le> d \<and> d < interval * 7 then 7
     else if interval * 7 \<le> d \<and> d < interval * 8 then 8
     else 0)"

definition take_own :: "m2_thread \<Rightarrow> nat \<Rightarrow> m2_net \<Rightarrow> m2_net option" where
  "take_own t i s = map_option (\<lambda>(ret, m, q).
       m2_goto t (if 0 \<le> ret then Working m else AtHead) (set_ring (Gen i) q s))
     (rte_ring_dequeue 0 (ring2 s (Gen i)))"

text \<open>The work on a buffer; the result of \<open>rte_ring_enqueue\<close> is not looked at.\<close>

definition generate :: "transmitter \<Rightarrow> m2_thread \<Rightarrow> nat \<Rightarrow> nat \<Rightarrow> m2_net \<Rightarrow> m2_net option" where
  "generate P t i m s = Option.bind (all_stages P (store2 s m)) (\<lambda>b.
     map_option (\<lambda>(ret, q). m2_goto t AtHead (set_ring (Ret i) q (set_buf m b s)))
       (rte_ring_enqueue m (ring2 s (Ret i))))"

definition GenerateData_Loop :: "nat \<Rightarrow> m2_thread \<Rightarrow> transmitter \<Rightarrow> m2_net \<Rightarrow> m2_net option" where
  "GenerateData_Loop i t P s = (case stand s t of
       AtHead \<Rightarrow> Some (m2_goto t (if quit2 s then Finished else Own) s)
     | Own \<Rightarrow> take_own t i s
     | Working m \<Rightarrow> generate P t i m s
     | Finished \<Rightarrow> Some s
     | _ \<Rightarrow> None)"

definition read_buffer :: "transmitter \<Rightarrow> nat \<Rightarrow> m2_net \<Rightarrow> m2_net option" where
  "read_buffer P n s = Option.bind (rte_mempool_get 1 (pool2 s)) (\<lambda>(ret, xs, p).
     if ret < 0 then Some (m2_goto T_ReadData Own (s\<lparr>pool2 := p\<rparr>))
     else map_option (\<lambda>b. m2_goto T_ReadData (Place (hd xs) n) (set_buf (hd xs) b (s\<lparr>pool2 := p,
            dis_count := (if dis_count s + 1 = interval * 8 then 0 else dis_count s + 1)\<rparr>)))
          (read_P P (rte_pktmbuf_prepare (store2 s (hd xs)))))"

definition m2_ReadData_Loop :: "transmitter \<Rightarrow> m2_net \<Rightarrow> m2_net option" where
  "m2_ReadData_Loop P s = (case stand s T_ReadData of
       AtHead \<Rightarrow> Some (m2_goto T_ReadData (if quit2 s then Finished else Find 1) s)
     | Find k \<Rightarrow> Some (m2_goto T_ReadData (FindEmptyRing k s) s)
     | Allocate n \<Rightarrow> read_buffer P n s
     | Place m n \<Rightarrow> (let i = deal_ring (dis_count s)
         in Some (m2_goto T_ReadData
              (if i = 0 then AtHead else if \<not> rte_ring_full (ring2 s (Gen i)) then Put m i else Put m n) s))
     | Put m i \<Rightarrow> map_option (\<lambda>(ret, q). m2_goto T_ReadData AtHead (set_ring (Gen i) q s)) (rte_ring_enqueue m (ring2 s (Gen i)))
     | Own \<Rightarrow> take_own T_ReadData 8 s
     | Working m \<Rightarrow> generate P T_ReadData 8 m s
     | Finished \<Rightarrow> Some s
     | _ \<Rightarrow> None)"

definition Data_Retrive_Loop :: "m2_net \<Rightarrow> m2_net option" where
  "Data_Retrive_Loop s = (case stand s T_Retrive of
       AtHead \<Rightarrow> Some (m2_goto T_Retrive (if quit2 s then Finished else Poll 1) s)
     | Poll k \<Rightarrow> map_option (\<lambda>(ret, m, q).
           if 0 \<le> ret then m2_goto T_Retrive (Giving m) (set_ring (Ret k) q s\<lparr>Retrive_DPDK_count := Retrive_DPDK_count s + 1\<rparr>)
           else m2_goto T_Retrive (if k < 8 then Poll (k + 1) else AtHead) (set_ring (Ret k) q s))
         (rte_ring_dequeue 0 (ring2 s (Ret k)))
     | Giving m \<Rightarrow> map_option (\<lambda>p. m2_goto T_Retrive AtCount (s\<lparr>pool2 := p\<rparr>)) (rte_mempool_put m 9 (pool2 s))
     | AtCount \<Rightarrow> Some (m2_goto T_Retrive AtHead
         (if RETRIVE_LIMIT \<le> Retrive_DPDK_count s then s\<lparr>quit2 := True\<rparr> else s))
     | Finished \<Rightarrow> Some s
     | _ \<Rightarrow> None)"

text \<open>The functions launched on the cores 1 to 9.\<close>

fun own_ring :: "m2_thread \<Rightarrow> nat" where
  "own_ring T_Generate1 = 1" | "own_ring T_Generate2 = 2" | "own_ring T_Generate3 = 3" | "own_ring T_Generate4 = 4"
| "own_ring T_Generate5 = 5" | "own_ring T_Generate6 = 6" | "own_ring T_Generate7 = 7" | "own_ring t = 8"

definition m2_step :: "transmitter \<Rightarrow> m2_thread \<Rightarrow> m2_net \<Rightarrow> m2_net option" where
  "m2_step P t = (if t = T_ReadData then m2_ReadData_Loop P
     else if t = T_Retrive then Data_Retrive_Loop else GenerateData_Loop (own_ring t) t P)"

text \<open>\<open>main\<close>: the sixteen rings, then the pool. The code looks only at the first four rings of each
  kind to see whether they could be made; here a ring that could not is the end, too.\<close>

definition m2_rings :: "m2_ring set" where
  "m2_rings = Gen ` {1..8} \<union> Ret ` {1..8}"

definition m2_main :: "(m2_ring \<Rightarrow> nat list) \<Rightarrow> nat \<Rightarrow> nat \<Rightarrow> nat list \<Rightarrow> nat \<Rightarrow> nat \<Rightarrow> (nat \<Rightarrow> rte_mbuf) \<Rightarrow> m2_net option" where
  "m2_main js header trailer junk vaddr len store =
     (if \<exists>i \<in> {1..8}. \<exists>r \<in> {Gen i, Ret i}. rte_ring_create 256 (RING_F_SP_ENQ OR RING_F_SC_DEQ) (js r) = None then None
      else map_option (\<lambda>(mp, store1). \<lparr>pool2 = mp, store2 = store1,
          ring2 = (\<lambda>r. the (rte_ring_create 256 (RING_F_SP_ENQ OR RING_F_SC_DEQ) (js r))),
          stand = (\<lambda>t. AtHead), dis_count = 0, Retrive_DPDK_count = 0, quit2 = False\<rparr>)
        (rte_pktmbuf_pool_create M2_NUM_MBUFS MBUF_CACHE_SIZE BUF30 header trailer junk vaddr len store))"

section \<open>Where the buffers are\<close>

fun hand :: "m2_ctrl \<Rightarrow> nat multiset" where
  "hand (Place m n) = {#m#}"
| "hand (Put m i) = {#m#}"
| "hand (Working m) = {#m#}"
| "hand (Giving m) = {#m#}"
| "hand c = {#}"

definition m2_buffers :: "m2_net \<Rightarrow> nat multiset" where
  "m2_buffers s = pool_objs (pool2 s) + (\<Sum>r \<in> m2_rings. mset (queued (ring2 s r))) + (\<Sum>t \<in> UNIV. hand (stand s t))"

lemma m2_rings: "finite m2_rings" "1 \<le> i \<Longrightarrow> i \<le> 8 \<Longrightarrow> Gen i \<in> m2_rings \<and> Ret i \<in> m2_rings"
  by (auto simp: m2_rings_def)

lemma sum_update_on:
  fixes F :: "'i \<Rightarrow> 'q \<Rightarrow> 'c :: comm_monoid_add"
  assumes "finite A" "j \<in> A"
  shows "(\<Sum>i \<in> A. F i ((R(j := q)) i)) + F j (R j) = (\<Sum>i \<in> A. F i (R i)) + F j q"
proof -
  have "(\<Sum>i \<in> A. F i ((R(j := q)) i)) = F j q + (\<Sum>i \<in> A - {j}. F i (R i))"
    using assms by (simp add: sum.remove [of A j])
  moreover have "(\<Sum>i \<in> A. F i (R i)) = F j (R j) + (\<Sum>i \<in> A - {j}. F i (R i))"
    using assms by (simp add: sum.remove [of A j])
  ultimately show ?thesis by (simp add: ac_simps)
qed

lemmas m2_hand_update = sum_update [of "\<lambda>_. hand"]
lemmas m2_queue_update = sum_update_on [OF m2_rings(1), of _ "\<lambda>_ q. mset (queued q)"]

text \<open>A buffer that is in one place is in no other.\<close>

lemma apart:
  assumes "A + B \<subseteq># mset bs" "distinct bs" "m \<in># A"
  shows "m \<notin># B \<and> m \<in> set bs"
proof -
  have "count (A + B) m \<le> count (mset bs) m" using assms(1) by (rule mset_subset_eq_count)
  also have "count (mset bs) m \<le> 1" using assms(2) by (simp add: distinct_count_atmost_1)
  finally have "count (A + B) m \<le> 1" .
  moreover have "1 \<le> count A m" using assms(3) by (simp add: Suc_le_eq)
  ultimately have "count B m = 0" by (simp only: count_union)
  moreover have "m \<in># mset bs" using assms(1,3) by (meson mset_subset_eqD union_iff)
  ultimately show ?thesis by (simp add: not_in_iff)
qed

lemma m2_hand_unique:
  assumes "m2_buffers s \<subseteq># mset bs" "distinct bs" "m \<in># hand (stand s t)"
  shows "r \<in> m2_rings \<Longrightarrow> m \<notin> set (queued (ring2 s r))" "t' \<noteq> t \<Longrightarrow> m \<notin># hand (stand s t')" "m \<in> set bs"
proof -
  have s: "(\<Sum>t \<in> UNIV. hand (stand s t)) = hand (stand s t) + (\<Sum>t \<in> UNIV - {t}. hand (stand s t))"
    by (simp add: sum.remove [of UNIV t])
  have "hand (stand s t) + (pool_objs (pool2 s) + (\<Sum>r \<in> m2_rings. mset (queued (ring2 s r)))
      + (\<Sum>t \<in> UNIV - {t}. hand (stand s t))) \<subseteq># mset bs"
    using assms(1) unfolding m2_buffers_def s by (simp add: ac_simps)
  from apart [OF this assms(2,3)]
  have a: "m \<notin># (\<Sum>r \<in> m2_rings. mset (queued (ring2 s r)))" "m \<notin># (\<Sum>t \<in> UNIV - {t}. hand (stand s t))" "m \<in> set bs" by simp_all
  show "m \<in> set bs" by (rule a(3))
  show "r \<in> m2_rings \<Longrightarrow> m \<notin> set (queued (ring2 s r))" using a(1) m2_rings(1) by (auto simp: sum.remove [of m2_rings r])
  show "t' \<noteq> t \<Longrightarrow> m \<notin># hand (stand s t')" using a(2) by (auto simp: sum.remove [of "UNIV - {t}" t'])
qed

lemma m2_pool_unique:
  assumes "m2_buffers s \<subseteq># mset bs" "distinct bs" "m \<in># pool_objs (pool2 s)"
  shows "r \<in> m2_rings \<Longrightarrow> m \<notin> set (queued (ring2 s r))" "m \<notin># hand (stand s t)" "m \<in> set bs"
proof -
  have "pool_objs (pool2 s) + ((\<Sum>r \<in> m2_rings. mset (queued (ring2 s r))) + (\<Sum>t \<in> UNIV. hand (stand s t))) \<subseteq># mset bs"
    using assms(1) by (simp add: m2_buffers_def ac_simps)
  from apart [OF this assms(2,3)]
  have a: "m \<notin># (\<Sum>r \<in> m2_rings. mset (queued (ring2 s r)))" "m \<notin># (\<Sum>t \<in> UNIV. hand (stand s t))" "m \<in> set bs" by simp_all
  show "m \<in> set bs" by (rule a(3))
  show "r \<in> m2_rings \<Longrightarrow> m \<notin> set (queued (ring2 s r))" using a(1) m2_rings(1) by (auto simp: sum.remove [of m2_rings r])
  show "m \<notin># hand (stand s t)" using a(2) by (auto simp: sum.remove [of UNIV t])
qed

section \<open>The invariant\<close>

text \<open>\<open>C\<close> are the cores that use the pool.\<close>

definition pool_fine :: "nat set \<Rightarrow> nat \<Rightarrow> nat rte_mempool \<Rightarrow> bool" where
  "pool_fine C n p \<longleftrightarrow> pool_ok p \<and> mp_size p = n \<and> mp_cache_size p = MBUF_CACHE_SIZE \<and> mp_flags p AND MEMPOOL_F_SC_GET = 0
     \<and> (\<forall>l < RTE_MAX_LCORE. l \<notin> C \<longrightarrow> objs (local_cache p ! l) = [])"

definition rings_fine :: "(m2_ring \<Rightarrow> nat rte_ring) \<Rightarrow> bool" where
  "rings_fine q \<longleftrightarrow> (\<forall>r \<in> m2_rings. ring_ok (q r) \<and> capacity (q r) = 255)"

definition room :: "m2_net \<Rightarrow> nat \<Rightarrow> bool" where
  "room s i \<longleftrightarrow> 1 \<le> i \<and> i \<le> 8 \<and> length (queued (ring2 s (Gen i))) < 255"

fun ring_stage :: "m2_ring \<Rightarrow> stage" where
  "ring_stage (Gen i) = Read" | "ring_stage (Ret i) = Shifted"

definition ctl_fine :: "transmitter \<Rightarrow> m2_net \<Rightarrow> m2_thread \<Rightarrow> bool" where
  "ctl_fine P s t = (case stand s t of
       AtHead \<Rightarrow> True
     | Find k \<Rightarrow> t = T_ReadData \<and> 1 \<le> k \<and> k \<le> 8
     | Allocate n \<Rightarrow> t = T_ReadData \<and> room s n
     | Place m n \<Rightarrow> t = T_ReadData \<and> room s n \<and> holds OFF15 P Read (store2 s m)
     | Put m i \<Rightarrow> t = T_ReadData \<and> room s i \<and> holds OFF15 P Read (store2 s m)
     | Own \<Rightarrow> t \<noteq> T_Retrive
     | Working m \<Rightarrow> t \<noteq> T_Retrive \<and> holds OFF15 P Read (store2 s m)
     | Poll k \<Rightarrow> t = T_Retrive \<and> 1 \<le> k \<and> k \<le> 8 \<and> \<not> quit2 s
     | Giving m \<Rightarrow> t = T_Retrive \<and> holds OFF15 P Shifted (store2 s m) \<and> \<not> quit2 s
     | AtCount \<Rightarrow> t = T_Retrive \<and> \<not> quit2 s
     | Finished \<Rightarrow> quit2 s)"

definition giving :: "m2_ctrl \<Rightarrow> bool" where
  "giving c \<longleftrightarrow> (case c of Giving m \<Rightarrow> True | AtCount \<Rightarrow> True | _ \<Rightarrow> False)"

definition counts_fine :: "m2_net \<Rightarrow> bool" where
  "counts_fine s \<longleftrightarrow> Retrive_DPDK_count s \<le> RETRIVE_LIMIT \<and> (quit2 s \<longrightarrow> Retrive_DPDK_count s = RETRIVE_LIMIT)
     \<and> (Retrive_DPDK_count s = RETRIVE_LIMIT \<longrightarrow> quit2 s \<or> giving (stand s T_Retrive))"

definition m2_good :: "transmitter \<Rightarrow> nat set \<Rightarrow> nat list \<Rightarrow> m2_net \<Rightarrow> bool" where
  "m2_good P C bs s \<longleftrightarrow> distinct bs \<and> pool_fine C (length bs) (pool2 s) \<and> rings_fine (ring2 s)
     \<and> m2_buffers s \<subseteq># mset bs \<and> 255 \<le> size (m2_buffers s)
     \<and> (\<forall>m \<in> set bs. holds OFF15 P Fresh (store2 s m))
     \<and> (\<forall>r \<in> m2_rings. \<forall>m \<in> set (queued (ring2 s r)). holds OFF15 P (ring_stage r) (store2 s m))
     \<and> (\<forall>t. ctl_fine P s t) \<and> dis_count s < 32 \<and> counts_fine s"

lemma m2_goodD:
  assumes "m2_good P C bs s"
  shows "distinct bs" "pool_fine C (length bs) (pool2 s)" "rings_fine (ring2 s)" "m2_buffers s \<subseteq># mset bs"
    "255 \<le> size (m2_buffers s)" "m \<in> set bs \<Longrightarrow> holds OFF15 P Fresh (store2 s m)"
    "r \<in> m2_rings \<Longrightarrow> m \<in> set (queued (ring2 s r)) \<Longrightarrow> holds OFF15 P (ring_stage r) (store2 s m)"
    "ctl_fine P s t" "dis_count s < 32" "counts_fine s" "r \<in> m2_rings \<Longrightarrow> ring_ok (ring2 s r)"
    "r \<in> m2_rings \<Longrightarrow> capacity (ring2 s r) = 255"
  using assms by (simp_all add: m2_good_def rings_fine_def)

lemma m2_upd_simps [simp]:
  "pool2 (m2_goto t c s) = pool2 s" "store2 (m2_goto t c s) = store2 s" "ring2 (m2_goto t c s) = ring2 s"
  "stand (m2_goto t c s) = (stand s)(t := c)" "dis_count (m2_goto t c s) = dis_count s"
  "Retrive_DPDK_count (m2_goto t c s) = Retrive_DPDK_count s" "quit2 (m2_goto t c s) = quit2 s"
  "pool2 (set_ring r q s) = pool2 s" "store2 (set_ring r q s) = store2 s" "ring2 (set_ring r q s) = (ring2 s)(r := q)"
  "stand (set_ring r q s) = stand s" "dis_count (set_ring r q s) = dis_count s"
  "Retrive_DPDK_count (set_ring r q s) = Retrive_DPDK_count s" "quit2 (set_ring r q s) = quit2 s"
  "pool2 (set_buf m b s) = pool2 s" "store2 (set_buf m b s) = (store2 s)(m := b)" "ring2 (set_buf m b s) = ring2 s"
  "stand (set_buf m b s) = stand s" "dis_count (set_buf m b s) = dis_count s"
  "Retrive_DPDK_count (set_buf m b s) = Retrive_DPDK_count s" "quit2 (set_buf m b s) = quit2 s"
  by (simp_all add: m2_goto_def set_ring_def set_buf_def)

text \<open>The shared part of every case: one thread moves.\<close>

lemma m2_move:
  assumes "m2_good P C bs s" "pool_fine C (length bs) (pool2 s')" "rings_fine (ring2 s')"
    and "m2_buffers s' \<subseteq># mset bs" "255 \<le> size (m2_buffers s')"
    and "\<And>m. m \<in> set bs \<Longrightarrow> holds OFF15 P Fresh (store2 s' m)"
    and "\<And>r m. r \<in> m2_rings \<Longrightarrow> m \<in> set (queued (ring2 s' r)) \<Longrightarrow> holds OFF15 P (ring_stage r) (store2 s' m)"
    and "\<And>u. u \<noteq> t \<Longrightarrow> stand s' u = stand s u" "\<And>u m. u \<noteq> t \<Longrightarrow> m \<in># hand (stand s u) \<Longrightarrow> store2 s' m = store2 s m"
    and "\<And>i. t \<noteq> T_ReadData \<Longrightarrow> room s i \<Longrightarrow> room s' i"
    and "ctl_fine P s' t" "dis_count s' < 32" "counts_fine s'" "quit2 s' = quit2 s \<or> t = T_Retrive \<and> quit2 s'"
  shows "m2_good P C bs s'"
proof -
  have "ctl_fine P s' u" for u
  proof (cases "u = t")
    case False
    then show ?thesis using m2_goodD(8) [OF assms(1), of u] assms(8-10,14)
      by (cases "stand s u") (auto simp: ctl_fine_def)
  qed (use assms(11) in simp)
  then show ?thesis using assms m2_goodD(1) [OF assms(1)] by (simp add: m2_good_def)
qed

lemma m2_good_control:
  assumes "m2_good P C bs s" "hand c = hand (stand s t)" "ctl_fine P (m2_goto t c s) t" "t = T_Retrive \<Longrightarrow> giving (stand s t) \<Longrightarrow> giving c"
  shows "m2_good P C bs (m2_goto t c s)"
proof -
  note g = m2_goodD [OF assms(1)]
  have b: "m2_buffers (m2_goto t c s) = m2_buffers s"
    using m2_hand_update [of "stand s" t c] assms(2) by (simp add: m2_buffers_def)
  have "counts_fine (m2_goto t c s)" using g(10) assms(4) by (auto simp: counts_fine_def)
  then show ?thesis
    by (intro m2_move [OF assms(1), where t = t]) (use g assms(3) b in \<open>auto simp: room_def\<close>)
qed

lemma ring_changed:
  assumes "r \<in> m2_rings"
  shows "m2_buffers (m2_goto t c (set_ring r q s)) + mset (queued (ring2 s r)) + hand (stand s t)
    = m2_buffers s + mset (queued q) + hand c"
proof -
  let ?X = "\<lambda>R. \<Sum>r \<in> m2_rings. mset (queued (R r))" and ?Y = "\<lambda>T. \<Sum>t \<in> UNIV. hand (T t)"
  have "m2_buffers (m2_goto t c (set_ring r q s)) + mset (queued (ring2 s r)) + hand (stand s t)
    = pool_objs (pool2 s) + (?X ((ring2 s)(r := q)) + mset (queued (ring2 s r))) + (?Y ((stand s)(t := c)) + hand (stand s t))"
    unfolding m2_buffers_def m2_upd_simps by (simp only: ac_simps)
  also have "\<dots> = pool_objs (pool2 s) + (?X (ring2 s) + mset (queued q)) + (?Y (stand s) + hand c)"
    by (simp only: m2_hand_update m2_queue_update [OF assms])
  also have "\<dots> = m2_buffers s + mset (queued q) + hand c" unfolding m2_buffers_def by (simp only: ac_simps)
  finally show ?thesis .
qed

lemma rings_fine_set: "rings_fine R \<Longrightarrow> ring_ok q \<Longrightarrow> capacity q = 255 \<Longrightarrow> rings_fine (R(r := q))"
  by (simp add: rings_fine_def)

text \<open>A buffer comes off a ring.\<close>

lemma m2_good_take:
  assumes "m2_good P C bs s" "r \<in> m2_rings" "hand (stand s t) = {#}" "queued (ring2 s r) = m # queued q" "ring_ok q" "capacity q = 255"
    and "c = (case r of Gen i \<Rightarrow> Working m | Ret i \<Rightarrow> Giving m)" "t = T_Retrive \<longleftrightarrow> (\<exists>i. r = Ret i)"
    and "t = T_Retrive \<Longrightarrow> \<not> quit2 s \<and> Retrive_DPDK_count s < RETRIVE_LIMIT"
  defines "n \<equiv> (if t = T_Retrive then Retrive_DPDK_count s + 1 else Retrive_DPDK_count s)"
  shows "m2_good P C bs (m2_goto t c (set_ring r q s\<lparr>Retrive_DPDK_count := n\<rparr>))" (is "m2_good P C bs ?s")
proof -
  note g = m2_goodD [OF assms(1)]
  have "m2_buffers ?s = m2_buffers (m2_goto t c (set_ring r q s))" by (simp add: m2_buffers_def)
  then have b: "m2_buffers ?s = m2_buffers s"
    using ring_changed [OF assms(2), of t c q s] unfolding assms(3,4,7) by (cases r) simp_all
  have h: "holds OFF15 P (ring_stage r) (store2 s m)" using g(7) [OF assms(2), of m] assms(4) by simp
  have "set (queued q) \<subseteq> set (queued (ring2 s r))" unfolding assms(4) by auto
  then have rings: "holds OFF15 P (ring_stage r') (store2 s m')" if "r' \<in> m2_rings" "m' \<in> set (queued (((ring2 s)(r := q)) r'))" for r' m'
    using g(7) [OF that(1), of m'] that by (auto split: if_splits)
  have room: "room s i \<Longrightarrow> room ?s i" for i
    using assms(4) by (cases "r = Gen i") (auto simp: room_def)
  show ?thesis
  proof (rule m2_move [OF assms(1), where t = t])
    show "ctl_fine P ?s t" using assms(7-9) h by (cases r) (auto simp: ctl_fine_def)
    show "counts_fine ?s" using g(10) assms(7-9) by (cases r) (auto simp: counts_fine_def n_def giving_def)
  qed (use g rings room b rings_fine_set [OF g(3) assms(5,6)] in auto)
qed

text \<open>A buffer comes from the pool, and is filled.\<close>

lemma m2_good_alloc:
  assumes "m2_good P C bs s" "stand s T_ReadData = Allocate n" "pool_fine C (length bs) p"
    and "pool_objs (pool2 s) = add_mset m (pool_objs p)" "holds OFF15 P Read b" "d < 32"
  shows "m2_good P C bs (m2_goto T_ReadData (Place m n) (set_buf m b (s\<lparr>pool2 := p, dis_count := d\<rparr>)))" (is "m2_good P C bs ?s")
proof -
  note g = m2_goodD [OF assms(1)]
  have "m \<in># pool_objs (pool2 s)" using assms(4) by simp
  note u = m2_pool_unique [OF g(4,1) this]
  have b: "m2_buffers ?s = m2_buffers s"
    using m2_hand_update [of "stand s" T_ReadData "Place m n"] assms(2,4) by (simp add: m2_buffers_def ac_simps)
  have rings: "holds OFF15 P (ring_stage r) (store2 ?s m')" if "r \<in> m2_rings" "m' \<in> set (queued (ring2 ?s r))" for r m'
    using g(7) [OF that(1), of m'] u(1) [OF that(1)] that(2) by auto
  have "ctl_fine P s T_ReadData" by (rule g)
  then have ctl: "ctl_fine P ?s T_ReadData" using assms(2,5) by (simp add: ctl_fine_def room_def)
  have count: "counts_fine ?s" using g(10) by (simp add: counts_fine_def)
  show ?thesis
  proof (rule m2_move [OF assms(1), where t = T_ReadData])
    show "holds OFF15 P (ring_stage r) (store2 ?s m')" if "r \<in> m2_rings" "m' \<in> set (queued (ring2 ?s r))" for r m'
      by (rule rings [OF that])
    show "holds OFF15 P Fresh (store2 ?s m')" if "m' \<in> set bs" for m' using g(6) [OF that] holds_fresh [OF assms(5)] by simp
    show "store2 ?s m' = store2 s m'" if "m' \<in># hand (stand s t')" for t' m' using u(2) [of t'] that by auto
  qed (use g b ctl count assms(3,6) in auto)
qed

text \<open>The reader puts its buffer on a ring with room.\<close>

lemma m2_good_put:
  assumes "m2_good P C bs s" "stand s T_ReadData = Put m i" "queued q = queued (ring2 s (Gen i)) @ [m]" "ring_ok q" "capacity q = 255"
  shows "m2_good P C bs (m2_goto T_ReadData AtHead (set_ring (Gen i) q s))" (is "m2_good P C bs ?s")
proof -
  note g = m2_goodD [OF assms(1)]
  have c: "room s i" "holds OFF15 P Read (store2 s m)" using g(8) [of T_ReadData] assms(2) by (simp_all add: ctl_fine_def)
  then have r: "Gen i \<in> m2_rings" using m2_rings(2) by (simp add: room_def)
  have b: "m2_buffers ?s = m2_buffers s"
    using ring_changed [OF r, of T_ReadData AtHead q s] unfolding assms(2,3) by simp
  have rings: "holds OFF15 P (ring_stage r') (store2 ?s m')" if "r' \<in> m2_rings" "m' \<in> set (queued (ring2 ?s r'))" for r' m'
    using g(7) [OF that(1), of m'] that(2) c(2) assms(3) by (auto split: if_splits)
  have count: "counts_fine ?s" using g(10) by (simp add: counts_fine_def)
  show ?thesis
    by (rule m2_move [OF assms(1), where t = T_ReadData])
      (use g b rings count rings_fine_set [OF g(3) assms(4,5)] in \<open>auto simp: ctl_fine_def\<close>)
qed

text \<open>A worked buffer goes on a result ring, or is lost when that is full; then 255 are left.\<close>

lemma m2_good_generate:
  assumes "m2_good P C bs s" "stand s t = Working m" "1 \<le> i" "i \<le> 8" "holds OFF15 P Shifted b" "ring_ok q" "capacity q = 255"
    and "queued q = queued (ring2 s (Ret i)) @ [m] \<or> queued q = queued (ring2 s (Ret i)) \<and> length (queued q) = 255"
  shows "m2_good P C bs (m2_goto t AtHead (set_ring (Ret i) q (set_buf m b s)))" (is "m2_good P C bs ?s")
proof -
  note g = m2_goodD [OF assms(1)]
  have t: "t \<noteq> T_Retrive" using g(8) [of t] assms(2) by (simp add: ctl_fine_def)
  have r: "Ret i \<in> m2_rings" using m2_rings(2) assms(3,4) by simp
  have "m \<in># hand (stand s t)" using assms(2) by simp
  note u = m2_hand_unique [OF g(4,1) this]
  have e: "m2_buffers ?s + mset (queued (ring2 s (Ret i))) + {#m#} = m2_buffers s + mset (queued q)"
    using ring_changed [OF r, of t AtHead q "set_buf m b s"] assms(2) by (simp add: m2_buffers_def)
  have b: "m2_buffers ?s \<subseteq># m2_buffers s \<and> 255 \<le> size (m2_buffers ?s)"
    using assms(8)
  proof
    assume "queued q = queued (ring2 s (Ret i)) @ [m]"
    then have "m2_buffers ?s = m2_buffers s" using e by simp
    then show ?thesis using g(5) by simp
  next
    assume q: "queued q = queued (ring2 s (Ret i)) \<and> length (queued q) = 255"
    then have "add_mset m (m2_buffers ?s) = m2_buffers s" using e by simp
    then have "m2_buffers ?s \<subseteq># m2_buffers s" by (metis add_mset_add_single mset_subset_eq_add_left)
    moreover have "mset (queued (ring2 ?s (Ret i))) \<subseteq># m2_buffers ?s"
      using r m2_rings(1) by (simp add: m2_buffers_def sum.remove [of m2_rings "Ret i"])
    then have "255 \<le> size (m2_buffers ?s)" using q size_mset_mono by fastforce
    ultimately show ?thesis by blast
  qed
  have rings: "holds OFF15 P (ring_stage r') (store2 ?s m')" if "r' \<in> m2_rings" "m' \<in> set (queued (ring2 ?s r'))" for r' m'
  proof (cases "m' = m")
    case True
    then have "r' = Ret i" using u(1) [OF that(1)] that(2) by (auto split: if_splits)
    then show ?thesis using True assms(5) by simp
  next
    case False
    then show ?thesis using g(7) [OF that(1), of m'] that(2) assms(8) by (auto split: if_splits)
  qed
  have count: "counts_fine ?s" using g(10) t by (simp add: counts_fine_def)
  show ?thesis
  proof (rule m2_move [OF assms(1), where t = t])
    show "holds OFF15 P (ring_stage r') (store2 ?s m')" if "r' \<in> m2_rings" "m' \<in> set (queued (ring2 ?s r'))" for r' m'
      by (rule rings [OF that])
    show "holds OFF15 P Fresh (store2 ?s m')" if "m' \<in> set bs" for m' using g(6) [OF that] holds_fresh [OF assms(5)] by simp
    show "store2 ?s m' = store2 s m'" if "t' \<noteq> t" "m' \<in># hand (stand s t')" for t' m' using u(2) [OF that(1)] that(2) by auto
    show "m2_buffers ?s \<subseteq># mset bs" using b g(4) by (meson subset_mset.order_trans)
  qed (use g b count rings_fine_set [OF g(3) assms(6,7)] in \<open>auto simp: ctl_fine_def room_def\<close>)
qed

text \<open>A buffer goes back to the pool.\<close>

lemma m2_good_give:
  assumes "m2_good P C bs s" "stand s T_Retrive = Giving m" "pool_fine C (length bs) p" "pool_objs p = add_mset m (pool_objs (pool2 s))"
  shows "m2_good P C bs (m2_goto T_Retrive AtCount (s\<lparr>pool2 := p\<rparr>))" (is "m2_good P C bs ?s")
proof -
  note g = m2_goodD [OF assms(1)]
  have b: "m2_buffers ?s = m2_buffers s"
    using m2_hand_update [of "stand s" T_Retrive AtCount] assms(2) by (simp add: m2_buffers_def assms(4))
  have c: "ctl_fine P ?s T_Retrive" using g(8) [of T_Retrive] assms(2) by (simp add: ctl_fine_def)
  have n: "counts_fine ?s" using g(10) by (auto simp: counts_fine_def giving_def)
  show ?thesis
    by (rule m2_move [OF assms(1), where t = T_Retrive]) (use g b c n assms(3) in \<open>auto simp: room_def\<close>)
qed

lemma m2_good_count:
  assumes "m2_good P C bs s" "stand s T_Retrive = AtCount"
  shows "m2_good P C bs (m2_goto T_Retrive AtHead (if RETRIVE_LIMIT \<le> Retrive_DPDK_count s then s\<lparr>quit2 := True\<rparr> else s))"
    (is "m2_good P C bs ?s")
proof -
  note g = m2_goodD [OF assms(1)]
  let ?x = "if RETRIVE_LIMIT \<le> Retrive_DPDK_count s then s\<lparr>quit2 := True\<rparr> else s"
  have e: "pool2 ?x = pool2 s" "store2 ?x = store2 s" "ring2 ?x = ring2 s" "stand ?x = stand s" "dis_count ?x = dis_count s" by simp_all
  have b: "m2_buffers ?s = m2_buffers s"
    using m2_hand_update [of "stand s" T_Retrive AtHead] assms(2) unfolding m2_buffers_def m2_upd_simps e by simp
  have n: "counts_fine ?s" using g(10) by (auto simp: counts_fine_def)
  have c: "ctl_fine P ?s T_Retrive" by (simp add: ctl_fine_def)
  have q: "quit2 ?s = quit2 s \<or> T_Retrive = T_Retrive \<and> quit2 ?s" by simp
  show ?thesis
    by (rule m2_move [OF assms(1), where t = T_Retrive, OF _ _ _ _ _ _ _ _ _ c _ n q])
      (unfold b, use g in \<open>simp_all only: m2_upd_simps e fun_upd_apply if_False room_def\<close>)
qed

section \<open>Progress\<close>

text \<open>Whether the reader will get a buffer from the pool, and whether a thread has something to do.\<close>

definition can_alloc :: "m2_net \<Rightarrow> bool" where
  "can_alloc s \<longleftrightarrow> queued (pool_data (pool2 s)) \<noteq> [] \<or> objs (local_cache (pool2 s) ! 1) \<noteq> []"

definition m2_supplied :: "m2_thread \<Rightarrow> m2_net \<Rightarrow> bool" where
  "m2_supplied t s \<longleftrightarrow> (if t = T_Retrive then \<exists>k \<in> {1..8}. queued (ring2 s (Ret k)) \<noteq> []
     else queued (ring2 s (Gen (own_ring t))) \<noteq> [] \<or> t = T_ReadData \<and> can_alloc s)"

definition busy :: "m2_ctrl \<Rightarrow> bool" where
  "busy c \<longleftrightarrow> hand c \<noteq> {#} \<or> c = AtCount"

definition m2_ready :: "m2_thread \<Rightarrow> m2_net \<Rightarrow> bool" where
  "m2_ready t s \<longleftrightarrow> busy (stand s t) \<or> stand s t \<noteq> Finished \<and> (quit2 s \<or> m2_supplied t s)"

fun m2_hand_weight :: "m2_ctrl \<Rightarrow> nat" where
  "m2_hand_weight (Place m n) = 7" | "m2_hand_weight (Put m i) = 6" | "m2_hand_weight (Working m) = 4"
| "m2_hand_weight (Giving m) = 10" | "m2_hand_weight AtCount = 1" | "m2_hand_weight c = 0"

fun m2_ring_weight :: "m2_ring \<Rightarrow> nat" where
  "m2_ring_weight (Gen i) = 5" | "m2_ring_weight (Ret i) = 3"

definition m2_weight :: "m2_net \<Rightarrow> nat" where
  "m2_weight s = 8 * size (pool_objs (pool2 s)) + (\<Sum>r \<in> m2_rings. m2_ring_weight r * length (queued (ring2 s r)))
     + (\<Sum>t \<in> UNIV. m2_hand_weight (stand s t))"

text \<open>Steps to the test of \<open>quit\<close>, and steps until a thread that is supplied gets a buffer.\<close>

fun steps_quit :: "m2_ctrl \<Rightarrow> nat" where
  "steps_quit AtHead = 1" | "steps_quit Own = 2" | "steps_quit (Allocate n) = 3" | "steps_quit (Find k) = 12 - k"
| "steps_quit (Poll k) = 10 - k" | "steps_quit c = 0"

definition steps_supplied :: "m2_thread \<Rightarrow> m2_net \<Rightarrow> m2_ctrl \<Rightarrow> nat" where
  "steps_supplied t s c =
     (if t = T_Retrive then (case c of
         AtHead \<Rightarrow> 9
       | Poll k \<Rightarrow> if \<exists>j \<in> {k..8}. queued (ring2 s (Ret j)) \<noteq> [] then 9 - k else 18 - k
       | _ \<Rightarrow> 0)
      else if t = T_ReadData then (case c of
         AtHead \<Rightarrow> 11
       | Find k \<Rightarrow> 11 - k
       | Allocate n \<Rightarrow> 2
       | Own \<Rightarrow> if queued (ring2 s (Gen 8)) \<noteq> [] then 1 else 12
       | _ \<Rightarrow> 0)
      else (case c of AtHead \<Rightarrow> 2 | Own \<Rightarrow> 1 | _ \<Rightarrow> 0))"

definition m2_distance :: "m2_net \<Rightarrow> m2_thread \<Rightarrow> nat" where
  "m2_distance s t = (if quit2 s then steps_quit (stand s t) else if m2_supplied t s then steps_supplied t s (stand s t) else 0)"

definition m2_rank :: "m2_net \<Rightarrow> nat \<times> nat \<times> nat" where
  "m2_rank s = (RETRIVE_LIMIT - Retrive_DPDK_count s, m2_weight s, \<Sum>t \<in> UNIV. m2_distance s t)"

text \<open>What a step must do.\<close>

definition m2_ok :: "transmitter \<Rightarrow> nat set \<Rightarrow> nat list \<Rightarrow> m2_thread \<Rightarrow> m2_net \<Rightarrow> m2_net option \<Rightarrow> bool" where
  "m2_ok P C bs t s res \<longleftrightarrow> (\<exists>s'. res = Some s' \<and> m2_good P C bs s'
     \<and> (if m2_ready t s then (m2_rank s', m2_rank s) \<in> below
        else m2_rank s' = m2_rank s \<and> (\<forall>u. m2_ready u s' = m2_ready u s)))"

lemma m2_supplied_goto [simp]: "m2_supplied u (m2_goto t c s) = m2_supplied u s"
  by (simp add: m2_supplied_def can_alloc_def)

lemma steps_supplied_goto [simp]: "steps_supplied u (m2_goto t c s) d = steps_supplied u s d"
  by (cases d) (simp_all add: steps_supplied_def)

lemma goto_other:
  "u \<noteq> t \<Longrightarrow> m2_distance (m2_goto t c s) u = m2_distance s u" "u \<noteq> t \<Longrightarrow> m2_ready u (m2_goto t c s) = m2_ready u s"
  by (simp_all add: m2_distance_def m2_ready_def)

lemma m2_distance_split:
  "(\<Sum>u \<in> UNIV. m2_distance (m2_goto t c s) u) + m2_distance s t = (\<Sum>u \<in> UNIV. m2_distance s u) + m2_distance (m2_goto t c s) t"
proof -
  have "(\<Sum>u \<in> UNIV - {t}. m2_distance (m2_goto t c s) u) = (\<Sum>u \<in> UNIV - {t}. m2_distance s u)"
    by (rule sum.cong) (simp_all add: goto_other)
  then show ?thesis by (simp add: sum.remove [of UNIV t])
qed

lemma idle_weight: "\<not> busy c \<Longrightarrow> m2_hand_weight c = 0"
  by (cases c) (simp_all add: busy_def)

lemma m2_weight_goto: "m2_weight (m2_goto t c s) + m2_hand_weight (stand s t) = m2_weight s + m2_hand_weight c"
  using sum_update [of "\<lambda>_. m2_hand_weight" "stand s" t c] by (simp add: m2_weight_def)

text \<open>A step that only moves control, between places without a buffer.\<close>

lemma m2_control:
  assumes "m2_good P C bs s" "\<not> busy (stand s t)" "\<not> busy c" "ctl_fine P (m2_goto t c s) t"
    and "m2_ready t s \<Longrightarrow> m2_distance (m2_goto t c s) t < m2_distance s t"
    and "\<not> m2_ready t s \<Longrightarrow> (c = Finished \<longleftrightarrow> stand s t = Finished) \<and> (quit2 s \<longrightarrow> c = Finished)"
  shows "m2_ok P C bs t s (Some (m2_goto t c s))"
proof -
  have h: "hand c = hand (stand s t)" "\<not> giving (stand s t)"
    using assms(2,3) by (cases "stand s t"; simp add: busy_def giving_def)+
  have good: "m2_good P C bs (m2_goto t c s)"
    by (rule m2_good_control [OF assms(1) h(1) assms(4)]) (use h(2) in simp)
  have w: "m2_weight (m2_goto t c s) = m2_weight s"
    using m2_weight_goto [of t c s] idle_weight [OF assms(2)] idle_weight [OF assms(3)] by simp
  show ?thesis
  proof (cases "m2_ready t s")
    case True
    then have "(m2_rank (m2_goto t c s), m2_rank s) \<in> below"
      using assms(5) m2_distance_split [of t c s] by (simp add: m2_rank_def below_def w)
    then show ?thesis using good True by (simp add: m2_ok_def)
  next
    case False
    then have c: "c = Finished \<longleftrightarrow> stand s t = Finished" "quit2 s \<longrightarrow> c = Finished" using assms(6) by simp_all
    then have "m2_distance (m2_goto t c s) t = 0" "m2_distance s t = 0"
      using False assms(2) by (auto simp: m2_distance_def m2_ready_def steps_supplied_def)
    then have "m2_rank (m2_goto t c s) = m2_rank s"
      using m2_distance_split [of t c s] by (simp add: m2_rank_def w)
    moreover have "m2_ready u (m2_goto t c s) = m2_ready u s" for u
    proof (cases "u = t")
      case True
      then show ?thesis using c assms(2,3) by (auto simp: m2_ready_def)
    qed (simp add: goto_other)
    ultimately show ?thesis using good False by (simp add: m2_ok_def)
  qed
qed

text \<open>A step that moves a buffer on.\<close>

lemma m2_moved:
  assumes "m2_good P C bs s'" "m2_ready t s" "Retrive_DPDK_count s' = Retrive_DPDK_count s" "m2_weight s' < m2_weight s"
  shows "m2_ok P C bs t s (Some s')"
  using assms by (simp add: m2_ok_def m2_rank_def below_def)

lemma m2_weight_move:
  assumes "r \<in> m2_rings" "ring2 s' = (ring2 s)(r := q)" "stand s' = (stand s)(t := c)"
  shows "m2_weight s' + 8 * size (pool_objs (pool2 s)) + m2_ring_weight r * length (queued (ring2 s r)) + m2_hand_weight (stand s t)
    = m2_weight s + 8 * size (pool_objs (pool2 s')) + m2_ring_weight r * length (queued q) + m2_hand_weight c"
  using sum_update [of "\<lambda>_. m2_hand_weight" "stand s" t c]
    sum_update_on [OF m2_rings(1) assms(1), of "\<lambda>r q. m2_ring_weight r * length (queued q)" "ring2 s" q]
  unfolding m2_weight_def assms(2,3) by linarith

section \<open>The steps\<close>

lemma set_ring_same [simp]: "set_ring r (ring2 s r) s = s"
  by (simp add: set_ring_def)

lemma own_ring_range: "1 \<le> own_ring t \<and> own_ring t \<le> 8"
  by (cases t) simp_all

lemma own_rings: "Gen (own_ring t) \<in> m2_rings" "Ret (own_ring t) \<in> m2_rings"
  using m2_rings(2) own_ring_range by blast+

lemma head_ok:
  assumes "m2_good P C bs s" "stand s t = AtHead" "c = (if t = T_ReadData then Find 1 else if t = T_Retrive then Poll 1 else Own)"
  shows "m2_ok P C bs t s (Some (m2_goto t (if quit2 s then Finished else c) s))"
proof (rule m2_control [OF assms(1)])
  show "ctl_fine P (m2_goto t (if quit2 s then Finished else c) s) t" using assms(3) by (auto simp: ctl_fine_def)
  show "m2_distance (m2_goto t (if quit2 s then Finished else c) s) t < m2_distance s t" if "m2_ready t s"
    using that assms(2,3)
    by (auto simp: m2_ready_def m2_distance_def steps_supplied_def busy_def m2_supplied_def Suc_le_eq)
qed (use assms(2,3) in \<open>auto simp: busy_def m2_ready_def\<close>)

lemma take_own_ok:
  assumes "m2_good P C bs s" "stand s t = Own"
  shows "m2_ok P C bs t s (take_own t (own_ring t) s)"
proof -
  note g = m2_goodD [OF assms(1)]
  let ?r = "Gen (own_ring t)"
  have t: "t \<noteq> T_Retrive" using g(8) [of t] assms(2) by (simp add: ctl_fine_def)
  show ?thesis
  proof (cases rule: ring.deq_cases [OF g(11) [OF own_rings(1) [of t]], of 0])
    case (1 m q)
    let ?s = "m2_goto t (Working m) (set_ring ?r q s)"
    have e: "set_ring ?r q s\<lparr>Retrive_DPDK_count := Retrive_DPDK_count s\<rparr> = set_ring ?r q s" by (simp add: set_ring_def)
    have "m2_good P C bs (m2_goto t (Working m) (set_ring ?r q s\<lparr>Retrive_DPDK_count := Retrive_DPDK_count s\<rparr>))"
      using m2_good_take [OF assms(1) own_rings(1) _ 1(1,3), of t "Working m"] 1(4) g(12) [OF own_rings(1)] t assms(2) by simp
    then have "m2_good P C bs ?s" unfolding e .
    moreover have "m2_weight ?s < m2_weight s"
      using m2_weight_move [OF own_rings(1) [of t], of ?s s q t "Working m"] 1(1) assms(2) by simp
    moreover have "m2_ready t s" using 1(1) t assms(2) by (simp add: m2_ready_def m2_supplied_def)
    ultimately show ?thesis using m2_moved [of P C bs ?s t s] 1(2) by (simp add: take_own_def)
  next
    case 2
    have "m2_ok P C bs t s (Some (m2_goto t AtHead s))"
    proof (rule m2_control [OF assms(1)])
      show "m2_distance (m2_goto t AtHead s) t < m2_distance s t" if "m2_ready t s"
        using that 2(1) t assms(2) by (auto simp: m2_ready_def m2_distance_def steps_supplied_def busy_def m2_supplied_def)
    qed (use assms(2) in \<open>auto simp: busy_def ctl_fine_def m2_ready_def\<close>)
    then show ?thesis using 2(2) by (simp add: take_own_def ENOENT_def)
  qed
qed

lemma generate_ok:
  assumes "m2_good P C bs s" "setup_ok P" "stand s t = Working m"
  shows "m2_ok P C bs t s (generate P t (own_ring t) m s)"
proof -
  note g = m2_goodD [OF assms(1)]
  let ?r = "Ret (own_ring t)"
  have "holds OFF15 P Read (store2 s m)" using g(8) [of t] assms(3) by (simp add: ctl_fine_def)
  then obtain b where b: "all_stages P (store2 s m) = Some b" "holds OFF15 P Shifted b" using all_stages_run [OF assms(2)] by blast
  obtain ret q where q: "rte_ring_enqueue m (ring2 s ?r) = Some (ret, q)" "ring_ok q" "capacity q = 255"
    "queued q = queued (ring2 s ?r) @ [m] \<or> queued q = queued (ring2 s ?r) \<and> length (queued q) = 255"
    using g(11,12) [OF own_rings(2) [of t]] by (cases rule: ring.enq_cases [OF g(11) [OF own_rings(2) [of t]], of m]) auto
  let ?s = "m2_goto t AtHead (set_ring ?r q (set_buf m b s))"
  have "m2_good P C bs ?s"
    using m2_good_generate [OF assms(1,3) _ _ b(2) q(2-4)] own_ring_range by blast
  moreover have "m2_weight ?s < m2_weight s"
    using m2_weight_move [OF own_rings(2) [of t], of ?s s q t AtHead] q(4) assms(3) by auto
  moreover have "m2_ready t s" using assms(3) by (simp add: m2_ready_def busy_def)
  ultimately show ?thesis using m2_moved [of P C bs ?s t s] b(1) q(1) by (simp add: generate_def)
qed

lemma finished_ok:
  assumes "m2_good P C bs s" "stand s t = Finished"
  shows "m2_ok P C bs t s (Some s)"
  using assms by (simp add: m2_ok_def m2_ready_def busy_def)

lemma worker_ok:
  assumes "m2_good P C bs s" "setup_ok P" "t \<noteq> T_ReadData" "t \<noteq> T_Retrive"
  shows "m2_ok P C bs t s (GenerateData_Loop (own_ring t) t P s)"
proof (cases "stand s t")
  case AtHead
  then show ?thesis using head_ok [OF assms(1) AtHead, of Own] assms(3,4) by (simp add: GenerateData_Loop_def)
qed (use assms take_own_ok [OF assms(1)] generate_ok [OF assms(1,2)] finished_ok [OF assms(1)] m2_goodD(8) [OF assms(1), of t]
  in \<open>simp_all add: GenerateData_Loop_def ctl_fine_def\<close>)

text \<open>The reader.\<close>

lemma find_ok:
  assumes "m2_good P C bs s" "stand s T_ReadData = Find k"
  shows "m2_ok P C bs T_ReadData s (Some (m2_goto T_ReadData (FindEmptyRing k s) s))"
proof -
  note g = m2_goodD [OF assms(1)]
  have k: "1 \<le> k" "k \<le> 8" using g(8) [of T_ReadData] assms(2) by (simp_all add: ctl_fine_def)
  then have r: "Gen k \<in> m2_rings" using m2_rings(2) by blast
  have full: "rte_ring_full (ring2 s (Gen k)) \<longleftrightarrow> \<not> room s k"
    using ring_state_calls(1) [OF g(11) [OF r]] g(12) [OF r] ring.bounded [OF g(11) [OF r]] k by (auto simp: room_def)
  have own: "queued (ring2 s (Gen 8)) \<noteq> []" if "\<not> room s 8" using that by (auto simp: room_def)
  show ?thesis
  proof (rule m2_control [OF assms(1)])
    show "ctl_fine P (m2_goto T_ReadData (FindEmptyRing k s) s) T_ReadData"
      using full k by (auto simp: FindEmptyRing_def ctl_fine_def room_def)
    show "m2_distance (m2_goto T_ReadData (FindEmptyRing k s) s) T_ReadData < m2_distance s T_ReadData" if "m2_ready T_ReadData s"
    proof -
      consider "FindEmptyRing k s = Allocate k" | "FindEmptyRing k s = Find (k + 1)" "k < 8" | "FindEmptyRing k s = Own" "\<not> room s 8"
        using full k by (auto simp: FindEmptyRing_def le_less)
      then show ?thesis
        using that assms(2) k own by cases (auto simp: m2_ready_def m2_distance_def steps_supplied_def busy_def)
    qed
  qed (use assms(2) in \<open>auto simp: busy_def m2_ready_def FindEmptyRing_def\<close>)
qed

lemma read_ok:
  assumes "m2_good P C bs s" "setup_ok P" "1 \<in> C" "stand s T_ReadData = Allocate n"
  shows "m2_ok P C bs T_ReadData s (read_buffer P n s)"
proof -
  note g = m2_goodD [OF assms(1)]
  have p: "pool_ok (pool2 s)" "1 < mp_cache_size (pool2 s)" "mp_flags (pool2 s) AND MEMPOOL_F_SC_GET = 0" "1 < RTE_MAX_LCORE"
    using g(2) by (simp_all add: pool_fine_def MBUF_CACHE_SIZE_def RTE_MAX_LCORE_def)
  have exact: "(\<exists>x q. rte_mempool_get 1 (pool2 s) = Some (0, [x], q)) \<longleftrightarrow> can_alloc s"
    using get_exact [OF p] by (simp add: can_alloc_def)
  show ?thesis
  proof (cases rule: mempool.get_cases [OF p(1), of 1])
    case (1 m q)
    have "m \<in># pool_objs (pool2 s)" using 1(3) by simp
    then have "m \<in> set bs" using m2_pool_unique(3) [OF g(4,1)] by blast
    then have "holds OFF15 P Fresh (rte_pktmbuf_prepare (store2 s m))" using g(6) holds_prepare by blast
    then obtain b where b: "read_P P (rte_pktmbuf_prepare (store2 s m)) = Some b" "holds OFF15 P Read b"
      using stage_runs(1) [OF assms(2)] by blast
    have fine: "pool_fine C (length bs) q"
      using get_frame [OF 1(1)] 1(2,4) g(2) assms(3) unfolding pool_fine_def pool_frame_def by metis
    let ?d = "if dis_count s + 1 = interval * 8 then 0 else dis_count s + 1"
    have d: "?d < 32" using g(9) by (auto simp: interval_def)
    let ?s = "m2_goto T_ReadData (Place m n) (set_buf m b (s\<lparr>pool2 := q, dis_count := ?d\<rparr>))"
    have "m2_good P C bs ?s" by (rule m2_good_alloc [OF assms(1,4) fine 1(3) b(2) d])
    moreover have "m2_weight ?s < m2_weight s"
      using m2_weight_move [of "Gen 1" ?s s "ring2 s (Gen 1)" T_ReadData "Place m n"] m2_rings(2) [of 1] 1(3) assms(4) by simp
    moreover have "can_alloc s" using exact 1(1) by blast
    then have "m2_ready T_ReadData s" using assms(4) by (simp add: m2_ready_def m2_supplied_def)
    ultimately show ?thesis using m2_moved [of P C bs ?s T_ReadData s] 1(1) b(1) by (simp add: read_buffer_def)
  next
    case 2
    have none: "\<not> can_alloc s" using exact 2 by (simp add: ENOENT_def)
    have "m2_ok P C bs T_ReadData s (Some (m2_goto T_ReadData Own s))"
    proof (rule m2_control [OF assms(1)])
      show "m2_distance (m2_goto T_ReadData Own s) T_ReadData < m2_distance s T_ReadData" if "m2_ready T_ReadData s"
        using that none assms(4) by (auto simp: m2_ready_def m2_distance_def steps_supplied_def busy_def m2_supplied_def)
    qed (use assms(4) in \<open>auto simp: busy_def m2_ready_def ctl_fine_def\<close>)
    then show ?thesis using 2 by (simp add: read_buffer_def ENOENT_def)
  qed
qed

lemma deal_ring_range: "d < 32 \<Longrightarrow> 1 \<le> deal_ring d \<and> deal_ring d \<le> 8"
  by (simp add: deal_ring_def interval_def)

text \<open>The ring chosen has room, and keeps it.\<close>

lemma place_ok:
  assumes "m2_good P C bs s" "stand s T_ReadData = Place m n"
  shows "m2_ok P C bs T_ReadData s (let i = deal_ring (dis_count s)
         in Some (m2_goto T_ReadData
              (if i = 0 then AtHead else if \<not> rte_ring_full (ring2 s (Gen i)) then Put m i else Put m n) s))"
proof -
  note g = m2_goodD [OF assms(1)]
  let ?i = "deal_ring (dis_count s)"
  have i: "1 \<le> ?i" "?i \<le> 8" using deal_ring_range [OF g(9)] by simp_all
  then have r: "Gen ?i \<in> m2_rings" using m2_rings(2) by blast
  define j where "j = (if \<not> rte_ring_full (ring2 s (Gen ?i)) then ?i else n)"
  have n: "room s n" "holds OFF15 P Read (store2 s m)" using g(8) [of T_ReadData] assms(2) by (simp_all add: ctl_fine_def)
  have "room s ?i" if "\<not> rte_ring_full (ring2 s (Gen ?i))"
    using that ring_state_calls(1) [OF g(11) [OF r]] g(12) [OF r] ring.bounded [OF g(11) [OF r]] i by (auto simp: room_def)
  then have j: "room s j" using n(1) by (simp add: j_def)
  let ?s = "m2_goto T_ReadData (Put m j) s"
  have "m2_good P C bs ?s"
    by (rule m2_good_control [OF assms(1)]) (use assms(2) j n(2) in \<open>simp_all add: ctl_fine_def room_def giving_def\<close>)
  moreover have "m2_weight ?s < m2_weight s" using m2_weight_goto [of T_ReadData "Put m j" s] assms(2) by simp
  moreover have "m2_ready T_ReadData s" using assms(2) by (simp add: m2_ready_def busy_def)
  ultimately have "m2_ok P C bs T_ReadData s (Some ?s)" using m2_moved [of P C bs ?s T_ReadData s] by simp
  moreover have "(let i = ?i in Some (m2_goto T_ReadData
              (if i = 0 then AtHead else if \<not> rte_ring_full (ring2 s (Gen i)) then Put m i else Put m n) s)) = Some ?s"
    using i(1) by (simp add: j_def)
  ultimately show ?thesis by simp
qed

lemma put_ok:
  assumes "m2_good P C bs s" "stand s T_ReadData = Put m i"
  shows "m2_ok P C bs T_ReadData s (map_option (\<lambda>(ret, q). m2_goto T_ReadData AtHead (set_ring (Gen i) q s)) (rte_ring_enqueue m (ring2 s (Gen i))))"
proof -
  note g = m2_goodD [OF assms(1)]
  have i: "room s i" using g(8) [of T_ReadData] assms(2) by (simp add: ctl_fine_def)
  then have r: "Gen i \<in> m2_rings" using m2_rings(2) by (simp add: room_def)
  have "length (queued (ring2 s (Gen i))) < capacity (ring2 s (Gen i))" using i g(12) [OF r] by (simp add: room_def)
  then obtain q where q: "rte_ring_enqueue m (ring2 s (Gen i)) = Some (0, q)" "ring_ok q" "queued q = queued (ring2 s (Gen i)) @ [m]"
    "capacity q = 255" using ring.enq_room [OF g(11) [OF r], of m] g(12) [OF r] by auto
  let ?s = "m2_goto T_ReadData AtHead (set_ring (Gen i) q s)"
  have "m2_good P C bs ?s" by (rule m2_good_put [OF assms(1,2) q(3,2,4)])
  moreover have "m2_weight ?s < m2_weight s"
    using m2_weight_move [OF r, of ?s s q T_ReadData AtHead] q(3) assms(2) by simp
  moreover have "m2_ready T_ReadData s" using assms(2) by (simp add: m2_ready_def busy_def)
  ultimately show ?thesis using m2_moved [of P C bs ?s T_ReadData s] q(1) by simp
qed

lemma reader_ok:
  assumes "m2_good P C bs s" "setup_ok P" "1 \<in> C"
  shows "m2_ok P C bs T_ReadData s (m2_ReadData_Loop P s)"
proof (cases "stand s T_ReadData")
  case AtHead
  then show ?thesis using head_ok [OF assms(1) AtHead, of "Find 1"] by (simp add: m2_ReadData_Loop_def)
qed (use find_ok [OF assms(1)] read_ok [OF assms] place_ok [OF assms(1)] put_ok [OF assms(1)] take_own_ok [OF assms(1), of T_ReadData]
    generate_ok [OF assms(1,2), of T_ReadData] finished_ok [OF assms(1)] m2_goodD(8) [OF assms(1), of T_ReadData]
  in \<open>simp_all add: m2_ReadData_Loop_def ctl_fine_def\<close>)

text \<open>The last thread.\<close>

lemma poll_ok:
  assumes "m2_good P C bs s" "stand s T_Retrive = Poll k"
  shows "m2_ok P C bs T_Retrive s (Data_Retrive_Loop s)"
proof -
  note g = m2_goodD [OF assms(1)]
  have k: "1 \<le> k" "k \<le> 8" "\<not> quit2 s" using g(8) [of T_Retrive] assms(2) by (simp_all add: ctl_fine_def)
  then have r: "Ret k \<in> m2_rings" using m2_rings(2) by blast
  have n: "Retrive_DPDK_count s < RETRIVE_LIMIT" using g(10) k(3) assms(2) by (auto simp: counts_fine_def giving_def)
  show ?thesis
  proof (cases rule: ring.deq_cases [OF g(11) [OF r], of 0])
    case (1 m q)
    let ?s = "m2_goto T_Retrive (Giving m) (set_ring (Ret k) q s\<lparr>Retrive_DPDK_count := Retrive_DPDK_count s + 1\<rparr>)"
    have "m2_good P C bs ?s"
      using m2_good_take [OF assms(1) r _ 1(1,3), of T_Retrive "Giving m"] 1(4) g(12) [OF r] k(3) n assms(2) by simp
    moreover have "(m2_rank ?s, m2_rank s) \<in> below" using n by (simp add: m2_rank_def below_def) linarith
    moreover have "m2_ready T_Retrive s" using 1(1) k(1,2) assms(2) by (auto simp: m2_ready_def m2_supplied_def)
    ultimately have "m2_ok P C bs T_Retrive s (Some ?s)" by (simp add: m2_ok_def)
    then show ?thesis using 1(2) assms(2) by (simp add: Data_Retrive_Loop_def)
  next
    case 2
    let ?c = "if k < 8 then Poll (k + 1) else AtHead"
    have "(\<exists>j \<in> {k..8}. queued (ring2 s (Ret j)) \<noteq> []) \<longleftrightarrow> (\<exists>j \<in> {k + 1..8}. queued (ring2 s (Ret j)) \<noteq> [])"
      using 2(1) by (metis Suc_eq_plus1 atLeastAtMost_iff le_antisym not_less_eq_eq Suc_leD)
    moreover have "\<not> (\<exists>j \<in> {k + 1..8}. queued (ring2 s (Ret j)) \<noteq> [])" if "\<not> k < 8" using that by auto
    ultimately have "m2_ok P C bs T_Retrive s (Some (m2_goto T_Retrive ?c s))"
      using assms(2) k
      by (intro m2_control [OF assms(1)]) (auto simp: busy_def ctl_fine_def m2_ready_def m2_distance_def steps_supplied_def)
    then show ?thesis using 2(2) assms(2) by (simp add: Data_Retrive_Loop_def ENOENT_def)
  qed
qed

lemma give_ok:
  assumes "m2_good P C bs s" "9 \<in> C" "stand s T_Retrive = Giving m"
  shows "m2_ok P C bs T_Retrive s (Data_Retrive_Loop s)"
proof -
  note g = m2_goodD [OF assms(1)]
  have "(\<Sum>t \<in> UNIV. hand (stand s t)) = hand (stand s T_Retrive) + (\<Sum>t \<in> UNIV - {T_Retrive}. hand (stand s t))"
    by (simp add: sum.remove [of UNIV T_Retrive])
  then have "size (pool_objs (pool2 s)) < size (m2_buffers s)" using assms(3) by (simp add: m2_buffers_def)
  also have "size (m2_buffers s) \<le> length bs" using size_mset_mono [OF g(4)] by simp
  finally have "size (pool_objs (pool2 s)) < mp_size (pool2 s)" using g(2) by (simp add: pool_fine_def)
  then obtain p where p: "rte_mempool_put m 9 (pool2 s) = Some p" "pool_ok p" "pool_objs p = add_mset m (pool_objs (pool2 s))"
    "mp_size p = mp_size (pool2 s)" using mempool.put_one [of "pool2 s" m 9] g(2) by (auto simp: pool_fine_def)
  have fine: "pool_fine C (length bs) p"
    using put_frame [OF p(1)] p(2,4) g(2) assms(2) unfolding pool_fine_def pool_frame_def by metis
  let ?s = "m2_goto T_Retrive AtCount (s\<lparr>pool2 := p\<rparr>)"
  have "m2_good P C bs ?s" by (rule m2_good_give [OF assms(1,3) fine p(3)])
  moreover have "m2_weight ?s < m2_weight s"
    using m2_weight_move [of "Gen 1" ?s s "ring2 s (Gen 1)" T_Retrive AtCount] m2_rings(2) [of 1] p(3) assms(3) by simp
  moreover have "m2_ready T_Retrive s" using assms(3) by (simp add: m2_ready_def busy_def)
  ultimately show ?thesis using m2_moved [of P C bs ?s T_Retrive s] p(1) assms(3) by (simp add: Data_Retrive_Loop_def)
qed

lemma count_ok:
  assumes "m2_good P C bs s" "stand s T_Retrive = AtCount"
  shows "m2_ok P C bs T_Retrive s (Data_Retrive_Loop s)"
proof -
  let ?x = "if RETRIVE_LIMIT \<le> Retrive_DPDK_count s then s\<lparr>quit2 := True\<rparr> else s"
  let ?s = "m2_goto T_Retrive AtHead ?x"
  have e: "stand ?x = stand s" "ring2 ?x = ring2 s" "pool2 ?x = pool2 s" "Retrive_DPDK_count ?x = Retrive_DPDK_count s" by simp_all
  have "m2_weight ?s < m2_weight s"
    using m2_weight_move [of "Gen 1" ?s s "ring2 s (Gen 1)" T_Retrive AtHead] m2_rings(2) [of 1] assms(2) unfolding m2_upd_simps e by simp
  moreover have "Retrive_DPDK_count ?s = Retrive_DPDK_count s" unfolding m2_upd_simps e ..
  moreover have "m2_ready T_Retrive s" using assms(2) by (simp add: m2_ready_def busy_def)
  ultimately have "m2_ok P C bs T_Retrive s (Some ?s)" using m2_moved [OF m2_good_count [OF assms]] by simp
  then show ?thesis using assms(2) by (simp add: Data_Retrive_Loop_def)
qed

lemma sink_ok:
  assumes "m2_good P C bs s" "9 \<in> C"
  shows "m2_ok P C bs T_Retrive s (Data_Retrive_Loop s)"
proof (cases "stand s T_Retrive")
  case AtHead
  then show ?thesis using head_ok [OF assms(1) AtHead, of "Poll 1"] by (simp add: Data_Retrive_Loop_def)
next
  case Finished
  then show ?thesis using finished_ok [OF assms(1)] by (simp add: Data_Retrive_Loop_def)
qed (use poll_ok [OF assms(1)] give_ok [OF assms] count_ok [OF assms(1)] m2_goodD(8) [OF assms(1), of T_Retrive]
  in \<open>simp_all add: ctl_fine_def\<close>)

section \<open>All threads together\<close>

lemma m2_step_ok:
  assumes "setup_ok P" "m2_good P C bs s" "1 \<in> C" "9 \<in> C \<or> t \<noteq> T_Retrive"
  shows "m2_ok P C bs t s (m2_step P t s)"
proof (cases "t = T_Retrive")
  case True
  then show ?thesis using sink_ok [OF assms(2)] assms(4) by (simp add: m2_step_def)
next
  case False
  then show ?thesis using reader_ok [OF assms(2,1,3)] worker_ok [OF assms(2,1)] by (simp add: m2_step_def)
qed

lemma m2_fair:
  assumes "setup_ok P"
  shows "fair_system (m2_step P) (m2_good P {1, 9} bs) m2_ready m2_rank below"
proof
  show "wf below" by (rule wf_below)
  show "\<exists>s'. m2_step P t s = Some s' \<and> m2_good P {1, 9} bs s' \<and> (m2_rank s', m2_rank s) \<in> below"
    if "m2_good P {1, 9} bs s" "m2_ready t s" for s t
    using m2_step_ok [OF assms that(1), of t] that(2) by (auto simp: m2_ok_def)
  show "\<exists>s'. m2_step P t s = Some s' \<and> m2_good P {1, 9} bs s' \<and> m2_rank s' = m2_rank s \<and> (\<forall>u. m2_ready u s' = m2_ready u s)"
    if "m2_good P {1, 9} bs s" "\<not> m2_ready t s" for s t
    using m2_step_ok [OF assms that(1), of t] that(2) by (auto simp: m2_ok_def)
qed

interpretation main_2: fair_system "m2_step default_setup" "m2_good default_setup {1, 9} bs" m2_ready m2_rank below for bs
  by (rule m2_fair [OF default_setup_ok])

section \<open>What is left when nobody has something to do\<close>

lemma own_ring_onto: "1 \<le> i \<Longrightarrow> i \<le> 8 \<Longrightarrow> \<exists>t. t \<noteq> T_Retrive \<and> own_ring t = i"
proof -
  assume "1 \<le> i" "i \<le> 8"
  then consider "i = 1" | "i = 2" | "i = 3" | "i = 4" | "i = 5" | "i = 6" | "i = 7" | "i = 8" by linarith
  then show ?thesis by cases (metis own_ring.simps m2_thread.distinct)+
qed

lemma quiet:
  assumes "m2_good P C bs s" "\<not> quit2 s" "\<And>t. t \<noteq> T_Retrive \<Longrightarrow> \<not> m2_ready t s"
  shows "t \<noteq> T_Retrive \<Longrightarrow> hand (stand s t) = {#}" "1 \<le> i \<Longrightarrow> i \<le> 8 \<Longrightarrow> queued (ring2 s (Gen i)) = []"
    and "queued (pool_data (pool2 s)) = []" "objs (local_cache (pool2 s) ! 1) = []"
proof -
  have n: "\<not> m2_supplied t s \<and> hand (stand s t) = {#}" if "t \<noteq> T_Retrive" for t
  proof -
    have "stand s t \<noteq> Finished" using m2_goodD(8) [OF assms(1), of t] assms(2) by (auto simp: ctl_fine_def)
    then show ?thesis using assms(3) [OF that] by (auto simp: m2_ready_def busy_def)
  qed
  show "t \<noteq> T_Retrive \<Longrightarrow> hand (stand s t) = {#}" using n by blast
  show "queued (ring2 s (Gen i)) = []" if "1 \<le> i" "i \<le> 8" for i
    using own_ring_onto [OF that] n by (metis m2_supplied_def)
  show "queued (pool_data (pool2 s)) = []" "objs (local_cache (pool2 s) ! 1) = []"
    using n [of T_ReadData] by (simp_all add: m2_supplied_def can_alloc_def)
qed

lemma cached_none: "(\<And>c. c \<in> set cs \<Longrightarrow> objs c = []) \<Longrightarrow> cached cs = {#}"
  by (induction cs) (simp_all add: cached_def)

lemma cached_one:
  assumes "length cs = RTE_MAX_LCORE" "\<And>l. l < RTE_MAX_LCORE \<Longrightarrow> l \<noteq> 9 \<Longrightarrow> objs (cs ! l) = []"
  shows "cached cs = mset (objs (cs ! 9))"
proof -
  let ?c = "mempool_cache_init 0"
  have n: "9 < length cs" using assms(1) by (simp add: RTE_MAX_LCORE_def)
  have "objs c = []" if c: "c \<in> set (cs[9 := ?c])" for c
  proof -
    obtain l where l: "l < length cs" "c = cs[9 := ?c] ! l" using c by (metis in_set_conv_nth length_list_update)
    then show ?thesis using assms n by (cases "l = 9") (simp_all add: mempool_cache_init_def)
  qed
  then have "cached (cs[9 := ?c]) = {#}" by (rule cached_none)
  then show ?thesis using cached_update [OF n, of ?c] by (simp add: mempool_cache_init_def)
qed

text \<open>At most 192 buffers lie in the cache of the last thread's core, where the reader cannot get
  them; as 255 are left, the program never gets stuck.\<close>

lemma m2_alive:
  assumes "m2_good P {1, 9} bs s" "\<And>t. \<not> m2_ready t s"
  shows "quit2 s"
proof (rule ccontr)
  assume q: "\<not> quit2 s"
  note g = m2_goodD [OF assms(1)] and e = quiet [OF assms(1) q assms(2)]
  have sink: "stand s T_Retrive \<noteq> Finished" using g(8) [of T_Retrive] q by (auto simp: ctl_fine_def)
  then have "\<not> m2_supplied T_Retrive s" "hand (stand s T_Retrive) = {#}"
    using assms(2) [of T_Retrive] by (auto simp: m2_ready_def busy_def)
  then have "queued (ring2 s r) = []" if "r \<in> m2_rings" for r
    using that e(2) by (auto simp: m2_rings_def m2_supplied_def)
  moreover have "hand (stand s t) = {#}" for t using e(1) \<open>hand (stand s T_Retrive) = {#}\<close> by (cases "t = T_Retrive") auto
  ultimately have b: "m2_buffers s = cached (local_cache (pool2 s))"
    by (simp add: m2_buffers_def pool_objs_def e(3))
  have len: "length (local_cache (pool2 s)) = RTE_MAX_LCORE" using g(2) by (simp add: pool_fine_def pool_ok_def)
  have "cached (local_cache (pool2 s)) = mset (objs (local_cache (pool2 s) ! 9))"
    by (rule cached_one [OF len]) (use g(2) e(4) in \<open>auto simp: pool_fine_def\<close>)
  moreover have "local_cache (pool2 s) ! 9 \<in> set (local_cache (pool2 s))" using len by (simp add: RTE_MAX_LCORE_def)
  then have "length (objs (local_cache (pool2 s) ! 9)) \<le> 192"
    using g(2) by (auto simp: pool_fine_def pool_ok_def cache_ok_def MBUF_CACHE_SIZE_def CALC_CACHE_FLUSHTHRESH_def)
  ultimately show False using g(5) b by simp
qed

lemma m2_final:
  assumes "m2_good P {1, 9} bs s" "\<And>t. \<not> m2_ready t s"
  shows "quit2 s" "stand s t = Finished" "Retrive_DPDK_count s = RETRIVE_LIMIT"
proof -
  show q: "quit2 s" by (rule m2_alive [OF assms])
  show "stand s t = Finished" using assms(2) [of t] q by (simp add: m2_ready_def)
  show "Retrive_DPDK_count s = RETRIVE_LIMIT" using m2_goodD(10) [OF assms(1)] q by (simp add: counts_fine_def)
qed

section \<open>While the last thread waits\<close>

text \<open>The other threads leave its place and \<open>quit\<close> alone.\<close>

lemma others_frame:
  assumes "m2_step P t s = Some s'" "t \<noteq> T_Retrive"
  shows "quit2 s' = quit2 s" "stand s' T_Retrive = stand s T_Retrive"
  using assms by (auto simp: m2_step_def m2_ReadData_Loop_def GenerateData_Loop_def take_own_def generate_def read_buffer_def Let_def
      bind_eq_Some_conv split: m2_ctrl.splits if_splits)

definition m2_held :: "transmitter \<Rightarrow> m2_thread \<Rightarrow> m2_net \<Rightarrow> m2_net option" where
  "m2_held P t = (if t = T_Retrive then Some else m2_step P t)"

definition m2_waits :: "transmitter \<Rightarrow> nat list \<Rightarrow> m2_net \<Rightarrow> bool" where
  "m2_waits P bs s \<longleftrightarrow> m2_good P {1} bs s \<and> \<not> quit2 s \<and> stand s T_Retrive = AtHead"

lemma m2_held_fair:
  assumes "setup_ok P"
  shows "fair_system (m2_held P) (m2_waits P bs) (\<lambda>t s. t \<noteq> T_Retrive \<and> m2_ready t s) m2_rank below"
proof
  show "wf below" by (rule wf_below)
  have ok: "\<exists>s'. m2_step P t s = Some s' \<and> m2_waits P bs s' \<and> (if m2_ready t s then (m2_rank s', m2_rank s) \<in> below
      else m2_rank s' = m2_rank s \<and> (\<forall>u. m2_ready u s' = m2_ready u s))" if "m2_waits P bs s" "t \<noteq> T_Retrive" for s t
  proof -
    have "m2_ok P {1} bs t s (m2_step P t s)" by (rule m2_step_ok [OF assms]) (use that in \<open>auto simp: m2_waits_def\<close>)
    then show ?thesis using others_frame [of P t s] that unfolding m2_ok_def m2_waits_def by metis
  qed
  show "\<exists>s'. m2_held P t s = Some s' \<and> m2_waits P bs s' \<and> (m2_rank s', m2_rank s) \<in> below"
    if "m2_waits P bs s" "t \<noteq> T_Retrive \<and> m2_ready t s" for s t
    using ok [OF that(1), of t] that(2) by (auto simp: m2_held_def)
  show "\<exists>s'. m2_held P t s = Some s' \<and> m2_waits P bs s' \<and> m2_rank s' = m2_rank s
      \<and> (\<forall>u. (u \<noteq> T_Retrive \<and> m2_ready u s') = (u \<noteq> T_Retrive \<and> m2_ready u s))"
    if "m2_waits P bs s" "\<not> (t \<noteq> T_Retrive \<and> m2_ready t s)" for s t
    using ok [OF that(1), of t] that by (auto simp: m2_held_def)
qed

text \<open>Its steps can be left out of the schedule.\<close>

lemma without_last:
  "run (m2_held P) \<sigma> n s = Some s' \<Longrightarrow> \<exists>\<sigma>' n'. run (m2_step P) \<sigma>' n' s = Some s' \<and> (\<forall>k < n'. \<sigma>' k \<noteq> T_Retrive)"
proof (induction n arbitrary: s')
  case 0
  then have "run (m2_step P) \<sigma> 0 s = Some s' \<and> (\<forall>k < 0. \<sigma> k \<noteq> T_Retrive)" by simp
  then show ?case by blast
next
  case (Suc n)
  then obtain s1 where s1: "run (m2_held P) \<sigma> n s = Some s1" "m2_held P (\<sigma> n) s1 = Some s'" by (auto simp: bind_eq_Some_conv)
  then obtain \<sigma>' n' where r: "run (m2_step P) \<sigma>' n' s = Some s1" "\<forall>k < n'. \<sigma>' k \<noteq> T_Retrive" using Suc.IH by blast
  show ?case
  proof (cases "\<sigma> n = T_Retrive")
    case True
    then show ?thesis using r s1(2) by (auto simp: m2_held_def)
  next
    case False
    let ?\<tau> = "\<sigma>'(n' := \<sigma> n)"
    have "run (m2_step P) ?\<tau> m s = run (m2_step P) \<sigma>' m s" if "m \<le> n'" for m
      using that by (induction m) simp_all
    then have "run (m2_step P) ?\<tau> (Suc n') s = Some s'" using r(1) s1(2) False by (simp add: m2_held_def)
    moreover have "\<forall>k < Suc n'. ?\<tau> k \<noteq> T_Retrive" using r(2) False by (simp add: less_Suc_eq)
    ultimately show ?thesis by blast
  qed
qed

lemma waiting_loses:
  assumes "m2_waits P bs s" "\<And>t. t \<noteq> T_Retrive \<Longrightarrow> \<not> m2_ready t s"
  shows "size (m2_buffers s) \<le> 2040"
proof -
  have good: "m2_good P {1} bs s" "\<not> quit2 s" "stand s T_Retrive = AtHead" using assms(1) by (simp_all add: m2_waits_def)
  note g = m2_goodD [OF good(1)] and e = quiet [OF good(1,2) assms(2)]
  have len: "length (local_cache (pool2 s)) = RTE_MAX_LCORE" using g(2) by (simp add: pool_fine_def pool_ok_def)
  have "cached (local_cache (pool2 s)) = mset (objs (local_cache (pool2 s) ! 9))"
    by (rule cached_one [OF len]) (use g(2) e(4) in \<open>auto simp: pool_fine_def\<close>)
  also have "\<dots> = {#}" using g(2) by (simp add: pool_fine_def RTE_MAX_LCORE_def)
  finally have pool: "pool_objs (pool2 s) = {#}" by (simp add: pool_objs_def e(3))
  have "hand (stand s t) = {#}" for t using e(1) good(3) by (cases "t = T_Retrive") auto
  then have "size (m2_buffers s) = (\<Sum>r \<in> m2_rings. length (queued (ring2 s r)))"
    by (simp add: m2_buffers_def pool size_multiset_sum)
  also have "\<dots> = (\<Sum>r \<in> Ret ` {1..8}. length (queued (ring2 s r)))"
    by (rule sum.mono_neutral_right) (use e(2) m2_rings(1) in \<open>auto simp: m2_rings_def\<close>)
  also have "\<dots> \<le> (\<Sum>r \<in> Ret ` {1..8}. 255)"
  proof (rule sum_mono)
    fix r
    assume "r \<in> Ret ` {1..8}"
    then have "r \<in> m2_rings" by (auto simp: m2_rings_def)
    then show "length (queued (ring2 s r)) \<le> 255" using ring.bounded [OF g(11)] g(12) by metis
  qed
  also have "\<dots> = 2040" by (simp add: card_image inj_on_def)
  finally show ?thesis .
qed

section \<open>The start\<close>

definition m2_addrs :: "nat \<Rightarrow> nat \<Rightarrow> nat \<Rightarrow> nat list" where
  "m2_addrs = buffer_addrs M2_NUM_MBUFS BUF30"

lemma m2_main_good:
  assumes "\<forall>r. length (js r) = 256" "length junk = 4096" "chunk_fits M2_NUM_MBUFS BUF30 header trailer vaddr len"
  shows "\<exists>s. m2_main js header trailer junk vaddr len store = Some s \<and> m2_good P {} (m2_addrs header trailer vaddr) s
    \<and> \<not> quit2 s \<and> stand s T_Retrive = AtHead \<and> m2_buffers s = mset (m2_addrs header trailer vaddr)"
proof -
  let ?bs = "m2_addrs header trailer vaddr"
  have "MBUF_CACHE_SIZE \<le> RTE_MEMPOOL_CACHE_MAX_SIZE" "CALC_CACHE_FLUSHTHRESH MBUF_CACHE_SIZE \<le> M2_NUM_MBUFS" "length junk = 2 ^ 12"
    by (simp_all add: MBUF_CACHE_SIZE_def RTE_MEMPOOL_CACHE_MAX_SIZE_def CALC_CACHE_FLUSHTHRESH_def M2_NUM_MBUFS_def assms(2))
  then obtain mp store1 where p: "rte_pktmbuf_pool_create M2_NUM_MBUFS MBUF_CACHE_SIZE BUF30 header trailer junk vaddr len store
      = Some (mp, store1)" "pool_ok mp" "mp_size mp = M2_NUM_MBUFS" "mp_cache_size mp = MBUF_CACHE_SIZE"
    "mp_flags mp AND MEMPOOL_F_SC_GET = 0" "pool_objs mp = mset ?bs"
    "\<forall>l < RTE_MAX_LCORE. objs (local_cache mp ! l) = []" "\<forall>m \<in> set ?bs. store1 m = rte_pktmbuf_init BUF30"
    using pool_create [of MBUF_CACHE_SIZE M2_NUM_MBUFS 12 junk BUF30 header trailer vaddr len store] assms(3)
    unfolding m2_addrs_def by (auto simp: M2_NUM_MBUFS_def)
  let ?R = "\<lambda>r. rte_ring_init 256 (RING_F_SP_ENQ OR RING_F_SC_DEQ) (js r)"
  have j: "length (js r) = 2 ^ 8" for r using assms(1) by simp
  have c: "rte_ring_create 256 (RING_F_SP_ENQ OR RING_F_SC_DEQ) (js r) = Some (?R r)" for r
    using ring_create [OF _ j, where flags = "RING_F_SP_ENQ OR RING_F_SC_DEQ"] by simp
  have R: "ring_ok (?R r)" "capacity (?R r) = 255" "queued (?R r) = []" for r
    using ring_init [OF _ j, of "RING_F_SP_ENQ OR RING_F_SC_DEQ" r] by simp_all
  let ?s = "\<lparr>pool2 = mp, store2 = store1, ring2 = ?R, stand = (\<lambda>t. AtHead), dis_count = 0, Retrive_DPDK_count = 0, quit2 = False\<rparr>"
  have m: "m2_main js header trailer junk vaddr len store = Some ?s" by (simp add: m2_main_def c p(1))
  have b: "m2_buffers ?s = mset ?bs" by (simp add: m2_buffers_def R(3) p(6))
  have n: "length ?bs = 4095" "distinct ?bs" by (simp_all add: m2_addrs_def M2_NUM_MBUFS_def distinct_addrs)
  have ctl: "\<forall>t. ctl_fine P ?s t" by (simp add: ctl_fine_def)
  have "m2_good P {} ?bs ?s"
    unfolding m2_good_def b using p n R roomy_init15 ctl
    by (simp add: pool_fine_def rings_fine_def counts_fine_def RETRIVE_LIMIT_def M2_NUM_MBUFS_def)
  then show ?thesis using m b by (intro exI [of _ ?s]) simp
qed

lemma m2_good_mono: "m2_good P C bs s \<Longrightarrow> C \<subseteq> D \<Longrightarrow> m2_good P D bs s"
  by (auto simp: m2_good_def pool_fine_def)

section \<open>Properties\<close>

text \<open>The program points of each function, with the ring numbers and buffers they carry.\<close>

fun point_of :: "nat list \<Rightarrow> m2_thread \<Rightarrow> m2_ctrl \<Rightarrow> bool" where
  "point_of bs t AtHead \<longleftrightarrow> True"
| "point_of bs t (Find k) \<longleftrightarrow> t = T_ReadData \<and> k \<in> {1..8}"
| "point_of bs t (Allocate n) \<longleftrightarrow> t = T_ReadData \<and> n \<in> {1..8}"
| "point_of bs t (Place m n) \<longleftrightarrow> t = T_ReadData \<and> n \<in> {1..8} \<and> m \<in> set bs"
| "point_of bs t (Put m i) \<longleftrightarrow> t = T_ReadData \<and> i \<in> {1..8} \<and> m \<in> set bs"
| "point_of bs t Own \<longleftrightarrow> t \<noteq> T_Retrive"
| "point_of bs t (Working m) \<longleftrightarrow> t \<noteq> T_Retrive \<and> m \<in> set bs"
| "point_of bs t (Poll k) \<longleftrightarrow> t = T_Retrive \<and> k \<in> {1..8}"
| "point_of bs t (Giving m) \<longleftrightarrow> t = T_Retrive \<and> m \<in> set bs"
| "point_of bs t AtCount \<longleftrightarrow> t = T_Retrive"
| "point_of bs t Finished \<longleftrightarrow> True"

lemma m2_points:
  assumes "m2_good P C bs s"
  shows "point_of bs t (stand s t)"
proof -
  have "m \<in> set bs" if "m \<in># hand (stand s t)" for m
    by (rule m2_hand_unique(3) [OF m2_goodD(4) [OF assms] m2_goodD(1) [OF assms] that])
  then show ?thesis
    using m2_goodD(8) [OF assms, of t] by (cases "stand s t") (auto simp: ctl_fine_def room_def)
qed

text \<open>C30: the threads of \<^verbatim>\<open>maindpdk2.c\<close> stay within their functions. In every interleaving every thread stands
  at a point of the function it was launched with, with rings from 1 to 8 and a buffer of
  the pool, \<open>dis_count\<close> picks a ring, and no thread is stuck: each can make its next step.\<close>

theorem m2_typed:
  assumes "setup_ok P" "\<forall>r. length (js r) = 256" "length junk = 4096"
    and "chunk_fits M2_NUM_MBUFS BUF30 header trailer vaddr len"
  shows "\<exists>s0 s. m2_main js header trailer junk vaddr len store = Some s0 \<and> run (m2_step P) \<sigma> n s0 = Some s
    \<and> (\<forall>t. point_of (m2_addrs header trailer vaddr) t (stand s t)) \<and> deal_ring (dis_count s) \<in> {1..8}
    \<and> (\<forall>t. m2_step P t s \<noteq> None)"
proof -
  let ?bs = "m2_addrs header trailer vaddr"
  obtain s0 where s0: "m2_main js header trailer junk vaddr len store = Some s0" "m2_good P {} ?bs s0"
    using m2_main_good [OF assms(2-4), of store P] by blast
  have "m2_good P {1, 9} ?bs s0" by (rule m2_good_mono [OF s0(2)]) simp
  from fair_system.runs [OF m2_fair [OF assms(1)] this, of \<sigma> n] obtain s where
    s: "run (m2_step P) \<sigma> n s0 = Some s" "m2_good P {1, 9} ?bs s" by blast
  have "m2_step P t s \<noteq> None" for t using fair_system.step [OF m2_fair [OF assms(1)] s(2), of t] by auto
  then show ?thesis using s0(1) s(1) m2_points [OF s(2)] deal_ring_range [OF m2_goodD(9) [OF s(2)]] by auto
qed

text \<open>C25: the buffers of \<^verbatim>\<open>maindpdk2.c\<close>. However the nine threads' steps interleave, no step fails, no
  buffer is in two places, and 255 are never lost; a buffer on a ring of the reader holds the
  payload and one on a result ring the finished frame; and when the reader calls
  \<open>rte_ring_enqueue\<close>, the ring has room, so that only the workers can lose a buffer.\<close>

theorem m2_safe:
  assumes "setup_ok P" "\<forall>r. length (js r) = 256" "length junk = 4096"
    and "chunk_fits M2_NUM_MBUFS BUF30 header trailer vaddr len"
  shows "\<exists>s0 s. m2_main js header trailer junk vaddr len store = Some s0 \<and> run (m2_step P) \<sigma> n s0 = Some s
    \<and> m2_buffers s \<subseteq># mset (m2_addrs header trailer vaddr) \<and> distinct (m2_addrs header trailer vaddr)
    \<and> 255 \<le> size (m2_buffers s)
    \<and> (\<forall>i \<in> {1..8}. (\<forall>m \<in> set (queued (ring2 s (Gen i))). read_done (glob P) (payload P) (store2 s m))
        \<and> (\<forall>m \<in> set (queued (ring2 s (Ret i))). csd_done (fp_unit P) (glob P) (payload P) (store2 s m)))
    \<and> (\<forall>m i. stand s T_ReadData = Put m i \<longrightarrow> length (queued (ring2 s (Gen i))) < capacity (ring2 s (Gen i)))"
proof -
  let ?bs = "m2_addrs header trailer vaddr"
  obtain s0 where s0: "m2_main js header trailer junk vaddr len store = Some s0" "m2_good P {} ?bs s0"
    using m2_main_good [OF assms(2-4), of store P] by blast
  have "m2_good P {1, 9} ?bs s0" by (rule m2_good_mono [OF s0(2)]) simp
  from fair_system.runs [OF m2_fair [OF assms(1)] this, of \<sigma> n] obtain s where
    s: "run (m2_step P) \<sigma> n s0 = Some s" "m2_good P {1, 9} ?bs s" by blast
  note g = m2_goodD [OF s(2)]
  have "read_done (glob P) (payload P) (store2 s m)" if "i \<in> {1..8}" "m \<in> set (queued (ring2 s (Gen i)))" for i m
    using g(7) [of "Gen i" m] that m2_rings(2) by (simp add: holds_def)
  moreover have "csd_done (fp_unit P) (glob P) (payload P) (store2 s m)" if "i \<in> {1..8}" "m \<in> set (queued (ring2 s (Ret i)))" for i m
    using g(7) [of "Ret i" m] that m2_rings(2) by (simp add: holds_def)
  moreover have "length (queued (ring2 s (Gen i))) < capacity (ring2 s (Gen i))" if "stand s T_ReadData = Put m i" for i m
    using g(8) [of T_ReadData] g(12) [of "Gen i"] that m2_rings(2) by (simp add: ctl_fine_def room_def)
  ultimately show ?thesis using s0(1) s(1) g(1,4,5) by (intro exI [of _ s0] exI [of _ s]) simp
qed

text \<open>C26: \<^verbatim>\<open>maindpdk2.c\<close> loses buffers. A worker does not look at the result of \<open>rte_ring_enqueue\<close>: there is
  an order of the steps in which the last thread comes late, the program has not ended, and of the
  4095 buffers at least 2055 are in no place any more, neither in the pool nor on a ring nor in
  the hands of a thread.\<close>

theorem m2_loses:
  assumes "setup_ok P" "\<forall>r. length (js r) = 256" "length junk = 4096"
    and "chunk_fits M2_NUM_MBUFS BUF30 header trailer vaddr len"
  shows "\<exists>s0 \<sigma> n s. m2_main js header trailer junk vaddr len store = Some s0 \<and> size (m2_buffers s0) = 4095
    \<and> run (m2_step P) \<sigma> n s0 = Some s \<and> (\<forall>k < n. \<sigma> k \<noteq> T_Retrive) \<and> \<not> quit2 s \<and> size (m2_buffers s) \<le> 2040"
proof -
  let ?bs = "m2_addrs header trailer vaddr"
  obtain s0 where s0: "m2_main js header trailer junk vaddr len store = Some s0" "m2_good P {} ?bs s0" "\<not> quit2 s0"
    "stand s0 T_Retrive = AtHead" "m2_buffers s0 = mset ?bs"
    using m2_main_good [OF assms(2-4), of store P] by blast
  have "m2_good P {1} ?bs s0" by (rule m2_good_mono [OF s0(2)]) simp
  then have w: "m2_waits P ?bs s0" using s0(3,4) by (simp add: m2_waits_def)
  let ?ts = "[T_ReadData, T_Generate1, T_Generate2, T_Generate3, T_Generate4, T_Generate5, T_Generate6, T_Generate7, T_Retrive]"
  have "fair (\<lambda>n. ?ts ! (n mod length ?ts))" by (rule fair_round_robin) (simp add: UNIV_m2_thread)
  from fair_system.settles [OF m2_held_fair [OF assms(1)] w this] obtain n s where
    s: "run (m2_held P) (\<lambda>n. ?ts ! (n mod length ?ts)) n s0 = Some s" "m2_waits P ?bs s"
    "\<forall>t. \<not> (t \<noteq> T_Retrive \<and> m2_ready t s)" by blast
  from without_last [OF s(1)] obtain \<sigma> n' where r: "run (m2_step P) \<sigma> n' s0 = Some s" "\<forall>k < n'. \<sigma> k \<noteq> T_Retrive" by blast
  have "size (m2_buffers s) \<le> 2040" by (rule waiting_loses [OF s(2)]) (use s(3) in blast)
  moreover have "size (m2_buffers s0) = 4095" by (simp add: s0(5) m2_addrs_def M2_NUM_MBUFS_def)
  moreover have "\<not> quit2 s" using s(2) by (simp add: m2_waits_def)
  ultimately show ?thesis using s0(1) r by blast
qed

text \<open>C27: \<^verbatim>\<open>maindpdk2.c\<close> ends all the same. If every thread is scheduled again and again, in whatever
  order and whatever is lost on the way, the program comes to a state where exactly 100000 frames
  have been given back, and all threads have returned: a buffer is lost only when 255 others lie
  on a ring, and at most 192 can be stuck in a cache of the pool.\<close>

theorem m2_ends:
  assumes "setup_ok P" "\<forall>r. length (js r) = 256" "length junk = 4096"
    and "chunk_fits M2_NUM_MBUFS BUF30 header trailer vaddr len" "fair \<sigma>"
  shows "\<exists>s0 n s. m2_main js header trailer junk vaddr len store = Some s0 \<and> run (m2_step P) \<sigma> n s0 = Some s
    \<and> quit2 s \<and> Retrive_DPDK_count s = 100000 \<and> (\<forall>t. stand s t = Finished)"
proof -
  let ?bs = "m2_addrs header trailer vaddr"
  obtain s0 where s0: "m2_main js header trailer junk vaddr len store = Some s0" "m2_good P {} ?bs s0"
    using m2_main_good [OF assms(2-4), of store P] by blast
  have "m2_good P {1, 9} ?bs s0" by (rule m2_good_mono [OF s0(2)]) simp
  from fair_system.settles [OF m2_fair [OF assms(1)] this assms(5)] obtain n s where
    s: "run (m2_step P) \<sigma> n s0 = Some s" "m2_good P {1, 9} ?bs s" "\<forall>t. \<not> m2_ready t s" by blast
  note f = m2_final [OF s(2) s(3) [rule_format]]
  show ?thesis using s0(1) s(1) f(1,2) f(3) [unfolded RETRIVE_LIMIT_def] by blast
qed

text \<open>A chunk of memory that holds the pool.\<close>

lemma m2_memory: "chunk_fits M2_NUM_MBUFS BUF30 64 0 0 268230000"
  by (simp add: chunk_fits_def M2_NUM_MBUFS_def BUF30_def RTE_MBUF_DEFAULT_BUF_SIZE_def sizeof_rte_mbuf_def
      RTE_CACHE_LINE_SIZE_def align_ceil_def)

theorem m2_safe_witness:
  "\<exists>s0 s. m2_main (\<lambda>r. replicate 256 0) 64 0 (replicate 4096 0) 0 268230000 (\<lambda>m. rte_pktmbuf_init 0) = Some s0
    \<and> run (m2_step default_setup) (\<lambda>n. if even n then T_ReadData else T_Generate3) 1000 s0 = Some s
    \<and> 255 \<le> size (m2_buffers s)"
  using m2_safe [OF default_setup_ok _ _ m2_memory, of "\<lambda>r. replicate 256 0" "replicate 4096 0"] by force

theorem m2_loses_witness:
  "\<exists>s0 \<sigma> n s. m2_main (\<lambda>r. replicate 256 0) 64 0 (replicate 4096 0) 0 268230000 (\<lambda>m. rte_pktmbuf_init 0) = Some s0
    \<and> run (m2_step default_setup) \<sigma> n s0 = Some s \<and> size (m2_buffers s) \<le> 2040"
  using m2_loses [OF default_setup_ok _ _ m2_memory, of "\<lambda>r. replicate 256 0" "replicate 4096 0"] by force

theorem m2_ends_witness:
  "\<exists>s0 n s. m2_main (\<lambda>r. replicate 256 0) 64 0 (replicate 4096 0) 0 268230000 (\<lambda>m. rte_pktmbuf_init 0) = Some s0
    \<and> run (m2_step default_setup) (\<lambda>n. [T_ReadData, T_Generate1, T_Generate2, T_Generate3, T_Generate4, T_Generate5,
        T_Generate6, T_Generate7, T_Retrive] ! (n mod 9)) n s0 = Some s \<and> Retrive_DPDK_count s = 100000"
proof -
  have "fair (\<lambda>n. [T_ReadData, T_Generate1, T_Generate2, T_Generate3, T_Generate4, T_Generate5,
        T_Generate6, T_Generate7, T_Retrive] ! (n mod 9))"
    using fair_round_robin [of "[T_ReadData, T_Generate1, T_Generate2, T_Generate3, T_Generate4, T_Generate5,
        T_Generate6, T_Generate7, T_Retrive]"] by (simp add: UNIV_m2_thread)
  then show ?thesis
    using m2_ends [OF default_setup_ok _ _ m2_memory, of "\<lambda>r. replicate 256 0" "replicate 4096 0"] by force
qed

theorem m2_typed_witness:
  "\<exists>s0 s. m2_main (\<lambda>r. replicate 256 0) 64 0 (replicate 4096 0) 0 268230000 (\<lambda>m. rte_pktmbuf_init 0) = Some s0
    \<and> run (m2_step default_setup) (\<lambda>n. if even n then T_ReadData else T_Retrive) 1000 s0 = Some s
    \<and> (\<forall>t. m2_step default_setup t s \<noteq> None)"
  using m2_typed [OF default_setup_ok _ _ m2_memory, of "\<lambda>r. replicate 256 0" "replicate 4096 0"] by force

end
