(* ===== verification/Fft.thy ===== *)
theory Fft
  imports Prelude Complex_Main "HOL-Library.Multiset"
begin

text \<open>
  The fast Fourier transform of \<^verbatim>\<open>IFFT/ifft.c\<close>, without its number format: the reordering
  \<open>FFT_remap\<close> and the butterfly passes that \<open>FFT\<close> and \<open>IFFT\<close> share, as functions of the operations
  on one number. The passes are shown to be the recursive transform by halves, whatever the
  operations are; with exact complex arithmetic that is the discrete Fourier transform.
\<close>

section \<open>Reordering\<close>

text \<open>The loop that fills \<open>temp\<close> writes every cell, so that the contents \<open>malloc\<close> finds there do
  not matter. \<open>None\<close> means that the recursion does not end.\<close>

definition remap_temp :: "nat \<Rightarrow> 'a list \<Rightarrow> 'a list" where
  "remap_temp size_n src =
     fold (\<lambda>i temp. if i mod 2 = 0 then temp[i div 2 := src ! i] else temp[(size_n + i) div 2 := src ! i])
       [0..<size_n] (take size_n src)"

partial_function (option) FFT_remap :: "nat \<Rightarrow> 'a list \<Rightarrow> 'a list option" where
  "FFT_remap size_n src =
     (if size_n = 1 then Some src
      else let temp = remap_temp size_n src;
               src = fold (\<lambda>i src. src[i := temp ! i]) [0..<size_n] src
           in Option.bind (FFT_remap (size_n div 2) src) (\<lambda>src.
              Option.bind (FFT_remap (size_n div 2) (drop (size_n div 2) src)) (\<lambda>upper.
              Some (take (size_n div 2) src @ upper))))"

section \<open>Butterflies\<close>

text \<open>\<open>while (k /= 2) z++\<close>.\<close>

fun log_loop :: "nat \<Rightarrow> nat" where
  "log_loop k = (if k div 2 = 0 then 0 else Suc (log_loop (k div 2)))"

declare log_loop.simps [simp del]

text \<open>The body of the inner loop; \<open>tw z\<close> is the factor \<open>wn\<close> that \<open>getWN\<close> makes from the counter.\<close>

definition fft_point :: "('a \<Rightarrow> 'a \<Rightarrow> 'a) \<Rightarrow> ('a \<Rightarrow> 'a \<Rightarrow> 'a) \<Rightarrow> ('a \<Rightarrow> 'a \<Rightarrow> 'a) \<Rightarrow> (nat \<Rightarrow> 'a) \<Rightarrow> nat \<Rightarrow> nat
    \<Rightarrow> nat \<Rightarrow> nat \<times> 'a list \<Rightarrow> nat \<times> 'a list" where
  "fft_point mul add sub tw k i j s =
     (let (z, src_com) = s in
      if (j div 2 ^ i) mod 2 = 1
      then let wn = tw z;
               src_com = src_com[j := mul (src_com ! j) wn];
               z = z + 2 ^ (k - i - 1);
               neighbour = j - 2 ^ i;
               temp = src_com ! neighbour;
               src_com = src_com[neighbour := add temp (src_com ! j)];
               src_com = src_com[j := sub temp (src_com ! j)]
           in (z, src_com)
      else (0, src_com))"

definition fft_pass :: "('a \<Rightarrow> 'a \<Rightarrow> 'a) \<Rightarrow> ('a \<Rightarrow> 'a \<Rightarrow> 'a) \<Rightarrow> ('a \<Rightarrow> 'a \<Rightarrow> 'a) \<Rightarrow> (nat \<Rightarrow> 'a) \<Rightarrow> nat \<Rightarrow> nat
    \<Rightarrow> nat \<Rightarrow> 'a list \<Rightarrow> 'a list" where
  "fft_pass mul add sub tw k size_n i src_com =
     snd (fold (fft_point mul add sub tw k i) [0..<size_n] (0, src_com))"

definition fft_passes :: "('a \<Rightarrow> 'a \<Rightarrow> 'a) \<Rightarrow> ('a \<Rightarrow> 'a \<Rightarrow> 'a) \<Rightarrow> ('a \<Rightarrow> 'a \<Rightarrow> 'a) \<Rightarrow> (nat \<Rightarrow> 'a) \<Rightarrow> nat \<Rightarrow> nat
    \<Rightarrow> 'a list \<Rightarrow> 'a list" where
  "fft_passes mul add sub tw k size_n src_com = fold (fft_pass mul add sub tw k size_n) [0..<k] src_com"

section \<open>The reordering is a permutation\<close>

definition evens :: "'a list \<Rightarrow> 'a list" where
  "evens xs = map (\<lambda>i. xs ! (2 * i)) [0..<(length xs + 1) div 2]"

definition odds :: "'a list \<Rightarrow> 'a list" where
  "odds xs = map (\<lambda>i. xs ! (2 * i + 1)) [0..<length xs div 2]"

lemma length_evens [simp]: "length (evens xs) = (length xs + 1) div 2"
  and length_odds [simp]: "length (odds xs) = length xs div 2"
  by (simp_all add: evens_def odds_def)

lemma evens_nth: "2 * i < length xs \<Longrightarrow> evens xs ! i = xs ! (2 * i)"
  and odds_nth: "2 * i + 1 < length xs \<Longrightarrow> odds xs ! i = xs ! (2 * i + 1)"
proof -
  show "2 * i < length xs \<Longrightarrow> evens xs ! i = xs ! (2 * i)" unfolding evens_def by (subst nth_map_upt; (linarith | simp))
  show "2 * i + 1 < length xs \<Longrightarrow> odds xs ! i = xs ! (2 * i + 1)" unfolding odds_def by (subst nth_map_upt; (linarith | simp))
qed

lemma remap_temp_upto:
  assumes "n \<le> length src" "m \<le> n"
  defines "t \<equiv> fold (\<lambda>i temp. if i mod 2 = 0 then temp[i div 2 := src ! i] else temp[(n + i) div 2 := src ! i])
    [0..<m] (take n src)"
  shows "length t = n
    \<and> (\<forall>j. 2 * j < m \<longrightarrow> t ! j = src ! (2 * j)) \<and> (\<forall>j. 2 * j + 1 < m \<longrightarrow> t ! ((n + 1) div 2 + j) = src ! (2 * j + 1))"
  using assms(2) unfolding t_def
proof (induction m)
  case 0
  then show ?case using assms(1) by simp
next
  case (Suc m)
  define t where "t = fold (\<lambda>i temp. if i mod 2 = 0 then temp[i div 2 := src ! i] else temp[(n + i) div 2 := src ! i])
    [0..<m] (take n src)"
  have old: "length t = n" "2 * j < m \<Longrightarrow> t ! j = src ! (2 * j)"
    "2 * j + 1 < m \<Longrightarrow> t ! ((n + 1) div 2 + j) = src ! (2 * j + 1)" for j
    using Suc unfolding t_def by simp_all
  let ?u = "if m mod 2 = 0 then t[m div 2 := src ! m] else t[(n + m) div 2 := src ! m]"
  have u: "length ?u = n \<and> (\<forall>j. 2 * j < Suc m \<longrightarrow> ?u ! j = src ! (2 * j))
    \<and> (\<forall>j. 2 * j + 1 < Suc m \<longrightarrow> ?u ! ((n + 1) div 2 + j) = src ! (2 * j + 1))"
  proof (cases "even m")
    case True
    then obtain q where m: "m = 2 * q" by (rule evenE)
    have q: "q < (n + 1) div 2" "q < n" using Suc.prems m by linarith+
    then have "(t[q := src ! m]) ! ((n + 1) div 2 + j) = src ! (2 * j + 1)" if "2 * j + 1 < Suc m" for j
      using old(3) [of j] that by (simp add: m)
    moreover have "(t[q := src ! m]) ! j = src ! (2 * j)" if "2 * j < Suc m" for j
      using old(1) old(2) [of j] that q(2) by (cases "j = q") (simp_all add: m)
    ultimately show ?thesis using old(1) by (simp add: m)
  next
    case False
    then obtain q where m: "m = 2 * q + 1" by (rule oddE)
    let ?p = "(n + 1) div 2 + q"
    have pos: "(n + m) div 2 = ?p" by (simp add: m)
    have fits: "?p < length t" using Suc.prems m old(1) by linarith
    have "t[?p := src ! m] ! ((n + 1) div 2 + j) = src ! (2 * j + 1)" if "2 * j + 1 < Suc m" for j
      using old(3) [of j] that fits by (cases "j = q") (simp_all add: m)
    moreover have "t[?p := src ! m] ! j = src ! (2 * j)" if "2 * j < Suc m" for j
    proof -
      have "2 * j < m" using that unfolding m by presburger
      moreover have "j < (n + 1) div 2" using that m Suc.prems by linarith
      ultimately show ?thesis using old(2) [of j] by simp
    qed
    ultimately show ?thesis unfolding pos using old(1) False by (simp add: odd_iff_mod_2_eq_one)
  qed
  have eq: "fold (\<lambda>i temp. if i mod 2 = 0 then temp[i div 2 := src ! i] else temp[(n + i) div 2 := src ! i])
    [0..<Suc m] (take n src) = ?u" by (simp add: t_def)
  show ?case unfolding eq by (rule u)
qed

lemma remap_temp_eq:
  assumes "n \<le> length src"
  shows "remap_temp n src = evens (take n src) @ odds (take n src)"
proof (rule nth_equalityI)
  note t = remap_temp_upto [OF assms order_refl, folded remap_temp_def]
  have half: "(n + 1) div 2 + n div 2 = n" by linarith
  show "length (remap_temp n src) = length (evens (take n src) @ odds (take n src))"
    using t assms half by simp
  fix p
  assume "p < length (remap_temp n src)"
  then have p: "p < n" using t by simp
  show "remap_temp n src ! p = (evens (take n src) @ odds (take n src)) ! p"
  proof (cases "p < (n + 1) div 2")
    case True
    then have "2 * p < n" by linarith
    then show ?thesis using t True assms by (simp add: nth_append evens_nth)
  next
    case False
    then obtain j where j: "p = (n + 1) div 2 + j" using le_Suc_ex [of "(n + 1) div 2" p] by auto
    have "2 * j + 1 < n" using p j by linarith
    then show ?thesis using t assms odds_nth [of j "take n src"] by (simp add: nth_append j)
  qed
qed

lemma remap_rec:
  assumes "n \<le> length src" "n \<noteq> 1"
  shows "FFT_remap n src = Option.bind (FFT_remap (n div 2) (evens (take n src) @ odds (take n src) @ drop n src)) (\<lambda>src.
      Option.bind (FFT_remap (n div 2) (drop (n div 2) src)) (\<lambda>upper. Some (take (n div 2) src @ upper)))"
proof -
  have half: "(n + 1) div 2 + n div 2 = n" by linarith
  have len: "length (remap_temp n src) = n" using assms(1) half by (simp add: remap_temp_eq)
  have "fold (\<lambda>i src. src[i := remap_temp n src0 ! i]) [0..<n] src = remap_temp n src0 @ drop n src"
    if "length (remap_temp n src0) = n" for src0
    using fold_fill [OF assms(1), of "\<lambda>i _. remap_temp n src0 ! i"] map_nth [of "remap_temp n src0"] that by simp
  from this [OF len] show ?thesis
    using assms(2) by (subst FFT_remap.simps) (simp add: Let_def remap_temp_eq [OF assms(1)])
qed

lemma evens_simps [simp]: "evens [] = []" "evens [x] = [x]" "evens (x # y # zs) = x # evens zs"
  and odds_simps [simp]: "odds [] = []" "odds [x] = []" "odds (x # y # zs) = y # odds zs"
proof -
  have "[0..<Suc k] = 0 # map Suc [0..<k]" for k by (simp add: upt_conv_Cons map_Suc_upt del: upt_Suc)
  then show "evens (x # y # zs) = x # evens zs" "odds (x # y # zs) = y # odds zs"
    by (simp_all add: evens_def odds_def comp_def del: upt_Suc)
qed (simp_all add: evens_def odds_def)

lemma mset_evens_odds: "mset (evens xs) + mset (odds xs) = mset xs"
proof -
  have "mset xs = mset (evens xs @ odds xs)" by (induction xs rule: induct_list012) simp_all
  then show ?thesis by simp
qed

lemma remap_returns:
  "0 < n \<Longrightarrow> n \<le> length src \<Longrightarrow>
    \<exists>r. FFT_remap n src = Some r \<and> length r = length src \<and> drop n r = drop n src \<and> mset (take n r) = mset (take n src)"
proof (induction n arbitrary: src rule: less_induct)
  case (less n)
  show ?case
  proof (cases "n = 1")
    case True
    then show ?thesis by (simp add: FFT_remap.simps)
  next
    case False
    let ?h = "n div 2"
    let ?s = "evens (take n src) @ odds (take n src) @ drop n src"
    have h: "0 < ?h" "?h < n" "?h + ?h \<le> n" "(n + 1) div 2 + n div 2 = n" using False less.prems by linarith+
    have len: "length ?s = length src" using less.prems h(4) by simp
    obtain r1 where r1: "FFT_remap ?h ?s = Some r1" "length r1 = length src" "drop ?h r1 = drop ?h ?s"
      "mset (take ?h r1) = mset (take ?h ?s)"
      using less.IH [OF h(2,1), of ?s] h less.prems len by auto
    have "?h \<le> length (drop ?h r1)" using r1(2) h(3) less.prems(2) by simp
    then obtain r2 where r2: "FFT_remap ?h (drop ?h r1) = Some r2" "length r2 = length src - ?h"
      "drop ?h r2 = drop ?h (drop ?h r1)" "mset (take ?h r2) = mset (take ?h (drop ?h r1))"
      using less.IH [OF h(2,1), of "drop ?h r1"] r1(2) by auto
    let ?r = "take ?h r1 @ r2"
    have lr: "length (take ?h r1) = ?h" using r1(2) h less.prems by simp
    have tn: "take n ?s = evens (take n src) @ odds (take n src)" "drop n ?s = drop n src"
      using less.prems h(4) by simp_all
    have split: "n = ?h + (n - ?h)" "n - ?h = ?h + (n - ?h - ?h)" using h by linarith+
    have d: "drop (n - ?h) r2 = drop n ?s"
    proof -
      have "drop (n - ?h) r2 = drop (n - ?h - ?h) (drop ?h r2)" using split(2) by (metis drop_drop add.commute)
      also have "\<dots> = drop n ?s" unfolding r2(3) r1(3) drop_drop using split by (simp add: add.commute)
      finally show ?thesis .
    qed
    have m: "mset r2 = mset (drop ?h ?s)"
    proof -
      have "mset r2 = mset (take ?h r2) + mset (drop ?h r2)" by (metis append_take_drop_id mset_append)
      also have "\<dots> = mset (drop ?h ?s)" unfolding r2(3,4) r1(3) by (metis append_take_drop_id mset_append)
      finally show ?thesis .
    qed
    have "mset ?r = mset ?s" using r1(4) m by (metis append_take_drop_id mset_append)
    moreover have dr: "drop n ?r = drop n src" using d lr h tn(2) by simp
    moreover have "mset (take n ?r) + mset (drop n ?r) = mset ?r" "mset (take n ?s) + mset (drop n ?s) = mset ?s"
      by (metis append_take_drop_id mset_append)+
    ultimately have "mset (take n ?r) = mset (take n ?s)" using tn(2) by simp
    then have "mset (take n ?r) = mset (take n src)" by (simp only: tn(1) mset_append mset_evens_odds)
    moreover have "FFT_remap n src = Some ?r" using remap_rec [OF less.prems(2) False] r1(1) r2(1) by simp
    moreover have "length ?r = length src" using lr r2(2) h less.prems by simp
    ultimately show ?thesis using dr by blast
  qed
qed

text \<open>On size zero the recursion never ends.\<close>

lemma remap_zero: "FFT_remap 0 src = None"
proof -
  have "FFT_remap n src = Some r \<Longrightarrow> n \<noteq> 0" for n and src r :: "'a list"
    by (erule FFT_remap.raw_induct [rotated]) (auto simp: Let_def bind_eq_Some_conv split: if_splits, metis div_0 less_numeral_extra(3) neq0_conv)
  then show ?thesis by fastforce
qed

text \<open>On a power of two the order is that of the reversed binary digits.\<close>

fun remapped :: "nat \<Rightarrow> 'a list \<Rightarrow> 'a list" where
  "remapped 0 xs = xs"
| "remapped (Suc k) xs = remapped k (evens xs) @ remapped k (odds xs)"

lemma length_remapped [simp]: "length xs = 2 ^ k \<Longrightarrow> length (remapped k xs) = 2 ^ k"
  by (induction k arbitrary: xs) simp_all

lemma remap_power: "2 ^ k \<le> length src \<Longrightarrow> FFT_remap (2 ^ k) src = Some (remapped k (take (2 ^ k) src) @ drop (2 ^ k) src)"
proof (induction k arbitrary: src)
  case 0
  then show ?case by (simp add: FFT_remap.simps)
next
  case (Suc k)
  let ?e = "evens (take (2 ^ Suc k) src)"
  let ?o = "odds (take (2 ^ Suc k) src)"
  let ?d = "drop (2 ^ Suc k) src"
  have len: "length ?e = 2 ^ k" "length ?o = 2 ^ k" using Suc.prems by simp_all
  have "FFT_remap (2 ^ k) (?e @ ?o @ ?d) = Some (remapped k ?e @ ?o @ ?d)"
    "FFT_remap (2 ^ k) (?o @ ?d) = Some (remapped k ?o @ ?d)"
    using Suc.IH [of "?e @ ?o @ ?d"] Suc.IH [of "?o @ ?d"] len by simp_all
  moreover have "2 ^ Suc k \<noteq> (1 :: nat)" "2 ^ Suc k div 2 = (2 ^ k :: nat)" by simp_all
  ultimately show ?case
    using remap_rec [OF Suc.prems] len by simp
qed

definition bit_reversed :: "nat \<Rightarrow> nat \<Rightarrow> nat" where
  "bit_reversed k i = horner_sum of_bool 2 (rev (map (bit i) [0..<k]))"

lemma remapped_nth:
  "length xs = 2 ^ k \<Longrightarrow> i < 2 ^ k \<Longrightarrow> remapped k xs ! i = xs ! bit_reversed k i \<and> bit_reversed k i < 2 ^ k"
proof (induction k arbitrary: xs i)
  case 0
  then show ?case by (simp add: bit_reversed_def)
next
  case (Suc k)
  have len: "length (evens xs) = 2 ^ k" "length (odds xs) = 2 ^ k" using Suc.prems by simp_all
  show ?case
  proof (cases "i < 2 ^ k")
    case True
    have "bit_reversed (Suc k) i = 2 * bit_reversed k i"
      using True by (simp add: bit_reversed_def bit_iff_odd)
    then show ?thesis using Suc.IH [OF len(1) True] len True Suc.prems by (simp add: nth_append evens_nth)
  next
    case False
    let ?j = "i - 2 ^ k"
    have j: "i = ?j + 2 ^ k" "?j < 2 ^ k" using False Suc.prems by simp_all
    have low: "bit (?j + 2 ^ k) n = bit ?j n" if "n < k" for n
    proof -
      have "(?j + 2 ^ k) div 2 ^ n = ?j div 2 ^ n + 2 ^ (k - n)"
        using that by (metis add.commute div_plus_div_distrib_dvd_right le_imp_power_dvd less_imp_le power_diff zero_neq_numeral)
      then show ?thesis using that by (simp add: bit_iff_odd)
    qed
    have "i div 2 ^ k = 1" using False Suc.prems by (intro div_nat_eqI) simp_all
    then have "bit i k" by (simp add: bit_iff_odd)
    moreover have "map (bit i) [0..<k] = map (bit ?j) [0..<k]" using low j(1) by (intro map_cong) auto
    then have "bit_reversed k i = bit_reversed k ?j" by (simp only: bit_reversed_def)
    moreover have "bit_reversed (Suc k) i = of_bool (bit i k) + 2 * bit_reversed k i"
      by (simp add: bit_reversed_def)
    ultimately have "bit_reversed (Suc k) i = 1 + 2 * bit_reversed k ?j" by simp
    then show ?thesis using Suc.IH [OF len(2) j(2)] len False Suc.prems odds_nth [of "bit_reversed k ?j" xs]
      by (simp add: nth_append)
  qed
qed

section \<open>One pass\<close>

text \<open>What a pass of blocks of size \<open>2h\<close> makes of an array; \<open>w\<close> is the factor of a place.\<close>

definition butterfly :: "('a \<Rightarrow> 'a \<Rightarrow> 'a) \<Rightarrow> ('a \<Rightarrow> 'a \<Rightarrow> 'a) \<Rightarrow> ('a \<Rightarrow> 'a \<Rightarrow> 'a) \<Rightarrow> nat \<Rightarrow> (nat \<Rightarrow> 'a) \<Rightarrow> 'a list \<Rightarrow> nat \<Rightarrow> 'a" where
  "butterfly mul add sub h w s p =
     (if (p div h) mod 2 = 1 then sub (s ! (p - h)) (mul (s ! p) (w (p mod h)))
      else add (s ! p) (mul (s ! (p + h)) (w (p mod h))))"

definition passed :: "('a \<Rightarrow> 'a \<Rightarrow> 'a) \<Rightarrow> ('a \<Rightarrow> 'a \<Rightarrow> 'a) \<Rightarrow> ('a \<Rightarrow> 'a \<Rightarrow> 'a) \<Rightarrow> nat \<Rightarrow> (nat \<Rightarrow> 'a) \<Rightarrow> 'a list \<Rightarrow> 'a list" where
  "passed mul add sub h w s = map (butterfly mul add sub h w s) [0..<length s]"

lemma length_passed [simp]: "length (passed mul add sub h w s) = length s"
  by (simp add: passed_def)

lemma block_div:
  assumes "0 < h" "q < h"
  shows "(b * h + q) div h = b" "(b * h + q) mod h = (q :: nat)"
  using assms by simp_all

lemma odd_before: "b mod 2 = 1 \<Longrightarrow> (b - 1) mod 2 = (0 :: nat)"
  by presburger

lemma pass_upto:
  fixes mul add sub :: "'a \<Rightarrow> 'a \<Rightarrow> 'a" and tw :: "nat \<Rightarrow> 'a"
  assumes "i < k" "m \<le> length s"
  defines "h \<equiv> (2 :: nat) ^ i" and "c \<equiv> (2 :: nat) ^ (k - i - 1)"
  defines "r \<equiv> fold (fft_point mul add sub tw k i) [0..<m] (0, s)"
  shows "length (snd r) = length s
    \<and> ((m div h) mod 2 = 1 \<longrightarrow> fst r = (m mod h) * c)
    \<and> (\<forall>p < length s. snd r ! p = (if p < m \<and> (p div h) mod 2 = 1 \<or> p + h < m \<and> (p div h) mod 2 = 0
        then butterfly mul add sub h (\<lambda>q. tw (q * c)) s p else s ! p))"
  using assms(2) unfolding r_def
proof (induction m)
  case 0
  then show ?case by (simp add: h_def)
next
  case (Suc m)
  have h: "0 < h" and c: "2 ^ (k - Suc i) = c" by (simp_all add: h_def c_def)
  obtain z t where zt: "fold (fft_point mul add sub tw k i) [0..<m] (0, s) = (z, t)" by fastforce
  have len: "length t = length s" and z: "(m div h) mod 2 = 1 \<Longrightarrow> z = (m mod h) * c"
    and t: "p < length s \<Longrightarrow> t ! p = (if p < m \<and> (p div h) mod 2 = 1 \<or> p + h < m \<and> (p div h) mod 2 = 0
        then butterfly mul add sub h (\<lambda>q. tw (q * c)) s p else s ! p)" for p
    using Suc by (simp_all add: zt)
  have m: "m = (m div h) * h + m mod h" "m mod h < h" using h by simp_all
  have next_block: "Suc m div h = (if Suc (m mod h) = h then Suc (m div h) else m div h)"
    "Suc m mod h = (if Suc (m mod h) = h then 0 else Suc (m mod h))"
    by (simp_all add: div_Suc mod_Suc)
  show ?case
  proof (cases "(m div h) mod 2 = 1")
    case True
    have hm: "h \<le> m" using True div_less [of m h] by (cases "m < h") auto
    have lo: "(m - h) div h = m div h - 1" "(m - h) mod h = m mod h"
      using le_div_geq [OF h hm] le_mod_geq [OF hm] by simp_all
    have even: "((m - h) div h) mod 2 = 0" using True unfolding lo by (rule odd_before)
    have tm: "t ! m = s ! m" "t ! (m - h) = s ! (m - h)"
      using t [of m] t [of "m - h"] True even hm h Suc.prems by simp_all
    let ?x = "mul (s ! m) (tw (m mod h * c))"
    have step: "fold (fft_point mul add sub tw k i) [0..<Suc m] (0, s)
      = (z + c, t[m := ?x, m - h := add (s ! (m - h)) ?x, m := sub (s ! (m - h)) ?x])"
      using True hm h Suc.prems len z [OF True] tm
      by (simp add: zt fft_point_def Let_def h_def [symmetric] c)
    have "(t[m := ?x, m - h := add (s ! (m - h)) ?x, m := sub (s ! (m - h)) ?x]) ! p
      = (if p < Suc m \<and> (p div h) mod 2 = 1 \<or> p + h < Suc m \<and> (p div h) mod 2 = 0
        then butterfly mul add sub h (\<lambda>q. tw (q * c)) s p else s ! p)" if p: "p < length s" for p
    proof -
      consider "p = m" | "p = m - h" "p \<noteq> m" | "p \<noteq> m" "p + h \<noteq> m" using hm by linarith
      then show ?thesis
      proof cases
        case 1
        then show ?thesis using True Suc.prems len by (simp add: butterfly_def)
      next
        case 2
        then show ?thesis using even hm h Suc.prems len lo by (simp add: butterfly_def)
      next
        case 3
        then have "p \<noteq> m - h" using hm by linarith
        then show ?thesis using 3 t [OF p] by (simp add: less_Suc_eq)
      qed
    qed
    moreover have "(Suc m div h) mod 2 = 1 \<longrightarrow> z + c = (Suc m mod h) * c"
      using z [OF True] True by (auto simp: next_block mod_Suc)
    ultimately show ?thesis unfolding step using len by simp
  next
    case False
    have step: "fold (fft_point mul add sub tw k i) [0..<Suc m] (0, s) = (0, t)"
      using False by (simp add: zt fft_point_def h_def)
    have "t ! p = (if p < Suc m \<and> (p div h) mod 2 = 1 \<or> p + h < Suc m \<and> (p div h) mod 2 = 0
        then butterfly mul add sub h (\<lambda>q. tw (q * c)) s p else s ! p)" if p: "p < length s" for p
    proof -
      have "p + h = m \<Longrightarrow> (p div h) mod 2 \<noteq> 0"
      proof
        assume "p + h = m" "(p div h) mod 2 = 0"
        then show False using False h by (auto simp: mod_Suc)
      qed
      then show ?thesis using t [OF p] False by (auto simp: less_Suc_eq)
    qed
    moreover have "(Suc m div h) mod 2 = 1 \<longrightarrow> 0 = (Suc m mod h) * c"
      using False by (auto simp: next_block mod_Suc)
    ultimately show ?thesis unfolding step using len by simp
  qed
qed

lemma even_block_fits:
  assumes "0 < h" "p < 2 * h * c" "(p div h) mod 2 = 0"
  shows "p + h < 2 * h * (c :: nat)"
proof -
  obtain b where b: "p div h = 2 * b" using assms(3) by auto
  have "p div h < 2 * c" using assms(2) by (simp add: less_mult_imp_div_less mult.commute mult.left_commute)
  then have "(p div h + 2) * h \<le> (2 * c) * h" unfolding b by (intro mult_le_mono1) simp
  then have "(p div h) * h + 2 * h \<le> 2 * h * c" by (simp add: algebra_simps)
  moreover have "p = (p div h) * h + p mod h" "p mod h < h" using assms(1) by simp_all
  ultimately show ?thesis by linarith
qed

lemma fft_pass_eq:
  assumes "i < k" "length s = 2 * 2 ^ i * c"
  shows "fft_pass mul add sub tw k (length s) i s = passed mul add sub (2 ^ i) (\<lambda>q. tw (q * 2 ^ (k - i - 1))) s"
proof (rule nth_equalityI)
  note r = pass_upto [OF assms(1) order_refl, where s = s and mul = mul and add = add and sub = sub and tw = tw, folded fft_pass_def]
  show "length (fft_pass mul add sub tw k (length s) i s)
      = length (passed mul add sub (2 ^ i) (\<lambda>q. tw (q * 2 ^ (k - i - 1))) s)" using r by simp
  fix p
  assume "p < length (fft_pass mul add sub tw k (length s) i s)"
  then have p: "p < length s" using r by simp
  let ?h = "2 ^ i :: nat"
  have "p + ?h < length s" if "(p div ?h) mod 2 = 0"
    using even_block_fits [OF _ p [unfolded assms(2)] that] assms(2) by simp
  then show "fft_pass mul add sub tw k (length s) i s ! p
      = passed mul add sub (2 ^ i) (\<lambda>q. tw (q * 2 ^ (k - i - 1))) s ! p"
    using r p by (cases "(p div ?h) mod 2 = 1") (simp_all add: passed_def)
qed

lemma passed_append:
  assumes "0 < h" "length A = 2 * h * c"
  shows "passed mul add sub h w (A @ B) = passed mul add sub h w A @ passed mul add sub h w B"
proof (rule nth_equalityI)
  fix p
  assume "p < length (passed mul add sub h w (A @ B))"
  then have p: "p < length A + length B" by simp
  show "passed mul add sub h w (A @ B) ! p = (passed mul add sub h w A @ passed mul add sub h w B) ! p"
  proof (cases "p < length A")
    case True
    have "p + h < length A" if "(p div h) mod 2 = 0"
      using even_block_fits [OF assms(1) True [unfolded assms(2)] that] assms(2) by simp
    then show ?thesis using True by (auto simp: passed_def nth_append butterfly_def)
  next
    case False
    then obtain q where q: "p = length A + q" "q < length B" using p le_Suc_ex [of "length A" p] by auto
    have d: "p div h = 2 * c + q div h" "p mod h = q mod h" using assms by (simp_all add: q(1) mult.commute [of _ h] mult.assoc)
    have "h \<le> q" if "(q div h) mod 2 = 1" using that div_less [of q h] by (cases "q < h") auto
    then show ?thesis using q d by (auto simp: passed_def nth_append butterfly_def)
  qed
qed simp

definition joined :: "('a \<Rightarrow> 'a \<Rightarrow> 'a) \<Rightarrow> ('a \<Rightarrow> 'a \<Rightarrow> 'a) \<Rightarrow> ('a \<Rightarrow> 'a \<Rightarrow> 'a) \<Rightarrow> (nat \<Rightarrow> 'a) \<Rightarrow> 'a list \<Rightarrow> 'a list \<Rightarrow> 'a list" where
  "joined mul add sub w A B =
     map (\<lambda>q. add (A ! q) (mul (B ! q) (w q))) [0..<length A] @ map (\<lambda>q. sub (A ! q) (mul (B ! q) (w q))) [0..<length A]"

lemma passed_two:
  assumes "0 < h" "length A = h" "length B = h"
  shows "passed mul add sub h w (A @ B) = joined mul add sub w A B"
proof (rule nth_equalityI)
  fix p
  assume "p < length (passed mul add sub h w (A @ B))"
  then have p: "p < h + h" using assms by simp
  show "passed mul add sub h w (A @ B) ! p = joined mul add sub w A B ! p"
  proof (cases "p < h")
    case True
    then show ?thesis using assms by (simp add: passed_def joined_def butterfly_def nth_append)
  next
    case False
    then obtain q where q: "p = h + q" "q < h" using p le_Suc_ex [of h p] by auto
    then have "p div h = 1" "p mod h = q" using assms(1) by simp_all
    then show ?thesis using assms q by (simp add: passed_def joined_def butterfly_def nth_append)
  qed
qed (simp add: assms joined_def)

text \<open>The transform by halves; \<open>w i q\<close> is the factor of place \<open>q\<close> in pass \<open>i\<close>.\<close>

fun fft_halves :: "('a \<Rightarrow> 'a \<Rightarrow> 'a) \<Rightarrow> ('a \<Rightarrow> 'a \<Rightarrow> 'a) \<Rightarrow> ('a \<Rightarrow> 'a \<Rightarrow> 'a) \<Rightarrow> (nat \<Rightarrow> nat \<Rightarrow> 'a) \<Rightarrow> nat \<Rightarrow> 'a list \<Rightarrow> 'a list" where
  "fft_halves mul add sub w 0 xs = xs"
| "fft_halves mul add sub w (Suc k) xs =
     joined mul add sub (w k) (fft_halves mul add sub w k (evens xs)) (fft_halves mul add sub w k (odds xs))"

lemma length_halves [simp]: "length xs = 2 ^ k \<Longrightarrow> length (fft_halves mul add sub w k xs) = 2 ^ k"
  by (induction k arbitrary: xs) (simp_all add: joined_def)

lemma passed_fold_append:
  assumes "length A = 2 ^ k" "m \<le> k"
  shows "fold (\<lambda>i. passed mul add sub (2 ^ i) (w i)) [0..<m] (A @ B)
      = fold (\<lambda>i. passed mul add sub (2 ^ i) (w i)) [0..<m] A @ fold (\<lambda>i. passed mul add sub (2 ^ i) (w i)) [0..<m] B
    \<and> length (fold (\<lambda>i. passed mul add sub (2 ^ i) (w i)) [0..<m] A) = length A"
  using assms(2)
proof (induction m)
  case (Suc m)
  have "2 * 2 ^ m * 2 ^ (k - Suc m) = (2 ^ k :: nat)"
    using Suc.prems by (metis power_Suc power_add le_add_diff_inverse)
  then show ?case
    using Suc assms(1) passed_append [of "2 ^ m" "fold (\<lambda>i. passed mul add sub (2 ^ i) (w i)) [0..<m] A" "2 ^ (k - Suc m)"]
    by simp
qed simp

lemma passes_halves:
  "length xs = 2 ^ k \<Longrightarrow>
    fold (\<lambda>i. passed mul add sub (2 ^ i) (w i)) [0..<k] (remapped k xs) = fft_halves mul add sub w k xs"
proof (induction k arbitrary: xs)
  case (Suc k)
  have len: "length (evens xs) = 2 ^ k" "length (odds xs) = 2 ^ k" using Suc.prems by simp_all
  have "fold (\<lambda>i. passed mul add sub (2 ^ i) (w i)) [0..<k] (remapped (Suc k) xs)
    = fft_halves mul add sub w k (evens xs) @ fft_halves mul add sub w k (odds xs)"
    using passed_fold_append [OF length_remapped [OF len(1)] order_refl, of mul add sub w "remapped k (odds xs)"]
      Suc.IH [OF len(1)] Suc.IH [OF len(2)] by simp
  then show ?case
    using passed_two [OF _ length_halves [OF len(1)] length_halves [OF len(2)], where w = "w k"]
    by simp
qed simp

lemma fft_passes_eq:
  assumes "length xs = 2 ^ k"
  shows "fft_passes mul add sub tw k (2 ^ k) (remapped k xs)
    = fft_halves mul add sub (\<lambda>i q. tw (q * 2 ^ (k - i - 1))) k xs"
proof -
  have "m \<le> k \<Longrightarrow> length s = 2 ^ k \<Longrightarrow> fold (fft_pass mul add sub tw k (2 ^ k)) [0..<m] s
      = fold (\<lambda>i. passed mul add sub (2 ^ i) (\<lambda>q. tw (q * 2 ^ (k - i - 1)))) [0..<m] s
    \<and> length (fold (\<lambda>i. passed mul add sub (2 ^ i) (\<lambda>q. tw (q * 2 ^ (k - i - 1)))) [0..<m] s) = 2 ^ k" for m s
  proof (induction m)
    case (Suc m)
    have "2 * 2 ^ m * 2 ^ (k - Suc m) = (2 ^ k :: nat)"
      using Suc.prems by (metis power_Suc power_add le_add_diff_inverse)
    then show ?case
      using Suc fft_pass_eq [of m k "fold (\<lambda>i. passed mul add sub (2 ^ i) (\<lambda>q. tw (q * 2 ^ (k - i - 1)))) [0..<m] s"
          "2 ^ (k - Suc m)" mul add sub tw]
      by simp
  qed simp
  from this [OF order_refl, of "remapped k xs"] show ?thesis
    using passes_halves [OF assms, of mul add sub "\<lambda>i q. tw (q * 2 ^ (k - i - 1))"] assms
    by (simp add: fft_passes_def)
qed

section \<open>The discrete Fourier transform\<close>

definition fourier :: "complex list \<Rightarrow> nat \<Rightarrow> nat \<Rightarrow> complex" where
  "fourier xs n p = (\<Sum>q<n. xs ! q * cis (2 * pi * (real p * real q) / real n))"

lemma sum_even_odd: "(\<Sum>q<2 * n. f q) = (\<Sum>q<n. f (2 * q)) + (\<Sum>q<n. f (2 * q + 1))" for f :: "nat \<Rightarrow> 'a::comm_monoid_add"
  by (induction n) (simp_all add: ac_simps)

lemma fourier_halves:
  assumes "length xs = 2 * n" "0 < n"
  shows "fourier xs (2 * n) p
    = fourier (evens xs) n p + fourier (odds xs) n p * cis (2 * pi * real p / real (2 * n))"
proof -
  have e: "xs ! (2 * q) * cis (2 * pi * (real p * real (2 * q)) / real (2 * n))
    = evens xs ! q * cis (2 * pi * (real p * real q) / real n)" if "q < n" for q
  proof -
    have "2 * pi * (real p * real (2 * q)) / real (2 * n) = 2 * pi * (real p * real q) / real n"
      using assms(2) by (simp add: field_simps)
    then show ?thesis using that assms(1) by (simp only: evens_nth)
  qed
  have o: "xs ! (2 * q + 1) * cis (2 * pi * (real p * real (2 * q + 1)) / real (2 * n))
    = odds xs ! q * cis (2 * pi * (real p * real q) / real n) * cis (2 * pi * real p / real (2 * n))" if "q < n" for q
  proof -
    have "2 * pi * (real p * real (2 * q + 1)) / real (2 * n)
      = 2 * pi * (real p * real q) / real n + 2 * pi * real p / real (2 * n)"
      using assms(2) by (simp add: field_simps)
    then show ?thesis using that assms(1) by (simp add: odds_nth cis_mult mult.assoc)
  qed
  show ?thesis
    unfolding fourier_def sum_even_odd sum_distrib_right by (intro arg_cong2 [of _ _ _ _ "(+)"] sum.cong refl e o) simp_all
qed

lemma fourier_period: "0 < n \<Longrightarrow> fourier xs n (n + p) = fourier xs n p"
proof -
  assume n: "0 < n"
  have "cis (2 * pi * (real (n + p) * real q) / real n) = cis (2 * pi * (real p * real q) / real n)" for q
  proof -
    have "2 * pi * (real (n + p) * real q) / real n = 2 * pi * real q + 2 * pi * (real p * real q) / real n"
      using n by (simp add: field_simps)
    moreover have "cis (2 * pi * real q) = 1" by (rule cis_multiple_2pi) simp
    ultimately show ?thesis by (simp add: cis_mult [symmetric])
  qed
  then show ?thesis by (simp add: fourier_def)
qed

text \<open>The factors of an exact transform.\<close>

definition turn_at :: "nat \<Rightarrow> nat \<Rightarrow> complex" where
  "turn_at i q = cis (2 * pi * real q / 2 ^ (i + 1))"

lemma fourier_joined:
  assumes "length xs = 2 ^ Suc k" "p < 2 ^ k"
  shows "fourier xs (2 ^ Suc k) p = fourier (evens xs) (2 ^ k) p + fourier (odds xs) (2 ^ k) p * turn_at k p"
    and "fourier xs (2 ^ Suc k) (2 ^ k + p) = fourier (evens xs) (2 ^ k) p - fourier (odds xs) (2 ^ k) p * turn_at k p"
proof -
  have len: "length xs = 2 * 2 ^ k" using assms(1) by simp
  note h = fourier_halves [OF len]
  show "fourier xs (2 ^ Suc k) p = fourier (evens xs) (2 ^ k) p + fourier (odds xs) (2 ^ k) p * turn_at k p"
    using h [of p] by (simp add: turn_at_def)
  have "2 * pi * real (2 ^ k + p) / real (2 * 2 ^ k) = pi + 2 * pi * real p / 2 ^ (k + 1)"
    by (simp add: field_simps)
  then have "cis (2 * pi * real (2 ^ k + p) / real (2 * 2 ^ k)) = - turn_at k p"
    by (simp add: turn_at_def cis_mult [symmetric])
  then show "fourier xs (2 ^ Suc k) (2 ^ k + p) = fourier (evens xs) (2 ^ k) p - fourier (odds xs) (2 ^ k) p * turn_at k p"
    using h [of "2 ^ k + p"] by (simp add: fourier_period)
qed

lemma halves_fourier:
  "length xs = 2 ^ k \<Longrightarrow> p < 2 ^ k \<Longrightarrow> fft_halves (*) (+) (-) turn_at k xs ! p = fourier xs (2 ^ k) p"
proof (induction k arbitrary: xs p)
  case 0
  then show ?case by (simp add: fourier_def)
next
  case (Suc k)
  have len: "length (evens xs) = 2 ^ k" "length (odds xs) = 2 ^ k" using Suc.prems by simp_all
  show ?case
  proof (cases "p < 2 ^ k")
    case True
    then show ?thesis
      using Suc.IH [OF len(1) True] Suc.IH [OF len(2) True] fourier_joined(1) [OF Suc.prems(1) True] len
      by (simp add: joined_def nth_append)
  next
    case False
    then obtain q where q: "p = 2 ^ k + q" "q < 2 ^ k" using Suc.prems(2) le_Suc_ex [of "2 ^ k" p] by auto
    then show ?thesis
      using Suc.IH [OF len(1) q(2)] Suc.IH [OF len(2) q(2)] fourier_joined(2) [OF Suc.prems(1) q(2)] len
      by (simp add: joined_def nth_append)
  qed
qed

end
