(* ===== verification/Ifft.thy ===== *)
theory Ifft
  imports Fft Csd
begin

text \<open>
  The transforms of \<^verbatim>\<open>IFFT/ifft.c\<close> on the number format of the code: complex numbers with two
  \<open>float\<close> parts, whose products are cut to integers with \<open>dotscale\<close> fraction bits. The struct
  \<open>complex\<close> of \<^verbatim>\<open>headers/commonStructure.h\<close> is the type \<open>complex\<close> of two reals; \<open>fl\<close>, the rounding
  of a result to single precision, is an argument, with the locale \<open>float_rounding\<close> for what IEEE
  754 says of it. Every operation on \<open>float\<close> values rounds once; intermediate results in \<open>double\<close>
  and the constant \<open>M_PI\<close> are taken as exact. Timing and printing are not modelled.
\<close>

section \<open>Arithmetic\<close>

text \<open>The conversion to \<open>int\<close> of a number that does not fit has no meaning in C; the conversion
  instruction of the machine returns the least integer.\<close>

definition to_int32 :: "real \<Rightarrow> int32" where
  "to_int32 x = (if - (2 ^ 31) \<le> trunc x \<and> trunc x < 2 ^ 31 then word_of_int (trunc x) else word_of_int (- (2 ^ 31)))"

definition Add_Complex :: "(real \<Rightarrow> real) \<Rightarrow> complex \<Rightarrow> complex \<Rightarrow> complex" where
  "Add_Complex fl src1 src2 = Complex (fl (Re src1 + Re src2)) (fl (Im src1 + Im src2))"

definition Sub_Complex :: "(real \<Rightarrow> real) \<Rightarrow> complex \<Rightarrow> complex \<Rightarrow> complex" where
  "Sub_Complex fl src1 src2 = Complex (fl (Re src1 - Re src2)) (fl (Im src1 - Im src2))"

definition Multy_Complex :: "(real \<Rightarrow> real) \<Rightarrow> nat \<Rightarrow> complex \<Rightarrow> complex \<Rightarrow> complex" where
  "Multy_Complex fl scale ra rb =
     (let treal = to_int32 (fl (fl (Re ra * Re rb) - fl (Im ra * Im rb)));
          timag = to_int32 (fl (fl (Re ra * Im rb) + fl (Im ra * Re rb)))
      in Complex (fl (of_int (sint (signed_drop_bit scale treal))))
           (fl (of_int (sint (signed_drop_bit scale timag)))))"

definition getWN :: "(real \<Rightarrow> real) \<Rightarrow> nat \<Rightarrow> real \<Rightarrow> real \<Rightarrow> complex" where
  "getWN fl scale n size_n =
     (let x = fl (2 * pi * n / size_n) in Complex (fl (cos x * 2 ^ scale)) (fl (- sin x * 2 ^ scale)))"

section \<open>The transforms\<close>

text \<open>A call that does not come back is \<open>None\<close>; otherwise it returns a value or ends the program.\<close>

datatype 'a outcome = Returns 'a | Exits int

text \<open>The result is the array \<open>src\<close>, which the call reorders, and the array \<open>dst\<close>.\<close>

definition FFT :: "(real \<Rightarrow> real) \<Rightarrow> nat \<Rightarrow> complex list \<Rightarrow> nat \<Rightarrow> (complex list \<times> complex list) outcome option" where
  "FFT fl scale src size_n =
     (case FFT_remap size_n src of
        None \<Rightarrow> None
      | Some src \<Rightarrow>
          (let k = log_loop size_n
           in if size_n \<noteq> 2 ^ k then Some (Exits 0)
              else let src_com = map (\<lambda>i. src ! i) [0..<size_n];
                       src_com = fft_passes (Multy_Complex fl scale) (Add_Complex fl) (Sub_Complex fl)
                         (\<lambda>z. getWN fl scale (real z) (real size_n)) k size_n src_com
                   in Some (Returns (src, map (\<lambda>i. src_com ! i) [0..<size_n]))))"

definition IFFT :: "(real \<Rightarrow> real) \<Rightarrow> nat \<Rightarrow> complex list \<Rightarrow> nat \<Rightarrow> (complex list \<times> complex list) outcome option" where
  "IFFT fl scale src size_n =
     (case FFT_remap size_n src of
        None \<Rightarrow> None
      | Some src \<Rightarrow>
          (let k = log_loop size_n
           in if size_n \<noteq> 2 ^ k then Some (Exits 0)
              else let src_com = map (\<lambda>i. src ! i) [0..<size_n];
                       src_com = fft_passes (Multy_Complex fl scale) (Add_Complex fl) (Sub_Complex fl)
                         (\<lambda>z. getWN fl scale (- real z) (real size_n)) k size_n src_com
                   in Some (Returns (src, map (\<lambda>i. Complex (fl (Re (src_com ! i) / real size_n))
                        (fl (Im (src_com ! i) / real size_n))) [0..<size_n]))))"

text \<open>The direct transforms.\<close>

definition DFT :: "(real \<Rightarrow> real) \<Rightarrow> complex list \<Rightarrow> nat \<Rightarrow> complex list" where
  "DFT fl src size_n =
     map (\<lambda>m. let (real_part, imag_part) = fold (\<lambda>n (real_part, imag_part).
            let x = fl (pi * 2 * real m * real n / real size_n)
            in (fl (real_part + (Re (src ! n) * cos x + Im (src ! n) * sin x)),
                fl (imag_part + (- Re (src ! n) * sin x + Im (src ! n) * cos x)))) [0..<size_n] (0, 0)
       in Complex real_part imag_part) [0..<size_n]"

definition IDFT :: "(real \<Rightarrow> real) \<Rightarrow> complex list \<Rightarrow> nat \<Rightarrow> complex list" where
  "IDFT fl src size_n =
     map (\<lambda>m. let (real_part, imag_part) = fold (\<lambda>n (real_part, imag_part).
            let x = fl (pi * 2 * real m * real n / real size_n)
            in (fl (real_part + (Re (src ! n) * cos x - Im (src ! n) * sin x)),
                fl (imag_part + (Re (src ! n) * sin x + Im (src ! n) * cos x)))) [0..<size_n] (0, 0)
       in Complex (fl (real_part / real size_n)) (fl (imag_part / real size_n))) [0..<size_n]"

section \<open>The error of one operation\<close>

definition whole :: "complex \<Rightarrow> bool" where
  "whole z \<longleftrightarrow> Re z \<in> \<int> \<and> Im z \<in> \<int>"

lemma shifted_near:
  assumes "\<bar>x\<bar> < 2147483648 - 1"
  defines "y \<equiv> sint (signed_drop_bit 13 (to_int32 x))"
  shows "\<bar>of_int y - x / 8192\<bar> \<le> 1 + 1 / 8192" and "\<bar>of_int y\<bar> \<le> (524288 :: real)"
proof -
  let ?t = "trunc x"
  have t: "\<bar>of_int ?t - x\<bar> < 1" by (rule trunc_near)
  then have range: "- 2147483648 \<le> ?t" "?t < 2147483648" using assms(1) by linarith+
  then have "sint (word_of_int ?t :: int32) = ?t" by (intro sint_int32) simp_all
  then have y: "y = ?t div 8192"
    using range by (simp add: y_def to_int32_def sint_signed_drop_bit_eq drop_bit_eq_div)
  have "of_int ?t / 8192 - 1 \<le> real_of_int y" "real_of_int y \<le> of_int ?t / 8192"
    unfolding y by linarith+
  then show "\<bar>of_int y - x / 8192\<bar> \<le> 1 + 1 / 8192" using t by linarith
  then show "\<bar>of_int y\<bar> \<le> (524288 :: real)" using assms(1) by linarith
qed

lemma sin_near: "\<bar>sin x - sin y\<bar> \<le> \<bar>x - y :: real\<bar>"
proof -
  have "\<bar>sin x - sin y\<bar> = 2 * \<bar>sin ((x - y) / 2)\<bar> * \<bar>cos ((x + y) / 2)\<bar>" by (simp add: sin_diff_sin abs_mult)
  also have "\<dots> \<le> 2 * \<bar>(x - y) / 2\<bar> * 1" by (intro mult_mono abs_sin_x_le_abs_x) simp_all
  finally show ?thesis by simp
qed

lemma cos_near: "\<bar>cos x - cos y\<bar> \<le> \<bar>x - y :: real\<bar>"
  using sin_near [of "x + pi / 2" "y + pi / 2"] by (simp add: sin_add)

context float_rounding
begin

lemma fl_close: "\<bar>x\<bar> \<le> 10000000000 \<Longrightarrow> \<bar>fl x - x\<bar> \<le> \<bar>x\<bar> / 16777216 + 1 / 1000000000"
  using fl_near [of x] by simp

lemma fl_within: "\<bar>x\<bar> \<le> B \<Longrightarrow> B \<le> 10000000000 \<Longrightarrow> \<bar>fl x - x\<bar> \<le> B / 16777216 + 1 / 1000000000"
  using fl_close [of x] by linarith

lemma turn_near:
  assumes "\<bar>c - c'\<bar> \<le> 5 / 16777216" "\<bar>c\<bar> \<le> 1"
  shows "\<bar>fl (c * 8192) - c' * 8192\<bar> \<le> 1 / 256"
proof -
  have "\<bar>c * 8192\<bar> \<le> 8192" using assms(2) by (simp add: abs_mult)
  then have "\<bar>fl (c * 8192) - c * 8192\<bar> \<le> 8192 / 16777216 + 1 / 1000000000" using fl_close [of "c * 8192"] by linarith
  moreover have "\<bar>c * 8192 - c' * 8192\<bar> \<le> 5 / 16777216 * 8192" using assms(1) by linarith
  ultimately show ?thesis by linarith
qed

lemma getWN_near:
  assumes "x = 2 * pi * n / m" "\<bar>x\<bar> \<le> 4"
  shows "\<bar>Re (getWN fl 13 n m) - cos x * 8192\<bar> \<le> 1 / 256"
    and "\<bar>Im (getWN fl 13 n m) - (- sin x) * 8192\<bar> \<le> 1 / 256"
proof -
  have x: "\<bar>fl x - x\<bar> \<le> 5 / 16777216" using fl_close [of x] assms(2) by linarith
  have W: "getWN fl 13 n m = Complex (fl (cos (fl x) * 8192)) (fl ((- sin (fl x)) * 8192))"
    by (simp add: getWN_def Let_def assms(1))
  show "\<bar>Re (getWN fl 13 n m) - cos x * 8192\<bar> \<le> 1 / 256"
    unfolding W complex.sel by (rule turn_near [OF order_trans [OF cos_near x]]) simp
  have "\<bar>- sin (fl x) - (- sin x)\<bar> \<le> 5 / 16777216" using order_trans [OF sin_near x] by linarith
  then show "\<bar>Im (getWN fl 13 n m) - (- sin x) * 8192\<bar> \<le> 1 / 256"
    unfolding W complex.sel by (rule turn_near) simp
qed

lemma product_near:
  assumes "\<bar>a\<bar> \<le> 262144" "\<bar>c - C\<bar> \<le> 1 / 256" "\<bar>C\<bar> \<le> 8192"
  shows "\<bar>fl (a * c) - a * C\<bar> \<le> 1160" "\<bar>fl (a * c)\<bar> \<le> 4294967296"
proof -
  have "\<bar>a * (c - C)\<bar> \<le> 262144 * (1 / 256)" unfolding abs_mult by (intro mult_mono assms) simp_all
  then have d: "\<bar>a * c - a * C\<bar> \<le> 1024" by (simp add: right_diff_distrib)
  have "\<bar>a * C\<bar> \<le> 262144 * 8192" unfolding abs_mult by (intro mult_mono assms) simp_all
  then have ac: "\<bar>a * c\<bar> \<le> 2147483648 + 1024" "\<bar>a * C\<bar> \<le> 2147483648" using d by linarith+
  then have "\<bar>fl (a * c) - a * c\<bar> \<le> (2147483648 + 1024) / 16777216 + 1 / 1000000000"
    by (intro fl_within) simp_all
  also have "\<dots> \<le> 129" by simp
  finally show "\<bar>fl (a * c) - a * C\<bar> \<le> 1160" using d by linarith
  then show "\<bar>fl (a * c)\<bar> \<le> 4294967296" using ac(2) by linarith
qed

lemma part_near:
  assumes "\<bar>u - U\<bar> \<le> 1160" "\<bar>v - V\<bar> \<le> 1160" "\<bar>u\<bar> \<le> 4294967296" "\<bar>v\<bar> \<le> 4294967296"
  shows "\<bar>fl (u - v) - (U - V)\<bar> \<le> 3000" "\<bar>fl (u + v) - (U + V)\<bar> \<le> 3000"
proof -
  have r: "\<bar>fl w - w\<bar> \<le> 600" if "\<bar>w\<bar> \<le> 8589934592" for w
    using fl_close [of w] that by simp
  have "\<bar>u - v\<bar> \<le> 8589934592" "\<bar>u + v\<bar> \<le> 8589934592" using assms(3,4) by linarith+
  from r [OF this(1)] r [OF this(2)] assms(1,2)
  show "\<bar>fl (u - v) - (U - V)\<bar> \<le> 3000" "\<bar>fl (u + v) - (U + V)\<bar> \<le> 3000" by linarith+
qed

lemma shifted_part:
  assumes "\<bar>x - X * 8192\<bar> \<le> 3000" "\<bar>X\<bar> \<le> 262144 - 1024"
  defines "y \<equiv> fl (of_int (sint (signed_drop_bit 13 (to_int32 x))))"
  shows "y \<in> \<int>" "\<bar>y - X\<bar> \<le> 14 / 10"
proof -
  have "\<bar>x\<bar> < 2147483648 - 1" using assms(1,2) by linarith
  note s = shifted_near [OF this]
  have y: "y = of_int (sint (signed_drop_bit 13 (to_int32 x)))"
  proof -
    have "real_of_int \<bar>sint (signed_drop_bit 13 (to_int32 x))\<bar> \<le> real_of_int 524288" using s(2) by simp
    then have "\<bar>sint (signed_drop_bit 13 (to_int32 x))\<bar> \<le> 524288" by (simp only: of_int_le_iff)
    then show ?thesis unfolding y_def by (intro fl_int) simp
  qed
  then show "y \<in> \<int>" by (simp only: Ints_of_int)
  show "\<bar>y - X\<bar> \<le> 14 / 10" using s(1) assms(1) unfolding y by linarith
qed

lemma multy_near:
  assumes "cmod z \<le> 262144 - 1024" "x = 2 * pi * n / m" "\<bar>x\<bar> \<le> 4"
  defines "w \<equiv> cis (- x)"
  shows "whole (Multy_Complex fl 13 z (getWN fl 13 n m))"
    and "cmod (Multy_Complex fl 13 z (getWN fl 13 n m) - z * w) \<le> 2"
proof -
  let ?W = "getWN fl 13 n m"
  let ?C = "cos x * 8192"
  let ?D = "(- sin x) * 8192"
  have zb: "\<bar>Re z\<bar> \<le> 262144" "\<bar>Im z\<bar> \<le> 262144"
    using abs_Re_le_cmod [of z] abs_Im_le_cmod [of z] assms(1) by linarith+
  have cd: "\<bar>?C\<bar> \<le> 8192" "\<bar>?D\<bar> \<le> 8192" by (simp_all add: abs_mult)
  note W = getWN_near [OF assms(2,3)]
  note rc = product_near [OF zb(1) W(1) cd(1)] and rd = product_near [OF zb(1) W(2) cd(2)]
    and ic = product_near [OF zb(2) W(1) cd(1)] and id = product_near [OF zb(2) W(2) cd(2)]
  have zw: "Re (z * w) = Re z * cos x - Im z * (- sin x)"
    "Im (z * w) = Re z * (- sin x) + Im z * cos x"
    by (simp_all add: w_def)
  have "cmod (z * w) \<le> 262144 - 1024" using assms(1) by (simp add: norm_mult w_def)
  then have b: "\<bar>Re (z * w)\<bar> \<le> 262144 - 1024" "\<bar>Im (z * w)\<bar> \<le> 262144 - 1024"
    using abs_Re_le_cmod [of "z * w"] abs_Im_le_cmod [of "z * w"] by linarith+
  have "\<bar>fl (fl (Re z * Re ?W) - fl (Im z * Im ?W)) - Re (z * w) * 8192\<bar> \<le> 3000"
    using part_near(1) [OF rc(1) id(1) rc(2) id(2)] unfolding zw by (simp add: algebra_simps)
  note re = shifted_part [OF this b(1)]
  have "\<bar>fl (fl (Re z * Im ?W) + fl (Im z * Re ?W)) - Im (z * w) * 8192\<bar> \<le> 3000"
    using part_near(2) [OF rd(1) ic(1) rd(2) ic(2)] unfolding zw by (simp add: algebra_simps)
  note im = shifted_part [OF this b(2)]
  show "whole (Multy_Complex fl 13 z ?W)" using re(1) im(1) by (simp add: whole_def Multy_Complex_def Let_def)
  let ?d = "Multy_Complex fl 13 z ?W - z * w"
  have "\<bar>Re ?d\<bar> \<le> 14 / 10" "\<bar>Im ?d\<bar> \<le> 14 / 10"
    using re(2) im(2) by (simp_all add: Multy_Complex_def Let_def)
  then have "(Re ?d)\<^sup>2 + (Im ?d)\<^sup>2 \<le> (14 / 10)\<^sup>2 + (14 / 10)\<^sup>2"
    by (intro add_mono) (simp_all add: abs_le_square_iff [symmetric])
  then have "(cmod ?d)\<^sup>2 \<le> (14 / 10)\<^sup>2 + (14 / 10)\<^sup>2" by (simp only: cmod_power2)
  also have "\<dots> \<le> (2 :: real)\<^sup>2" by (simp add: power2_eq_square)
  finally show "cmod ?d \<le> 2" by (rule power2_le_imp_le) simp
qed

lemma scaled_near:
  assumes "1 \<le> N" "N \<le> 261120" "cmod c \<le> 1048576"
  shows "cmod (Complex (fl (Re c / N)) (fl (Im c / N)) - c / complex_of_real N) \<le> 2 / N"
proof -
  have part: "\<bar>fl (x / N) - x / N\<bar> \<le> 1 / N" if "\<bar>x\<bar> \<le> 1048576" for x
  proof -
    have b: "\<bar>x / N\<bar> \<le> 1048576 / N" using that assms(1) by (simp add: divide_right_mono)
    have "1048576 / N \<le> 10000000000" using assms(1) by (simp add: field_simps)
    with b have "\<bar>fl (x / N) - x / N\<bar> \<le> 1048576 / N / 16777216 + 1 / 1000000000" by (rule fl_within)
    also have "\<dots> \<le> 1 / N" using assms(1,2) by (simp add: field_simps)
    finally show ?thesis .
  qed
  let ?d = "Complex (fl (Re c / N)) (fl (Im c / N)) - c / complex_of_real N"
  have "\<bar>Re ?d\<bar> \<le> 1 / N" "\<bar>Im ?d\<bar> \<le> 1 / N"
    using part [of "Re c"] part [of "Im c"] abs_Re_le_cmod [of c] abs_Im_le_cmod [of c] assms(3) by simp_all
  then show ?thesis using cmod_le [of ?d] by linarith
qed

lemma scaled_total:
  assumes "cmod (d - c / complex_of_real N) \<le> 2 / N" "cmod (c - f) \<le> 2 * (N - 1)" "1 \<le> N"
  shows "cmod (d - f / complex_of_real N) \<le> 2"
proof -
  have "cmod (c / complex_of_real N - f / complex_of_real N) = cmod (c - f) / N"
    using assms(3) by (simp add: diff_divide_distrib [symmetric] norm_divide)
  also have "\<dots> \<le> 2 * (N - 1) / N" using assms(2,3) by (intro divide_right_mono) simp_all
  also have "\<dots> = 2 - 2 / N" using assms(3) by (simp add: field_simps)
  finally show ?thesis
    using assms(1) norm_triangle_ineq [of "d - c / complex_of_real N" "c / complex_of_real N - f / complex_of_real N"] by simp
qed

lemma fl_whole: "x \<in> \<int> \<Longrightarrow> \<bar>x\<bar> \<le> 16777216 \<Longrightarrow> fl x = x"
proof (elim Ints_cases)
  fix i assume "\<bar>x\<bar> \<le> 16777216" "x = of_int i"
  then show "fl x = x" using fl_int [of i] by (simp add: of_int_abs [symmetric] del: of_int_abs)
qed

lemma add_sub_exact:
  assumes "whole x" "whole y" "cmod x \<le> 1048576" "cmod y \<le> 1048576"
  shows "Add_Complex fl x y = x + y" "Sub_Complex fl x y = x - y" "whole (x + y)" "whole (x - y)"
proof -
  have "\<bar>Re x\<bar> \<le> 1048576" "\<bar>Im x\<bar> \<le> 1048576" "\<bar>Re y\<bar> \<le> 1048576" "\<bar>Im y\<bar> \<le> 1048576"
    using abs_Re_le_cmod [of x] abs_Im_le_cmod [of x] abs_Re_le_cmod [of y] abs_Im_le_cmod [of y] assms(3,4) by linarith+
  then have "\<bar>Re x + Re y\<bar> \<le> 16777216" "\<bar>Im x + Im y\<bar> \<le> 16777216" "\<bar>Re x - Re y\<bar> \<le> 16777216" "\<bar>Im x - Im y\<bar> \<le> 16777216"
    by linarith+
  then show "Add_Complex fl x y = x + y" "Sub_Complex fl x y = x - y"
    using assms(1,2) by (auto simp: Add_Complex_def Sub_Complex_def whole_def fl_whole complex_eq_iff)
  show "whole (x + y)" "whole (x - y)" using assms(1,2) by (auto simp: whole_def)
qed

text \<open>The factor of place \<open>q\<close> in pass \<open>i\<close> of an inverse transform of \<open>2^K\<close> values.\<close>

lemma factor_near:
  assumes "i < K" "q < 2 ^ i" "cmod z \<le> 261120"
  defines "W \<equiv> getWN fl 13 (- real (q * 2 ^ (K - i - 1))) (real (2 ^ K))"
  shows "whole (Multy_Complex fl 13 z W)" "cmod (Multy_Complex fl 13 z W - z * turn_at i q) \<le> 2"
proof -
  let ?x = "- (2 * pi * real q / 2 ^ (i + 1))"
  have "K = (i + 1) + (K - i - 1)" using assms(1) by simp
  then have K: "real (2 ^ K) = 2 ^ (i + 1) * 2 ^ (K - i - 1)" by (metis of_nat_numeral of_nat_power power_add)
  have x: "?x = 2 * pi * (- real (q * 2 ^ (K - i - 1))) / real (2 ^ K)" unfolding K by simp
  have "real q \<le> 2 ^ i" using assms(2) of_nat_mono [of q "2 ^ i"] by simp
  then have "2 * pi * real q / 2 ^ (i + 1) \<le> pi" by (simp add: field_simps)
  then have "\<bar>?x\<bar> \<le> 4" using pi_less_4 by (simp add: abs_le_iff)
  moreover have "cmod z \<le> 262144 - 1024" using assms(3) by simp
  moreover have "cis (- ?x) = turn_at i q" by (simp add: turn_at_def)
  ultimately show "whole (Multy_Complex fl 13 z W)" "cmod (Multy_Complex fl 13 z W - z * turn_at i q) \<le> 2"
    using multy_near [OF _ x] unfolding W_def by metis+
qed

end

section \<open>The error of a transform\<close>

definition weight :: "complex list \<Rightarrow> real" where
  "weight xs = sum_list (map cmod xs)"

lemma weight_halves: "weight (evens xs) + weight (odds xs) = weight xs"
proof -
  have "weight ys = sum_mset (image_mset cmod (mset ys))" for ys
    by (simp add: weight_def sum_mset_sum_list [symmetric])
  then show ?thesis by (simp add: mset_evens_odds [of xs, symmetric])
qed

lemma weight_nonneg: "0 \<le> weight xs"
  unfolding weight_def by (rule sum_list_nonneg) auto

lemma fourier_weight: "length xs = n \<Longrightarrow> cmod (fourier xs n p) \<le> weight xs"
  unfolding fourier_def weight_def
  by (rule order_trans [OF norm_sum]) (simp add: norm_mult sum_list_sum_nth atLeast0LessThan)

lemma set_evens_odds: "set (evens xs) \<subseteq> set xs" "set (odds xs) \<subseteq> set xs"
  by (auto simp: evens_def odds_def)

context float_rounding
begin

lemma joined_near:
  assumes "whole A" "cmod A \<le> 261120" "cmod (A - a) \<le> e" and "cmod B \<le> 261120" "cmod (B - b) \<le> e"
    and "whole M" "cmod (M - B * t) \<le> 2" "cmod t = 1"
  shows "whole (Add_Complex fl A M)" "cmod (Add_Complex fl A M - (a + b * t)) \<le> 2 * e + 2"
    and "whole (Sub_Complex fl A M)" "cmod (Sub_Complex fl A M - (a - b * t)) \<le> 2 * e + 2"
proof -
  have M: "cmod M \<le> 1048576" using norm_triangle_sub [of M "B * t"] assms(4,7,8) by (simp add: norm_mult)
  have "cmod A \<le> 1048576" using assms(2) by simp
  note exact = add_sub_exact [OF assms(1,6) this M]
  then show "whole (Add_Complex fl A M)" "whole (Sub_Complex fl A M)" by (simp_all only:)
  have "cmod (B * t - b * t) \<le> e" using assms(5,8) by (simp add: left_diff_distrib [symmetric] norm_mult)
  then have Mb: "cmod (M - b * t) \<le> 2 + e"
    using assms(7) norm_triangle_ineq [of "M - B * t" "B * t - b * t"] by simp
  have eq: "(A + M) - (a + b * t) = (A - a) + (M - b * t)" "(A - M) - (a - b * t) = (A - a) - (M - b * t)" by simp_all
  show "cmod (Add_Complex fl A M - (a + b * t)) \<le> 2 * e + 2" "cmod (Sub_Complex fl A M - (a - b * t)) \<le> 2 * e + 2"
    using norm_triangle_ineq [of "A - a" "M - b * t"] norm_triangle_ineq4 [of "A - a" "M - b * t"] assms(3) Mb
    unfolding exact(1,2) eq by linarith+
qed

lemma halves_near:
  fixes K :: nat
  defines "w \<equiv> \<lambda>i q. getWN fl 13 (- real (q * 2 ^ (K - i - 1))) (real (2 ^ K))"
  shows "k \<le> K \<Longrightarrow> length xs = 2 ^ k \<Longrightarrow> \<forall>x \<in> set xs. whole x \<Longrightarrow>
    (0 < k \<Longrightarrow> weight (evens xs) + 2 ^ k \<le> 261120 \<and> weight (odds xs) + 2 ^ k \<le> 261120) \<Longrightarrow> p < 2 ^ k \<Longrightarrow>
    whole (fft_halves (Multy_Complex fl 13) (Add_Complex fl) (Sub_Complex fl) w k xs ! p)
    \<and> cmod (fft_halves (Multy_Complex fl 13) (Add_Complex fl) (Sub_Complex fl) w k xs ! p - fourier xs (2 ^ k) p) \<le> 2 * (2 ^ k - 1)"
proof (induction k arbitrary: xs p)
  case 0
  then show ?case by (auto simp: fourier_def)
next
  case (Suc k)
  let ?H = "fft_halves (Multy_Complex fl 13) (Add_Complex fl) (Sub_Complex fl) w k"
  have len: "length (evens xs) = 2 ^ k" "length (odds xs) = 2 ^ k" using Suc.prems by simp_all
  have wt: "weight (evens xs) + 2 * 2 ^ k \<le> 261120" "weight (odds xs) + 2 * 2 ^ k \<le> 261120" using Suc.prems(4) by simp_all
  have sub: "weight (evens ys) + 2 ^ k \<le> 261120 \<and> weight (odds ys) + 2 ^ k \<le> 261120" if "weight ys + 2 * 2 ^ k \<le> 261120" for ys
  proof -
    have "0 \<le> (2 :: real) ^ k" by simp
    then show ?thesis
      using that weight_halves [of ys] weight_nonneg [of "evens ys"] weight_nonneg [of "odds ys"] by (intro conjI; linarith)
  qed
  obtain q where q: "q < 2 ^ k" "p = q \<or> p = 2 ^ k + q"
    using Suc.prems(5) le_Suc_ex [of "2 ^ k" p] by (cases "p < 2 ^ k") auto
  let ?a = "fourier (evens xs) (2 ^ k) q" and ?b = "fourier (odds xs) (2 ^ k) q"
  let ?A = "?H (evens xs) ! q" and ?B = "?H (odds xs) ! q"
  have A: "whole ?A" "cmod (?A - ?a) \<le> 2 * (2 ^ k - 1)"
    using Suc.IH [OF _ len(1) _ _ q(1)] Suc.prems(1,3) set_evens_odds(1) [of xs] sub [OF wt(1)] by auto
  have B: "whole ?B" "cmod (?B - ?b) \<le> 2 * (2 ^ k - 1)"
    using Suc.IH [OF _ len(2) _ _ q(1)] Suc.prems(1,3) set_evens_odds(2) [of xs] sub [OF wt(2)] by auto
  have big: "cmod y \<le> 261120" if "cmod (y - z) \<le> 2 * (2 ^ k - 1)" "cmod z \<le> c" "c + 2 * 2 ^ k \<le> 261120" for y z c
    using that norm_triangle_sub [of y z] by simp
  note bA = big [OF A(2) fourier_weight [OF len(1)] wt(1)] and bB = big [OF B(2) fourier_weight [OF len(2)] wt(2)]
  let ?t = "turn_at k q" and ?M = "Multy_Complex fl 13 ?B (w k q)"
  have M: "whole ?M" "cmod (?M - ?B * ?t) \<le> 2"
    using factor_near [of k K q ?B] Suc.prems(1) q(1) bB by (simp_all add: w_def)
  have t: "cmod ?t = 1" by (simp add: turn_at_def)
  note near = joined_near [OF A(1) bA A(2) bB B(2) M t]
  have H: "fft_halves (Multy_Complex fl 13) (Add_Complex fl) (Sub_Complex fl) w (Suc k) xs ! q = Add_Complex fl ?A ?M"
    "fft_halves (Multy_Complex fl 13) (Add_Complex fl) (Sub_Complex fl) w (Suc k) xs ! (2 ^ k + q) = Sub_Complex fl ?A ?M"
    using len q(1) by (simp_all add: joined_def nth_append)
  have "2 * (2 * (2 ^ k - 1)) + 2 = 2 * (2 ^ Suc k - (1 :: real))" by simp
  with near q(2) H fourier_joined [OF Suc.prems(2) q(1)] show ?case by (elim disjE) (simp_all only:)
qed

end

text \<open>Sums that a data symbol can reach do not fit: the conversion of their products overflows.\<close>

lemma multy_overflows:
  assumes "float_rounding fl"
  shows "Re (Multy_Complex fl 13 (Complex 991232 0) (Complex 8192 0)) = - 262144"
proof -
  have fl_0: "fl 0 = 0" using float_rounding.fl_int [OF assms, of 0] by simp
  have "7000000000 \<le> fl 8120172544" "fl 8120172544 \<le> 9000000000"
    using float_rounding.fl_close [OF assms, of 8120172544] by (simp_all, linarith+)
  then have "6000000000 \<le> fl (fl 8120172544)" using float_rounding.fl_close [OF assms, of "fl 8120172544"] by (simp add: abs_le_iff)
  then have "\<not> trunc (fl (fl 8120172544)) < 2147483648" using trunc_near(1) [of "fl (fl 8120172544)"] by linarith
  then have "to_int32 (fl (fl 8120172544)) = word_of_int (- 2147483648)" by (simp add: to_int32_def)
  moreover have "sint (signed_drop_bit 13 (word_of_int (- 2147483648) :: int32)) = - 262144" by code_simp
  ultimately have "of_int (sint (signed_drop_bit 13 (to_int32 (fl (fl 8120172544))))) = (of_int (- 262144) :: real)"
    by (simp only:)
  then show ?thesis using float_rounding.fl_int [OF assms, of "- 262144"] by (simp add: Multy_Complex_def Let_def fl_0)
qed

section \<open>Calls\<close>

lemma log_loop_power: "log_loop (2 ^ k) = k"
proof (induction k)
  case (Suc k)
  have "2 ^ Suc k div 2 = (2 ^ k :: nat)" by simp
  then show ?case using Suc by (subst log_loop.simps) (simp del: power_Suc)
qed (simp add: log_loop.simps)

lemma IFFT_power:
  assumes "length src = 2 ^ k"
  shows "IFFT fl scale src (2 ^ k) = Some (Returns (remapped k src,
    map (\<lambda>i. Complex (fl (Re (fft_halves (Multy_Complex fl scale) (Add_Complex fl) (Sub_Complex fl)
            (\<lambda>i q. getWN fl scale (- real (q * 2 ^ (k - i - 1))) (real (2 ^ k))) k src ! i) / real (2 ^ k)))
        (fl (Im (fft_halves (Multy_Complex fl scale) (Add_Complex fl) (Sub_Complex fl)
            (\<lambda>i q. getWN fl scale (- real (q * 2 ^ (k - i - 1))) (real (2 ^ k))) k src ! i) / real (2 ^ k)))) [0..<2 ^ k]))"
proof -
  have "FFT_remap (2 ^ k) src = Some (remapped k src)" using remap_power [of k src] assms by simp
  moreover have "map (\<lambda>i. remapped k src ! i) [0..<2 ^ k] = remapped k src"
    using map_nth [of "remapped k src"] assms by simp
  ultimately show ?thesis
    unfolding IFFT_def using fft_passes_eq [OF assms, of "Multy_Complex fl scale" "Add_Complex fl" "Sub_Complex fl"
        "\<lambda>z. getWN fl scale (- real z) (real (2 ^ k))"]
    by (simp only: option.case log_loop_power Let_def if_False simp_thms)
qed

lemma halves_cong:
  "length xs = 2 ^ k \<Longrightarrow> (\<And>i q. i < k \<Longrightarrow> q < 2 ^ i \<Longrightarrow> w i q = w' i q) \<Longrightarrow>
    fft_halves mul add sub w k xs = fft_halves mul add sub w' k xs"
  by (induction k arbitrary: xs) (simp_all add: joined_def)

lemma IDFT_exact: "p < n \<Longrightarrow> IDFT (\<lambda>x. x) src n ! p = fourier src n p / of_nat n" "length (IDFT fl src n) = n"
proof -
  assume p: "p < n"
  have "fold (\<lambda>q (real_part, imag_part).
      let x = pi * 2 * real p * real q / real n
      in (real_part + (Re (src ! q) * cos x - Im (src ! q) * sin x), imag_part + (Re (src ! q) * sin x + Im (src ! q) * cos x)))
      [0..<m] (0, 0)
    = (Re (\<Sum>q<m. src ! q * cis (2 * pi * (real p * real q) / real n)), Im (\<Sum>q<m. src ! q * cis (2 * pi * (real p * real q) / real n)))" for m
    by (induction m) (simp_all add: Let_def ac_simps)
  then show "IDFT (\<lambda>x. x) src n ! p = fourier src n p / of_nat n"
    using p by (simp add: IDFT_def fourier_def complex_eq_iff Re_divide_of_nat Im_divide_of_nat)
qed (simp add: IDFT_def)

lemma ifft_bound:
  assumes "float_rounding fl" "length src = 2 ^ Suc k" "\<forall>x \<in> set src. whole x"
    and "weight (evens src) + 2 ^ Suc k \<le> 261120" "weight (odds src) + 2 ^ Suc k \<le> 261120"
  shows "\<exists>src' dst. IFFT fl 13 src (2 ^ Suc k) = Some (Returns (src', dst)) \<and> length dst = 2 ^ Suc k
    \<and> (\<forall>p < 2 ^ Suc k. cmod (dst ! p - fourier src (2 ^ Suc k) p / complex_of_real (real (2 ^ Suc k))) \<le> 2)"
proof (intro exI conjI allI impI)
  let ?w = "\<lambda>i q. getWN fl 13 (- real (q * 2 ^ (Suc k - i - 1))) (real (2 ^ Suc k))"
  let ?h = "fft_halves (Multy_Complex fl 13) (Add_Complex fl) (Sub_Complex fl) ?w (Suc k) src"
  let ?N = "real (2 ^ Suc k)"
  show "IFFT fl 13 src (2 ^ Suc k) = Some (Returns (remapped (Suc k) src,
      map (\<lambda>i. Complex (fl (Re (?h ! i) / ?N)) (fl (Im (?h ! i) / ?N))) [0..<2 ^ Suc k]))" (is "_ = Some (Returns (_, ?dst))")
    by (rule IFFT_power [OF assms(2)])
  show "length ?dst = 2 ^ Suc k" by simp
  fix p :: nat
  assume p: "p < 2 ^ Suc k"
  let ?f = "fourier src (2 ^ Suc k) p"
  have h: "cmod (?h ! p - ?f) \<le> 2 * (2 ^ Suc k - 1)"
    using float_rounding.halves_near [OF assms(1) order_refl assms(2,3) _ p] assms(4,5) by simp
  have "1 \<le> (2 :: real) ^ Suc k" by (rule one_le_power) simp
  then have N: "1 \<le> ?N" "?N \<le> 261120" using assms(4) weight_nonneg [of "evens src"] by simp_all
  have "cmod ?f \<le> 2 * 261120"
    using fourier_weight [OF assms(2), of p] weight_halves [of src] assms(4,5) weight_nonneg N(1) by simp
  then have "cmod (?h ! p) \<le> 1048576" using h norm_triangle_sub [of "?h ! p" ?f] N(2) by simp
  note scaled = float_rounding.scaled_near [OF assms(1) N this]
  have "cmod (?h ! p - ?f) \<le> 2 * (?N - 1)" using h by (simp only: of_nat_power of_nat_numeral)
  from float_rounding.scaled_total [OF assms(1) scaled this N(1)]
  show "cmod (?dst ! p - ?f / complex_of_real ?N) \<le> 2"
    using p by (simp only: nth_map_upt [of p] nth_map length_upt diff_zero nth_upt add_0 of_real_of_nat_eq)
qed

section \<open>Properties\<close>

text \<open>C31: what a call of the inverse transform does. On size zero \<open>FFT_remap\<close> calls itself for ever;
  on a size that is no power of two the program ends with status zero; on a power of two the call
  returns as many values as the size says, and has permuted that part of \<open>src\<close>, by reversing the
  binary digits of the indices.\<close>

theorem ifft_outcome:
  assumes "size_n \<le> length src"
  shows "if size_n = 0 then IFFT fl scale src size_n = None
    else if \<nexists>k. size_n = 2 ^ k then IFFT fl scale src size_n = Some (Exits 0)
    else \<exists>src' dst. IFFT fl scale src size_n = Some (Returns (src', dst)) \<and> length dst = size_n
      \<and> length src' = length src \<and> mset (take size_n src') = mset (take size_n src)
      \<and> (\<forall>i < size_n. src' ! i = src ! bit_reversed (log_loop size_n) i)"
proof -
  consider "size_n = 0" | "0 < size_n" "\<nexists>k. size_n = 2 ^ k" | k where "size_n = 2 ^ k" by blast
  then show ?thesis
  proof cases
    case 1
    then show ?thesis by (simp add: IFFT_def remap_zero)
  next
    case 2
    then have "size_n \<noteq> 2 ^ log_loop size_n" by metis
    then show ?thesis using 2 remap_returns [OF 2(1) assms] by (auto simp: IFFT_def Let_def)
  next
    case 3
    let ?xs = "take (2 ^ k) src"
    have len: "length ?xs = 2 ^ k" using assms 3 by simp
    have r: "FFT_remap (2 ^ k) src = Some (remapped k ?xs @ drop (2 ^ k) src)"
      using remap_power assms 3 by blast
    obtain r' where r': "FFT_remap (2 ^ k) src = Some r'" "length r' = length src" "mset (take (2 ^ k) r') = mset ?xs"
      using remap_returns [of "2 ^ k" src] assms 3 by auto
    have "\<forall>i < 2 ^ k. r' ! i = src ! bit_reversed k i"
      using r r'(1) remapped_nth [OF len] len by (auto simp: nth_append)
    then show ?thesis using r' 3 by (auto simp: IFFT_def Let_def log_loop_power)
  qed
qed

theorem ifft_outcome_witness:
  "IFFT single 13 (replicate 12 (Complex 5 0)) 12 = Some (Exits 0) \<and> IFFT single 13 (replicate 12 (Complex 5 0)) 0 = None
    \<and> (\<exists>src' dst. IFFT single 13 (replicate 12 (Complex 5 0)) 8 = Some (Returns (src', dst)) \<and> length dst = 8)"
proof -
  have "(12 :: nat) \<noteq> 2 ^ k" for k
  proof
    assume "12 = (2 :: nat) ^ k"
    then have "log_loop 12 = k" using log_loop_power [of k] by simp
    moreover have "log_loop 12 = 3" by (simp add: log_loop.simps)
    ultimately show False using \<open>12 = 2 ^ k\<close> by simp
  qed
  moreover have "\<exists>src' dst. IFFT single 13 (replicate 12 (Complex 5 0)) 8 = Some (Returns (src', dst)) \<and> length dst = 8"
  proof -
    have "(8 :: nat) = 2 ^ 3" by simp
    then have "\<not> (\<nexists>k. (8 :: nat) = 2 ^ k)" by blast
    then show ?thesis using ifft_outcome [of 8 "replicate 12 (Complex 5 0)" single 13] by (auto simp only: if_not_P) auto
  qed
  ultimately show ?thesis
    using ifft_outcome [of 12 "replicate 12 (Complex 5 0)" single 13] ifft_outcome [of 0 "replicate 12 (Complex 5 0)" single 13]
    by (simp split: if_splits)
qed

text \<open>C32: the fast transform is the direct one. With exact operations, the butterfly passes over the
  reordered array, divided by the size, are the values of \<open>IDFT\<close> without rounding.\<close>

theorem fft_exact:
  assumes "length src = 2 ^ k" "FFT_remap (2 ^ k) src = Some r"
  shows "map (\<lambda>z. z / 2 ^ k) (fft_passes (*) (+) (-) (\<lambda>z. cis (2 * pi * real z / 2 ^ k)) k (2 ^ k) r)
    = IDFT (\<lambda>x. x) src (2 ^ k)"
proof (rule nth_equalityI)
  have r: "r = remapped k src" using remap_power [of k src] assms by simp
  let ?tw = "\<lambda>z. cis (2 * pi * real z / 2 ^ k)"
  have turn: "?tw (q * 2 ^ (k - i - 1)) = turn_at i q" if "i < k" for i q
  proof -
    have "k = (i + 1) + (k - i - 1)" using that by simp
    then have "(2 :: real) ^ k = 2 ^ (i + 1) * 2 ^ (k - i - 1)" by (metis power_add)
    then show ?thesis by (simp add: turn_at_def)
  qed
  have h: "fft_passes (*) (+) (-) ?tw k (2 ^ k) r = fft_halves (*) (+) (-) turn_at k src"
    unfolding r fft_passes_eq [OF assms(1)] by (rule halves_cong [OF assms(1)]) (rule turn)
  show "length (map (\<lambda>z. z / 2 ^ k) (fft_passes (*) (+) (-) ?tw k (2 ^ k) r)) = length (IDFT (\<lambda>x. x) src (2 ^ k))"
    using assms(1) by (simp add: h IDFT_exact(2))
  fix p
  assume "p < length (map (\<lambda>z. z / 2 ^ k) (fft_passes (*) (+) (-) ?tw k (2 ^ k) r))"
  then have p: "p < 2 ^ k" using assms(1) by (simp add: h)
  then show "map (\<lambda>z. z / 2 ^ k) (fft_passes (*) (+) (-) ?tw k (2 ^ k) r) ! p = IDFT (\<lambda>x. x) src (2 ^ k) ! p"
    using halves_fourier [OF assms(1) p] assms(1) by (simp add: h IDFT_exact(1))
qed

theorem fft_exact_witness:
  "map (\<lambda>z. z / 2 ^ 2) (fft_passes (*) (+) (-) (\<lambda>z. cis (2 * pi * real z / 2 ^ 2)) 2 (2 ^ 2) [Complex 1 2, 3, Complex 0 5, 7])
    = IDFT (\<lambda>x. x) [Complex 1 2, Complex 0 5, 3, 7] (2 ^ 2)"
proof (rule fft_exact)
  have "remapped 2 [Complex 1 2, Complex 0 5, 3, 7] = [Complex 1 2, 3, Complex 0 5, 7]"
    by (simp add: numeral_2_eq_2)
  then show "FFT_remap (2 ^ 2) [Complex 1 2, Complex 0 5, 3, 7] = Some [Complex 1 2, 3, Complex 0 5, 7]"
    using remap_power [of 2 "[Complex 1 2, Complex 0 5, 3, 7]"] by simp
qed simp

text \<open>C33: the precision of the inverse transform. With 13 fraction bits, on inputs with integers for
  their parts whose even and whose odd places sum up in magnitude to no more than 261120 less the size,
  \<open>IFFT\<close> returns, and each of its values is within 2 of the exact inverse transform, whatever the
  power of two that is the size.\<close>

theorem ifft_near:
  assumes "float_rounding fl" "length src = 2 ^ Suc k" "\<forall>x \<in> set src. whole x"
    and "weight (evens src) + 2 ^ Suc k \<le> 261120" "weight (odds src) + 2 ^ Suc k \<le> 261120"
  shows "\<exists>src' dst. IFFT fl 13 src (2 ^ Suc k) = Some (Returns (src', dst)) \<and> length dst = 2 ^ Suc k
    \<and> (\<forall>p < 2 ^ Suc k. cmod (dst ! p - IDFT (\<lambda>x. x) src (2 ^ Suc k) ! p) \<le> 2)"
proof -
  have "IDFT (\<lambda>x. x) src (2 ^ Suc k) ! p = fourier src (2 ^ Suc k) p / complex_of_real (real (2 ^ Suc k))" if "p < 2 ^ Suc k" for p
    using IDFT_exact(1) [OF that] by (simp only: of_real_of_nat_eq)
  then show ?thesis using ifft_bound [OF assms] by metis
qed

text \<open>Four values of 8192 on the even places of eight sum up to 32768; the sixth value of the
  transform is within 2 of the exact one.\<close>

theorem ifft_near_witness:
  "\<exists>src' dst. IFFT single 13 [8192, 0, 8192, Complex 5 (- 77), 8192, 0, 8192, 0] (2 ^ Suc 2) = Some (Returns (src', dst))
    \<and> cmod (dst ! 5 - IDFT (\<lambda>x. x) [8192, 0, 8192, Complex 5 (- 77), 8192, 0, 8192, 0] (2 ^ Suc 2) ! 5) \<le> 2"
proof -
  let ?src = "[8192, 0, 8192, Complex 5 (- 77), 8192, 0, 8192, 0]"
  have w: "\<forall>x \<in> set ?src. whole x" by (simp add: whole_def)
  have "cmod (Complex 5 (- 77)) \<le> 5 + 77" using cmod_le [of "Complex 5 (- 77)"] by simp
  then have "weight (evens ?src) + 2 ^ Suc 2 \<le> 261120" "weight (odds ?src) + 2 ^ Suc 2 \<le> 261120"
    by (simp_all add: weight_def)
  from ifft_near [OF singles.float_rounding_axioms _ w this] show ?thesis by fastforce
qed

end
