(* ===== verification/Preamble.thy ===== *)
theory Preamble
  imports Csd Bcc
begin

text \<open>
  The fields in front of the data, as \<open>main\<close> prepares them before the threads start: the tables
  of \<^verbatim>\<open>VarINIT/globalVarINIT.c\<close> and the routines of \<^verbatim>\<open>Process\<close> that build the signal field
  (\<open>setSigInfo\<close>, \<open>generateBasicSig\<close>), the training fields (\<open>generateSTF_csd\<close>,
  \<open>generateLTF_csd\<close>, \<open>generateHeLTF_csd\<close>) and the whole preamble of every antenna
  (\<open>generatePreambleAndHeLTF_csd\<close>), in the build with AVX2. An allocation never fails here;
  the contents of memory that is allocated and not cleared are an argument. The files with
  copies of the fields, written for tests, are not modelled.
\<close>

section \<open>Tables\<close>

definition basicSTF :: "complex32 list" where
  "basicSTF = [cpx 0 0, cpx 0 0, cpx 5792 5792, cpx 0 0, cpx 0 0, cpx 0 0,
     cpx (- 5793) (- 5793), cpx 0 0, cpx 0 0, cpx 0 0, cpx 5792 5792, cpx 0 0,
     cpx 0 0, cpx 0 0, cpx (- 5793) (- 5793), cpx 0 0, cpx 0 0, cpx 0 0,
     cpx (- 5793) (- 5793), cpx 0 0, cpx 0 0, cpx 0 0, cpx 5792 5792, cpx 0 0,
     cpx 0 0, cpx 0 0, cpx 0 0, cpx 0 0, cpx 0 0, cpx 0 0,
     cpx (- 5793) (- 5793), cpx 0 0, cpx 0 0, cpx 0 0, cpx (- 5793) (- 5793), cpx 0 0,
     cpx 0 0, cpx 0 0, cpx 5792 5792, cpx 0 0, cpx 0 0, cpx 0 0,
     cpx 5792 5792, cpx 0 0, cpx 0 0, cpx 0 0, cpx 5792 5792, cpx 0 0,
     cpx 0 0, cpx 0 0, cpx 5792 5792, cpx 0 0, cpx 0 0]"

definition basicLTF :: "complex32 list" where
  "basicLTF = [cpx 8192 0, cpx 8192 0, cpx (- 8192) 0, cpx (- 8192) 0, cpx 8192 0, cpx 8192 0,
     cpx (- 8192) 0, cpx 8192 0, cpx (- 8192) 0, cpx 8192 0, cpx 8192 0, cpx 8192 0,
     cpx 8192 0, cpx 8192 0, cpx 8192 0, cpx (- 8192) 0, cpx (- 8192) 0, cpx 8192 0,
     cpx 8192 0, cpx (- 8192) 0, cpx 8192 0, cpx (- 8192) 0, cpx 8192 0, cpx 8192 0,
     cpx 8192 0, cpx 8192 0, cpx 0 0, cpx 8192 0, cpx (- 8192) 0, cpx (- 8192) 0,
     cpx 8192 0, cpx 8192 0, cpx (- 8192) 0, cpx 8192 0, cpx (- 8192) 0, cpx 8192 0,
     cpx (- 8192) 0, cpx (- 8192) 0, cpx (- 8192) 0, cpx (- 8192) 0, cpx (- 8192) 0, cpx 8192 0,
     cpx 8192 0, cpx (- 8192) 0, cpx (- 8192) 0, cpx 8192 0, cpx (- 8192) 0, cpx 8192 0,
     cpx (- 8192) 0, cpx 8192 0, cpx 8192 0, cpx 8192 0, cpx 8192 0]"

definition basicHeLTF :: "complex32 list" where
  "basicHeLTF = [cpx 0 0, cpx 0 0, cpx 0 0, cpx 0 0, cpx 0 0, cpx 0 0,
     cpx 8192 0, cpx 8192 0, cpx (- 8192) 0, cpx (- 8192) 0, cpx 8192 0, cpx 8192 0,
     cpx (- 8192) 0, cpx 8192 0, cpx (- 8192) 0, cpx 8192 0, cpx 8192 0, cpx 8192 0,
     cpx 8192 0, cpx 8192 0, cpx 8192 0, cpx (- 8192) 0, cpx (- 8192) 0, cpx 8192 0,
     cpx 8192 0, cpx (- 8192) 0, cpx 8192 0, cpx (- 8192) 0, cpx 8192 0, cpx 8192 0,
     cpx 8192 0, cpx 8192 0, cpx 8192 0, cpx 8192 0, cpx (- 8192) 0, cpx (- 8192) 0,
     cpx 8192 0, cpx 8192 0, cpx (- 8192) 0, cpx 8192 0, cpx (- 8192) 0, cpx 8192 0,
     cpx (- 8192) 0, cpx (- 8192) 0, cpx (- 8192) 0, cpx (- 8192) 0, cpx (- 8192) 0, cpx 8192 0,
     cpx 8192 0, cpx (- 8192) 0, cpx (- 8192) 0, cpx 8192 0, cpx (- 8192) 0, cpx 8192 0,
     cpx (- 8192) 0, cpx 8192 0, cpx 8192 0, cpx 8192 0, cpx 8192 0, cpx (- 8192) 0,
     cpx (- 8192) 0, cpx (- 8192) 0, cpx 8192 0, cpx 8192 0, cpx (- 8192) 0, cpx 8192 0,
     cpx (- 8192) 0, cpx 8192 0, cpx 8192 0, cpx (- 8192) 0, cpx 8192 0, cpx 8192 0,
     cpx (- 8192) 0, cpx (- 8192) 0, cpx 8192 0, cpx 8192 0, cpx (- 8192) 0, cpx 8192 0,
     cpx (- 8192) 0, cpx 8192 0, cpx 8192 0, cpx 8192 0, cpx 8192 0, cpx 8192 0,
     cpx 8192 0, cpx (- 8192) 0, cpx (- 8192) 0, cpx 8192 0, cpx 8192 0, cpx (- 8192) 0,
     cpx 8192 0, cpx (- 8192) 0, cpx 8192 0, cpx 8192 0, cpx 8192 0, cpx 8192 0,
     cpx 8192 0, cpx 8192 0, cpx (- 8192) 0, cpx (- 8192) 0, cpx 8192 0, cpx 8192 0,
     cpx (- 8192) 0, cpx 8192 0, cpx (- 8192) 0, cpx 8192 0, cpx (- 8192) 0, cpx (- 8192) 0,
     cpx (- 8192) 0, cpx (- 8192) 0, cpx (- 8192) 0, cpx 8192 0, cpx 8192 0, cpx (- 8192) 0,
     cpx (- 8192) 0, cpx 8192 0, cpx (- 8192) 0, cpx 8192 0, cpx (- 8192) 0, cpx 8192 0,
     cpx 8192 0, cpx 8192 0, cpx 8192 0, cpx 8192 0, cpx (- 8192) 0, cpx 8192 0,
     cpx (- 8192) 0, cpx 0 0, cpx 0 0, cpx 0 0, cpx 8192 0, cpx (- 8192) 0,
     cpx (- 8192) 0, cpx 8192 0, cpx 8192 0, cpx 8192 0, cpx (- 8192) 0, cpx (- 8192) 0,
     cpx 8192 0, cpx 8192 0, cpx (- 8192) 0, cpx 8192 0, cpx (- 8192) 0, cpx 8192 0,
     cpx 8192 0, cpx 8192 0, cpx 8192 0, cpx 8192 0, cpx 8192 0, cpx (- 8192) 0,
     cpx (- 8192) 0, cpx 8192 0, cpx 8192 0, cpx (- 8192) 0, cpx 8192 0, cpx (- 8192) 0,
     cpx 8192 0, cpx 8192 0, cpx 8192 0, cpx 8192 0, cpx 8192 0, cpx 8192 0,
     cpx (- 8192) 0, cpx (- 8192) 0, cpx 8192 0, cpx 8192 0, cpx (- 8192) 0, cpx 8192 0,
     cpx (- 8192) 0, cpx 8192 0, cpx (- 8192) 0, cpx (- 8192) 0, cpx (- 8192) 0, cpx (- 8192) 0,
     cpx (- 8192) 0, cpx 8192 0, cpx 8192 0, cpx (- 8192) 0, cpx (- 8192) 0, cpx 8192 0,
     cpx (- 8192) 0, cpx 8192 0, cpx (- 8192) 0, cpx 8192 0, cpx 8192 0, cpx 8192 0,
     cpx 8192 0, cpx (- 8192) 0, cpx (- 8192) 0, cpx (- 8192) 0, cpx 8192 0, cpx 8192 0,
     cpx (- 8192) 0, cpx 8192 0, cpx (- 8192) 0, cpx 8192 0, cpx 8192 0, cpx (- 8192) 0,
     cpx 8192 0, cpx 8192 0, cpx (- 8192) 0, cpx (- 8192) 0, cpx 8192 0, cpx 8192 0,
     cpx (- 8192) 0, cpx 8192 0, cpx (- 8192) 0, cpx 8192 0, cpx 8192 0, cpx 8192 0,
     cpx 8192 0, cpx 8192 0, cpx 8192 0, cpx (- 8192) 0, cpx (- 8192) 0, cpx 8192 0,
     cpx 8192 0, cpx (- 8192) 0, cpx 8192 0, cpx (- 8192) 0, cpx 8192 0, cpx 8192 0,
     cpx 8192 0, cpx 8192 0, cpx 8192 0, cpx 8192 0, cpx (- 8192) 0, cpx (- 8192) 0,
     cpx 8192 0, cpx 8192 0, cpx (- 8192) 0, cpx 8192 0, cpx (- 8192) 0, cpx 8192 0,
     cpx (- 8192) 0, cpx (- 8192) 0, cpx (- 8192) 0, cpx (- 8192) 0, cpx (- 8192) 0, cpx 8192 0,
     cpx 8192 0, cpx (- 8192) 0, cpx (- 8192) 0, cpx 8192 0, cpx (- 8192) 0, cpx 8192 0,
     cpx (- 8192) 0, cpx 8192 0, cpx 8192 0, cpx 8192 0, cpx 8192 0, cpx 0 0,
     cpx 0 0, cpx 0 0, cpx 0 0, cpx 0 0]"

definition pilot_index :: "nat list" where
  "pilot_index = [25, 53, 89, 117, 139, 167, 203, 231]"

definition P1 :: "complex32 list" where
  "P1 = [cpx 8192 0]"

definition P2 :: "complex32 list" where
  "P2 = [cpx 8192 0, cpx (- 8192) 0, cpx 8192 0, cpx 8192 0]"

definition P3 :: "complex32 list" where
  "P3 = [cpx 8192 0, cpx (- 8192) 0, cpx 8192 0, cpx 8192 0, cpx 8192 0, cpx 8192 0,
     cpx (- 8192) 0, cpx 8192 0, cpx 8192 0, cpx 8192 0, cpx 8192 0, cpx (- 8192) 0]"

definition P4 :: "complex32 list" where
  "P4 = [cpx 8192 0, cpx (- 8192) 0, cpx 8192 0, cpx 8192 0, cpx 8192 0, cpx 8192 0,
     cpx (- 8192) 0, cpx 8192 0, cpx 8192 0, cpx 8192 0, cpx 8192 0, cpx (- 8192) 0,
     cpx (- 8192) 0, cpx 8192 0, cpx 8192 0, cpx 8192 0]"

definition P5 :: "complex32 list" where
  "P5 = [cpx 8192 0, cpx (- 8192) 0, cpx 8192 0, cpx 8192 0, cpx 8192 0, cpx (- 8192) 0,
     cpx 8192 0, cpx (- 4097) 7094, cpx (- 4096) (- 7095), cpx (- 8192) (- 1), cpx (- 4097) 7094, cpx (- 4096) (- 7095),
     cpx 8192 0, cpx 4095 7094, cpx (- 4097) 7094, cpx 8192 0, cpx (- 4096) (- 7095), cpx 4096 (- 7095),
     cpx 8192 0, cpx 8192 0, cpx 8192 0, cpx (- 8193) (- 1), cpx 8192 0, cpx 8192 0,
     cpx 8192 0, cpx 4096 (- 7095), cpx (- 4096) (- 7095), cpx 8192 0, cpx (- 4097) 7094, cpx 4095 7094]"

definition P6 :: "complex32 list" where
  "P6 = [cpx 8192 0, cpx (- 8192) 0, cpx 8192 0, cpx 8192 0, cpx 8192 0, cpx (- 8192) 0,
     cpx 8192 0, cpx (- 4097) 7094, cpx (- 4096) (- 7095), cpx (- 8192) (- 1), cpx (- 4097) 7094, cpx (- 4096) (- 7095),
     cpx 8192 0, cpx 4095 7094, cpx (- 4097) 7094, cpx 8192 0, cpx (- 4096) (- 7095), cpx 4096 (- 7095),
     cpx 8192 0, cpx 8192 0, cpx 8192 0, cpx (- 8193) (- 1), cpx 8192 0, cpx 8192 0,
     cpx 8192 0, cpx 4096 (- 7095), cpx (- 4096) (- 7095), cpx 8192 0, cpx (- 4097) 7094, cpx 4095 7094,
     cpx 8192 0, cpx (- 4096) (- 7095), cpx (- 4097) 7094, cpx (- 8193) (- 1), cpx (- 4096) (- 7095), cpx (- 4097) 7094]"

definition P7 :: "complex32 list" where
  "P7 = [cpx 8192 0, cpx (- 8192) 0, cpx 8192 0, cpx 8192 0, cpx 8192 0, cpx (- 8192) 0,
     cpx 8192 0, cpx 8192 0, cpx 8192 0, cpx 8192 0, cpx (- 8192) 0, cpx 8192 0,
     cpx 8192 0, cpx 8192 0, cpx (- 8192) 0, cpx 8192 0, cpx 8192 0, cpx 8192 0,
     cpx 8192 0, cpx (- 8192) 0, cpx 8192 0, cpx 8192 0, cpx 8192 0, cpx (- 8192) 0,
     cpx (- 8192) 0, cpx 8192 0, cpx 8192 0, cpx 8192 0, cpx (- 8192) 0, cpx 8192 0,
     cpx 8192 0, cpx 8192 0, cpx 8192 0, cpx (- 8192) 0, cpx 8192 0, cpx 8192 0,
     cpx 8192 0, cpx (- 8192) 0, cpx 8192 0, cpx 8192 0, cpx 8192 0, cpx 8192 0,
     cpx (- 8192) 0, cpx 8192 0, cpx 8192 0, cpx 8192 0, cpx (- 8192) 0, cpx 8192 0,
     cpx 8192 0, cpx 8192 0, cpx 8192 0, cpx (- 8192) 0, cpx 8192 0, cpx 8192 0,
     cpx 8192 0, cpx (- 8192) 0]"

definition P8 :: "complex32 list" where
  "P8 = [cpx 8192 0, cpx (- 8192) 0, cpx 8192 0, cpx 8192 0, cpx 8192 0, cpx (- 8192) 0,
     cpx 8192 0, cpx 8192 0, cpx 8192 0, cpx 8192 0, cpx (- 8192) 0, cpx 8192 0,
     cpx 8192 0, cpx 8192 0, cpx (- 8192) 0, cpx 8192 0, cpx 8192 0, cpx 8192 0,
     cpx 8192 0, cpx (- 8192) 0, cpx 8192 0, cpx 8192 0, cpx 8192 0, cpx (- 8192) 0,
     cpx (- 8192) 0, cpx 8192 0, cpx 8192 0, cpx 8192 0, cpx (- 8192) 0, cpx 8192 0,
     cpx 8192 0, cpx 8192 0, cpx 8192 0, cpx (- 8192) 0, cpx 8192 0, cpx 8192 0,
     cpx (- 8192) 0, cpx 8192 0, cpx (- 8192) 0, cpx (- 8192) 0, cpx 8192 0, cpx 8192 0,
     cpx (- 8192) 0, cpx 8192 0, cpx (- 8192) 0, cpx (- 8192) 0, cpx 8192 0, cpx (- 8192) 0,
     cpx 8192 0, cpx 8192 0, cpx 8192 0, cpx (- 8192) 0, cpx (- 8192) 0, cpx (- 8192) 0,
     cpx (- 8192) 0, cpx 8192 0, cpx (- 8192) 0, cpx 8192 0, cpx 8192 0, cpx 8192 0,
     cpx 8192 0, cpx (- 8192) 0, cpx (- 8192) 0, cpx (- 8192) 0]"

definition P :: "complex32 list list" where
  "P = [P1, P2, P3, P4, P5, P6, P7, P8]"

section \<open>The signal field\<close>

definition setSigInfo :: "byte list \<Rightarrow> byte list" where
  "setSigInfo SigInfo = SigInfo[0 := 0x8B, 1 := 0x00, 2 := 0x00]"

text \<open>The bytes hold one bit each. The second loop copies the first one's result back.\<close>

definition bccInterleaverForSig :: "byte list \<Rightarrow> byte list" where
  "bccInterleaverForSig sigAfterBCC =
     (let w = fold (\<lambda>k w. let k1 = k - 1; i = 4 * (k1 mod 12) + k1 div 12 in w[i := sigAfterBCC ! (k - 1)])
            [1..<49] (replicate 48 0)
      in fold (\<lambda>k s. let k1 = k - 1 in s[k1 := w ! (k - 1)]) [1..<49] sigAfterBCC)"

definition MapForSig :: "nat \<Rightarrow> byte list \<Rightarrow> complex32 list \<Rightarrow> nat \<Rightarrow> complex32 list" where
  "MapForSig scale sigAfterBCC sigAfterMap len =
     fold (\<lambda>i m. m[i := (m ! i)\<lparr>re := word_of_int (push_bit scale (2 * uint (sigAfterBCC ! i) - 1))\<rparr>])
       [0..<len] sigAfterMap"

text \<open>\<open>memcpy(dest + d, src + s, n)\<close> and \<open>basicSig[i].real = v << dotscale\<close>.\<close>

definition copy_part :: "nat \<Rightarrow> 'a list \<Rightarrow> nat \<Rightarrow> nat \<Rightarrow> 'a list \<Rightarrow> 'a list" where
  "copy_part d src s n dest = take d dest @ take n (drop s src) @ drop (d + n) dest"

definition set_real :: "nat \<Rightarrow> nat \<Rightarrow> int \<Rightarrow> complex32 list \<Rightarrow> complex32 list" where
  "set_real scale i v b = b[i := (b ! i)\<lparr>re := word_of_int (push_bit scale v)\<rparr>]"

definition addPilotForSig :: "nat \<Rightarrow> complex32 list \<Rightarrow> complex32 list \<Rightarrow> complex32 list" where
  "addPilotForSig scale sigAfterMap basicSig =
     (let Q = [1, 1, 1, - 1];
          b = set_real scale 4 1 basicSig;
          b = set_real scale 5 1 b;
          b = copy_part 6 sigAfterMap 0 5 b;
          b = set_real scale 11 (Q ! 0) b;
          b = copy_part 12 sigAfterMap 5 13 b;
          b = set_real scale 25 (Q ! 1) b;
          b = copy_part 26 sigAfterMap 18 6 b;
          b = copy_part 33 sigAfterMap 24 6 b;
          b = set_real scale 39 (Q ! 2) b;
          b = copy_part 40 sigAfterMap 30 13 b;
          b = set_real scale 53 (Q ! 3) b;
          b = copy_part 54 sigAfterMap 43 5 b;
          b = set_real scale 59 1 b
      in set_real scale 60 1 b)"

text \<open>The encoder fills the 48 bytes of \<open>sigAfterBCC\<close>; \<open>None\<close> when \<open>SigInfo\<close> has fewer than three.\<close>

definition generateBasicSig :: "nat \<Rightarrow> complex32 list \<Rightarrow> byte list \<Rightarrow> complex32 list option" where
  "generateBasicSig scale basicSig SigInfo =
     (case ccodedot11_encode (ccodedot11_init (replicate 128 0)) 3 SigInfo 0 of
        None \<Rightarrow> None
      | Some outs \<Rightarrow>
          (case write_prefix (replicate 48 0) outs of
             None \<Rightarrow> None
           | Some sigAfterBCC \<Rightarrow>
               (let sigAfterBCC = bccInterleaverForSig sigAfterBCC;
                    sigAfterMap = MapForSig scale sigAfterBCC (replicate 48 (cpx 0 0)) 48
                in Some (addPilotForSig scale sigAfterMap basicSig))))"

section \<open>The training fields\<close>

definition generateSTF_csd :: "(int16 \<Rightarrow> int16 \<Rightarrow> int16) \<Rightarrow> (int16 \<Rightarrow> int16 \<Rightarrow> int16) \<Rightarrow> (int16 \<Rightarrow> int16 \<Rightarrow> int16) \<Rightarrow> fpu
    \<Rightarrow> nat \<Rightarrow> complex32 list \<Rightarrow> nat \<Rightarrow> complex32 list" where
  "generateSTF_csd mulhrs add sub fp scale oneStreamOfSTF NTXindex =
     (let lengthAfterCSD = 53 in csdForPreamble mulhrs add sub fp scale basicSTF NTXindex lengthAfterCSD oneStreamOfSTF)"

definition generateLTF_csd :: "(int16 \<Rightarrow> int16 \<Rightarrow> int16) \<Rightarrow> (int16 \<Rightarrow> int16 \<Rightarrow> int16) \<Rightarrow> (int16 \<Rightarrow> int16 \<Rightarrow> int16) \<Rightarrow> fpu
    \<Rightarrow> nat \<Rightarrow> complex32 list \<Rightarrow> nat \<Rightarrow> complex32 list" where
  "generateLTF_csd mulhrs add sub fp scale oneStreamOfLTF NTXindex =
     (let lengthAfterCSD = 53 in csdForPreamble mulhrs add sub fp scale basicLTF NTXindex lengthAfterCSD oneStreamOfLTF)"

definition generateSig_csd :: "(int16 \<Rightarrow> int16 \<Rightarrow> int16) \<Rightarrow> (int16 \<Rightarrow> int16 \<Rightarrow> int16) \<Rightarrow> (int16 \<Rightarrow> int16 \<Rightarrow> int16) \<Rightarrow> fpu
    \<Rightarrow> nat \<Rightarrow> complex32 list \<Rightarrow> complex32 list \<Rightarrow> nat \<Rightarrow> complex32 list" where
  "generateSig_csd mulhrs add sub fp scale basicSig oneStreamOfSig NTXindex =
     (let lengthAfterCSD = 57
      in csdForPreamble mulhrs add sub fp scale (drop 4 basicSig) NTXindex lengthAfterCSD oneStreamOfSig)"

text \<open>The fields of one antenna: the three arrays after the call.\<close>

definition generatePreamble_csd :: "(int16 \<Rightarrow> int16 \<Rightarrow> int16) \<Rightarrow> (int16 \<Rightarrow> int16 \<Rightarrow> int16) \<Rightarrow> (int16 \<Rightarrow> int16 \<Rightarrow> int16) \<Rightarrow> fpu
    \<Rightarrow> nat \<Rightarrow> complex32 list \<Rightarrow> complex32 list \<Rightarrow> byte list \<Rightarrow> complex32 list \<Rightarrow> nat
    \<Rightarrow> (complex32 list \<times> complex32 list \<times> complex32 list) option" where
  "generatePreamble_csd mulhrs add sub fp scale oneStreamOfSTF oneStreamOfLTF SigInfo oneStreamOfSig NTXindex =
     (let stf = generateSTF_csd mulhrs add sub fp scale oneStreamOfSTF NTXindex;
          ltf = generateLTF_csd mulhrs add sub fp scale oneStreamOfLTF NTXindex
      in case generateBasicSig scale (replicate 64 (cpx 0 0)) SigInfo of
           None \<Rightarrow> None
         | Some basicSig \<Rightarrow>
             Some (stf, ltf, generateSig_csd mulhrs add sub fp scale basicSig oneStreamOfSig NTXindex))"

definition numberOfHeLTF :: nat where
  "numberOfHeLTF = (let ntx = N_TX in if ntx AND (ntx - 1) = 0 then ntx else ntx + 1)"

definition numberOfData :: "globals \<Rightarrow> int" where
  "numberOfData g =
     (let N_service = 16; N_tail = 6; m = mcs_table_for_20M g
      in ceil_div (8 * int (APEP_LEN g) + N_service + N_tail * int (n_es m)) (int (n_dbps m)))"

text \<open>The tones before the cyclic shift: \<open>k\<close> is the number of the next pilot.\<close>

definition heltf_tone :: "nat \<Rightarrow> nat \<Rightarrow> nat \<Rightarrow> nat \<Rightarrow> complex32 list \<times> nat \<Rightarrow> complex32 list \<times> nat" where
  "heltf_tone scale NTX_index i j s =
     (let (pbeforeCSD, k) = s;
          p_matrix = P ! (N_TX - 1);
          lenPmatrix = (if N_TX AND (N_TX - 1) = 0 then N_TX else N_TX + 1)
      in if j \<noteq> pilot_index ! k
         then (pbeforeCSD[i * 256 + j := multForComplex32 scale (basicHeLTF ! j) (p_matrix ! (NTX_index * lenPmatrix + i))], k)
         else (pbeforeCSD[i * 256 + j := multForComplex32 scale (basicHeLTF ! j) (p_matrix ! i)],
               if k + 1 = 8 then 0 else k + 1))"

definition heltf_tones :: "nat \<Rightarrow> nat \<Rightarrow> nat \<Rightarrow> complex32 list" where
  "heltf_tones scale NTX_index n_ltf =
     fst (fold (\<lambda>i. fold (heltf_tone scale NTX_index i) [0..<256]) [0..<n_ltf] (replicate (n_ltf * 256) (cpx 0 0), 0))"

definition generateHeLTF_csd :: "(int16 \<Rightarrow> int16 \<Rightarrow> int16) \<Rightarrow> (int16 \<Rightarrow> int16 \<Rightarrow> int16) \<Rightarrow> (int16 \<Rightarrow> int16 \<Rightarrow> int16) \<Rightarrow> fpu
    \<Rightarrow> nat \<Rightarrow> complex32 list \<Rightarrow> nat \<Rightarrow> nat \<Rightarrow> complex32 list" where
  "generateHeLTF_csd mulhrs add sub fp scale pHeLTFStart NTX_index n_ltf =
     (let pbeforeCSD = heltf_tones scale NTX_index n_ltf
      in fold (\<lambda>i h. take (i * 256) h @ csdForHeLTF mulhrs add sub fp scale (drop (i * 256) pbeforeCSD) NTX_index (drop (i * 256) h))
           [0..<n_ltf] pHeLTFStart)"

section \<open>The preamble of an antenna\<close>

text \<open>The global arrays of pointers \<open>STF\<close>, \<open>LTF\<close>, \<open>Sig\<close> and \<open>heLTF\<close> to what they point to. The
  argument \<open>mem i\<close> is what \<open>malloc\<close> finds in the memory of \<open>heLTF[i]\<close>.\<close>

record preamble =
  pre_STF :: "complex32 list list"
  pre_LTF :: "complex32 list list"
  pre_Sig :: "complex32 list list"
  pre_heLTF :: "complex32 list list"

definition preamble_antenna :: "(int16 \<Rightarrow> int16 \<Rightarrow> int16) \<Rightarrow> (int16 \<Rightarrow> int16 \<Rightarrow> int16) \<Rightarrow> (int16 \<Rightarrow> int16 \<Rightarrow> int16) \<Rightarrow> fpu
    \<Rightarrow> nat \<Rightarrow> byte list \<Rightarrow> nat \<Rightarrow> preamble \<Rightarrow> preamble option" where
  "preamble_antenna mulhrs add sub fp scale SigInfo i F =
     (let cleared = replicate 64 (cpx 0 0)
      in case generatePreamble_csd mulhrs add sub fp scale cleared cleared SigInfo cleared i of
           None \<Rightarrow> None
         | Some (stf, ltf, sig) \<Rightarrow>
             Some (F\<lparr>pre_STF := pre_STF F @ [stf], pre_LTF := pre_LTF F @ [ltf], pre_Sig := pre_Sig F @ [sig]\<rparr>))"

definition generatePreambleAndHeLTF_csd :: "(int16 \<Rightarrow> int16 \<Rightarrow> int16) \<Rightarrow> (int16 \<Rightarrow> int16 \<Rightarrow> int16) \<Rightarrow> (int16 \<Rightarrow> int16 \<Rightarrow> int16) \<Rightarrow> fpu
    \<Rightarrow> globals \<Rightarrow> (nat \<Rightarrow> complex32 list) \<Rightarrow> preamble option" where
  "generatePreambleAndHeLTF_csd mulhrs add sub fp g mem =
     (let SigInfo = setSigInfo (replicate 3 0);
          F0 = \<lparr>pre_STF = [], pre_LTF = [], pre_Sig = [], pre_heLTF = []\<rparr>
      in case fold (\<lambda>i F. Option.bind F (preamble_antenna mulhrs add sub fp (dotscale g) SigInfo i)) [0..<N_STS] (Some F0) of
           None \<Rightarrow> None
         | Some F \<Rightarrow>
             (let n_ltf = numberOfHeLTF
              in Some (F\<lparr>pre_heLTF := map (\<lambda>i. generateHeLTF_csd mulhrs add sub fp (dotscale g) (mem i) i n_ltf) [0..<N_TX]\<rparr>)))"

section \<open>The signal field, tone by tone\<close>

lemma interleave_step:
  assumes "n < 48" "q < (48 :: nat)"
  shows "4 * (n mod 12) + n div 12 = q \<longleftrightarrow> 12 * (q mod 4) + q div 4 = n"
proof
  assume q: "4 * (n mod 12) + n div 12 = q"
  have "n div 12 < 4" using assms(1) by simp
  then have "q mod 4 = n div 12" "q div 4 = n mod 12" by (simp_all flip: q)
  then show "12 * (q mod 4) + q div 4 = n" by simp
next
  assume n: "12 * (q mod 4) + q div 4 = n"
  have "q div 4 < 12" using assms(2) by simp
  then have "n mod 12 = q div 4" "n div 12 = q mod 4" by (simp_all flip: n)
  then show "4 * (n mod 12) + n div 12 = q" by simp
qed

lemma interleave_range: "q < 48 \<Longrightarrow> 12 * (q mod 4) + q div 4 < (48 :: nat)"
proof -
  assume "q < 48"
  then have "q div 4 < 12" by simp
  moreover have "q mod 4 < 4" by simp
  ultimately show ?thesis by linarith
qed

lemma sig_interleaved:
  assumes "length s = 48" "q < 48"
  shows "bccInterleaverForSig s ! q = s ! (12 * (q mod 4) + q div 4)"
    and "length (bccInterleaverForSig s) = 48"
proof -
  define w where "w n = fold (\<lambda>k w. w[4 * (k mod 12) + k div 12 := s ! k]) [0..<n] (replicate 48 (0 :: byte))" for n
  have len: "length (w n) = 48" for n by (induction n) (simp_all add: w_def)
  have w: "q < 48 \<Longrightarrow> n \<le> 48 \<Longrightarrow>
      w n ! q = (if 12 * (q mod 4) + q div 4 < n then s ! (12 * (q mod 4) + q div 4) else 0)" for n q
  proof (induction n)
    case 0
    then show ?case by (simp add: w_def)
  next
    case (Suc n)
    have "w (Suc n) = (w n)[4 * (n mod 12) + n div 12 := s ! n]" by (simp add: w_def)
    then show ?case using Suc interleave_step [of n q] len [of n] by (auto simp: nth_list_update)
  qed
  have ups: "[1..<49] = map Suc [0..<48]" by (simp add: map_Suc_upt)
  have b: "bccInterleaverForSig s = map (\<lambda>k. w 48 ! k) [0..<48]"
    unfolding bccInterleaverForSig_def Let_def ups
    using fold_fill_const [OF assms(1), of "\<lambda>k. w 48 ! k"] by (simp add: fold_map comp_def w_def)
  show "bccInterleaverForSig s ! q = s ! (12 * (q mod 4) + q div 4)" and "length (bccInterleaverForSig s) = 48"
    using w [OF assms(2), of 48] assms(2) interleave_range [OF assms(2)] by (simp_all add: b)
qed

text \<open>An array of 64 tones read as a function.\<close>

definition reads :: "complex32 list \<Rightarrow> (nat \<Rightarrow> complex32) \<Rightarrow> bool" where
  "reads b f \<longleftrightarrow> length b = 64 \<and> (\<forall>p < 64. b ! p = f p)"

lemma reads_cleared: "reads (replicate 64 z) (\<lambda>p. z)"
  by (simp add: reads_def)

lemma reads_set:
  "reads b f \<Longrightarrow> i < 64 \<Longrightarrow> reads (set_real 13 i v b) (f(i := (f i)\<lparr>re := word_of_int (v * 8192)\<rparr>))"
  by (simp add: reads_def set_real_def push_bit_eq_mult nth_list_update)

lemma length_copy_part:
  "d + n \<le> length dest \<Longrightarrow> s + n \<le> length src \<Longrightarrow> length (copy_part d src s n dest) = length dest"
  by (simp add: copy_part_def)

lemma copy_part_nth:
  assumes "d + n \<le> length dest" "s + n \<le> length src"
  shows "copy_part d src s n dest ! p = (if d \<le> p \<and> p < d + n then src ! (s + (p - d)) else dest ! p)"
proof -
  have "length (take n (drop s src)) = n" "length (take d dest) = d" using assms by simp_all
  then show ?thesis using assms by (auto simp: copy_part_def nth_append)
qed

lemma reads_copy:
  assumes "reads b f" "d + n \<le> 64" "s + n \<le> length m"
  shows "reads (copy_part d m s n b) (\<lambda>p. if d \<le> p \<and> p < d + n then m ! (s + (p - d)) else f p)"
  using assms by (simp add: reads_def copy_part_nth length_copy_part)

lemma reads_cong: "reads b f \<Longrightarrow> (\<And>p. p < 64 \<Longrightarrow> f p = g p) \<Longrightarrow> reads b g"
  by (simp add: reads_def)

lemma sig_pilots_reads:
  assumes "length m = 48"
  shows "reads (addPilotForSig 13 m (replicate 64 (cpx 0 0)))
    (\<lambda>p. if p \<in> {4, 5, 11, 25, 39, 59, 60} then cpx 8192 0 else if p = 53 then cpx (- 8192) 0
       else if 6 \<le> p \<and> p < 11 then m ! (p - 6) else if 12 \<le> p \<and> p < 25 then m ! (p - 7)
       else if 26 \<le> p \<and> p < 32 then m ! (p - 8) else if 33 \<le> p \<and> p < 39 then m ! (p - 9)
       else if 40 \<le> p \<and> p < 53 then m ! (p - 10) else if 54 \<le> p \<and> p < 59 then m ! (p - 11) else cpx 0 0)"
  unfolding addPilotForSig_def Let_def
  apply (rule reads_cong)
  apply (rule reads_set reads_copy reads_cleared)+
  apply (simp_all (no_asm) add: assms)[20]
  apply (simp only: fun_upd_apply insert_iff empty_iff)
  apply (simp add: cpx_def)
  done

text \<open>The tone of data point \<open>q\<close>.\<close>

definition sig_tone :: "nat \<Rightarrow> nat" where
  "sig_tone q = q + (if q < 5 then 6 else if q < 18 then 7 else if q < 24 then 8 else if q < 30 then 9
     else if q < 43 then 10 else 11)"

text \<open>The coded bits of the three bytes of signal information.\<close>

definition sig_code :: "byte list \<Rightarrow> bool list" where
  "sig_code SigInfo = conv_out (replicate 7 False) (bytes_bits (take 3 SigInfo))"

definition sig_point :: "byte list \<Rightarrow> nat \<Rightarrow> complex32" where
  "sig_point SigInfo q = cpx (if sig_code SigInfo ! (12 * (q mod 4) + q div 4) then 8192 else - 8192) 0"

definition sig_of :: "byte list \<Rightarrow> complex32 list" where
  "sig_of SigInfo = addPilotForSig 13 (map (sig_point SigInfo) [0..<48]) (replicate 64 (cpx 0 0))"

lemma generateBasicSig_eq:
  assumes "3 \<le> length SigInfo"
  shows "generateBasicSig 13 (replicate 64 (cpx 0 0)) SigInfo = Some (sig_of SigInfo)"
proof -
  let ?s = "map of_bool (sig_code SigInfo) :: byte list"
  have len: "length ?s = 48" using assms by (simp add: sig_code_def)
  have enc: "ccodedot11_encode (ccodedot11_init (replicate 128 0)) 3 SigInfo 0 = Some ?s"
    using encode_spec [of 0 3 SigInfo] assms
    by (simp add: modes_def code_table_def puncture_mode_0 sig_code_def)
  have pre: "write_prefix (replicate 48 0) ?s = Some ?s" using len by (simp add: write_prefix_def)
  have bit: "bccInterleaverForSig ?s ! q = of_bool (sig_code SigInfo ! (12 * (q mod 4) + q div 4))" if "q < 48" for q
    using sig_interleaved(1) [OF len that] interleave_range [OF that] len by simp
  have "MapForSig 13 (bccInterleaverForSig ?s) (replicate 48 (cpx 0 0)) 48 = map (sig_point SigInfo) [0..<48]"
    unfolding MapForSig_def
    by (subst fold_fill_all) (auto simp: bit cpx_def push_bit_eq_mult sig_point_def)
  then show ?thesis by (simp add: generateBasicSig_def enc pre Let_def sig_of_def)
qed

lemma sig_of_nth:
  assumes "p < 64"
  shows "sig_of SigInfo ! p = (if p \<in> {4, 5, 11, 25, 39, 59, 60} then cpx 8192 0 else if p = 53 then cpx (- 8192) 0
       else if 6 \<le> p \<and> p < 11 then sig_point SigInfo (p - 6) else if 12 \<le> p \<and> p < 25 then sig_point SigInfo (p - 7)
       else if 26 \<le> p \<and> p < 32 then sig_point SigInfo (p - 8) else if 33 \<le> p \<and> p < 39 then sig_point SigInfo (p - 9)
       else if 40 \<le> p \<and> p < 53 then sig_point SigInfo (p - 10) else if 54 \<le> p \<and> p < 59 then sig_point SigInfo (p - 11)
       else cpx 0 0)"
proof -
  define m where "m = map (sig_point SigInfo) [0..<48]"
  have len: "length m = 48" by (simp add: m_def)
  have m: "m ! (p - k) = sig_point SigInfo (p - k)" if "lo \<le> p \<and> p < hi" "hi \<le> 48 + k" "k \<le> lo" for lo hi k
  proof -
    have "p - k < 48" using that by linarith
    then show ?thesis by (simp add: m_def)
  qed
  have "sig_of SigInfo = addPilotForSig 13 m (replicate 64 (cpx 0 0))" by (simp only: sig_of_def m_def)
  moreover note sig_pilots_reads [OF len, unfolded reads_def, THEN conjunct2, rule_format, OF assms]
  ultimately show ?thesis
    by (simp only:) (intro if_cong refl; erule m; simp (no_asm))
qed

lemma length_sig_of: "length (sig_of SigInfo) = 64"
  using sig_pilots_reads [of "map (sig_point SigInfo) [0..<48]"] by (simp add: sig_of_def reads_def)

lemma sig_of_tone: "q < 48 \<Longrightarrow> sig_of SigInfo ! sig_tone q = sig_point SigInfo q"
  by (subst sig_of_nth) (auto simp: sig_tone_def)

lemma sig_of_guard: "p < 64 \<Longrightarrow> p < 4 \<or> p = 32 \<or> 60 < p \<Longrightarrow> sig_of SigInfo ! p = cpx 0 0"
  by (elim disjE) (simp_all add: sig_of_nth)

lemma sig_of_cbound:
  assumes "p < 64"
  shows "cbound 8192 (sig_of SigInfo ! p)"
proof -
  have "cbound 8192 (cpx 8192 0)" "cbound 8192 (cpx (- 8192) 0)" "cbound 8192 (cpx 0 0)" by code_simp+
  then show ?thesis by (simp add: sig_of_nth [OF assms] sig_point_def)
qed

lemma heltf_pilots:
  assumes "j < 256"
  defines "k n \<equiv> length (filter (\<lambda>p. p < n) pilot_index) mod 8"
  shows "j = pilot_index ! k j \<longleftrightarrow> j \<in> set pilot_index"
    and "k (Suc j) = (if j \<in> set pilot_index then if k j + 1 = 8 then 0 else k j + 1 else k j)"
    and "k 0 = 0" "k 256 = 0"
proof -
  have "\<forall>j \<in> set [0..<256]. (j = pilot_index ! (length (filter (\<lambda>p. p < j) pilot_index) mod 8) \<longleftrightarrow> j \<in> set pilot_index)
    \<and> length (filter (\<lambda>p. p < Suc j) pilot_index) mod 8
      = (let k = length (filter (\<lambda>p. p < j) pilot_index) mod 8 in if j \<in> set pilot_index then if k + 1 = 8 then 0 else k + 1 else k)"
    by code_simp
  then show "j = pilot_index ! k j \<longleftrightarrow> j \<in> set pilot_index"
    and "k (Suc j) = (if j \<in> set pilot_index then if k j + 1 = 8 then 0 else k j + 1 else k j)"
    using assms(1) unfolding k_def Let_def by auto
  show "k 0 = 0" "k 256 = 0" unfolding k_def by code_simp+
qed

lemma numberOfData_eq: "numberOfData g = N_SYM (GenInit g)"
  by (simp add: numberOfData_def num_sym_def N_service_def N_tail_def)

lemma numberOfHeLTF_4: "numberOfHeLTF = 4"
  by code_simp

text \<open>The tones of antenna \<open>tx\<close> in symbol \<open>i\<close>.\<close>

definition heltf_point :: "nat \<Rightarrow> nat \<Rightarrow> nat \<Rightarrow> complex32" where
  "heltf_point tx i j = multForComplex32 13 (basicHeLTF ! j) (P4 ! (if j \<in> set pilot_index then i else tx * 4 + i))"

lemma heltf_symbol:
  assumes "n \<le> 256"
  shows "fold (heltf_tone 13 tx i) [0..<n] (b, 0)
    = (fold (\<lambda>j b. b[i * 256 + j := heltf_point tx i j]) [0..<n] b, length (filter (\<lambda>p. p < n) pilot_index) mod 8)"
  using assms
proof (induction n)
  case 0
  then show ?case by (simp add: pilot_index_def)
next
  case (Suc n)
  have tone: "heltf_tone 13 tx i n (c, k)
    = (c[i * 256 + n := heltf_point tx i n], if n \<in> set pilot_index then if k + 1 = 8 then 0 else k + 1 else k)"
    if "n = pilot_index ! k \<longleftrightarrow> n \<in> set pilot_index" for c k
  proof -
    have "P ! (N_TX - 1) = P4" "(if N_TX AND (N_TX - 1) = 0 then N_TX else N_TX + 1) = 4" by code_simp+
    then show ?thesis using that by (simp add: heltf_tone_def heltf_point_def Let_def)
  qed
  have "n < 256" using Suc.prems by simp
  from heltf_pilots(1,2) [OF this] show ?case using Suc by (simp add: tone)
qed

lemma fold_block_nth:
  "c + m \<le> length b \<Longrightarrow> p < length b \<Longrightarrow>
    fold (\<lambda>j b. b[c + j := f j]) [0..<m] b ! p = (if c \<le> p \<and> p < c + m then f (p - c) else b ! p)
    \<and> length (fold (\<lambda>j b. b[c + j := f j]) [0..<m] b) = length b"
  by (induction m) (auto simp: nth_list_update)

lemma heltf_tones_upto:
  fixes tx :: nat
  assumes "m \<le> n"
  defines "b \<equiv> fold (\<lambda>i. fold (heltf_tone 13 tx i) [0..<256]) [0..<m] (replicate (n * 256) (cpx 0 0), 0)"
  shows "snd b = 0 \<and> length (fst b) = n * 256 \<and> (\<forall>i < m. \<forall>j < 256. fst b ! (i * 256 + j) = heltf_point tx i j)"
  using assms(1) unfolding b_def
proof (induction m)
  case 0
  then show ?case by simp
next
  case (Suc m)
  let ?b = "fold (\<lambda>i. fold (heltf_tone 13 tx i) [0..<256]) [0..<m] (replicate (n * 256) (cpx 0 0), 0)"
  obtain c where c: "?b = (c, 0)" "length c = n * 256"
    and old: "\<forall>i < m. \<forall>j < 256. c ! (i * 256 + j) = heltf_point tx i j"
    using Suc by (metis Suc_leD prod.collapse)
  have fits: "m * 256 + 256 \<le> length c" using Suc.prems c(2) mult_le_mono1 [of "Suc m" n 256] by simp
  have new: "fold (\<lambda>j b. b[m * 256 + j := heltf_point tx m j]) [0..<256] c ! (i * 256 + j) = heltf_point tx i j
    \<and> length (fold (\<lambda>j b. b[m * 256 + j := heltf_point tx m j]) [0..<256] c) = length c"
    if "i < Suc m" "j < 256" for i j
  proof -
    have p: "i * 256 + j < length c" using that fits mult_le_mono1 [of i m 256] by linarith
    have "i < m \<Longrightarrow> i * 256 + j < m * 256" using that(2) mult_le_mono1 [of "Suc i" m 256] by simp
    then show ?thesis using fold_block_nth [OF fits p, of "heltf_point tx m"] that old by (cases "i = m") auto
  qed
  show ?case using new [of 0 0] new heltf_pilots(4) [of 0] by (simp add: c heltf_symbol)
qed

lemma heltf_tones_nth:
  "i < n \<Longrightarrow> j < 256 \<Longrightarrow> heltf_tones 13 tx n ! (i * 256 + j) = heltf_point tx i j"
  "length (heltf_tones 13 tx n) = n * 256"
  using heltf_tones_upto [of n n tx] by (simp_all add: heltf_tones_def)

lemma heltf_csd_upto:
  fixes mulhrs add sub :: "int16 \<Rightarrow> int16 \<Rightarrow> int16" and fp :: fpu
  assumes "tx < 4" "m \<le> n" "length h = n * 256"
  defines "r \<equiv> fold (\<lambda>i h. take (i * 256) h @ csdForHeLTF mulhrs add sub fp 13 (drop (i * 256) (heltf_tones 13 tx n)) tx (drop (i * 256) h))
    [0..<m] h"
  shows "length r = n * 256 \<and> (\<forall>i < m. \<forall>j < 256. r ! (i * 256 + j)
    = lane mulhrs add sub (heltf_point tx i j) (expComlex32 fp 13 (heltf_phase fp tx) (int j - 128)))"
  using assms(2) unfolding r_def
proof (induction m)
  case 0
  then show ?case by (simp add: assms(3))
next
  case (Suc m)
  let ?r = "fold (\<lambda>i h. take (i * 256) h @ csdForHeLTF mulhrs add sub fp 13 (drop (i * 256) (heltf_tones 13 tx n)) tx (drop (i * 256) h))
    [0..<m] h"
  let ?c = "csdForHeLTF mulhrs add sub fp 13 (drop (m * 256) (heltf_tones 13 tx n)) tx (drop (m * 256) ?r)"
  have old: "length ?r = n * 256" "i < m \<Longrightarrow> j < 256 \<Longrightarrow> ?r ! (i * 256 + j)
    = lane mulhrs add sub (heltf_point tx i j) (expComlex32 fp 13 (heltf_phase fp tx) (int j - 128))" for i j
    using Suc by simp_all
  have fits: "m * 256 + 256 \<le> n * 256" using Suc.prems mult_le_mono1 [of "Suc m" n 256] by simp
  have c: "length ?c = n * 256 - m * 256"
    "j < 256 \<Longrightarrow> ?c ! j = lane mulhrs add sub (heltf_point tx m j) (expComlex32 fp 13 (heltf_phase fp tx) (int j - 128))" for j
    using csdForHeLTF_at [OF assms(1), where dest = "drop (m * 256) ?r" and s = "drop (m * 256) (heltf_tones 13 tx n)"
        and mulhrs = mulhrs and add = add and sub = sub and scale = 13]
      fits old(1) heltf_tones_nth(1) [of m n _ tx] Suc.prems by (simp_all add: heltf_tones_nth(2))
  have "(take (m * 256) ?r @ ?c) ! (i * 256 + j)
    = lane mulhrs add sub (heltf_point tx i j) (expComlex32 fp 13 (heltf_phase fp tx) (int j - 128))" if "i < Suc m" "j < 256" for i j
  proof (cases "i = m")
    case True
    then show ?thesis using c(2) [OF that(2)] fits old(1) by (simp add: nth_append)
  next
    case False
    then have "i < m" using that(1) by simp
    moreover have "i * 256 + j < m * 256" using \<open>i < m\<close> that(2) mult_le_mono1 [of "Suc i" m 256] by simp
    ultimately show ?thesis using old that(2) fits by (simp add: nth_append)
  qed
  then show ?case using c(1) old(1) fits by simp
qed

section \<open>The values of the tables\<close>

lemma heltf_values: "j < 256 \<Longrightarrow> basicHeLTF ! j \<in> {cpx 0 0, cpx 8192 0, cpx (- 8192) 0}"
proof -
  assume "j < 256"
  moreover have "list_all (\<lambda>z. z \<in> set [cpx 0 0, cpx 8192 0, cpx (- 8192) 0]) basicHeLTF" "length basicHeLTF = 256"
    by code_simp+
  ultimately show ?thesis by (simp add: list_all_length)
qed

lemma heltf_cbound:
  assumes "i < 4" "j < 256" "tx < 4"
  shows "cbound 8192 (heltf_point tx i j)"
proof -
  have "list_all (\<lambda>z. list_all (\<lambda>p. cbound 8192 (multForComplex32 13 z p)) P4) [cpx 0 0, cpx 8192 0, cpx (- 8192) 0]"
    "length P4 = 16" by code_simp+
  moreover have "(if j \<in> set pilot_index then i else tx * 4 + i) < 16" using assms by simp
  ultimately show ?thesis
    using heltf_values [OF assms(2)] by (auto simp: heltf_point_def list_all_length)
qed


lemma P7_repeats: "\<forall>r < 3. take 8 (drop (8 * r) P7) = take 8 (drop (8 * (r + 4)) P7)"
proof -
  have "\<forall>r \<in> set [0..<3]. take 8 (drop (8 * r) P7) = take 8 (drop (8 * (r + 4)) P7)" by code_simp
  then show ?thesis by simp
qed

text \<open>The fields of 53 tones sit in the middle of the 64.\<close>

definition field_tone :: "complex32 list \<Rightarrow> nat \<Rightarrow> complex32" where
  "field_tone s p = (if 6 \<le> p \<and> p < 59 then s ! (p - 6) else cpx 0 0)"

lemma field_cbound: "cbound 8192 (field_tone basicSTF p)" "cbound 8192 (field_tone basicLTF p)"
proof -
  have "list_all (cbound 8192) basicSTF" "list_all (cbound 8192) basicLTF" "length basicSTF = 53" "length basicLTF = 53"
    "cbound 8192 (cpx 0 0)" by code_simp+
  then show "cbound 8192 (field_tone basicSTF p)" "cbound 8192 (field_tone basicLTF p)"
    by (auto simp: field_tone_def list_all_length)
qed

section \<open>The long training field, turned\<close>











section \<open>The whole preamble\<close>

lemma csdForPreamble_len:
  "length dest = 64 \<Longrightarrow> length (csdForPreamble mulhrs add sub fp scale s NTXindex len dest) = 64"
  unfolding csdForPreamble_def Let_def
  using length_mult_blocks [of 0 4 dest mulhrs add sub _ 0] by simp

lemma generated_fields:
  assumes "dotscale g = 13"
  shows "generatePreambleAndHeLTF_csd mulhrs add sub fp g mem = Some
    \<lparr>pre_STF = map (\<lambda>i. csdForPreamble mulhrs add sub fp 13 basicSTF i 53 (replicate 64 (cpx 0 0))) [0..<4],
     pre_LTF = map (\<lambda>i. csdForPreamble mulhrs add sub fp 13 basicLTF i 53 (replicate 64 (cpx 0 0))) [0..<4],
     pre_Sig = map (\<lambda>i. csdForPreamble mulhrs add sub fp 13 (drop 4 (sig_of [0x8B, 0, 0])) i 57 (replicate 64 (cpx 0 0))) [0..<4],
     pre_heLTF = map (\<lambda>i. generateHeLTF_csd mulhrs add sub fp 13 (mem i) i 4) [0..<4]\<rparr>"
proof -
  have info: "setSigInfo (replicate 3 0) = [0x8B, 0, 0]" by (simp add: setSigInfo_def eval_nat_numeral)
  have ups: "[0..<N_STS] = [0, 1, 2, 3]" "[0..<N_TX] = [0..<4]" "[0..<4] = [0, 1, 2, 3 :: nat]"
    by (simp_all add: N_STS_def N_TX_def upt_rec)
  show ?thesis
    unfolding generatePreambleAndHeLTF_csd_def Let_def info ups(1,2) numberOfHeLTF_4
    by (simp add: preamble_antenna_def generatePreamble_csd_def generateSTF_csd_def generateLTF_csd_def
        generateSig_csd_def Let_def assms generateBasicSig_eq ups(3))
qed

lemma conv_out_inj:
  "length w = 7 \<Longrightarrow> length xs = length ys \<Longrightarrow> conv_out w xs = conv_out w ys \<Longrightarrow> xs = ys"
proof (induction xs arbitrary: w ys)
  case Nil
  then show ?case by simp
next
  case (Cons x xs)
  then obtain y ys' where ys: "ys = y # ys'" by (cases ys) auto
  obtain a b c d e f g where w: "w = [a, b, c, d, e, f, g]" using Cons.prems(1) by (rule list7_cases)
  have "x = y" using Cons.prems(3) by (auto simp: ys w parA_def Let_def)
  then show ?case using Cons.IH [of "tl w @ [x]" ys'] Cons.prems by (simp add: ys w Let_def)
qed

lemma sig_code_inj:
  assumes "3 \<le> length S" "3 \<le> length S'" "sig_code S = sig_code S'"
  shows "take 3 S = take 3 S'"
proof -
  have "bytes_bits (take 3 S) = bytes_bits (take 3 S')"
    by (rule conv_out_inj [of "replicate 7 False"]) (use assms in \<open>simp_all add: sig_code_def\<close>)
  then show ?thesis using assms by (simp add: bytes_bits_inj)
qed

lemma sig_of_inj:
  assumes "3 \<le> length S" "3 \<le> length S'" "sig_of S = sig_of S'"
  shows "take 3 S = take 3 S'"
proof (rule sig_code_inj [OF assms(1,2)])
  have "cpx 8192 0 \<noteq> cpx (- 8192) 0" by code_simp
  then have pt: "sig_point S q = sig_point S' q \<Longrightarrow> sig_code S ! (12 * (q mod 4) + q div 4) = sig_code S' ! (12 * (q mod 4) + q div 4)" for q
    by (auto simp: sig_point_def split: if_splits)
  have len: "length (sig_code S) = 48" "length (sig_code S') = 48"
    using assms by (simp_all add: sig_code_def)
  show "sig_code S = sig_code S'"
  proof (rule nth_equalityI)
    fix k assume "k < length (sig_code S)"
    then have k: "k < 48" by (simp add: len)
    have q: "4 * (k mod 12) + k div 12 < 48" using k by linarith
    have "sig_point S (4 * (k mod 12) + k div 12) = sig_point S' (4 * (k mod 12) + k div 12)"
      by (simp only: sig_of_tone [OF q, symmetric] assms(3))
    from pt [OF this] show "sig_code S ! k = sig_code S' ! k" using interleave_step [OF k q] by simp
  qed (simp add: len)
qed

section \<open>Properties\<close>

text \<open>C23: the signal field. For every three bytes of information, \<open>generateBasicSig\<close> fills the 64
  cleared tones with the 48 interleaved bits of their rate 1/2 code as \<open>8192\<close> and \<open>- 8192\<close>,
  the four pilots (the last one negative) and the four extra tones at the edges, and leaves the
  middle tone and the guard tones zero; two different informations give different fields.\<close>

theorem basic_sig_layout:
  assumes "3 \<le> length SigInfo"
  shows "\<exists>sig. generateBasicSig 13 (replicate 64 (cpx 0 0)) SigInfo = Some sig \<and> length sig = 64
    \<and> (\<forall>q < 48. sig ! sig_tone q = cpx (if sig_code SigInfo ! (12 * (q mod 4) + q div 4) then 8192 else - 8192) 0)
    \<and> (\<forall>p \<in> {4, 5, 11, 25, 39, 59, 60}. sig ! p = cpx 8192 0) \<and> sig ! 53 = cpx (- 8192) 0
    \<and> (\<forall>p < 64. p < 4 \<or> p = 32 \<or> 60 < p \<longrightarrow> sig ! p = cpx 0 0)
    \<and> (\<forall>S. 3 \<le> length S \<and> generateBasicSig 13 (replicate 64 (cpx 0 0)) S = Some sig \<longrightarrow> take 3 S = take 3 SigInfo)"
proof (intro exI conjI allI impI)
  show "generateBasicSig 13 (replicate 64 (cpx 0 0)) SigInfo = Some (sig_of SigInfo)"
    by (rule generateBasicSig_eq [OF assms])
  show "length (sig_of SigInfo) = 64" by (rule length_sig_of)
  show "sig_of SigInfo ! sig_tone q = cpx (if sig_code SigInfo ! (12 * (q mod 4) + q div 4) then 8192 else - 8192) 0"
    if "q < 48" for q by (simp only: sig_of_tone [OF that] sig_point_def)
  show "\<forall>p \<in> {4, 5, 11, 25, 39, 59, 60}. sig_of SigInfo ! p = cpx 8192 0" "sig_of SigInfo ! 53 = cpx (- 8192) 0"
    by (simp_all add: sig_of_nth)
  show "sig_of SigInfo ! p = cpx 0 0" if "p < 64" "p < 4 \<or> p = 32 \<or> 60 < p" for p
    using that by (rule sig_of_guard)
  show "take 3 S = take 3 SigInfo"
    if "3 \<le> length S \<and> generateBasicSig 13 (replicate 64 (cpx 0 0)) S = Some (sig_of SigInfo)" for S
    using that generateBasicSig_eq [of S] by (intro sig_of_inj assms) simp_all
qed

theorem basic_sig_layout_witness:
  "\<exists>sig. generateBasicSig 13 (replicate 64 (cpx 0 0)) [0x8B, 0, 0] = Some sig \<and> length sig = 64
    \<and> sig ! 53 = cpx (- 8192) 0 \<and> generateBasicSig 13 (replicate 64 (cpx 0 0)) [0x8B, 0, 1] \<noteq> Some sig"
proof -
  have len: "3 \<le> length [0x8B, 0, 0 :: byte]" by simp
  obtain sig where "generateBasicSig 13 (replicate 64 (cpx 0 0)) [0x8B, 0, 0] = Some sig" "length sig = 64"
    "sig ! 53 = cpx (- 8192) 0"
    and inj: "\<forall>S. 3 \<le> length S \<and> generateBasicSig 13 (replicate 64 (cpx 0 0)) S = Some sig \<longrightarrow> take 3 S = take 3 [0x8B, 0, 0]"
    using basic_sig_layout [OF len] by metis
  moreover have "take 3 [0x8B, 0, 1 :: byte] \<noteq> take 3 [0x8B, 0, 0]" "3 \<le> length [0x8B, 0, 1 :: byte]"
    by (simp_all add: eval_nat_numeral)
  ultimately show ?thesis by blast
qed



text \<open>The preamble the program starts with. \<open>generatePreambleAndHeLTF_csd\<close> returns, and for
  each of the four antennas every tone of the short, long and signal field and of the four
  symbols of the long training field is within 4 units of the scalar product of its value with
  the phase of the antenna; nothing depends on what the allocated memory held before.\<close>

theorem preamble_near:
  assumes "avx2 mulhrs add sub" "dotscale g = 13" "\<forall>i < 4. length (mem i) = 1024" and FU: "float_unit fp"
  shows "\<exists>F. generatePreambleAndHeLTF_csd mulhrs add sub fp g mem = Some F \<and> (\<forall>tx < 4.
    (\<forall>p < 64. near 4 (pre_STF F ! tx ! p) (multForComplex32 13 (field_tone basicSTF p) (expComlex32 fp 13 (preamble_phase fp tx) (int p - 32)))
      \<and> near 4 (pre_LTF F ! tx ! p) (multForComplex32 13 (field_tone basicLTF p) (expComlex32 fp 13 (preamble_phase fp tx) (int p - 32)))
      \<and> near 4 (pre_Sig F ! tx ! p) (multForComplex32 13 (sig_of [0x8B, 0, 0] ! p) (expComlex32 fp 13 (preamble_phase fp tx) (int p - 32))))
    \<and> (\<forall>i < 4. \<forall>j < 256. near 4 (pre_heLTF F ! tx ! (i * 256 + j))
        (multForComplex32 13 (heltf_tones 13 tx 4 ! (i * 256 + j)) (expComlex32 fp 13 (heltf_phase fp tx) (int j - 128)))))"
proof (intro exI conjI allI impI)
  let ?z = "replicate 64 (cpx 0 0)"
  let ?sig = "sig_of [0x8B, 0, 0]"
  have near: "near 4 (lane mulhrs add sub a (expComlex32 fp 13 ph k)) (multForComplex32 13 a (expComlex32 fp 13 ph k))"
    if "cbound 8192 a" for a ph k
    by (rule avx2.lane_near [OF assms(1) that float_unit.exp_cbound [OF FU]]) simp
  show "generatePreambleAndHeLTF_csd mulhrs add sub fp g mem = Some
    \<lparr>pre_STF = map (\<lambda>i. csdForPreamble mulhrs add sub fp 13 basicSTF i 53 ?z) [0..<4],
     pre_LTF = map (\<lambda>i. csdForPreamble mulhrs add sub fp 13 basicLTF i 53 ?z) [0..<4],
     pre_Sig = map (\<lambda>i. csdForPreamble mulhrs add sub fp 13 (drop 4 ?sig) i 57 ?z) [0..<4],
     pre_heLTF = map (\<lambda>i. generateHeLTF_csd mulhrs add sub fp 13 (mem i) i 4) [0..<4]\<rparr>" (is "_ = Some ?F")
    by (rule generated_fields [OF assms(2)])
  fix tx :: nat
  assume tx: "tx < 4"
  show "near 4 (pre_heLTF ?F ! tx ! (i * 256 + j))
      (multForComplex32 13 (heltf_tones 13 tx 4 ! (i * 256 + j)) (expComlex32 fp 13 (heltf_phase fp tx) (int j - 128)))"
    if "i < 4" "j < 256" for i j
    using heltf_csd_upto [OF tx order_refl, of "mem tx" 4 mulhrs add sub] assms(3) tx that near [OF heltf_cbound]
    by (simp add: generateHeLTF_csd_def heltf_tones_nth(1))
  fix p :: nat
  assume p: "p < 64"
  have field: "csdForPreamble mulhrs add sub fp 13 s tx 53 ?z ! p
      = lane mulhrs add sub (field_tone s p) (expComlex32 fp 13 (preamble_phase fp tx) (int p - 32))" for s
    using tx p by (simp add: csdForPreamble_nth field_tone_def)
  show "near 4 (pre_STF ?F ! tx ! p) (multForComplex32 13 (field_tone basicSTF p) (expComlex32 fp 13 (preamble_phase fp tx) (int p - 32)))"
    "near 4 (pre_LTF ?F ! tx ! p) (multForComplex32 13 (field_tone basicLTF p) (expComlex32 fp 13 (preamble_phase fp tx) (int p - 32)))"
    using near [OF field_cbound(1) [of p]] near [OF field_cbound(2) [of p]] tx by (simp_all add: field)
  have sig: "(if 4 \<le> p \<and> p < 61 then drop 4 ?sig ! (p - 4) else cpx 0 0) = ?sig ! p"
  proof (cases "4 \<le> p \<and> p < 61")
    case False
    then have "p < 4 \<or> p = 32 \<or> 60 < p" by linarith
    from sig_of_guard [OF p this] show ?thesis using False by (simp only: if_False)
  qed (simp add: length_sig_of)
  have "csdForPreamble mulhrs add sub fp 13 (drop 4 ?sig) tx 57 ?z ! p
      = lane mulhrs add sub (if 4 \<le> p \<and> p < 61 then drop 4 ?sig ! (p - 4) else cpx 0 0) (expComlex32 fp 13 (preamble_phase fp tx) (int p - 32))"
    using tx p by (simp add: csdForPreamble_nth)
  then show "near 4 (pre_Sig ?F ! tx ! p) (multForComplex32 13 (?sig ! p) (expComlex32 fp 13 (preamble_phase fp tx) (int p - 32)))"
    unfolding sig using near [OF sig_of_cbound [OF p]] tx by simp
qed

theorem preamble_near_witness:
  "\<exists>F. generatePreambleAndHeLTF_csd mulhrs_lane (+) (-) ieee globals0 (\<lambda>i. replicate 1024 (cpx 77 (- 5))) = Some F
    \<and> near 4 (pre_heLTF F ! 2 ! (3 * 256 + 25))
        (multForComplex32 13 (heltf_tones 13 2 4 ! (3 * 256 + 25)) (expComlex32 ieee 13 (heltf_phase ieee 2) (25 - 128)))"
proof -
  obtain F where F: "generatePreambleAndHeLTF_csd mulhrs_lane (+) (-) ieee globals0 (\<lambda>i. replicate 1024 (cpx 77 (- 5))) = Some F"
    "\<forall>tx < 4. \<forall>i < 4. \<forall>j < 256. near 4 (pre_heLTF F ! tx ! (i * 256 + j))
        (multForComplex32 13 (heltf_tones 13 tx 4 ! (i * 256 + j)) (expComlex32 ieee 13 (heltf_phase ieee tx) (int j - 128)))"
    using preamble_near [OF lanes.avx2_axioms _ _ ieee.float_unit_axioms, of globals0 "\<lambda>i. replicate 1024 (cpx 77 (- 5))"] by (auto simp: globals0_def)
  then show ?thesis using F(2) [rule_format, of 2 3 25] by auto
qed

end
