(* ===== verification/Ofdm.thy ===== *)
theory Ofdm
  imports Ifft Preamble
begin

text \<open>
  From tones to samples, for the preamble: the routine \<open>ifftShiftandIFFTPreamble\<close> of \<^verbatim>\<open>IFFT\<close>, the cyclic
  prefixes and windows of \<^verbatim>\<open>Process/process_after_csd\<close>, and the fields in the time domain
  (\<open>generatePreamble\<close>). The phases and the transform round as the floating-point
  unit \<open>fp\<close> does (\<open>fl\<close> is its rounding to \<open>float\<close>); the scaling of the samples, in \<open>double\<close>, is taken as
  exact, and an allocation never fails.
\<close>

section \<open>Calls that may not return\<close>

definition and_then :: "'a outcome option \<Rightarrow> ('a \<Rightarrow> 'b outcome option) \<Rightarrow> 'b outcome option" where
  "and_then r f = (case r of None \<Rightarrow> None | Some (Exits e) \<Rightarrow> Some (Exits e) | Some (Returns x) \<Rightarrow> f x)"

lemma and_then_simps [simp]:
  "and_then None f = None" "and_then (Some (Exits e)) f = Some (Exits e)" "and_then (Some (Returns x)) f = f x"
  by (simp_all add: and_then_def)

fun each :: "('a \<Rightarrow> 's \<Rightarrow> 's outcome option) \<Rightarrow> 'a list \<Rightarrow> 's \<Rightarrow> 's outcome option" where
  "each f [] s = Some (Returns s)"
| "each f (x # xs) s = and_then (f x s) (each f xs)"

lemma each_append: "each f (xs @ ys) s = and_then (each f xs s) (each f ys)"
proof (induction xs arbitrary: s)
  case (Cons x xs)
  show ?case by (cases "f x s" rule: option.exhaust; simp add: Cons split: outcome.split)
    (auto simp: and_then_def Cons split: outcome.split)
qed simp

section \<open>Tones to samples\<close>

text \<open>A 16-bit point as a \<open>float\<close> point and back; a number converted to \<open>short\<close> is converted to
  \<open>int\<close> and cut.\<close>

definition to_complex :: "complex32 \<Rightarrow> complex" where
  "to_complex z = Complex (of_int (sint (re z))) (of_int (sint (im z)))"

definition to_int16 :: "real \<Rightarrow> int16" where
  "to_int16 x = ucast (to_int32 x)"

definition ifftShiftandIFFTPreamble :: "(real \<Rightarrow> real) \<Rightarrow> nat \<Rightarrow> complex32 list \<Rightarrow> nat \<Rightarrow> complex32 list outcome option" where
  "ifftShiftandIFFTPreamble fl scale pstfAfterCSD tones =
     (let pBeforeIFFT = fold (\<lambda>i b. b[i := to_complex (pstfAfterCSD ! (32 + i)), 96 + i := to_complex (pstfAfterCSD ! i)])
            [0..<32] (replicate 128 0)
      in and_then (IFFT fl scale pBeforeIFFT 128) (\<lambda>(src, pAfterIFFTtemp).
        Some (Returns (map (\<lambda>i.
          \<lparr>re = to_int16 (Re (pAfterIFFTtemp ! i) * (128 / sqrt (real tones * real N_TX))),
           im = to_int16 (Im (pAfterIFFTtemp ! i) * (128 / sqrt (real tones * real N_TX)))\<rparr>) [0..<128]))))"

section \<open>Prefixes and windows\<close>

definition WT :: "int list" where
  "WT = [1200, 4096, 6992]"

text \<open>The loop over the first three samples; \<open>reg\<close> is the row of \<open>regForAddWin\<close>, what the previous
  field sent past its end.\<close>

definition add_window :: "nat \<Rightarrow> nat \<Rightarrow> complex32 list \<Rightarrow> complex32 list \<Rightarrow> complex32 list \<times> complex32 list" where
  "add_window scale base pBeforeAddWin reg =
     fold (\<lambda>i (b, reg).
       let real_part = sint (re (b ! i)) * WT ! i + sint (re (reg ! i)) * WT ! (2 - i);
           imag_part = sint (im (b ! i)) * WT ! i + sint (im (reg ! i)) * WT ! (2 - i);
           b = b[i := \<lparr>re = scale_down scale real_part, im = scale_down scale imag_part\<rparr>]
       in (b, reg[i := b ! (base + i)])) [0..<3] (pBeforeAddWin, reg)"

definition addCPforPreamble :: "nat \<Rightarrow> complex32 list \<Rightarrow> complex32 list \<Rightarrow> complex32 list \<Rightarrow> complex32 list \<times> complex32 list" where
  "addCPforPreamble scale pAfterIFFT pBeforeAddWin reg =
     (let b = pBeforeAddWin[0 := pAfterIFFT ! 62, 1 := pAfterIFFT ! 63, 322 := pAfterIFFT ! 0];
          b = copy_part 2 pAfterIFFT 64 64 b;
          b = copy_part 66 pAfterIFFT 0 128 b;
          b = copy_part 194 pAfterIFFT 0 128 b
      in add_window scale 320 b reg)"

definition addCPforSig :: "nat \<Rightarrow> complex32 list \<Rightarrow> complex32 list \<Rightarrow> complex32 list \<Rightarrow> complex32 list \<times> complex32 list" where
  "addCPforSig scale pAfterIFFT pBeforeAddWin reg =
     (let b = pBeforeAddWin[0 := pAfterIFFT ! 94, 1 := pAfterIFFT ! 95, 162 := pAfterIFFT ! 0];
          b = copy_part 2 pAfterIFFT 96 32 b;
          b = copy_part 34 pAfterIFFT 0 128 b
      in add_window scale 160 b reg)"

section \<open>The preamble in the time domain\<close>

text \<open>The part the three generators share: from 64 tones to the \<open>len\<close> samples of the field, and the
  new contents of the register of the antenna.\<close>

definition generateSTF :: "(int16 \<Rightarrow> int16 \<Rightarrow> int16) \<Rightarrow> (int16 \<Rightarrow> int16 \<Rightarrow> int16) \<Rightarrow> (int16 \<Rightarrow> int16 \<Rightarrow> int16)
    \<Rightarrow> fpu \<Rightarrow> nat \<Rightarrow> complex32 list list \<Rightarrow> nat \<Rightarrow> (complex32 list \<times> complex32 list list) outcome option" where
  "generateSTF mulhrs add sub fp scale regForAddWin NTXindex =
     (let pstfAfterCSD = csdForPreamble mulhrs add sub fp scale basicSTF NTXindex 53 (replicate 64 (cpx 0 0))
      in and_then (ifftShiftandIFFTPreamble (fsingle fp) scale pstfAfterCSD 12) (\<lambda>pAfterIFFT.
        let (pBeforeAddWin, reg) = addCPforPreamble scale pAfterIFFT (replicate 323 (cpx 0 0)) (regForAddWin ! NTXindex)
        in Some (Returns (take 320 pBeforeAddWin, regForAddWin[NTXindex := reg]))))"

definition generateLTF :: "(int16 \<Rightarrow> int16 \<Rightarrow> int16) \<Rightarrow> (int16 \<Rightarrow> int16 \<Rightarrow> int16) \<Rightarrow> (int16 \<Rightarrow> int16 \<Rightarrow> int16)
    \<Rightarrow> fpu \<Rightarrow> nat \<Rightarrow> complex32 list list \<Rightarrow> nat \<Rightarrow> (complex32 list \<times> complex32 list list) outcome option" where
  "generateLTF mulhrs add sub fp scale regForAddWin NTXindex =
     (let pltfAfterCSD = csdForPreamble mulhrs add sub fp scale basicLTF NTXindex 53 (replicate 64 (cpx 0 0))
      in and_then (ifftShiftandIFFTPreamble (fsingle fp) scale pltfAfterCSD 52) (\<lambda>pAfterIFFT.
        let (pBeforeAddWin, reg) = addCPforPreamble scale pAfterIFFT (replicate 323 (cpx 0 0)) (regForAddWin ! NTXindex)
        in Some (Returns (take 320 pBeforeAddWin, regForAddWin[NTXindex := reg]))))"

definition generateSig :: "(int16 \<Rightarrow> int16 \<Rightarrow> int16) \<Rightarrow> (int16 \<Rightarrow> int16 \<Rightarrow> int16) \<Rightarrow> (int16 \<Rightarrow> int16 \<Rightarrow> int16)
    \<Rightarrow> fpu \<Rightarrow> nat \<Rightarrow> complex32 list \<Rightarrow> complex32 list list \<Rightarrow> nat
    \<Rightarrow> (complex32 list \<times> complex32 list list) outcome option" where
  "generateSig mulhrs add sub fp scale basicSig regForAddWin NTXindex =
     (let psigAfterCSD = csdForPreamble mulhrs add sub fp scale (drop 4 basicSig) NTXindex 57 (replicate 64 (cpx 0 0))
      in and_then (ifftShiftandIFFTPreamble (fsingle fp) scale psigAfterCSD 56) (\<lambda>pAfterIFFT.
        let (pBeforeAddWin, reg) = addCPforSig scale pAfterIFFT (replicate 163 (cpx 0 0)) (regForAddWin ! NTXindex)
        in Some (Returns (take 160 pBeforeAddWin, regForAddWin[NTXindex := reg]))))"

text \<open>The three streams one after the other, and the register; \<open>None\<close> when the information is too short.\<close>

definition generatePreamble :: "(int16 \<Rightarrow> int16 \<Rightarrow> int16) \<Rightarrow> (int16 \<Rightarrow> int16 \<Rightarrow> int16) \<Rightarrow> (int16 \<Rightarrow> int16 \<Rightarrow> int16)
    \<Rightarrow> fpu \<Rightarrow> nat \<Rightarrow> byte list \<Rightarrow> complex32 list list \<Rightarrow> nat
    \<Rightarrow> ((complex32 list \<times> complex32 list \<times> complex32 list) \<times> complex32 list list) outcome option" where
  "generatePreamble mulhrs add sub fp scale SigInfo regForAddWin NTXindex =
     and_then (generateSTF mulhrs add sub fp scale regForAddWin NTXindex) (\<lambda>(stf, regForAddWin).
     and_then (generateLTF mulhrs add sub fp scale regForAddWin NTXindex) (\<lambda>(ltf, regForAddWin).
     case generateBasicSig scale (replicate 64 (cpx 0 0)) SigInfo of
       None \<Rightarrow> None
     | Some basicSig \<Rightarrow>
         and_then (generateSig mulhrs add sub fp scale basicSig regForAddWin NTXindex) (\<lambda>(sig, regForAddWin).
         Some (Returns ((stf, ltf, sig), regForAddWin)))))"

section \<open>The shift\<close>

text \<open>The 64 tones around the middle one, as the transform of size 128 takes them.\<close>

lemma shifted_upto:
  fixes f g :: "nat \<Rightarrow> 'a"
  assumes "n \<le> q" "length b = 4 * q"
  defines "r \<equiv> fold (\<lambda>i b. b[i := f i, 3 * q + i := g i]) [0..<n] b"
  shows "length r = 4 * q \<and> (\<forall>i < n. r ! i = f i \<and> r ! (3 * q + i) = g i)
    \<and> (\<forall>p < 4 * q. n \<le> p \<and> p < 3 * q \<or> 3 * q + n \<le> p \<longrightarrow> r ! p = b ! p)"
  using assms(1) unfolding r_def
  by (induction n) (auto simp: assms(2) nth_list_update less_Suc_eq)

definition shifted_tones :: "nat \<Rightarrow> (nat \<Rightarrow> complex) \<Rightarrow> complex list" where
  "shifted_tones q f = map (\<lambda>p. if p < q then f (q + p) else if 3 * q \<le> p then f (p - 3 * q) else 0) [0..<4 * q]"

lemma shifted_eq:
  "fold (\<lambda>i b. b[i := f (q + i), 3 * q + i := f i]) [0..<q] (replicate (4 * q) 0) = shifted_tones q f"
proof (rule nth_equalityI)
  note r = shifted_upto [of q q "replicate (4 * q) 0" "\<lambda>i. f (q + i)" f]
  show "length (fold (\<lambda>i b. b[i := f (q + i), 3 * q + i := f i]) [0..<q] (replicate (4 * q) 0)) = length (shifted_tones q f)"
    using r by (simp add: shifted_tones_def)
  fix p
  assume "p < length (fold (\<lambda>i b. b[i := f (q + i), 3 * q + i := f i]) [0..<q] (replicate (4 * q) 0))"
  then have p: "p < 4 * q" using r by simp
  consider "p < q" | "q \<le> p" "p < 3 * q" | j where "p = 3 * q + j" "j < q"
    using p le_Suc_ex [of "3 * q" p] by (cases "3 * q \<le> p") (force, linarith)
  then show "fold (\<lambda>i b. b[i := f (q + i), 3 * q + i := f i]) [0..<q] (replicate (4 * q) 0) ! p = shifted_tones q f ! p"
    by cases (use r p in \<open>simp_all add: shifted_tones_def\<close>)
qed

lemma sum_shifted:
  fixes F :: "complex \<Rightarrow> nat \<Rightarrow> 'a::comm_monoid_add"
  assumes "\<And>p. F 0 p = 0"
  shows "(\<Sum>p<4 * q. F (shifted_tones q f ! p) p) = (\<Sum>t<2 * q. F (f t) (if t < q then t + 3 * q else t - q))"
proof -
  have split: "(\<Sum>p<4 * q. G p) = (\<Sum>p<q. G p) + (\<Sum>p\<in>{q..<3 * q}. G p) + (\<Sum>p<q. G (p + 3 * q))" for G :: "nat \<Rightarrow> 'a"
  proof -
    have "(\<Sum>p<q. G (p + 3 * q)) = sum G {3 * q..<4 * q}"
      using sum.shift_bounds_nat_ivl [of G 0 "3 * q" q] by (simp add: lessThan_atLeast0)
    moreover have "sum G {0..<q} + sum G {q..<3 * q} = sum G {0..<3 * q}" "sum G {0..<3 * q} + sum G {3 * q..<4 * q} = sum G {0..<4 * q}"
      by (intro sum.atLeastLessThan_concat; simp)+
    ultimately show ?thesis by (simp add: lessThan_atLeast0)
  qed
  have split2: "(\<Sum>t<2 * q. G t) = (\<Sum>t<q. G t) + (\<Sum>t<q. G (t + q))" for G :: "nat \<Rightarrow> 'a"
  proof -
    have "(\<Sum>t<q. G (t + q)) = sum G {q..<2 * q}"
      using sum.shift_bounds_nat_ivl [of G 0 q q] by (simp add: lessThan_atLeast0 mult_2)
    moreover have "sum G {0..<q} + sum G {q..<2 * q} = sum G {0..<2 * q}" by (intro sum.atLeastLessThan_concat) simp_all
    ultimately show ?thesis by (simp add: lessThan_atLeast0)
  qed
  show ?thesis unfolding split split2
    by (simp add: shifted_tones_def assms ac_simps)
qed

lemma weight_evens_sum: "length xs = 2 * m \<Longrightarrow> weight (evens xs) = (\<Sum>p<2 * m. if even p then cmod (xs ! p) else 0)"
  and weight_odds_sum: "length xs = 2 * m \<Longrightarrow> weight (odds xs) = (\<Sum>p<2 * m. if odd p then cmod (xs ! p) else 0)"
  unfolding sum_even_odd
  by (simp_all add: weight_def sum_list_sum_nth atLeast0LessThan evens_nth odds_nth)

text \<open>The sum of the tones at sample \<open>p\<close>, tone 32 at frequency zero.\<close>

definition wave :: "complex32 list \<Rightarrow> nat \<Rightarrow> complex" where
  "wave z p = (\<Sum>t<64. to_complex (z ! t) * cis (2 * pi * (real p * (real t - 32)) / 128))"

lemma wave_period: "wave z (p + 128) = wave z p"
proof -
  have "cis (2 * pi * (real (p + 128) * (real t - 32)) / 128) = cis (2 * pi * (real p * (real t - 32)) / 128)" for t
  proof -
    have e: "2 * pi * (real (p + 128) * (real t - 32)) / 128 = 2 * pi * (real_of_int (int t - 32)) + 2 * pi * (real p * (real t - 32)) / 128"
      by (simp add: field_simps)
    have "cis (2 * pi * real_of_int (int t - 32)) = 1" by (rule cis_multiple_2pi) (rule Ints_of_int)
    then show ?thesis unfolding e by (simp only: cis_mult [symmetric] mult_1)
  qed
  then show ?thesis by (simp add: wave_def)
qed

lemma wave_mod: "wave z (p mod 128) = wave z p"
proof -
  have "wave z (r + 128 * m) = wave z r" for r m
  proof (induction m)
    case (Suc m)
    then show ?case using wave_period [of z "r + 128 * m"] by (simp add: ac_simps)
  qed simp
  from this [of "p mod 128" "p div 128"] show ?thesis by simp
qed

lemma fourier_wave: "fourier (shifted_tones 32 (\<lambda>t. to_complex (z ! t))) 128 p = wave z p"
proof -
  have "fourier (shifted_tones 32 (\<lambda>t. to_complex (z ! t))) 128 p
    = (\<Sum>t<2 * 32. to_complex (z ! t) * cis (2 * pi * (real p * real (if t < 32 then t + 3 * 32 else t - 32)) / real 128))"
    unfolding fourier_def
    using sum_shifted [of "\<lambda>x j. x * cis (2 * pi * (real p * real j) / real 128)" 32 "\<lambda>t. to_complex (z ! t)"] by simp
  also have "\<dots> = wave z p"
    unfolding wave_def
  proof (rule sum.cong)
    fix t :: nat
    assume "t \<in> {..<64}"
    have "cis (2 * pi * (real p * real (t + 96)) / real 128) = cis (2 * pi * (real p * (real t - 32)) / 128)"
    proof -
      have e: "2 * pi * (real p * real (t + 96)) / real 128 = 2 * pi * real p + 2 * pi * (real p * (real t - 32)) / 128"
        by (simp add: field_simps)
      have "cis (2 * pi * real p) = 1" by (rule cis_multiple_2pi) simp
      then show ?thesis unfolding e by (simp only: cis_mult [symmetric] mult_1)
    qed
    then show "to_complex (z ! t) * cis (2 * pi * (real p * real (if t < 32 then t + 3 * 32 else t - 32)) / real 128)
        = to_complex (z ! t) * cis (2 * pi * (real p * (real t - 32)) / 128)"
      by (auto simp: of_nat_diff)
  qed simp
  finally show ?thesis .
qed

definition tone_weight :: "(nat \<Rightarrow> bool) \<Rightarrow> complex32 list \<Rightarrow> real" where
  "tone_weight sel z = (\<Sum>t<64. if sel t then cmod (to_complex (z ! t)) else 0)"

lemma shifted_weight:
  "weight (evens (shifted_tones 32 (\<lambda>t. to_complex (z ! t)))) = tone_weight even z"
  "weight (odds (shifted_tones 32 (\<lambda>t. to_complex (z ! t)))) = tone_weight odd z"
proof -
  let ?s = "shifted_tones 32 (\<lambda>t. to_complex (z ! t))"
  have len: "length ?s = 2 * 64" by (simp add: shifted_tones_def)
  have par: "even (if t < 32 then t + 3 * 32 else t - 32) = even t" for t :: nat by simp
  show "weight (evens ?s) = tone_weight even z"
    unfolding weight_evens_sum [OF len] tone_weight_def
    using sum_shifted [of "\<lambda>x p. if even p then cmod x else 0" 32 "\<lambda>t. to_complex (z ! t)"] by (simp add: par [simplified])
  show "weight (odds ?s) = tone_weight odd z"
    unfolding weight_odds_sum [OF len] tone_weight_def
    using sum_shifted [of "\<lambda>x p. if odd p then cmod x else 0" 32 "\<lambda>t. to_complex (z ! t)"] by (simp add: par [simplified])
qed

lemma to_int16_near:
  assumes "\<bar>x\<bar> \<le> 32767"
  shows "\<bar>of_int (sint (to_int16 x)) - x\<bar> < 1"
proof -
  have "\<bar>trunc x\<bar> \<le> 32767"
  proof -
    have "real_of_int \<bar>trunc x\<bar> \<le> real_of_int 32767" using trunc_near(2) [of x] assms by simp
    then show ?thesis by (simp only: of_int_le_iff)
  qed
  then have "sint (to_int16 x) = trunc x"
    by (simp add: to_int16_def to_int32_def ucast_word_of_sint sint_int32 abs_le_iff)
  then show ?thesis using trunc_near(1) [of x] by simp
qed

lemma to_int16_complex_near:
  assumes "cmod c \<le> 32767"
  shows "cmod (to_complex \<lparr>re = to_int16 (Re c), im = to_int16 (Im c)\<rparr> - c) \<le> 2"
proof -
  let ?d = "to_complex \<lparr>re = to_int16 (Re c), im = to_int16 (Im c)\<rparr> - c"
  have "\<bar>Re ?d\<bar> < 1" "\<bar>Im ?d\<bar> < 1"
    using to_int16_near [of "Re c"] to_int16_near [of "Im c"] abs_Re_le_cmod [of c] abs_Im_le_cmod [of c] assms
    by (simp_all add: to_complex_def)
  then show ?thesis using cmod_le [of ?d] by linarith
qed

lemma wave_weight: "cmod (wave z p) \<le> tone_weight even z + tone_weight odd z"
proof -
  have "cmod (wave z p) \<le> (\<Sum>t<64. cmod (to_complex (z ! t)))"
    unfolding wave_def by (rule order_trans [OF norm_sum]) (simp add: norm_mult)
  also have "\<dots> = tone_weight even z + tone_weight odd z"
    unfolding tone_weight_def sum.distrib [symmetric] by (rule sum.cong) auto
  finally show ?thesis .
qed

lemma preamble_ifft:
  assumes "float_rounding fl" "0 < tones"
    and "tone_weight even z \<le> 260992" "tone_weight odd z \<le> 260992"
    and "tone_weight even z + tone_weight odd z \<le> 32000 * sqrt (4 * real tones)"
  shows "\<exists>x. ifftShiftandIFFTPreamble fl 13 z tones = Some (Returns x) \<and> length x = 128
    \<and> (\<forall>p < 128. cmod (to_complex (x ! p) - wave z p / complex_of_real (sqrt (4 * real tones))) \<le> 256 / sqrt (4 * real tones) + 2)"
proof -
  define D where "D = sqrt (4 * real tones)"
  have D: "2 \<le> D" using assms(2) real_le_rsqrt [of 2 "4 * real tones"] by (simp add: D_def)
  let ?s = "shifted_tones 32 (\<lambda>t. to_complex (z ! t))"
  have len: "length ?s = 2 ^ Suc 6" by (simp add: shifted_tones_def)
  have "whole (to_complex v)" for v by (simp only: whole_def to_complex_def complex.sel Ints_of_int)
  moreover have "whole 0" by (simp add: whole_def)
  ultimately have w: "\<forall>x \<in> set ?s. whole x" by (auto simp: shifted_tones_def)
  have "weight (evens ?s) + 2 ^ Suc 6 \<le> 261120" "weight (odds ?s) + 2 ^ Suc 6 \<le> 261120"
    using assms(3,4) by (simp_all add: shifted_weight)
  from ifft_bound [OF assms(1) len w this] obtain src' dst
    where r: "IFFT fl 13 ?s (2 ^ Suc 6) = Some (Returns (src', dst))" "length dst = 2 ^ Suc 6"
      and near: "\<forall>p < 2 ^ Suc 6. cmod (dst ! p - fourier ?s (2 ^ Suc 6) p / complex_of_real (real (2 ^ Suc 6))) \<le> 2" by blast
  have n128: "2 ^ Suc 6 = (128 :: nat)" by simp
  let ?x = "map (\<lambda>i. \<lparr>re = to_int16 (Re (dst ! i) * (128 / D)), im = to_int16 (Im (dst ! i) * (128 / D))\<rparr>) [0..<128]"
  have sh: "fold (\<lambda>i b. b[i := to_complex (z ! (32 + i)), 96 + i := to_complex (z ! i)]) [0..<32] (replicate 128 0) = ?s"
    using shifted_eq [of "\<lambda>t. to_complex (z ! t)" 32] by simp
  have tx: "real tones * real N_TX = 4 * real tones" by (simp add: N_TX_def)
  have x: "ifftShiftandIFFTPreamble fl 13 z tones = Some (Returns ?x)"
    unfolding ifftShiftandIFFTPreamble_def Let_def sh tx D_def [symmetric] using r(1) by simp
  have "cmod (to_complex (?x ! p) - wave z p / complex_of_real D) \<le> 256 / D + 2" if p: "p < 128" for p
  proof -
    let ?c = "complex_of_real (128 / D) * (dst ! p)"
    have "cmod (dst ! p - wave z p / complex_of_real 128) \<le> 2"
      using near [unfolded n128, rule_format, OF p] by (simp add: fourier_wave)
    then have "cmod (complex_of_real (128 / D) * (dst ! p - wave z p / complex_of_real 128)) \<le> 128 / D * 2"
      unfolding norm_mult norm_of_real using D by (intro mult_mono) simp_all
    then have c: "cmod (?c - wave z p / complex_of_real D) \<le> 256 / D" by (simp add: right_diff_distrib)
    have "cmod (wave z p) \<le> 32000 * D" using order_trans [OF wave_weight assms(5)] by (simp add: D_def)
    then have "cmod (wave z p / complex_of_real D) \<le> 32000" using D by (simp add: norm_divide field_simps)
    moreover have "256 / D \<le> 128" using D by (simp add: field_simps)
    ultimately have "cmod ?c \<le> 32767" using c norm_triangle_sub [of ?c "wave z p / complex_of_real D"] by linarith
    from to_int16_complex_near [OF this]
    have "cmod (to_complex (?x ! p) - ?c) \<le> 2" using p by (simp add: mult.commute)
    then show ?thesis using c norm_triangle_ineq [of "to_complex (?x ! p) - ?c" "?c - wave z p / complex_of_real D"] by simp
  qed
  then show ?thesis using x by (intro exI [of _ ?x]) (simp add: D_def)
qed

section \<open>The prefix and the window, sample by sample\<close>

text \<open>The mix of the end of the last field with the start of the next one.\<close>

definition mixed :: "nat \<Rightarrow> complex32 \<Rightarrow> complex32 \<Rightarrow> complex32" where
  "mixed i old new = \<lparr>re = scale_down 13 (sint (re new) * WT ! i + sint (re old) * WT ! (2 - i)),
     im = scale_down 13 (sint (im new) * WT ! i + sint (im old) * WT ! (2 - i))\<rparr>"

lemma add_window_eq:
  assumes "length reg = 3" "base + 3 \<le> length b" "3 \<le> base"
  shows "add_window 13 base b reg
    = (b[0 := mixed 0 (reg ! 0) (b ! 0), 1 := mixed 1 (reg ! 1) (b ! 1), 2 := mixed 2 (reg ! 2) (b ! 2)],
       [b ! base, b ! (base + 1), b ! (base + 2)])"
proof -
  obtain r0 r1 r2 where reg: "reg = [r0, r1, r2]" using assms(1) by (auto simp: numeral_3_eq_3 length_Suc_conv)
  have ups: "[0..<3] = [0, 1, 2 :: nat]" by (simp add: upt_rec)
  show ?thesis using assms(2,3) by (simp add: add_window_def ups reg mixed_def Let_def)
qed

lemma weights: "i < 3 \<Longrightarrow> 0 \<le> WT ! i \<and> WT ! i \<le> 8192 \<and> WT ! (2 - i) = 8192 - WT ! i"
  by (auto simp: WT_def less_Suc_eq numeral_3_eq_3)

text \<open>No overflow: the mean of two values, rounded down, lies between them.\<close>

lemma mean_between:
  fixes x y w :: int
  assumes "0 \<le> w" "w \<le> 8192"
  shows "min x y \<le> (y * w + x * (8192 - w)) div 8192" "(y * w + x * (8192 - w)) div 8192 \<le> max x y"
proof -
  have "min x y * w \<le> y * w" "min x y * (8192 - w) \<le> x * (8192 - w)" "y * w \<le> max x y * w" "x * (8192 - w) \<le> max x y * (8192 - w)"
    using assms by (intro mult_right_mono; simp)+
  then have "8192 * min x y \<le> y * w + x * (8192 - w)" "y * w + x * (8192 - w) \<le> 8192 * max x y"
    by (simp_all add: algebra_simps)
  then have "8192 * min x y div 8192 \<le> (y * w + x * (8192 - w)) div 8192" "(y * w + x * (8192 - w)) div 8192 \<le> 8192 * max x y div 8192"
    by (intro zdiv_mono1; simp)+
  then show "min x y \<le> (y * w + x * (8192 - w)) div 8192" "(y * w + x * (8192 - w)) div 8192 \<le> max x y" by simp_all
qed

lemma mean_16:
  assumes "0 \<le> w" "w \<le> 8192"
  shows "sint (scale_down 13 (sint (y :: int16) * w + sint (x :: int16) * (8192 - w)))
    = (sint y * w + sint x * (8192 - w)) div 8192"
proof -
  have "- 32768 \<le> min (sint x) (sint y)" using sint16_range [of x] sint16_range [of y] by simp
  then have "- 32768 \<le> (sint y * w + sint x * (8192 - w)) div 8192"
    by (rule order_trans [OF _ mean_between(1) [OF assms]])
  moreover have "max (sint x) (sint y) \<le> 32767" using sint16_range [of x] sint16_range [of y] by simp
  then have "(sint y * w + sint x * (8192 - w)) div 8192 \<le> 32767"
    by (rule order_trans [OF mean_between(2) [OF assms]])
  ultimately have "- 268435456 \<le> sint y * w + sint x * (8192 - w)" "sint y * w + sint x * (8192 - w) < 268435456" by linarith+
  then show ?thesis by (intro scale_down_13) simp_all
qed

lemma mixed_mean:
  assumes "i < 3"
  shows "sint (re (mixed i old new)) = (sint (re new) * WT ! i + sint (re old) * (8192 - WT ! i)) div 8192"
    and "sint (im (mixed i old new)) = (sint (im new) * WT ! i + sint (im old) * (8192 - WT ! i)) div 8192"
  using weights [OF assms] by (simp_all add: mixed_def mean_16)

text \<open>The samples before the window is applied, with the one that follows the field.\<close>

lemma preamble_prefix:
  assumes "length x = 128" "length b = 323" "p < 323"
  defines "c \<equiv> copy_part 194 x 0 128 (copy_part 66 x 0 128 (copy_part 2 x 64 64 (b[0 := x ! 62, 1 := x ! 63, 322 := x ! 0])))"
  shows "c ! p = x ! ((p + 62) mod 128)" "length c = 323"
proof -
  show "length c = 323" using assms by (simp add: length_copy_part)
  consider "p = 0" | "p = 1" | "2 \<le> p" "p < 66" | "66 \<le> p" "p < 194" | "194 \<le> p" "p < 322" | "p = 322"
    using assms(3) by linarith
  then show "c ! p = x ! ((p + 62) mod 128)"
  proof cases
    case 3
    then show ?thesis using assms by (simp add: copy_part_nth length_copy_part add.commute)
  next
    case 4
    then have "(p + 62) mod 128 = p - 66" by (simp add: mod_if)
    then show ?thesis using 4 assms by (simp add: copy_part_nth length_copy_part)
  next
    case 5
    then have "(p + 62) mod 128 = p - 194" by (simp add: mod_if)
    then show ?thesis using 5 assms by (simp add: copy_part_nth length_copy_part)
  qed (use assms in \<open>simp_all add: copy_part_nth length_copy_part\<close>)
qed

lemma sig_prefix:
  assumes "length x = 128" "length b = 163" "p < 163"
  defines "c \<equiv> copy_part 34 x 0 128 (copy_part 2 x 96 32 (b[0 := x ! 94, 1 := x ! 95, 162 := x ! 0]))"
  shows "c ! p = x ! ((p + 94) mod 128)" "length c = 163"
proof -
  show "length c = 163" using assms by (simp add: length_copy_part)
  consider "p = 0" | "p = 1" | "2 \<le> p" "p < 34" | "34 \<le> p" "p < 162" | "p = 162"
    using assms(3) by linarith
  then show "c ! p = x ! ((p + 94) mod 128)"
  proof cases
    case 3
    then show ?thesis using assms by (simp add: copy_part_nth length_copy_part add.commute)
  next
    case 4
    then have "(p + 94) mod 128 = p - 34" by (simp add: mod_if)
    then show ?thesis using 4 assms by (simp add: copy_part_nth length_copy_part)
  qed (use assms in \<open>simp_all add: copy_part_nth length_copy_part\<close>)
qed

section \<open>The weight of the tones of a field\<close>

lemma fpu_unit_circle: "\<bar>a - c\<bar> \<le> 1 / 2 ^ 52 \<Longrightarrow> \<bar>b - s\<bar> \<le> 1 / 2 ^ 52 \<Longrightarrow> \<bar>a\<bar> \<le> 1 \<Longrightarrow> \<bar>b\<bar> \<le> 1
    \<Longrightarrow> \<bar>c\<bar> \<le> 1 \<Longrightarrow> \<bar>s\<bar> \<le> 1 \<Longrightarrow> s\<^sup>2 + c\<^sup>2 = 1 \<Longrightarrow> a\<^sup>2 + b\<^sup>2 \<le> 1 + 1 / 2 ^ 50" for a b c s :: real
  using float_unit.square_close [OF ieee.float_unit_axioms, of c a "1 / 2 ^ 52"]
    float_unit.square_close [OF ieee.float_unit_axioms, of s b "1 / 2 ^ 52"]
  by (simp add: abs_minus_commute)

context float_unit
begin

lemma exp_cmod:
  assumes "\<bar>phase\<bar> \<le> 1" "\<bar>i\<bar> \<le> 128"
  shows "cmod (to_complex (expComlex32 fp 13 phase i)) \<le> 8192"
proof -
  let ?a = "fsingle fp (of_int i * phase)"
  let ?x = "trunc (fcos fp ?a * 8192)" and ?y = "trunc (fsin fp ?a * 8192)"
  have e: "to_complex (expComlex32 fp 13 phase i) = Complex (of_int ?x) (of_int ?y)"
    by (simp only: to_complex_def exp_parts)
  have "(fcos fp ?a)\<^sup>2 + (fsin fp ?a)\<^sup>2 \<le> 1 + 1 / 2 ^ 50"
    using angle_le(2) [OF assms]
    by (intro fpu_unit_circle [of _ "cos ?a" _ "sin ?a"] fcos_near fsin_near fcos_le fsin_le abs_cos_le_one abs_sin_le_one sin_cos_squared_add)
  moreover have "(of_int ?x)\<^sup>2 \<le> (fcos fp ?a * 8192)\<^sup>2" "(of_int ?y)\<^sup>2 \<le> (fsin fp ?a * 8192)\<^sup>2"
    using trunc_near(2) [of "fcos fp ?a * 8192"] trunc_near(2) [of "fsin fp ?a * 8192"] by (simp_all only: abs_le_square_iff)
  ultimately have "(real_of_int ?x)\<^sup>2 + (real_of_int ?y)\<^sup>2 < 8192\<^sup>2 + 1" by (simp add: power_mult_distrib)
  then have "real_of_int (?x\<^sup>2 + ?y\<^sup>2) < real_of_int (8192\<^sup>2 + 1)" by simp
  then have "?x\<^sup>2 + ?y\<^sup>2 \<le> 8192\<^sup>2" unfolding of_int_less_iff by linarith
  then have "real_of_int (?x\<^sup>2 + ?y\<^sup>2) \<le> real_of_int (8192\<^sup>2)" by (simp only: of_int_le_iff)
  then have "(real_of_int ?x)\<^sup>2 + (real_of_int ?y)\<^sup>2 \<le> 8192\<^sup>2" by simp
  then show ?thesis unfolding e complex_norm complex.sel by (rule real_le_lsqrt [rotated -1]) simp_all
qed

end

lemma div_8192_near: "\<bar>of_int (x div 8192) - of_int x / 8192\<bar> \<le> (1 :: real)"
  by linarith

lemma mult_cmod:
  assumes "cbound 8192 a" "cbound 8192 b" "cmod (to_complex b) \<le> 8192"
  shows "cmod (to_complex (multForComplex32 13 a b)) \<le> cmod (to_complex a) + 2"
proof -
  let ?m = "to_complex (multForComplex32 13 a b)"
  let ?e = "to_complex a * to_complex b / 8192"
  have "(8192 :: int) * 8192 < 2 ^ 27" by simp
  note m = mult_exact [OF assms(1,2) this]
  have "\<bar>Re (?m - ?e)\<bar> \<le> 1" "\<bar>Im (?m - ?e)\<bar> \<le> 1"
    using div_8192_near [of "sint (re a) * sint (re b) - sint (im a) * sint (im b)"]
      div_8192_near [of "sint (re a) * sint (im b) + sint (im a) * sint (re b)"]
    by (simp_all only: to_complex_def m complex.sel minus_complex.sel times_complex.sel of_int_diff of_int_add of_int_mult
        Re_divide_numeral Im_divide_numeral)
  then have "cmod (?m - ?e) \<le> 2" using cmod_le [of "?m - ?e"] by linarith
  moreover have "cmod ?e \<le> cmod (to_complex a)"
    using mult_left_mono [OF assms(3) norm_ge_zero [of "to_complex a"]] by (simp add: norm_mult norm_divide)
  ultimately show ?thesis using norm_triangle_sub [of ?m ?e] by linarith
qed

lemma near_cmod:
  assumes "near 4 x y"
  shows "cmod (to_complex x) \<le> cmod (to_complex y) + 8"
proof -
  let ?d = "to_complex x - to_complex y"
  have "real_of_int \<bar>sint (re x) - sint (re y)\<bar> \<le> real_of_int 4" "real_of_int \<bar>sint (im x) - sint (im y)\<bar> \<le> real_of_int 4"
    using assms unfolding near_def of_int_le_iff by simp_all
  then have "\<bar>Re ?d\<bar> \<le> 4" "\<bar>Im ?d\<bar> \<le> 4" by (simp_all only: to_complex_def minus_complex.sel complex.sel of_int_abs of_int_diff of_int_numeral)
  then show ?thesis using cmod_le [of ?d] norm_triangle_sub [of "to_complex x" "to_complex y"] by linarith
qed

lemma turned_cmod:
  assumes "avx2 mulhrs add sub" "cbound 8192 a" "float_unit fp" "\<bar>phase\<bar> \<le> 1" "\<bar>i\<bar> \<le> 128"
  shows "cmod (to_complex (lane mulhrs add sub a (expComlex32 fp 13 phase i))) \<le> cmod (to_complex a) + 10"
proof -
  have "near 4 (lane mulhrs add sub a (expComlex32 fp 13 phase i)) (multForComplex32 13 a (expComlex32 fp 13 phase i))"
    by (rule avx2.lane_near [OF assms(1,2) float_unit.exp_cbound [OF assms(3)]]) simp
  from near_cmod [OF this] mult_cmod [OF assms(2) float_unit.exp_cbound [OF assms(3)] float_unit.exp_cmod [OF assms(3-5)]] show ?thesis by linarith
qed

text \<open>At most \<open>B\<close> on the tones of \<open>used\<close>, and nothing on the others.\<close>

lemma field_weight:
  assumes "avx2 mulhrs add sub" and FU: "float_unit fp" "\<bar>phase\<bar> \<le> 1"
    and "\<And>t. t < 64 \<Longrightarrow> z ! t = lane mulhrs add sub (f t) (expComlex32 fp 13 phase (int t - 32))"
    and "\<And>t. t < 64 \<Longrightarrow> used t \<Longrightarrow> cbound 8192 (f t) \<and> cmod (to_complex (f t)) \<le> B"
    and "\<And>t. t < 64 \<Longrightarrow> \<not> used t \<Longrightarrow> f t = cpx 0 0"
  shows "tone_weight sel z \<le> real (length (filter (\<lambda>t. used t \<and> sel t) [0..<64])) * (B + 10)"
proof -
  have one: "(if sel t then cmod (to_complex (z ! t)) else 0) \<le> (if used t \<and> sel t then B + 10 else 0)" if "t < 64" for t
  proof (cases "used t")
    case True
    then show ?thesis using that assms(4,5) [of t] turned_cmod [OF assms(1) _ FU, of "f t" "int t - 32"]
      by (auto simp: abs_le_iff)
  next
    case False
    then have "z ! t = cpx 0 0" using that assms(4,6) avx2.lane_zero [OF assms(1)] by simp
    then show ?thesis using False by (simp add: to_complex_def cpx_def complex_eq_iff [of "Complex 0 0"])
  qed
  have "tone_weight sel z \<le> (\<Sum>t<64. if used t \<and> sel t then B + 10 else 0)"
    unfolding tone_weight_def using one by (intro sum_mono) simp
  also have "\<dots> = (\<Sum>t\<leftarrow>[0..<64]. if used t \<and> sel t then B + 10 else 0)"
    by (simp add: interv_sum_list_conv_sum_set_nat atLeast0LessThan)
  also have "\<dots> = (\<Sum>t\<leftarrow>filter (\<lambda>t. used t \<and> sel t) [0..<64]. B + 10)" by (simp only: sum_list_map_filter')
  also have "\<dots> = real (length (filter (\<lambda>t. used t \<and> sel t) [0..<64])) * (B + 10)"
    by (simp only: sum_list_triv)
  finally show ?thesis .
qed

definition point_ok :: "complex32 \<Rightarrow> bool" where
  "point_ok z \<longleftrightarrow> cbound 8192 z \<and> (sint (re z))\<^sup>2 + (sint (im z))\<^sup>2 \<le> 8193\<^sup>2"

lemma point_ok_cmod: "point_ok z \<Longrightarrow> cbound 8192 z \<and> cmod (to_complex z) \<le> 8193"
proof -
  assume z: "point_ok z"
  then have "real_of_int ((sint (re z))\<^sup>2 + (sint (im z))\<^sup>2) \<le> real_of_int (8193\<^sup>2)"
    unfolding of_int_le_iff by (simp only: point_ok_def)
  then have "(real_of_int (sint (re z)))\<^sup>2 + (real_of_int (sint (im z)))\<^sup>2 \<le> 8193\<^sup>2"
    by (simp only: of_int_add of_int_power of_int_numeral)
  then have "cmod (to_complex z) \<le> 8193"
    unfolding to_complex_def complex_norm complex.sel by (rule real_le_lsqrt [rotated -1]) simp_all
  then show ?thesis using z by (simp add: point_ok_def)
qed

definition antenna_field :: "(int16 \<Rightarrow> int16 \<Rightarrow> int16) \<Rightarrow> (int16 \<Rightarrow> int16 \<Rightarrow> int16) \<Rightarrow> (int16 \<Rightarrow> int16 \<Rightarrow> int16) \<Rightarrow> fpu
    \<Rightarrow> complex32 list \<Rightarrow> nat \<Rightarrow> nat \<Rightarrow> complex32 list" where
  "antenna_field mulhrs add sub fp s tx len = csdForPreamble mulhrs add sub fp 13 s tx len (replicate 64 (cpx 0 0))"

lemma antenna_field_nth:
  assumes "tx < 4" "t < 64"
  shows "antenna_field mulhrs add sub fp s tx 53 ! t
      = lane mulhrs add sub (field_tone s t) (expComlex32 fp 13 (preamble_phase fp tx) (int t - 32))"
    and "antenna_field mulhrs add sub fp (drop 4 (sig_of SigInfo)) tx 57 ! t
      = lane mulhrs add sub (sig_of SigInfo ! t) (expComlex32 fp 13 (preamble_phase fp tx) (int t - 32))"
proof -
  show "antenna_field mulhrs add sub fp s tx 53 ! t
      = lane mulhrs add sub (field_tone s t) (expComlex32 fp 13 (preamble_phase fp tx) (int t - 32))"
    using assms by (simp add: antenna_field_def csdForPreamble_nth field_tone_def)
  have sig: "(if 4 \<le> t \<and> t < 61 then drop 4 (sig_of SigInfo) ! (t - 4) else cpx 0 0) = sig_of SigInfo ! t"
  proof (cases "4 \<le> t \<and> t < 61")
    case False
    then have "t < 4 \<or> t = 32 \<or> 60 < t" by linarith
    from sig_of_guard [OF assms(2) this] show ?thesis using False by (simp only: if_False)
  qed (simp add: length_sig_of)
  have "antenna_field mulhrs add sub fp (drop 4 (sig_of SigInfo)) tx 57 ! t
      = lane mulhrs add sub (if 4 \<le> t \<and> t < 61 then drop 4 (sig_of SigInfo) ! (t - 4) else cpx 0 0)
          (expComlex32 fp 13 (preamble_phase fp tx) (int t - 32))"
    using assms by (simp add: antenna_field_def csdForPreamble_nth)
  then show "antenna_field mulhrs add sub fp (drop 4 (sig_of SigInfo)) tx 57 ! t
      = lane mulhrs add sub (sig_of SigInfo ! t) (expComlex32 fp 13 (preamble_phase fp tx) (int t - 32))"
    unfolding sig .
qed

lemma points_ok:
  "point_ok (field_tone basicSTF t)" "point_ok (field_tone basicLTF t)" "t < 64 \<Longrightarrow> point_ok (sig_of SigInfo ! t)"
proof -
  have "list_all point_ok basicSTF" "list_all point_ok basicLTF" "length basicSTF = 53" "length basicLTF = 53"
    "point_ok (cpx 0 0)" by code_simp+
  then show "point_ok (field_tone basicSTF t)" "point_ok (field_tone basicLTF t)"
    by (auto simp: field_tone_def list_all_length)
  have "point_ok (cpx 8192 0)" "point_ok (cpx (- 8192) 0)" "point_ok (cpx 0 0)" by code_simp+
  then show "t < 64 \<Longrightarrow> point_ok (sig_of SigInfo ! t)" by (simp add: sig_of_nth sig_point_def)
qed

lemma field_weights:
  assumes "avx2 mulhrs add sub" "tx < 4" "float_unit fp"
  shows "tone_weight even (antenna_field mulhrs add sub fp basicSTF tx 53) \<le> 98436"
    and "tone_weight odd (antenna_field mulhrs add sub fp basicSTF tx 53) \<le> 0"
    and "tone_weight even (antenna_field mulhrs add sub fp basicLTF tx 53) \<le> 213278"
    and "tone_weight odd (antenna_field mulhrs add sub fp basicLTF tx 53) \<le> 213278"
    and "tone_weight even (antenna_field mulhrs add sub fp (drop 4 (sig_of SigInfo)) tx 57) \<le> 229684"
    and "tone_weight odd (antenna_field mulhrs add sub fp (drop 4 (sig_of SigInfo)) tx 57) \<le> 229684"
proof -
  define u where "u s t = (field_tone s t \<noteq> cpx 0 0)" for s t
  define v where "v t \<longleftrightarrow> \<not> (t < 4 \<or> t = 32 \<or> 60 < t)" for t :: nat
  have s: "tone_weight sel (antenna_field mulhrs add sub fp s tx 53)
      \<le> real (length (filter (\<lambda>t. u s t \<and> sel t) [0..<64])) * (8193 + 10)"
    if "\<And>t. point_ok (field_tone s t)" for sel s
    by (rule field_weight [OF assms(1,3) float_unit.preamble_phase_le [OF assms(3,2)] antenna_field_nth(1) [OF assms(2)]]) (use point_ok_cmod [OF that] in \<open>auto simp: u_def\<close>)
  have g: "tone_weight sel (antenna_field mulhrs add sub fp (drop 4 (sig_of SigInfo)) tx 57)
      \<le> real (length (filter (\<lambda>t. v t \<and> sel t) [0..<64])) * (8193 + 10)" for sel
    by (rule field_weight [OF assms(1,3) float_unit.preamble_phase_le [OF assms(3,2)] antenna_field_nth(2) [OF assms(2)]])
      (use point_ok_cmod points_ok(3) sig_of_guard in \<open>auto simp: v_def\<close>)
  have n: "length (filter (\<lambda>t. u basicSTF t \<and> even t) [0..<64]) = 12" "length (filter (\<lambda>t. u basicSTF t \<and> odd t) [0..<64]) = 0"
    "length (filter (\<lambda>t. u basicLTF t \<and> even t) [0..<64]) = 26" "length (filter (\<lambda>t. u basicLTF t \<and> odd t) [0..<64]) = 26"
    "length (filter (\<lambda>t. v t \<and> even t) [0..<64]) = 28" "length (filter (\<lambda>t. v t \<and> odd t) [0..<64]) = 28"
    unfolding u_def v_def by code_simp+
  show "tone_weight even (antenna_field mulhrs add sub fp basicSTF tx 53) \<le> 98436"
    "tone_weight odd (antenna_field mulhrs add sub fp basicSTF tx 53) \<le> 0"
    using s [OF points_ok(1), of even] s [OF points_ok(1), of odd] by (simp_all only: n) simp_all
  show "tone_weight even (antenna_field mulhrs add sub fp basicLTF tx 53) \<le> 213278"
    "tone_weight odd (antenna_field mulhrs add sub fp basicLTF tx 53) \<le> 213278"
    using s [OF points_ok(2), of even] s [OF points_ok(2), of odd] by (simp_all only: n) simp_all
  show "tone_weight even (antenna_field mulhrs add sub fp (drop 4 (sig_of SigInfo)) tx 57) \<le> 229684"
    "tone_weight odd (antenna_field mulhrs add sub fp (drop 4 (sig_of SigInfo)) tx 57) \<le> 229684"
    using g [of even] g [of odd] by (simp_all only: n) simp_all
qed

lemma sqrt_bounds: "6.9 \<le> sqrt (4 * 12)" "14 \<le> sqrt (4 * 52)" "14.9 \<le> sqrt (4 * 56)"
  by (rule real_le_rsqrt; simp add: power2_eq_square)+

text \<open>The samples of one field: \<open>x\<close> is what the transform leaves of \<open>z\<close>.\<close>

definition samples_of :: "complex32 list \<Rightarrow> nat \<Rightarrow> real \<Rightarrow> complex32 list \<Rightarrow> bool" where
  "samples_of z tones e x \<longleftrightarrow> length x = 128
    \<and> (\<forall>p < 128. cmod (to_complex (x ! p) - wave z p / complex_of_real (sqrt (4 * real tones))) \<le> e)"

lemma samples_of_wave:
  assumes "samples_of z tones e x"
  shows "cmod (to_complex (x ! (p mod 128)) - wave z p / complex_of_real (sqrt (4 * real tones))) \<le> e"
  using assms wave_mod [of z p] by (metis samples_of_def mod_less_divisor zero_less_numeral)

lemma field_samples:
  assumes "avx2 mulhrs add sub" "float_unit fp" "tx < 4"
  shows "\<exists>x. ifftShiftandIFFTPreamble (fsingle fp) 13 (antenna_field mulhrs add sub fp basicSTF tx 53) 12 = Some (Returns x)
      \<and> samples_of (antenna_field mulhrs add sub fp basicSTF tx 53) 12 40 x"
    and "\<exists>x. ifftShiftandIFFTPreamble (fsingle fp) 13 (antenna_field mulhrs add sub fp basicLTF tx 53) 52 = Some (Returns x)
      \<and> samples_of (antenna_field mulhrs add sub fp basicLTF tx 53) 52 21 x"
    and "\<exists>x. ifftShiftandIFFTPreamble (fsingle fp) 13 (antenna_field mulhrs add sub fp (drop 4 (sig_of SigInfo)) tx 57) 56 = Some (Returns x)
      \<and> samples_of (antenna_field mulhrs add sub fp (drop 4 (sig_of SigInfo)) tx 57) 56 21 x"
proof -
  have field: "\<exists>x. ifftShiftandIFFTPreamble (fsingle fp) 13 z tones = Some (Returns x) \<and> samples_of z tones e x"
    if "tone_weight even z \<le> w" "tone_weight odd z \<le> w" "w \<le> 260992" "d \<le> sqrt (4 * real tones)" "0 < d"
      "2 * w \<le> 32000 * d" "256 / d + 2 \<le> e" "0 < tones" for z tones w d e
  proof -
    have "0 < sqrt (4 * real tones) * d" using that(5,8) by (intro mult_pos_pos) simp_all
    then have "256 / sqrt (4 * real tones) \<le> 256 / d" using that(4) by (intro divide_left_mono) simp_all
    moreover have "tone_weight even z + tone_weight odd z \<le> 32000 * sqrt (4 * real tones)" using that by linarith
    ultimately show ?thesis
      using preamble_ifft [OF float_unit.fsingle_rounding [OF assms(2)] that(8), of z] that by (force simp: samples_of_def)
  qed
  note w = field_weights [OF assms(1,3,2)]
  have "tone_weight odd (antenna_field mulhrs add sub fp basicSTF tx 53) \<le> 98436" using w(2) by linarith
  then show "\<exists>x. ifftShiftandIFFTPreamble (fsingle fp) 13 (antenna_field mulhrs add sub fp basicSTF tx 53) 12 = Some (Returns x)
      \<and> samples_of (antenna_field mulhrs add sub fp basicSTF tx 53) 12 40 x"
    using sqrt_bounds(1) by (intro field [OF w(1), of "6.9"]) simp_all
  show "\<exists>x. ifftShiftandIFFTPreamble (fsingle fp) 13 (antenna_field mulhrs add sub fp basicLTF tx 53) 52 = Some (Returns x)
      \<and> samples_of (antenna_field mulhrs add sub fp basicLTF tx 53) 52 21 x"
    using sqrt_bounds(2) by (intro field [OF w(3,4), of 14]) simp_all
  show "\<exists>x. ifftShiftandIFFTPreamble (fsingle fp) 13 (antenna_field mulhrs add sub fp (drop 4 (sig_of SigInfo)) tx 57) 56 = Some (Returns x)
      \<and> samples_of (antenna_field mulhrs add sub fp (drop 4 (sig_of SigInfo)) tx 57) 56 21 x"
    using sqrt_bounds(3) by (intro field [OF w(5,6), of "14.9"]) simp_all
qed

text \<open>What the prefix routines leave in the array and in the register.\<close>

lemma windowed:
  assumes "length c = base + 3" "\<And>p. p < base + 3 \<Longrightarrow> c ! p = f p" "length reg = 3" "3 \<le> base"
  shows "\<exists>out. add_window 13 base c reg = (out, [f base, f (base + 1), f (base + 2)]) \<and> length out = base + 3
    \<and> (\<forall>p < base + 3. out ! p = (if p < 3 then mixed p (reg ! p) (f p) else f p))"
proof (intro exI conjI allI impI)
  let ?out = "c[0 := mixed 0 (reg ! 0) (c ! 0), 1 := mixed 1 (reg ! 1) (c ! 1), 2 := mixed 2 (reg ! 2) (c ! 2)]"
  show "add_window 13 base c reg = (?out, [f base, f (base + 1), f (base + 2)])"
    using assms(1,4) by (simp only: add_window_eq [OF assms(3) _ assms(4)] assms(2))
  show "length ?out = base + 3" using assms(1) by simp
  fix p
  assume p: "p < base + 3"
  consider "p = 0" | "p = 1" | "p = 2" | "3 \<le> p" by linarith
  then show "?out ! p = (if p < 3 then mixed p (reg ! p) (f p) else f p)"
    by cases (use assms(1,4) p in \<open>simp_all add: assms(2)\<close>)
qed

lemma addCPforPreamble_eq:
  assumes "length x = 128" "length b = 323" "length reg = 3"
  shows "\<exists>out. addCPforPreamble 13 x b reg = (out, [x ! 126, x ! 127, x ! 0]) \<and> length out = 323
    \<and> (\<forall>p < 323. out ! p = (if p < 3 then mixed p (reg ! p) (x ! ((p + 62) mod 128)) else x ! ((p + 62) mod 128)))"
proof -
  let ?c = "copy_part 194 x 0 128 (copy_part 66 x 0 128 (copy_part 2 x 64 64 (b[0 := x ! 62, 1 := x ! 63, 322 := x ! 0])))"
  have "length ?c = 320 + 3" by (subst preamble_prefix(2) [OF assms(1,2), of 0]) simp_all
  moreover have "?c ! p = x ! ((p + 62) mod 128)" if "p < 320 + 3" for p
    by (rule preamble_prefix(1) [OF assms(1,2)]) (use that in simp)
  ultimately have "\<exists>out. add_window 13 320 ?c reg
      = (out, [x ! ((320 + 62) mod 128), x ! ((320 + 1 + 62) mod 128), x ! ((320 + 2 + 62) mod 128)]) \<and> length out = 320 + 3
    \<and> (\<forall>p < 320 + 3. out ! p = (if p < 3 then mixed p (reg ! p) (x ! ((p + 62) mod 128)) else x ! ((p + 62) mod 128)))"
    using assms(3) by (intro windowed) simp_all
  moreover have "addCPforPreamble 13 x b reg = add_window 13 320 ?c reg" by (simp only: addCPforPreamble_def Let_def)
  moreover have "(320 + 62) mod 128 = (126 :: nat)" "(320 + 1 + 62) mod 128 = (127 :: nat)" "(320 + 2 + 62) mod 128 = (0 :: nat)"
    "320 + 3 = (323 :: nat)" by simp_all
  ultimately show ?thesis by (simp only:)
qed

lemma addCPforSig_eq:
  assumes "length x = 128" "length b = 163" "length reg = 3"
  shows "\<exists>out. addCPforSig 13 x b reg = (out, [x ! 126, x ! 127, x ! 0]) \<and> length out = 163
    \<and> (\<forall>p < 163. out ! p = (if p < 3 then mixed p (reg ! p) (x ! ((p + 94) mod 128)) else x ! ((p + 94) mod 128)))"
proof -
  let ?c = "copy_part 34 x 0 128 (copy_part 2 x 96 32 (b[0 := x ! 94, 1 := x ! 95, 162 := x ! 0]))"
  have "length ?c = 160 + 3" by (subst sig_prefix(2) [OF assms(1,2), of 0]) simp_all
  moreover have "?c ! p = x ! ((p + 94) mod 128)" if "p < 160 + 3" for p
    by (rule sig_prefix(1) [OF assms(1,2)]) (use that in simp)
  ultimately have "\<exists>out. add_window 13 160 ?c reg
      = (out, [x ! ((160 + 94) mod 128), x ! ((160 + 1 + 94) mod 128), x ! ((160 + 2 + 94) mod 128)]) \<and> length out = 160 + 3
    \<and> (\<forall>p < 160 + 3. out ! p = (if p < 3 then mixed p (reg ! p) (x ! ((p + 94) mod 128)) else x ! ((p + 94) mod 128)))"
    using assms(3) by (intro windowed) simp_all
  moreover have "addCPforSig 13 x b reg = add_window 13 160 ?c reg" by (simp only: addCPforSig_def Let_def)
  moreover have "(160 + 94) mod 128 = (126 :: nat)" "(160 + 1 + 94) mod 128 = (127 :: nat)" "(160 + 2 + 94) mod 128 = (0 :: nat)"
    "160 + 3 = (163 :: nat)" by simp_all
  ultimately show ?thesis by (simp only:)
qed


lemma generatePreamble_eq:
  assumes "avx2 mulhrs add sub" "float_unit fp" "tx < 4" "3 \<le> length SigInfo" "tx < length regs" "length (regs ! tx) = 3"
  obtains stf ltf sig b1 b2 b3 where
    "generatePreamble mulhrs add sub fp 13 SigInfo regs tx = Some (Returns ((take 320 b1, take 320 b2, take 160 b3),
       regs[tx := [sig ! 126, sig ! 127, sig ! 0]]))"
    "samples_of (antenna_field mulhrs add sub fp basicSTF tx 53) 12 40 stf" "samples_of (antenna_field mulhrs add sub fp basicLTF tx 53) 52 21 ltf"
    "samples_of (antenna_field mulhrs add sub fp (drop 4 (sig_of SigInfo)) tx 57) 56 21 sig"
    "length b1 = 323" "length b2 = 323" "length b3 = 163"
    "\<And>p. p < 323 \<Longrightarrow> b1 ! p = (if p < 3 then mixed p (regs ! tx ! p) (stf ! ((p + 62) mod 128)) else stf ! ((p + 62) mod 128))"
    "\<And>p. p < 323 \<Longrightarrow> b2 ! p = (if p < 3 then mixed p (stf ! ((p + 126) mod 128)) (ltf ! ((p + 62) mod 128)) else ltf ! ((p + 62) mod 128))"
    "\<And>p. p < 163 \<Longrightarrow> b3 ! p = (if p < 3 then mixed p (ltf ! ((p + 126) mod 128)) (sig ! ((p + 94) mod 128)) else sig ! ((p + 94) mod 128))"
proof -
  note f = field_samples [OF assms(1-3)]
  from f(1) obtain stf where stf: "ifftShiftandIFFTPreamble (fsingle fp) 13 (antenna_field mulhrs add sub fp basicSTF tx 53) 12 = Some (Returns stf)"
    "samples_of (antenna_field mulhrs add sub fp basicSTF tx 53) 12 40 stf" by blast
  from f(2) obtain ltf where ltf: "ifftShiftandIFFTPreamble (fsingle fp) 13 (antenna_field mulhrs add sub fp basicLTF tx 53) 52 = Some (Returns ltf)"
    "samples_of (antenna_field mulhrs add sub fp basicLTF tx 53) 52 21 ltf" by blast
  from f(3) obtain sig where sig: "ifftShiftandIFFTPreamble (fsingle fp) 13 (antenna_field mulhrs add sub fp (drop 4 (sig_of SigInfo)) tx 57) 56 = Some (Returns sig)"
    "samples_of (antenna_field mulhrs add sub fp (drop 4 (sig_of SigInfo)) tx 57) 56 21 sig" by blast
  have len: "length stf = 128" "length ltf = 128" "length sig = 128"
    using stf(2) ltf(2) sig(2) by (simp_all add: samples_of_def)
  let ?z = "replicate 323 (cpx 0 0)" and ?z' = "replicate 163 (cpx 0 0)"
  from addCPforPreamble_eq [OF len(1), of ?z "regs ! tx"] assms(6)
  obtain b1 where b1: "addCPforPreamble 13 stf ?z (regs ! tx) = (b1, [stf ! 126, stf ! 127, stf ! 0])" "length b1 = 323"
    "\<forall>p < 323. b1 ! p = (if p < 3 then mixed p (regs ! tx ! p) (stf ! ((p + 62) mod 128)) else stf ! ((p + 62) mod 128))" by auto
  from addCPforPreamble_eq [OF len(2), of ?z "[stf ! 126, stf ! 127, stf ! 0]"]
  obtain b2 where b2: "addCPforPreamble 13 ltf ?z [stf ! 126, stf ! 127, stf ! 0] = (b2, [ltf ! 126, ltf ! 127, ltf ! 0])" "length b2 = 323"
    "\<forall>p < 323. b2 ! p = (if p < 3 then mixed p ([stf ! 126, stf ! 127, stf ! 0] ! p) (ltf ! ((p + 62) mod 128)) else ltf ! ((p + 62) mod 128))" by auto
  from addCPforSig_eq [OF len(3), of ?z' "[ltf ! 126, ltf ! 127, ltf ! 0]"]
  obtain b3 where b3: "addCPforSig 13 sig ?z' [ltf ! 126, ltf ! 127, ltf ! 0] = (b3, [sig ! 126, sig ! 127, sig ! 0])" "length b3 = 163"
    "\<forall>p < 163. b3 ! p = (if p < 3 then mixed p ([ltf ! 126, ltf ! 127, ltf ! 0] ! p) (sig ! ((p + 94) mod 128)) else sig ! ((p + 94) mod 128))" by auto
  have reg: "[x ! 126, x ! 127, x ! 0] ! p = x ! ((p + 126) mod 128)" if lt: "p < 3" for x :: "complex32 list" and p
  proof -
    consider "p = 0" | "p = 1" | "p = 2" using lt by linarith
    then show ?thesis by cases simp_all
  qed
  have eq: "generatePreamble mulhrs add sub fp 13 SigInfo regs tx = Some (Returns ((take 320 b1, take 320 b2, take 160 b3),
       regs[tx := [sig ! 126, sig ! 127, sig ! 0]]))"
    using stf(1) ltf(1) sig(1) assms(5)
    by (simp add: generatePreamble_def generateSTF_def generateLTF_def generateSig_def Let_def antenna_field_def
        generateBasicSig_eq [OF assms(4)] b1(1) b2(1) b3(1))
  show ?thesis
    by (rule that [OF eq stf(2) ltf(2) sig(2) b1(2) b2(2) b3(2)]) (use b1(3) b2(3) b3(3) in \<open>auto simp: reg simp del: nth_Cons_numeral\<close>)
qed


section \<open>Properties\<close>

text \<open>C34: prefix and window. From the 128 samples of the transform, \<open>addCPforPreamble\<close> and
  \<open>addCPforSig\<close> make 320 and 160 samples of their periodic continuation, starting 66 and 34 samples
  before a period; the first three of them are means of the sample itself and of what the register
  holds, with the weights 1200, 4096 and 6992 of 8192, computed without overflow; the register
  receives the three samples that follow the field.\<close>

theorem prefix_window:
  assumes "length x = 128" "length b = 323" "length b' = 163" "length reg = 3"
  shows "\<exists>out out'. addCPforPreamble 13 x b reg = (out, [x ! 126, x ! 127, x ! 0])
    \<and> addCPforSig 13 x b' reg = (out', [x ! 126, x ! 127, x ! 0])
    \<and> (\<forall>p. 3 \<le> p \<and> p < 320 \<longrightarrow> out ! p = x ! ((p + 62) mod 128))
    \<and> (\<forall>p. 3 \<le> p \<and> p < 160 \<longrightarrow> out' ! p = x ! ((p + 94) mod 128))
    \<and> (\<forall>p < 3. sint (re (out ! p)) = (sint (re (x ! (p + 62))) * WT ! p + sint (re (reg ! p)) * (8192 - WT ! p)) div 8192
      \<and> sint (im (out ! p)) = (sint (im (x ! (p + 62))) * WT ! p + sint (im (reg ! p)) * (8192 - WT ! p)) div 8192
      \<and> sint (re (out' ! p)) = (sint (re (x ! (p + 94))) * WT ! p + sint (re (reg ! p)) * (8192 - WT ! p)) div 8192
      \<and> sint (im (out' ! p)) = (sint (im (x ! (p + 94))) * WT ! p + sint (im (reg ! p)) * (8192 - WT ! p)) div 8192)"
proof -
  obtain out where out: "addCPforPreamble 13 x b reg = (out, [x ! 126, x ! 127, x ! 0])"
    "\<forall>p < 323. out ! p = (if p < 3 then mixed p (reg ! p) (x ! ((p + 62) mod 128)) else x ! ((p + 62) mod 128))"
    using addCPforPreamble_eq [OF assms(1,2,4)] by blast
  obtain out' where out': "addCPforSig 13 x b' reg = (out', [x ! 126, x ! 127, x ! 0])"
    "\<forall>p < 163. out' ! p = (if p < 3 then mixed p (reg ! p) (x ! ((p + 94) mod 128)) else x ! ((p + 94) mod 128))"
    using addCPforSig_eq [OF assms(1,3,4)] by blast
  have "out ! p = mixed p (reg ! p) (x ! (p + 62))" "out' ! p = mixed p (reg ! p) (x ! (p + 94))" if "p < 3" for p
    using out(2) out'(2) that by simp_all
  then show ?thesis using out out' by (intro exI [of _ out] exI [of _ out']) (simp add: mixed_mean)
qed

theorem prefix_window_witness:
  "\<exists>out. addCPforPreamble 13 (map (\<lambda>i. cpx (int i * 200) (- int i)) [0..<128]) (replicate 323 (cpx 0 0)) [cpx 5 5, cpx 6 6, cpx 7 7]
      = (out, [cpx 25200 (- 126), cpx 25400 (- 127), cpx 0 0])
    \<and> sint (re (out ! 1)) = (12600 * 4096 + 6 * 4096) div 8192 \<and> out ! 100 = cpx (34 * 200) (- 34)"
proof -
  let ?x = "map (\<lambda>i. cpx (int i * 200) (- int i)) [0..<128]"
  have one: "(1 :: nat) < 3" by simp
  have "re (?x ! (1 + 62)) = 12600" "WT ! 1 = 4096" by (simp_all add: cpx_def WT_def)
  then show ?thesis
    using prefix_window [of ?x "replicate 323 (cpx 0 0)" "replicate 163 (cpx 0 0)" "[cpx 5 5, cpx 6 6, cpx 7 7]"] one
    by (force simp: cpx_def)
qed

text \<open>C35: the preamble in the time domain. For every antenna and every register, \<open>generatePreamble\<close>
  returns 320 samples of the short, 320 of the long training
  field and 160 of the signal field, and from the fourth sample on each is within 40 units (21 for
  the long training and the signal field) of the exact sum of the waves of its tones, normalised
  by the root of four times the number of tones.\<close>

theorem preamble_samples:
  assumes "avx2 mulhrs add sub" "float_unit fp" "tx < 4" "3 \<le> length SigInfo" "tx < length regs" "length (regs ! tx) = 3"
  shows "\<exists>stf ltf sig regs'. generatePreamble mulhrs add sub fp 13 SigInfo regs tx = Some (Returns ((stf, ltf, sig), regs'))
    \<and> length stf = 320 \<and> length ltf = 320 \<and> length sig = 160
    \<and> (\<forall>p. 3 \<le> p \<and> p < 320 \<longrightarrow>
        cmod (to_complex (stf ! p) - wave (antenna_field mulhrs add sub fp basicSTF tx 53) (p + 62) / complex_of_real (sqrt (4 * 12))) \<le> 40
      \<and> cmod (to_complex (ltf ! p) - wave (antenna_field mulhrs add sub fp basicLTF tx 53) (p + 62) / complex_of_real (sqrt (4 * 52))) \<le> 21)
    \<and> (\<forall>p. 3 \<le> p \<and> p < 160 \<longrightarrow> cmod (to_complex (sig ! p)
        - wave (antenna_field mulhrs add sub fp (drop 4 (sig_of SigInfo)) tx 57) (p + 94) / complex_of_real (sqrt (4 * 56))) \<le> 21)"
proof -
  obtain stf ltf sig b1 b2 b3 where
    r: "generatePreamble mulhrs add sub fp 13 SigInfo regs tx = Some (Returns ((take 320 b1, take 320 b2, take 160 b3),
       regs[tx := [sig ! 126, sig ! 127, sig ! 0]]))"
    and s: "samples_of (antenna_field mulhrs add sub fp basicSTF tx 53) 12 40 stf" "samples_of (antenna_field mulhrs add sub fp basicLTF tx 53) 52 21 ltf"
      "samples_of (antenna_field mulhrs add sub fp (drop 4 (sig_of SigInfo)) tx 57) 56 21 sig"
    and b: "length b1 = 323" "length b2 = 323" "length b3 = 163"
    and o: "\<And>p. p < 323 \<Longrightarrow> b1 ! p = (if p < 3 then mixed p (regs ! tx ! p) (stf ! ((p + 62) mod 128)) else stf ! ((p + 62) mod 128))"
      "\<And>p. p < 323 \<Longrightarrow> b2 ! p = (if p < 3 then mixed p (stf ! ((p + 126) mod 128)) (ltf ! ((p + 62) mod 128)) else ltf ! ((p + 62) mod 128))"
      "\<And>p. p < 163 \<Longrightarrow> b3 ! p = (if p < 3 then mixed p (ltf ! ((p + 126) mod 128)) (sig ! ((p + 94) mod 128)) else sig ! ((p + 94) mod 128))"
    by (rule generatePreamble_eq [OF assms]) (rule that)
  have f: "take 320 b1 ! p = stf ! ((p + 62) mod 128)" "take 320 b2 ! p = ltf ! ((p + 62) mod 128)" if "3 \<le> p \<and> p < 320" for p
    using that o(1,2) [of p] by simp_all
  have g: "take 160 b3 ! p = sig ! ((p + 94) mod 128)" if "3 \<le> p \<and> p < 160" for p using that o(3) [of p] by simp
  note w = samples_of_wave [OF s(1)] samples_of_wave [OF s(2)] samples_of_wave [OF s(3)]
  show ?thesis
  proof (intro exI conjI allI impI)
    show "generatePreamble mulhrs add sub fp 13 SigInfo regs tx = Some (Returns ((take 320 b1, take 320 b2, take 160 b3),
       regs[tx := [sig ! 126, sig ! 127, sig ! 0]]))" by (rule r)
    show "length (take 320 b1) = 320" "length (take 320 b2) = 320" "length (take 160 b3) = 160" using b by simp_all
    show "cmod (to_complex (take 320 b1 ! p) - wave (antenna_field mulhrs add sub fp basicSTF tx 53) (p + 62) / complex_of_real (sqrt (4 * 12))) \<le> 40"
      "cmod (to_complex (take 320 b2 ! p) - wave (antenna_field mulhrs add sub fp basicLTF tx 53) (p + 62) / complex_of_real (sqrt (4 * 52))) \<le> 21"
      if "3 \<le> p \<and> p < 320" for p
      using w(1,2) [of "p + 62"] unfolding f [OF that] by simp_all
    show "cmod (to_complex (take 160 b3 ! p)
        - wave (antenna_field mulhrs add sub fp (drop 4 (sig_of SigInfo)) tx 57) (p + 94) / complex_of_real (sqrt (4 * 56))) \<le> 21"
      if "3 \<le> p \<and> p < 160" for p
      using w(3) [of "p + 94"] unfolding g [OF that] by simp
  qed
qed

theorem preamble_samples_witness:
  "\<exists>stf ltf sig regs'. generatePreamble mulhrs_lane (+) (-) ieee 13 [0x8B, 0, 0] (replicate 4 (replicate 3 (cpx 0 0))) 2
      = Some (Returns ((stf, ltf, sig), regs'))
    \<and> cmod (to_complex (ltf ! 100) - wave (antenna_field mulhrs_lane (+) (-) ieee basicLTF 2 53) 162 / complex_of_real (sqrt (4 * 52))) \<le> 21"
proof -
  have "length (replicate 4 (replicate 3 (cpx 0 0)) ! 2) = 3" "(2 :: nat) < 4" "3 \<le> length [0x8B, 0, 0 :: byte]"
    "2 < length (replicate 4 (replicate 3 (cpx 0 0)))" by simp_all
  note r = preamble_samples [OF lanes.avx2_axioms ieee.float_unit_axioms this(2,3,4,1)]
  have "100 + 62 = (162 :: nat)" "3 \<le> (100 :: nat) \<and> 100 < (320 :: nat)" by simp_all
  with r show ?thesis by metis
qed

end
