(* ===== verification/Symbols.thy ===== *)
theory Symbols
  imports Ofdm
begin

text \<open>
  From tones to samples, for the data: \<open>ifftShiftandIFFTData\<close> of \<^verbatim>\<open>IFFT\<close>, the cyclic prefix
  (\<open>addCPforData\<close>) and \<open>csd_data_IDFT\<close>, which turns all symbols of all antennas into samples.
\<close>

section \<open>Definitions\<close>

definition DftSize :: "globals \<Rightarrow> nat" where
  "DftSize g = SampRate g div (Band g div 4) * subcar g"

definition ifftShiftandIFFTData :: "(real \<Rightarrow> real) \<Rightarrow> globals \<Rightarrow> complex32 list \<Rightarrow> complex32 list outcome option" where
  "ifftShiftandIFFTData fl g dataAfterCSD =
     (let n = DftSize g;
          coeff = fl (real n / sqrt (real (N_tone g) * real N_STS));
          qtr_DftSize = n div 4;
          pBeforeIFFT = fold (\<lambda>i b. b[i := to_complex (dataAfterCSD ! (qtr_DftSize * 2 + i)),
              qtr_DftSize * 3 + i := to_complex (dataAfterCSD ! (qtr_DftSize + i))]) [0..<qtr_DftSize] (replicate n 0)
      in and_then (IFFT fl (dotscale g) pBeforeIFFT n) (\<lambda>(src, pAfterIFFTtemp).
        Some (Returns (map (\<lambda>i. \<lparr>re = to_int16 (fl (Re (pAfterIFFTtemp ! i) * coeff)),
          im = to_int16 (fl (Im (pAfterIFFTtemp ! i) * coeff))\<rparr>) [0..<n]))))"

text \<open>The prefix of a data symbol lasts 3.2 microseconds.\<close>

definition data_CpLen :: "(real \<Rightarrow> real) \<Rightarrow> globals \<Rightarrow> nat" where
  "data_CpLen fl g = nat (trunc (fl (fl (32 / 10) * real (SampRate g))))"

definition addCPforData :: "(real \<Rightarrow> real) \<Rightarrow> globals \<Rightarrow> complex32 list \<Rightarrow> nat \<Rightarrow> nat \<Rightarrow> nat \<Rightarrow> complex32 list \<Rightarrow> complex32 list" where
  "addCPforData fl g pAfterIFFT nsym symbol tx pBeforeAddWin =
     (let CpLen = data_CpLen fl g;
          n = DftSize g;
          b = copy_part ((n + CpLen) * nsym * tx + symbol * (n + CpLen)) pAfterIFFT (n - CpLen) CpLen pBeforeAddWin
      in copy_part (CpLen + (n + CpLen) * nsym * tx + symbol * (n + CpLen)) pAfterIFFT 0 n b)"

definition negated :: "int16 \<Rightarrow> int16" where
  "negated x = word_of_int (- 1 * sint x)"

text \<open>The rotation of the upper tones, by the bandwidth.\<close>

definition rotate_tones :: "globals \<Rightarrow> complex32 list \<Rightarrow> complex32 list" where
  "rotate_tones g X_freq =
     (let flip_tone = \<lambda>i X. X[i := \<lparr>re = negated (re (X ! i)), im = negated (im (X ! i))\<rparr>]
      in if Band g = 40 then fold (\<lambda>i X. X[i := \<lparr>re = negated (im (X ! i)), im = re (X ! i)\<rparr>]) [64..<subcar g] X_freq
         else if Band g = 80 then fold flip_tone [64..<subcar g] X_freq
         else if Band g = 160 then fold flip_tone [320..<subcar g] (fold flip_tone [64..<256] X_freq)
         else X_freq)"

text \<open>Symbol and antenna of one turn of the inner loop: the arrays \<open>X_freq\<close> and \<open>X_freq_pad\<close> are
  filled anew in every turn.\<close>

definition symbol_tones :: "globals \<Rightarrow> complex32 list \<Rightarrow> nat \<Rightarrow> nat \<Rightarrow> nat \<Rightarrow> complex32 list" where
  "symbol_tones g csd_data nsym symbol tx =
     (let X_freq = rotate_tones g (take (subcar g) (drop (tx * subcar g * nsym + subcar g * symbol) csd_data));
          n_pad = DftSize g - subcar g;
          X_freq_pad = replicate (DftSize g) (cpx 0 0)
      in if Band g div 4 < SampRate g
         then fold (\<lambda>i X. X[i := X_freq ! (i - n_pad div 2)]) [n_pad div 2..<n_pad div 2 + subcar g] X_freq_pad
         else X_freq_pad)"

definition csd_data_IDFT :: "(real \<Rightarrow> real) \<Rightarrow> globals \<Rightarrow> complex32 list \<Rightarrow> nat \<Rightarrow> complex32 list \<Rightarrow> complex32 list outcome option" where
  "csd_data_IDFT fl g csd_data nsym trans_data =
     (let SymbLen = nat (trunc (fl (fl (128 / 10) * real (SampRate g))));
          symbol_data = replicate N_STS (replicate SymbLen (cpx 0 0))
      in and_then (each (\<lambda>symbol (symbol_data, trans_data).
           and_then (each (\<lambda>tx symbol_data.
               and_then (ifftShiftandIFFTData fl g (symbol_tones g csd_data nsym symbol tx)) (\<lambda>samples.
               Some (Returns (symbol_data[tx := samples @ drop (DftSize g) (symbol_data ! tx)])))) [0..<N_STS] symbol_data)
             (\<lambda>symbol_data. Some (Returns (symbol_data,
               fold (\<lambda>tx. addCPforData fl g (symbol_data ! tx) nsym symbol tx) [0..<N_STS] trans_data))))
           [0..<nsym] (symbol_data, trans_data))
         (\<lambda>(symbol_data, trans_data). Some (Returns trans_data)))"

section \<open>Loops whose body may not return\<close>

lemma each_upto:
  assumes "\<And>n s. n < N \<Longrightarrow> I n s \<Longrightarrow> \<exists>s'. f n s = Some (Returns s') \<and> I (Suc n) s'" "I 0 s"
  shows "\<exists>s'. each f [0..<N] s = Some (Returns s') \<and> I N s'"
  using assms(1)
proof (induction N)
  case 0
  show ?case using assms(2) by simp
next
  case (Suc N)
  then obtain s' where "each f [0..<N] s = Some (Returns s')" "I N s'" by (metis less_Suc_eq)
  with Suc.prems [of N s'] show ?case by (auto simp: each_append)
qed

section \<open>Lengths in samples\<close>

lemma single_in:
  assumes "0 < x" "2 powr of_int e \<le> x" "x < 2 powr (of_int e + 1)"
  shows "single x = of_int (round (x * 2 powr (23 - of_int e))) / 2 powr (23 - of_int e)"
proof -
  have "\<lfloor>log 2 \<bar>x\<bar>\<rfloor> = e" using assms by (simp add: floor_log_eq_powr_iff)
  then show ?thesis using assms(1) by (simp add: single_def rounded_def Let_def)
qed

lemma round_eq: "real_of_int n - 1 / 2 \<le> x \<Longrightarrow> x < real_of_int n + 1 / 2 \<Longrightarrow> round x = n"
  unfolding round_def by (rule floor_unique) simp_all

lemma single_lengths: "single (single (32 / 10) * 40) = 128" "single (single (128 / 10) * 40) = 512"
proof -
  have p: "(2 :: real) powr 1 = 2" "(2 :: real) powr 2 = 4" "(2 :: real) powr 3 = 8" "(2 :: real) powr 4 = 16"
    "(2 :: real) powr 7 = 128" "(2 :: real) powr 8 = 256" "(2 :: real) powr 9 = 512" "(2 :: real) powr 10 = 1024"
    "(2 :: real) powr 14 = 16384" "(2 :: real) powr 16 = 65536" "(2 :: real) powr 20 = 1048576" "(2 :: real) powr 22 = 4194304"
    by (simp_all add: powr_numeral)
  have r: "round (32 / 10 * 4194304 :: real) = 13421773" "round (128 / 10 * 1048576 :: real) = 13421773"
    "round (13421773 / 4194304 * 40 * 65536 :: real) = 8388608" "round (13421773 / 1048576 * 40 * 16384 :: real) = 8388608"
    by (rule round_eq; simp)+
  have "single (32 / 10) = 13421773 / 4194304" using single_in [of "32 / 10" 1] by (simp add: p r [simplified])
  moreover have "single (13421773 / 4194304 * 40) = 128" using single_in [of "13421773 / 4194304 * 40" 7] by (simp add: p r [simplified])
  ultimately show "single (single (32 / 10) * 40) = 128" by (simp only:)
  have "single (128 / 10) = 13421773 / 1048576" using single_in [of "128 / 10" 3] by (simp add: p r [simplified])
  moreover have "single (13421773 / 1048576 * 40) = 512" using single_in [of "13421773 / 1048576 * 40" 9] by (simp add: p r [simplified])
  ultimately show "single (single (128 / 10) * 40) = 512" by (simp only:)
qed

lemma data_CpLen_128: "SampRate g = 40 \<Longrightarrow> data_CpLen single g = 128"
  by (simp add: data_CpLen_def trunc_def single_lengths(1) [simplified])

lemma DftSize_512: "SampRate g = 40 \<Longrightarrow> Band g = 80 \<Longrightarrow> subcar g = 256 \<Longrightarrow> DftSize g = 512"
  by (simp add: DftSize_def)

section \<open>One symbol\<close>

lemma length_symbol_tones:
  assumes "SampRate g = 40" "Band g = 80" "subcar g = 256"
  shows "length (symbol_tones g csd nsym symbol tx) = 512"
  unfolding symbol_tones_def Let_def DftSize_512 [OF assms] by (simp only: length_fold_place length_replicate if_cancel split: if_split) simp

text \<open>The 256 tones in the middle, those from the 65th on negated.\<close>

definition placed_tones :: "complex32 list \<Rightarrow> nat \<Rightarrow> complex32 list" where
  "placed_tones csd k = map (\<lambda>p. if 128 \<le> p \<and> p < 384 then
       (let v = csd ! (256 * k + (p - 128)) in if p < 192 then v else \<lparr>re = - re v, im = - im v\<rparr>)
     else cpx 0 0) [0..<512]"

lemma negated_eq: "negated x = - x"
  by (simp add: negated_def)

lemma flip_upto:
  fixes X :: "complex32 list"
  assumes "length X = m" "64 \<le> n"
  defines "r \<equiv> fold (\<lambda>i X. X[i := \<lparr>re = negated (re (X ! i)), im = negated (im (X ! i))\<rparr>]) [64..<n] X"
  shows "length r = m \<and> (\<forall>j < m. r ! j = (if j < 64 \<or> n \<le> j then X ! j else \<lparr>re = - re (X ! j), im = - im (X ! j)\<rparr>))"
  using assms(2) unfolding r_def
proof (induction n rule: nat_induct_at_least)
  case base
  show ?case using assms(1) by auto
next
  case (Suc n)
  let ?r = "fold (\<lambda>i X. X[i := \<lparr>re = negated (re (X ! i)), im = negated (im (X ! i))\<rparr>]) [64..<n] X"
  have r: "fold (\<lambda>i X. X[i := \<lparr>re = negated (re (X ! i)), im = negated (im (X ! i))\<rparr>]) [64..<Suc n] X
      = ?r[n := \<lparr>re = negated (re (?r ! n)), im = negated (im (?r ! n))\<rparr>]"
    using Suc.hyps by simp
  have IH: "length ?r = m" "\<forall>j < m. ?r ! j = (if j < 64 \<or> n \<le> j then X ! j else \<lparr>re = - re (X ! j), im = - im (X ! j)\<rparr>)"
    using Suc.IH by (rule conjunct1, use Suc.IH in \<open>rule conjunct2\<close>)
  have "?r[n := \<lparr>re = negated (re (?r ! n)), im = negated (im (?r ! n))\<rparr>] ! j
      = (if j < 64 \<or> Suc n \<le> j then X ! j else \<lparr>re = - re (X ! j), im = - im (X ! j)\<rparr>)" if "j < m" for j
    by (cases "j = n") (use that IH Suc.hyps in \<open>auto simp: negated_eq\<close>)
  then show ?case unfolding r using IH(1) by simp
qed

lemma rotated:
  assumes "Band g = 80" "subcar g = 256" "length X = 256"
  shows "length (rotate_tones g X) = 256"
    and "j < 256 \<Longrightarrow> rotate_tones g X ! j = (if j < 64 then X ! j else \<lparr>re = - re (X ! j), im = - im (X ! j)\<rparr>)"
proof -
  have lt: "64 \<le> subcar g" using assms(2) by simp
  have e: "rotate_tones g X
      = fold (\<lambda>i X. X[i := \<lparr>re = negated (re (X ! i)), im = negated (im (X ! i))\<rparr>]) [64..<subcar g] X"
    unfolding rotate_tones_def Let_def assms(1) by simp
  have f: "length (rotate_tones g X) = 256 \<and> (\<forall>j < 256. rotate_tones g X ! j
      = (if j < 64 \<or> subcar g \<le> j then X ! j else \<lparr>re = - re (X ! j), im = - im (X ! j)\<rparr>))"
    unfolding e by (rule flip_upto [OF assms(3) lt])
  then show "length (rotate_tones g X) = 256" by (rule conjunct1)
  show "j < 256 \<Longrightarrow> rotate_tones g X ! j = (if j < 64 then X ! j else \<lparr>re = - re (X ! j), im = - im (X ! j)\<rparr>)"
    using f assms(2) by simp
qed

lemma symbol_tones_eq:
  assumes "SampRate g = 40" "Band g = 80" "subcar g = 256" "256 * (nsym * tx + symbol) + 256 \<le> length csd"
  shows "symbol_tones g csd nsym symbol tx = placed_tones csd (nsym * tx + symbol)"
proof (rule nth_equalityI)
  show len: "length (symbol_tones g csd nsym symbol tx) = length (placed_tones csd (nsym * tx + symbol))"
    by (simp add: length_symbol_tones [OF assms(1-3)] placed_tones_def)
  fix p
  assume "p < length (symbol_tones g csd nsym symbol tx)"
  then have p: "p < 512" by (simp add: length_symbol_tones [OF assms(1-3)])
  let ?X = "take 256 (drop (256 * (nsym * tx + symbol)) csd)"
  have X: "length ?X = 256" using assms(4) by simp
  let ?n = "(DftSize g - subcar g) div 2"
  have n: "?n = 128" using DftSize_512 [OF assms(1-3)] assms(3) by simp
  have i: "take (subcar g) (drop (tx * subcar g * nsym + subcar g * symbol) csd) = ?X"
    unfolding assms(3) by (simp add: algebra_simps)
  have lt: "Band g div 4 < SampRate g" using assms(1,2) by simp
  have "symbol_tones g csd nsym symbol tx
    = fold (\<lambda>i X. X[i := rotate_tones g ?X ! (i - ?n)]) [?n..<?n + subcar g] (replicate (DftSize g) (cpx 0 0))"
    unfolding symbol_tones_def Let_def i if_P [OF lt] by (rule refl)
  also have "\<dots> ! p = (if ?n \<le> p \<and> p < ?n + subcar g then rotate_tones g ?X ! (p - ?n) else replicate (DftSize g) (cpx 0 0) ! p)"
    using p DftSize_512 [OF assms(1-3)] assms(3) by (intro fold_place) simp_all
  also have "\<dots> = placed_tones csd (nsym * tx + symbol) ! p"
    unfolding n assms(3) DftSize_512 [OF assms(1-3)] placed_tones_def
    using p assms(4) rotated(2) [OF assms(2,3) X, of "p - 128"] by (auto simp: Let_def)
  finally show "symbol_tones g csd nsym symbol tx ! p = placed_tones csd (nsym * tx + symbol) ! p" .
qed

lemma data_ifft_returns:
  assumes "SampRate g = 40" "Band g = 80" "subcar g = 256"
  obtains x where "ifftShiftandIFFTData fl g z = Some (Returns x)" "length x = 512"
proof -
  let ?b = "fold (\<lambda>i b. b[i := to_complex (z ! (128 * 2 + i)), 128 * 3 + i := to_complex (z ! (128 + i))]) [0..<128] (replicate 512 0)"
  have "length ?b = 4 * 128"
    using shifted_upto [of 128 128 "replicate 512 0" "\<lambda>i. to_complex (z ! (128 * 2 + i))" "\<lambda>i. to_complex (z ! (128 + i))"] by simp
  then have "length ?b = 2 ^ 9" by simp
  from IFFT_power [OF this, of fl "dotscale g"] obtain src y where y: "IFFT fl (dotscale g) ?b (2 ^ 9) = Some (Returns (src, y))" by blast
  have n: "(2 :: nat) ^ 9 = 512" "512 div 4 = (128 :: nat)" by simp_all
  show ?thesis
    by (rule that) (unfold ifftShiftandIFFTData_def Let_def DftSize_512 [OF assms] n(2) y [unfolded n(1)] and_then_simps prod.case,
      rule refl, simp)
qed

section \<open>All symbols\<close>

text \<open>The blocks of 640 samples lie one after the other, those of an antenna together.\<close>

lemma block_cases:
  fixes k K p :: nat
  assumes "p < 640"
  shows "(if 640 * K + 128 \<le> 640 * k + p \<and> 640 * k + p < 640 * K + 128 + 512 then x ! (0 + (640 * k + p - (640 * K + 128)))
       else if 640 * K \<le> 640 * k + p \<and> 640 * k + p < 640 * K + 128 then x ! (512 - 128 + (640 * k + p - 640 * K)) else v)
    = (if k = K then x ! ((p + 384) mod 512) else v)"
proof -
  consider "k = K" "p < 128" | "k = K" "128 \<le> p" | "k < K" | "K < k" by linarith
  then show ?thesis
  proof cases
    case 2
    then have "(p + 384) mod 512 = p - 128" using assms by (simp add: mod_if)
    then show ?thesis using 2 assms by simp
  qed (use assms in \<open>simp_all add: add.commute\<close>)
qed

lemma two_parts:
  assumes "length x = 512" "s + 640 \<le> length b" "q < length b"
  shows "copy_part (s + 128) x 0 512 (copy_part s x (512 - 128) 128 b) ! q
    = (if s + 128 \<le> q \<and> q < s + 128 + 512 then x ! (0 + (q - (s + 128)))
       else if s \<le> q \<and> q < s + 128 then x ! (512 - 128 + (q - s)) else b ! q)"
  using assms by (simp add: copy_part_nth length_copy_part)

lemma addCPforData_nth:
  assumes "SampRate g = 40" "Band g = 80" "subcar g = 256" "length x = 512" "640 * (nsym * tx + symbol) + 640 \<le> length b"
  shows "length (addCPforData single g x nsym symbol tx b) = length b"
    and "640 * k + p < length b \<Longrightarrow> p < 640 \<Longrightarrow> addCPforData single g x nsym symbol tx b ! (640 * k + p)
      = (if k = nsym * tx + symbol then x ! ((p + 384) mod 512) else b ! (640 * k + p))"
proof -
  let ?s = "640 * (nsym * tx + symbol)"
  have i: "(512 + 128) * nsym * tx + symbol * (512 + 128) = ?s" "128 + (512 + 128) * nsym * tx + symbol * (512 + 128) = ?s + 128"
    by (simp_all add: algebra_simps)
  have a: "addCPforData single g x nsym symbol tx b = copy_part (?s + 128) x 0 512 (copy_part ?s x (512 - 128) 128 b)"
    unfolding addCPforData_def Let_def data_CpLen_128 [OF assms(1)] DftSize_512 [OF assms(1-3)] i by (rule refl)
  show "length (addCPforData single g x nsym symbol tx b) = length b"
    unfolding a using assms(4,5) by (simp add: length_copy_part)
  assume p: "640 * k + p < length b" "p < 640"
  have "addCPforData single g x nsym symbol tx b ! (640 * k + p)
    = (if ?s + 128 \<le> 640 * k + p \<and> 640 * k + p < ?s + 128 + 512 then x ! (0 + (640 * k + p - (?s + 128)))
       else if ?s \<le> 640 * k + p \<and> 640 * k + p < ?s + 128 then x ! (512 - 128 + (640 * k + p - ?s)) else b ! (640 * k + p))"
    unfolding a by (rule two_parts [OF assms(4,5) p(1)])
  also have "\<dots> = (if k = nsym * tx + symbol then x ! ((p + 384) mod 512) else b ! (640 * k + p))"
    by (rule block_cases [OF p(2)])
  finally show "addCPforData single g x nsym symbol tx b ! (640 * k + p)
      = (if k = nsym * tx + symbol then x ! ((p + 384) mod 512) else b ! (640 * k + p))" .
qed

text \<open>The samples of a symbol.\<close>

definition symbol_samples :: "globals \<Rightarrow> complex32 list \<Rightarrow> nat \<Rightarrow> complex32 list" where
  "symbol_samples g csd k = (case ifftShiftandIFFTData single g (placed_tones csd k) of Some (Returns x) \<Rightarrow> x | _ \<Rightarrow> [])"

lemma symbol_samples:
  assumes "SampRate g = 40" "Band g = 80" "subcar g = 256"
  shows "ifftShiftandIFFTData single g (placed_tones csd k) = Some (Returns (symbol_samples g csd k))"
    and "length (symbol_samples g csd k) = 512"
proof -
  obtain x where "ifftShiftandIFFTData single g (placed_tones csd k) = Some (Returns x)" "length x = 512"
    by (rule data_ifft_returns [OF assms])
  then show "ifftShiftandIFFTData single g (placed_tones csd k) = Some (Returns (symbol_samples g csd k))"
    "length (symbol_samples g csd k) = 512"
    by (simp_all add: symbol_samples_def)
qed

lemma block_index: "tx < 4 \<Longrightarrow> symbol < nsym \<Longrightarrow> nsym * tx + symbol < 4 * (nsym :: nat)"
proof -
  assume "tx < 4" "symbol < nsym"
  then have "nsym * Suc tx \<le> nsym * 4" by (intro mult_le_mono2) simp
  then have "nsym * tx + nsym \<le> 4 * nsym" by (simp only: mult_Suc_right mult.commute [of nsym 4] add.commute)
  with \<open>symbol < nsym\<close> show ?thesis by linarith
qed

lemma block_fits: "K < n \<Longrightarrow> 640 * K + 640 \<le> 640 * (n :: nat)" "K < n \<Longrightarrow> p < 640 \<Longrightarrow> 640 * K + p < 640 * (n :: nat)"
  "K < n \<Longrightarrow> 256 * (n :: nat) \<le> l \<Longrightarrow> 256 * K + 256 \<le> l"
  by linarith+

text \<open>The loop over the antennas writes the blocks of one symbol.\<close>

lemma antennas_upto:
  assumes "SampRate g = 40" "Band g = 80" "subcar g = 256" "symbol < nsym" "length b = 640 * (4 * nsym)"
    and "\<And>tx. tx < 4 \<Longrightarrow> length (xs ! tx) = 512" "m \<le> 4"
  defines "r \<equiv> fold (\<lambda>tx. addCPforData single g (xs ! tx) nsym symbol tx) [0..<m] b"
  shows "length r = 640 * (4 * nsym) \<and> (\<forall>tx < 4. \<forall>t < nsym. \<forall>p < 640. r ! (640 * (nsym * tx + t) + p)
    = (if t = symbol \<and> tx < m then xs ! tx ! ((p + 384) mod 512) else b ! (640 * (nsym * tx + t) + p)))"
  using assms(7) unfolding r_def
proof (induction m)
  case 0
  show ?case using assms(5) by simp
next
  case (Suc m)
  let ?r = "fold (\<lambda>tx. addCPforData single g (xs ! tx) nsym symbol tx) [0..<m] b"
  have len: "length ?r = 640 * (4 * nsym)" using Suc by simp
  have m: "m < 4" using Suc.prems by simp
  have fits: "640 * (nsym * m + symbol) + 640 \<le> length ?r" unfolding len by (rule block_fits(1) [OF block_index [OF m assms(4)]])
  note step = addCPforData_nth [OF assms(1-3) assms(6) [OF m] fits]
  have "addCPforData single g (xs ! m) nsym symbol m ?r ! (640 * (nsym * tx + t) + p)
      = (if t = symbol \<and> tx < Suc m then xs ! tx ! ((p + 384) mod 512) else b ! (640 * (nsym * tx + t) + p))"
    if "tx < 4" "t < nsym" "p < 640" for tx t p
  proof -
    have "640 * (nsym * tx + t) + p < length ?r" unfolding len by (rule block_fits(2) [OF block_index [OF that(1,2)] that(3)])
    then have "addCPforData single g (xs ! m) nsym symbol m ?r ! (640 * (nsym * tx + t) + p)
      = (if nsym * tx + t = nsym * m + symbol then xs ! m ! ((p + 384) mod 512) else ?r ! (640 * (nsym * tx + t) + p))"
      by (rule step(2)) (rule that(3))
    moreover have "nsym * tx + t = nsym * m + symbol \<longleftrightarrow> tx = m \<and> t = symbol"
    proof
      assume e: "nsym * tx + t = nsym * m + symbol"
      have "(nsym * tx + t) div nsym = tx" "(nsym * m + symbol) div nsym = m" using that(2) assms(4) by simp_all
      then show "tx = m \<and> t = symbol" using e by simp
    qed simp
    ultimately show ?thesis using Suc that by (auto simp: less_Suc_eq)
  qed
  then show ?case using step(1) len by simp
qed

text \<open>The loop over the antennas that fills \<open>symbol_data\<close>.\<close>

lemma symbol_rows:
  assumes "SampRate g = 40" "Band g = 80" "subcar g = 256" "symbol < nsym" "256 * (4 * nsym) \<le> length csd"
    and "length xs = 4" "\<forall>tx < 4. length (xs ! tx) = 512"
  shows "\<exists>xs'. each (\<lambda>tx xs. and_then (ifftShiftandIFFTData single g (symbol_tones g csd nsym symbol tx))
        (\<lambda>samples. Some (Returns (xs[tx := samples @ drop (DftSize g) (xs ! tx)])))) [0..<N_STS] xs = Some (Returns xs')
    \<and> length xs' = 4 \<and> (\<forall>tx < 4. xs' ! tx = symbol_samples g csd (nsym * tx + symbol))"
proof -
  define I where "I m ys \<longleftrightarrow> length ys = 4 \<and> (\<forall>tx < 4. length (ys ! tx) = 512)
    \<and> (\<forall>tx < m. ys ! tx = symbol_samples g csd (nsym * tx + symbol))" for m and ys :: "complex32 list list"
  have "\<exists>xs'. each (\<lambda>tx xs. and_then (ifftShiftandIFFTData single g (symbol_tones g csd nsym symbol tx))
        (\<lambda>samples. Some (Returns (xs[tx := samples @ drop (DftSize g) (xs ! tx)])))) [0..<N_STS] xs = Some (Returns xs') \<and> I N_STS xs'"
  proof (rule each_upto)
    show "I 0 xs" using assms(6,7) by (simp add: I_def)
    fix m ys
    assume m: "m < N_STS" and I: "I m ys"
    then have m4: "m < 4" by (simp add: N_STS_def)
    have "256 * (nsym * m + symbol) + 256 \<le> length csd" by (rule block_fits(3) [OF block_index [OF m4 assms(4)] assms(5)])
    note t = symbol_tones_eq [OF assms(1-3) this]
    note s = symbol_samples [OF assms(1-3), of csd "nsym * m + symbol"]
    have "drop (DftSize g) (ys ! m) = []" using I m4 by (simp add: I_def DftSize_512 [OF assms(1-3)])
    then show "\<exists>s'. and_then (ifftShiftandIFFTData single g (symbol_tones g csd nsym symbol m))
        (\<lambda>samples. Some (Returns (ys[m := samples @ drop (DftSize g) (ys ! m)]))) = Some (Returns s') \<and> I (Suc m) s'"
      using I s(2) m4 by (auto simp: t s(1) I_def nth_list_update less_Suc_eq)
  qed
  then show ?thesis by (auto simp: I_def N_STS_def)
qed

section \<open>Properties\<close>

text \<open>C36: the data in the time domain. In 80 MHz mode at 40 samples per microsecond, with the single
  precision of \<open>float\<close>, \<open>csd_data_IDFT\<close> returns, and the 640 samples of every symbol of every
  antenna are the 512 samples of the transform of its tones, continued by a prefix of their last
  128: the tones are the 256 of that symbol and antenna, in the middle, those from the 65th on
  negated. Every sample of the output is written.\<close>

theorem data_symbols:
  assumes "SampRate g = 40" "Band g = 80" "subcar g = 256"
    and "256 * (4 * nsym) \<le> length csd" "length trans_data = 640 * (4 * nsym)"
  shows "\<exists>out. csd_data_IDFT single g csd nsym trans_data = Some (Returns out) \<and> length out = 640 * (4 * nsym)
    \<and> (\<forall>tx < 4. \<forall>symbol < nsym. \<exists>x. ifftShiftandIFFTData single g (placed_tones csd (nsym * tx + symbol)) = Some (Returns x)
        \<and> length x = 512 \<and> (\<forall>p < 640. out ! (640 * (nsym * tx + symbol) + p) = x ! ((p + 384) mod 512)))"
proof -
  define I where "I n s \<longleftrightarrow> length (fst s) = 4 \<and> (\<forall>tx < 4. length (fst s ! tx) = 512) \<and> length (snd s) = 640 * (4 * nsym)
    \<and> (\<forall>tx < 4. \<forall>t < nsym. t < n \<longrightarrow> (\<forall>p < 640. snd s ! (640 * (nsym * tx + t) + p)
        = symbol_samples g csd (nsym * tx + t) ! ((p + 384) mod 512)))" for n and s :: "complex32 list list \<times> complex32 list"
  let ?row = "\<lambda>symbol tx xs. and_then (ifftShiftandIFFTData single g (symbol_tones g csd nsym symbol tx))
        (\<lambda>samples. Some (Returns (xs[tx := samples @ drop (DftSize g) (xs ! tx)])))"
  let ?f = "\<lambda>symbol (xs, trans_data). and_then (each (?row symbol) [0..<N_STS] xs) (\<lambda>xs. Some (Returns (xs,
      fold (\<lambda>tx. addCPforData single g (xs ! tx) nsym symbol tx) [0..<N_STS] trans_data)))"
  let ?s0 = "(replicate 4 (replicate 512 (cpx 0 0)), trans_data)"
  have "\<exists>s'. each ?f [0..<nsym] ?s0 = Some (Returns s') \<and> I nsym s'"
  proof (rule each_upto)
    show "I 0 ?s0" using assms(5) by (simp add: I_def)
    fix n s
    assume n: "n < nsym" and I: "I n s"
    obtain xs b where s: "s = (xs, b)" by (rule prod.exhaust)
    have xs: "length xs = 4" "\<forall>tx < 4. length (xs ! tx) = 512" and b: "length b = 640 * (4 * nsym)"
      and old: "\<And>tx t p. tx < 4 \<Longrightarrow> t < n \<Longrightarrow> p < 640 \<Longrightarrow> b ! (640 * (nsym * tx + t) + p)
        = symbol_samples g csd (nsym * tx + t) ! ((p + 384) mod 512)"
      using I n by (simp_all add: I_def s)
    from symbol_rows [OF assms(1-3) n assms(4) xs] obtain ys where ys: "each (?row n) [0..<N_STS] xs = Some (Returns ys)"
      "length ys = 4" "\<forall>tx < 4. ys ! tx = symbol_samples g csd (nsym * tx + n)" by blast
    have rows: "length (ys ! tx) = 512" if "tx < 4" for tx using ys(3) that symbol_samples(2) [OF assms(1-3)] by simp
    let ?r = "fold (\<lambda>tx. addCPforData single g (ys ! tx) nsym n tx) [0..<N_STS] b"
    have r: "length ?r = 640 * (4 * nsym) \<and> (\<forall>tx < 4. \<forall>t < nsym. \<forall>p < 640. ?r ! (640 * (nsym * tx + t) + p)
      = (if t = n \<and> tx < 4 then ys ! tx ! ((p + 384) mod 512) else b ! (640 * (nsym * tx + t) + p)))"
      unfolding N_STS_def by (rule antennas_upto [OF assms(1-3) n b rows order_refl])
    have "I (Suc n) (ys, ?r)"
      unfolding I_def fst_conv snd_conv using r ys(2,3) rows old by (auto simp: less_Suc_eq)
    then show "\<exists>s'. ?f n s = Some (Returns s') \<and> I (Suc n) s'" by (simp add: s ys(1))
  qed
  then obtain ys out where out: "each ?f [0..<nsym] ?s0 = Some (Returns (ys, out))" "I nsym (ys, out)" by auto
  have "nat (trunc (single (single (128 / 10) * real (SampRate g)))) = 512"
    by (simp add: assms(1) single_lengths(2) [simplified] trunc_def)
  then have "csd_data_IDFT single g csd nsym trans_data = Some (Returns out)"
    unfolding csd_data_IDFT_def Let_def using out(1) by (simp only: N_STS_def and_then_simps prod.case)
  then show ?thesis using out(2) symbol_samples [OF assms(1-3)] by (auto simp: I_def)
qed

theorem data_symbols_witness:
  "\<exists>out x. csd_data_IDFT single globals0 (map (\<lambda>i. cpx (int i) 0) [0..<2048]) 2 (replicate 5120 (cpx 0 0)) = Some (Returns out)
    \<and> ifftShiftandIFFTData single globals0 (placed_tones (map (\<lambda>i. cpx (int i) 0) [0..<2048]) 7) = Some (Returns x)
    \<and> out ! 4480 = x ! 384 \<and> out ! 4608 = x ! 0
    \<and> placed_tones (map (\<lambda>i. cpx (int i) 0) [0..<2048]) 7 ! 192 = cpx (- 1856) 0"
proof -
  let ?c = "map (\<lambda>i. cpx (int i) 0) [0..<2048]" and ?t = "replicate 5120 (cpx 0 0)"
  have g: "SampRate globals0 = 40" "Band globals0 = 80" "subcar globals0 = 256" by (simp_all add: globals0_def)
  have "256 * (4 * 2) \<le> length ?c" "length ?t = 640 * (4 * 2)" by simp_all
  from data_symbols [OF g this] obtain out where out: "csd_data_IDFT single globals0 ?c 2 ?t = Some (Returns out)"
    "\<forall>tx < 4. \<forall>symbol < 2. \<exists>x. ifftShiftandIFFTData single globals0 (placed_tones ?c (2 * tx + symbol)) = Some (Returns x)
        \<and> length x = 512 \<and> (\<forall>p < 640. out ! (640 * (2 * tx + symbol) + p) = x ! ((p + 384) mod 512))" by blast
  have "(3 :: nat) < 4" "(1 :: nat) < 2" "2 * 3 + 1 = (7 :: nat)" by simp_all
  with out(2) obtain x where x: "ifftShiftandIFFTData single globals0 (placed_tones ?c 7) = Some (Returns x)"
    "\<forall>p < 640. out ! (640 * 7 + p) = x ! ((p + 384) mod 512)" by metis
  have "out ! 4480 = x ! 384" "out ! 4608 = x ! 0" using x(2) [rule_format, of 0] x(2) [rule_format, of 128] by simp_all
  moreover have "placed_tones ?c 7 ! 192 = cpx (- 1856) 0" by (simp add: placed_tones_def cpx_def)
  ultimately show ?thesis using out(1) x(1) by blast
qed

end
