(* ===== verification/Receiver.thy ===== *)
theory Receiver
  imports Startup
begin

text \<open>
  A receiver without noise, as a reference for the transmitter: it puts the coded bits of a frame
  back in order, decodes the punctured convolutional code bit by bit, undoes the scrambler and cuts out
  the payload. At every rate it finds the payload in the rows of the plain encoder, and in the
  pipeline the frames of two payloads are far apart.
\<close>

section \<open>Decoding the code\<close>

text \<open>Of the two parities of every step at least one is sent, and with the window before it known
  either of them gives the next bit.\<close>

fun conv_decode :: "byte \<Rightarrow> nat \<Rightarrow> bool list \<Rightarrow> nat \<Rightarrow> bool list \<Rightarrow> bool list" where
  "conv_decode p k w 0 bs = []"
| "conv_decode p k w (Suc n) bs =
     (let x = (hd bs \<noteq> (if fst (keeps p k) then parA (tl w @ [False]) else parB (tl w @ [False])))
      in x # conv_decode p (Suc k mod punc_period p) (tl w @ [x]) n
           (drop (of_bool (fst (keeps p k)) + of_bool (snd (keeps p k))) bs))"

lemma parity_step:
  assumes "length w = 7"
  shows "(parA (tl w @ [x]) \<noteq> parA (tl w @ [False])) = x" "(parB (tl w @ [x]) \<noteq> parB (tl w @ [False])) = x"
  using assms by (simp_all add: parA_def parB_def nth_append) blast+

lemma keeps_one:
  assumes "p \<in> modes" "k < punc_period p"
  shows "fst (keeps p k) \<or> snd (keeps p k)"
  using assms by (auto simp: modes_def keeps_def punc_period_def)

lemma decode_code:
  assumes "p \<in> modes"
  shows "k < punc_period p \<Longrightarrow> length w = 7 \<Longrightarrow> n \<le> length xs \<Longrightarrow> conv_decode p k w n (puncture p k (conv_out w xs)) = take n xs"
proof (induction xs arbitrary: k w n)
  case (Cons x xs)
  show ?case
  proof (cases n)
    case (Suc i)
    let ?w = "tl w @ [x]" and ?k = "Suc k mod punc_period p"
    let ?rest = "puncture p ?k (conv_out ?w xs)"
    have "?k < punc_period p" "length ?w = 7" "i \<le> length xs"
      using Cons.prems(2,3) Suc by simp_all
    from Cons.IH [OF this] have ih: "conv_decode p ?k ?w i ?rest = take i xs" .
    have one: "fst (keeps p k) \<or> snd (keeps p k)" by (rule keeps_one [OF assms Cons.prems(1)])
    note x = parity_step [OF Cons.prems(2), of x]
    show ?thesis
    proof (cases "fst (keeps p k)")
      case True
      then show ?thesis using ih x(1) by (cases "snd (keeps p k)") (simp_all add: Suc Let_def)
    next
      case False
      then show ?thesis using ih x(2) one by (simp add: Suc Let_def)
    qed
  qed simp
qed simp

section \<open>Rows to payload\<close>

definition receive :: "globals \<Rightarrow> byte list list \<Rightarrow> bool list" where
  "receive g rows =
     (let code = map (\<lambda>b. b = 1) (deinterleave g rows);
          bits = conv_decode (rate_type (mcs_table_for_20M g)) 0 (replicate 7 False) (scr_valid g) code
      in take (8 * APEP_LEN g) (drop 16 (descramble_bits scr_seed bits)))"

lemma receive_cong:
  assumes "MCS g < 10"
    and "\<And>tx i. tx < N_STS \<Longrightarrow> i < row_len g \<Longrightarrow> (rows ! tx ! i = 1) = (rows' ! tx ! i = 1)"
  shows "receive g rows = receive g rows'"
proof -
  define m where "m = mcs_table_for_20M g"
  define n where "n = n_cbps m div N_STS"
  note pars = mcs_row_params [OF assms(1), folded m_def, folded n_def]
  have pos: "0 < n_cbps m" using pars(2) row_params_pos [OF pars(1)]
    by (metis N_STS_def mult_pos_pos zero_less_numeral)
  have "(case parse_inv (stream_s (n_bpscs m)) (i mod n_cbps m) of
      (ss, k) \<Rightarrow> rows ! ss ! (sym_perm (n_bpscs m) n ss k + i div n_cbps m * n) = 1
        \<longleftrightarrow> rows' ! ss ! (sym_perm (n_bpscs m) n ss k + i div n_cbps m * n) = 1)"
    if "i < frame_code g" for i
  proof -
    obtain ss k where sk: "parse_inv (stream_s (n_bpscs m)) (i mod n_cbps m) = (ss, k)"
      by (cases "parse_inv (stream_s (n_bpscs m)) (i mod n_cbps m)")
    have r: "ss < N_STS" "k < n"
      using parse_inv_range [OF stream_s_pos pars(3), of "i mod n_cbps m"] pars(2) pos sk by simp_all
    have "i div n_cbps m < frame_syms g"
      using that pos by (simp add: frame_code_def m_def div_less_iff_less_mult)
    then have "(i div n_cbps m + 1) * n \<le> frame_syms g * n" by (intro mult_le_mono1) simp
    moreover have "sym_perm (n_bpscs m) n ss k < n" by (rule bij_less [OF sym_perm_bij [OF pars(1)] r(2)])
    ultimately have "sym_perm (n_bpscs m) n ss k + i div n_cbps m * n < row_len g"
      unfolding row_len_eq [OF assms(1), folded m_def, folded n_def] by simp
    then show ?thesis using assms(2) [OF r(1)] by (simp add: sk)
  qed
  then have "map (\<lambda>b. b = 1) (deinterleave g rows) = map (\<lambda>b. b = 1) (deinterleave g rows')"
    unfolding deinterleave_def Let_def m_def [symmetric] n_def [symmetric] by (auto simp: split_def)
  then show ?thesis by (simp add: receive_def)
qed

lemma bits_of_bool: "map (\<lambda>b. b = (1 :: byte)) (map of_bool xs) = xs"
  by (simp add: comp_def)

text \<open>Both parts together: coded rows and the scrambled payload, with whatever byte the encoder
  finds behind it.\<close>

lemma receive_frame:
  assumes "MCS g < 10" "length D = APEP_LEN g" "rest \<noteq> []" "row_len g * N_STS + 24 \<le> length old"
    and "rows_ge (row_len g) junk" "rows_ge (row_len g) code_out"
  shows "\<exists>rows. BCC_encoder code_table g (scrambled g D @ rest) (scr_len g) (frame_syms g) code_out (row_len g) old junk
      = Some rows \<and> receive g rows = bytes_bits D"
proof -
  let ?dat = "scrambled g D @ rest" and ?m = "mcs_table_for_20M g"
  note len = scr_len_eq [OF assms(1)]
  have l: "length (scrambled g D) = scr_len g" unfolding scrambled_def by (rule length_ref [OF len])
  then have "scr_len g + 1 \<le> length ?dat" using assms(3) by (cases rest) simp_all
  from interleave_roundtrip [OF assms(1) this assms(4-6), folded code_table_def] obtain rows where
    rows: "BCC_encoder code_table g ?dat (scr_len g) (frame_syms g) code_out (row_len g) old junk = Some rows"
    and code: "deinterleave g rows = map of_bool (puncture (rate_type ?m) 0
        (conv_out (replicate 7 False) (take (frame_syms g * n_dbps ?m) (bytes_bits ?dat))))" by blast
  have v: "scr_valid g \<le> frame_syms g * n_dbps ?m" using scr_valid_tail [OF assms(1)] by simp
  have fit: "scr_valid g \<le> 8 * scr_len g" using len by simp
  have "receive g rows = take (8 * APEP_LEN g) (drop 16 (descramble_bits scr_seed
      (take (scr_valid g) (take (frame_syms g * n_dbps ?m) (bytes_bits ?dat)))))"
    unfolding receive_def Let_def code bits_of_bool
    using decode_code [OF mcs_rate_modes [OF assms(1)], of 0 "replicate 7 False" "scr_valid g"
        "take (frame_syms g * n_dbps ?m) (bytes_bits ?dat)"] v fit l
    by simp
  also have "take (scr_valid g) (take (frame_syms g * n_dbps ?m) (bytes_bits ?dat)) = take (scr_valid g) (bytes_bits (scrambled g D))"
    using v fit l by (simp add: min_absorb1)
  also have "take (8 * APEP_LEN g) (drop 16 (descramble_bits scr_seed (take (scr_valid g) (bytes_bits (scrambled g D))))) = bytes_bits D"
    unfolding scrambled_def using descrambled_payload [OF assms(1), of D] assms(2) by simp
  finally show ?thesis using rows by blast
qed

text \<open>The rows hold the coded bits and nothing else, and these are a code of the bits read.\<close>

lemma rows_of_bits:
  assumes "MCS g < 10" "frame_bits g dat = frame_bits g dat'"
    and "scr_len g + 1 \<le> length dat" "row_len g * N_STS + 24 \<le> length old"
    and "rows_ge (row_len g) junk" "rows_ge (row_len g) code_out"
    and "scr_len g + 1 \<le> length dat'" "row_len g * N_STS + 24 \<le> length old'"
    and "rows_ge (row_len g) junk'" "rows_ge (row_len g) code_out'"
    and "BCC_encoder code_table g dat (scr_len g) (frame_syms g) code_out (row_len g) old junk = Some rows"
    and "BCC_encoder code_table g dat' (scr_len g) (frame_syms g) code_out' (row_len g) old' junk' = Some rows'"
    and "tx < N_STS" "i < row_len g"
  shows "rows ! tx ! i = rows' ! tx ! i"
proof -
  define m where "m = mcs_table_for_20M g"
  define n where "n = n_cbps m div N_STS"
  have perm: "bij_betw (sym_perm (n_bpscs m) n tx) {..<n} {..<n}"
    unfolding m_def n_def by (rule sym_perm_bij [OF mcs_row_params(1) [OF assms(1)]])
  have q: "i div n < frame_syms g" "i mod n < n"
  proof -
    have "i < frame_syms g * n" using assms(14) unfolding row_len_eq [OF assms(1)] m_def n_def .
    then show "i div n < frame_syms g" by (simp add: less_mult_imp_div_less)
    show "i mod n < n" using \<open>i < frame_syms g * n\<close> by (cases "n = 0") simp_all
  qed
  then obtain k where k: "k < n" "sym_perm (n_bpscs m) n tx k = i mod n"
    using perm unfolding bij_betw_def by (metis imageE lessThan_iff)
  have i: "sym_perm (n_bpscs m) n tx k + i div n * n = i" unfolding k(2) by (simp add: mod_div_mult_eq)
  have "rows ! tx ! i = frame_bits g dat ! (parse_src (stream_s (n_bpscs m)) 1 tx k + i div n * n_cbps m)"
    using encoder_ref_rows [OF assms(1,3-6)] assms(11,13) q(1) k(1) i unfolding m_def [symmetric] n_def [symmetric] by fastforce
  moreover have "rows' ! tx ! i = frame_bits g dat' ! (parse_src (stream_s (n_bpscs m)) 1 tx k + i div n * n_cbps m)"
    using encoder_ref_rows [OF assms(1,7-10)] assms(12,13) q(1) k(1) i unfolding m_def [symmetric] n_def [symmetric] by fastforce
  ultimately show ?thesis by (simp only: assms(2))
qed

lemma tail_nat: "4 dvd v + 6 \<Longrightarrow> v + 6 - 8 * Suc (v div 8) = (if 8 dvd v + 6 then 0 else (4 :: nat))"
proof -
  assume "4 dvd v + 6"
  then obtain k where k: "v + 6 = 4 * k" by (rule dvdE)
  define q where "q = v div 8"
  have q: "8 * q \<le> v" "v < 8 * q + 8" unfolding q_def by simp_all
  have "v = 8 * q + 2 \<or> v = 8 * q + 6" using k q by presburger
  then show ?thesis unfolding q_def [symmetric] by (elim disjE; simp; presburger)
qed

lemma tail_length:
  assumes "MCS g < 10"
  shows "scr_valid g + 6 - 8 * scr_len g = (if 8 dvd scr_valid g + 6 then 0 else 4)"
  unfolding scr_len_eq [OF assms]
  by (rule tail_nat) (simp only: scr_valid_tail [OF assms] dvd_mult [OF mcs_dbps_4 [OF assms]])

lemma frame_bits_eq:
  assumes "MCS g < 10" "scr_len g + 1 \<le> length dat" "scr_len g + 1 \<le> length dat'"
  shows "frame_bits g dat = frame_bits g dat' \<longleftrightarrow> take (scr_valid g + 6) (bytes_bits dat) = take (scr_valid g + 6) (bytes_bits dat')"
proof
  assume "frame_bits g dat = frame_bits g dat'"
  from arg_cong [OF this, of "map (\<lambda>b. b = 1)"]
  have e: "puncture (rate_type (mcs_table_for_20M g)) 0 (conv_out (replicate 7 False) (take (scr_valid g + 6) (bytes_bits dat)))
    = puncture (rate_type (mcs_table_for_20M g)) 0 (conv_out (replicate 7 False) (take (scr_valid g + 6) (bytes_bits dat')))"
    by (simp only: frame_bits_def bits_of_bool)
  have l: "scr_valid g + 6 \<le> length (take (scr_valid g + 6) (bytes_bits d))" if "scr_len g + 1 \<le> length d" for d
    using frame_extra_bits [OF assms(1)] that by auto
  note dec = decode_code [OF mcs_rate_modes [OF assms(1)] punc_period_pos, of "replicate 7 False" "scr_valid g + 6"]
  show "take (scr_valid g + 6) (bytes_bits dat) = take (scr_valid g + 6) (bytes_bits dat')"
    using dec [OF _ l [OF assms(2)]] dec [OF _ l [OF assms(3)]] unfolding e by simp
qed (simp add: frame_bits_def)

section \<open>Points that are far apart\<close>

text \<open>Different points of the constellation of 64 differ by 2528 in one of their parts, and turning
  them changes little.\<close>

lemma level_gap:
  assumes "p < 8" "q < 8" "p \<noteq> q"
  shows "2528 \<le> \<bar>levels_of 3 ! p - levels_of 3 ! q\<bar>"
proof -
  have "\<forall>p \<in> set [0..<8]. \<forall>q \<in> set [0..<8]. p \<noteq> q \<longrightarrow> 2528 \<le> \<bar>levels_of 3 ! p - levels_of 3 ! q\<bar>"
    by (simp add: levels_of_def upt_rec)
  then show ?thesis using assms by simp
qed

lemma turned_apart:
  fixes dx dy c s :: int
  assumes "8000\<^sup>2 \<le> c\<^sup>2 + s\<^sup>2" "\<bar>dx * c - dy * s\<bar> \<le> K" "\<bar>dx * s + dy * c\<bar> \<le> K" "2 * K\<^sup>2 < (2528 * 8000)\<^sup>2"
  shows "\<bar>dx\<bar> < 2528 \<and> \<bar>dy\<bar> < 2528"
proof -
  have K: "(dx * c - dy * s)\<^sup>2 \<le> K\<^sup>2" "(dx * s + dy * c)\<^sup>2 \<le> K\<^sup>2"
    using assms(2,3) by (simp_all add: abs_le_square_iff [symmetric] abs_ge_zero [THEN order_trans])
  have "(dx\<^sup>2 + dy\<^sup>2) * 8000\<^sup>2 \<le> (dx\<^sup>2 + dy\<^sup>2) * (c\<^sup>2 + s\<^sup>2)" by (intro mult_left_mono assms(1)) simp
  also have "\<dots> = (dx * c - dy * s)\<^sup>2 + (dx * s + dy * c)\<^sup>2" by (simp add: power2_eq_square algebra_simps)
  also have "\<dots> < (2528 * 8000)\<^sup>2" using K assms(4) by linarith
  finally have "dx\<^sup>2 + dy\<^sup>2 < 2528\<^sup>2" by (simp add: power_mult_distrib)
  then have "dx\<^sup>2 < 2528\<^sup>2" "dy\<^sup>2 < 2528\<^sup>2" using zero_le_power2 [of dx] zero_le_power2 [of dy] by linarith+
  then have "\<bar>dx\<bar>\<^sup>2 < 2528\<^sup>2" "\<bar>dy\<bar>\<^sup>2 < 2528\<^sup>2" by simp_all
  then show ?thesis by (metis power_less_imp_less_base zero_le_numeral)
qed

lemma div_apart:
  assumes "\<bar>x div 8192 - y div 8192\<bar> \<le> (1008 :: int)"
  shows "\<bar>x - y\<bar> \<le> 8192 * 1009"
  using assms div_bounds [of 8192 x] div_bounds [of 8192 y] by linarith

lemma level_cpx:
  assumes "p < 8" "q < 8"
  shows "sint (re (cpx (levels_of 3 ! p) (levels_of 3 ! q))) = levels_of 3 ! p"
    "sint (im (cpx (levels_of 3 ! p) (levels_of 3 ! q))) = levels_of 3 ! q"
    "cbound 16380 (cpx (levels_of 3 ! p) (levels_of 3 ! q))"
  using levels_bound [of 3 p] levels_bound [of 3 q] assms by (simp_all add: cpx_def cbound_def abs_le_iff)

lemma near_chain:
  assumes "near 4 a x" "near 4 b y" "near 1000 a b"
  shows "\<bar>sint (re x) - sint (re y)\<bar> \<le> 1008" "\<bar>sint (im x) - sint (im y)\<bar> \<le> 1008"
  using assms unfolding near_def by linarith+

lemma turned_points:
  assumes "p < 8" "q < 8" "p' < 8" "q' < 8"
    and "near 4 a (multForComplex32 13 (cpx (levels_of 3 ! p) (levels_of 3 ! q)) (expComlex32 fp 13 phase i))"
    and "near 4 b (multForComplex32 13 (cpx (levels_of 3 ! p') (levels_of 3 ! q')) (expComlex32 fp 13 phase i))"
    and "near 1000 a b" and FU: "float_unit fp" "\<bar>phase\<bar> \<le> 1" "\<bar>i\<bar> \<le> 128"
  shows "p = p' \<and> q = q'"
proof -
  let ?L = "(!) (levels_of 3)"
  let ?c = "sint (re (expComlex32 fp 13 phase i))" and ?s = "sint (im (expComlex32 fp 13 phase i))"
  note z = level_cpx [OF assms(1,2)] and z' = level_cpx [OF assms(3,4)]
  have AB: "(16380 :: int) * 8192 < 2 ^ 27" by simp
  note m = mult_exact [OF z(3) float_unit.exp_cbound [OF FU(1)] AB, unfolded z(1,2), of phase i]
  note m' = mult_exact [OF z'(3) float_unit.exp_cbound [OF FU(1)] AB, unfolded z'(1,2), of phase i]
  note n = near_chain [OF assms(5-7), unfolded m m']
  from div_apart [OF n(1)] div_apart [OF n(2)]
  have d: "\<bar>(?L p - ?L p') * ?c - (?L q - ?L q') * ?s\<bar> \<le> 8192 * 1009"
    "\<bar>(?L p - ?L p') * ?s + (?L q - ?L q') * ?c\<bar> \<le> 8192 * 1009"
    by (simp_all add: algebra_simps)
  have e: "8000\<^sup>2 \<le> ?c\<^sup>2 + ?s\<^sup>2" by (rule order_trans [OF _ float_unit.exp_energy [OF FU]]) simp
  have "2 * (8192 * 1009)\<^sup>2 < (2528 * 8000 :: int)\<^sup>2" by simp
  from turned_apart [OF e d this] have "\<bar>?L p - ?L p'\<bar> < 2528" "\<bar>?L q - ?L q'\<bar> < 2528" by simp_all
  then show ?thesis using level_gap [OF assms(1,3)] level_gap [OF assms(2,4)] by force
qed

lemma label_inj: "length xs = length ys \<Longrightarrow> label xs = label ys \<Longrightarrow> map (\<lambda>b. b = 1) xs = map (\<lambda>b. b = 1) ys"
proof (induction xs arbitrary: ys rule: rev_induct)
  case (snoc x xs)
  then obtain zs y where y: "ys = zs @ [y]" by (metis append_is_Nil_conv length_0_conv rev_exhaust snoc_eq_iff_butlast)
  have "2 * label xs + of_bool (x = 1) = 2 * label zs + of_bool (y = 1)" using snoc.prems(2) by (simp add: y label_def)
  then have "label xs = label zs" "(x = 1) = (y = 1)" by (cases "x = 1"; cases "y = 1"; simp; presburger)+
  then show ?case using snoc.IH [of zs] snoc.prems(1) by (simp add: y)
qed simp

lemma point_bits:
  assumes "near 4 a (multForComplex32 13 (bit_point 3 row d) (expComlex32 fp 13 phase i))"
    and "near 4 b (multForComplex32 13 (bit_point 3 row' d) (expComlex32 fp 13 phase i))"
    and "near 1000 a b" "6 * d \<le> k" "k < 6 * d + 6"
    and FU: "float_unit fp" "\<bar>phase\<bar> \<le> 1" "\<bar>i\<bar> \<le> 128"
  shows "(row ! k = 1) = (row' ! k = 1)"
proof -
  let ?a = "\<lambda>row. map ((!) row) [6 * d..<6 * d + 3]" and ?b = "\<lambda>row. map ((!) row) [6 * d + 3..<6 * d + 6]"
  obtain p q where pq: "p < 8" "q < 8" "p XOR (p div 2) = label (?a row)" "q XOR (q div 2) = label (?b row)"
    "bit_point 3 row d = cpx (levels_of 3 ! p) (levels_of 3 ! q)"
    using bit_point_levels [of 3 row d] by auto
  obtain p' q' where pq': "p' < 8" "q' < 8" "p' XOR (p' div 2) = label (?a row')" "q' XOR (q' div 2) = label (?b row')"
    "bit_point 3 row' d = cpx (levels_of 3 ! p') (levels_of 3 ! q')"
    using bit_point_levels [of 3 row' d] by auto
  have "p = p' \<and> q = q'"
    using turned_points [OF pq(1,2) pq'(1,2) _ _ _ FU] assms(1-3) unfolding pq(5) pq'(5) by blast
  then have "label (?a row) = label (?a row')" "label (?b row) = label (?b row')" using pq(3,4) pq'(3,4) by simp_all
  from label_inj [OF _ this(1)] label_inj [OF _ this(2)]
  have e: "\<forall>k \<in> {6 * d..<6 * d + 3} \<union> {6 * d + 3..<6 * d + 6}. (row ! k = 1) = (row' ! k = 1)"
    unfolding ball_Un by simp
  have "k \<in> {6 * d..<6 * d + 3} \<union> {6 * d + 3..<6 * d + 6}" using assms(4,5) by auto
  with e show ?thesis by blast
qed

section \<open>Frames that are far apart\<close>

text \<open>Every group of six bits of a row has its tone.\<close>

lemma data_tone:
  assumes "d < 234"
  shows "\<exists>j < 256. map_layout 0 ! j = Data d"
proof -
  have "\<forall>i \<in> {..<19} \<union> {19..<46} \<union> {46..<81} \<union> {81..<108} \<union> {108..<117} \<union> {117..<126} \<union> {126..<153} \<union> {153..<188}
      \<union> {188..<215} \<union> {215..<234}. Data i \<in> set (map_layout 0)"
    unfolding map_layout_eq by (simp add: image_iff del: upt_rec_numeral)
  moreover have "d \<in> {..<19} \<union> {19..<46} \<union> {46..<81} \<union> {81..<108} \<union> {108..<117} \<union> {117..<126} \<union> {126..<153} \<union> {153..<188}
      \<union> {188..<215} \<union> {215..<234}" using assms by auto
  ultimately have "Data d \<in> set (map_layout 0)" by blast
  then show ?thesis by (auto simp: in_set_conv_nth)
qed

text \<open>The tones of the plain chain in terms of the coded rows.\<close>

definition tone_value :: "globals \<Rightarrow> byte list list \<Rightarrow> nat \<Rightarrow> nat \<Rightarrow> nat \<Rightarrow> complex32" where
  "tone_value g rows tx q j = (case map_layout 0 ! j of
       Pilot p \<Rightarrow> pilots_of g q ! p
     | Data d \<Rightarrow> bit_point (n_bpscs (mcs_table_for_20M g) div 2) (rows ! tx) (d + q * 234)
     | _ \<Rightarrow> cpx 0 0)"

lemma row_len_points: "MCS g < 10 \<Longrightarrow> row_len g = n_bpscs (mcs_table_for_20M g) * (234 * frame_syms g)"
  using mcs_cbps_bpscs [of g] by (simp add: row_len_eq N_STS_def)

lemma coded_tones:
  assumes "0 < MCS g" "MCS g < 10" "subcar g = 256" "N_tone g - N_pilot g = 234"
    and "rows_ge (row_len g) rows" "rows_ge (234 * frame_syms g) sym0" "rows_ge (frame_syms g * 256) sub0"
  shows "\<exists>r. modulate g rows (row_len g) (frame_syms g) sym0 = Inr r
    \<and> (\<forall>tx < N_STS. \<forall>q < frame_syms g. \<forall>j < 256.
        PilotAdd_SubcarMap oob g (mod_sym r) (frame_syms g) sub0 ! tx ! (j + q * 256) = tone_value g rows tx q j)"
proof -
  obtain r where r: "modulate g rows (row_len g) (frame_syms g) sym0 = Inr r"
    and pts: "\<And>tx d. tx < N_STS \<Longrightarrow> d < 234 * frame_syms g \<Longrightarrow>
      mod_sym r ! tx ! d = bit_point (n_bpscs (mcs_table_for_20M g) div 2) (rows ! tx) d"
    using modulate_run [OF assms(1,2), of "frame_syms g" rows sym0] assms(5,6) unfolding row_len_points [OF assms(2)] by blast
  have "PilotAdd_SubcarMap oob g (mod_sym r) (frame_syms g) sub0 ! tx ! (j + q * 256) = tone_value g rows tx q j"
    if t: "tx < N_STS" "q < frame_syms g" "j < 256" for tx q j
  proof -
    have "map_layout 0 ! j \<in> set (map_layout 0)" using t(3) by simp
    then have d: "d < 234" if "map_layout 0 ! j = Data d" for d using map_layout_slots [of 0] that by metis
    have "d + q * 234 < 234 * frame_syms g" if "map_layout 0 ! j = Data d" for d
      using d [OF that] t(2) mult_le_mono1 [of "Suc q" "frame_syms g" 234] by simp
    then show ?thesis
      unfolding PilotAdd_nth [OF assms(3,7) t] tone_value_def
      using pts [OF t(1)] by (cases "map_layout 0 ! j") (simp_all add: subcar_value_def assms(4))
  qed
  then show ?thesis using r by blast
qed

lemma plain_chain_points_rows:
  assumes "six_bit_setting g" "length D = APEP_LEN g" "rest \<noteq> []" "row_len g * N_STS + 24 \<le> length old"
  obtains rows where "receive g rows = bytes_bits D"
    "BCC_encoder code_table g (scrambled g D @ rest) (scr_len g) (frame_syms g)
      (replicate N_STS (replicate (row_len g) 0)) (row_len g) old (replicate N_STS (replicate (row_len g) 0)) = Some rows"
    "\<And>tx q j. tx < N_STS \<Longrightarrow> q < frame_syms g \<Longrightarrow> j < 256
      \<Longrightarrow> plain_chain g old (scrambled g D @ rest) ! tx ! (j + q * 256) = tone_value g rows tx q j"
proof -
  let ?R = "replicate N_STS (replicate (row_len g) (0 :: byte))"
  let ?Y = "replicate N_STS (replicate (234 * frame_syms g) (cpx 0 0))" and ?Z = "replicate N_STS (replicate (frame_syms g * 256) (cpx 0 0))"
  note par = six_bit_params [OF assms(1)]
  have sub: "subcar g = 256" "N_tone g - N_pilot g = 234" using assms(1) by (simp_all add: six_bit_setting_def)
  have ge: "rows_ge (row_len g) ?R" "rows_ge (234 * frame_syms g) ?Y" "rows_ge (frame_syms g * 256) ?Z" by (simp_all add: rows_ge_def)
  obtain rows where rows: "BCC_encoder code_table g (scrambled g D @ rest) (scr_len g) (frame_syms g) ?R (row_len g) old ?R = Some rows"
    "receive g rows = bytes_bits D"
    using receive_frame [OF par(2) assms(2-4) ge(1,1)] by blast
  have "rows_ge (row_len g) rows" using ge(1) by (simp only: BCC_encoder_rows [OF rows(1)])
  from coded_tones [OF par(1,2) sub this ge(2,3), of 0] obtain r where
    r: "modulate g rows (row_len g) (frame_syms g) ?Y = Inr r"
    "\<forall>tx < N_STS. \<forall>q < frame_syms g. \<forall>j < 256.
        PilotAdd_SubcarMap 0 g (mod_sym r) (frame_syms g) ?Z ! tx ! (j + q * 256) = tone_value g rows tx q j" by blast
  have "plain_chain g old (scrambled g D @ rest) = PilotAdd_SubcarMap 0 g (mod_sym r) (frame_syms g) ?Z"
    by (simp add: plain_chain_def Let_def rows(1) r(1))
  then show thesis using that [OF rows(2,1)] r(2) by simp
qed

lemma csd_done_apart:
  assumes "six_bit_setting g" "length D = APEP_LEN g" "length D' = APEP_LEN g" "D \<noteq> D'"
    and "csd_done fp g D b" "csd_done fp g D' b'"
    and "area b 0 (N_STS * (256 * frame_syms g) * 4) = Some bs" "area b' 0 (N_STS * (256 * frame_syms g) * 4) = Some bs'"
    and FU: "float_unit fp"
  shows "\<exists>tx < N_STS. \<exists>q < frame_syms g. \<exists>j < 256.
    \<not> near 1000 (bytes_cpxs bs ! (tx * (256 * frame_syms g) + (q * 256 + j)))
        (bytes_cpxs bs' ! (tx * (256 * frame_syms g) + (q * 256 + j)))"
proof (rule ccontr)
  assume "\<not> ?thesis"
  then have near: "near 1000 (bytes_cpxs bs ! (tx * (256 * frame_syms g) + (q * 256 + j)))
      (bytes_cpxs bs' ! (tx * (256 * frame_syms g) + (q * 256 + j)))"
    if "tx < N_STS" "q < frame_syms g" "j < 256" for tx q j using that by blast
  let ?turn = "\<lambda>old D rest tx q j. multForComplex32 13 (plain_chain g old (scrambled g D @ rest) ! tx ! (j + q * 256))
      (expComlex32 fp 13 (heltf_phase fp tx) (int j - 128))"
  obtain rest old where r: "rest \<noteq> []" "row_len g * N_STS + 24 \<le> length old"
    "\<And>tx q j. tx < N_STS \<Longrightarrow> q < frame_syms g \<Longrightarrow> j < 256 \<Longrightarrow>
      near 4 (bytes_cpxs bs ! (tx * (256 * frame_syms g) + (q * 256 + j))) (?turn old D rest tx q j)"
    using assms(5,7) unfolding csd_done_def by auto
  obtain rest' old' where r': "rest' \<noteq> []" "row_len g * N_STS + 24 \<le> length old'"
    "\<And>tx q j. tx < N_STS \<Longrightarrow> q < frame_syms g \<Longrightarrow> j < 256 \<Longrightarrow>
      near 4 (bytes_cpxs bs' ! (tx * (256 * frame_syms g) + (q * 256 + j))) (?turn old' D' rest' tx q j)"
    using assms(6,8) unfolding csd_done_def by auto
  obtain rows where rows: "receive g rows = bytes_bits D"
    "BCC_encoder code_table g (scrambled g D @ rest) (scr_len g) (frame_syms g)
      (replicate N_STS (replicate (row_len g) 0)) (row_len g) old (replicate N_STS (replicate (row_len g) 0)) = Some rows"
    "\<And>tx q j. tx < N_STS \<Longrightarrow> q < frame_syms g \<Longrightarrow> j < 256
      \<Longrightarrow> plain_chain g old (scrambled g D @ rest) ! tx ! (j + q * 256) = tone_value g rows tx q j"
    by (rule plain_chain_points_rows [OF assms(1,2) r(1,2)]) (rule that; simp only:)
  obtain rows' where rows': "receive g rows' = bytes_bits D'"
    "BCC_encoder code_table g (scrambled g D' @ rest') (scr_len g) (frame_syms g)
      (replicate N_STS (replicate (row_len g) 0)) (row_len g) old' (replicate N_STS (replicate (row_len g) 0)) = Some rows'"
    "\<And>tx q j. tx < N_STS \<Longrightarrow> q < frame_syms g \<Longrightarrow> j < 256
      \<Longrightarrow> plain_chain g old' (scrambled g D' @ rest') ! tx ! (j + q * 256) = tone_value g rows' tx q j"
    by (rule plain_chain_points_rows [OF assms(1,3) r'(1,2)]) (rule that; simp only:)
  note par = six_bit_params(3) [OF assms(1)]
  have "(rows ! tx ! i = 1) = (rows' ! tx ! i = 1)" if t: "tx < N_STS" "i < row_len g" for tx i
  proof -
    define q where "q = i div 6 div 234"
    define d where "d = i div 6 mod 234"
    have d: "d < 234" "d + q * 234 = i div 6" by (simp_all add: d_def q_def)
    have "i div 6 < 234 * frame_syms g" using t(2) six_bit_row_len(2) [OF assms(1)] by (simp add: less_mult_imp_div_less mult.commute)
    then have q: "q < frame_syms g" unfolding q_def by (simp add: less_mult_imp_div_less mult.commute)
    obtain j where j: "j < 256" "map_layout 0 ! j = Data d" using data_tone [OF d(1)] by blast
    have v: "tone_value g rs tx q j = bit_point 3 (rs ! tx) (i div 6)" for rs
      unfolding tone_value_def j(2) slot.case d(2) par by simp
    have t4: "tx < 4" and j128: "\<bar>int j - 128\<bar> \<le> 128" using t(1) j(1) by (simp_all add: N_STS_def abs_le_iff)
    have k: "6 * (i div 6) \<le> i" "i < 6 * (i div 6) + 6" by simp_all
    show ?thesis
      by (rule point_bits [OF r(3) [OF t(1) q j(1), unfolded rows(3) [OF t(1) q j(1)] v]
          r'(3) [OF t(1) q j(1), unfolded rows'(3) [OF t(1) q j(1)] v] near [OF t(1) q j(1)] k FU float_unit.phase_le [OF FU t4] j128])
  qed
  from receive_cong [OF six_bit_params(2) [OF assms(1)] this] have "bytes_bits D = bytes_bits D'" unfolding rows(1) rows'(1) .
  then show False using bytes_bits_inj [of D D'] assms(2-4) by simp
qed

section \<open>Properties\<close>

text \<open>C4: at every rate the coded rows determine the payload. A payload of the stated length is
  scrambled, encoded, parsed and interleaved by the routines of the plain build; a receiver that puts the bits back
  in order, decodes the punctured code from state zero and runs the descrambler finds the bits
  of the payload, whatever byte the encoder reads behind the scrambled ones and whatever its
  buffers held before.\<close>

theorem rows_decode:
  assumes "MCS g < 10" "length D = APEP_LEN g" "rest \<noteq> []" "row_len g * N_STS + 24 \<le> length old"
    and "rows_ge (row_len g) junk" "rows_ge (row_len g) code_out"
  shows "\<exists>rows. BCC_encoder (ccodedot11_init (replicate 128 0)) g
        (GenDataAndScramble_ref g (scr_len g) D (scr_valid g) @ rest) (scr_len g) (frame_syms g) code_out (row_len g) old junk
      = Some rows \<and> receive g rows = bytes_bits D"
  using receive_frame [OF assms] unfolding scrambled_def code_table_def .

theorem rows_decode_witness:
  "\<exists>rows. BCC_encoder (ccodedot11_init (replicate 128 0)) globals0
        (GenDataAndScramble_ref globals0 936 (replicate 512 7) (scr_valid globals0) @ [0]) 936 2
        (replicate 4 (replicate 2808 0)) 2808 (replicate 11256 0) (replicate 4 (replicate 2808 0))
      = Some rows \<and> receive globals0 rows = bytes_bits (replicate 512 7)"
proof -
  have m: "MCS globals0 < 10" and d: "length (replicate 512 (7 :: byte)) = APEP_LEN globals0" by (simp_all add: globals0_def)
  have r: "row_len globals0 = 2808" using six_bit_row_len(2) [OF setting_globals0(1)] by (simp add: setting_globals0)
  have "rows_ge 2808 (replicate 4 (replicate 2808 (0 :: byte)))" by (simp add: rows_ge_def N_STS_def)
  from rows_decode [OF m d, of "[0]" "replicate 11256 0", unfolded r setting_globals0, OF _ _ this this]
  show ?thesis by (simp add: N_STS_def)
qed

text \<open>C29: the tail of a frame. The encoder reads one byte more than the scrambler has written. When the
  frame has a whole number of bytes, that byte does not matter; when it does not, which
  happens for an odd number of symbols at the rates 0, 2 and 6, four of the six tail bits
  that should end the code are the lowest bits of that byte: two frames of the same payload are
  the same just when these agree.\<close>

theorem encoder_tail:
  assumes "MCS g < 10" "length D = APEP_LEN g" "row_len g * N_STS + 24 \<le> length old"
    and "rows_ge (row_len g) junk" "rows_ge (row_len g) code_out"
  defines "enc \<equiv> \<lambda>b. BCC_encoder (ccodedot11_init (replicate 128 0)) g
      (GenDataAndScramble_ref g (scr_len g) D (scr_valid g) @ [b]) (scr_len g) (frame_syms g) code_out (row_len g) old junk"
  shows "\<exists>rows rows'. enc b = Some rows \<and> enc b' = Some rows'
    \<and> (deinterleave g rows = deinterleave g rows'
        \<longleftrightarrow> 8 dvd frame_syms g * n_dbps (mcs_table_for_20M g) \<or> take 4 (byte_bits b) = take 4 (byte_bits b'))"
proof -
  let ?S = "scrambled g D"
  have l: "length ?S = scr_len g" unfolding scrambled_def by (rule length_ref [OF scr_len_eq [OF assms(1)]])
  have enc: "\<exists>rows. enc b = Some rows \<and> deinterleave g rows = frame_bits g (?S @ [b])" for b
    using interleave_roundtrip [OF assms(1) _ assms(3-5), of "?S @ [b]"] l
    unfolding enc_def scrambled_def frame_bits_def scr_valid_tail [OF assms(1)] by simp
  obtain rows rows' where r: "enc b = Some rows" "enc b' = Some rows'"
    "deinterleave g rows = frame_bits g (?S @ [b])" "deinterleave g rows' = frame_bits g (?S @ [b'])" using enc by metis
  have "deinterleave g rows = deinterleave g rows' \<longleftrightarrow>
      take (scr_valid g + 6 - 8 * scr_len g) (byte_bits b) = take (scr_valid g + 6 - 8 * scr_len g) (byte_bits b')"
    unfolding r(3,4) using frame_bits_eq [OF assms(1), of "?S @ [b]" "?S @ [b']"] by (simp add: l)
  then show ?thesis using r(1,2) tail_length [OF assms(1)] unfolding scr_valid_tail [OF assms(1), symmetric] by auto
qed

definition odd_frame :: globals where
  "odd_frame = globals0\<lparr>MCS := 6, APEP_LEN := 500\<rparr>"

theorem encoder_tail_witness:
  "\<exists>rows rows'. BCC_encoder (ccodedot11_init (replicate 128 0)) odd_frame
      (GenDataAndScramble_ref odd_frame (scr_len odd_frame) (replicate 500 7) (scr_valid odd_frame) @ [0]) (scr_len odd_frame) (frame_syms odd_frame)
        (replicate 4 (replicate (row_len odd_frame) 0)) (row_len odd_frame) (replicate (row_len odd_frame * 4 + 24) 0) (replicate 4 (replicate (row_len odd_frame) 0)) = Some rows
    \<and> BCC_encoder (ccodedot11_init (replicate 128 0)) odd_frame
      (GenDataAndScramble_ref odd_frame (scr_len odd_frame) (replicate 500 7) (scr_valid odd_frame) @ [3]) (scr_len odd_frame) (frame_syms odd_frame)
        (replicate 4 (replicate (row_len odd_frame) 0)) (row_len odd_frame) (replicate (row_len odd_frame * 4 + 24) 0) (replicate 4 (replicate (row_len odd_frame) 0)) = Some rows'
    \<and> deinterleave odd_frame rows \<noteq> deinterleave odd_frame rows'"
proof -
  have m: "MCS odd_frame < 10" "length (replicate 500 (7 :: byte)) = APEP_LEN odd_frame" by (simp_all add: odd_frame_def globals0_def)
  have s: "frame_syms odd_frame = 1" "n_dbps (mcs_table_for_20M odd_frame) = 4212"
    by (simp_all add: odd_frame_def frame_syms_def GenInit_def Let_def globals0_def mcs_table_for_20M_def mcs_tabs param_simps ceil_div_def num_sym_def)
  have "rows_ge (row_len odd_frame) (replicate 4 (replicate (row_len odd_frame) (0 :: byte)))" by (simp add: rows_ge_def N_STS_def)
  moreover have "\<not> 8 dvd (1 * 4212 :: nat)" "take 4 (byte_bits 0) \<noteq> take 4 (byte_bits 3)"
    by (simp_all add: byte_bits_def upt_8)
  ultimately show ?thesis
    using encoder_tail [OF m, of "replicate (row_len odd_frame * 4 + 24) 0", where b = 0 and b' = 3, unfolded s]
    by (simp add: N_STS_def s)
qed

text \<open>C2: frames of different payloads are far apart. In the pipeline, with six bits per point,
  two payloads that differ anywhere, written to any two buffers and taken through all stages,
  leave tones of which at least one differs by more than 1000 units in one of its parts, some
  40 percent of the spacing of the constellation.\<close>

theorem frames_apart:
  assumes "setup_ok P" "length D = APEP_LEN (glob P)" "D \<noteq> payload P" "roomy OFF15 m" "roomy OFF15 m'"
  shows "\<exists>b b' bs bs'. Option.bind (read_P P m) (all_stages P) = Some b
    \<and> Option.bind (read_P (P\<lparr>payload := D\<rparr>) m') (all_stages (P\<lparr>payload := D\<rparr>)) = Some b'
    \<and> area b 0 (4096 * frame_syms (glob P)) = Some bs \<and> area b' 0 (4096 * frame_syms (glob P)) = Some bs'
    \<and> (\<exists>i < 1024 * frame_syms (glob P). \<not> near 1000 (bytes_cpxs bs ! i) (bytes_cpxs bs' ! i))"
proof -
  let ?P = "P\<lparr>payload := D\<rparr>" and ?g = "glob P"
  have ok: "setup_ok ?P" "six_bit_setting ?g" "length (payload P) = APEP_LEN ?g" "float_unit (fp_unit P)"
    using assms(1,2) by (simp_all add: setup_ok_def)
  obtain b where b: "Option.bind (read_P P m) (all_stages P) = Some b" "csd_done (fp_unit P) ?g (payload P) b"
    using all_stages_read [OF assms(1,4)] by blast
  obtain b' where b': "Option.bind (read_P ?P m') (all_stages ?P) = Some b'" "csd_done (fp_unit P) ?g D b'"
    using all_stages_read [OF ok(1) assms(5)] by auto
  have n: "N_STS * (256 * frame_syms ?g) * 4 = 4096 * frame_syms ?g" by (simp add: N_STS_def)
  obtain bs bs' where bs: "area b 0 (4096 * frame_syms ?g) = Some bs" "area b' 0 (4096 * frame_syms ?g) = Some bs'"
    using b(2) b'(2) unfolding csd_done_def n by blast
  obtain tx q j where t: "tx < N_STS" "q < frame_syms ?g" "j < 256"
    "\<not> near 1000 (bytes_cpxs bs ! (tx * (256 * frame_syms ?g) + (q * 256 + j))) (bytes_cpxs bs' ! (tx * (256 * frame_syms ?g) + (q * 256 + j)))"
    using csd_done_apart [OF ok(2,3) assms(2) assms(3) [symmetric] b(2) b'(2), unfolded n, OF bs ok(4)] by blast
  have "tx * (256 * frame_syms ?g) + (q * 256 + j) < 1024 * frame_syms ?g"
    using flat_index [OF t(1-3)] by (simp add: N_STS_def)
  then show ?thesis using b(1) b'(1) bs t(4) by blast
qed

theorem frames_apart_witness:
  "\<exists>b b' bs bs'. Option.bind (read_P default_setup (rte_pktmbuf_init BUF30)) (all_stages default_setup) = Some b
    \<and> Option.bind (read_P (default_setup\<lparr>payload := replicate 512 9\<rparr>) (rte_pktmbuf_init BUF30))
        (all_stages (default_setup\<lparr>payload := replicate 512 9\<rparr>)) = Some b'
    \<and> area b 0 8192 = Some bs \<and> area b' 0 8192 = Some bs'
    \<and> (\<exists>i < 2048. \<not> near 1000 (bytes_cpxs bs ! i) (bytes_cpxs bs' ! i))"
proof -
  have d: "length (replicate 512 (9 :: byte)) = APEP_LEN (glob default_setup)" "replicate 512 9 \<noteq> payload default_setup"
    "glob default_setup = globals0" by (simp_all add: default_setup_def globals0_def)
  have "roomy OFF15 (rte_pktmbuf_init BUF30)" using roomy_init15 [of default_setup] by (simp add: holds_def)
  from frames_apart [OF default_setup_ok d(1,2) this this] show ?thesis
    by (simp add: d(3) setting_globals0)
qed

end
