(* ===== verification/Frame.thy ===== *)
theory Frame
  imports Receiver
begin

text \<open>
  \<open>GenerateData\<close> of \<^verbatim>\<open>process_data/process_data.c\<close> in the build without \<open>OPTIMIZATION\<close> and without
  \<open>AVX2\<close>: the scrambler, the encoder, the mapper, the pilots and the cyclic shifts one after the
  other, on arrays that are allocated for the call. What the allocated arrays hold before, and the bytes
  behind the array of scrambled bits, one of which the encoder reads, are arguments.
\<close>

section \<open>Definitions\<close>

record heap =
  behind :: "byte list"
  output_mem :: "byte list"
  parser_mem :: "byte list list"
  code_mem :: "byte list list"
  sym_mem :: "complex32 list list"
  map_mem :: "complex32 list list"
  index_end :: nat

text \<open>\<open>None\<close> is an access outside an array; the mapper may end the program with an error. \<open>tab\<close> is the table of
  \<open>ccodedot11_init\<close>, which has run before.\<close>

definition GenerateData :: "fpu \<Rightarrow> byte list \<Rightarrow> heap \<Rightarrow> globals \<Rightarrow> byte list \<Rightarrow> complex32 list list
    \<Rightarrow> (mod_error + complex32 list list) option" where
  "GenerateData fp tab h g databits csd_data =
     (let nsym = frame_syms g;
          data_scramble = GenDataAndScramble_ref g (scr_len g) databits (scr_valid g);
          CodeLength = nsym * n_cbps (mcs_table_for_20M g) div N_STS
      in map_option (\<lambda>code_out.
           case modulate g code_out CodeLength nsym (sym_mem h) of
             Inl e \<Rightarrow> Inl e
           | Inr r \<Rightarrow> Inr (Data_CSD_ref fp g (PilotAdd_SubcarMap (index_end h) g (mod_sym r) nsym (map_mem h)) nsym csd_data))
         (BCC_encoder tab g (data_scramble @ behind h) (scr_len g) nsym (code_mem h) CodeLength (output_mem h) (parser_mem h)))"

text \<open>The sizes that \<open>malloc\<close> is asked for.\<close>

definition heap_ok :: "globals \<Rightarrow> heap \<Rightarrow> bool" where
  "heap_ok g h \<longleftrightarrow> length (output_mem h) = row_len g * N_STS + 24 \<and> rows_ge (row_len g) (parser_mem h)
     \<and> rows_ge (row_len g) (code_mem h) \<and> rows_ge (row_len g) (sym_mem h) \<and> rows_ge (frame_syms g * subcar g) (map_mem h)"

section \<open>The cyclic shift\<close>

lemma fold_row_writes: "fold (\<lambda>j. upd2 i (f j) (v j)) js d = writes2 (map (\<lambda>j. (i, f j, v j)) js) d"
  by (induction js arbitrary: d) simp_all

definition block_writes :: "nat \<Rightarrow> nat \<Rightarrow> (nat \<Rightarrow> nat \<Rightarrow> nat \<Rightarrow> 'a) \<Rightarrow> (nat \<times> nat \<times> 'a) list" where
  "block_writes L N v = concat (map (\<lambda>i. concat (map (\<lambda>n. map (\<lambda>j. (i, j + n * L, v i n j)) [0..<L]) [0..<N])) [0..<N_STS])"

lemma set_block_writes: "set (block_writes L N v) = {(i, j + n * L, v i n j) | i n j. i < N_STS \<and> n < N \<and> j < L}"
  by (fastforce simp: block_writes_def)

lemma blocks_written:
  assumes "rows_ge (N * L) d" "tx < N_STS" "q < N" "j < L"
  shows "fold (\<lambda>i. fold (\<lambda>n. fold (\<lambda>j. upd2 i (j + n * L) (v i n j)) [0..<L]) [0..<N]) [0..<N_STS] d ! tx ! (j + q * L) = v tx q j"
proof -
  let ?ws = "block_writes L N v"
  have e: "fold (\<lambda>i. fold (\<lambda>n. fold (\<lambda>j. upd2 i (j + n * L) (v i n j)) [0..<L]) [0..<N]) [0..<N_STS] d = writes2 ?ws d"
    unfolding fold_row_writes fold_writes2_concat block_writes_def ..
  have "(tx, j + q * L, v tx q j) \<in> set ?ws" using assms(2-4) unfolding set_block_writes by blast
  moreover have "u = v tx q j" if u: "(tx, j + q * L, u) \<in> set ?ws" for u
  proof -
    obtain n i where n: "j + q * L = i + n * L" "i < L" "u = v tx n i" using u unfolding set_block_writes by blast
    then have "(j + q * L) div L = (i + n * L) div L" "(j + q * L) mod L = (i + n * L) mod L" by simp_all
    then have "q = n" "j = i" using assms(4) n(2) by simp_all
    then show ?thesis using n(3) by simp
  qed
  moreover have "tx < length d" "N * L \<le> length (d ! tx)" using assms(1,2) unfolding rows_ge_def by (meson less_le_trans)+
  moreover have "j + q * L < N * L"
  proof -
    have "(q + 1) * L \<le> N * L" using assms(3) by (intro mult_le_mono1) simp
    then show ?thesis using assms(4) by simp
  qed
  ultimately show ?thesis unfolding e by (meson less_le_trans writes2_written)
qed

lemma Data_CSD_ref_nth:
  assumes "subcar g = 256" "rows_ge (nsym * 256) csd0" "tx < N_STS" "q < nsym" "j < 256"
  shows "Data_CSD_ref fp g sub0 nsym csd0 ! tx ! (j + q * 256)
    = multForComplex32 (dotscale g) (sub0 ! tx ! (j + q * 256)) (data_exp fp (data_phase fp tx) (int j - 128))"
proof -
  let ?v = "\<lambda>i n j. multForComplex32 (dotscale g) (sub0 ! i ! (j + n * 256))
      (map (\<lambda>j. data_exp fp (data_phase fp i) (int j - int (256 div 2))) [0..<256] ! j)"
  have "Data_CSD_ref fp g sub0 nsym csd0 ! tx ! (j + q * 256) = ?v tx q j"
    unfolding Data_CSD_ref_def Let_def assms(1) by (rule blocks_written [OF assms(2-5)])
  then show ?thesis using assms(5) by simp
qed

text \<open>The phases of the two builds come from constants with different roundings; the entries of
  their tables differ by one unit at most.\<close>

lemma trunc_close: "\<bar>x - y\<bar> \<le> 1 / 2 \<Longrightarrow> \<bar>trunc x - trunc y\<bar> \<le> 1"
  unfolding trunc_def by (cases "x < 0"; cases "y < 0") (simp_all only: if_True if_False simp_thms, linarith+)

lemma cos_close: "\<bar>cos x - cos y\<bar> \<le> \<bar>x - y\<bar>" "\<bar>sin x - sin y\<bar> \<le> \<bar>x - y\<bar>" for x y :: real
proof -
  have b: "\<bar>s\<bar> \<le> 1 \<Longrightarrow> 2 * (\<bar>s\<bar> * \<bar>sin ((x - y) / 2)\<bar>) \<le> \<bar>x - y\<bar>" for s
  proof -
    assume "\<bar>s\<bar> \<le> 1"
    then have "\<bar>s\<bar> * \<bar>sin ((x - y) / 2)\<bar> \<le> 1 * \<bar>(x - y) / 2\<bar>"
      by (intro mult_mono abs_sin_x_le_abs_x) simp_all
    then show ?thesis by simp
  qed
  have "\<bar>sin ((y - x) / 2)\<bar> = \<bar>sin ((x - y) / 2)\<bar>"
    by (metis abs_minus_cancel minus_diff_eq minus_divide_left sin_minus)
  then show "\<bar>cos x - cos y\<bar> \<le> \<bar>x - y\<bar>"
    using b [of "sin ((x + y) / 2)"] by (simp add: cos_diff_cos abs_mult)
  show "\<bar>sin x - sin y\<bar> \<le> \<bar>x - y\<bar>"
    using b [of "cos ((x + y) / 2)"] by (simp add: sin_diff_sin abs_mult mult.commute)
qed

lemma angles_close:
  assumes "float_unit fp" "tx < 4" "\<bar>i\<bar> \<le> 128"
  shows "\<bar>fdouble fp (data_phase fp tx * of_int i) - fsingle fp (of_int i * heltf_phase fp tx)\<bar> \<le> 1 / 2 ^ 15"
    and "\<bar>fdouble fp (data_phase fp tx * of_int i)\<bar> \<le> 2 ^ 20"
proof -
  let ?y = "- 0.00049087385 * real_of_int (T_iss_CS8 ! tx)"
  have i: "\<bar>real_of_int i\<bar> \<le> 128" using assms(3) by linarith
  have "\<bar>?y\<bar> \<le> 1" using shifts_le [OF assms(2)] by (simp add: abs_mult)
  then have y: "\<bar>?y * of_int i\<bar> \<le> 128" using mult_mono [of "\<bar>?y\<bar>" 1 "\<bar>real_of_int i\<bar>" 128] i by (simp add: abs_mult)
  note d = scaled [OF float_unit.data_phase_near [OF assms(1,2)] i]
  note h = scaled [OF float_unit.heltf_phase_near [OF assms(1,2)] i]
  have D: "\<bar>fdouble fp (data_phase fp tx * of_int i) - ?y * of_int i\<bar> \<le> 1 / 2 ^ 17"
    by (rule order_trans [OF float_unit.fdouble_step [OF assms(1) d y]]) simp_all
  have "\<bar>fsingle fp (heltf_phase fp tx * of_int i) - ?y * of_int i\<bar> \<le> 1 / 2 ^ 16"
    by (rule order_trans [OF float_unit.fsingle_step [OF assms(1) h y]]) simp_all
  then have H: "\<bar>fsingle fp (of_int i * heltf_phase fp tx) - ?y * of_int i\<bar> \<le> 1 / 2 ^ 16" by (simp only: mult.commute)
  have "1 / 2 ^ 17 + 1 / 2 ^ 16 \<le> (1 / 2 ^ 15 :: real)" "128 + 1 / 2 ^ 17 \<le> (2 ^ 20 :: real)" by simp_all
  then show "\<bar>fdouble fp (data_phase fp tx * of_int i) - fsingle fp (of_int i * heltf_phase fp tx)\<bar> \<le> 1 / 2 ^ 15"
    "\<bar>fdouble fp (data_phase fp tx * of_int i)\<bar> \<le> 2 ^ 20"
    using D H y by argo+
qed

lemma exp_close:
  assumes "float_unit fp" "tx < 4" "\<bar>i\<bar> \<le> 128"
  shows "near 1 (data_exp fp (data_phase fp tx) i) (expComlex32 fp 13 (heltf_phase fp tx) i)"
proof -
  let ?a = "fdouble fp (data_phase fp tx * of_int i)" and ?b = "fsingle fp (of_int i * heltf_phase fp tx)"
  note le = angles_close(2) [OF assms] float_unit.angle_le(2) [OF assms(1) float_unit.phase_le [OF assms(1,2)] assms(3)]
  note c = float_unit.fcos_near [OF assms(1) le(1)] float_unit.fcos_near [OF assms(1) le(2)] cos_close(1) [of ?a ?b]
  note s = float_unit.fsin_near [OF assms(1) le(1)] float_unit.fsin_near [OF assms(1) le(2)] cos_close(2) [of ?a ?b]
  have "2 * (1 / 2 ^ 52) + 1 / 2 ^ 15 \<le> (1 / 2 ^ 14 :: real)" by simp
  then have "\<bar>fcos fp ?a - fcos fp ?b\<bar> \<le> 1 / 2 ^ 14" "\<bar>fsin fp ?a - fsin fp ?b\<bar> \<le> 1 / 2 ^ 14"
    using c s angles_close(1) [OF assms] by argo+
  from scaled [OF this(1), of 8192 8192] scaled [OF this(2), of 8192 8192]
  have "\<bar>trunc (fcos fp ?a * 8192) - trunc (fcos fp ?b * 8192)\<bar> \<le> 1" "\<bar>trunc (fsin fp ?a * 8192) - trunc (fsin fp ?b * 8192)\<bar> \<le> 1"
    by (intro trunc_close; simp)+
  then show ?thesis by (simp only: near_def float_unit.exp_parts [OF assms(1)] float_unit.data_exp_parts [OF assms(1)])
qed

lemma div_close: "\<bar>x - y\<bar> \<le> 32760 \<Longrightarrow> \<bar>x div 8192 - y div 8192\<bar> \<le> 4" for x y :: int
  using div_bounds [of 8192 x] div_bounds [of 8192 y] by linarith

lemma product_close:
  assumes "cbound 16380 z" "cbound 8192 v" "cbound 8192 w" "near 1 v w"
  shows "near 4 (multForComplex32 13 z v) (multForComplex32 13 z w)"
proof -
  have AB: "(16380 :: int) * 8192 < 2 ^ 27" by simp
  have b: "\<bar>sint (re z) * d\<bar> \<le> 16380" "\<bar>sint (im z) * d\<bar> \<le> 16380" if "\<bar>d\<bar> \<le> 1" for d
    using prod_bound [of "sint (re z)" 16380 d 1] prod_bound [of "sint (im z)" 16380 d 1] assms(1) that
    by (simp_all add: cbound_def)
  have d: "\<bar>sint (re v) - sint (re w)\<bar> \<le> 1" "\<bar>sint (im v) - sint (im w)\<bar> \<le> 1" using assms(4) by (simp_all add: near_def)
  note b [OF d(1)] b [OF d(2)]
  then have "\<bar>(sint (re z) * sint (re v) - sint (im z) * sint (im v)) - (sint (re z) * sint (re w) - sint (im z) * sint (im w))\<bar> \<le> 32760"
    "\<bar>(sint (re z) * sint (im v) + sint (im z) * sint (re v)) - (sint (re z) * sint (im w) + sint (im z) * sint (re w))\<bar> \<le> 32760"
    unfolding right_diff_distrib by linarith+
  from div_close [OF this(1)] div_close [OF this(2)] show ?thesis
    unfolding near_def mult_exact [OF assms(1,2) AB] mult_exact [OF assms(1,3) AB] ..
qed

section \<open>The encoder at the end of its input\<close>

lemma encoder_short:
  assumes "MCS g < 10" "length dat = scr_len g"
  shows "BCC_encoder code_table g dat (scr_len g) nsym code_out len old junk = None"
  using encode_spec [OF mcs_rate_modes [OF assms(1)], of "scr_len g + 1" dat] assms(2)
  by (simp add: BCC_encoder_def Let_def)

section \<open>The call\<close>

lemma generate_run:
  assumes "0 < MCS g" "MCS g < 10" "subcar g = 256" "N_tone g = 242" "N_pilot g = 8"
    and "heap_ok g h" "length D = APEP_LEN g" "rows_ge (frame_syms g * 256) csd0" "behind h \<noteq> []"
  shows "\<exists>rows out. BCC_encoder code_table g (scrambled g D @ behind h) (scr_len g) (frame_syms g) (code_mem h) (row_len g)
      (output_mem h) (parser_mem h) = Some rows \<and> receive g rows = bytes_bits D
    \<and> GenerateData fp code_table h g D csd0 = Some (Inr out)
    \<and> (\<forall>tx < N_STS. \<forall>q < frame_syms g. \<forall>j < 256. out ! tx ! (j + q * 256)
        = multForComplex32 (dotscale g) (tone_value g rows tx q j) (data_exp fp (data_phase fp tx) (int j - 128)))"
proof -
  note G = GenerateData_def Let_def scrambled_def [symmetric] row_len_def [symmetric]
  have ok: "row_len g * N_STS + 24 \<le> length (output_mem h)" "rows_ge (row_len g) (parser_mem h)" "rows_ge (row_len g) (code_mem h)"
    "rows_ge (row_len g) (sym_mem h)" "rows_ge (frame_syms g * 256) (map_mem h)"
    using assms(3,6) by (simp_all add: heap_ok_def)
  obtain rows where rows: "BCC_encoder code_table g (scrambled g D @ behind h) (scr_len g) (frame_syms g) (code_mem h) (row_len g)
      (output_mem h) (parser_mem h) = Some rows" "receive g rows = bytes_bits D"
    using receive_frame [OF assms(2,7,9) ok(1-3)] by blast
  have "0 < n_bpscs (mcs_table_for_20M g)" using mcs_mode(1) [OF assms(1,2)] by simp
  then have "234 * frame_syms g \<le> row_len g" unfolding row_len_points [OF assms(2)] by simp
  then have ge: "rows_ge (234 * frame_syms g) (sym_mem h)" by (rule rows_ge_mono [OF ok(4)])
  have "rows_ge (row_len g) rows" using ok(3) by (simp only: BCC_encoder_rows [OF rows(1)])
  from coded_tones [OF assms(1-3) _ this ge ok(5), of "index_end h"] assms(4,5) obtain r where
    r: "modulate g rows (row_len g) (frame_syms g) (sym_mem h) = Inr r"
    "\<forall>tx < N_STS. \<forall>q < frame_syms g. \<forall>j < 256.
        PilotAdd_SubcarMap (index_end h) g (mod_sym r) (frame_syms g) (map_mem h) ! tx ! (j + q * 256) = tone_value g rows tx q j" by auto
  let ?out = "Data_CSD_ref fp g (PilotAdd_SubcarMap (index_end h) g (mod_sym r) (frame_syms g) (map_mem h)) (frame_syms g) csd0"
  have "GenerateData fp code_table h g D csd0 = Some (Inr ?out)" by (simp add: G rows(1) r(1))
  moreover have "?out ! tx ! (j + q * 256) = multForComplex32 (dotscale g) (tone_value g rows tx q j) (data_exp fp (data_phase fp tx) (int j - 128))"
    if t: "tx < N_STS" "q < frame_syms g" "j < 256" for tx q j
    using Data_CSD_ref_nth [OF assms(3,8) t] r(2) t by simp
  ultimately show ?thesis using rows by blast
qed

lemma tone_value_cbound:
  assumes "0 < MCS g" "MCS g < 10" "j < 256"
  shows "cbound 16380 (tone_value g rows tx q j)"
proof -
  have "map_layout 0 ! j \<in> set (map_layout 0)" using assms(3) by simp
  then have "p < 8" if "map_layout 0 ! j = Pilot p" for p using map_layout_slots [of 0] that by metis
  moreover have "cbound 16380 (cpx 0 0)" by (simp add: cbound_def cpx_def)
  ultimately show ?thesis
    using bit_point_cbound [OF mcs_mode(1,2) [OF assms(1,2)]]
    by (cases "map_layout 0 ! j") (simp_all add: tone_value_def pilot_cbound)
qed

lemma bi2de_value_upto:
  "(\<And>k. k < mode \<Longrightarrow> r ! (mode * j + k) = r' ! (mode * j + k)) \<Longrightarrow> bi2de_value mode r j = bi2de_value mode r' j"
  unfolding bi2de_value_def by (rule fold_cong) auto

lemma tone_value_cong:
  assumes "0 < MCS g" "MCS g < 10" "q < frame_syms g" "j < 256"
    and "\<And>i. i < row_len g \<Longrightarrow> rows ! tx ! i = rows' ! tx ! i"
  shows "tone_value g rows tx q j = tone_value g rows' tx q j"
proof (cases "map_layout 0 ! j")
  case (Data d)
  let ?mode = "n_bpscs (mcs_table_for_20M g) div 2"
  have "map_layout 0 ! j \<in> set (map_layout 0)" using assms(4) by simp
  then have "d < 234" using map_layout_slots [of 0] Data by metis
  then have "d + q * 234 + 1 \<le> 234 * frame_syms g"
    using assms(3) mult_le_mono1 [of "Suc q" "frame_syms g" 234] by simp
  then have "2 * (d + q * 234 + 1) \<le> 2 * (234 * frame_syms g)" by (rule mult_le_mono2)
  from mult_le_mono2 [OF this, of ?mode] have le: "?mode * (2 * (d + q * 234 + 1)) \<le> ?mode * (2 * (234 * frame_syms g))" .
  have rl: "row_len g = ?mode * (2 * (234 * frame_syms g))"
    using row_len_points [OF assms(2)] mcs_mode(3) [OF assms(1,2)] by (metis mult.assoc mult.commute)
  from le have b: "?mode * (2 * (d + q * 234)) + ?mode + ?mode \<le> row_len g"
    unfolding rl by (simp add: algebra_simps)
  have "bi2de_value ?mode (rows ! tx) k = bi2de_value ?mode (rows' ! tx) k"
    if "?mode * k + ?mode \<le> row_len g" for k
    by (rule bi2de_value_upto) (use that assms(5) in simp)
  then show ?thesis using b by (simp add: tone_value_def Data bit_point_def algebra_simps)
qed (simp_all add: tone_value_def)

text \<open>A heap for the variables as declared.\<close>

definition small_heap :: heap where
  "small_heap = \<lparr>behind = [0], output_mem = replicate 11256 0, parser_mem = replicate 4 (replicate 2808 0),
     code_mem = replicate 4 (replicate 2808 0), sym_mem = replicate 4 (replicate 2808 (cpx 0 0)),
     map_mem = replicate 4 (replicate 512 (cpx 0 0)), index_end = 0\<rparr>"

lemma small_heap_ok: "heap_ok globals0 small_heap"
proof -
  have "row_len globals0 = 2808" using six_bit_row_len(2) [OF setting_globals0(1)] by (simp add: setting_globals0)
  moreover have "subcar globals0 = 256" by (simp add: globals0_def)
  ultimately show ?thesis by (simp add: heap_ok_def small_heap_def rows_ge_def N_STS_def setting_globals0)
qed

section \<open>Properties\<close>

text \<open>C28: the frame of the plain build, completely. At the rates 1 to 9 in the 242-tone format, with
  arrays of the allocated sizes and a byte behind the scrambled ones, \<open>GenerateData\<close> returns; the rows it codes are those in
  which the receiver finds the payload, and every tone of every symbol of every stream is the
  fixed-point product of its pilot, its zero or the point of its bits with the phase of the stream as
  the floating-point unit computes it in \<open>double\<close>, whatever the unit. Without such a byte the call reads
  outside its array.\<close>

theorem generate_data:
  fixes fp :: fpu
  assumes "0 < MCS g" "MCS g < 10" "subcar g = 256" "N_tone g = 242" "N_pilot g = 8"
    and "heap_ok g h" "length D = APEP_LEN g" "rows_ge (frame_syms g * 256) csd0"
  defines "G \<equiv> GenerateData fp (ccodedot11_init (replicate 128 0)) h g D csd0"
  shows "(behind h = [] \<longrightarrow> G = None)
    \<and> (behind h \<noteq> [] \<longrightarrow> (\<exists>rows out. G = Some (Inr out) \<and> receive g rows = bytes_bits D
        \<and> (\<forall>tx < N_STS. \<forall>q < frame_syms g. \<forall>j < 256. out ! tx ! (j + q * 256)
            = multForComplex32 (dotscale g) (tone_value g rows tx q j) (data_exp fp (data_phase fp tx) (int j - 128)))))"
proof (intro conjI impI)
  have len: "length (scrambled g D) = scr_len g" unfolding scrambled_def by (rule length_ref [OF scr_len_eq [OF assms(2)]])
  show "G = None" if "behind h = []"
    unfolding G_def code_table_def [symmetric]
    using encoder_short [OF assms(2) len] by (simp add: GenerateData_def Let_def scrambled_def [symmetric] that)
  assume "behind h \<noteq> []"
  from generate_run [OF assms(1-8) this] show "\<exists>rows out. G = Some (Inr out) \<and> receive g rows = bytes_bits D
        \<and> (\<forall>tx < N_STS. \<forall>q < frame_syms g. \<forall>j < 256. out ! tx ! (j + q * 256)
            = multForComplex32 (dotscale g) (tone_value g rows tx q j) (data_exp fp (data_phase fp tx) (int j - 128)))"
    unfolding G_def code_table_def [symmetric] by blast
qed

theorem generate_data_witness:
  "\<exists>rows out. GenerateData ieee (ccodedot11_init (replicate 128 0)) small_heap globals0 (replicate 512 7)
        (replicate 4 (replicate 512 (cpx 0 0))) = Some (Inr out)
      \<and> receive globals0 rows = bytes_bits (replicate 512 7)
      \<and> out ! 1 ! 300 = multForComplex32 13 (tone_value globals0 rows 1 1 44) (data_exp ieee (data_phase ieee 1) (- 84))"
proof -
  have g: "0 < MCS globals0" "MCS globals0 < 10" "subcar globals0 = 256" "N_tone globals0 = 242" "N_pilot globals0 = 8"
    "dotscale globals0 = 13" "length (replicate 512 (7 :: byte)) = APEP_LEN globals0" by (simp_all add: globals0_def)
  have c: "rows_ge (frame_syms globals0 * 256) (replicate 4 (replicate 512 (cpx 0 0)))"
    by (simp add: rows_ge_def N_STS_def setting_globals0)
  have "behind small_heap \<noteq> []" by (simp add: small_heap_def)
  with generate_data [OF g(1-5) small_heap_ok g(7) c] obtain rows out where
    "GenerateData ieee (ccodedot11_init (replicate 128 0)) small_heap globals0 (replicate 512 7)
        (replicate 4 (replicate 512 (cpx 0 0))) = Some (Inr out)"
    "receive globals0 rows = bytes_bits (replicate 512 7)"
    and t: "\<forall>tx < N_STS. \<forall>q < frame_syms globals0. \<forall>j < 256. out ! tx ! (j + q * 256)
            = multForComplex32 (dotscale globals0) (tone_value globals0 rows tx q j) (data_exp ieee (data_phase ieee tx) (int j - 128))"
    by blast
  moreover have "out ! 1 ! (44 + 1 * 256) = multForComplex32 13 (tone_value globals0 rows 1 1 44) (data_exp ieee (data_phase ieee 1) (int 44 - 128))"
    using t [rule_format, of 1 1 44] by (simp add: N_STS_def setting_globals0 g(6))
  ultimately show ?thesis by auto
qed

text \<open>The phases of the two programs differ by rounding, and so do the turned points.\<close>

lemma phases_near:
  assumes "float_unit fp" "six_bit_setting g" "tx < N_STS" "j < 256"
  shows "near 4 (multForComplex32 13 (tone_value g rows tx q j) (expComlex32 fp 13 (heltf_phase fp tx) (int j - 128)))
    (multForComplex32 13 (tone_value g rows tx q j) (data_exp fp (data_phase fp tx) (int j - 128)))"
proof -
  have tx: "tx < 4" and j: "\<bar>int j - 128\<bar> \<le> 128" using assms(3,4) by (simp_all add: N_STS_def)
  have "near 1 (expComlex32 fp 13 (heltf_phase fp tx) (int j - 128)) (data_exp fp (data_phase fp tx) (int j - 128))"
    using exp_close [OF assms(1) tx j] unfolding near_def by (simp only: abs_minus_commute)
  from product_close [OF tone_value_cbound [OF six_bit_params(1,2) [OF assms(2)] assms(4)]
      float_unit.exp_cbound [OF assms(1)] float_unit.data_exp_cbound [OF assms(1)] this, of rows tx q]
  show ?thesis .
qed

text \<open>What the last stage leaves in the buffer, in terms of rows that determine the payload.\<close>

lemma stages_rows:
  assumes "setup_ok P" "roomy OFF15 m"
  obtains b rest old bs rows where "Option.bind (read_P P m) (all_stages P) = Some b"
    "area b 0 (4096 * frame_syms (glob P)) = Some bs" "rest \<noteq> []" "row_len (glob P) * N_STS + 24 \<le> length old"
    "BCC_encoder code_table (glob P) (scrambled (glob P) (payload P) @ rest) (scr_len (glob P)) (frame_syms (glob P))
      (replicate N_STS (replicate (row_len (glob P)) 0)) (row_len (glob P)) old
      (replicate N_STS (replicate (row_len (glob P)) 0)) = Some rows"
    "\<And>tx q j. tx < N_STS \<Longrightarrow> q < frame_syms (glob P) \<Longrightarrow> j < 256 \<Longrightarrow>
      near 4 (bytes_cpxs bs ! (tx * (256 * frame_syms (glob P)) + (q * 256 + j)))
        (multForComplex32 13 (tone_value (glob P) rows tx q j) (expComlex32 (fp_unit P) 13 (heltf_phase (fp_unit P) tx) (int j - 128)))"
proof -
  let ?g = "glob P" and ?D = "payload P"
  have six: "six_bit_setting ?g" "length ?D = APEP_LEN ?g" using assms(1) by (simp_all add: setup_ok_def)
  obtain b where b: "Option.bind (read_P P m) (all_stages P) = Some b" "csd_done (fp_unit P) ?g ?D b"
    using all_stages_read [OF assms] by blast
  have n: "N_STS * (256 * frame_syms ?g) * 4 = 4096 * frame_syms ?g" by (simp add: N_STS_def)
  obtain rest old bs where r: "rest \<noteq> []" "row_len ?g * N_STS + 24 \<le> length old" "area b 0 (4096 * frame_syms ?g) = Some bs"
    "\<And>tx q j. tx < N_STS \<Longrightarrow> q < frame_syms ?g \<Longrightarrow> j < 256 \<Longrightarrow>
      near 4 (bytes_cpxs bs ! (tx * (256 * frame_syms ?g) + (q * 256 + j)))
        (multForComplex32 13 (plain_chain ?g old (scrambled ?g ?D @ rest) ! tx ! (j + q * 256)) (expComlex32 (fp_unit P) 13 (heltf_phase (fp_unit P) tx) (int j - 128)))"
    using b(2) unfolding csd_done_def n by blast
  obtain rows where rows: "receive ?g rows = bytes_bits ?D"
    "BCC_encoder code_table ?g (scrambled ?g ?D @ rest) (scr_len ?g) (frame_syms ?g)
      (replicate N_STS (replicate (row_len ?g) 0)) (row_len ?g) old (replicate N_STS (replicate (row_len ?g) 0)) = Some rows"
    "\<And>tx q j. tx < N_STS \<Longrightarrow> q < frame_syms ?g \<Longrightarrow> j < 256
      \<Longrightarrow> plain_chain ?g old (scrambled ?g ?D @ rest) ! tx ! (j + q * 256) = tone_value ?g rows tx q j"
    by (rule plain_chain_points_rows [OF six r(1,2)]) (rule that; simp only:)
  show ?thesis by (rule that [OF b(1) r(3,1,2) rows(2)]) (use r(4) rows(3) in simp)
qed

text \<open>What follows the scrambled frame in memory does not reach the coded bits of a frame that fills
  its bytes.\<close>

lemma frame_bits_same:
  assumes "MCS g < 10" "8 dvd frame_syms g * n_dbps (mcs_table_for_20M g)"
  shows "frame_bits g (scrambled g D @ xs) = frame_bits g (scrambled g D @ ys)"
proof -
  have "length (scrambled g D) = scr_len g" unfolding scrambled_def by (rule length_ref [OF scr_len_eq [OF assms(1)]])
  moreover have "scr_valid g + 6 - 8 * scr_len g = 0"
    using tail_length [OF assms(1)] assms(2) unfolding scr_valid_tail [OF assms(1), symmetric] by simp
  ultimately show ?thesis by (simp add: frame_bits_def)
qed

text \<open>C1: the plain build and the pipeline make the same frame. When the coded symbols hold a whole
  number of bytes (C29: otherwise four tail bits are whatever memory holds), every tone that the
  stages of the pipeline leave in a packet buffer is within 8 units of the tone that
  \<open>GenerateData\<close> of the plain build computes from the same payload on the same floating-point unit: one
  has its phases in \<open>float\<close> and multiplies with AVX2, the other has them in \<open>double\<close>. What the buffer,
  the arrays and the bytes behind them held before does not matter.\<close>

theorem pipeline_agrees:
  assumes "setup_ok P" "8 dvd frame_syms (glob P) * n_dbps (mcs_table_for_20M (glob P))"
    and "heap_ok (glob P) h" "behind h \<noteq> []" "rows_ge (frame_syms (glob P) * 256) csd0" "roomy OFF15 m"
  shows "\<exists>b bs out. Option.bind (read_P P m) (all_stages P) = Some b
    \<and> area b 0 (4096 * frame_syms (glob P)) = Some bs
    \<and> GenerateData (fp_unit P) (ccodedot11_init (replicate 128 0)) h (glob P) (payload P) csd0 = Some (Inr out)
    \<and> (\<forall>tx < N_STS. \<forall>q < frame_syms (glob P). \<forall>j < 256.
        near 8 (bytes_cpxs bs ! (tx * (256 * frame_syms (glob P)) + (q * 256 + j))) (out ! tx ! (j + q * 256)))"
proof -
  let ?g = "glob P" and ?D = "payload P"
  have six: "six_bit_setting ?g" "dotscale ?g = 13" "length ?D = APEP_LEN ?g" "float_unit (fp_unit P)"
    using assms(1) by (simp_all add: setup_ok_def)
  note par = six_bit_params [OF six(1)]
  have fmt: "subcar ?g = 256" "N_tone ?g = 242" "N_pilot ?g = 8" using six(1) by (simp_all add: six_bit_setting_def)
  obtain b rest old bs rows where r: "Option.bind (read_P P m) (all_stages P) = Some b" "area b 0 (4096 * frame_syms ?g) = Some bs"
    "rest \<noteq> []" "row_len ?g * N_STS + 24 \<le> length old"
    "BCC_encoder code_table ?g (scrambled ?g ?D @ rest) (scr_len ?g) (frame_syms ?g)
      (replicate N_STS (replicate (row_len ?g) 0)) (row_len ?g) old (replicate N_STS (replicate (row_len ?g) 0)) = Some rows"
    "\<And>tx q j. tx < N_STS \<Longrightarrow> q < frame_syms ?g \<Longrightarrow> j < 256 \<Longrightarrow>
      near 4 (bytes_cpxs bs ! (tx * (256 * frame_syms ?g) + (q * 256 + j)))
        (multForComplex32 13 (tone_value ?g rows tx q j) (expComlex32 (fp_unit P) 13 (heltf_phase (fp_unit P) tx) (int j - 128)))"
    by (rule stages_rows [OF assms(1,6)]) (rule that)
  obtain rows' out where G: "BCC_encoder code_table ?g (scrambled ?g ?D @ behind h) (scr_len ?g) (frame_syms ?g) (code_mem h) (row_len ?g)
      (output_mem h) (parser_mem h) = Some rows'" "GenerateData (fp_unit P) code_table h ?g ?D csd0 = Some (Inr out)"
    "\<forall>tx < N_STS. \<forall>q < frame_syms ?g. \<forall>j < 256. out ! tx ! (j + q * 256)
        = multForComplex32 (dotscale ?g) (tone_value ?g rows' tx q j) (data_exp (fp_unit P) (data_phase (fp_unit P) tx) (int j - 128))"
    using generate_run [OF par(1,2) fmt assms(3) six(3) assms(5,4)] by blast
  have long: "scr_len ?g + 1 \<le> length (scrambled ?g ?D @ xs)" if "xs \<noteq> []" for xs
    using that length_ref [OF scr_len_eq [OF par(2)]] unfolding scrambled_def by (cases xs) simp_all
  have ok: "row_len ?g * N_STS + 24 \<le> length (output_mem h)" "rows_ge (row_len ?g) (parser_mem h)" "rows_ge (row_len ?g) (code_mem h)"
    using assms(3) by (simp_all add: heap_ok_def)
  have R: "rows_ge (row_len ?g) (replicate N_STS (replicate (row_len ?g) (0 :: byte)))" by (simp add: rows_ge_def)
  note same = rows_of_bits [OF par(2) frame_bits_same [OF par(2) assms(2)] long [OF r(3)] r(4) R R long [OF assms(4)] ok r(5) G(1)]
  have "near 8 (bytes_cpxs bs ! (tx * (256 * frame_syms ?g) + (q * 256 + j))) (out ! tx ! (j + q * 256))"
    if t: "tx < N_STS" "q < frame_syms ?g" "j < 256" for tx q j
  proof -
    have "out ! tx ! (j + q * 256) = multForComplex32 13 (tone_value ?g rows tx q j) (data_exp (fp_unit P) (data_phase (fp_unit P) tx) (int j - 128))"
      using G(3) t tone_value_cong [OF par(1,2) t(2,3), of rows tx rows'] same [OF t(1)] six(2) by simp
    then show ?thesis
      using r(6) [OF t] phases_near [OF six(4,1) t(1,3), of rows q] unfolding near_def by simp linarith
  qed
  then show ?thesis unfolding code_table_def [symmetric] using r(1,2) G(2) by blast
qed

theorem pipeline_agrees_witness:
  "\<exists>b bs out. Option.bind (read_P default_setup (rte_pktmbuf_init BUF30)) (all_stages default_setup) = Some b
    \<and> area b 0 8192 = Some bs
    \<and> GenerateData ieee (ccodedot11_init (replicate 128 0)) small_heap globals0 (replicate 512 7) (replicate 4 (replicate 512 (cpx 0 0))) = Some (Inr out)
    \<and> near 8 (bytes_cpxs bs ! 812) (out ! 1 ! 300)"
proof -
  have d: "glob default_setup = globals0" "payload default_setup = replicate 512 7" "fp_unit default_setup = ieee" by (simp_all add: default_setup_def)
  have e: "8 dvd frame_syms globals0 * n_dbps (mcs_table_for_20M globals0)"
    by (simp add: setting_globals0 globals0_def mcs_table_for_20M_def mcs_tabs param_simps)
  have c: "rows_ge (frame_syms globals0 * 256) (replicate 4 (replicate 512 (cpx 0 0)))"
    by (simp add: rows_ge_def N_STS_def setting_globals0)
  have h: "behind small_heap \<noteq> []" by (simp add: small_heap_def)
  have m: "roomy OFF15 (rte_pktmbuf_init BUF30)" using roomy_init15 [of default_setup] by (simp add: holds_def)
  from pipeline_agrees [OF default_setup_ok, unfolded d, OF e small_heap_ok h c m] obtain b bs out where
    a: "Option.bind (read_P default_setup (rte_pktmbuf_init BUF30)) (all_stages default_setup) = Some b"
      "area b 0 (4096 * frame_syms globals0) = Some bs"
      "GenerateData ieee (ccodedot11_init (replicate 128 0)) small_heap globals0 (replicate 512 7) (replicate 4 (replicate 512 (cpx 0 0))) = Some (Inr out)"
    and t: "\<forall>tx < N_STS. \<forall>q < frame_syms globals0. \<forall>j < 256.
        near 8 (bytes_cpxs bs ! (tx * (256 * frame_syms globals0) + (q * 256 + j))) (out ! tx ! (j + q * 256))" by blast
  have "near 8 (bytes_cpxs bs ! (1 * (256 * 2) + (1 * 256 + 44))) (out ! 1 ! (44 + 1 * 256))"
    using t [rule_format, of 1 1 44] by (simp add: N_STS_def setting_globals0)
  then show ?thesis using a by (auto simp: setting_globals0)
qed

end
