(* ===== verification/Mbuf.thy ===== *)
theory Mbuf
  imports Startup
begin

text \<open>
  Packet buffers as objects of memory: \<^verbatim>\<open>librte_mbuf\<close> of the DPDK copy, allocation, reference
  counts, attachment, freeing and cloning. The state has all headers by their address, the bytes of
  memory, and the pools by their address with the private data of each. An attached (indirect)
  buffer borrows the bytes of another, whose reference count says so; the invariant of this
  theory is that a buffer lies in its pool exactly when nobody refers to it any more. The stages
  of the transmitter see one buffer at a time, with its bytes; \<open>view\<close> is that buffer.
\<close>

section \<open>Headers, memory and pools\<close>

record mbuf = mbuf_header +
  buf_addr :: nat
  buf_physaddr :: nat
  hash :: "64 word"
  pool :: nat
  next_seg :: "nat option"
  priv_size :: int16

record rte_pktmbuf_pool_private =
  mbuf_data_room_size :: int16
  mbuf_priv_size :: int16

text \<open>\<open>phys\<close> is the physical address that the pool keeps in front of an element.\<close>

record mbuf_heap =
  mbufs :: "nat \<Rightarrow> mbuf"
  ram :: "nat \<Rightarrow> byte"
  pools :: "nat \<Rightarrow> nat rte_mempool"
  privs :: "nat \<Rightarrow> rte_pktmbuf_pool_private"
  phys :: "nat \<Rightarrow> nat"

definition upd :: "nat \<Rightarrow> (mbuf \<Rightarrow> mbuf) \<Rightarrow> mbuf_heap \<Rightarrow> mbuf_heap" where
  "upd m f h = h\<lparr>mbufs := (mbufs h)(m := f (mbufs h m))\<rparr>"

definition rte_mempool_virt2phy :: "nat \<Rightarrow> mbuf_heap \<Rightarrow> nat" where
  "rte_mempool_virt2phy m h = phys h m"

definition IND_ATTACHED_MBUF :: "64 word" where
  "IND_ATTACHED_MBUF = push_bit 62 1"

definition CTRL_MBUF_FLAG :: "64 word" where
  "CTRL_MBUF_FLAG = push_bit 63 1"

definition RTE_MBUF_INDIRECT :: "mbuf \<Rightarrow> bool" where
  "RTE_MBUF_INDIRECT b \<longleftrightarrow> ol_flags b AND IND_ATTACHED_MBUF \<noteq> 0"

definition RTE_MBUF_DIRECT :: "mbuf \<Rightarrow> bool" where
  "RTE_MBUF_DIRECT b \<longleftrightarrow> \<not> RTE_MBUF_INDIRECT b"

definition rte_is_ctrlmbuf :: "mbuf \<Rightarrow> bool" where
  "rte_is_ctrlmbuf b \<longleftrightarrow> ol_flags b AND CTRL_MBUF_FLAG \<noteq> 0"

definition rte_pktmbuf_data_room_size :: "nat \<Rightarrow> mbuf_heap \<Rightarrow> int16" where
  "rte_pktmbuf_data_room_size mp h = mbuf_data_room_size (privs h mp)"

definition rte_pktmbuf_priv_size :: "nat \<Rightarrow> mbuf_heap \<Rightarrow> int16" where
  "rte_pktmbuf_priv_size mp h = mbuf_priv_size (privs h mp)"

text \<open>The owner of the bytes of an indirect buffer, and the bytes a buffer owns itself.\<close>

definition rte_mbuf_from_indirect :: "mbuf \<Rightarrow> nat" where
  "rte_mbuf_from_indirect b = buf_addr b - (sizeof_rte_mbuf + unat (priv_size b))"

definition rte_mbuf_to_baddr :: "nat \<Rightarrow> mbuf_heap \<Rightarrow> nat" where
  "rte_mbuf_to_baddr m h = m + sizeof_rte_mbuf + unat (rte_pktmbuf_priv_size (pool (mbufs h m)) h)"

definition rte_mbuf_data_dma_addr :: "mbuf \<Rightarrow> nat" where
  "rte_mbuf_data_dma_addr b = buf_physaddr b + unat (data_off b)"

definition rte_mbuf_data_dma_addr_default :: "mbuf \<Rightarrow> nat" where
  "rte_mbuf_data_dma_addr_default b = buf_physaddr b + unat RTE_PKTMBUF_HEADROOM"

section \<open>Construction\<close>

text \<open>\<open>elt\<close> is the element size of the pool.\<close>

definition pktmbuf_pool_init :: "nat \<Rightarrow> rte_pktmbuf_pool_private option \<Rightarrow> rte_pktmbuf_pool_private" where
  "pktmbuf_pool_init elt opaque_arg =
     (case opaque_arg of
        Some user \<Rightarrow> user
      | None \<Rightarrow> \<lparr>mbuf_data_room_size = (if sizeof_rte_mbuf < elt then of_nat (elt - sizeof_rte_mbuf) else 0),
          mbuf_priv_size = 0\<rparr>)"

definition memset :: "nat \<Rightarrow> byte \<Rightarrow> nat \<Rightarrow> (nat \<Rightarrow> byte) \<Rightarrow> nat \<Rightarrow> byte" where
  "memset p v n bytes = (\<lambda>a. if p \<le> a \<and> a < p + n then v else bytes a)"

definition pktmbuf_init :: "nat \<Rightarrow> nat \<Rightarrow> mbuf_heap \<Rightarrow> mbuf_heap" where
  "pktmbuf_init mp m h =
     (let priv = rte_pktmbuf_priv_size mp h;
          len = rte_pktmbuf_data_room_size mp h;
          mbuf_size = sizeof_rte_mbuf + unat priv
      in h\<lparr>ram := memset m 0 (elt_size (pools h mp)) (ram h),
           mbufs := (mbufs h)(m :=
             \<lparr>buf_len = len, data_off = min RTE_PKTMBUF_HEADROOM len, refcnt = 0, nb_segs = 1, port = 0xff,
              ol_flags = 0, packet_type = 0, pkt_len = 0, data_len = 0, vlan_tci = 0, vlan_tci_outer = 0,
              tx_offload = 0, buf_addr = m + mbuf_size, buf_physaddr = rte_mempool_virt2phy m h + mbuf_size,
              hash = 0, pool = mp, next_seg = None, priv_size = priv\<rparr>)\<rparr>)"

definition rte_ctrlmbuf_init :: "nat \<Rightarrow> nat \<Rightarrow> mbuf_heap \<Rightarrow> mbuf_heap" where
  "rte_ctrlmbuf_init mp m h =
     upd m (\<lambda>b. b\<lparr>ol_flags := ol_flags b OR CTRL_MBUF_FLAG\<rparr>) (pktmbuf_init mp m h)"

section \<open>Reference counts\<close>

definition rte_mbuf_refcnt_read :: "nat \<Rightarrow> mbuf_heap \<Rightarrow> int16" where
  "rte_mbuf_refcnt_read m h = refcnt (mbufs h m)"

definition rte_mbuf_refcnt_set :: "nat \<Rightarrow> int16 \<Rightarrow> mbuf_heap \<Rightarrow> mbuf_heap" where
  "rte_mbuf_refcnt_set m v h = upd m (\<lambda>b. b\<lparr>refcnt := v\<rparr>) h"

definition rte_mbuf_refcnt_update :: "nat \<Rightarrow> int16 \<Rightarrow> mbuf_heap \<Rightarrow> int16 \<times> mbuf_heap" where
  "rte_mbuf_refcnt_update m v h =
     (if rte_mbuf_refcnt_read m h = 1 then (1 + v, rte_mbuf_refcnt_set m (1 + v) h)
      else let r = rte_mbuf_refcnt_read m h + v in (r, rte_mbuf_refcnt_set m r h))"

section \<open>The checks of the build\<close>

text \<open>The configuration sets \<open>RTE_LIBRTE_MBUF_DEBUG\<close>, so that most operations check a header they are given or leave
  behind; a failed check ends the program, with the message in \<open>Inl\<close>. An operation with a failed check is
  \<open>None\<close>. The assertions \<open>RTE_ASSERT\<close> are empty at the log level of the configuration.\<close>

fun count_segs :: "mbuf_heap \<Rightarrow> nat option \<Rightarrow> nat \<Rightarrow> nat" where
  "count_segs h mo 0 = 0"
| "count_segs h mo (Suc n) = (case mo of None \<Rightarrow> Suc n | Some m \<Rightarrow> count_segs h (next_seg (mbufs h m)) n)"

definition rte_mbuf_sanity_check :: "nat option \<Rightarrow> bool \<Rightarrow> mbuf_heap \<Rightarrow> string + unit" where
  "rte_mbuf_sanity_check mo is_header h =
     (case mo of
        None \<Rightarrow> Inl ''mbuf is NULL''
      | Some m \<Rightarrow>
          (let b = mbufs h m
           in if pool b = 0 then Inl ''bad mbuf pool''
              else if buf_physaddr b = 0 then Inl ''bad phys addr''
              else if buf_addr b = 0 then Inl ''bad virt addr''
              else let cnt = rte_mbuf_refcnt_read m h
                   in if cnt = 0 \<or> cnt = - 1 then Inl ''bad ref cnt''
                      else if \<not> is_header then Inr ()
                      else if count_segs h (Some m) (unat (nb_segs b)) \<noteq> 0 then Inl ''bad nb_segs'' else Inr ()))"

definition checked :: "nat option \<Rightarrow> bool \<Rightarrow> mbuf_heap \<Rightarrow> 'a option \<Rightarrow> 'a option" where
  "checked mo is_header h r = (case rte_mbuf_sanity_check mo is_header h of Inl e \<Rightarrow> None | Inr _ \<Rightarrow> r)"

section \<open>Allocation and freeing of one buffer\<close>

text \<open>\<open>l\<close> is the core that makes the call.\<close>

definition rte_mbuf_raw_alloc :: "nat \<Rightarrow> nat \<Rightarrow> mbuf_heap \<Rightarrow> (nat option \<times> mbuf_heap) option" where
  "rte_mbuf_raw_alloc l mp h =
     (case rte_mempool_get l (pools h mp) of
        None \<Rightarrow> None
      | Some (ret, xs, p) \<Rightarrow>
          (let h = h\<lparr>pools := (pools h)(mp := p)\<rparr>
           in if ret < 0 then Some (None, h)
              else let h = rte_mbuf_refcnt_set (hd xs) 1 h in checked (Some (hd xs)) False h (Some (Some (hd xs), h))))"

definition rte_mbuf_raw_free :: "nat \<Rightarrow> nat \<Rightarrow> mbuf_heap \<Rightarrow> mbuf_heap option" where
  "rte_mbuf_raw_free l m h =
     (let mp = pool (mbufs h m)
      in map_option (\<lambda>p. h\<lparr>pools := (pools h)(mp := p)\<rparr>) (rte_mempool_put m l (pools h mp)))"

definition pktmbuf_reset :: "nat \<Rightarrow> mbuf_heap \<Rightarrow> mbuf_heap option" where
  "pktmbuf_reset m h =
     (let h = upd m (\<lambda>b. rte_pktmbuf_reset (b\<lparr>next_seg := None\<rparr>)) h in checked (Some m) True h (Some h))"

definition rte_pktmbuf_alloc :: "nat \<Rightarrow> nat \<Rightarrow> mbuf_heap \<Rightarrow> (nat option \<times> mbuf_heap) option" where
  "rte_pktmbuf_alloc l mp h =
     (case rte_mbuf_raw_alloc l mp h of
        None \<Rightarrow> None
      | Some (None, h) \<Rightarrow> Some (None, h)
      | Some (Some m, h) \<Rightarrow> map_option (Pair (Some m)) (pktmbuf_reset m h))"

text \<open>The unwound loop of the allocation in bulk.\<close>

fun reset_all :: "nat list \<Rightarrow> mbuf_heap \<Rightarrow> mbuf_heap option" where
  "reset_all [] h = Some h"
| "reset_all (m # ms) h = Option.bind (pktmbuf_reset m (rte_mbuf_refcnt_set m 1 h)) (reset_all ms)"

definition rte_pktmbuf_alloc_bulk :: "nat \<Rightarrow> nat \<Rightarrow> nat \<Rightarrow> mbuf_heap \<Rightarrow> (int \<times> nat list \<times> mbuf_heap) option" where
  "rte_pktmbuf_alloc_bulk l mp n h =
     (case rte_mempool_get_bulk n l (pools h mp) of
        None \<Rightarrow> None
      | Some (ret, xs, p) \<Rightarrow>
          (let h = h\<lparr>pools := (pools h)(mp := p)\<rparr>
           in if ret \<noteq> 0 then Some (ret, xs, h) else map_option (\<lambda>h. (0, xs, h)) (reset_all xs h)))"

text \<open>What an attachment writes, and the attachment with its checks.\<close>

definition attach_fields :: "nat \<Rightarrow> nat \<Rightarrow> mbuf_heap \<Rightarrow> mbuf_heap" where
  "attach_fields mi m h =
     (let md = (if RTE_MBUF_DIRECT (mbufs h m) then m else rte_mbuf_from_indirect (mbufs h m));
          h = snd (rte_mbuf_refcnt_update md 1 h);
          b = mbufs h m
      in upd mi (\<lambda>i. i\<lparr>priv_size := priv_size b, buf_physaddr := buf_physaddr b, buf_addr := buf_addr b,
           buf_len := buf_len b, data_off := data_off b, data_len := data_len b, port := port b,
           vlan_tci := vlan_tci b, vlan_tci_outer := vlan_tci_outer b, tx_offload := tx_offload b, hash := hash b,
           next_seg := None, pkt_len := ucast (data_len b), nb_segs := 1,
           ol_flags := ol_flags b OR IND_ATTACHED_MBUF, packet_type := packet_type b\<rparr>) h)"

definition rte_pktmbuf_attach :: "nat \<Rightarrow> nat \<Rightarrow> mbuf_heap \<Rightarrow> mbuf_heap option" where
  "rte_pktmbuf_attach mi m h =
     (let h = attach_fields mi m h in checked (Some mi) True h (checked (Some m) False h (Some h)))"

definition rte_pktmbuf_detach :: "nat \<Rightarrow> nat \<Rightarrow> mbuf_heap \<Rightarrow> mbuf_heap option" where
  "rte_pktmbuf_detach l m h =
     (let md = rte_mbuf_from_indirect (mbufs h m);
          mp = pool (mbufs h m);
          priv = rte_pktmbuf_priv_size mp h;
          mbuf_size = sizeof_rte_mbuf + unat priv;
          len = rte_pktmbuf_data_room_size mp h;
          h = upd m (\<lambda>b. b\<lparr>priv_size := priv, buf_addr := m + mbuf_size,
                buf_physaddr := rte_mempool_virt2phy m h + mbuf_size, buf_len := len,
                data_off := min RTE_PKTMBUF_HEADROOM len, data_len := 0, ol_flags := 0\<rparr>) h;
          (r, h) = rte_mbuf_refcnt_update md (- 1) h
      in if r = 0 then rte_mbuf_raw_free l md h else Some h)"

definition rte_pktmbuf_prefree_seg :: "nat \<Rightarrow> nat \<Rightarrow> mbuf_heap \<Rightarrow> (nat option \<times> mbuf_heap) option" where
  "rte_pktmbuf_prefree_seg l m h =
     checked (Some m) False h
       (let (r, h) = rte_mbuf_refcnt_update m (- 1) h
        in if r = 0
           then map_option (Pair (Some m)) (if RTE_MBUF_INDIRECT (mbufs h m) then rte_pktmbuf_detach l m h else Some h)
           else Some (None, h))"

definition rte_pktmbuf_free_seg :: "nat \<Rightarrow> nat \<Rightarrow> mbuf_heap \<Rightarrow> mbuf_heap option" where
  "rte_pktmbuf_free_seg l m h =
     (case rte_pktmbuf_prefree_seg l m h of
        None \<Rightarrow> None
      | Some (None, h) \<Rightarrow> Some h
      | Some (Some m, h) \<Rightarrow> rte_mbuf_raw_free l m (upd m (\<lambda>b. b\<lparr>next_seg := None\<rparr>) h))"

section \<open>Packets of several segments\<close>

text \<open>A list of segments that runs in a circle would never be freed: \<open>None\<close>.\<close>

partial_function (option) free_segs :: "nat \<Rightarrow> nat option \<Rightarrow> mbuf_heap \<Rightarrow> mbuf_heap option" where
  "free_segs l mo h =
     (case mo of
        None \<Rightarrow> Some h
      | Some m \<Rightarrow>
          (let m_next = next_seg (mbufs h m)
           in Option.bind (rte_pktmbuf_free_seg l m h) (free_segs l m_next)))"

definition rte_pktmbuf_free :: "nat \<Rightarrow> nat option \<Rightarrow> mbuf_heap \<Rightarrow> mbuf_heap option" where
  "rte_pktmbuf_free l mo h = checked mo True h (free_segs l mo h)"

definition set_next :: "nat \<Rightarrow> nat option \<Rightarrow> mbuf_heap \<Rightarrow> mbuf_heap" where
  "set_next m v h = upd m (\<lambda>b. b\<lparr>next_seg := v\<rparr>) h"

text \<open>The loop of \<open>rte_pktmbuf_clone\<close>: \<open>prev\<close> is the buffer whose link is set next; the result is
  \<open>mi\<close> after the loop, \<open>prev\<close>, \<open>nseg\<close> and the state.\<close>

partial_function (option) clone_loop ::
  "nat \<Rightarrow> nat \<Rightarrow> nat \<Rightarrow> nat \<Rightarrow> nat \<Rightarrow> byte \<Rightarrow> mbuf_heap \<Rightarrow> (nat option \<times> nat \<times> byte \<times> mbuf_heap) option" where
  "clone_loop l mp md mi prev nseg h =
     Option.bind (rte_pktmbuf_attach mi md h) (\<lambda>h.
       let nseg = nseg + 1;
           h = set_next prev (Some mi) h
       in case next_seg (mbufs h md) of
            None \<Rightarrow> Some (Some mi, mi, nseg, h)
          | Some md \<Rightarrow> Option.bind (rte_pktmbuf_alloc l mp h) (\<lambda>(r, h). case r of
              None \<Rightarrow> Some (None, mi, nseg, h)
            | Some mi' \<Rightarrow> clone_loop l mp md mi' mi nseg h))"

definition rte_pktmbuf_clone :: "nat \<Rightarrow> nat \<Rightarrow> nat \<Rightarrow> mbuf_heap \<Rightarrow> (nat option \<times> mbuf_heap) option" where
  "rte_pktmbuf_clone l mp md h =
     Option.bind (rte_pktmbuf_alloc l mp h) (\<lambda>(r, h). case r of
       None \<Rightarrow> Some (None, h)
     | Some mc \<Rightarrow>
         (let pktlen = pkt_len (mbufs h md)
          in Option.bind (clone_loop l mp md mc mc 0 h) (\<lambda>(mi, prev, nseg, h).
               let h = upd mc (\<lambda>b. b\<lparr>nb_segs := nseg, pkt_len := pktlen\<rparr>) (set_next prev None h)
               in case mi of
                    None \<Rightarrow> map_option (Pair None) (rte_pktmbuf_free l (Some mc) h)
                  | Some _ \<Rightarrow> checked (Some mc) True h (Some (Some mc, h)))))"

partial_function (option) update_segs :: "nat \<Rightarrow> int16 \<Rightarrow> mbuf_heap \<Rightarrow> mbuf_heap option" where
  "update_segs m v h =
     (let h = snd (rte_mbuf_refcnt_update m v h)
      in case next_seg (mbufs h m) of None \<Rightarrow> Some h | Some m \<Rightarrow> update_segs m v h)"

definition pktmbuf_refcnt_update :: "nat \<Rightarrow> int16 \<Rightarrow> mbuf_heap \<Rightarrow> mbuf_heap option" where
  "pktmbuf_refcnt_update m v h = checked (Some m) True h (update_segs m v h)"

section \<open>The invariant of the references\<close>

text \<open>What the invariant reads of a header.\<close>

definition core :: "mbuf \<Rightarrow> int16 \<times> bool \<times> nat \<times> nat \<times> int16 \<times> int16 \<times> nat" where
  "core b = (refcnt b, RTE_MBUF_INDIRECT b, buf_addr b, buf_physaddr b, buf_len b, priv_size b, pool b)"

definition attached :: "mbuf_heap \<Rightarrow> nat \<Rightarrow> nat \<Rightarrow> bool" where
  "attached h i m \<longleftrightarrow> RTE_MBUF_INDIRECT (mbufs h i) \<and> rte_mbuf_from_indirect (mbufs h i) = m"

definition borrowers :: "nat set \<Rightarrow> mbuf_heap \<Rightarrow> nat \<Rightarrow> nat set" where
  "borrowers U h m = {i \<in> U. attached h i m}"

text \<open>A direct buffer describes its own bytes.\<close>

definition at_home :: "mbuf_heap \<Rightarrow> nat \<Rightarrow> bool" where
  "at_home h m \<longleftrightarrow>
     (let b = mbufs h m; priv = rte_pktmbuf_priv_size (pool b) h
      in priv_size b = priv \<and> buf_addr b = m + (sizeof_rte_mbuf + unat priv)
         \<and> buf_physaddr b = phys h m + (sizeof_rte_mbuf + unat priv)
         \<and> buf_len b = rte_pktmbuf_data_room_size (pool b) h)"

text \<open>\<open>U\<close> is the set of all buffers, \<open>H\<close> the references the clients hold, \<open>X\<close> the buffers a call
  is about to give back.\<close>

definition counts_ok :: "nat set \<Rightarrow> nat set \<Rightarrow> nat multiset \<Rightarrow> mbuf_heap \<Rightarrow> bool" where
  "counts_ok U X H h \<longleftrightarrow> set_mset H \<subseteq> U
     \<and> (\<forall>m \<in> U. unat (refcnt (mbufs h m)) = count H m + card (borrowers U h m))
     \<and> (\<forall>i \<in> U. RTE_MBUF_INDIRECT (mbufs h i) \<longrightarrow> (i \<in># H \<or> i \<in> X)
          \<and> rte_mbuf_from_indirect (mbufs h i) \<in> U \<and> RTE_MBUF_DIRECT (mbufs h (rte_mbuf_from_indirect (mbufs h i))))
     \<and> (\<forall>m \<in> U. RTE_MBUF_DIRECT (mbufs h m) \<longrightarrow> at_home h m)"

text \<open>The pools the buffers come from.\<close>

definition homes :: "nat set \<Rightarrow> mbuf_heap \<Rightarrow> nat set" where
  "homes U h = (\<lambda>m. pool (mbufs h m)) ` U"

definition pools_ok :: "nat set \<Rightarrow> nat set \<Rightarrow> mbuf_heap \<Rightarrow> bool" where
  "pools_ok U F h \<longleftrightarrow> F \<subseteq> U \<and> (\<forall>p \<in> homes U h. pool_ok (pools h p) \<and> pool_objs (pools h p) = mset_set {m \<in> F. pool (mbufs h m) = p}
     \<and> card {m \<in> U. pool (mbufs h m) = p} \<le> mp_size (pools h p))"

definition unused :: "nat set \<Rightarrow> mbuf_heap \<Rightarrow> nat set" where
  "unused U h = {m \<in> U. refcnt (mbufs h m) = 0}"

text \<open>What the checks ask of a header, apart from its being in use and its links.\<close>

definition sound :: "mbuf \<Rightarrow> bool" where
  "sound b \<longleftrightarrow> pool b \<noteq> 0 \<and> buf_physaddr b \<noteq> 0 \<and> buf_addr b \<noteq> 0 \<and> refcnt b \<noteq> - 1"

definition refs_ok :: "nat set \<Rightarrow> nat set \<Rightarrow> nat multiset \<Rightarrow> mbuf_heap \<Rightarrow> bool" where
  "refs_ok U X H h \<longleftrightarrow> finite U \<and> counts_ok U X H h \<and> pools_ok U (unused U h - X) h \<and> (\<forall>m \<in> U. sound (mbufs h m))"

lemma check_passes:
  assumes "sound (mbufs h m)" "refcnt (mbufs h m) \<noteq> 0" "is_header \<Longrightarrow> count_segs h (Some m) (unat (nb_segs (mbufs h m))) = 0"
  shows "checked (Some m) is_header h r = r"
  using assms by (simp add: checked_def rte_mbuf_sanity_check_def rte_mbuf_refcnt_read_def sound_def Let_def)

lemma check_single:
  assumes "sound (mbufs h m)" "refcnt (mbufs h m) \<noteq> 0" "nb_segs (mbufs h m) = 1"
  shows "checked (Some m) is_header h r = r"
  by (rule check_passes [OF assms(1,2)]) (simp add: assms(3))

lemma upd_simps [simp]:
  "mbufs (upd m f h) = (mbufs h)(m := f (mbufs h m))" "ram (upd m f h) = ram h" "pools (upd m f h) = pools h"
  "privs (upd m f h) = privs h" "phys (upd m f h) = phys h"
  by (simp_all add: upd_def)

lemma refcnt_update_eq:
  "rte_mbuf_refcnt_update m v h = (refcnt (mbufs h m) + v, rte_mbuf_refcnt_set m (refcnt (mbufs h m) + v) h)"
  by (simp add: rte_mbuf_refcnt_update_def rte_mbuf_refcnt_read_def Let_def)

lemma refcnt_set_simps [simp]:
  "mbufs (rte_mbuf_refcnt_set m v h) = (mbufs h)(m := mbufs h m\<lparr>refcnt := v\<rparr>)"
  "ram (rte_mbuf_refcnt_set m v h) = ram h" "pools (rte_mbuf_refcnt_set m v h) = pools h"
  "privs (rte_mbuf_refcnt_set m v h) = privs h" "phys (rte_mbuf_refcnt_set m v h) = phys h"
  by (simp_all add: rte_mbuf_refcnt_set_def)

lemma coreD:
  assumes "core b = core b'"
  shows "refcnt b = refcnt b'" "RTE_MBUF_INDIRECT b = RTE_MBUF_INDIRECT b'" "buf_addr b = buf_addr b'"
    "buf_physaddr b = buf_physaddr b'" "buf_len b = buf_len b'" "priv_size b = priv_size b'" "pool b = pool b'"
    "rte_mbuf_from_indirect b = rte_mbuf_from_indirect b'" "RTE_MBUF_DIRECT b = RTE_MBUF_DIRECT b'"
  using assms by (auto simp: core_def rte_mbuf_from_indirect_def RTE_MBUF_DIRECT_def)

lemma refs_ok_core:
  assumes "\<And>a. core (mbufs h' a) = core (mbufs h a)" "pools h' = pools h" "privs h' = privs h" "phys h' = phys h"
  shows "refs_ok U X H h' = refs_ok U X H h"
proof -
  note c = coreD [OF assms(1)]
  have "borrowers U h' = borrowers U h" by (simp add: borrowers_def attached_def fun_eq_iff c)
  moreover have "at_home h' = at_home h"
    by (simp add: at_home_def fun_eq_iff Let_def c rte_pktmbuf_priv_size_def rte_pktmbuf_data_room_size_def assms(3,4))
  ultimately have "counts_ok U X H h' = counts_ok U X H h" by (simp add: counts_ok_def c)
  moreover have "unused U h' = unused U h" by (simp add: unused_def c)
  ultimately show ?thesis by (simp add: refs_ok_def pools_ok_def homes_def sound_def c assms(2))
qed

lemma refs_okD:
  assumes "refs_ok U X H h"
  shows "finite U" "set_mset H \<subseteq> U" "m \<in> U \<Longrightarrow> unat (refcnt (mbufs h m)) = count H m + card (borrowers U h m)"
    "i \<in> U \<Longrightarrow> RTE_MBUF_INDIRECT (mbufs h i) \<Longrightarrow> i \<in># H \<or> i \<in> X"
    "i \<in> U \<Longrightarrow> RTE_MBUF_INDIRECT (mbufs h i) \<Longrightarrow> rte_mbuf_from_indirect (mbufs h i) \<in> U"
    "i \<in> U \<Longrightarrow> RTE_MBUF_INDIRECT (mbufs h i) \<Longrightarrow> RTE_MBUF_DIRECT (mbufs h (rte_mbuf_from_indirect (mbufs h i)))"
    "m \<in> U \<Longrightarrow> RTE_MBUF_DIRECT (mbufs h m) \<Longrightarrow> at_home h m"
    "pools_ok U (unused U h - X) h" "finite (borrowers U h m)" "m \<in> U \<Longrightarrow> sound (mbufs h m)"
  using assms by (auto simp: refs_ok_def counts_ok_def borrowers_def)

lemma no_borrowers:
  assumes "refs_ok U X H h" "m \<in> U" "RTE_MBUF_INDIRECT (mbufs h m)"
  shows "borrowers U h m = {}"
  using refs_okD(6) [OF assms(1)] assms(3) by (auto simp: borrowers_def attached_def RTE_MBUF_DIRECT_def)

lemma pools_okD:
  assumes "pools_ok U F h"
  shows "F \<subseteq> U" "p \<in> homes U h \<Longrightarrow> pool_ok (pools h p)"
    "p \<in> homes U h \<Longrightarrow> pool_objs (pools h p) = mset_set {m \<in> F. pool (mbufs h m) = p}"
    "p \<in> homes U h \<Longrightarrow> card {m \<in> U. pool (mbufs h m) = p} \<le> mp_size (pools h p)"
  using assms by (auto simp: pools_ok_def)

lemma pools_ok_same:
  assumes "\<And>a. pool (mbufs h' a) = pool (mbufs h a)" "pools h' = pools h"
  shows "pools_ok U F h' = pools_ok U F h"
  by (simp add: pools_ok_def homes_def assms)

text \<open>Dropping a reference.\<close>

lemma unat_dec: "w \<noteq> 0 \<Longrightarrow> Suc (unat (w - 1 :: int16)) = unat w"
  by (simp add: unat_minus_one unat_gt_0)

lemma borrowers_core:
  assumes "\<And>a. RTE_MBUF_INDIRECT (mbufs h' a) = RTE_MBUF_INDIRECT (mbufs h a)"
    "\<And>a. rte_mbuf_from_indirect (mbufs h' a) = rte_mbuf_from_indirect (mbufs h a)"
  shows "borrowers U h' m = borrowers U h m"
  by (simp add: borrowers_def attached_def assms)

lemma refcnt_only:
  "RTE_MBUF_INDIRECT (b\<lparr>refcnt := v\<rparr>) = RTE_MBUF_INDIRECT b" "RTE_MBUF_DIRECT (b\<lparr>refcnt := v\<rparr>) = RTE_MBUF_DIRECT b"
  "rte_mbuf_from_indirect (b\<lparr>refcnt := v\<rparr>) = rte_mbuf_from_indirect b"
  by (simp_all add: RTE_MBUF_INDIRECT_def RTE_MBUF_DIRECT_def rte_mbuf_from_indirect_def)

lemma set_refcnt_facts:
  shows "borrowers U (rte_mbuf_refcnt_set m v h) a = borrowers U h a"
    "at_home (rte_mbuf_refcnt_set m v h) a = at_home h a"
    "RTE_MBUF_INDIRECT (mbufs (rte_mbuf_refcnt_set m v h) a) = RTE_MBUF_INDIRECT (mbufs h a)"
    "RTE_MBUF_DIRECT (mbufs (rte_mbuf_refcnt_set m v h) a) = RTE_MBUF_DIRECT (mbufs h a)"
    "rte_mbuf_from_indirect (mbufs (rte_mbuf_refcnt_set m v h) a) = rte_mbuf_from_indirect (mbufs h a)"
    "refcnt (mbufs (rte_mbuf_refcnt_set m v h) a) = (if a = m then v else refcnt (mbufs h a))"
    "pool (mbufs (rte_mbuf_refcnt_set m v h) a) = pool (mbufs h a)"
  by (auto simp: borrowers_def attached_def at_home_def Let_def refcnt_only rte_pktmbuf_priv_size_def
      rte_pktmbuf_data_room_size_def)

lemma drop_ref:
  assumes "refs_ok U X H h" "m \<in># H" "m \<notin> X"
  defines "r \<equiv> refcnt (mbufs h m) + - 1"
  shows "refs_ok U (if r = 0 then insert m X else X) (H - {#m#}) (rte_mbuf_refcnt_set m r h)" (is "refs_ok U ?X ?H ?h")
    and "r = 0 \<Longrightarrow> borrowers U h m = {}"
proof -
  note g = refs_okD [OF assms(1)]
  have m: "m \<in> U" using g(2) assms(2) by auto
  have pos: "0 < count H m" using assms(2) by simp
  have rc: "unat (refcnt (mbufs h m)) = count H m + card (borrowers U h m)" by (rule g(3) [OF m])
  then have nz: "refcnt (mbufs h m) \<noteq> 0" using pos by (metis add_is_0 less_numeral_extra(3) unat_0)
  then have r: "unat r + 1 = count H m + card (borrowers U h m)" using rc unat_dec [OF nz] by (simp add: r_def)
  show b0: "borrowers U h m = {}" if "r = 0"
  proof -
    have "count H m + card (borrowers U h m) = 1" using r that by simp
    then have "card (borrowers U h m) = 0" using pos by linarith
    then show ?thesis using g(9) [of m] by simp
  qed
  have sub: "set_mset ?H \<subseteq> U" using g(2) by (meson in_diffD subset_iff)
  have cnt: "unat (refcnt (mbufs ?h a)) = count ?H a + card (borrowers U ?h a)" if "a \<in> U" for a
    using g(3) [OF that] r pos by (cases "a = m") (simp_all only: set_refcnt_facts, simp_all)
  have ind: "(i \<in># ?H \<or> i \<in> ?X) \<and> rte_mbuf_from_indirect (mbufs ?h i) \<in> U
      \<and> RTE_MBUF_DIRECT (mbufs ?h (rte_mbuf_from_indirect (mbufs ?h i)))"
    if "i \<in> U" "RTE_MBUF_INDIRECT (mbufs ?h i)" for i
  proof -
    have i: "RTE_MBUF_INDIRECT (mbufs h i)" using that(2) by (simp only: set_refcnt_facts)
    have "i \<in># ?H \<or> i \<in> ?X"
    proof (cases "i = m")
      case True
      have "count ?H m = unat r" using r pos no_borrowers [OF assms(1) m] i True by simp
      then show ?thesis using True by (cases "r = 0") (auto simp: unat_gt_0 simp flip: count_greater_zero_iff)
    next
      case False
      then show ?thesis using g(4) [OF that(1) i] by (auto simp: in_diff_count)
    qed
    then show ?thesis using g(5,6) [OF that(1) i] by (simp only: set_refcnt_facts simp_thms)
  qed
  have "unused U ?h - ?X = unused U h - X"
    using nz by (auto simp: unused_def)
  moreover have "pools_ok U F ?h = pools_ok U F h" for F
    by (rule pools_ok_same) simp_all
  ultimately have "pools_ok U (unused U ?h - ?X) ?h" using g(8) by simp
  moreover have "sound (mbufs ?h a)" if "a \<in> U" for a
    using g(10) [OF that] nz by (auto simp: sound_def r_def)
  ultimately show "refs_ok U ?X ?H ?h"
    unfolding refs_ok_def counts_ok_def
    using g(1,7) sub cnt ind by (simp add: set_refcnt_facts del: refcnt_set_simps)
qed

text \<open>Giving a buffer back.\<close>

lemma raw_free:
  assumes "refs_ok U X H h" "m \<in> X" "m \<in> U" "refcnt (mbufs h m) = 0" "RTE_MBUF_DIRECT (mbufs h m)"
  shows "\<exists>p. rte_mbuf_raw_free l m h = Some (h\<lparr>pools := (pools h)(pool (mbufs h m) := p)\<rparr>)
    \<and> refs_ok U (X - {m}) H (h\<lparr>pools := (pools h)(pool (mbufs h m) := p)\<rparr>)"
proof -
  note g = refs_okD [OF assms(1)]
  let ?p = "pool (mbufs h m)" and ?F = "unused U h - X"
  note f = pools_okD [OF g(8)]
  have home: "?p \<in> homes U h" using assms(3) by (simp add: homes_def)
  have fin: "finite {a \<in> U. pool (mbufs h a) = p}" "finite {a \<in> ?F. pool (mbufs h a) = p}" for p
    using g(1) by (auto simp: unused_def)
  have "{a \<in> ?F. pool (mbufs h a) = ?p} \<subset> {a \<in> U. pool (mbufs h a) = ?p}"
    using assms(2,3) by (auto simp: unused_def)
  then have "card {a \<in> ?F. pool (mbufs h a) = ?p} < card {a \<in> U. pool (mbufs h a) = ?p}"
    using fin(1) psubset_card_mono by blast
  then have "size (pool_objs (pools h ?p)) < mp_size (pools h ?p)"
    using f(4) [OF home] by (simp add: f(3) [OF home] order_less_le_trans)
  then obtain p where p: "rte_mempool_put m l (pools h ?p) = Some p" "pool_ok p"
    "pool_objs p = add_mset m (pool_objs (pools h ?p))" "mp_size p = mp_size (pools h ?p)"
    using mempool.put_one [OF f(2) [OF home]] by metis
  let ?h = "h\<lparr>pools := (pools h)(?p := p)\<rparr>"
  have "{a \<in> insert m ?F. pool (mbufs h a) = ?p} = insert m {a \<in> ?F. pool (mbufs h a) = ?p}" by auto
  then have "mset_set {a \<in> insert m ?F. pool (mbufs h a) = ?p} = add_mset m (mset_set {a \<in> ?F. pool (mbufs h a) = ?p})"
    using fin(2) [of ?p] assms(2) by (simp add: mset_set.insert)
  moreover have "{a \<in> insert m ?F. pool (mbufs h a) = q} = {a \<in> ?F. pool (mbufs h a) = q}" if "q \<noteq> ?p" for q
    using that by auto
  ultimately have "pools_ok U (insert m ?F) ?h"
    using f assms(3) p(2-4) unfolding pools_ok_def homes_def by simp
  moreover have "unused U ?h - (X - {m}) = insert m ?F" using assms(2-4) by (auto simp: unused_def)
  moreover have "counts_ok U (X - {m}) H ?h"
  proof -
    have "borrowers U ?h a = borrowers U h a" "at_home ?h a = at_home h a" for a
      by (auto simp: borrowers_def attached_def at_home_def Let_def rte_pktmbuf_priv_size_def rte_pktmbuf_data_room_size_def)
    moreover have "i \<in> X \<longleftrightarrow> i \<in> X - {m}" if "RTE_MBUF_INDIRECT (mbufs h i)" for i
      using that assms(5) by (auto simp: RTE_MBUF_DIRECT_def)
    ultimately show ?thesis using assms(1) by (auto simp: refs_ok_def counts_ok_def)
  qed
  ultimately show ?thesis using g(1,10) p(1) by (auto simp: refs_ok_def rte_mbuf_raw_free_def Let_def)
qed

text \<open>Taking a buffer from the pool.\<close>

definition fresh_mbuf :: "mbuf \<Rightarrow> mbuf" where
  "fresh_mbuf b = rte_pktmbuf_reset (b\<lparr>refcnt := 1, next_seg := None\<rparr>)"

lemma fresh_simps [simp]:
  "refcnt (fresh_mbuf b) = 1" "ol_flags (fresh_mbuf b) = 0" "buf_addr (fresh_mbuf b) = buf_addr b"
  "buf_physaddr (fresh_mbuf b) = buf_physaddr b" "buf_len (fresh_mbuf b) = buf_len b" "pool (fresh_mbuf b) = pool b"
  "priv_size (fresh_mbuf b) = priv_size b" "next_seg (fresh_mbuf b) = None" "data_len (fresh_mbuf b) = 0"
  "pkt_len (fresh_mbuf b) = 0" "nb_segs (fresh_mbuf b) = 1"
  by (simp_all add: fresh_mbuf_def rte_pktmbuf_reset_def)

lemma direct_0: "ol_flags b = 0 \<Longrightarrow> RTE_MBUF_DIRECT b" "ol_flags b = 0 \<Longrightarrow> \<not> RTE_MBUF_INDIRECT b"
  by (simp_all add: RTE_MBUF_DIRECT_def RTE_MBUF_INDIRECT_def)

text \<open>Buffers leave the pool, and are then handed to the client one by one.\<close>

lemma leave_pool:
  assumes "refs_ok U {} H h" "mp \<in> homes U h" "pool_ok p" "pool_objs (pools h mp) = mset xs + pool_objs p"
    and "mp_size p = mp_size (pools h mp)"
  shows "refs_ok U (set xs) H (h\<lparr>pools := (pools h)(mp := p)\<rparr>)" (is "refs_ok U _ H ?h")
    and "distinct xs" "x \<in> set xs \<Longrightarrow> x \<in> U \<and> refcnt (mbufs h x) = 0 \<and> pool (mbufs h x) = mp"
proof -
  note g = refs_okD [OF assms(1)]
  note f = pools_okD [OF g(8)]
  let ?F = "{a \<in> unused U h. pool (mbufs h a) = mp}"
  have fin: "finite ?F" using g(1) by (simp add: unused_def)
  have all: "mset xs + pool_objs p = mset_set ?F" using f(3) [OF assms(2)] assms(4) by simp
  have sub: "set xs \<subseteq> ?F"
  proof
    fix x
    assume "x \<in> set xs"
    then have "x \<in># mset xs + pool_objs p" by simp
    then show "x \<in> ?F" unfolding all using fin by simp
  qed
  then show x: "x \<in> U \<and> refcnt (mbufs h x) = 0 \<and> pool (mbufs h x) = mp" if "x \<in> set xs" for x
    using that by (auto simp: unused_def)
  have "count (mset xs) x \<le> 1" for x
  proof -
    have "count (mset xs + pool_objs p) x \<le> 1" unfolding all by (simp add: count_mset_set')
    then show ?thesis by simp
  qed
  then show d: "distinct xs" by (metis One_nat_def count_mset_0_iff distinct_count_atmost_1 le_Suc_eq le_zero_eq not_gr_zero count_greater_zero_iff set_mset_mset)
  have objs: "pool_objs p = mset_set (?F - set xs)"
  proof -
    have "pool_objs p = mset_set ?F - mset xs" using all by (metis add_diff_cancel_left')
    also have "mset xs = mset_set (set xs)" using d by (simp add: mset_set_set)
    finally show ?thesis using mset_set_Diff [OF fin sub] by simp
  qed
  have "{a \<in> unused U h - set xs. pool (mbufs h a) = mp} = ?F - set xs" by auto
  moreover have "{a \<in> unused U h - set xs. pool (mbufs h a) = q} = {a \<in> unused U h. pool (mbufs h a) = q}" if "q \<noteq> mp" for q
    using that x by auto
  moreover have "unused U h - set xs \<subseteq> U" by (auto simp: unused_def)
  ultimately have "pools_ok U (unused U h - set xs) ?h"
    unfolding pools_ok_def using f assms(2,3,5) objs by (auto simp: homes_def)
  moreover have "counts_ok U (set xs) H ?h"
  proof -
    have "borrowers U ?h a = borrowers U h a" "at_home ?h a = at_home h a" for a
      by (auto simp: borrowers_def attached_def at_home_def Let_def rte_pktmbuf_priv_size_def rte_pktmbuf_data_room_size_def)
    then show ?thesis using assms(1) by (auto simp: refs_ok_def counts_ok_def)
  qed
  moreover have "unused U ?h = unused U h" by (simp add: unused_def)
  ultimately show "refs_ok U (set xs) H ?h" using g(1,10) by (simp add: refs_ok_def)
qed

text \<open>A buffer in transit whose count is zero refers to nothing.\<close>

lemma idle:
  assumes "refs_ok U {} H h" "m \<in> U" "refcnt (mbufs h m) = 0"
  shows "m \<notin># H" "borrowers U h m = {}" "RTE_MBUF_DIRECT (mbufs h m)"
proof -
  note g = refs_okD [OF assms(1)]
  have z: "count H m = 0" "card (borrowers U h m) = 0" using g(3) [OF assms(2)] assms(3) by simp_all
  then show "borrowers U h m = {}" "m \<notin># H" using g(9) by (simp_all add: not_in_iff)
  then show "RTE_MBUF_DIRECT (mbufs h m)" using g(4) [OF assms(2)] by (auto simp: RTE_MBUF_DIRECT_def)
qed

lemma adopt:
  assumes "refs_ok U X H h" "m \<in> X" "m \<in> U" "refcnt (mbufs h m) = 0" "RTE_MBUF_DIRECT (mbufs h m)"
  shows "refs_ok U (X - {m}) (add_mset m H) (h\<lparr>mbufs := (mbufs h)(m := fresh_mbuf (mbufs h m))\<rparr>)"
    (is "refs_ok U _ ?H ?h")
proof -
  note g = refs_okD [OF assms(1)]
  note f = pools_okD [OF g(8)]
  have z: "count H m = 0" "card (borrowers U h m) = 0" using g(3) [OF assms(3)] assms(4) by simp_all
  note d = assms(5)
  have att: "attached ?h i a = attached h i a" if "i \<in> U" for i a
    using d by (simp add: attached_def direct_0 RTE_MBUF_DIRECT_def)
  have bor: "borrowers U ?h a = borrowers U h a" for a using att by (auto simp: borrowers_def)
  have home: "at_home ?h a = at_home h a" for a
    by (simp add: at_home_def Let_def rte_pktmbuf_priv_size_def rte_pktmbuf_data_room_size_def)
  have dir: "RTE_MBUF_DIRECT (mbufs ?h a) = RTE_MBUF_DIRECT (mbufs h a)"
    "RTE_MBUF_INDIRECT (mbufs ?h a) = RTE_MBUF_INDIRECT (mbufs h a)" for a
    using d by (auto simp: RTE_MBUF_DIRECT_def direct_0)
  have own: "rte_mbuf_from_indirect (mbufs ?h a) = rte_mbuf_from_indirect (mbufs h a)" for a
    by (simp add: rte_mbuf_from_indirect_def)
  have cnt: "unat (refcnt (mbufs ?h a)) = count ?H a + card (borrowers U ?h a)" if "a \<in> U" for a
    using g(3) [OF that] z by (cases "a = m") (simp_all add: bor)
  have "counts_ok U (X - {m}) ?H ?h"
    unfolding counts_ok_def dir own home using g(2,4-7) assms(3) cnt by (auto simp: subset_iff)
  moreover have "unused U ?h - (X - {m}) = unused U h - X"
    using assms(2) by (auto simp: unused_def)
  moreover have "pools_ok U F ?h = pools_ok U F h" for F by (rule pools_ok_same) simp_all
  moreover have "sound (mbufs ?h a)" if "a \<in> U" for a
    using g(10) [OF that] by (auto simp: sound_def)
  ultimately show ?thesis using g(1,8) by (simp add: refs_ok_def)
qed

text \<open>The checks of a new buffer pass.\<close>

lemma reset_runs:
  assumes "sound (mbufs h m)" "refcnt (mbufs h m) \<noteq> 0"
  shows "pktmbuf_reset m h = Some (upd m (\<lambda>b. rte_pktmbuf_reset (b\<lparr>next_seg := None\<rparr>)) h)"
  unfolding pktmbuf_reset_def Let_def
  by (rule check_single) (use assms in \<open>simp_all add: sound_def rte_pktmbuf_reset_def\<close>)

lemma raw_alloc_runs:
  assumes "rte_mempool_get l (pools h mp) = Some (0, [m], p)" "sound (mbufs h m)"
  shows "rte_mbuf_raw_alloc l mp h = Some (Some m, h\<lparr>pools := (pools h)(mp := p), mbufs := (mbufs h)(m := (mbufs h m)\<lparr>refcnt := 1\<rparr>)\<rparr>)"
proof -
  let ?h = "rte_mbuf_refcnt_set m 1 (h\<lparr>pools := (pools h)(mp := p)\<rparr>)"
  have "checked (Some m) False ?h r = r" for r :: "(nat option \<times> mbuf_heap) option"
    by (rule check_passes) (use assms(2) in \<open>simp_all add: sound_def\<close>)
  then show ?thesis by (simp add: rte_mbuf_raw_alloc_def assms(1) Let_def rte_mbuf_refcnt_set_def upd_def)
qed

lemma alloc_runs:
  assumes "rte_mempool_get l (pools h mp) = Some (0, [m], p)" "sound (mbufs h m)"
  shows "rte_pktmbuf_alloc l mp h = Some (Some m, h\<lparr>pools := (pools h)(mp := p), mbufs := (mbufs h)(m := fresh_mbuf (mbufs h m))\<rparr>)"
proof -
  let ?h = "h\<lparr>pools := (pools h)(mp := p), mbufs := (mbufs h)(m := (mbufs h m)\<lparr>refcnt := 1\<rparr>)\<rparr>"
  have "sound (mbufs ?h m)" "refcnt (mbufs ?h m) \<noteq> 0" using assms(2) by (simp_all add: sound_def)
  from reset_runs [OF this] show ?thesis
    by (simp add: rte_pktmbuf_alloc_def raw_alloc_runs [OF assms] upd_def fresh_mbuf_def)
qed

lemma take_out:
  assumes "refs_ok U {} H h" "mp \<in> homes U h" "pool_ok p" "pool_objs (pools h mp) = add_mset m (pool_objs p)"
    and "mp_size p = mp_size (pools h mp)"
  shows "refs_ok U {} (add_mset m H) (h\<lparr>pools := (pools h)(mp := p), mbufs := (mbufs h)(m := fresh_mbuf (mbufs h m))\<rparr>)"
    and "m \<in> U" "refcnt (mbufs h m) = 0" "pool (mbufs h m) = mp"
    and "m \<notin># H" "borrowers U h m = {}" "RTE_MBUF_DIRECT (mbufs h m)"
proof -
  have "pool_objs (pools h mp) = mset [m] + pool_objs p" using assms(4) by simp
  note t = leave_pool [OF assms(1-3) this assms(5)]
  show m: "m \<in> U" "refcnt (mbufs h m) = 0" "pool (mbufs h m) = mp" using t(3) [of m] by simp_all
  note i = idle [OF assms(1) m(1,2)]
  show "m \<notin># H" "borrowers U h m = {}" "RTE_MBUF_DIRECT (mbufs h m)" by (fact i)+
  show "refs_ok U {} (add_mset m H) (h\<lparr>pools := (pools h)(mp := p), mbufs := (mbufs h)(m := fresh_mbuf (mbufs h m))\<rparr>)"
    using adopt [OF t(1), of m] m i(3) by simp
qed

lemma alloc:
  assumes "refs_ok U {} H h" "mp \<in> homes U h"
  obtains (none) "rte_pktmbuf_alloc l mp h = Some (None, h)"
  | (some) m p h' where "rte_pktmbuf_alloc l mp h = Some (Some m, h')"
      "h' = h\<lparr>pools := (pools h)(mp := p), mbufs := (mbufs h)(m := fresh_mbuf (mbufs h m))\<rparr>"
      "m \<in> U" "refcnt (mbufs h m) = 0" "pool (mbufs h m) = mp" "refs_ok U {} (add_mset m H) h'"
      "RTE_MBUF_DIRECT (mbufs h m)" "m \<notin># H" "borrowers U h m = {}"
proof -
  note f = pools_okD(2) [OF refs_okD(8) [OF assms(1)] assms(2)]
  show ?thesis
  proof (cases rule: mempool.get_cases [OF f, of l])
    case (1 m p)
    note t = take_out [OF assms 1(2-4)]
    show ?thesis
      by (rule some [OF alloc_runs [OF 1(1) refs_okD(10) [OF assms(1) t(2)]] refl t(2-4,1,7,5,6)])
  next
    case 2
    show ?thesis
      by (rule none) (simp add: rte_pktmbuf_alloc_def rte_mbuf_raw_alloc_def 2 ENOENT_def)
  qed
qed

text \<open>Several buffers at once.\<close>

lemma adopt_all:
  assumes "refs_ok U (set xs) H h" "distinct xs" "\<And>x. x \<in> set xs \<Longrightarrow> x \<in> U \<and> refcnt (mbufs h x) = 0 \<and> RTE_MBUF_DIRECT (mbufs h x)"
  shows "\<exists>h'. reset_all xs h = Some h' \<and> refs_ok U {} (H + mset xs) h' \<and> (\<forall>a. pool (mbufs h' a) = pool (mbufs h a))"
  using assms
proof (induction xs arbitrary: H h)
  case (Cons x xs)
  let ?h = "h\<lparr>mbufs := (mbufs h)(x := fresh_mbuf (mbufs h x))\<rparr>"
  let ?h1 = "rte_mbuf_refcnt_set x 1 h"
  have x: "sound (mbufs h x)" using refs_okD(10) [OF Cons.prems(1)] Cons.prems(3) [of x] by simp
  then have "sound (mbufs ?h1 x)" "refcnt (mbufs ?h1 x) \<noteq> 0" by (simp_all add: sound_def)
  from reset_runs [OF this] have e: "pktmbuf_reset x ?h1 = Some ?h"
    by (simp add: upd_def rte_mbuf_refcnt_set_def fresh_mbuf_def)
  have "refs_ok U (set (x # xs) - {x}) (add_mset x H) ?h"
    using adopt [OF Cons.prems(1), of x] Cons.prems(3) [of x] by simp
  moreover have "set (x # xs) - {x} = set xs" using Cons.prems(2) by auto
  ultimately have ok: "refs_ok U (set xs) (add_mset x H) ?h" by simp
  have "y \<in> U \<and> refcnt (mbufs ?h y) = 0 \<and> RTE_MBUF_DIRECT (mbufs ?h y)" if "y \<in> set xs" for y
    using Cons.prems(3) [of y] Cons.prems(2) that by auto
  from Cons.IH [OF ok _ this] Cons.prems(2) obtain h' where
    "reset_all xs ?h = Some h'" "refs_ok U {} (add_mset x H + mset xs) h'" "\<forall>a. pool (mbufs h' a) = pool (mbufs ?h a)" by auto
  then show ?case by (simp add: e)
qed simp

lemma alloc_bulk:
  assumes "refs_ok U {} H h" "mp \<in> homes U h" "0 < n" "n < 2 ^ 31"
  shows "\<exists>ret xs h'. rte_pktmbuf_alloc_bulk l mp n h = Some (ret, xs, h') \<and> (\<forall>a. pool (mbufs h' a) = pool (mbufs h a))
    \<and> (ret = 0 \<and> length xs = n \<and> refs_ok U {} (H + mset xs) h' \<or> ret < 0 \<and> h' = h)"
proof -
  note f = pools_okD(2) [OF refs_okD(8) [OF assms(1)] assms(2)]
  from get_bulk [OF f assms(3,4), of l] show ?thesis
  proof (elim disjE conjE)
    assume "got n (pools h mp) (rte_mempool_get_bulk n l (pools h mp))"
    then obtain xs p where p: "rte_mempool_get_bulk n l (pools h mp) = Some (0, xs, p)" "length xs = n" "pool_ok p"
      "pool_objs (pools h mp) = mset xs + pool_objs p" "mp_size p = mp_size (pools h mp)"
      by (auto simp: got_def add.commute)
    let ?h = "h\<lparr>pools := (pools h)(mp := p)\<rparr>"
    note t = leave_pool [OF assms(1,2) p(3-5)]
    have "x \<in> U \<and> refcnt (mbufs ?h x) = 0 \<and> RTE_MBUF_DIRECT (mbufs ?h x)" if "x \<in> set xs" for x
      using t(3) [OF that] idle(3) [OF assms(1), of x] by simp
    from adopt_all [OF t(1,2) this] obtain h' where "reset_all xs ?h = Some h'" "refs_ok U {} (H + mset xs) h'"
      "\<forall>a. pool (mbufs h' a) = pool (mbufs ?h a)" by blast
    then show ?thesis using p(1,2) by (simp add: rte_pktmbuf_alloc_bulk_def Let_def)
  qed (auto simp: rte_pktmbuf_alloc_bulk_def Let_def ENOENT_def)
qed

text \<open>Attaching a buffer to another.\<close>

definition owner :: "mbuf_heap \<Rightarrow> nat \<Rightarrow> nat" where
  "owner h m = (if RTE_MBUF_DIRECT (mbufs h m) then m else rte_mbuf_from_indirect (mbufs h m))"

lemma owner_addr:
  assumes "refs_ok U X H h" "m \<in> U"
  shows "rte_mbuf_from_indirect (mbufs h m) = owner h m" "owner h m \<in> U" "RTE_MBUF_DIRECT (mbufs h (owner h m))"
  using refs_okD(5-7) [OF assms(1,2)] assms(2)
  by (auto simp: owner_def RTE_MBUF_DIRECT_def at_home_def Let_def rte_mbuf_from_indirect_def)

lemma indirect_flag: "f OR IND_ATTACHED_MBUF = ol_flags b \<Longrightarrow> RTE_MBUF_INDIRECT b"
proof -
  assume "f OR IND_ATTACHED_MBUF = ol_flags b"
  then have "bit (ol_flags b) 62" by (simp add: IND_ATTACHED_MBUF_def bit_simps flip: \<open>_ = ol_flags b\<close>)
  then have "bit (ol_flags b AND IND_ATTACHED_MBUF) 62" by (simp add: IND_ATTACHED_MBUF_def bit_simps)
  then show ?thesis by (auto simp: RTE_MBUF_INDIRECT_def)
qed

lemma unat_inc: "unat w < 65535 \<Longrightarrow> unat (w + 1 :: int16) = Suc (unat w)"
  by (simp add: unat_word_ariths(1))

lemma owner_not_alone:
  assumes "refs_ok U {} H h" "mi \<in># H" "refcnt (mbufs h mi) = 1" "m \<in> U" "m \<noteq> mi"
  shows "owner h m \<noteq> mi" "borrowers U h mi = {}"
proof -
  note g = refs_okD [OF assms(1)]
  have "mi \<in> U" "0 < count H mi" using g(2) assms(2) by auto
  moreover from this have "1 = count H mi + card (borrowers U h mi)" using g(3) [of mi] assms(3) by simp
  ultimately have "card (borrowers U h mi) = 0" by linarith
  then show b: "borrowers U h mi = {}" using g(9) [of mi] by simp
  show "owner h m \<noteq> mi"
  proof
    assume "owner h m = mi"
    then have "m \<in> borrowers U h mi"
      using assms(4,5) by (auto simp: owner_def borrowers_def attached_def RTE_MBUF_DIRECT_def split: if_splits)
    then show False using b by simp
  qed
qed

definition borrowed :: "mbuf \<Rightarrow> mbuf \<Rightarrow> mbuf" where
  "borrowed b i = i\<lparr>priv_size := priv_size b, buf_physaddr := buf_physaddr b, buf_addr := buf_addr b,
     buf_len := buf_len b, data_off := data_off b, data_len := data_len b, port := port b,
     vlan_tci := vlan_tci b, vlan_tci_outer := vlan_tci_outer b, tx_offload := tx_offload b, hash := hash b,
     next_seg := None, pkt_len := ucast (data_len b), nb_segs := 1,
     ol_flags := ol_flags b OR IND_ATTACHED_MBUF, packet_type := packet_type b\<rparr>"

lemma borrowed_simps [simp]:
  "priv_size (borrowed b i) = priv_size b" "buf_addr (borrowed b i) = buf_addr b" "buf_physaddr (borrowed b i) = buf_physaddr b"
  "data_off (borrowed b i) = data_off b" "data_len (borrowed b i) = data_len b" "buf_len (borrowed b i) = buf_len b"
  "next_seg (borrowed b i) = None" "refcnt (borrowed b i) = refcnt i" "pool (borrowed b i) = pool i"
  "nb_segs (borrowed b i) = 1" "pkt_len (borrowed b i) = ucast (data_len b)"
  "RTE_MBUF_INDIRECT (borrowed b i)" "rte_mbuf_from_indirect (borrowed b i) = rte_mbuf_from_indirect b"
  using indirect_flag [of "ol_flags b" "borrowed b i"]
  by (simp_all add: borrowed_def rte_mbuf_from_indirect_def)

lemma attach_heap:
  assumes "owner h m \<noteq> mi"
  shows "attach_fields mi m h = h\<lparr>mbufs := (mbufs h)
    (owner h m := (mbufs h (owner h m))\<lparr>refcnt := refcnt (mbufs h (owner h m)) + 1\<rparr>,
     mi := borrowed (mbufs h m) (mbufs h mi))\<rparr>"
  using assms by (simp add: attach_fields_def refcnt_update_eq rte_mbuf_refcnt_set_def upd_def borrowed_def Let_def
      owner_def [symmetric] fun_eq_iff)

text \<open>The owner of a segment in use is in use.\<close>

lemma owner_counted:
  assumes "refs_ok U {} H h" "m \<in> U" "refcnt (mbufs h m) \<noteq> 0"
  shows "refcnt (mbufs h (owner h m)) \<noteq> 0"
proof (cases "owner h m = m")
  case False
  note g = refs_okD [OF assms(1)]
  have "m \<in> borrowers U h (owner h m)"
    using False assms(2) by (auto simp: owner_def borrowers_def attached_def RTE_MBUF_DIRECT_def split: if_splits)
  then have "card (borrowers U h (owner h m)) \<noteq> 0" using g(9) [of "owner h m"] by auto
  then show ?thesis using g(3) [OF owner_addr(2) [OF assms(1,2)]] by auto
qed (simp add: assms(3))

lemma attach:
  assumes "refs_ok U {} H h" "mi \<in># H" "RTE_MBUF_DIRECT (mbufs h mi)" "refcnt (mbufs h mi) = 1"
    and "m \<in> U" "m \<noteq> mi" "unat (refcnt (mbufs h (owner h m))) < 65534" "refcnt (mbufs h m) \<noteq> 0"
  shows "refs_ok U {} H (attach_fields mi m h)" (is "refs_ok U {} H ?h")
proof -
  note g = refs_okD [OF assms(1)]
  let ?md = "owner h m"
  have mi: "mi \<in> U" using g(2) assms(2) by auto
  have ne: "?md \<noteq> mi" and none: "borrowers U h mi = {}"
    using owner_not_alone [OF assms(1,2,4-6)] by simp_all
  note md = owner_addr [OF assms(1,5)]
  note h = attach_heap [OF ne]
  have b: "mbufs ?h = (mbufs h)(?md := (mbufs h ?md)\<lparr>refcnt := refcnt (mbufs h ?md) + 1\<rparr>,
      mi := borrowed (mbufs h m) (mbufs h mi))" by (simp add: h)
  have ind: "RTE_MBUF_INDIRECT (mbufs ?h a) \<longleftrightarrow> a = mi \<or> RTE_MBUF_INDIRECT (mbufs h a)" for a
    using ne by (simp add: b refcnt_only)
  have dir: "RTE_MBUF_DIRECT (mbufs ?h a) \<longleftrightarrow> a \<noteq> mi \<and> RTE_MBUF_DIRECT (mbufs h a)" for a
    by (simp add: RTE_MBUF_DIRECT_def ind)
  have own: "rte_mbuf_from_indirect (mbufs ?h a) = (if a = mi then ?md else rte_mbuf_from_indirect (mbufs h a))" for a
    using md(1) ne by (simp add: b refcnt_only)
  have bor: "borrowers U ?h a = (if a = ?md then insert mi (borrowers U h a) else borrowers U h a)" for a
    using mi assms(3) by (auto simp: borrowers_def attached_def ind own RTE_MBUF_DIRECT_def)
  have "mi \<notin> borrowers U h ?md" using assms(3) by (simp add: borrowers_def attached_def RTE_MBUF_DIRECT_def)
  then have card: "card (borrowers U ?h a) = card (borrowers U h a) + (if a = ?md then 1 else 0)" for a
    using g(9) by (simp add: bor)
  have rc: "unat (refcnt (mbufs ?h a)) = unat (refcnt (mbufs h a)) + (if a = ?md then 1 else 0)" for a
    using ne assms(7) by (simp add: b unat_inc)
  have home: "at_home ?h a = at_home h a" if "a \<noteq> mi" for a
    using that by (simp add: at_home_def Let_def b h rte_pktmbuf_priv_size_def rte_pktmbuf_data_room_size_def)
  have "(i \<in># H \<or> i \<in> {}) \<and> rte_mbuf_from_indirect (mbufs ?h i) \<in> U
      \<and> RTE_MBUF_DIRECT (mbufs ?h (rte_mbuf_from_indirect (mbufs ?h i)))"
    if "i \<in> U" "RTE_MBUF_INDIRECT (mbufs ?h i)" for i
  proof (cases "i = mi")
    case True
    then show ?thesis using md ne assms(2) by (simp add: own dir)
  next
    case False
    then have i: "RTE_MBUF_INDIRECT (mbufs h i)" using that(2) by (simp add: ind)
    have "rte_mbuf_from_indirect (mbufs h i) \<noteq> mi"
      using none that(1) i by (auto simp: borrowers_def attached_def)
    then show ?thesis using g(4-6) [OF that(1) i] False by (simp add: own dir)
  qed
  moreover have "unat (refcnt (mbufs ?h a)) = count H a + card (borrowers U ?h a)" if "a \<in> U" for a
    unfolding rc card using g(3) [OF that] by simp
  moreover have "at_home ?h a" if "a \<in> U" "RTE_MBUF_DIRECT (mbufs ?h a)" for a
    using that g(7) home by (simp add: dir)
  ultimately have "counts_ok U {} H ?h"
    unfolding counts_ok_def using g(2) by blast
  moreover have "unused U ?h = unused U h"
  proof -
    have "refcnt (mbufs ?h a) = 0 \<longleftrightarrow> refcnt (mbufs h a) = 0" if "a \<in> U" for a
    proof (cases "a = ?md")
      case True
      have "0 < unat (refcnt (mbufs h ?md))" using owner_counted [OF assms(1,5,8)] by (simp add: unat_gt_0)
      then show ?thesis using rc [of ?md] unfolding True word_unat_eq_iff unat_0 by simp
    next
      case False
      then show ?thesis using rc [of a] unfolding word_unat_eq_iff unat_0 by simp
    qed
    then show ?thesis by (auto simp: unused_def)
  qed
  moreover have "pools_ok U F ?h = pools_ok U F h" for F
    by (rule pools_ok_same) (auto simp: b h)
  moreover have "sound (mbufs ?h a)" if a: "a \<in> U" for a
  proof -
    have "refcnt (mbufs h ?md) + 1 \<noteq> - 1"
    proof
      assume "refcnt (mbufs h ?md) + 1 = - 1"
      then have "unat (refcnt (mbufs h ?md) + 1) = unat (- 1 :: int16)" by (rule arg_cong)
      moreover have "unat (- 1 :: int16) = 65535" by (simp add: unsigned_minus_1_eq_mask mask_eq_exp_minus_1)
      ultimately have "unat (refcnt (mbufs h ?md) + 1) = 65535" by (rule trans)
      then show False using unat_inc [of "refcnt (mbufs h ?md)"] assms(7) by simp
    qed
    then show ?thesis using g(10) [OF a] g(10) [OF mi] g(10) [OF assms(5)] ne by (auto simp: b sound_def)
  qed
  ultimately show ?thesis using g(1,8) by (simp add: refs_ok_def)
qed

text \<open>The checks of an attachment pass.\<close>

lemma attach_runs:
  assumes "refs_ok U {} H h" "mi \<in># H" "RTE_MBUF_DIRECT (mbufs h mi)" "refcnt (mbufs h mi) = 1"
    and "m \<in> U" "m \<noteq> mi" "unat (refcnt (mbufs h (owner h m))) < 65534" "refcnt (mbufs h m) \<noteq> 0"
  shows "rte_pktmbuf_attach mi m h = Some (attach_fields mi m h)"
proof -
  let ?h = "attach_fields mi m h"
  note g = refs_okD(10) [OF attach [OF assms]]
  have mi: "mi \<in> U" using refs_okD(2) [OF assms(1)] assms(2) by auto
  have ne: "owner h m \<noteq> mi" by (rule owner_not_alone(1) [OF assms(1,2,4-6)])
  have b: "mbufs ?h = (mbufs h)(owner h m := (mbufs h (owner h m))\<lparr>refcnt := refcnt (mbufs h (owner h m)) + 1\<rparr>,
      mi := borrowed (mbufs h m) (mbufs h mi))" by (simp add: attach_heap [OF ne])
  have "unat (refcnt (mbufs h (owner h m)) + 1) = Suc (unat (refcnt (mbufs h (owner h m))))"
    by (rule unat_inc) (use assms(7) in simp)
  then have "refcnt (mbufs h (owner h m)) + 1 \<noteq> 0" by (metis nat.distinct(1) unat_0)
  then have m: "refcnt (mbufs ?h m) \<noteq> 0" using assms(6,8) by (cases "owner h m = m") (simp_all add: b)
  have c1: "checked (Some mi) True ?h r = r" for r :: "mbuf_heap option"
    by (rule check_single [OF g [OF mi]]) (simp_all add: b assms(4))
  have c2: "checked (Some m) False ?h r = r" for r :: "mbuf_heap option"
    by (rule check_passes [OF g [OF assms(5)] m]) simp
  show ?thesis by (simp add: rte_pktmbuf_attach_def Let_def c1 c2)
qed

text \<open>Detaching.\<close>

definition homed :: "nat \<Rightarrow> mbuf_heap \<Rightarrow> mbuf" where
  "homed m h =
     (let mp = pool (mbufs h m); priv = rte_pktmbuf_priv_size mp h; len = rte_pktmbuf_data_room_size mp h
      in (mbufs h m)\<lparr>priv_size := priv, buf_addr := m + (sizeof_rte_mbuf + unat priv),
           buf_physaddr := phys h m + (sizeof_rte_mbuf + unat priv), buf_len := len,
           data_off := min RTE_PKTMBUF_HEADROOM len, data_len := 0, ol_flags := 0\<rparr>)"

lemma homed_simps [simp]:
  "refcnt (homed m h) = refcnt (mbufs h m)" "pool (homed m h) = pool (mbufs h m)"
  "next_seg (homed m h) = next_seg (mbufs h m)" "RTE_MBUF_DIRECT (homed m h)" "\<not> RTE_MBUF_INDIRECT (homed m h)"
  by (simp_all add: homed_def Let_def direct_0)

lemma drop_borrower:
  assumes "refs_ok U X H h" "m \<in> U" "RTE_MBUF_INDIRECT (mbufs h m)"
  defines "md \<equiv> rte_mbuf_from_indirect (mbufs h m)" and "r \<equiv> refcnt (mbufs h (rte_mbuf_from_indirect (mbufs h m))) + - 1"
  assumes "md \<notin> X"
  shows "refs_ok U (if r = 0 then insert md X else X) H
      (h\<lparr>mbufs := (mbufs h)(m := homed m h, md := (mbufs h md)\<lparr>refcnt := r\<rparr>)\<rparr>)" (is "refs_ok U ?X H ?h")
    and "md \<in> U" "md \<noteq> m" "RTE_MBUF_DIRECT (mbufs h md)"
proof -
  note g = refs_okD [OF assms(1)]
  show md: "md \<in> U" and d: "RTE_MBUF_DIRECT (mbufs h md)" using g(5,6) [OF assms(2,3)] by (simp_all add: md_def)
  then show ne: "md \<noteq> m" using assms(3) by (auto simp: RTE_MBUF_DIRECT_def)
  have ind: "RTE_MBUF_INDIRECT (mbufs ?h a) \<longleftrightarrow> a \<noteq> m \<and> RTE_MBUF_INDIRECT (mbufs h a)" for a
    using ne by (simp add: refcnt_only)
  have dir: "RTE_MBUF_DIRECT (mbufs ?h a) \<longleftrightarrow> a = m \<or> RTE_MBUF_DIRECT (mbufs h a)" for a
    by (simp only: RTE_MBUF_DIRECT_def ind) auto
  have own: "rte_mbuf_from_indirect (mbufs ?h a) = rte_mbuf_from_indirect (mbufs h a)" if "a \<noteq> m" for a
    using that by (simp add: refcnt_only)
  have mb: "m \<in> borrowers U h md" using assms(2,3) by (simp add: borrowers_def attached_def md_def)
  have bor: "borrowers U ?h a = (if a = md then borrowers U h a - {m} else borrowers U h a)" for a
  proof -
    have "attached ?h i a \<longleftrightarrow> i \<noteq> m \<and> attached h i a" for i
      unfolding attached_def ind using own [of i] by (cases "i = m") simp_all
    then have "borrowers U ?h a = borrowers U h a - {m}"
      unfolding borrowers_def by blast
    moreover have "m \<in> borrowers U h a \<Longrightarrow> a = md" by (simp add: borrowers_def attached_def md_def)
    ultimately show ?thesis by auto
  qed
  have card: "card (borrowers U ?h a) + (if a = md then 1 else 0) = card (borrowers U h a)" for a
    unfolding bor using card_Suc_Diff1 [OF g(9) mb] by (cases "a = md") (metis Suc_eq_plus1, simp)
  have pos: "0 < card (borrowers U h md)" using mb g(9) [of md] by (auto simp: card_gt_0_iff)
  then have nz: "refcnt (mbufs h md) \<noteq> 0" using g(3) [OF md] by (metis add_is_0 less_numeral_extra(3) unat_0)
  have r: "r = refcnt (mbufs h md) - 1" by (simp add: r_def md_def)
  have rc: "unat (refcnt (mbufs ?h a)) + (if a = md then 1 else 0) = unat (refcnt (mbufs h a))" for a
    using ne unat_dec [OF nz] by (simp add: r)
  have cnt: "unat (refcnt (mbufs ?h a)) = count H a + card (borrowers U ?h a)" if "a \<in> U" for a
    using g(3) [OF that] card [of a] rc [of a] by linarith
  have home: "at_home ?h a" if "a \<in> U" "RTE_MBUF_DIRECT (mbufs ?h a)" for a
  proof (cases "a = m")
    case True
    then show ?thesis using ne
      by (simp add: at_home_def Let_def homed_def rte_pktmbuf_priv_size_def rte_pktmbuf_data_room_size_def)
  next
    case False
    then have "at_home h a" using that g(7) dir by blast
    then show ?thesis using False
      by (cases "a = md") (simp_all add: at_home_def Let_def rte_pktmbuf_priv_size_def rte_pktmbuf_data_room_size_def)
  qed
  have ind_ok: "(i \<in># H \<or> i \<in> ?X) \<and> rte_mbuf_from_indirect (mbufs ?h i) \<in> U
      \<and> RTE_MBUF_DIRECT (mbufs ?h (rte_mbuf_from_indirect (mbufs ?h i)))"
    if "i \<in> U" "RTE_MBUF_INDIRECT (mbufs ?h i)" for i
  proof -
    have i: "i \<noteq> m" "RTE_MBUF_INDIRECT (mbufs h i)" using that(2) ind by blast+
    then show ?thesis unfolding own [OF i(1)] dir using g(4-6) [OF that(1) i(2)] by auto
  qed
  have "counts_ok U ?X H ?h" unfolding counts_ok_def using g(2) cnt ind_ok home by blast
  moreover have "pools_ok U (unused U ?h - ?X) ?h"
  proof -
    have "unused U ?h - ?X = unused U h - X"
      using nz ne by (auto simp: unused_def)
    moreover have "pools_ok U F ?h = pools_ok U F h" for F by (rule pools_ok_same) auto
    ultimately show ?thesis using g(8) by simp
  qed
  moreover have "sound (mbufs ?h a)" if "a \<in> U" for a
    using g(10) [OF that] ne nz by (auto simp: sound_def r homed_def Let_def sizeof_rte_mbuf_def RTE_CACHE_LINE_SIZE_def)
  ultimately show "refs_ok U ?X H ?h" using g(1) by (simp add: refs_ok_def)
qed

text \<open>The same header up to the count of references.\<close>

definition recounted :: "mbuf \<Rightarrow> mbuf \<Rightarrow> bool" where
  "recounted b b' \<longleftrightarrow> b' = b\<lparr>refcnt := refcnt b'\<rparr>"

lemma recounted_set [simp]: "recounted b (b\<lparr>refcnt := v\<rparr>)" "recounted b b"
  by (simp_all add: recounted_def)

lemma recounted_trans: "recounted a b \<Longrightarrow> recounted b c \<Longrightarrow> recounted a c"
  unfolding recounted_def by (metis mbuf_header.update_convs(3) mbuf_header.surjective)

lemma recountedD:
  assumes "recounted b b'"
  shows "next_seg b' = next_seg b" "pool b' = pool b" "data_off b' = data_off b" "data_len b' = data_len b"
    "buf_addr b' = buf_addr b" "buf_len b' = buf_len b" "priv_size b' = priv_size b" "ol_flags b' = ol_flags b"
    "nb_segs b' = nb_segs b" "pkt_len b' = pkt_len b" "rte_mbuf_from_indirect b' = rte_mbuf_from_indirect b"
    "RTE_MBUF_INDIRECT b' = RTE_MBUF_INDIRECT b" "RTE_MBUF_DIRECT b' = RTE_MBUF_DIRECT b" "buf_physaddr b' = buf_physaddr b"
    "b\<lparr>refcnt := refcnt b'\<rparr> = b'"
proof -
  obtain v where v: "b' = b\<lparr>refcnt := v\<rparr>" using assms [unfolded recounted_def] by blast
  show "next_seg b' = next_seg b" "pool b' = pool b" "data_off b' = data_off b" "data_len b' = data_len b"
    "buf_addr b' = buf_addr b" "buf_len b' = buf_len b" "priv_size b' = priv_size b" "ol_flags b' = ol_flags b"
    "nb_segs b' = nb_segs b" "pkt_len b' = pkt_len b" "rte_mbuf_from_indirect b' = rte_mbuf_from_indirect b"
    "RTE_MBUF_INDIRECT b' = RTE_MBUF_INDIRECT b" "RTE_MBUF_DIRECT b' = RTE_MBUF_DIRECT b" "buf_physaddr b' = buf_physaddr b"
    "b\<lparr>refcnt := refcnt b'\<rparr> = b'"
    by (simp_all add: v refcnt_only)
qed

definition same_but :: "nat \<Rightarrow> mbuf_heap \<Rightarrow> mbuf_heap \<Rightarrow> bool" where
  "same_but m h h' \<longleftrightarrow> ram h' = ram h \<and> privs h' = privs h \<and> phys h' = phys h \<and> pool (mbufs h' m) = pool (mbufs h m)
     \<and> (\<forall>a. a \<noteq> m \<longrightarrow> recounted (mbufs h a) (mbufs h' a))"

lemma detach:
  assumes "refs_ok U X H h" "m \<in> U" "RTE_MBUF_INDIRECT (mbufs h m)" "rte_mbuf_from_indirect (mbufs h m) \<notin> X"
  obtains h' where "rte_pktmbuf_detach l m h = Some h'" "refs_ok U X H h'" "mbufs h' m = homed m h" "same_but m h h'"
proof -
  let ?md = "rte_mbuf_from_indirect (mbufs h m)"
  let ?r = "refcnt (mbufs h ?md) + - 1"
  let ?h = "h\<lparr>mbufs := (mbufs h)(m := homed m h, ?md := (mbufs h ?md)\<lparr>refcnt := ?r\<rparr>)\<rparr>"
  note d = drop_borrower [OF assms]
  have run: "rte_pktmbuf_detach l m h = (if ?r = 0 then rte_mbuf_raw_free l ?md ?h else Some ?h)"
    using d(3) by (simp add: rte_pktmbuf_detach_def refcnt_update_eq Let_def homed_def rte_mbuf_refcnt_set_def upd_def
        rte_mempool_virt2phy_def cong: if_cong)
  have same: "same_but m h ?h" by (simp add: same_but_def)
  show ?thesis
  proof (cases "?r = 0")
    case False
    show ?thesis by (rule that [OF _ _ _ same]) (use False d run in simp_all)
  next
    case True
    have "refs_ok U (insert ?md X) H ?h" using d(1) True by (simp only: if_True simp_thms)
    moreover have "refcnt (mbufs ?h ?md) = 0" "RTE_MBUF_DIRECT (mbufs ?h ?md)" using d(4) True by (simp_all add: refcnt_only)
    ultimately obtain p where p: "rte_mbuf_raw_free l ?md ?h = Some (?h\<lparr>pools := (pools ?h)(pool (mbufs ?h ?md) := p)\<rparr>)"
      "refs_ok U (insert ?md X - {?md}) H (?h\<lparr>pools := (pools ?h)(pool (mbufs ?h ?md) := p)\<rparr>)"
      using raw_free [of U "insert ?md X" H ?h ?md l] d(2) by blast
    have "insert ?md X - {?md} = X" using assms(4) by simp
    then have ok: "refs_ok U X H (?h\<lparr>pools := (pools ?h)(pool (mbufs ?h ?md) := p)\<rparr>)" using p(2) by simp
    have "rte_pktmbuf_detach l m h = Some (?h\<lparr>pools := (pools ?h)(pool (mbufs ?h ?md) := p)\<rparr>)"
      using p(1) run True by (simp only: if_True simp_thms)
    then show ?thesis
      by (rule that [OF _ ok]) (use d(3) in \<open>simp_all add: same_but_def\<close>)
  qed
qed

lemma held_live:
  assumes "refs_ok U {} H h" "s \<in># H"
  shows "s \<in> U" "refcnt (mbufs h s) \<noteq> 0"
proof -
  show "s \<in> U" using refs_okD(2) [OF assms(1)] assms(2) by auto
  then have "unat (refcnt (mbufs h s)) = count H s + card (borrowers U h s)" by (rule refs_okD(3) [OF assms(1)])
  moreover have "0 < count H s" using assms(2) by simp
  ultimately show "refcnt (mbufs h s) \<noteq> 0" by (metis add_is_0 less_numeral_extra(3) unat_0)
qed

lemma same_but_refl: "same_but m h h"
  by (simp add: same_but_def)

lemma free_seg:
  assumes "refs_ok U {} H h" "m \<in># H"
  obtains h' where "rte_pktmbuf_free_seg l m h = Some h'" "refs_ok U {} (H - {#m#}) h'" "same_but m h h'"
proof -
  have m: "m \<in> U" using refs_okD(2) [OF assms(1)] assms(2) by auto
  let ?r = "refcnt (mbufs h m) + - 1"
  let ?h = "rte_mbuf_refcnt_set m ?r h"
  note d = drop_ref [OF assms(1,2), simplified]
  have pre: "rte_pktmbuf_prefree_seg l m h = (if ?r = 0
      then map_option (Pair (Some m)) (if RTE_MBUF_INDIRECT (mbufs h m) then rte_pktmbuf_detach l m ?h else Some ?h)
      else Some (None, ?h))"
  proof -
    have "checked (Some m) False h r = r" for r :: "(nat option \<times> mbuf_heap) option"
      by (rule check_passes [OF refs_okD(10) [OF assms(1) m] held_live(2) [OF assms]]) simp
    then show ?thesis by (simp add: rte_pktmbuf_prefree_seg_def refcnt_update_eq refcnt_only cong: if_cong)
  qed
  have same: "same_but m h ?h" by (simp add: same_but_def)
  show ?thesis
  proof (cases "?r = 0")
    case False
    then show ?thesis using d(1) pre same by (intro that [of ?h]) (simp_all add: rte_pktmbuf_free_seg_def)
  next
    case True
    have ok: "refs_ok U {m} (H - {#m#}) ?h" using d(1) True by simp
    obtain h1 where h1: "rte_pktmbuf_prefree_seg l m h = Some (Some m, h1)" "refs_ok U {m} (H - {#m#}) h1"
      "RTE_MBUF_DIRECT (mbufs h1 m)" "refcnt (mbufs h1 m) = 0" "same_but m h h1"
    proof (cases "RTE_MBUF_INDIRECT (mbufs h m)")
      case False
      then show ?thesis
        by (intro that [OF _ ok _ _ same]) (use True in \<open>simp_all add: pre refcnt_only RTE_MBUF_DIRECT_def\<close>)
    next
      case ind: True
      then have i: "RTE_MBUF_INDIRECT (mbufs ?h m)" by (simp add: refcnt_only)
      have "rte_mbuf_from_indirect (mbufs ?h m) \<notin> {m}"
        using refs_okD(6) [OF ok m i] i by (auto simp: RTE_MBUF_DIRECT_def)
      from detach [OF ok m i this, of l] obtain h1 where
        h1: "rte_pktmbuf_detach l m ?h = Some h1" "refs_ok U {m} (H - {#m#}) h1" "mbufs h1 m = homed m ?h" "same_but m ?h h1"
        by metis
      show ?thesis
        by (rule that [of h1]) (use h1 ind True in \<open>simp_all add: pre same_but_def\<close>)
    qed
    let ?h1 = "upd m (\<lambda>b. b\<lparr>next_seg := None\<rparr>) h1"
    have c: "core (mbufs ?h1 a) = core (mbufs h1 a)" for a by (simp add: core_def RTE_MBUF_INDIRECT_def)
    have "refs_ok U {m} (H - {#m#}) ?h1"
      using h1(2) refs_ok_core [of ?h1 h1, OF c] by simp
    moreover have "refcnt (mbufs ?h1 m) = 0" "RTE_MBUF_DIRECT (mbufs ?h1 m)"
      using h1(3,4) coreD(9) [OF c, of m] by simp_all
    ultimately obtain p where p: "rte_mbuf_raw_free l m ?h1 = Some (?h1\<lparr>pools := (pools ?h1)(pool (mbufs ?h1 m) := p)\<rparr>)"
      "refs_ok U ({m} - {m}) (H - {#m#}) (?h1\<lparr>pools := (pools ?h1)(pool (mbufs ?h1 m) := p)\<rparr>)"
      using raw_free [of U "{m}" "H - {#m#}" ?h1 m l] m by blast
    have "rte_pktmbuf_free_seg l m h = Some (?h1\<lparr>pools := (pools ?h1)(pool (mbufs ?h1 m) := p)\<rparr>)"
      using p(1) h1(1) by (simp only: rte_pktmbuf_free_seg_def option.case prod.case)
    moreover have "refs_ok U {} (H - {#m#}) (?h1\<lparr>pools := (pools ?h1)(pool (mbufs ?h1 m) := p)\<rparr>)"
      using p(2) by (simp only: Diff_cancel)
    moreover have "same_but m h (?h1\<lparr>pools := (pools ?h1)(pool (mbufs ?h1 m) := p)\<rparr>)"
      using h1(5) by (simp add: same_but_def)
    ultimately show ?thesis by (rule that)
  qed
qed

section \<open>Packets\<close>

text \<open>The segments of a packet, from its first buffer to the end of the links.\<close>

fun linked :: "mbuf_heap \<Rightarrow> nat option \<Rightarrow> nat list \<Rightarrow> bool" where
  "linked h mo [] \<longleftrightarrow> mo = None"
| "linked h mo (m # ms) \<longleftrightarrow> mo = Some m \<and> linked h (next_seg (mbufs h m)) ms"

text \<open>No header of the list says that more segments follow than do.\<close>

fun segs_ok :: "mbuf_heap \<Rightarrow> nat list \<Rightarrow> bool" where
  "segs_ok h [] \<longleftrightarrow> True"
| "segs_ok h (m # ms) \<longleftrightarrow> unat (nb_segs (mbufs h m)) \<le> Suc (length ms) \<and> segs_ok h ms"

lemma segs_ok_same: "segs_ok h ms \<Longrightarrow> (\<And>m. m \<in> set ms \<Longrightarrow> nb_segs (mbufs h' m) = nb_segs (mbufs h m)) \<Longrightarrow> segs_ok h' ms"
  by (induction ms) auto

lemma segs_ok_ones: "(\<And>m. m \<in> set ms \<Longrightarrow> nb_segs (mbufs h m) = 1) \<Longrightarrow> segs_ok h ms"
  by (induction ms) auto

lemma count_segs_linked: "linked h mo ms \<Longrightarrow> n \<le> length ms \<Longrightarrow> count_segs h mo n = 0"
proof (induction n arbitrary: mo ms)
  case (Suc n)
  then show ?case by (cases ms) auto
qed simp

text \<open>The check of a header passes on a held packet that has as many segments as its header says.\<close>

lemma held_passes:
  assumes "refs_ok U {} H h" "m \<in># H" "linked h (Some m) ms" "unat (nb_segs (mbufs h m)) \<le> length ms"
  shows "checked (Some m) is_header h r = r"
  by (rule check_passes [OF refs_okD(10) [OF assms(1)]]) (use held_live [OF assms(1,2)] count_segs_linked [OF assms(3,4)] in simp_all)

lemma linked_same: "linked h mo ms \<Longrightarrow> (\<And>m. m \<in> set ms \<Longrightarrow> next_seg (mbufs h' m) = next_seg (mbufs h m)) \<Longrightarrow> linked h' mo ms"
  by (induction ms arbitrary: mo) auto

lemma same_but_next: "same_but m h h' \<Longrightarrow> a \<noteq> m \<Longrightarrow> next_seg (mbufs h' a) = next_seg (mbufs h a)"
  by (simp add: same_but_def recountedD(1))

lemma same_but_pool: "same_but m h h' \<Longrightarrow> pool (mbufs h' a) = pool (mbufs h a)"
  by (cases "a = m") (simp_all add: same_but_def recountedD(2))

text \<open>All segments are freed, and nothing else changes but counts.\<close>

lemma free_links:
  assumes "refs_ok U {} H h" "linked h mo ms" "distinct ms" "mset ms \<subseteq># H"
  shows "\<exists>h'. free_segs l mo h = Some h' \<and> refs_ok U {} (H - mset ms) h' \<and> ram h' = ram h
    \<and> privs h' = privs h \<and> phys h' = phys h \<and> (\<forall>a. pool (mbufs h' a) = pool (mbufs h a))
    \<and> (\<forall>a. a \<notin> set ms \<longrightarrow> recounted (mbufs h a) (mbufs h' a))"
  using assms
proof (induction ms arbitrary: mo h H)
  case Nil
  then show ?case by (simp add: free_segs.simps)
next
  case (Cons m ms)
  have m: "m \<in># H" using Cons.prems(4) by (auto dest: mset_subset_eqD)
  obtain h1 where h1: "rte_pktmbuf_free_seg l m h = Some h1" "refs_ok U {} (H - {#m#}) h1" "same_but m h h1"
    using free_seg [OF Cons.prems(1) m] by blast
  have l: "linked h (next_seg (mbufs h m)) ms" "mo = Some m" using Cons.prems(2) by simp_all
  have l1: "linked h1 (next_seg (mbufs h m)) ms"
    by (rule linked_same [OF l(1) same_but_next [OF h1(3)]]) (use Cons.prems(3) in auto)
  have sub: "mset ms \<subseteq># H - {#m#}" using Cons.prems(4) by (simp add: insert_subset_eq_iff)
  have d: "distinct ms" using Cons.prems(3) by simp
  obtain h' where h': "free_segs l (next_seg (mbufs h m)) h1 = Some h'"
    "refs_ok U {} (H - {#m#} - mset ms) h'" "ram h' = ram h1" "privs h' = privs h1" "phys h' = phys h1"
    "\<forall>a. pool (mbufs h' a) = pool (mbufs h1 a)" "\<forall>a. a \<notin> set ms \<longrightarrow> recounted (mbufs h1 a) (mbufs h' a)"
    using Cons.IH [OF h1(2) l1 d sub] by blast
  have "free_segs l mo h = Some h'"
    by (subst free_segs.simps) (simp add: l(2) h1(1) h'(1) Let_def)
  moreover have "recounted (mbufs h a) (mbufs h' a)" if "a \<notin> set (m # ms)" for a
    by (rule recounted_trans [of _ "mbufs h1 a"]) (use h1(3) h'(7) that in \<open>auto simp: same_but_def\<close>)
  moreover have "pool (mbufs h1 a) = pool (mbufs h a)" for a
    by (rule same_but_pool [OF h1(3)])
  ultimately show ?case using h'(2-6) h1(3) by (auto simp: same_but_def)
qed

lemma free_packet:
  assumes "refs_ok U {} H h" "linked h (Some m) ms" "distinct ms" "mset ms \<subseteq># H" "unat (nb_segs (mbufs h m)) \<le> length ms"
  shows "\<exists>h'. rte_pktmbuf_free l (Some m) h = Some h' \<and> refs_ok U {} (H - mset ms) h' \<and> ram h' = ram h
    \<and> privs h' = privs h \<and> phys h' = phys h \<and> (\<forall>a. pool (mbufs h' a) = pool (mbufs h a))
    \<and> (\<forall>a. a \<notin> set ms \<longrightarrow> recounted (mbufs h a) (mbufs h' a))"
proof -
  have "m \<in># H" using assms(2,4) by (cases ms) (auto dest: mset_subset_eqD)
  note c = held_passes [OF assms(1) this assms(2,5)]
  show ?thesis unfolding rte_pktmbuf_free_def c by (rule free_links [OF assms(1-4)])
qed

section \<open>Cloning\<close>

text \<open>\<open>c\<close> shows the bytes of \<open>b\<close> and borrows them.\<close>

definition copy_of :: "mbuf \<Rightarrow> mbuf \<Rightarrow> bool" where
  "copy_of b c \<longleftrightarrow> buf_addr c = buf_addr b \<and> buf_len c = buf_len b \<and> data_off c = data_off b \<and> data_len c = data_len b
     \<and> RTE_MBUF_INDIRECT c \<and> rte_mbuf_from_indirect c = rte_mbuf_from_indirect b"

lemma copy_of_recounted: "recounted b b' \<Longrightarrow> copy_of b' c = copy_of b c" "recounted c c' \<Longrightarrow> copy_of b c' = copy_of b c"
  by (simp_all add: copy_of_def recountedD)

lemma copy_of_next [simp]: "copy_of b (c\<lparr>next_seg := v\<rparr>) = copy_of b c" "copy_of b (c\<lparr>nb_segs := w, pkt_len := u\<rparr>) = copy_of b c"
  by (simp_all add: copy_of_def RTE_MBUF_INDIRECT_def rte_mbuf_from_indirect_def)

lemma copy_of_borrowed [simp]: "copy_of b (borrowed b i)"
  by (simp add: copy_of_def)

lemma set_next_simps [simp]:
  "mbufs (set_next m v h) = (mbufs h)(m := (mbufs h m)\<lparr>next_seg := v\<rparr>)" "ram (set_next m v h) = ram h"
  "pools (set_next m v h) = pools h" "privs (set_next m v h) = privs h" "phys (set_next m v h) = phys h"
  by (simp_all add: set_next_def)

lemma set_next_ok: "refs_ok U X H (set_next m v h) = refs_ok U X H h"
  by (rule refs_ok_core) (simp_all add: core_def RTE_MBUF_INDIRECT_def)

text \<open>A copy that is not yet part of a longer packet.\<close>

definition copied :: "mbuf \<Rightarrow> mbuf \<Rightarrow> bool" where
  "copied b c \<longleftrightarrow> copy_of b c \<and> nb_segs c = 1"

lemma copied_simps:
  "recounted b b' \<Longrightarrow> copied b' c = copied b c" "recounted c c' \<Longrightarrow> copied b c' = copied b c"
  "copied b (c\<lparr>next_seg := v\<rparr>) = copied b c" "copied b (borrowed b i)"
  by (simp_all add: copied_def copy_of_recounted recountedD)

text \<open>All headers as they were, up to counts, except for the buffers in \<open>A\<close>.\<close>

definition same_outside :: "nat set \<Rightarrow> mbuf_heap \<Rightarrow> mbuf_heap \<Rightarrow> bool" where
  "same_outside A h h' \<longleftrightarrow> ram h' = ram h \<and> privs h' = privs h \<and> phys h' = phys h
     \<and> (\<forall>a. pool (mbufs h' a) = pool (mbufs h a)) \<and> (\<forall>a. a \<notin> A \<longrightarrow> recounted (mbufs h a) (mbufs h' a))"

lemma same_outside_trans:
  "same_outside A h h1 \<Longrightarrow> same_outside B h1 h2 \<Longrightarrow> A \<union> B \<subseteq> C \<Longrightarrow> same_outside C h h2"
  unfolding same_outside_def by auto (metis recounted_trans subsetD)

lemma same_outsideD:
  "same_outside A h h' \<Longrightarrow> a \<notin> A \<Longrightarrow> recounted (mbufs h a) (mbufs h' a)"
  "same_outside A h h' \<Longrightarrow> ram h' = ram h" "same_outside A h h' \<Longrightarrow> privs h' = privs h"
  "same_outside A h h' \<Longrightarrow> phys h' = phys h" "same_outside A h h' \<Longrightarrow> pool (mbufs h' a) = pool (mbufs h a)"
  by (simp_all add: same_outside_def)

lemma homes_same: "same_outside A h h' \<Longrightarrow> homes U h' = homes U h"
  by (simp add: homes_def same_outsideD(5))

lemma attach_same: "owner h m \<noteq> mi \<Longrightarrow> same_outside {mi} h (attach_fields mi m h)"
  unfolding attach_heap by (simp add: same_outside_def)

lemma set_next_same: "same_outside {m} h (set_next m v h)"
  by (simp add: same_outside_def)

text \<open>The state of the loop: \<open>mi\<close> is fresh, the segments \<open>ss\<close> of the source are held and their owners
  can take one more reference each.\<close>

definition clonable :: "mbuf_heap \<Rightarrow> nat multiset \<Rightarrow> nat list \<Rightarrow> bool" where
  "clonable h H ss \<longleftrightarrow> set ss \<subseteq> set_mset H
     \<and> (\<forall>s \<in> set ss. unat (refcnt (mbufs h (owner h s))) + length ss < 65535)"

lemma clone_attach:
  assumes "refs_ok U {} H h" "mi \<in># H" "RTE_MBUF_DIRECT (mbufs h mi)" "refcnt (mbufs h mi) = 1"
    and "clonable h H (s # ss)" "mi \<notin> set (s # ss)"
  shows "rte_pktmbuf_attach mi s h = Some (attach_fields mi s h)"
proof -
  have s: "s \<in># H" "unat (refcnt (mbufs h (owner h s))) < 65534" using assms(5) by (auto simp: clonable_def)
  note live = held_live [OF assms(1) s(1)]
  show ?thesis by (rule attach_runs [OF assms(1-4) live(1) _ s(2) live(2)]) (use assms(6) in auto)
qed

lemma clone_turn:
  fixes prev :: nat
  assumes "refs_ok U {} H h" "mi \<in># H" "RTE_MBUF_DIRECT (mbufs h mi)" "refcnt (mbufs h mi) = 1"
    and "clonable h H (s # ss)" "mi \<notin> set (s # ss)"
  defines "h1 \<equiv> set_next prev (Some mi) (attach_fields mi s h)"
  shows "refs_ok U {} H h1" "same_outside {mi, prev} h h1" "copied (mbufs h s) (mbufs h1 mi)"
    "next_seg (mbufs h1 prev) = Some mi" "prev \<noteq> mi \<Longrightarrow> recounted ((mbufs h prev)\<lparr>next_seg := Some mi\<rparr>) (mbufs h1 prev)"
    "prev \<notin> set ss \<Longrightarrow> clonable h1 H ss"
proof -
  have s: "s \<in># H" "unat (refcnt (mbufs h (owner h s))) < 65534" using assms(5) by (auto simp: clonable_def)
  note live = held_live [OF assms(1) s(1)]
  have ne: "s \<noteq> mi" using assms(6) by auto
  note alone = owner_not_alone [OF assms(1,2,4) live(1) ne]
  let ?a = "attach_fields mi s h"
  have b: "mbufs ?a = (mbufs h)(owner h s := (mbufs h (owner h s))\<lparr>refcnt := refcnt (mbufs h (owner h s)) + 1\<rparr>,
      mi := borrowed (mbufs h s) (mbufs h mi))" by (simp add: attach_heap [OF alone(1)])
  show "refs_ok U {} H h1"
    unfolding h1_def set_next_ok by (rule attach [OF assms(1-4) live(1) ne s(2) live(2)])
  show "same_outside {mi, prev} h h1"
    unfolding h1_def by (rule same_outside_trans [OF attach_same [OF alone(1)] set_next_same]) auto
  show "copied (mbufs h s) (mbufs h1 mi)" by (simp add: h1_def b copied_simps)
  show "next_seg (mbufs h1 prev) = Some mi" by (simp add: h1_def)
  show "recounted ((mbufs h prev)\<lparr>next_seg := Some mi\<rparr>) (mbufs h1 prev)" if "prev \<noteq> mi"
    using that by (simp add: h1_def b recounted_def)
  show "clonable h1 H ss" if p: "prev \<notin> set ss"
  proof -
    have "unat (refcnt (mbufs h1 (owner h1 a))) + length ss < 65535" if a: "a \<in> set ss" for a
    proof -
      have "a \<noteq> mi" "a \<noteq> prev" using p a assms(6) by auto
      then have o: "owner h1 a = owner h a" by (simp add: owner_def h1_def b refcnt_only)
      have "refcnt (mbufs h1 (owner h a)) = refcnt (mbufs ?a (owner h a))" by (simp add: h1_def)
      also have "unat \<dots> \<le> Suc (unat (refcnt (mbufs h (owner h a))))"
        using s(2) alone(1) by (simp add: b unat_inc)
      finally show ?thesis using assms(5) a unfolding o clonable_def by fastforce
    qed
    then show ?thesis using assms(5) by (auto simp: clonable_def)
  qed
qed

lemma owner_live:
  assumes "refs_ok U {} H h" "s \<in># H"
  shows "refcnt (mbufs h (owner h s)) \<noteq> 0"
proof (cases "owner h s = s")
  case True
  then show ?thesis using held_live [OF assms] by simp
next
  case False
  note s = held_live(1) [OF assms]
  have "s \<in> borrowers U h (owner h s)"
    using False s by (auto simp: owner_def borrowers_def attached_def RTE_MBUF_DIRECT_def split: if_splits)
  then have "card (borrowers U h (owner h s)) \<noteq> 0" using refs_okD(9) [OF assms(1), of "owner h s"] by auto
  then show ?thesis using refs_okD(3) [OF assms(1) owner_addr(2) [OF assms(1) s]] by (metis add_is_0 unat_0)
qed

lemma alloc_turn:
  assumes "refs_ok U {} H h" "refcnt (mbufs h m) = 0" "m \<notin># H" "clonable h H ss"
    and "h' = h\<lparr>pools := p, mbufs := (mbufs h)(m := fresh_mbuf (mbufs h m))\<rparr>"
  shows "same_outside {m} h h'" "clonable h' (add_mset m H) ss" "refcnt (mbufs h' m) = 1" "RTE_MBUF_DIRECT (mbufs h' m)"
proof -
  show "same_outside {m} h h'" by (simp add: same_outside_def assms(5))
  show "refcnt (mbufs h' m) = 1" "RTE_MBUF_DIRECT (mbufs h' m)" by (simp_all add: assms(5) direct_0)
  have "unat (refcnt (mbufs h' (owner h' s))) + length ss < 65535" if "s \<in> set ss" for s
  proof -
    have s: "s \<in># H" "unat (refcnt (mbufs h (owner h s))) + length ss < 65535" using assms(4) that by (auto simp: clonable_def)
    then have "s \<noteq> m" using assms(3) by auto
    then have "owner h' s = owner h s" by (simp add: owner_def assms(5))
    moreover have "owner h s \<noteq> m" using owner_live [OF assms(1) s(1)] assms(2) by auto
    ultimately show ?thesis using s(2) by (simp add: assms(5))
  qed
  then show "clonable h' (add_mset m H) ss" using assms(4) by (auto simp: clonable_def)
qed

lemma clone_loop:
  assumes "refs_ok U {} H h" "mi \<in># H" "RTE_MBUF_DIRECT (mbufs h mi)" "refcnt (mbufs h mi) = 1"
    and "clonable h H (s # ss)" "linked h (Some s) (s # ss)" "distinct (s # ss)" "mi \<notin> set (s # ss)" "prev \<notin> set (s # ss)"
    and "prev \<in># H" "mp \<in> homes U h"
  shows "\<exists>r ds h'. clone_loop l mp s mi prev nseg h = Some (r, last (mi # ds), nseg + of_nat (Suc (length ds)), h')
    \<and> refs_ok U {} (H + mset ds) h' \<and> distinct ds \<and> set ds \<inter> set_mset H = {}
    \<and> length ds \<le> length ss \<and> (r = None \<longleftrightarrow> length ds < length ss) \<and> same_outside (set (prev # mi # ds)) h h'
    \<and> (prev \<noteq> mi \<longrightarrow> recounted ((mbufs h prev)\<lparr>next_seg := Some mi\<rparr>) (mbufs h' prev))
    \<and> (\<forall>k < length ds. next_seg (mbufs h' ((mi # ds) ! k)) = Some (ds ! k))
    \<and> (\<forall>k \<le> length ds. copied (mbufs h ((s # ss) ! k)) (mbufs h' ((mi # ds) ! k)))"
  using assms
proof (induction ss arbitrary: s mi prev nseg h H)
  case Nil
  let ?h = "set_next prev (Some mi) (attach_fields mi s h)"
  note t = clone_turn [OF Nil.prems(1-5,8), of prev] and at = clone_attach [OF Nil.prems(1-5,8)]
  have "recounted (mbufs h s) (mbufs ?h s)" by (rule same_outsideD(1) [OF t(2)]) (use Nil.prems(8,9) in auto)
  then have "next_seg (mbufs ?h s) = None" using Nil.prems(6) recountedD(1) by auto
  then have "clone_loop l mp s mi prev nseg h = Some (Some mi, mi, nseg + 1, ?h)"
    by (subst clone_loop.simps) (simp add: at Let_def del: set_next_simps)
  then show ?case
    using t by (intro exI [of _ "Some mi"] exI [of _ "[]"] exI [of _ ?h]) (simp add: insert_commute del: set_next_simps)
next
  case (Cons s2 ss)
  let ?h = "set_next prev (Some mi) (attach_fields mi s h)"
  note t = clone_turn [OF Cons.prems(1-5,8), of prev] and at = clone_attach [OF Cons.prems(1-5,8)]
  have rs: "recounted (mbufs h a) (mbufs ?h a)" if "a \<in> set (s # s2 # ss)" for a
    by (rule same_outsideD(1) [OF t(2)]) (use that Cons.prems(8,9) in auto)
  then have nx: "next_seg (mbufs ?h s) = Some s2" using Cons.prems(6) recountedD(1) [OF rs, of s] by simp
  have run: "clone_loop l mp s mi prev nseg h = Option.bind (rte_pktmbuf_alloc l mp ?h) (\<lambda>(r, h). case r of
      None \<Rightarrow> Some (None, mi, nseg + 1, h) | Some mi' \<Rightarrow> clone_loop l mp s2 mi' mi (nseg + 1) h)"
    by (subst clone_loop.simps) (simp only: at bind.bind_lunit Let_def nx option.case)
  have home: "mp \<in> homes U ?h" using Cons.prems(11) unfolding homes_same [OF t(2)] .
  show ?case
  proof (cases rule: alloc [OF t(1) home, of l])
    case 1
    then show ?thesis
      using t run by (intro exI [of _ None] exI [of _ "[]"] exI [of _ ?h]) (simp add: insert_commute del: set_next_simps)
  next
    case (2 m p h2)
    have cl: "clonable ?h H (s2 # ss)" by (rule t(6)) (use Cons.prems(9) in auto)
    note u = alloc_turn [OF t(1) 2(4,8) cl 2(2)]
    have held: "set (s # s2 # ss) \<subseteq> set_mset H" using Cons.prems(5) by (simp add: clonable_def)
    then have m: "m \<notin> set (s # s2 # ss)" "m \<noteq> mi" "m \<noteq> prev" using 2(8) Cons.prems(2,10) by auto
    have rs2: "recounted (mbufs h a) (mbufs h2 a)" if "a \<in> set (s2 # ss)" for a
      by (rule recounted_trans [OF rs same_outsideD(1) [OF u(1)]]) (use that m in auto)
    have lk: "linked h2 (Some s2) (s2 # ss)"
    proof (rule linked_same)
      show "linked h (Some s2) (s2 # ss)" using Cons.prems(6) by simp
      show "next_seg (mbufs h2 a) = next_seg (mbufs h a)" if "a \<in> set (s2 # ss)" for a
        by (rule recountedD(1) [OF rs2 [OF that]])
    qed
    have pre: "m \<in># add_mset m H" "distinct (s2 # ss)" "m \<notin> set (s2 # ss)" "mi \<notin> set (s2 # ss)" "mi \<in># add_mset m H"
      using m Cons.prems(2,7,8) by auto
    have home2: "mp \<in> homes U h2" using home unfolding homes_same [OF u(1)] .
    from Cons.IH [OF 2(6) pre(1) u(4,3,2) lk pre(2-5) home2, of "nseg + 1"] obtain r ds h' where
      h': "clone_loop l mp s2 m mi (nseg + 1) h2 = Some (r, last (m # ds), nseg + 1 + of_nat (Suc (length ds)), h')"
      "refs_ok U {} (add_mset m H + mset ds) h'" "distinct ds" "set ds \<inter> set_mset (add_mset m H) = {}"
      "length ds \<le> length ss" "r = None \<longleftrightarrow> length ds < length ss" "same_outside (set (mi # m # ds)) h2 h'"
      "mi \<noteq> m \<longrightarrow> recounted ((mbufs h2 mi)\<lparr>next_seg := Some m\<rparr>) (mbufs h' mi)"
      "\<forall>k < length ds. next_seg (mbufs h' ((m # ds) ! k)) = Some (ds ! k)"
      "\<forall>k \<le> length ds. copied (mbufs h2 ((s2 # ss) ! k)) (mbufs h' ((m # ds) ! k))"
      by blast
    have mi': "recounted ((mbufs h2 mi)\<lparr>next_seg := Some m\<rparr>) (mbufs h' mi)" using h'(8) m(2) by blast
    have eqs: "mbufs h2 mi = mbufs ?h mi" "mbufs h2 prev = mbufs ?h prev" using 2(2) m by simp_all
    show ?thesis
    proof (intro exI [of _ r] exI [of _ "m # ds"] exI [of _ h'] conjI)
      show "clone_loop l mp s mi prev nseg h =
          Some (r, last (mi # m # ds), nseg + of_nat (Suc (length (m # ds))), h')"
        using run 2(1) h'(1) by (simp add: ac_simps)
      show "refs_ok U {} (H + mset (m # ds)) h'" using h'(2) by simp
      show "distinct (m # ds)" "set (m # ds) \<inter> set_mset H = {}" using h'(3,4) 2(8) by auto
      show "length (m # ds) \<le> length (s2 # ss)" "(r = None) = (length (m # ds) < length (s2 # ss))" using h'(5,6) by simp_all
      show "same_outside (set (prev # mi # m # ds)) h h'"
        by (rule same_outside_trans [OF t(2) same_outside_trans [OF u(1) h'(7) subset_refl]]) auto
      show "prev \<noteq> mi \<longrightarrow> recounted ((mbufs h prev)\<lparr>next_seg := Some mi\<rparr>) (mbufs h' prev)"
      proof
        assume ne: "prev \<noteq> mi"
        have "prev \<notin> set (mi # m # ds)" using ne m(3) h'(4) Cons.prems(10) by auto
        then have "recounted (mbufs h2 prev) (mbufs h' prev)" by (rule same_outsideD(1) [OF h'(7)])
        then show "recounted ((mbufs h prev)\<lparr>next_seg := Some mi\<rparr>) (mbufs h' prev)"
          using recounted_trans [OF t(5) [OF ne]] eqs(2) by simp
      qed
      show "\<forall>k < length (m # ds). next_seg (mbufs h' ((mi # m # ds) ! k)) = Some ((m # ds) ! k)"
        using h'(9) recountedD(1) [OF mi'] by (simp add: All_less_Suc2)
      have "copied (mbufs h ((s2 # ss) ! k)) (mbufs h' ((m # ds) ! k))" if "k \<le> length ds" for k
      proof -
        have "(s2 # ss) ! k \<in> set (s2 # ss)" using that h'(5) by (auto intro: nth_mem simp del: list.set)
        from copied_simps(1) [OF rs2 [OF this]] show ?thesis using h'(10) that by blast
      qed
      then have "\<forall>k < Suc (length ds). copied (mbufs h ((s2 # ss) ! k)) (mbufs h' ((m # ds) ! k))" by (simp add: less_Suc_eq_le)
      moreover have "copied (mbufs h s) (mbufs h' mi)" using t(3) eqs(1) copied_simps(2) [OF mi'] copied_simps(3) by simp
      ultimately show "\<forall>k \<le> length (m # ds). copied (mbufs h ((s # s2 # ss) ! k)) (mbufs h' ((mi # m # ds) ! k))"
        by (simp only: less_Suc_eq_le [symmetric] length_Cons All_less_Suc2 nth_Cons_0 nth_Cons_Suc) blast
    qed
  qed
qed

text \<open>A list of segments whose links follow the list.\<close>

lemma linked_nth:
  assumes "ms \<noteq> []" "\<And>k. Suc k < length ms \<Longrightarrow> next_seg (mbufs h (ms ! k)) = Some (ms ! Suc k)"
    and "next_seg (mbufs h (last ms)) = None"
  shows "linked h (Some (hd ms)) ms"
  using assms
proof (induction ms rule: list_nonempty_induct)
  case (single m)
  then show ?case by simp
next
  case (cons m ms)
  have "next_seg (mbufs h (ms ! k)) = Some (ms ! Suc k)" if "Suc k < length ms" for k
    using cons.prems(1) [of "Suc k"] that by simp
  then have "linked h (Some (hd ms)) ms" using cons.IH cons.prems(2) cons.hyps by simp
  moreover have "next_seg (mbufs h m) = Some (hd ms)"
    using cons.prems(1) [of 0] cons.hyps by (simp add: hd_conv_nth)
  ultimately show ?case by simp
qed

text \<open>Two states with the same references have the same counts and the same free buffers.\<close>

lemma same_refs:
  assumes "refs_ok U {} H h" "refs_ok U {} H h'" "same_outside A h h'" "A \<inter> set_mset H = {}"
  shows "a \<in> U \<Longrightarrow> refcnt (mbufs h' a) = refcnt (mbufs h a)"
    "p \<in> homes U h \<Longrightarrow> pool_objs (pools h' p) = pool_objs (pools h p)"
proof -
  note g = refs_okD [OF assms(1)] and g' = refs_okD [OF assms(2)]
  have "borrowers U h' a = borrowers U h a" for a
  proof -
    have "attached h' i a \<longleftrightarrow> attached h i a" if "i \<in> U" for i
    proof (cases "i \<in> A")
      case True
      then have "i \<notin># H" using assms(4) by auto
      then show ?thesis using g(4) g'(4) that by (auto simp: attached_def)
    next
      case False
      then show ?thesis using recountedD [OF same_outsideD(1) [OF assms(3) False]] by (simp add: attached_def)
    qed
    then show ?thesis by (auto simp: borrowers_def)
  qed
  then show rc: "refcnt (mbufs h' a) = refcnt (mbufs h a)" if "a \<in> U" for a
    using g(3) [OF that] g'(3) [OF that] by (simp add: word_unat_eq_iff)
  then have "unused U h' = unused U h" by (auto simp: unused_def)
  then show "pool_objs (pools h' p) = pool_objs (pools h p)" if "p \<in> homes U h"
    using that pools_okD(3) [OF g(8)] pools_okD(3) [OF g'(8)] same_outsideD(5) [OF assms(3)] homes_same [OF assms(3)] by simp
qed

text \<open>The end of a clone: the last segment closes the chain, the first gets the totals.\<close>

lemma clone_end:
  fixes n :: byte and l :: int32
  assumes "refs_ok U {} (H + mset cs) h" "cs \<noteq> []" "distinct cs"
    and "\<And>k. Suc k < length cs \<Longrightarrow> next_seg (mbufs h (cs ! k)) = Some (cs ! Suc k)"
  defines "h' \<equiv> upd (hd cs) (\<lambda>b. b\<lparr>nb_segs := n, pkt_len := l\<rparr>) (set_next (last cs) None h)"
  shows "refs_ok U {} (H + mset cs) h'" "linked h' (Some (hd cs)) cs" "same_outside (set cs) h h'"
    and "copy_of x (mbufs h c) \<Longrightarrow> copy_of x (mbufs h' c)"
    and "nb_segs (mbufs h' (hd cs)) = n" "pkt_len (mbufs h' (hd cs)) = l"
proof -
  have "core (mbufs h' a) = core (mbufs (set_next (last cs) None h) a)" for a
    by (simp add: h'_def core_def RTE_MBUF_INDIRECT_def)
  from refs_ok_core [of h' "set_next (last cs) None h", OF this]
  show "refs_ok U {} (H + mset cs) h'" using assms(1) by (simp add: h'_def set_next_ok)
  have nx: "next_seg (mbufs h' (cs ! k)) = Some (cs ! Suc k)" if "Suc k < length cs" for k
  proof -
    have "cs ! k \<noteq> last cs"
      unfolding last_conv_nth [OF assms(2)] using nth_eq_iff_index_eq [OF assms(3)] that by simp
    then show ?thesis using assms(4) [OF that] by (auto simp: h'_def)
  qed
  show "linked h' (Some (hd cs)) cs" by (rule linked_nth [OF assms(2) nx]) (simp_all add: h'_def)
  show "same_outside (set cs) h h'" using assms(2) by (auto simp: h'_def same_outside_def)
  show "copy_of x (mbufs h c) \<Longrightarrow> copy_of x (mbufs h' c)" by (auto simp: h'_def)
  show "nb_segs (mbufs h' (hd cs)) = n" "pkt_len (mbufs h' (hd cs)) = l" by (simp_all add: h'_def)
qed

lemma clone_facts:
  assumes "refs_ok U {} H h" "clonable h H ss" "ss \<noteq> []" "linked h (Some (hd ss)) ss" "distinct ss"
    and "mp \<in> homes U h"
  shows "(\<exists>h'. rte_pktmbuf_clone l mp (hd ss) h = Some (None, h') \<and> refs_ok U {} H h'
      \<and> (\<exists>A. same_outside A h h' \<and> A \<inter> set_mset H = {}) \<and> (length ss = 1 \<longrightarrow> rte_pktmbuf_alloc l mp h = Some (None, h)))
    \<or> (\<exists>cs h'. rte_pktmbuf_clone l mp (hd ss) h = Some (Some (hd cs), h') \<and> refs_ok U {} (H + mset cs) h'
      \<and> length cs = length ss \<and> distinct cs \<and> set cs \<inter> set_mset H = {} \<and> same_outside (set cs) h h'
      \<and> linked h' (Some (hd cs)) cs \<and> (\<forall>k < length ss. copy_of (mbufs h (ss ! k)) (mbufs h' (cs ! k)))
      \<and> segs_ok h' cs \<and> nb_segs (mbufs h' (hd cs)) = of_nat (length ss) \<and> pkt_len (mbufs h' (hd cs)) = pkt_len (mbufs h (hd ss)))"
proof -
  obtain s ss' where ss: "ss = s # ss'" using assms(3) by (cases ss) auto
  show ?thesis
  proof (cases rule: alloc [OF assms(1,6), of l])
    case 1
    then have "rte_pktmbuf_clone l mp (hd ss) h = Some (None, h)" by (simp add: rte_pktmbuf_clone_def)
    then show ?thesis using 1 assms(1) by (intro disjI1 exI [of _ h]) (auto simp: same_outside_def)
  next
    case (2 m p h1)
    note u = alloc_turn [OF assms(1) 2(4,8) assms(2) 2(2)]
    have m: "m \<notin> set ss" using assms(2) 2(8) by (auto simp: clonable_def)
    have rs: "recounted (mbufs h a) (mbufs h1 a)" if "a \<in> set ss" for a
      by (rule same_outsideD(1) [OF u(1)]) (use m that in auto)
    have lk: "linked h1 (Some s) (s # ss')"
      using linked_same [OF assms(4), of h1] recountedD(1) [OF rs] unfolding ss by simp
    have pre: "m \<in># add_mset m H" "distinct (s # ss')" "m \<notin> set (s # ss')" using m assms(5) unfolding ss by auto
    have home: "mp \<in> homes U h1" using assms(6) unfolding homes_same [OF u(1)] .
    from clone_loop [OF 2(6) pre(1) u(4,3) u(2) [unfolded ss] lk pre(2,3,3,1) home, of l 0] obtain r ds h2 where
      h2: "clone_loop l mp s m m 0 h1 = Some (r, last (m # ds), of_nat (Suc (length ds)), h2)"
      "refs_ok U {} (add_mset m H + mset ds) h2" "distinct ds" "set ds \<inter> set_mset (add_mset m H) = {}"
      "length ds \<le> length ss'" "r = None \<longleftrightarrow> length ds < length ss'" "same_outside (set (m # m # ds)) h1 h2"
      "\<forall>k < length ds. next_seg (mbufs h2 ((m # ds) ! k)) = Some (ds ! k)"
      "\<forall>k \<le> length ds. copied (mbufs h1 ((s # ss') ! k)) (mbufs h2 ((m # ds) ! k))"
      by auto
    let ?cs = "m # ds"
    let ?h = "upd m (\<lambda>b. b\<lparr>nb_segs := of_nat (Suc (length ds)), pkt_len := pkt_len (mbufs h1 s)\<rparr>) (set_next (last ?cs) None h2)"
    have d: "distinct ?cs" "set ?cs \<inter> set_mset H = {}" using h2(3,4) 2(8) by auto
    have "next_seg (mbufs h2 (?cs ! k)) = Some (?cs ! Suc k)" if "Suc k < length ?cs" for k using h2(8) that by simp
    from clone_end [OF _ _ d(1) this, where n = "of_nat (Suc (length ds))" and l = "pkt_len (mbufs h1 s)"] h2(2)
    have f: "refs_ok U {} (H + mset ?cs) ?h" "linked ?h (Some (hd ?cs)) ?cs" "same_outside (set ?cs) h2 ?h"
      "\<And>x c. copy_of x (mbufs h2 c) \<Longrightarrow> copy_of x (mbufs ?h c)"
      "nb_segs (mbufs ?h m) = of_nat (Suc (length ds))" "pkt_len (mbufs ?h m) = pkt_len (mbufs h1 s)"
      by simp_all
    have "same_outside (set ?cs) h1 ?h" by (rule same_outside_trans [OF h2(7) f(3)]) auto
    then have out: "same_outside (set ?cs) h ?h" by (rule same_outside_trans [OF u(1)]) auto
    have cp: "copy_of (mbufs h (ss ! k)) (mbufs ?h (?cs ! k))" if "k \<le> length ds" for k
    proof -
      have "ss ! k \<in> set ss" using that h2(5) ss by (auto intro!: nth_mem simp del: list.set)
      then have "copy_of (mbufs h (ss ! k)) (mbufs h2 (?cs ! k))"
        using h2(9) that copy_of_recounted(1) [OF rs] unfolding ss copied_def by blast
      then show ?thesis by (rule f(4))
    qed
    have run: "rte_pktmbuf_clone l mp (hd ss) h = (case r of
        None \<Rightarrow> map_option (Pair None) (rte_pktmbuf_free l (Some m) ?h)
      | Some _ \<Rightarrow> checked (Some m) True ?h (Some (Some m, ?h)))"
      by (simp only: rte_pktmbuf_clone_def ss list.sel 2(1) bind.bind_lunit prod.case option.case Let_def h2(1))
    have "nb_segs (mbufs ?h c) = 1" if "c \<in> set ds" for c
    proof -
      obtain k where k: "k < length ds" "c = ds ! k" using \<open>c \<in> set ds\<close> by (metis in_set_conv_nth)
      then have "nb_segs (mbufs h2 c) = 1" using h2(9) [rule_format, of "Suc k"] by (simp add: copied_def)
      then show ?thesis using that d(1) by auto
    qed
    then have tail: "segs_ok ?h ds" by (rule segs_ok_ones)
    have few: "unat (nb_segs (mbufs ?h m)) \<le> length ?cs"
      unfolding f(5) by (simp add: unat_of_nat del: of_nat_Suc)
    have lm: "linked ?h (Some m) ?cs" using f(2) by simp
    show ?thesis
    proof (cases r)
      case None
      obtain h' where h': "rte_pktmbuf_free l (Some m) ?h = Some h'" "refs_ok U {} (H + mset ?cs - mset ?cs) h'"
        "same_outside (set ?cs) ?h h'"
        using free_packet [OF f(1) lm d(1) _ few, of l] by (auto simp: same_outside_def)
      have "same_outside (set ?cs) h h'" by (rule same_outside_trans [OF out h'(3)]) simp
      moreover have "length ss \<noteq> 1" using None h2(6) ss by auto
      ultimately show ?thesis using run h'(1,2) d(2) None by (intro disjI1 exI [of _ h']) auto
    next
      case (Some x)
      then have len: "length ds = length ss'" using h2(5,6) by auto
      have "pkt_len (mbufs h1 s) = pkt_len (mbufs h s)" using recountedD(10) [OF rs, of s] ss by simp
      have "m \<in># H + mset ?cs" by simp
      note c = held_passes [OF f(1) this lm few]
      show ?thesis
        using tail few run [unfolded c] \<open>pkt_len (mbufs h1 s) = _\<close> Some f d out cp len ss by (intro disjI2 exI [of _ ?cs] exI [of _ ?h]) (auto simp: less_Suc_eq_le)
    qed
  qed
qed

end
