(* ===== verification/Packet.thy ===== *)
theory Packet
  imports Mbuf
begin

text \<open>
  Packets as strings of bytes: the operations of \<^verbatim>\<open>rte_mbuf.h\<close> that add and remove bytes at both ends
  of a packet, join two packets and read a part of one, over the links and lengths in the headers.
  A packet is its list of segments; the operations are shown to do on the bytes of the packet what
  their comments say, to fail exactly when there is no room, and never to leave a buffer, where the
  headers pass the checks of the build (\<open>sane\<close>); and the headers they leave pass them again.
\<close>

section \<open>The operations\<close>

definition mtod_offset :: "mbuf \<Rightarrow> int32 \<Rightarrow> nat" where
  "mtod_offset b off = buf_addr b + unat (data_off b) + unat off"

definition rte_pktmbuf_headroom :: "nat \<Rightarrow> mbuf_heap \<Rightarrow> int16 option" where
  "rte_pktmbuf_headroom m h = checked (Some m) True h (Some (data_off (mbufs h m)))"

definition rte_pktmbuf_tailroom :: "nat \<Rightarrow> mbuf_heap \<Rightarrow> int16 option" where
  "rte_pktmbuf_tailroom m h = checked (Some m) True h
     (map_option (\<lambda>head. buf_len (mbufs h m) - head - data_len (mbufs h m)) (rte_pktmbuf_headroom m h))"

definition rte_pktmbuf_is_contiguous :: "nat \<Rightarrow> mbuf_heap \<Rightarrow> bool option" where
  "rte_pktmbuf_is_contiguous m h = checked (Some m) True h (Some (nb_segs (mbufs h m) = 1))"

partial_function (option) last_link :: "mbuf_heap \<Rightarrow> nat \<Rightarrow> nat option" where
  "last_link h m = (case next_seg (mbufs h m) of None \<Rightarrow> Some m | Some m2 \<Rightarrow> last_link h m2)"

definition rte_pktmbuf_lastseg :: "mbuf_heap \<Rightarrow> nat \<Rightarrow> nat option" where
  "rte_pktmbuf_lastseg h m = checked (Some m) True h (last_link h m)"

definition rte_pktmbuf_prepend :: "nat \<Rightarrow> int16 \<Rightarrow> mbuf_heap \<Rightarrow> (nat option \<times> mbuf_heap) option" where
  "rte_pktmbuf_prepend m n h = checked (Some m) True h
     (map_option (\<lambda>room.
       if room < n then (None, h)
       else let h = upd m (\<lambda>b. b\<lparr>data_off := data_off b - n, data_len := data_len b + n,
                            pkt_len := pkt_len b + ucast n\<rparr>) h
            in (Some (mtod_offset (mbufs h m) 0), h))
       (rte_pktmbuf_headroom m h))"

definition rte_pktmbuf_append :: "nat \<Rightarrow> int16 \<Rightarrow> mbuf_heap \<Rightarrow> (nat option \<times> mbuf_heap) option" where
  "rte_pktmbuf_append m n h = checked (Some m) True h
     (Option.bind (rte_pktmbuf_lastseg h m) (\<lambda>m_last. map_option (\<lambda>room.
       let b = mbufs h m_last
       in if room < n then (None, h)
          else (Some (mtod_offset b (ucast (data_len b))),
                upd m (\<lambda>b. b\<lparr>pkt_len := pkt_len b + ucast n\<rparr>)
                  (upd m_last (\<lambda>b. b\<lparr>data_len := data_len b + n\<rparr>) h)))
       (rte_pktmbuf_tailroom m_last h)))"

definition rte_pktmbuf_adj :: "nat \<Rightarrow> int16 \<Rightarrow> mbuf_heap \<Rightarrow> (nat option \<times> mbuf_heap) option" where
  "rte_pktmbuf_adj m n h = checked (Some m) True h
     (if data_len (mbufs h m) < n then Some (None, h)
      else let h = upd m (\<lambda>b. b\<lparr>data_off := data_off b + n, data_len := data_len b - n,
                            pkt_len := pkt_len b - ucast n\<rparr>) h
           in Some (Some (mtod_offset (mbufs h m) 0), h))"

definition rte_pktmbuf_trim :: "nat \<Rightarrow> int16 \<Rightarrow> mbuf_heap \<Rightarrow> (int \<times> mbuf_heap) option" where
  "rte_pktmbuf_trim m n h = checked (Some m) True h
     (map_option (\<lambda>m_last.
       if data_len (mbufs h m_last) < n then (- 1, h)
       else (0, upd m (\<lambda>b. b\<lparr>pkt_len := pkt_len b - ucast n\<rparr>)
              (upd m_last (\<lambda>b. b\<lparr>data_len := data_len b - n\<rparr>) h)))
       (rte_pktmbuf_lastseg h m))"

definition EOVERFLOW :: int where
  "EOVERFLOW = 75"

definition rte_pktmbuf_chain :: "nat \<Rightarrow> nat \<Rightarrow> mbuf_heap \<Rightarrow> (int \<times> mbuf_heap) option" where
  "rte_pktmbuf_chain head tail h =
     (if 256 \<le> unat (nb_segs (mbufs h head)) + unat (nb_segs (mbufs h tail)) then Some (- EOVERFLOW, h)
      else map_option (\<lambda>cur_tail.
             let h = set_next cur_tail (Some tail) h;
                 t = mbufs h tail;
                 h = upd head (\<lambda>b. b\<lparr>nb_segs := nb_segs b + nb_segs t, pkt_len := pkt_len b + pkt_len t\<rparr>) h
             in (0, upd tail (\<lambda>b. b\<lparr>pkt_len := ucast (data_len b)\<rparr>) h))
           (rte_pktmbuf_lastseg h head))"

text \<open>Reading. A link that is \<open>NULL\<close> and followed is \<open>None\<close>.\<close>

definition memcpy :: "nat \<Rightarrow> nat \<Rightarrow> nat \<Rightarrow> mbuf_heap \<Rightarrow> mbuf_heap" where
  "memcpy p q n h =
     h\<lparr>ram := (\<lambda>a. if p \<le> a \<and> a < p + n then ram h (q + (a - p)) else ram h a)\<rparr>"

partial_function (option) find_seg :: "mbuf_heap \<Rightarrow> nat option \<Rightarrow> int32 \<Rightarrow> (nat \<times> int32) option" where
  "find_seg h seg off =
     (case seg of
        None \<Rightarrow> None
      | Some m \<Rightarrow>
          (let n = ucast (data_len (mbufs h m))
           in if n \<le> off then find_seg h (next_seg (mbufs h m)) (off - n) else Some (m, off)))"

partial_function (option) copy_segs :: "nat \<Rightarrow> nat option \<Rightarrow> int32 \<Rightarrow> int32 \<Rightarrow> int32 \<Rightarrow> mbuf_heap \<Rightarrow> mbuf_heap option" where
  "copy_segs buf_ptr seg off len buf_off h =
     (if len = 0 then Some h
      else case seg of
        None \<Rightarrow> None
      | Some m \<Rightarrow>
          (let copy_len = ucast (data_len (mbufs h m)) - off;
               copy_len = (if len < copy_len then len else copy_len);
               h = memcpy (buf_ptr + unat buf_off) (mtod_offset (mbufs h m) off) (unat copy_len) h
           in copy_segs buf_ptr (next_seg (mbufs h m)) 0 (len - copy_len) (buf_off + copy_len) h))"

definition pktmbuf_read_slow :: "nat \<Rightarrow> int32 \<Rightarrow> int32 \<Rightarrow> nat \<Rightarrow> mbuf_heap \<Rightarrow> (nat option \<times> mbuf_heap) option" where
  "pktmbuf_read_slow m off len buf_ptr h =
     (if pkt_len (mbufs h m) < off + len then Some (None, h)
      else Option.bind (find_seg h (Some m) off) (\<lambda>(seg, off).
        if off + len \<le> ucast (data_len (mbufs h seg)) then Some (Some (mtod_offset (mbufs h seg) off), h)
        else map_option (Pair (Some buf_ptr)) (copy_segs buf_ptr (Some seg) off len 0 h)))"

definition rte_pktmbuf_read :: "nat \<Rightarrow> int32 \<Rightarrow> int32 \<Rightarrow> nat \<Rightarrow> mbuf_heap \<Rightarrow> (nat option \<times> mbuf_heap) option" where
  "rte_pktmbuf_read m off len buf_ptr h =
     (if off + len \<le> ucast (data_len (mbufs h m)) then Some (Some (mtod_offset (mbufs h m) off), h)
      else pktmbuf_read_slow m off len buf_ptr h)"

section \<open>The bytes of a packet\<close>

definition bytes_at :: "mbuf_heap \<Rightarrow> nat \<Rightarrow> nat \<Rightarrow> byte list" where
  "bytes_at h p n = map (ram h) [p..<p + n]"

definition data_start :: "mbuf \<Rightarrow> nat" where
  "data_start b = buf_addr b + unat (data_off b)"

definition seg_data :: "mbuf_heap \<Rightarrow> nat \<Rightarrow> byte list" where
  "seg_data h m = bytes_at h (data_start (mbufs h m)) (unat (data_len (mbufs h m)))"

definition pkt_data :: "mbuf_heap \<Rightarrow> nat list \<Rightarrow> byte list" where
  "pkt_data h ms = concat (map (seg_data h) ms)"

text \<open>The data lies inside the buffer.\<close>

definition seg_ok :: "mbuf \<Rightarrow> bool" where
  "seg_ok b \<longleftrightarrow> unat (data_off b) + unat (data_len b) \<le> unat (buf_len b)"

definition packet :: "mbuf_heap \<Rightarrow> nat list \<Rightarrow> bool" where
  "packet h ms \<longleftrightarrow> ms \<noteq> [] \<and> linked h (Some (hd ms)) ms \<and> distinct ms \<and> (\<forall>m \<in> set ms. seg_ok (mbufs h m))
     \<and> unat (pkt_len (mbufs h (hd ms))) = length (pkt_data h ms) \<and> unat (nb_segs (mbufs h (hd ms))) = length ms"

lemma length_bytes_at [simp]: "length (bytes_at h p n) = n"
  by (simp add: bytes_at_def)

lemma length_seg_data [simp]: "length (seg_data h m) = unat (data_len (mbufs h m))"
  by (simp add: seg_data_def)

lemma bytes_at_append: "bytes_at h p n @ bytes_at h (p + n) k = bytes_at h p (n + k)"
  using upt_add_eq_append [of p "p + n" k] by (simp add: bytes_at_def add.assoc)

lemma unat_16: "unat (w :: int16) < 65536"
  using unsigned_less [of w, where 'a = nat] by simp

lemma unat_8: "unat (w :: byte) < 256"
  using unsigned_less [of w, where 'a = nat] by simp

lemma bytes_at_part: "n + k \<le> N \<Longrightarrow> take k (drop n (bytes_at h p N)) = bytes_at h (p + n) k"
  by (simp add: bytes_at_def take_map drop_map take_upt add.assoc)

lemma bytes_at_ram: "ram h' = ram h \<Longrightarrow> bytes_at h' p n = bytes_at h p n"
  by (simp add: bytes_at_def)

lemma pkt_data_simps [simp]:
  "pkt_data h [] = []" "pkt_data h (m # ms) = seg_data h m @ pkt_data h ms"
  "pkt_data h (ms @ ms') = pkt_data h ms @ pkt_data h ms'"
  by (simp_all add: pkt_data_def)

lemma seg_data_same:
  "ram h' = ram h \<Longrightarrow> data_start (mbufs h' m) = data_start (mbufs h m) \<Longrightarrow> data_len (mbufs h' m) = data_len (mbufs h m)
    \<Longrightarrow> seg_data h' m = seg_data h m"
  by (simp add: seg_data_def bytes_at_def)

lemma pkt_data_same:
  "(\<And>m. m \<in> set ms \<Longrightarrow> seg_data h' m = seg_data h m) \<Longrightarrow> pkt_data h' ms = pkt_data h ms"
  unfolding pkt_data_def by (metis map_cong)

lemma length_pkt_data: "length (pkt_data h ms) \<le> 65535 * length ms"
proof (induction ms)
  case (Cons m ms)
  show ?case using Cons.IH unat_16 [of "data_len (mbufs h m)"] by simp
qed simp

lemma packetD:
  assumes "packet h ms"
  shows "ms \<noteq> []" "linked h (Some (hd ms)) ms" "distinct ms" "m \<in> set ms \<Longrightarrow> seg_ok (mbufs h m)"
    "unat (pkt_len (mbufs h (hd ms))) = length (pkt_data h ms)" "unat (nb_segs (mbufs h (hd ms))) = length ms"
    "length ms < 256" "length (pkt_data h ms) < 2 ^ 24"
proof -
  show "ms \<noteq> []" "linked h (Some (hd ms)) ms" "distinct ms" "m \<in> set ms \<Longrightarrow> seg_ok (mbufs h m)"
    "unat (pkt_len (mbufs h (hd ms))) = length (pkt_data h ms)" "unat (nb_segs (mbufs h (hd ms))) = length ms"
    using assms by (auto simp: packet_def)
  then show "length ms < 256" using unat_8 [of "nb_segs (mbufs h (hd ms))"] by simp
  then show "length (pkt_data h ms) < 2 ^ 24" using length_pkt_data [of h ms] by simp
qed

lemma linked_last: "linked h (Some m) ms \<Longrightarrow> ms \<noteq> [] \<Longrightarrow> last_link h m = Some (last ms)"
proof (induction ms arbitrary: m)
  case (Cons x ms)
  have "last_link h x = (case next_seg (mbufs h x) of None \<Rightarrow> Some x | Some m2 \<Rightarrow> last_link h m2)"
    by (rule last_link.simps)
  then show ?case using Cons by (cases ms) auto
qed simp

text \<open>All segments pass the checks, the first one as the header of the packet.\<close>

definition sane :: "mbuf_heap \<Rightarrow> nat list \<Rightarrow> bool" where
  "sane h ms \<longleftrightarrow> segs_ok h ms \<and> (\<forall>m \<in> set ms. sound (mbufs h m) \<and> refcnt (mbufs h m) \<noteq> 0)"

lemma sane_same:
  assumes "sane h ms" "\<And>m. m \<in> set ms \<Longrightarrow> nb_segs (mbufs h' m) = nb_segs (mbufs h m) \<and> core (mbufs h' m) = core (mbufs h m)"
  shows "sane h' ms"
proof -
  have "sound (mbufs h' m) \<and> refcnt (mbufs h' m) \<noteq> 0" if m: "m \<in> set ms" for m
  proof -
    have "core (mbufs h' m) = core (mbufs h m)" using assms(2) m by blast
    then show ?thesis using assms(1) m coreD [of "mbufs h' m" "mbufs h m"] by (simp add: sane_def sound_def)
  qed
  moreover have "segs_ok h' ms" using segs_ok_same [of h ms h'] assms by (simp add: sane_def)
  ultimately show ?thesis by (simp add: sane_def)
qed

lemma segs_ok_ends: "segs_ok h ms \<Longrightarrow> ms \<noteq> [] \<Longrightarrow> unat (nb_segs (mbufs h (hd ms))) \<le> length ms \<and> unat (nb_segs (mbufs h (last ms))) \<le> 1"
  by (induction ms rule: induct_list012) auto

lemma segs_ok_join: "segs_ok h ms \<Longrightarrow> segs_ok h ts \<Longrightarrow> segs_ok h (ms @ ts)"
  by (induction ms) auto

lemma sane_passes:
  assumes "sane h ms" "linked h (Some (hd ms)) ms" "ms \<noteq> []"
  shows "checked (Some (hd ms)) is_header h r = r" "checked (Some (last ms)) is_header h r = r"
proof -
  note n = segs_ok_ends [of h ms] and s = assms(1) [unfolded sane_def]
  show "checked (Some (hd ms)) is_header h r = r"
    by (rule check_passes) (use s n count_segs_linked [OF assms(2)] assms(3) in simp_all)
  have "unat (nb_segs (mbufs h (last ms))) \<le> 1" using s n assms(3) by simp
  then have "unat (nb_segs (mbufs h (last ms))) = 0 \<or> unat (nb_segs (mbufs h (last ms))) = Suc 0" by linarith
  then have "count_segs h (Some (last ms)) (unat (nb_segs (mbufs h (last ms)))) = 0" by auto
  then show "checked (Some (last ms)) is_header h r = r"
    by (intro check_passes) (use s assms(3) in simp_all)
qed

lemma sane_lastseg: "sane h ms \<Longrightarrow> linked h (Some (hd ms)) ms \<Longrightarrow> ms \<noteq> [] \<Longrightarrow> rte_pktmbuf_lastseg h (hd ms) = Some (last ms)"
  by (simp add: rte_pktmbuf_lastseg_def sane_passes linked_last)

text \<open>The room behind the data.\<close>

definition room_behind :: "mbuf \<Rightarrow> int16" where
  "room_behind b = buf_len b - data_off b - data_len b"

lemma sane_room:
  assumes "sane h ms" "linked h (Some (hd ms)) ms" "ms \<noteq> []"
  shows "rte_pktmbuf_headroom (hd ms) h = Some (data_off (mbufs h (hd ms)))"
    "rte_pktmbuf_tailroom (last ms) h = Some (room_behind (mbufs h (last ms)))"
  by (simp_all add: rte_pktmbuf_headroom_def rte_pktmbuf_tailroom_def sane_passes [OF assms] room_behind_def)

lemma core_edits [simp]:
  "core (b\<lparr>data_off := u\<rparr>) = core b" "core (b\<lparr>pkt_len := w\<rparr>) = core b"
  "core (b\<lparr>data_len := v\<rparr>) = core b" "core (b\<lparr>next_seg := x\<rparr>) = core b" "core (b\<lparr>nb_segs := y\<rparr>) = core b"
  by (simp_all add: core_def RTE_MBUF_INDIRECT_def)

text \<open>One segment is described anew, and the length of the packet with it.\<close>

lemma redescribed:
  assumes "packet h (xs @ x # ys)" "ram h' = ram h"
    and "\<And>a. a \<in> set (xs @ x # ys) \<Longrightarrow> next_seg (mbufs h' a) = next_seg (mbufs h a)
      \<and> nb_segs (mbufs h' a) = nb_segs (mbufs h a)"
    and "\<And>a. a \<in> set (xs @ ys) \<Longrightarrow> data_start (mbufs h' a) = data_start (mbufs h a)
      \<and> data_len (mbufs h' a) = data_len (mbufs h a) \<and> seg_ok (mbufs h' a)"
    and "seg_ok (mbufs h' x)"
    and "unat (pkt_len (mbufs h' (hd (xs @ x # ys)))) = length (pkt_data h' (xs @ x # ys))"
  shows "packet h' (xs @ x # ys)" "pkt_data h' (xs @ x # ys) = pkt_data h xs @ seg_data h' x @ pkt_data h ys"
proof -
  note g = packetD [OF assms(1)]
  have hd: "hd (xs @ x # ys) \<in> set (xs @ x # ys)" by (rule hd_in_set) simp
  have "linked h' (Some (hd (xs @ x # ys))) (xs @ x # ys)" by (rule linked_same [OF g(2)]) (use assms(3) in blast)
  then show "packet h' (xs @ x # ys)"
    using g(1,3,6) assms(3-6) hd unfolding packet_def by auto
  have "pkt_data h' zs = pkt_data h zs" if "set zs \<subseteq> set (xs @ ys)" for zs
    by (rule pkt_data_same, rule seg_data_same [OF assms(2)]) (use assms(4) that in auto)
  then show "pkt_data h' (xs @ x # ys) = pkt_data h xs @ seg_data h' x @ pkt_data h ys" by simp
qed

lemma unat_add_16: "unat a + unat b < 65536 \<Longrightarrow> unat (a + b :: int16) = unat a + unat b"
  by (simp add: unat_word_ariths)

lemma unat_add_32: "unat a + unat b < 2 ^ 32 \<Longrightarrow> unat (a + b :: int32) = unat a + unat b"
  by (simp add: unat_word_ariths)

lemma unat_up32 [simp]: "unat (ucast (n :: int16) :: int32) = unat n"
  using unat_16 [of n] by (simp add: unsigned_ucast_eq take_bit_nat_eq_self)

lemma unat_sub_le: "n \<le> w \<Longrightarrow> unat (w - n) = unat w - unat (n :: 'a :: len word)"
  by (rule unat_sub)

text \<open>A new description of the first segment, and a new length of the last one.\<close>

lemma head_edit:
  assumes "packet h (x # ys)" "unat off + unat d \<le> unat (buf_len (mbufs h x))"
    and "unat v = unat d + length (pkt_data h ys)"
    and "h' = upd x (\<lambda>b. b\<lparr>data_off := off, data_len := d, pkt_len := v\<rparr>) h"
  shows "packet h' (x # ys)" "pkt_data h' (x # ys) = bytes_at h (buf_addr (mbufs h x) + unat off) (unat d) @ pkt_data h ys"
proof -
  note g = packetD [OF assms(1)]
  have ne: "x \<notin> set ys" using g(3) by simp
  have rest: "pkt_data h' ys = pkt_data h ys"
    by (rule pkt_data_same, rule seg_data_same) (use ne assms(4) in auto)
  have rm: "ram h' = ram h" by (simp add: assms(4))
  have dat: "seg_data h' x = bytes_at h (buf_addr (mbufs h x) + unat off) (unat d)"
    unfolding seg_data_def data_start_def bytes_at_ram [OF rm] by (simp add: assms(4))
  have r: "packet h' ([] @ x # ys)" "pkt_data h' ([] @ x # ys) = pkt_data h [] @ seg_data h' x @ pkt_data h ys"
  proof (rule redescribed [of h "[]" x ys h'])
    show "packet h ([] @ x # ys)" using assms(1) by simp
    show "seg_ok (mbufs h' x)" using assms(2,4) by (simp add: seg_ok_def)
    show "unat (pkt_len (mbufs h' (hd ([] @ x # ys)))) = length (pkt_data h' ([] @ x # ys))"
      using assms(3,4) rest by (simp add: dat)
  qed (use g(4) ne assms(4) rest in auto)
  then show "packet h' (x # ys)" "pkt_data h' (x # ys) = bytes_at h (buf_addr (mbufs h x) + unat off) (unat d) @ pkt_data h ys"
    by (simp_all add: dat)
qed

lemma last_edit:
  assumes "packet h (xs @ [x])" "unat (data_off (mbufs h x)) + unat d \<le> unat (buf_len (mbufs h x))"
    and "unat v = length (pkt_data h xs) + unat d"
    and "h' = upd (hd (xs @ [x])) (\<lambda>b. b\<lparr>pkt_len := v\<rparr>) (upd x (\<lambda>b. b\<lparr>data_len := d\<rparr>) h)"
  shows "packet h' (xs @ [x])" "pkt_data h' (xs @ [x]) = pkt_data h xs @ bytes_at h (data_start (mbufs h x)) (unat d)"
proof -
  note g = packetD [OF assms(1)]
  have ne: "x \<notin> set xs" using g(3) by simp
  have b: "mbufs h' a = (let b = (if a = x then (mbufs h x)\<lparr>data_len := d\<rparr> else mbufs h a)
      in if a = hd (xs @ [x]) then b\<lparr>pkt_len := v\<rparr> else b)" for a
    by (auto simp: assms(4) Let_def)
  have flds: "next_seg (mbufs h' a) = next_seg (mbufs h a)" "nb_segs (mbufs h' a) = nb_segs (mbufs h a)"
    "data_start (mbufs h' a) = data_start (mbufs h a)" "buf_len (mbufs h' a) = buf_len (mbufs h a)"
    "data_off (mbufs h' a) = data_off (mbufs h a)" "data_len (mbufs h' a) = (if a = x then d else data_len (mbufs h a))"
    "ram h' = ram h" "pkt_len (mbufs h' (hd (xs @ [x]))) = v" for a
    by (simp_all add: b Let_def data_start_def) (simp_all add: assms(4))
  have rest: "pkt_data h' xs = pkt_data h xs"
    by (rule pkt_data_same, rule seg_data_same) (use ne flds in auto)
  have dat: "seg_data h' x = bytes_at h (data_start (mbufs h x)) (unat d)"
    by (simp add: seg_data_def bytes_at_ram [OF flds(7)] flds)
  have r: "packet h' (xs @ x # [])" "pkt_data h' (xs @ x # []) = pkt_data h xs @ seg_data h' x @ pkt_data h []"
  proof (rule redescribed [of h xs x "[]" h'])
    show "packet h (xs @ x # [])" using assms(1) by simp
    show "seg_ok (mbufs h' x)" using assms(2) by (simp add: seg_ok_def flds)
    show "unat (pkt_len (mbufs h' (hd (xs @ x # [])))) = length (pkt_data h' (xs @ x # []))"
      using assms(3) rest by (simp add: dat flds)
    show "data_start (mbufs h' a) = data_start (mbufs h a) \<and> data_len (mbufs h' a) = data_len (mbufs h a) \<and> seg_ok (mbufs h' a)"
      if "a \<in> set (xs @ [])" for a
      using that g(4) [of a] ne by (auto simp: flds seg_ok_def)
  qed (simp_all add: flds rest)
  then show "packet h' (xs @ [x])" "pkt_data h' (xs @ [x]) = pkt_data h xs @ bytes_at h (data_start (mbufs h x)) (unat d)"
    by (simp_all add: dat)
qed

lemma prepend_packet:
  assumes "packet h (x # ys)" "sane h (x # ys)"
  shows "case rte_pktmbuf_prepend x n h of
      None \<Rightarrow> False
    | Some (None, h') \<Rightarrow> h' = h \<and> data_off (mbufs h x) < n
    | Some (Some p, h') \<Rightarrow> n \<le> data_off (mbufs h x) \<and> packet h' (x # ys) \<and> sane h' (x # ys)
        \<and> pkt_data h' (x # ys) = bytes_at h p (unat n) @ pkt_data h (x # ys)"
proof -
  note pass = sane_passes(1) [OF assms(2) packetD(2,1) [OF assms(1)], unfolded list.sel]
  show ?thesis
  proof (cases "n \<le> data_off (mbufs h x)")
    case False
    then show ?thesis by (simp add: rte_pktmbuf_prepend_def rte_pktmbuf_headroom_def pass not_le)
  next
    case True
    note g = packetD [OF assms(1)]
    let ?b = "mbufs h x"
    have nle: "unat n \<le> unat (data_off ?b)" using True by (simp add: word_le_nat_alt)
    have ok: "unat (data_off ?b) + unat (data_len ?b) \<le> unat (buf_len ?b)" using g(4) [of x] by (simp add: seg_ok_def)
    have off: "unat (data_off ?b - n) = unat (data_off ?b) - unat n" by (rule unat_sub_le [OF True])
    have len: "unat (data_len ?b + n) = unat (data_len ?b) + unat n"
      by (rule unat_add_16) (use ok nle unat_16 [of "buf_len ?b"] in linarith)
    have tot: "unat (pkt_len ?b + ucast n) = unat (data_len ?b + n) + length (pkt_data h ys)"
      using g(5,8) unat_16 [of n] len by (subst unat_add_32) simp_all
    have "unat (data_off ?b - n) + unat (data_len ?b + n) \<le> unat (buf_len ?b)" using ok nle off len by simp
    note e = head_edit [OF assms(1) this tot]
    let ?p = "buf_addr ?b + unat (data_off ?b - n)"
    have "?p + unat n = data_start ?b" using nle by (simp add: off data_start_def)
    then have "bytes_at h ?p (unat (data_len ?b + n)) = bytes_at h ?p (unat n) @ seg_data h x"
      unfolding len seg_data_def using bytes_at_append [of h ?p "unat n" "unat (data_len ?b)"] by (simp add: add.commute)
    moreover have "sane (upd x (\<lambda>b. b\<lparr>data_off := u, data_len := v, pkt_len := w\<rparr>) h) (x # ys)" for u v w
      by (rule sane_same [OF assms(2)]) simp
    ultimately show ?thesis
      using True e [OF refl]
      by (simp add: pass rte_pktmbuf_prepend_def rte_pktmbuf_headroom_def Let_def mtod_offset_def not_less upd_def)
  qed
qed

lemma adj_packet:
  assumes "packet h (x # ys)" "sane h (x # ys)"
  shows "case rte_pktmbuf_adj x n h of
      None \<Rightarrow> False
    | Some (None, h') \<Rightarrow> h' = h \<and> data_len (mbufs h x) < n
    | Some (Some p, h') \<Rightarrow> n \<le> data_len (mbufs h x) \<and> packet h' (x # ys) \<and> sane h' (x # ys) \<and> p = data_start (mbufs h' x)
        \<and> pkt_data h' (x # ys) = drop (unat n) (pkt_data h (x # ys))"
proof -
  note pass = sane_passes(1) [OF assms(2) packetD(2,1) [OF assms(1)], unfolded list.sel]
  show ?thesis
  proof (cases "n \<le> data_len (mbufs h x)")
    case False
    then show ?thesis by (simp add: rte_pktmbuf_adj_def pass not_le)
  next
    case True
    note g = packetD [OF assms(1)]
    let ?b = "mbufs h x"
    have nle: "unat n \<le> unat (data_len ?b)" using True by (simp add: word_le_nat_alt)
    have ok: "unat (data_off ?b) + unat (data_len ?b) \<le> unat (buf_len ?b)" using g(4) [of x] by (simp add: seg_ok_def)
    have len: "unat (data_len ?b - n) = unat (data_len ?b) - unat n" by (rule unat_sub_le [OF True])
    have off: "unat (data_off ?b + n) = unat (data_off ?b) + unat n"
      by (rule unat_add_16) (use ok nle unat_16 [of "buf_len ?b"] in linarith)
    have tot: "unat (pkt_len ?b - ucast n) = unat (data_len ?b - n) + length (pkt_data h ys)"
      using g(5) nle by (subst unat_sub_le) (simp_all add: len word_le_nat_alt)
    have "unat (data_off ?b + n) + unat (data_len ?b - n) \<le> unat (buf_len ?b)" using ok nle off len by simp
    note e = head_edit [OF assms(1) this tot]
    have "bytes_at h (buf_addr ?b + unat (data_off ?b + n)) (unat (data_len ?b - n)) = drop (unat n) (seg_data h x)"
      using bytes_at_part [of "unat n" "unat (data_len ?b) - unat n" "unat (data_len ?b)" h "data_start ?b"] nle
      by (simp add: off len seg_data_def data_start_def add.assoc)
    moreover have "sane (upd x (\<lambda>b. b\<lparr>data_off := u, data_len := v, pkt_len := w\<rparr>) h) (x # ys)" for u v w
      by (rule sane_same [OF assms(2)]) simp
    ultimately show ?thesis
      using True nle e [OF refl]
      by (simp add: pass rte_pktmbuf_adj_def Let_def mtod_offset_def data_start_def not_less upd_def)
  qed
qed

lemma append_packet:
  assumes "packet h ms" "sane h ms"
  shows "case rte_pktmbuf_append (hd ms) n h of
      None \<Rightarrow> False
    | Some (None, h') \<Rightarrow> h' = h \<and> room_behind (mbufs h (last ms)) < n
    | Some (Some p, h') \<Rightarrow> n \<le> room_behind (mbufs h (last ms)) \<and> packet h' ms \<and> sane h' ms
        \<and> pkt_data h' ms = pkt_data h ms @ bytes_at h p (unat n)"
proof -
  note g = packetD [OF assms(1)]
  note pass = sane_passes(1) [OF assms(2) g(2,1)] and room0 = sane_room(2) [OF assms(2) g(2,1)]
  obtain xs x where ms: "ms = xs @ [x]" using g(1) by (metis append_butlast_last_id)
  have last: "rte_pktmbuf_lastseg h (hd ms) = Some x" using sane_lastseg [OF assms(2) g(2,1)] by (simp add: ms)
  let ?b = "mbufs h x"
  have ok: "unat (data_off ?b) + unat (data_len ?b) \<le> unat (buf_len ?b)" using g(4) [of x] by (simp add: seg_ok_def ms)
  have "data_off ?b \<le> buf_len ?b" "data_len ?b \<le> buf_len ?b - data_off ?b"
    using ok by (simp_all add: word_le_nat_alt unat_sub)
  then have room: "unat (room_behind ?b) = unat (buf_len ?b) - unat (data_off ?b) - unat (data_len ?b)"
    by (simp add: room_behind_def unat_sub_le)
  have tail: "rte_pktmbuf_tailroom x h = Some (room_behind ?b)" using room0 by (simp add: ms)
  show ?thesis
  proof (cases "n \<le> room_behind ?b")
    case False
    then have "rte_pktmbuf_append (hd ms) n h = Some (None, h)" using last by (simp add: rte_pktmbuf_append_def pass tail Let_def not_le)
    then show ?thesis using False by (simp add: ms not_le)
  next
    case True
    then have nle: "unat (data_off ?b) + (unat (data_len ?b) + unat n) \<le> unat (buf_len ?b)"
      using room ok by (simp add: word_le_nat_alt)
    have len: "unat (data_len ?b + n) = unat (data_len ?b) + unat n"
      by (rule unat_add_16) (use nle unat_16 [of "buf_len ?b"] in linarith)
    have tot: "unat (pkt_len (mbufs h (hd ms)) + ucast n) = length (pkt_data h xs) + unat (data_len ?b + n)"
      using g(5,8) unat_16 [of n] len by (subst unat_add_32) (simp_all add: ms)
    let ?h = "upd (hd (xs @ [x])) (\<lambda>b. b\<lparr>pkt_len := pkt_len (mbufs h (hd ms)) + ucast n\<rparr>) (upd x (\<lambda>b. b\<lparr>data_len := data_len ?b + n\<rparr>) h)"
    have "unat (data_off ?b) + unat (data_len ?b + n) \<le> unat (buf_len ?b)" using nle len by simp
    note e = last_edit [OF assms(1) [unfolded ms] this tot refl]
    have sane: "sane ?h ms" by (rule sane_same [OF assms(2)]) (simp add: ms)
    have "bytes_at h (data_start ?b) (unat (data_len ?b + n)) = seg_data h x @ bytes_at h (mtod_offset ?b (ucast (data_len ?b))) (unat n)"
      unfolding len seg_data_def mtod_offset_def data_start_def unat_up32 by (rule bytes_at_append [symmetric])
    moreover have "rte_pktmbuf_append (hd ms) n h = Some (Some (mtod_offset ?b (ucast (data_len ?b))), ?h)"
      using last True tail by (simp add: rte_pktmbuf_append_def pass) (simp add: ms not_less upd_def fun_upd_def Let_def cong: if_cong)
    ultimately show ?thesis using True e sane by (simp add: ms)
  qed
qed

lemma trim_packet:
  assumes "packet h ms" "sane h ms"
  shows "case rte_pktmbuf_trim (hd ms) n h of
      None \<Rightarrow> False
    | Some (r, h') \<Rightarrow> (if data_len (mbufs h (last ms)) < n then r = - 1 \<and> h' = h
        else r = 0 \<and> packet h' ms \<and> sane h' ms \<and> pkt_data h' ms = take (length (pkt_data h ms) - unat n) (pkt_data h ms))"
proof -
  note g = packetD [OF assms(1)]
  note pass = sane_passes(1) [OF assms(2) g(2,1)] and room0 = sane_room(2) [OF assms(2) g(2,1)]
  obtain xs x where ms: "ms = xs @ [x]" using g(1) by (metis append_butlast_last_id)
  have last: "rte_pktmbuf_lastseg h (hd ms) = Some x" using sane_lastseg [OF assms(2) g(2,1)] by (simp add: ms)
  let ?b = "mbufs h x"
  show ?thesis
  proof (cases "n \<le> data_len ?b")
    case False
    then have "rte_pktmbuf_trim (hd ms) n h = Some (- 1, h)" using last by (simp add: rte_pktmbuf_trim_def pass not_le)
    then show ?thesis using False by (simp add: ms not_le)
  next
    case True
    then have nle: "unat n \<le> unat (data_len ?b)" by (simp add: word_le_nat_alt)
    have ok: "unat (data_off ?b) + unat (data_len ?b) \<le> unat (buf_len ?b)" using g(4) [of x] by (simp add: seg_ok_def ms)
    have len: "unat (data_len ?b - n) = unat (data_len ?b) - unat n" by (rule unat_sub_le [OF True])
    have tot: "unat (pkt_len (mbufs h (hd ms)) - ucast n) = length (pkt_data h xs) + unat (data_len ?b - n)"
      using g(5) nle by (subst unat_sub_le) (simp_all add: len word_le_nat_alt ms)
    let ?h = "upd (hd (xs @ [x])) (\<lambda>b. b\<lparr>pkt_len := pkt_len (mbufs h (hd ms)) - ucast n\<rparr>) (upd x (\<lambda>b. b\<lparr>data_len := data_len ?b - n\<rparr>) h)"
    have "unat (data_off ?b) + unat (data_len ?b - n) \<le> unat (buf_len ?b)" using ok nle len by simp
    note e = last_edit [OF assms(1) [unfolded ms] this tot refl]
    have sane: "sane ?h ms" by (rule sane_same [OF assms(2)]) (simp add: ms)
    have "bytes_at h (data_start ?b) (unat (data_len ?b - n)) = take (unat (data_len ?b) - unat n) (seg_data h x)"
      using bytes_at_part [of 0 "unat (data_len ?b) - unat n" "unat (data_len ?b)" h "data_start ?b"]
      by (simp add: len seg_data_def)
    moreover have "rte_pktmbuf_trim (hd ms) n h = Some (0, ?h)"
      using last True by (simp add: rte_pktmbuf_trim_def pass) (simp add: ms not_less upd_def fun_upd_def cong: if_cong)
    ultimately show ?thesis using True nle e sane by (simp add: ms)
  qed
qed

lemma linked_join:
  assumes "linked h mo ms" "ms \<noteq> []" "distinct ms" "next_seg (mbufs h' (last ms)) = Some t"
    and "\<And>a. a \<in> set ms \<Longrightarrow> a \<noteq> last ms \<Longrightarrow> next_seg (mbufs h' a) = next_seg (mbufs h a)" "linked h' (Some t) ts"
  shows "linked h' mo (ms @ ts)"
  using assms
proof (induction ms arbitrary: mo)
  case (Cons m ms)
  show ?case
  proof (cases "ms = []")
    case True
    then show ?thesis using Cons.prems by simp
  next
    case False
    then have "m \<noteq> last ms" using Cons.prems(3) last_in_set by fastforce
    then show ?thesis using Cons.IH [of "next_seg (mbufs h m)"] Cons.prems False by simp
  qed
qed simp

lemma chain_packet:
  assumes "packet h ms" "packet h ts" "set ms \<inter> set ts = {}" "sane h ms" "sane h ts"
  shows "case rte_pktmbuf_chain (hd ms) (hd ts) h of
      None \<Rightarrow> False
    | Some (r, h') \<Rightarrow> (if 256 \<le> length ms + length ts then r = - EOVERFLOW \<and> h' = h
        else r = 0 \<and> packet h' (ms @ ts) \<and> sane h' (ms @ ts) \<and> pkt_data h' (ms @ ts) = pkt_data h ms @ pkt_data h ts)"
proof (cases "256 \<le> length ms + length ts")
  case True
  then show ?thesis using packetD(6) [OF assms(1)] packetD(6) [OF assms(2)] by (simp add: rte_pktmbuf_chain_def)
next
  case False
  note g = packetD [OF assms(1)] and t = packetD [OF assms(2)]
  obtain h' where h': "rte_pktmbuf_chain (hd ms) (hd ts) h = Some (0, h')"
    "h' = (let h = set_next (last ms) (Some (hd ts)) h; b = mbufs h (hd ts);
        h = upd (hd ms) (\<lambda>a. a\<lparr>nb_segs := nb_segs a + nb_segs b, pkt_len := pkt_len a + pkt_len b\<rparr>) h
      in upd (hd ts) (\<lambda>b. b\<lparr>pkt_len := ucast (data_len b)\<rparr>) h)"
    using False g(6) t(6) sane_lastseg [OF assms(4) g(2,1)] by (simp add: rte_pktmbuf_chain_def Let_def)
  have mem: "hd ms \<in> set ms" "last ms \<in> set ms" "hd ts \<in> set ts" using g(1) t(1) by simp_all
  then have ne: "hd ts \<noteq> hd ms" "hd ts \<noteq> last ms" using assms(3) by auto
  have flds: "next_seg (mbufs h' a) = (if a = last ms then Some (hd ts) else next_seg (mbufs h a))"
    "data_start (mbufs h' a) = data_start (mbufs h a)" "data_len (mbufs h' a) = data_len (mbufs h a)"
    "seg_ok (mbufs h' a) = seg_ok (mbufs h a)" "ram h' = ram h"
    "nb_segs (mbufs h' (hd ms)) = nb_segs (mbufs h (hd ms)) + nb_segs (mbufs h (hd ts))"
    "pkt_len (mbufs h' (hd ms)) = pkt_len (mbufs h (hd ms)) + pkt_len (mbufs h (hd ts))" for a
    using ne by (auto simp: h'(2) Let_def data_start_def seg_ok_def)
  have core: "core (mbufs h' a) = core (mbufs h a)" for a by (simp add: h'(2) Let_def)
  have nb: "nb_segs (mbufs h' a) = nb_segs (mbufs h a)" if "a \<noteq> hd ms" for a using that ne by (simp add: h'(2) Let_def)
  have lk: "linked h' (Some (hd ms)) (ms @ ts)"
  proof (rule linked_join [OF g(2,1,3)])
    show "linked h' (Some (hd ts)) ts"
      by (rule linked_same [OF t(2)]) (use assms(3) mem in \<open>auto simp: flds\<close>)
  qed (simp_all add: flds)
  have dat: "pkt_data h' zs = pkt_data h zs" for zs
    by (rule pkt_data_same, rule seg_data_same) (simp_all add: flds)
  have "unat (nb_segs (mbufs h' (hd ms))) = length (ms @ ts)"
    using g(6) t(6) False by (simp add: flds unat_word_ariths)
  moreover have "unat (pkt_len (mbufs h' (hd ms))) = length (pkt_data h' (ms @ ts))"
    using g(5,8) t(5,8) by (subst flds, subst unat_add_32) (simp_all add: dat)
  ultimately have "packet h' (ms @ ts)"
    unfolding packet_def using lk g(1,3,4) t(3,4) assms(3) by (auto simp: flds)
  moreover have "sane h' (ms @ ts)"
  proof -
    obtain x xs where x: "ms = x # xs" using g(1) by (cases ms) auto
    have so: "segs_ok h xs" "segs_ok h ts" using assms(4,5) by (simp_all add: sane_def x)
    have "a \<noteq> hd ms" if "a \<in> set xs \<union> set ts" for a using that g(3) assms(3) mem(1) x by auto
    then have "segs_ok h' xs" "segs_ok h' ts"
      using segs_ok_same [OF so(1), of h'] segs_ok_same [OF so(2), of h'] nb by simp_all
    then have "segs_ok h' (ms @ ts)"
      using \<open>unat (nb_segs (mbufs h' (hd ms))) = length (ms @ ts)\<close> x by (simp add: segs_ok_join)
    then show ?thesis using assms(4,5) coreD [OF core] by (auto simp: sane_def sound_def)
  qed
  ultimately show ?thesis using h'(1) False dat by simp
qed

section \<open>Reading\<close>

lemma find_seg_data:
  assumes "linked h mo ms" "unat off < length (pkt_data h ms)"
  shows "\<exists>xs x ys off'. find_seg h mo off = Some (x, off') \<and> ms = xs @ x # ys
    \<and> unat off = length (pkt_data h xs) + unat off' \<and> unat off' < unat (data_len (mbufs h x)) \<and> linked h (Some x) (x # ys)"
  using assms
proof (induction ms arbitrary: mo off)
  case (Cons m ms)
  let ?n = "ucast (data_len (mbufs h m)) :: int32"
  have m: "mo = Some m" "linked h (next_seg (mbufs h m)) ms" using Cons.prems(1) by simp_all
  show ?case
  proof (cases "?n \<le> off")
    case False
    then have "unat off < unat (data_len (mbufs h m))" by (simp add: word_less_nat_alt not_le)
    moreover have "find_seg h mo off = Some (m, off)" using False by (subst find_seg.simps) (simp add: m(1) Let_def)
    ultimately show ?thesis using m by (intro exI [of _ "[]"] exI [of _ m] exI [of _ ms] exI [of _ off]) simp
  next
    case True
    then have off: "unat (off - ?n) = unat off - unat (data_len (mbufs h m))" "unat (data_len (mbufs h m)) \<le> unat off"
      by (simp_all add: unat_sub_le word_le_nat_alt)
    then have "unat (off - ?n) < length (pkt_data h ms)" using Cons.prems(2) by simp
    from Cons.IH [OF m(2) this] obtain xs x ys off' where r: "find_seg h (next_seg (mbufs h m)) (off - ?n) = Some (x, off')"
      "ms = xs @ x # ys" "unat (off - ?n) = length (pkt_data h xs) + unat off'" "unat off' < unat (data_len (mbufs h x))"
      "linked h (Some x) (x # ys)" by blast
    have "find_seg h mo off = Some (x, off')" using True r(1) by (subst find_seg.simps) (simp add: m(1) Let_def)
    then show ?thesis using r off by (intro exI [of _ "m # xs"] exI [of _ x] exI [of _ ys] exI [of _ off']) simp
  qed
qed simp

text \<open>No byte of the segments lies in the buffer of the reader.\<close>

definition clear_of :: "mbuf_heap \<Rightarrow> nat list \<Rightarrow> nat \<Rightarrow> nat \<Rightarrow> bool" where
  "clear_of h ms p n \<longleftrightarrow> (\<forall>m \<in> set ms. data_start (mbufs h m) + unat (data_len (mbufs h m)) \<le> p
     \<or> p + n \<le> data_start (mbufs h m))"

lemma bytes_at_cong: "(\<And>a. p \<le> a \<Longrightarrow> a < p + n \<Longrightarrow> ram h' a = ram h a) \<Longrightarrow> bytes_at h' p n = bytes_at h p n"
  by (simp add: bytes_at_def)

lemma clear_data:
  assumes "clear_of h ms p n" "mbufs h' = mbufs h" "\<And>a. \<not> (p \<le> a \<and> a < p + n) \<Longrightarrow> ram h' a = ram h a"
  shows "pkt_data h' ms = pkt_data h ms"
proof (rule pkt_data_same)
  fix m
  assume "m \<in> set ms"
  then show "seg_data h' m = seg_data h m"
    using assms unfolding seg_data_def clear_of_def by (auto intro!: bytes_at_cong)
qed

lemma memcpy_facts:
  "mbufs (memcpy p q n h) = mbufs h" "\<not> (p \<le> a \<and> a < p + n) \<Longrightarrow> ram (memcpy p q n h) a = ram h a"
  "bytes_at (memcpy p q n h) p n = bytes_at h q n" "memcpy p q n h = h\<lparr>ram := ram (memcpy p q n h)\<rparr>"
proof -
  show "bytes_at (memcpy p q n h) p n = bytes_at h q n"
    by (rule nth_equalityI) (simp_all add: bytes_at_def memcpy_def)
qed (auto simp: memcpy_def)

lemma copy_segs_data:
  assumes "linked h mo ms" "unat off + unat n \<le> length (pkt_data h ms)" "ms \<noteq> [] \<Longrightarrow> off \<le> ucast (data_len (mbufs h (hd ms)))"
    and "unat k + unat n \<le> B" "B < 2 ^ 32" "clear_of h ms p B"
  shows "\<exists>ram'. copy_segs p mo off n k h = Some (h\<lparr>ram := ram'\<rparr>)
    \<and> bytes_at (h\<lparr>ram := ram'\<rparr>) (p + unat k) (unat n) = take (unat n) (drop (unat off) (pkt_data h ms))
    \<and> (\<forall>a. \<not> (p + unat k \<le> a \<and> a < p + unat k + unat n) \<longrightarrow> ram' a = ram h a)"
  using assms
proof (induction ms arbitrary: mo off n k h)
  case Nil
  then have "n = 0" by (simp add: unat_eq_zero)
  then have "copy_segs p mo off n k h = Some h" by (subst copy_segs.simps) simp
  then show ?case using \<open>n = 0\<close> by (intro exI [of _ "ram h"]) (simp add: bytes_at_def)
next
  case (Cons m ms)
  show ?case
  proof (cases "n = 0")
    case True
    then have "copy_segs p mo off n k h = Some h" by (subst copy_segs.simps) simp
    then show ?thesis using True by (intro exI [of _ "ram h"]) (simp add: bytes_at_def)
  next
    case False
    let ?d = "unat (data_len (mbufs h m))" and ?rest = "ucast (data_len (mbufs h m)) - off"
    let ?c = "if n < ?rest then n else ?rest"
    have m: "mo = Some m" "linked h (next_seg (mbufs h m)) ms" using Cons.prems(1) by simp_all
    have off: "unat off \<le> ?d" using Cons.prems(3) by (simp add: word_le_nat_alt)
    have c0: "unat ?rest = ?d - unat off" using Cons.prems(3) by (subst unat_sub_le) simp_all
    have c: "unat ?c = min (unat n) (?d - unat off)" using c0 by (auto simp: word_less_nat_alt)
    have nc: "unat (n - ?c) = unat n - unat ?c"
      by (rule unat_sub_le) (simp add: word_le_nat_alt c)
    have kc: "unat (k + ?c) = unat k + unat ?c"
      by (rule unat_add_32) (use Cons.prems(4,5) c in linarith)
    let ?h = "memcpy (p + unat k) (mtod_offset (mbufs h m) off) (unat ?c) h"
    note mc = memcpy_facts [where p = "p + unat k" and q = "mtod_offset (mbufs h m) off" and n = "unat ?c" and h = h]
    have clear: "clear_of h ms p B" using Cons.prems(6) by (simp add: clear_of_def)
    have inside: "p + unat k + unat ?c \<le> p + B" using Cons.prems(4) c by linarith
    have same: "pkt_data ?h ms = pkt_data h ms"
      by (rule clear_data [OF clear mc(1)], rule mc(2)) (use inside in linarith)
    have len: "length (pkt_data h (m # ms)) = ?d + length (pkt_data h ms)" by simp
    have p1: "unat (0 :: int32) + unat (n - ?c) \<le> length (pkt_data ?h ms)"
      using Cons.prems(2) len same nc c by simp
    have p2: "unat (k + ?c) + unat (n - ?c) \<le> B" using Cons.prems(4) nc kc c by simp
    have p3: "linked ?h (next_seg (mbufs h m)) ms" by (rule linked_same [OF m(2)]) (simp add: mc(1))
    have p4: "clear_of ?h ms p B" using clear by (simp add: clear_of_def mc(1))
    from Cons.IH [OF p3 p1 _ p2 Cons.prems(5) p4] obtain ram' where
      r: "copy_segs p (next_seg (mbufs h m)) 0 (n - ?c) (k + ?c) ?h = Some (?h\<lparr>ram := ram'\<rparr>)"
      "bytes_at (?h\<lparr>ram := ram'\<rparr>) (p + unat (k + ?c)) (unat (n - ?c)) = take (unat (n - ?c)) (pkt_data ?h ms)"
      "\<And>a. \<not> (p + unat (k + ?c) \<le> a \<and> a < p + unat (k + ?c) + unat (n - ?c)) \<Longrightarrow> ram' a = ram ?h a"
      by auto
    have heap: "?h\<lparr>ram := ram'\<rparr> = h\<lparr>ram := ram'\<rparr>" by (subst mc(4)) simp
    have run: "copy_segs p mo off n k h = Some (h\<lparr>ram := ram'\<rparr>)"
      unfolding heap [symmetric] r(1) [symmetric] using False
      by (subst copy_segs.simps) (simp add: m(1) Let_def memcpy_facts(1))
    have "bytes_at (h\<lparr>ram := ram'\<rparr>) (p + unat k) (unat ?c) = bytes_at ?h (p + unat k) (unat ?c)"
      by (rule bytes_at_cong) (simp add: r(3) kc)
    also have "\<dots> = take (unat ?c) (drop (unat off) (seg_data h m))"
      unfolding mc(3) unfolding seg_data_def mtod_offset_def data_start_def
      using off c by (subst bytes_at_part) (simp_all add: add.assoc)
    finally have a: "bytes_at (h\<lparr>ram := ram'\<rparr>) (p + unat k) (unat ?c) = take (unat ?c) (drop (unat off) (seg_data h m))" .
    have b: "bytes_at (h\<lparr>ram := ram'\<rparr>) (p + unat k + unat ?c) (unat n - unat ?c) = take (unat n - unat ?c) (pkt_data h ms)"
      using r(2) unfolding heap kc nc same by (simp add: add.assoc)
    have "bytes_at (h\<lparr>ram := ram'\<rparr>) (p + unat k) (unat n) =
        take (unat ?c) (drop (unat off) (seg_data h m)) @ take (unat n - unat ?c) (pkt_data h ms)"
      unfolding a [symmetric] b [symmetric] bytes_at_append using c by simp
    also have "\<dots> = take (unat n) (drop (unat off) (pkt_data h (m # ms)))"
      using off unfolding c by (cases "unat n \<le> ?d - unat off") (simp_all add: min_def)
    finally have d: "bytes_at (h\<lparr>ram := ram'\<rparr>) (p + unat k) (unat n) = take (unat n) (drop (unat off) (pkt_data h (m # ms)))" .
    have "ram' a = ram h a" if "\<not> (p + unat k \<le> a \<and> a < p + unat k + unat n)" for a
    proof -
      have "ram' a = ram ?h a" by (rule r(3)) (use that kc nc c in auto)
      also have "\<dots> = ram h a" by (rule mc(2)) (use that c in auto)
      finally show ?thesis .
    qed
    then show ?thesis using run d by blast
  qed
qed

lemma pkt_data_split:
  "n + k \<le> length (seg_data h x) \<Longrightarrow>
    take k (drop (length (pkt_data h xs) + n) (pkt_data h (xs @ x # ys))) = take k (drop n (seg_data h x))"
  by simp

lemma read_data:
  assumes "packet h ms" "clear_of h ms p (unat n)" "unat off + unat n < 2 ^ 32"
    and "0 < unat n \<or> unat off < length (pkt_data h ms)"
  shows "case rte_pktmbuf_read (hd ms) off n p h of
      None \<Rightarrow> False
    | Some (None, h') \<Rightarrow> h' = h \<and> length (pkt_data h ms) < unat off + unat n
    | Some (Some q, h') \<Rightarrow> bytes_at h' q (unat n) = take (unat n) (drop (unat off) (pkt_data h ms))
        \<and> unat off + unat n \<le> length (pkt_data h ms) \<and> (\<exists>ram'. h' = h\<lparr>ram := ram'\<rparr>
        \<and> (\<forall>a. \<not> (p \<le> a \<and> a < p + unat n) \<longrightarrow> ram' a = ram h a))"
proof -
  note g = packetD [OF assms(1)]
  have sum: "unat (off + n) = unat off + unat n" by (rule unat_add_32) (rule assms(3))
  have unch: "\<exists>ram'. h = h\<lparr>ram := ram'\<rparr> \<and> (\<forall>a. \<not> (p \<le> a \<and> a < p + unat n) \<longrightarrow> ram' a = ram h a)"
    by (intro exI [of _ "ram h"]) simp
  have hdlen: "unat (data_len (mbufs h (hd ms))) \<le> length (pkt_data h ms)" using g(1) by (cases ms) simp_all
  have start: "mtod_offset (mbufs h x) k = data_start (mbufs h x) + unat k" for x k
    by (simp add: mtod_offset_def data_start_def)
  show ?thesis
  proof (cases "off + n \<le> ucast (data_len (mbufs h (hd ms)))")
    case True
    then have le: "unat off + unat n \<le> unat (data_len (mbufs h (hd ms)))" using sum by (simp add: word_le_nat_alt)
    have "bytes_at h (mtod_offset (mbufs h (hd ms)) off) (unat n) = take (unat n) (drop (unat off) (seg_data h (hd ms)))"
      unfolding start seg_data_def by (rule bytes_at_part [OF le, symmetric])
    moreover have "\<dots> = take (unat n) (drop (unat off) (pkt_data h ms))"
      using g(1) le by (cases ms) simp_all
    ultimately show ?thesis using True le hdlen unch by (simp add: rte_pktmbuf_read_def)
  next
    case False
    then have slow: "rte_pktmbuf_read (hd ms) off n p h = pktmbuf_read_slow (hd ms) off n p h"
      by (simp add: rte_pktmbuf_read_def)
    show ?thesis
    proof (cases "pkt_len (mbufs h (hd ms)) < off + n")
      case True
      then show ?thesis using g(5) sum by (simp add: slow pktmbuf_read_slow_def word_less_nat_alt)
    next
      case inside: False
      then have le: "unat off + unat n \<le> length (pkt_data h ms)" using g(5) sum by (simp add: word_less_nat_alt)
      then have "unat off < length (pkt_data h ms)" using assms(4) by auto
      from find_seg_data [OF g(2) this] obtain xs x ys k where f: "find_seg h (Some (hd ms)) off = Some (x, k)"
        "ms = xs @ x # ys" "unat off = length (pkt_data h xs) + unat k" "unat k < unat (data_len (mbufs h x))"
        "linked h (Some x) (x # ys)" by blast
      have kn: "unat (k + n) = unat k + unat n" by (rule unat_add_32) (use assms(3) f(3) in simp)
      show ?thesis
      proof (cases "k + n \<le> ucast (data_len (mbufs h x))")
        case True
        then have l: "unat k + unat n \<le> unat (data_len (mbufs h x))" using kn by (simp add: word_le_nat_alt)
        have "bytes_at h (mtod_offset (mbufs h x) k) (unat n) = take (unat n) (drop (unat k) (seg_data h x))"
          unfolding start seg_data_def by (rule bytes_at_part [OF l, symmetric])
        also have "\<dots> = take (unat n) (drop (unat off) (pkt_data h ms))"
          unfolding f(2,3) by (rule pkt_data_split [symmetric]) (simp add: l)
        finally show ?thesis
          using True inside f(1) le unch by (simp add: slow pktmbuf_read_slow_def)
      next
        case False
        have tail: "drop (unat off) (pkt_data h ms) = drop (unat k) (pkt_data h (x # ys))" by (simp add: f(2,3))
        have clear: "clear_of h (x # ys) p (unat n)" using assms(2) f(2) by (simp add: clear_of_def)
        have "unat k + unat n \<le> length (pkt_data h (x # ys))" using le f(2,3) by simp
        moreover have "k \<le> ucast (data_len (mbufs h (hd (x # ys))))" using f(4) by (simp add: word_le_nat_alt)
        ultimately obtain ram' where c: "copy_segs p (Some x) k n 0 h = Some (h\<lparr>ram := ram'\<rparr>)"
          "bytes_at (h\<lparr>ram := ram'\<rparr>) p (unat n) = take (unat n) (drop (unat k) (pkt_data h (x # ys)))"
          "\<forall>a. \<not> (p \<le> a \<and> a < p + unat n) \<longrightarrow> ram' a = ram h a"
          using copy_segs_data [OF f(5), of k n 0 "unat n" p] clear assms(3) by auto
        have "rte_pktmbuf_read (hd ms) off n p h = Some (Some p, h\<lparr>ram := ram'\<rparr>)"
          using False inside f(1) c(1) by (simp add: slow pktmbuf_read_slow_def)
        then show ?thesis using c(2,3) le by (auto simp: tail)
      qed
    qed
  qed
qed

text \<open>Where the sum of offset and length wraps around, the check is passed and the pointer leaves the
  packet; and nothing read at the very end follows the last link when the first segment is not all.\<close>

lemma read_wraps:
  assumes "packet h ms" "2 ^ 32 \<le> unat off + unat n" "unat (off + n) \<le> unat (data_len (mbufs h (hd ms)))"
  shows "rte_pktmbuf_read (hd ms) off n p h = Some (Some (data_start (mbufs h (hd ms)) + unat off), h)"
    "length (pkt_data h ms) < unat off + unat n"
  using assms(3) packetD(8) [OF assms(1)] assms(2)
  by (simp_all add: rte_pktmbuf_read_def word_le_nat_alt mtod_offset_def data_start_def)

lemma find_seg_end: "linked h mo ms \<Longrightarrow> unat off = length (pkt_data h ms) \<Longrightarrow> find_seg h mo off = None"
proof (induction ms arbitrary: mo off)
  case Nil
  then show ?case by (simp add: find_seg.simps)
next
  case (Cons m ms)
  have le: "ucast (data_len (mbufs h m)) \<le> off" using Cons.prems(2) by (simp add: word_le_nat_alt)
  then have "unat (off - ucast (data_len (mbufs h m))) = length (pkt_data h ms)"
    using Cons.prems(2) by (simp add: unat_sub_le)
  then have "find_seg h (next_seg (mbufs h m)) (off - ucast (data_len (mbufs h m))) = None"
    using Cons.IH Cons.prems(1) by simp
  then show ?case using le Cons.prems(1) by (subst find_seg.simps) (simp add: Let_def)
qed

lemma read_end:
  assumes "packet h ms" "unat (data_len (mbufs h (hd ms))) < length (pkt_data h ms)"
  shows "rte_pktmbuf_read (hd ms) (pkt_len (mbufs h (hd ms))) 0 p h = None"
proof -
  note g = packetD [OF assms(1)]
  have "\<not> pkt_len (mbufs h (hd ms)) \<le> ucast (data_len (mbufs h (hd ms)))"
    using assms(2) g(5) by (simp add: word_le_nat_alt)
  moreover have "find_seg h (Some (hd ms)) (pkt_len (mbufs h (hd ms))) = None" by (rule find_seg_end [OF g(2,5)])
  ultimately show ?thesis by (simp add: rte_pktmbuf_read_def pktmbuf_read_slow_def)
qed

end
