(* ===== verification/Clients.thy ===== *)
theory Clients
  imports Packet
begin

text \<open>
  The life of a pool of packet buffers: its creation in memory, the calls of its clients in any
  order, and what the threads of the transmitter see of a buffer. The reference counts of all
  buffers stay right through every sequence of calls, so that a buffer lies in its pool exactly
  when nobody holds it and nobody borrows its bytes.
\<close>

section \<open>Creation\<close>

definition RTE_MBUF_PRIV_ALIGN :: nat where
  "RTE_MBUF_PRIV_ALIGN = 8"

text \<open>The arguments of the creation of a pool and the memory it is given: the sizes kept before and
  after an element, the memory of the internal ring, and a chunk of memory.\<close>

record pool_args =
  arg_n :: nat
  arg_cache :: nat
  arg_priv :: int16
  arg_room :: int16
  arg_header :: nat
  arg_trailer :: nat
  arg_junk :: "nat list"
  arg_vaddr :: nat
  arg_len :: nat

definition arg_elt :: "pool_args \<Rightarrow> nat" where
  "arg_elt a = sizeof_rte_mbuf + unat (arg_priv a) + unat (arg_room a)"

text \<open>As \<open>rte_pktmbuf_pool_create\<close> of \<open>Startup\<close>, with the headers and the private area in memory; \<open>mp\<close> is the
  address of the pool.\<close>

definition heap_pool_create :: "nat \<Rightarrow> pool_args \<Rightarrow> mbuf_heap \<Rightarrow> mbuf_heap option" where
  "heap_pool_create mp a h =
     (if align_ceil (unat (arg_priv a)) RTE_MBUF_PRIV_ALIGN \<noteq> unat (arg_priv a) then None
      else let mbp_priv = \<lparr>mbuf_data_room_size = arg_room a, mbuf_priv_size = arg_priv a\<rparr>
           in case rte_mempool_create_empty (arg_n a) (arg_header a, arg_elt a, arg_trailer a) (arg_cache a) 0 of
                None \<Rightarrow> None
              | Some p \<Rightarrow>
                  (let h = h\<lparr>privs := (privs h)(mp := pktmbuf_pool_init (arg_elt a) (Some mbp_priv))\<rparr>
                   in case rte_mempool_populate_phys (arg_junk a) (arg_vaddr a) (arg_len a) p of
                        Some (Inr k, p) \<Rightarrow> Some (fold (pktmbuf_init mp) (elt_list p) (h\<lparr>pools := (pools h)(mp := p)\<rparr>))
                      | _ \<Rightarrow> None))"

lemma create_elt_size: "rte_mempool_create_empty n objsz c f = Some p \<Longrightarrow> elt_size p = fst (snd objsz)"
  by (auto simp: rte_mempool_create_empty_def split: if_splits)

lemma add_elem_elt_size: "mempool_add_elem a p = Some p' \<Longrightarrow> elt_size p' = elt_size p"
  by (auto simp: mempool_add_elem_def rte_mempool_ops_enqueue_bulk_def)

lemma loop_elt_size: "populate_loop m v off len p = Some p' \<Longrightarrow> elt_size p' = elt_size p"
  by (induction m arbitrary: off p) (auto split: if_splits option.splits dest: add_elem_elt_size)

lemma populate_elt_size: "rte_mempool_populate_phys junk v len p = Some (r, p') \<Longrightarrow> elt_size p' = elt_size p"
  by (auto simp: rte_mempool_populate_phys_def Let_def common_ring_alloc_def
      split: option.splits if_splits dest: loop_elt_size)

text \<open>The header of a new buffer.\<close>

definition new_mbuf :: "nat \<Rightarrow> nat \<Rightarrow> mbuf_heap \<Rightarrow> mbuf" where
  "new_mbuf mp m h = mbufs (pktmbuf_init mp m h) m"

lemma init_simps:
  "mbufs (pktmbuf_init mp m h) = (mbufs h)(m := new_mbuf mp m h)" "pools (pktmbuf_init mp m h) = pools h"
  "privs (pktmbuf_init mp m h) = privs h" "phys (pktmbuf_init mp m h) = phys h"
  "ram (pktmbuf_init mp m h) = memset m 0 (elt_size (pools h mp)) (ram h)"
  by (simp_all add: new_mbuf_def pktmbuf_init_def Let_def)

lemma new_simps [simp]:
  "refcnt (new_mbuf mp m h) = 0" "pool (new_mbuf mp m h) = mp" "ol_flags (new_mbuf mp m h) = 0"
  "next_seg (new_mbuf mp m h) = None"
  by (simp_all add: new_mbuf_def pktmbuf_init_def Let_def)

lemma new_mbuf_cong: "privs h' = privs h \<Longrightarrow> phys h' = phys h \<Longrightarrow> new_mbuf mp m h' = new_mbuf mp m h"
  by (simp add: new_mbuf_def pktmbuf_init_def Let_def rte_pktmbuf_priv_size_def rte_pktmbuf_data_room_size_def
      rte_mempool_virt2phy_def)

lemma fold_init_heap:
  fixes mp :: nat and es :: "nat list" and h :: mbuf_heap
  defines "h' \<equiv> fold (pktmbuf_init mp) es h"
  shows "mbufs h' a = (if a \<in> set es then new_mbuf mp a h else mbufs h a)"
    "pools h' = pools h" "privs h' = privs h" "phys h' = phys h"
    "ram h' a = (if \<exists>m \<in> set es. m \<le> a \<and> a < m + elt_size (pools h mp) then 0 else ram h a)"
proof -
  have "mbufs (fold (pktmbuf_init mp) es h) a = (if a \<in> set es then new_mbuf mp a h else mbufs h a)
    \<and> pools (fold (pktmbuf_init mp) es h) = pools h \<and> privs (fold (pktmbuf_init mp) es h) = privs h
    \<and> phys (fold (pktmbuf_init mp) es h) = phys h \<and> ram (fold (pktmbuf_init mp) es h) a =
      (if \<exists>m \<in> set es. m \<le> a \<and> a < m + elt_size (pools h mp) then 0 else ram h a)"
  proof (induction es arbitrary: h)
    case (Cons e es)
    have c: "new_mbuf mp a (pktmbuf_init mp e h) = new_mbuf mp a h" for a
      by (rule new_mbuf_cong) (simp_all add: init_simps)
    show ?case using Cons [of "pktmbuf_init mp e h"] by (auto simp: c init_simps memset_def)
  qed simp
  then show "mbufs h' a = (if a \<in> set es then new_mbuf mp a h else mbufs h a)"
    "pools h' = pools h" "privs h' = privs h" "phys h' = phys h"
    "ram h' a = (if \<exists>m \<in> set es. m \<le> a \<and> a < m + elt_size (pools h mp) then 0 else ram h a)"
    by (simp_all add: h'_def)
qed

text \<open>All buffers of a new pool lie in it, unused.\<close>

definition pool_addrs :: "pool_args \<Rightarrow> nat list" where
  "pool_addrs a = map (elt_addr (arg_vaddr a) (arg_header a, arg_elt a, arg_trailer a)) [0..<arg_n a]"

definition args_ok :: "pool_args \<Rightarrow> bool" where
  "args_ok a \<longleftrightarrow> arg_cache a \<le> RTE_MEMPOOL_CACHE_MAX_SIZE \<and> CALC_CACHE_FLUSHTHRESH (arg_cache a) \<le> arg_n a
     \<and> (\<exists>k \<in> {1..27}. 2 ^ (k - 1) \<le> arg_n a \<and> arg_n a < 2 ^ k \<and> length (arg_junk a) = 2 ^ k) \<and> 8 dvd unat (arg_priv a)
     \<and> align_ceil (arg_vaddr a) RTE_CACHE_LINE_SIZE - arg_vaddr a
         + arg_n a * (arg_header a + arg_elt a + arg_trailer a) \<le> arg_len a"

lemma distinct_pool_addrs: "distinct (pool_addrs a)"
  by (auto simp: pool_addrs_def distinct_map inj_on_def elt_addr_def arg_elt_def sizeof_rte_mbuf_def RTE_CACHE_LINE_SIZE_def)

lemma heap_pool:
  assumes "args_ok a" "mp \<noteq> 0"
  defines "U \<equiv> set (pool_addrs a)"
  obtains h1 where "heap_pool_create mp a h = Some h1"
    "refs_ok U {} {#} h1" "\<And>m. m \<in> U \<Longrightarrow> pool (mbufs h1 m) = mp" "pool_objs (pools h1 mp) = mset (pool_addrs a)"
    "privs h1 mp = \<lparr>mbuf_data_room_size = arg_room a, mbuf_priv_size = arg_priv a\<rparr>"
    "\<And>m. m \<in> U \<Longrightarrow> mbufs h1 m = new_mbuf mp m h1"
    "\<And>m x. m \<in> U \<Longrightarrow> m \<le> x \<Longrightarrow> x < m + arg_elt a \<Longrightarrow> ram h1 x = 0"
    "mp_cache_size (pools h1 mp) = arg_cache a" "mp_flags (pools h1 mp) = MEMPOOL_F_POOL_CREATED"
    "queued (pool_data (pools h1 mp)) = pool_addrs a"
proof -
  let ?sz = "(arg_header a, arg_elt a, arg_trailer a)"
  let ?es = "pool_addrs a"
  obtain k where k: "0 < k" "k \<le> 27" "2 ^ (k - 1) \<le> arg_n a" "arg_n a < 2 ^ k" "length (arg_junk a) = 2 ^ k"
    using assms(1) by (auto simp: args_ok_def)
  have "align_ceil (arg_vaddr a) RTE_CACHE_LINE_SIZE - arg_vaddr a + arg_n a * (fst ?sz + fst (snd ?sz) + snd (snd ?sz)) \<le> arg_len a"
    "arg_cache a \<le> RTE_MEMPOOL_CACHE_MAX_SIZE" "CALC_CACHE_FLUSHTHRESH (arg_cache a) \<le> arg_n a"
    using assms(1) by (simp_all add: args_ok_def)
  then obtain p0 p where p: "rte_mempool_create_empty (arg_n a) ?sz (arg_cache a) 0 = Some p0"
    "rte_mempool_populate_phys (arg_junk a) (arg_vaddr a) (arg_len a) p0 = Some (Inr (arg_n a), p)" "pool_ok p" "mp_size p = arg_n a"
    "local_cache p = replicate RTE_MAX_LCORE (mempool_cache_init (arg_cache a))" "queued (pool_data p) = ?es" "elt_list p = ?es"
    "mp_cache_size p = arg_cache a" "mp_flags p = MEMPOOL_F_POOL_CREATED"
    using fresh_pool [OF _ _ k, of "arg_cache a" "arg_vaddr a" ?sz "arg_len a"] unfolding pool_addrs_def by blast
  have el: "elt_size p = arg_elt a"
    using populate_elt_size [OF p(2)] create_elt_size [OF p(1)] by simp
  have objs: "pool_objs p = mset ?es" by (simp add: pool_objs_def p(5,6) cached_replicate)
  have al: "align_ceil (unat (arg_priv a)) RTE_MBUF_PRIV_ALIGN = unat (arg_priv a)"
    using assms(1) by (auto simp: args_ok_def align_ceil_def RTE_MBUF_PRIV_ALIGN_def elim!: dvdE)
  let ?h = "h\<lparr>privs := (privs h)(mp := \<lparr>mbuf_data_room_size = arg_room a, mbuf_priv_size = arg_priv a\<rparr>),
    pools := (pools h)(mp := p)\<rparr>"
  let ?h1 = "fold (pktmbuf_init mp) ?es ?h"
  have run: "heap_pool_create mp a h = Some ?h1"
    by (simp add: heap_pool_create_def al p(1,2,7) Let_def pktmbuf_pool_init_def)
  note f = fold_init_heap [of mp ?es ?h]
  have c: "new_mbuf mp x ?h1 = new_mbuf mp x ?h" for x by (rule new_mbuf_cong) (simp_all add: f)
  have b: "mbufs ?h1 m = new_mbuf mp m ?h1" if "m \<in> U" for m using that unfolding c f(1) by (simp add: U_def)
  have no_bor: "borrowers U ?h1 x = {}" for x
    by (auto simp: borrowers_def attached_def b direct_0)
  have "counts_ok U {} {#} ?h1"
    unfolding counts_ok_def
  proof (intro conjI ballI impI)
    fix m
    assume m: "m \<in> U"
    show "at_home ?h1 m"
      unfolding at_home_def Let_def b [OF m]
      by (simp add: new_mbuf_def pktmbuf_init_def Let_def rte_pktmbuf_priv_size_def rte_pktmbuf_data_room_size_def
          rte_mempool_virt2phy_def)
  qed (simp_all add: no_bor b direct_0)
  moreover have "pools_ok U (unused U ?h1 - {}) ?h1"
  proof -
    have "unused U ?h1 = U" by (auto simp: unused_def b)
    moreover have "homes U ?h1 \<subseteq> {mp}" by (auto simp: homes_def b)
    moreover have "{m \<in> U. pool (mbufs ?h1 m) = mp} = U" by (auto simp: b)
    moreover have "card U = arg_n a" "mset ?es = mset_set U"
      using distinct_card [OF distinct_pool_addrs] mset_set_set [OF distinct_pool_addrs]
      by (simp_all add: U_def pool_addrs_def)
    ultimately show ?thesis unfolding pools_ok_def using p(3,4) objs by (auto simp: f)
  qed
  moreover have "sound (mbufs ?h1 m)" if "m \<in> U" for m
    using assms(2) unfolding b [OF that]
    by (simp add: sound_def new_mbuf_def pktmbuf_init_def Let_def sizeof_rte_mbuf_def RTE_CACHE_LINE_SIZE_def)
  ultimately have ok: "refs_ok U {} {#} ?h1" by (simp add: refs_ok_def U_def)
  show ?thesis
  proof (rule that [OF run ok])
    show "pool (mbufs ?h1 m) = mp" if "m \<in> U" for m using b [OF that] by simp
    show "ram ?h1 x = 0" if "m \<in> U" "m \<le> x" "x < m + arg_elt a" for m x
      using that by (auto simp: f el U_def)
    show "mbufs ?h1 m = new_mbuf mp m ?h1" if "m \<in> U" for m by (rule b [OF that])
  qed (simp_all add: f objs p)
qed

section \<open>The calls of the clients\<close>

text \<open>A call is made only where the library allows it; otherwise the client does nothing. \<open>H\<close> has the
  references the clients hold. A packet is named by its segments, the first of which the code is
  called with, and its header says how many there are; \<open>ps\<close> are the pools in use. A count that is
  full would be found by the checks, so a reference is added only below that. A call whose checks
  fail ends the program: \<open>None\<close>.\<close>

datatype mbuf_call =
    Mbuf_alloc nat nat
  | Mbuf_attach nat nat
  | Mbuf_detach nat nat
  | Mbuf_alloc_bulk nat nat nat
  | Mbuf_refs "nat list"
  | Mbuf_free nat "nat list"
  | Mbuf_clone nat nat "nat list"
  | Mbuf_chain "nat list" "nat list"
  | Mbuf_prepend "nat list" int16
  | Mbuf_append "nat list" int16
  | Mbuf_adj "nat list" int16
  | Mbuf_trim "nat list" int16

definition held_packet :: "nat multiset \<Rightarrow> mbuf_heap \<Rightarrow> nat list \<Rightarrow> bool" where
  "held_packet H h ss \<longleftrightarrow> ss \<noteq> [] \<and> linked h (Some (hd ss)) ss \<and> distinct ss \<and> mset ss \<subseteq># H
     \<and> unat (nb_segs (mbufs h (hd ss))) = length ss \<and> segs_ok h ss"

text \<open>The segments of the packet a call returned.\<close>

fun follow :: "mbuf_heap \<Rightarrow> nat \<Rightarrow> nat option \<Rightarrow> nat list" where
  "follow h (Suc n) (Some m) = m # follow h n (next_seg (mbufs h m))"
| "follow h n mo = []"

fun mbuf_step :: "nat list \<Rightarrow> mbuf_call \<Rightarrow> nat multiset \<times> mbuf_heap \<Rightarrow> (nat multiset \<times> mbuf_heap) option" where
  "mbuf_step ps (Mbuf_alloc l mp) (H, h) =
     (if mp \<in> set ps
      then map_option (\<lambda>(r, h). (case r of None \<Rightarrow> H | Some m \<Rightarrow> add_mset m H, h)) (rte_pktmbuf_alloc l mp h)
      else Some (H, h))"
| "mbuf_step ps (Mbuf_attach mi m) (H, h) =
     (if mi \<in># H \<and> RTE_MBUF_DIRECT (mbufs h mi) \<and> refcnt (mbufs h mi) = 1 \<and> m \<in># H \<and> m \<noteq> mi
         \<and> unat (refcnt (mbufs h (owner h m))) < 65534
      then map_option (Pair H) (rte_pktmbuf_attach mi m h) else Some (H, h))"
| "mbuf_step ps (Mbuf_detach l m) (H, h) =
     map_option (Pair H) (if m \<in># H \<and> RTE_MBUF_INDIRECT (mbufs h m) then rte_pktmbuf_detach l m h else Some h)"
| "mbuf_step ps (Mbuf_alloc_bulk l mp n) (H, h) =
     (if mp \<in> set ps \<and> 0 < n \<and> n < 2 ^ 31
      then map_option (\<lambda>(ret, xs, h). (if ret = 0 then H + mset xs else H, h)) (rte_pktmbuf_alloc_bulk l mp n h)
      else Some (H, h))"
| "mbuf_step ps (Mbuf_refs ss) (H, h) =
     (if held_packet H h ss \<and> (\<forall>s \<in> set ss. unat (refcnt (mbufs h s)) < 65534)
      then map_option (Pair (H + mset ss)) (pktmbuf_refcnt_update (hd ss) 1 h) else Some (H, h))"
| "mbuf_step ps (Mbuf_free l ss) (H, h) =
     (if held_packet H h ss then map_option (Pair (H - mset ss)) (rte_pktmbuf_free l (Some (hd ss)) h) else Some (H, h))"
| "mbuf_step ps (Mbuf_clone l mp ss) (H, h) =
     (if mp \<in> set ps \<and> held_packet H h ss \<and> clonable h H ss
      then map_option (\<lambda>(r, h). (H + mset (follow h (length ss) r), h)) (rte_pktmbuf_clone l mp (hd ss) h)
      else Some (H, h))"
| "mbuf_step ps (Mbuf_chain ss ts) (H, h) =
     (if held_packet H h ss \<and> held_packet H h ts \<and> set ss \<inter> set ts = {}
      then map_option (\<lambda>(r, h). (H, h)) (rte_pktmbuf_chain (hd ss) (hd ts) h) else Some (H, h))"
| "mbuf_step ps (Mbuf_prepend ss n) (H, h) =
     (if held_packet H h ss then map_option (\<lambda>(r, h). (H, h)) (rte_pktmbuf_prepend (hd ss) n h) else Some (H, h))"
| "mbuf_step ps (Mbuf_append ss n) (H, h) =
     (if held_packet H h ss then map_option (\<lambda>(r, h). (H, h)) (rte_pktmbuf_append (hd ss) n h) else Some (H, h))"
| "mbuf_step ps (Mbuf_adj ss n) (H, h) =
     (if held_packet H h ss then map_option (\<lambda>(r, h). (H, h)) (rte_pktmbuf_adj (hd ss) n h) else Some (H, h))"
| "mbuf_step ps (Mbuf_trim ss n) (H, h) =
     (if held_packet H h ss then map_option (\<lambda>(r, h). (H, h)) (rte_pktmbuf_trim (hd ss) n h) else Some (H, h))"

fun mbuf_run :: "nat list \<Rightarrow> mbuf_call list \<Rightarrow> nat multiset \<times> mbuf_heap \<Rightarrow> (nat multiset \<times> mbuf_heap) option" where
  "mbuf_run ps [] s = Some s"
| "mbuf_run ps (c # cs) s = Option.bind (mbuf_step ps c s) (mbuf_run ps cs)"

lemma follow_linked: "linked h mo ms \<Longrightarrow> follow h (length ms) mo = ms"
  by (induction ms arbitrary: mo) auto

lemma follow_None [simp]: "follow h n None = []"
  by (cases n) simp_all

text \<open>One more reference does not fill a count.\<close>

lemma inc_not_full: "unat (w :: int16) < 65534 \<Longrightarrow> w + 1 \<noteq> - 1"
proof
  assume less: "unat w < 65534" and "w + 1 = - 1"
  then have "unat (w + 1) = unat (- 1 :: int16)" by (intro arg_cong [where f = unat])
  then show False using less unat_inc [of w] by (simp add: unsigned_minus_1_eq_mask mask_eq_exp_minus_1)
qed

lemma held_sane: "refs_ok U {} H h \<Longrightarrow> set ms \<subseteq> set_mset H \<Longrightarrow> segs_ok h ms \<Longrightarrow> sane h ms"
  using held_live refs_okD(10) by (auto simp: sane_def subset_iff)

lemma packet_passes:
  assumes "refs_ok U {} H h" "held_packet H h ss"
  shows "checked (Some (hd ss)) is_header h r = r" "rte_pktmbuf_lastseg h (hd ss) = Some (last ss)"
    "rte_pktmbuf_headroom (hd ss) h = Some (data_off (mbufs h (hd ss)))"
    "rte_pktmbuf_tailroom (last ss) h = Some (room_behind (mbufs h (last ss)))"
proof -
  have p: "linked h (Some (hd ss)) ss" "ss \<noteq> []" "set ss \<subseteq> set_mset H" "segs_ok h ss"
    using assms(2) set_mset_mono by (fastforce simp: held_packet_def)+
  note s = held_sane [OF assms(1) p(3,4)]
  show "checked (Some (hd ss)) is_header h r = r" by (rule sane_passes(1) [OF s p(1,2)])
  show "rte_pktmbuf_lastseg h (hd ss) = Some (last ss)" by (rule sane_lastseg [OF s p(1,2)])
  show "rte_pktmbuf_headroom (hd ss) h = Some (data_off (mbufs h (hd ss)))"
    "rte_pktmbuf_tailroom (last ss) h = Some (room_behind (mbufs h (last ss)))" by (rule sane_room [OF s p(1,2)])+
qed

lemma add_ref:
  assumes "refs_ok U {} H h" "m \<in># H" "unat (refcnt (mbufs h m)) < 65534"
  shows "refs_ok U {} (add_mset m H) (rte_mbuf_refcnt_set m (refcnt (mbufs h m) + 1) h)" (is "refs_ok U {} ?H ?h")
proof -
  note g = refs_okD [OF assms(1)] and live = held_live [OF assms(1,2)]
  have inc: "unat (refcnt (mbufs h m) + 1) = Suc (unat (refcnt (mbufs h m)))" by (rule unat_inc) (use assms(3) in simp)
  have rc: "unat (refcnt (mbufs ?h a)) = count ?H a + card (borrowers U ?h a)" if "a \<in> U" for a
    using g(3) [OF that] inc by (cases "a = m") (simp_all only: set_refcnt_facts, simp_all)
  have "refcnt (mbufs h m) + 1 \<noteq> 0" using inc by (metis nat.distinct(1) unat_0)
  then have u: "unused U ?h = unused U h" using live(2) by (auto simp: unused_def)
  have "pools_ok U F ?h = pools_ok U F h" for F by (rule pools_ok_same) simp_all
  then have "pools_ok U (unused U ?h - {}) ?h" using g(8) u by simp
  moreover have "counts_ok U {} ?H ?h"
    unfolding counts_ok_def using g(2,4-7) live(1) rc
    by (simp only: set_refcnt_facts) (auto simp: subset_iff)
  moreover have "sound (mbufs ?h a)" if a: "a \<in> U" for a
    using g(10) [OF a] g(10) [OF live(1)] inc_not_full [OF assms(3)] by (simp add: sound_def)
  ultimately show ?thesis using g(1) by (simp add: refs_ok_def)
qed

lemma homes_pool: "(\<And>a. pool (mbufs h' a) = pool (mbufs h a)) \<Longrightarrow> homes U h' = homes U h"
  by (simp add: homes_def)

lemma refs_ok_upd:
  assumes "\<And>b. core (f b) = core b"
  shows "refs_ok U X H (upd m f h) = refs_ok U X H h" "homes U (upd m f h) = homes U h"
proof -
  show "refs_ok U X H (upd m f h) = refs_ok U X H h" by (rule refs_ok_core) (simp_all add: assms)
  show "homes U (upd m f h) = homes U h" by (rule homes_pool) (simp add: coreD(7) [OF assms])
qed

lemma chain_edits:
  "refs_ok U X H (upd t (\<lambda>b. b\<lparr>pkt_len := ucast (data_len b)\<rparr>)
     (upd m (\<lambda>b. b\<lparr>nb_segs := nb_segs b + x, pkt_len := pkt_len b + y\<rparr>) (upd a (\<lambda>b. b\<lparr>next_seg := v\<rparr>) h))) = refs_ok U X H h"
  "homes U (upd t (\<lambda>b. b\<lparr>pkt_len := ucast (data_len b)\<rparr>)
     (upd m (\<lambda>b. b\<lparr>nb_segs := nb_segs b + x, pkt_len := pkt_len b + y\<rparr>) (upd a (\<lambda>b. b\<lparr>next_seg := v\<rparr>) h))) = homes U h"
  by (simp_all add: refs_ok_upd)

text \<open>What a call does to the state: it returns, and the invariant holds for the new references.\<close>

definition call_ok :: "nat set \<Rightarrow> mbuf_heap \<Rightarrow> (nat multiset \<times> mbuf_heap) option \<Rightarrow> bool" where
  "call_ok U h r \<longleftrightarrow> (\<exists>H' h'. r = Some (H', h') \<and> refs_ok U {} H' h' \<and> homes U h' = homes U h)"

lemma call_okI: "refs_ok U {} H' h' \<Longrightarrow> homes U h' = homes U h \<Longrightarrow> call_ok U h (Some (H', h'))"
  by (simp add: call_ok_def)

lemma alloc_step:
  assumes "refs_ok U {} H h" "mp \<in> homes U h"
  shows "call_ok U h (map_option (\<lambda>(r, h). (case r of None \<Rightarrow> H | Some m \<Rightarrow> add_mset m H, h)) (rte_pktmbuf_alloc l mp h))"
proof (cases rule: alloc [OF assms, of l])
  case 1
  then show ?thesis using assms(1) by (simp add: call_ok_def)
next
  case (2 m p h')
  have "homes U h' = homes U h" by (rule homes_pool) (simp add: 2(2))
  then show ?thesis using 2(1,6) by (simp add: call_ok_def)
qed

lemma free_step:
  assumes "refs_ok U {} H h" "held_packet H h ss"
  shows "call_ok U h (map_option (Pair (H - mset ss)) (rte_pktmbuf_free l (Some (hd ss)) h))"
proof -
  obtain h' where h': "rte_pktmbuf_free l (Some (hd ss)) h = Some h'" "refs_ok U {} (H - mset ss) h'"
    "\<And>a. pool (mbufs h' a) = pool (mbufs h a)"
    using free_packet [OF assms(1), of "hd ss" ss l] assms(2) by (auto simp: held_packet_def)
  then show ?thesis using homes_pool [of h' h] by (simp add: call_ok_def)
qed

lemma clone_step:
  assumes "refs_ok U {} H h" "mp \<in> homes U h" "held_packet H h ss" "clonable h H ss"
  shows "call_ok U h (map_option (\<lambda>(r, h). (H + mset (follow h (length ss) r), h)) (rte_pktmbuf_clone l mp (hd ss) h))"
proof -
  have ss: "ss \<noteq> []" "linked h (Some (hd ss)) ss" "distinct ss" using assms(3) by (simp_all add: held_packet_def)
  from clone_facts [OF assms(1,4) ss assms(2), of l] show ?thesis
  proof (elim disjE exE conjE)
    fix h' A
    assume r: "rte_pktmbuf_clone l mp (hd ss) h = Some (None, h')" "refs_ok U {} H h'" "same_outside A h h'"
    then show ?thesis using homes_same [OF r(3)] by (simp add: call_ok_def)
  next
    fix cs h'
    assume r: "rte_pktmbuf_clone l mp (hd ss) h = Some (Some (hd cs), h')" "refs_ok U {} (H + mset cs) h'"
      "length cs = length ss" "same_outside (set cs) h h'" "linked h' (Some (hd cs)) cs"
    have "follow h' (length ss) (Some (hd cs)) = cs" using follow_linked [OF r(5)] r(3) by simp
    then show ?thesis using r(1,2) homes_same [OF r(4)] by (simp add: call_ok_def)
  qed
qed

lemma detach_step:
  assumes "refs_ok U {} H h"
  shows "call_ok U h (map_option (Pair H) (if m \<in># H \<and> RTE_MBUF_INDIRECT (mbufs h m) then rte_pktmbuf_detach l m h else Some h))"
proof (cases "m \<in># H \<and> RTE_MBUF_INDIRECT (mbufs h m)")
  case False
  then show ?thesis using assms by (auto simp: call_ok_def)
next
  case True
  then have m: "m \<in> U" using held_live [OF assms] by blast
  obtain h' where h': "rte_pktmbuf_detach l m h = Some h'" "refs_ok U {} H h'" "same_but m h h'"
    using detach [OF assms m, of l] True by blast
  have "homes U h' = homes U h" by (rule homes_pool) (rule same_but_pool [OF h'(3)])
  then show ?thesis using h' True by (simp add: call_ok_def)
qed

lemma bulk_step:
  assumes "refs_ok U {} H h" "mp \<in> homes U h" "0 < n" "n < 2 ^ 31"
  shows "call_ok U h (map_option (\<lambda>(ret, xs, h). (if ret = 0 then H + mset xs else H, h)) (rte_pktmbuf_alloc_bulk l mp n h))"
proof -
  obtain ret xs h' where r: "rte_pktmbuf_alloc_bulk l mp n h = Some (ret, xs, h')" "\<And>a. pool (mbufs h' a) = pool (mbufs h a)"
    "ret = 0 \<and> length xs = n \<and> refs_ok U {} (H + mset xs) h' \<or> ret < 0 \<and> h' = h"
    using alloc_bulk [OF assms, of l] by blast
  then show ?thesis using assms(1) homes_pool [of h' h, OF r(2)] by (auto simp: call_ok_def)
qed

lemma refs_links:
  assumes "refs_ok U {} H h" "linked h (Some m) ms" "ms \<noteq> []" "distinct ms" "set ms \<subseteq> set_mset H"
    and "\<And>s. s \<in> set ms \<Longrightarrow> unat (refcnt (mbufs h s)) < 65534"
  shows "\<exists>h'. update_segs m 1 h = Some h' \<and> refs_ok U {} (H + mset ms) h' \<and> (\<forall>a. pool (mbufs h' a) = pool (mbufs h a))"
  using assms
proof (induction ms arbitrary: m H h)
  case (Cons x ms)
  let ?h = "rte_mbuf_refcnt_set x (refcnt (mbufs h x) + 1) h"
  have x: "x = m" "linked h (next_seg (mbufs h m)) ms" using Cons.prems(2) by auto
  have ok: "refs_ok U {} (add_mset x H) ?h" by (rule add_ref [OF Cons.prems(1)]) (use Cons.prems(5,6) in auto)
  have run: "update_segs m 1 h = (case next_seg (mbufs h m) of None \<Rightarrow> Some ?h | Some m \<Rightarrow> update_segs m 1 ?h)"
    unfolding x(1) by (subst update_segs.simps) (simp add: refcnt_update_eq Let_def)
  show ?case
  proof (cases ms)
    case Nil
    then show ?thesis using x ok run by simp
  next
    case more: (Cons y ys)
    then have y: "next_seg (mbufs h m) = Some y" using x(2) by simp
    have l: "linked ?h (Some y) ms" by (rule linked_same) (use x(2) y in auto)
    have c: "unat (refcnt (mbufs ?h s)) < 65534" if "s \<in> set ms" for s using Cons.prems(4,6) that by auto
    have p: "ms \<noteq> []" "distinct ms" "set ms \<subseteq> set_mset (add_mset x H)" using Cons.prems(4,5) more by auto
    from Cons.IH [OF ok l p c] show ?thesis using run y by auto
  qed
qed simp

lemma refs_step:
  assumes "refs_ok U {} H h" "held_packet H h ss \<and> (\<forall>s \<in> set ss. unat (refcnt (mbufs h s)) < 65534)"
  shows "call_ok U h (map_option (Pair (H + mset ss)) (pktmbuf_refcnt_update (hd ss) 1 h))"
proof -
  have ss: "linked h (Some (hd ss)) ss" "ss \<noteq> []" "distinct ss" "set ss \<subseteq> set_mset H"
    using assms(2) set_mset_mono by (fastforce simp: held_packet_def)+
  obtain h' where h': "update_segs (hd ss) 1 h = Some h'" "refs_ok U {} (H + mset ss) h'"
    "\<And>a. pool (mbufs h' a) = pool (mbufs h a)"
    using refs_links [OF assms(1) ss] assms(2) by blast
  note pass = packet_passes(1) [OF assms(1) conjunct1 [OF assms(2)]]
  show ?thesis using h' homes_pool [of h' h] by (simp add: call_ok_def pktmbuf_refcnt_update_def pass)
qed

lemma attach_step:
  assumes "refs_ok U {} H h" "mi \<in># H \<and> RTE_MBUF_DIRECT (mbufs h mi) \<and> refcnt (mbufs h mi) = 1 \<and> m \<in># H \<and> m \<noteq> mi
    \<and> unat (refcnt (mbufs h (owner h m))) < 65534"
  shows "call_ok U h (map_option (Pair H) (rte_pktmbuf_attach mi m h))"
proof -
  have g: "mi \<in># H" "RTE_MBUF_DIRECT (mbufs h mi)" "refcnt (mbufs h mi) = 1" "m \<noteq> mi"
    "unat (refcnt (mbufs h (owner h m))) < 65534" "m \<in># H" using assms(2) by simp_all
  note live = held_live [OF assms(1) g(6)]
  have "homes U (attach_fields mi m h) = homes U h"
    by (rule homes_same [OF attach_same [OF owner_not_alone(1) [OF assms(1) g(1,3) live(1) g(4)]]])
  then show ?thesis
    using attach [OF assms(1) g(1-3) live(1) g(4,5) live(2)]
    by (simp add: call_ok_def attach_runs [OF assms(1) g(1-3) live(1) g(4,5) live(2)])
qed

text \<open>The edits of a held packet.\<close>

lemma edit_steps:
  assumes "refs_ok U {} H h" "held_packet H h ss"
  shows "call_ok U h (map_option (\<lambda>(r, h). (H, h)) (rte_pktmbuf_prepend (hd ss) n h))"
    "call_ok U h (map_option (\<lambda>(r, h). (H, h)) (rte_pktmbuf_append (hd ss) n h))"
    "call_ok U h (map_option (\<lambda>(r, h). (H, h)) (rte_pktmbuf_adj (hd ss) n h))"
    "call_ok U h (map_option (\<lambda>(r, h). (H, h)) (rte_pktmbuf_trim (hd ss) n h))"
    "call_ok U h (map_option (\<lambda>(r, h). (H, h)) (rte_pktmbuf_chain (hd ss) t h))"
proof -
  note p = packet_passes [OF assms]
  note defs = Let_def refs_ok_upd set_next_def chain_edits assms(1)
  show "call_ok U h (map_option (\<lambda>(r, h). (H, h)) (rte_pktmbuf_prepend (hd ss) n h))"
    by (auto simp: rte_pktmbuf_prepend_def p defs intro!: call_okI)
  show "call_ok U h (map_option (\<lambda>(r, h). (H, h)) (rte_pktmbuf_append (hd ss) n h))"
    by (auto simp: rte_pktmbuf_append_def p defs intro!: call_okI)
  show "call_ok U h (map_option (\<lambda>(r, h). (H, h)) (rte_pktmbuf_adj (hd ss) n h))"
    by (auto simp: rte_pktmbuf_adj_def p defs intro!: call_okI)
  show "call_ok U h (map_option (\<lambda>(r, h). (H, h)) (rte_pktmbuf_trim (hd ss) n h))"
    by (auto simp: rte_pktmbuf_trim_def p defs intro!: call_okI)
  show "call_ok U h (map_option (\<lambda>(r, h). (H, h)) (rte_pktmbuf_chain (hd ss) t h))"
    by (auto simp: rte_pktmbuf_chain_def p defs intro!: call_okI)
qed

lemma step_keeps:
  assumes "refs_ok U {} H h" "set ps \<subseteq> homes U h"
  shows "call_ok U h (mbuf_step ps c (H, h))"
proof -
  have idle: "call_ok U h (Some (H, h))" using assms(1) by (simp add: call_okI)
  show ?thesis
  proof (cases c)
    case (Mbuf_alloc l mp)
    then show ?thesis using alloc_step [OF assms(1)] assms(2) idle by (auto simp: subset_iff)
  next
    case (Mbuf_attach mi m)
    then show ?thesis using attach_step [OF assms(1)] idle by simp
  next
    case (Mbuf_detach l m)
    then show ?thesis using detach_step [OF assms(1)] by simp
  next
    case (Mbuf_alloc_bulk l mp n)
    then show ?thesis using bulk_step [OF assms(1)] assms(2) idle by (auto simp: subset_iff)
  next
    case (Mbuf_refs ss)
    then show ?thesis using refs_step [OF assms(1)] idle by simp
  next
    case (Mbuf_free l ss)
    then show ?thesis using free_step [OF assms(1)] idle by simp
  next
    case (Mbuf_clone l mp ss)
    then show ?thesis using clone_step [OF assms(1)] assms(2) idle by (auto simp: subset_iff)
  next
    case (Mbuf_chain ss ts)
    then show ?thesis using edit_steps(5) [OF assms(1)] idle by simp
  next
    case (Mbuf_prepend ss n)
    then show ?thesis using edit_steps(1) [OF assms(1)] idle by simp
  next
    case (Mbuf_append ss n)
    then show ?thesis using edit_steps(2) [OF assms(1)] idle by simp
  next
    case (Mbuf_adj ss n)
    then show ?thesis using edit_steps(3) [OF assms(1)] idle by simp
  next
    case (Mbuf_trim ss n)
    then show ?thesis using edit_steps(4) [OF assms(1)] idle by simp
  qed
qed

lemma run_keeps:
  assumes "refs_ok U {} H h" "set ps \<subseteq> homes U h"
  shows "\<exists>H' h'. mbuf_run ps cs (H, h) = Some (H', h') \<and> refs_ok U {} H' h' \<and> homes U h' = homes U h"
  using assms
proof (induction cs arbitrary: H h)
  case (Cons c cs)
  obtain H1 h1 where s: "mbuf_step ps c (H, h) = Some (H1, h1)" "refs_ok U {} H1 h1" "homes U h1 = homes U h"
    using step_keeps [OF Cons.prems, of c] by (auto simp: call_ok_def)
  then show ?case using Cons.IH [OF s(2)] Cons.prems(2) by simp
qed simp

section \<open>What the threads see\<close>

text \<open>A buffer with its bytes, as the stages of the transmitter work on it.\<close>

definition view :: "mbuf_heap \<Rightarrow> nat \<Rightarrow> rte_mbuf" where
  "view h m =
     (let b = mbufs h m
      in \<lparr>buf_len = buf_len b, data_off = data_off b, refcnt = refcnt b, nb_segs = nb_segs b, port = port b,
          ol_flags = ol_flags b, packet_type = packet_type b, pkt_len = pkt_len b, data_len = data_len b,
          vlan_tci = vlan_tci b, vlan_tci_outer = vlan_tci_outer b, tx_offload = tx_offload b,
          buf = bytes_at h (buf_addr b) (unat (buf_len b))\<rparr>)"

lemma view_new:
  assumes "args_ok a" "mp \<noteq> 0" "heap_pool_create mp a h = Some h1" "m \<in> set (pool_addrs a)"
  shows "view h1 m = rte_pktmbuf_init (unat (arg_room a))"
proof -
  obtain h2 where h2: "heap_pool_create mp a h = Some h2" "privs h2 mp = \<lparr>mbuf_data_room_size = arg_room a, mbuf_priv_size = arg_priv a\<rparr>"
    "mbufs h2 m = new_mbuf mp m h2" "\<And>x. m \<le> x \<Longrightarrow> x < m + arg_elt a \<Longrightarrow> ram h2 x = 0"
    by (rule heap_pool [OF assms(1,2), of h]) (use assms(4) in blast)
  have e: "h2 = h1" using h2(1) assms(3) by simp
  have "bytes_at h1 (m + (sizeof_rte_mbuf + unat (arg_priv a))) (unat (arg_room a)) = replicate (unat (arg_room a)) 0"
    by (rule nth_equalityI) (simp_all add: bytes_at_def h2(4) [unfolded e] arg_elt_def)
  then show ?thesis
    by (simp add: view_def Let_def h2(3) [unfolded e] new_mbuf_def pktmbuf_init_def rte_pktmbuf_init_def
        rte_pktmbuf_data_room_size_def rte_pktmbuf_priv_size_def h2(2) [unfolded e])
qed

lemma view_alloc:
  assumes "refs_ok U {} H h" "mp \<in> homes U h" "rte_pktmbuf_alloc l mp h = Some (Some m, h')"
  shows "view h' m = rte_pktmbuf_prepare (view h m)"
proof (cases rule: alloc [OF assms(1,2), of l])
  case 1
  then show ?thesis using assms(3) by simp
next
  case (2 x p h2)
  then have "x = m" "h2 = h'" using assms(3) by simp_all
  moreover have "mbufs h2 x = fresh_mbuf (mbufs h x)" "ram h2 = ram h" by (simp_all add: 2(2))
  ultimately have "mbufs h' m = fresh_mbuf (mbufs h m)" "ram h' = ram h" by simp_all
  then show ?thesis
    by (simp add: view_def Let_def rte_pktmbuf_prepare_def rte_pktmbuf_reset_def fresh_mbuf_def bytes_at_def)
qed

lemma got_runs:
  assumes "refs_ok U {} H h" "mp \<in> homes U h" "rte_mempool_get l (pools h mp) = Some (0, [m], p)"
  shows "\<exists>h'. rte_pktmbuf_alloc l mp h = Some (Some m, h')"
proof -
  note f = pools_okD(2) [OF refs_okD(8) [OF assms(1)] assms(2)]
  show ?thesis
  proof (cases rule: mempool.get_cases [OF f, of l])
    case (1 x q)
    then have e: "x = m" "q = p" using assms(3) by simp_all
    note t = take_out [OF assms(1,2) 1(2-4)]
    show ?thesis using alloc_runs [OF assms(3) refs_okD(10) [OF assms(1) t(2) [unfolded e]]] by blast
  next
    case 2
    then show ?thesis using assms(3) by simp
  qed
qed

lemma alloc_fresh:
  assumes "args_ok a" "mp \<noteq> 0" "1 < arg_cache a" "l < RTE_MAX_LCORE" "heap_pool_create mp a h = Some h1"
  shows "\<exists>m h'. rte_pktmbuf_alloc l mp h1 = Some (Some m, h') \<and> packet h' [m] \<and> sane h' [m]"
proof -
  obtain h2 where h2: "heap_pool_create mp a h = Some h2" "refs_ok (set (pool_addrs a)) {} {#} h2"
    "\<And>m. m \<in> set (pool_addrs a) \<Longrightarrow> pool (mbufs h2 m) = mp" "mp_cache_size (pools h2 mp) = arg_cache a"
    "mp_flags (pools h2 mp) = MEMPOOL_F_POOL_CREATED" "queued (pool_data (pools h2 mp)) = pool_addrs a"
    by (rule heap_pool [OF assms(1,2), of h]) blast
  have e: "h2 = h1" using h2(1) assms(5) by simp
  note g = h2(2-6) [unfolded e]
  have n: "0 < arg_n a" using assms(1) by (auto simp: args_ok_def) (metis gr0I not_le zero_less_numeral zero_less_power)
  then have "pool_addrs a \<noteq> []" by (simp add: pool_addrs_def)
  then obtain x where x: "x \<in> set (pool_addrs a)" using hd_in_set by blast
  then have home: "mp \<in> homes (set (pool_addrs a)) h1" using g(2) by (auto simp: homes_def)
  note ok = pools_okD(2) [OF refs_okD(8) [OF g(1)] home]
  have "\<exists>y mp'. rte_mempool_get l (pools h1 mp) = Some (0, [y], mp')"
    using get_exact [OF ok, of l] g(3-5) assms(3,4) x by (auto simp: MEMPOOL_F_POOL_CREATED_def MEMPOOL_F_SC_GET_def)
  then show ?thesis
  proof (cases rule: alloc [OF g(1) home, of l])
    case 1
    obtain y p where y: "rte_mempool_get l (pools h1 mp) = Some (0, [y], p)"
      using \<open>\<exists>y mp'. rte_mempool_get l (pools h1 mp) = Some (0, [y], mp')\<close> by blast
    show ?thesis using 1 got_runs [OF g(1) home y] by simp
  next
    case (2 m p h')
    have "mbufs h' m = fresh_mbuf (mbufs h1 m)" by (simp add: 2(2))
    moreover have "unat (data_off (fresh_mbuf b)) \<le> unat (buf_len b)" for b
      by (simp add: fresh_mbuf_def rte_pktmbuf_reset_def min_def word_le_nat_alt)
    ultimately have "packet h' [m]" by (simp add: packet_def seg_ok_def seg_data_def bytes_at_def)
    moreover have "sane h' [m]" by (rule held_sane [OF 2(6)]) (simp_all add: 2(2))
    ultimately show ?thesis using 2(1) by blast
  qed
qed

text \<open>A state the clients reach.\<close>

lemma reached:
  assumes "args_ok a" "mp \<noteq> 0" "heap_pool_create mp a h0 = Some h1" "mbuf_run [mp] cs ({#}, h1) = Some (H, h)"
  shows "refs_ok (set (pool_addrs a)) {} H h" "mp \<in> homes (set (pool_addrs a)) h" "m \<in> set (pool_addrs a) \<Longrightarrow> pool (mbufs h m) = mp"
proof -
  let ?U = "set (pool_addrs a)"
  obtain h2 where h2: "heap_pool_create mp a h0 = Some h2" "refs_ok ?U {} {#} h2" "\<And>m. m \<in> ?U \<Longrightarrow> pool (mbufs h2 m) = mp"
    by (rule heap_pool [OF assms(1,2), of h0]) blast
  have e: "h2 = h1" using h2(1) assms(3) by simp
  have "0 < arg_n a" using assms(1) by (auto simp: args_ok_def) (metis gr0I not_le zero_less_numeral zero_less_power)
  then have "pool_addrs a \<noteq> []" by (simp add: pool_addrs_def)
  then have "homes ?U h1 = {mp}" using h2(3) [unfolded e] hd_in_set by (fastforce simp: homes_def)
  then show r: "refs_ok ?U {} H h" "mp \<in> homes ?U h" and "m \<in> ?U \<Longrightarrow> pool (mbufs h m) = mp"
    using run_keeps [OF h2(2) [unfolded e], of "[mp]" cs] assms(4) by (auto simp: homes_def)
qed

section \<open>Properties\<close>

text \<open>C37: reference counts are right, whatever the clients do. From a new pool (at an address that is not
  \<open>NULL\<close>), every sequence of allocations, alone or in bulk, attachments, detachments, clones, frees and
  edits, each where the library allows it, returns: no check of a header fails. Then the count of every buffer is the number of references the clients hold to it and
  of the buffers that borrow its bytes; it lies in its pool, once, exactly when there are none; a
  buffer that borrows is held, and it borrows from a buffer of the pool; and when the clients have
  given all references back, the pool is as it was.\<close>

theorem mbuf_refs:
  assumes "args_ok a" "mp \<noteq> 0"
  shows "\<exists>h1 H h. heap_pool_create mp a h0 = Some h1 \<and> mbuf_run [mp] cs ({#}, h1) = Some (H, h)
    \<and> (\<forall>m \<in> set (pool_addrs a).
         unat (refcnt (mbufs h m)) = count H m + card {i \<in> set (pool_addrs a). attached h i m}
       \<and> count (pool_objs (pools h mp)) m = (if m \<in># H \<or> (\<exists>i \<in> set (pool_addrs a). attached h i m) then 0 else 1)
       \<and> (RTE_MBUF_INDIRECT (mbufs h m) \<longrightarrow> m \<in># H \<and> rte_mbuf_from_indirect (mbufs h m) \<in> set (pool_addrs a)))
    \<and> (H = {#} \<longrightarrow> pool_objs (pools h mp) = mset (pool_addrs a))"
proof -
  let ?U = "set (pool_addrs a)"
  obtain h1 where h1: "heap_pool_create mp a h0 = Some h1" "refs_ok ?U {} {#} h1" "\<And>m. m \<in> ?U \<Longrightarrow> pool (mbufs h1 m) = mp"
    by (rule heap_pool [OF assms, of h0]) blast
  have "mp \<in> homes ?U h1" by (rule reached(2) [OF assms h1(1), of "[]"]) simp
  then obtain H h where r: "mbuf_run [mp] cs ({#}, h1) = Some (H, h)"
    using run_keeps [OF h1(2), of "[mp]" cs] by auto
  note ok = reached [OF assms h1(1) r]
  note g = refs_okD [OF ok(1)]
  have b: "{i \<in> ?U. attached h i m} = borrowers U h m" if "U = ?U" for m U by (simp add: borrowers_def that)
  have unused: "m \<in> unused ?U h \<longleftrightarrow> m \<notin># H \<and> (\<forall>i \<in> ?U. \<not> attached h i m)" if "m \<in> ?U" for m
  proof -
    have "refcnt (mbufs h m) = 0 \<longleftrightarrow> count H m = 0 \<and> card (borrowers ?U h m) = 0"
      using g(3) [OF that] by (simp add: unat_eq_0 [symmetric])
    also have "\<dots> \<longleftrightarrow> m \<notin># H \<and> borrowers ?U h m = {}" using g(9) [of m] by (simp add: not_in_iff)
    finally show ?thesis using that by (auto simp: unused_def borrowers_def)
  qed
  have all: "pool_objs (pools h mp) = mset_set (unused ?U h)"
  proof -
    have "{m \<in> unused ?U h - {}. pool (mbufs h m) = mp} = unused ?U h" using ok(3) by (auto simp: unused_def)
    then show ?thesis using pools_okD(3) [OF g(8) ok(2)] by simp
  qed
  have "finite (unused ?U h)" by (simp add: unused_def)
  then have "count (pool_objs (pools h mp)) m = (if m \<in># H \<or> (\<exists>i \<in> ?U. attached h i m) then 0 else 1)" if "m \<in> ?U" for m
    using unused [OF that] unfolding all by (auto simp: count_mset_set')
  moreover have "pool_objs (pools h mp) = mset (pool_addrs a)" if "H = {#}"
  proof -
    have "\<not> attached h i m" if "i \<in> ?U" for i m using g(4) [OF that] \<open>H = {#}\<close> by (auto simp: attached_def)
    then have "unused ?U h = ?U" using unused that by (auto simp: unused_def)
    then show ?thesis unfolding all using mset_set_set [OF distinct_pool_addrs] by simp
  qed
  ultimately show ?thesis using h1(1) r g(3-5) b [OF refl] by (intro exI conjI ballI) auto
qed

definition args3 :: pool_args where
  "args3 = \<lparr>arg_n = 3, arg_cache = 2, arg_priv = 0, arg_room = 2176, arg_header = 64, arg_trailer = 0,
     arg_junk = [0, 0, 0, 0], arg_vaddr = 0, arg_len = 10000\<rparr>"

lemma args3_ok: "args_ok args3"
proof -
  have "(2 :: nat) \<in> {1..27}" by simp
  then show ?thesis
    by (simp add: args_ok_def args3_def RTE_MEMPOOL_CACHE_MAX_SIZE_def CALC_CACHE_FLUSHTHRESH_def arg_elt_def
        sizeof_rte_mbuf_def RTE_CACHE_LINE_SIZE_def align_ceil_def) (rule bexI [of _ 2], simp_all)
qed

lemma packet_args3:
  obtains h1 m h where "heap_pool_create 1 args3 h0 = Some h1" "rte_pktmbuf_alloc 0 1 h1 = Some (Some m, h)" "packet h [m]"
    "mbuf_run [1] [Mbuf_alloc 0 1] ({#}, h1) = Some ({#m#}, h)" "refcnt (mbufs h m) = 1" "data_len (mbufs h m) = 0"
    "RTE_MBUF_DIRECT (mbufs h m)" "sane h [m]" "next_seg (mbufs h m) = None"
proof -
  have mp: "(1 :: nat) \<noteq> 0" by simp
  obtain h1 where h1: "heap_pool_create 1 args3 h0 = Some h1" "refs_ok (set (pool_addrs args3)) {} {#} h1"
    by (rule heap_pool [OF args3_ok mp, of h0]) blast
  have "1 < arg_cache args3" "0 < RTE_MAX_LCORE" by (simp_all add: args3_def RTE_MAX_LCORE_def)
  then obtain m h where m: "rte_pktmbuf_alloc 0 1 h1 = Some (Some m, h)" "packet h [m]" "sane h [m]"
    using alloc_fresh [OF args3_ok mp _ _ h1(1)] by blast
  have home: "1 \<in> homes (set (pool_addrs args3)) h1" by (rule reached(2) [OF args3_ok mp h1(1), of "[]"]) simp
  have fresh: "mbufs h m = fresh_mbuf (mbufs h1 m)"
  proof (cases rule: alloc [OF h1(2) home, of 0])
    case 1
    then show ?thesis using m(1) by simp
  next
    case (2 x p h2)
    have e: "x = m" "h2 = h" using 2(1) m(1) by simp_all
    have "mbufs h2 x = fresh_mbuf (mbufs h1 x)" by (simp add: 2(2))
    then show ?thesis by (simp add: e)
  qed
  show ?thesis
    by (rule that [OF h1(1) m(1,2)]) (simp_all add: m(1,3) fresh direct_0 del: One_nat_def)
qed

text \<open>A cache of an own core gives what the pool has left.\<close>

lemma cached_empty: "cached cs = {#} \<longleftrightarrow> (\<forall>c \<in> set cs. objs c = [])"
  by (induction cs) (auto simp: cached_def)

lemma two_args3:
  assumes "heap_pool_create 1 args3 h0 = Some h1" "rte_pktmbuf_alloc 0 1 h1 = Some (Some m, h)"
    and "refs_ok (set (pool_addrs args3)) {} H h" "1 \<in> homes (set (pool_addrs args3)) h"
  shows "\<exists>y h'. rte_pktmbuf_alloc 0 1 h = Some (Some y, h')"
proof -
  let ?U = "set (pool_addrs args3)" and ?p = "pools h1 1"
  have mp: "(1 :: nat) \<noteq> 0" by simp
  obtain h2 where h2: "heap_pool_create 1 args3 h0 = Some h2" "refs_ok ?U {} {#} h2"
    "pool_objs (pools h2 1) = mset (pool_addrs args3)" "mp_cache_size (pools h2 1) = arg_cache args3"
    "mp_flags (pools h2 1) = MEMPOOL_F_POOL_CREATED" "queued (pool_data (pools h2 1)) = pool_addrs args3"
    by (rule heap_pool [OF args3_ok mp, of h0]) blast
  have e: "h2 = h1" using h2(1) assms(1) by simp
  note g = h2(2-6) [unfolded e]
  have home: "1 \<in> homes ?U h1" by (rule reached(2) [OF args3_ok mp assms(1), of "[]"]) simp
  note ok = pools_okD(2) [OF refs_okD(8) [OF g(1)] home] and ok' = pools_okD(2) [OF refs_okD(8) [OF assms(3)] assms(4)]
  show ?thesis
  proof (cases rule: mempool.get_cases [OF ok, of 0])
    case (1 x p)
    note t = take_out [OF g(1) home 1(2-4)]
    have p: "pools h 1 = p" using alloc_runs [OF 1(1) refs_okD(10) [OF g(1) t(2)]] assms(2) by auto
    have frame: "pool_frame 0 ?p p" by (rule get_frame [OF 1(1)])
    have "cached (local_cache ?p) = {#}" using g(2,5) by (simp add: pool_objs_def)
    then have none: "objs (local_cache ?p ! j) = []" if "j < RTE_MAX_LCORE" for j
      using that ok unfolding cached_empty by (simp add: pool_ok_def)
    have "queued (pool_data p) \<noteq> [] \<or> objs (local_cache p ! 0) \<noteq> []"
    proof (rule ccontr)
      assume n: "\<not> ?thesis"
      have "objs (local_cache p ! j) = []" if "j < RTE_MAX_LCORE" for j
        using that n none frame by (cases "j = 0") (simp_all add: pool_frame_def)
      then have "cached (local_cache p) = {#}" using 1(2) unfolding cached_empty by (auto simp: in_set_conv_nth pool_ok_def)
      then have "pool_objs p = {#}" using n by (simp add: pool_objs_def)
      then have "size (pool_objs ?p) = 1" using 1(3) by simp
      then show False unfolding g(2) by (simp add: pool_addrs_def args3_def)
    qed
    moreover have "mp_cache_size p = 2" "mp_flags p AND MEMPOOL_F_SC_GET = 0"
      using frame g(3,4) by (simp_all add: pool_frame_def args3_def MEMPOOL_F_POOL_CREATED_def MEMPOOL_F_SC_GET_def)
    ultimately obtain y p' where "rte_mempool_get 0 p = Some (0, [y], p')"
      using get_exact [OF 1(2), of 0] by (auto simp: RTE_MAX_LCORE_def)
    then show ?thesis using got_runs [OF assms(3,4), of 0 y p'] p by auto
  next
    case 2
    then show ?thesis using assms(2) by (simp add: rte_pktmbuf_alloc_def rte_mbuf_raw_alloc_def ENOENT_def)
  qed
qed

text \<open>A packet, its clone, and both freed again.\<close>

lemma clone_args3:
  obtains h1 m c h2 h3 where "heap_pool_create 1 args3 h0 = Some h1" "m \<noteq> c" "c \<in> set (pool_addrs args3)"
    "mbuf_run [1] [Mbuf_alloc 0 1, Mbuf_clone 0 1 [m]] ({#}, h1) = Some ({#m, c#}, h2)"
    "mbuf_run [1] [Mbuf_alloc 0 1, Mbuf_clone 0 1 [m], Mbuf_free 0 [m]] ({#}, h1) = Some ({#c#}, h3)"
    "attached h3 c m" "m \<in> set (pool_addrs args3)" "held_packet {#c#} h3 [c]"
proof -
  let ?U = "set (pool_addrs args3)"
  have mp: "(1 :: nat) \<noteq> 0" by simp
  obtain h1 m h where m: "heap_pool_create 1 args3 h0 = Some h1" "rte_pktmbuf_alloc 0 1 h1 = Some (Some m, h)" "packet h [m]"
    "mbuf_run [1] [Mbuf_alloc 0 1] ({#}, h1) = Some ({#m#}, h)" "refcnt (mbufs h m) = 1" "RTE_MBUF_DIRECT (mbufs h m)"
    "sane h [m]" by (rule packet_args3 [of h0]) blast
  note ok = reached [OF args3_ok mp m(1,4)] and g = packetD [OF m(3)]
  have mU: "m \<in> ?U" using refs_okD(2) [OF ok(1)] by simp
  have cl: "clonable h {#m#} [m]" by (simp add: clonable_def owner_def m(5,6))
  have held: "held_packet {#m#} h [m]" using g m(7) by (simp add: held_packet_def sane_def)
  obtain y h' where y: "rte_pktmbuf_alloc 0 1 h = Some (Some y, h')" using two_args3 [OF m(1,2) ok(1,2)] by blast
  obtain cs h2 where r: "rte_pktmbuf_clone 0 1 m h = Some (Some (hd cs), h2)" "refs_ok ?U {} ({#m#} + mset cs) h2"
    "length cs = length [m]" "set cs \<inter> set_mset {#m#} = {}" "same_outside (set cs) h h2" "linked h2 (Some (hd cs)) cs"
    "\<forall>k < length [m]. copy_of (mbufs h ([m] ! k)) (mbufs h2 (cs ! k))" "segs_ok h2 cs" "nb_segs (mbufs h2 (hd cs)) = of_nat (length [m])"
    using clone_facts [OF ok(1) cl g(1-3) ok(2), of 0] y by auto
  obtain c where c: "cs = [c]" using r(3) by (auto simp: length_Suc_conv)
  have ne: "m \<noteq> c" using r(4) c by simp
  have m2: "recounted (mbufs h m) (mbufs h2 m)" by (rule same_outsideD(1) [OF r(5)]) (use ne c in simp)
  have held2: "held_packet {#m, c#} h2 [m]" using g(2,6) m(7) by (simp add: held_packet_def recountedD [OF m2])
  have "refs_ok ?U {} {#m, c#} h2" using r(2) c by (simp add: add_mset_commute)
  from free_packet [OF this, of m "[m]" 0] obtain h3 where h3: "rte_pktmbuf_free 0 (Some m) h2 = Some h3"
    "\<forall>a. a \<notin> {m} \<longrightarrow> recounted (mbufs h2 a) (mbufs h3 a)" "refs_ok ?U {} ({#m, c#} - mset [m]) h3"
    using held2 by (auto simp: held_packet_def)
  have c3: "recounted (mbufs h2 c) (mbufs h3 c)" using h3(2) ne by simp
  have run: "mbuf_step [1] (Mbuf_clone 0 1 [m]) ({#m#}, h) = Some ({#m, c#}, h2)" using held cl r(1) c by simp
  have run3: "mbuf_step [1] (Mbuf_free 0 [m]) ({#m, c#}, h2) = Some ({#c#}, h3)" using held2 h3(1) by simp
  have run1: "mbuf_step [1] (Mbuf_alloc 0 1) ({#}, h1) = Some ({#m#}, h)" using m(2) by (simp del: One_nat_def)
  have cp: "copy_of (mbufs h m) (mbufs h2 c)" using r(7) c by simp
  have "rte_mbuf_from_indirect (mbufs h m) = m" using owner_addr(1) [OF ok(1) mU] m(6) by (simp add: owner_def)
  then have "attached h3 c m" using cp by (simp add: attached_def copy_of_def recountedD [OF c3])
  moreover have "c \<in> ?U" using refs_okD(2) [OF r(2)] c by simp
  moreover have "held_packet {#c#} h3 [c]" using r(6,8,9) c by (simp add: held_packet_def recountedD [OF c3])
  ultimately show ?thesis
    by (intro that [OF m(1) ne, of h2 h3]) (simp_all add: run run1 run3 mU del: mbuf_step.simps One_nat_def)
qed

theorem mbuf_refs_witness:
  "\<forall>h0. \<exists>h1 m c h2 h3. heap_pool_create 1 args3 h0 = Some h1 \<and> m \<noteq> c
    \<and> mbuf_run [1] [Mbuf_alloc 0 1, Mbuf_clone 0 1 [m], Mbuf_free 0 [m]] ({#}, h1) = Some ({#c#}, h2)
    \<and> count (pool_objs (pools h2 1)) m = 0 \<and> unat (refcnt (mbufs h2 m)) = card {i \<in> set (pool_addrs args3). attached h2 i m}
    \<and> mbuf_run [1] [Mbuf_alloc 0 1, Mbuf_clone 0 1 [m], Mbuf_free 0 [m], Mbuf_free 0 [c]] ({#}, h1) = Some ({#}, h3)
    \<and> pool_objs (pools h3 1) = mset (pool_addrs args3)"
proof
  fix h0
  have mp: "(1 :: nat) \<noteq> 0" by simp
  obtain h1 m c h2 h3 where r: "heap_pool_create 1 args3 h0 = Some h1" "m \<noteq> c" "c \<in> set (pool_addrs args3)"
    "mbuf_run [1] [Mbuf_alloc 0 1, Mbuf_clone 0 1 [m], Mbuf_free 0 [m]] ({#}, h1) = Some ({#c#}, h3)"
    "attached h3 c m" "m \<in> set (pool_addrs args3)" "held_packet {#c#} h3 [c]"
    by (rule clone_args3 [of h0]) blast
  let ?cs = "[Mbuf_alloc 0 1, Mbuf_clone 0 1 [m], Mbuf_free 0 [m]]"
  have more: "mbuf_run [1] (xs @ ys) s = Option.bind (mbuf_run [1] xs s) (mbuf_run [1] ys)" for xs ys s
    by (induction xs arbitrary: s) (auto split: bind_split)
  have finish: "mbuf_run [1] (?cs @ [Mbuf_free 0 [c]]) ({#}, h1) = map_option (Pair {#}) (rte_pktmbuf_free 0 (Some c) h3)"
    unfolding more r(4) using r(7) by (cases "rte_pktmbuf_free 0 (Some c) h3") simp_all
  note a = mbuf_refs [OF args3_ok mp, of h0 ?cs] and b = mbuf_refs [OF args3_ok mp, of h0 "?cs @ [Mbuf_free 0 [c]]"]
  have "count (pool_objs (pools h3 1)) m = 0" "unat (refcnt (mbufs h3 m)) = card {i \<in> set (pool_addrs args3). attached h3 i m}"
    using a r by auto
  moreover obtain h4 where "mbuf_run [1] (?cs @ [Mbuf_free 0 [c]]) ({#}, h1) = Some ({#}, h4)"
    "pool_objs (pools h4 1) = mset (pool_addrs args3)"
    using b finish r(1) by (auto simp: map_option_case split: option.splits)
  ultimately show "\<exists>h1 m c h2 h3. heap_pool_create 1 args3 h0 = Some h1 \<and> m \<noteq> c
    \<and> mbuf_run [1] [Mbuf_alloc 0 1, Mbuf_clone 0 1 [m], Mbuf_free 0 [m]] ({#}, h1) = Some ({#c#}, h2)
    \<and> count (pool_objs (pools h2 1)) m = 0 \<and> unat (refcnt (mbufs h2 m)) = card {i \<in> set (pool_addrs args3). attached h2 i m}
    \<and> mbuf_run [1] [Mbuf_alloc 0 1, Mbuf_clone 0 1 [m], Mbuf_free 0 [m], Mbuf_free 0 [c]] ({#}, h1) = Some ({#}, h3)
    \<and> pool_objs (pools h3 1) = mset (pool_addrs args3)"
    using r(1,2,4) by (intro exI [of _ h1] exI [of _ m] exI [of _ c] exI [of _ h3] exI [of _ h4] conjI) simp_all
qed

text \<open>The segments of a copy: they carry the bytes of the original and borrow them from its owners,
  and the original stays as it was.\<close>

lemma copies_hold:
  assumes "refs_ok U {} H h" "packet h ss" "clonable h H ss"
    and "length ds = length ss" "distinct ds" "set ds \<inter> set_mset H = {}" "same_outside (set ds) h h'"
    and "linked h' (Some (hd ds)) ds" "\<forall>k < length ss. copy_of (mbufs h (ss ! k)) (mbufs h' (ds ! k))"
    and "nb_segs (mbufs h' (hd ds)) = of_nat (length ss)" "pkt_len (mbufs h' (hd ds)) = pkt_len (mbufs h (hd ss))"
    and "refs_ok U {} (H + mset ds) h'" "segs_ok h' ds"
  shows "packet h' ds" "pkt_data h' ds = pkt_data h ss" "packet h' ss" "pkt_data h' ss = pkt_data h ss" "sane h' ds"
    and "\<forall>k < length ss. attached h' (ds ! k) (owner h (ss ! k))"
proof -
  note g = packetD [OF assms(2)] and rm = same_outsideD(2) [OF assms(7)]
  have held: "set ss \<subseteq> set_mset H" using assms(3) by (simp add: clonable_def)
  have cp: "copy_of (mbufs h (ss ! k)) (mbufs h' (ds ! k))" if "k < length ss" for k using assms(9) that by blast
  have sd: "seg_data h' (ds ! k) = seg_data h (ss ! k)" if "k < length ss" for k
    using cp [OF that] unfolding seg_data_def data_start_def bytes_at_ram [OF rm] by (simp add: copy_of_def)
  show dat: "pkt_data h' ds = pkt_data h ss"
    unfolding pkt_data_def by (rule arg_cong [of _ _ concat], rule nth_equalityI) (simp_all add: assms(4) sd)
  have rec: "recounted (mbufs h x) (mbufs h' x)" if "x \<in> set ss" for x
    by (rule same_outsideD(1) [OF assms(7)]) (use held assms(6) that in auto)
  show dat2: "pkt_data h' ss = pkt_data h ss"
    by (rule pkt_data_same, rule seg_data_same [OF rm]) (simp_all add: data_start_def recountedD [OF rec])
  show "packet h' ss"
    unfolding packet_def dat2 using g linked_same [OF g(2), of h'] recountedD [OF rec] hd_in_set [OF g(1)]
    by (simp add: seg_ok_def)
  have "seg_ok (mbufs h' x)" if x: "x \<in> set ds" for x
  proof -
    obtain k where k: "k < length ss" "x = ds ! k" using x assms(4) by (metis in_set_conv_nth)
    then show ?thesis using cp [OF k(1)] g(4) [of "ss ! k"] by (simp add: copy_of_def seg_ok_def)
  qed
  moreover have "ds \<noteq> []" using assms(4) g(1) by auto
  ultimately show "packet h' ds"
    unfolding packet_def dat using assms(4,5,8,10,11) g(5,7) by (simp add: unat_of_nat)
  show "sane h' ds" by (rule held_sane [OF assms(12) _ assms(13)]) simp
  show "\<forall>k < length ss. attached h' (ds ! k) (owner h (ss ! k))"
  proof (intro allI impI)
    fix k assume k: "k < length ss"
    then have "ss ! k \<in> U" using held_live(1) [OF assms(1)] held by (meson nth_mem subsetD)
    then show "attached h' (ds ! k) (owner h (ss ! k))"
      using cp [OF k] owner_addr(1) [OF assms(1)] by (simp add: copy_of_def attached_def)
  qed
qed

text \<open>C38: a clone shares the bytes. Cloning a packet in a state the clients reach returns a packet of as
  many segments with the same bytes, on buffers nobody held, each borrowing from the owner of its
  original, and the original is as before; or, when the pool runs out on the way, it returns
  nothing and gives everything back: all counts, all headers in use and the pool are as before.\<close>

theorem clone_shares:
  assumes "args_ok a" "mp \<noteq> 0" "heap_pool_create mp a h0 = Some h1" "mbuf_run [mp] cs ({#}, h1) = Some (H, h)"
    and "packet h ss" "clonable h H ss"
  shows "(\<exists>h'. rte_pktmbuf_clone l mp (hd ss) h = Some (None, h')
      \<and> (\<forall>m \<in># H. mbufs h' m = mbufs h m) \<and> (\<forall>m \<in> set (pool_addrs a). refcnt (mbufs h' m) = refcnt (mbufs h m))
      \<and> pool_objs (pools h' mp) = pool_objs (pools h mp) \<and> ram h' = ram h)
    \<or> (\<exists>ds h'. rte_pktmbuf_clone l mp (hd ss) h = Some (Some (hd ds), h')
      \<and> packet h' ds \<and> sane h' ds \<and> length ds = length ss \<and> pkt_data h' ds = pkt_data h ss \<and> set ds \<inter> set_mset H = {}
      \<and> (\<forall>k < length ss. attached h' (ds ! k) (owner h (ss ! k)))
      \<and> packet h' ss \<and> pkt_data h' ss = pkt_data h ss)"
proof -
  let ?U = "set (pool_addrs a)"
  note ok = reached [OF assms(1-4)] and g = packetD [OF assms(5)]
  have held: "set ss \<subseteq> set_mset H" using assms(6) by (simp add: clonable_def)
  from clone_facts [OF ok(1) assms(6) g(1-3) ok(2), of l] show ?thesis
  proof (elim disjE exE conjE)
    fix h' A
    assume r: "rte_pktmbuf_clone l mp (hd ss) h = Some (None, h')" "refs_ok ?U {} H h'" "same_outside A h h'"
      "A \<inter> set_mset H = {}"
    note same = same_refs [OF ok(1) r(2-4)]
    have "mbufs h' m = mbufs h m" if "m \<in># H" for m
    proof -
      have "recounted (mbufs h m) (mbufs h' m)" by (rule same_outsideD(1) [OF r(3)]) (use that r(4) in auto)
      then show ?thesis
        using recountedD(15) same(1) [OF held_live(1) [OF ok(1) that]] by (simp add: recounted_def)
    qed
    then show ?thesis using r(1) same ok(2) same_outsideD(2) [OF r(3)] by blast
  next
    fix ds h'
    assume r: "rte_pktmbuf_clone l mp (hd ss) h = Some (Some (hd ds), h')" "refs_ok ?U {} (H + mset ds) h'"
      "length ds = length ss" "distinct ds" "set ds \<inter> set_mset H = {}" "same_outside (set ds) h h'"
      "linked h' (Some (hd ds)) ds" "\<forall>k < length ss. copy_of (mbufs h (ss ! k)) (mbufs h' (ds ! k))"
      "segs_ok h' ds" "nb_segs (mbufs h' (hd ds)) = of_nat (length ss)" "pkt_len (mbufs h' (hd ds)) = pkt_len (mbufs h (hd ss))"
    note c = copies_hold [OF ok(1) assms(5,6) r(3-8,10,11,2,9)]
    show ?thesis by (intro disjI2 exI [of _ ds] exI [of _ h'] conjI) (rule r c)+
  qed
qed

theorem clone_shares_witness:
  "\<forall>h0. \<exists>h m. packet h [m] \<and> ((\<exists>h'. rte_pktmbuf_clone 0 1 m h = Some (None, h') \<and> mbufs h' m = mbufs h m)
    \<or> (\<exists>ds h'. rte_pktmbuf_clone 0 1 m h = Some (Some (hd ds), h') \<and> pkt_data h' ds = pkt_data h [m]))"
proof
  fix h0
  obtain h1 m h where m: "heap_pool_create 1 args3 h0 = Some h1" "packet h [m]"
    "mbuf_run [1] [Mbuf_alloc 0 1] ({#}, h1) = Some ({#m#}, h)" "refcnt (mbufs h m) = 1" "RTE_MBUF_DIRECT (mbufs h m)"
    by (rule packet_args3 [of h0]) blast
  have "clonable h {#m#} [m]" by (simp add: clonable_def owner_def m(4,5))
  from clone_shares [OF args3_ok _ m(1,3,2) this, of 0] m(2)
  show "\<exists>h m. packet h [m] \<and> ((\<exists>h'. rte_pktmbuf_clone 0 1 m h = Some (None, h') \<and> mbufs h' m = mbufs h m)
    \<or> (\<exists>ds h'. rte_pktmbuf_clone 0 1 m h = Some (Some (hd ds), h') \<and> pkt_data h' ds = pkt_data h [m]))"
    by (intro exI [of _ h] exI [of _ m] conjI) auto
qed

text \<open>C39: the edits of a packet are edits of its bytes. On packets whose headers pass the checks of the
  build, \<open>prepend\<close> and \<open>append\<close> add the bytes at the pointer
  they return in front and at the end, \<open>adj\<close> and \<open>trim\<close> take bytes away there; each fails, and changes
  nothing, exactly when the first or the last segment has no room or not as many bytes. \<open>chain\<close> joins
  two packets, and refuses when they have 256 segments or more. The result is a packet again:
  links, lengths and number of segments agree, no data leaves its buffer, and the headers pass the
  checks again.\<close>

theorem pktmbuf_edits:
  assumes "packet h ms" "sane h ms"
  shows "(case rte_pktmbuf_prepend (hd ms) n h of
        None \<Rightarrow> False
      | Some (None, h') \<Rightarrow> h' = h \<and> data_off (mbufs h (hd ms)) < n
      | Some (Some p, h') \<Rightarrow> n \<le> data_off (mbufs h (hd ms)) \<and> packet h' ms \<and> sane h' ms
          \<and> pkt_data h' ms = bytes_at h p (unat n) @ pkt_data h ms)
    \<and> (case rte_pktmbuf_adj (hd ms) n h of
        None \<Rightarrow> False
      | Some (None, h') \<Rightarrow> h' = h \<and> data_len (mbufs h (hd ms)) < n
      | Some (Some p, h') \<Rightarrow> n \<le> data_len (mbufs h (hd ms)) \<and> packet h' ms \<and> sane h' ms \<and> p = data_start (mbufs h' (hd ms))
          \<and> pkt_data h' ms = drop (unat n) (pkt_data h ms))
    \<and> (case rte_pktmbuf_append (hd ms) n h of
        None \<Rightarrow> False
      | Some (None, h') \<Rightarrow> h' = h \<and> room_behind (mbufs h (last ms)) < n
      | Some (Some p, h') \<Rightarrow> n \<le> room_behind (mbufs h (last ms)) \<and> packet h' ms \<and> sane h' ms
          \<and> pkt_data h' ms = pkt_data h ms @ bytes_at h p (unat n))
    \<and> (case rte_pktmbuf_trim (hd ms) n h of
        None \<Rightarrow> False
      | Some (r, h') \<Rightarrow> (if data_len (mbufs h (last ms)) < n then r = - 1 \<and> h' = h
          else r = 0 \<and> packet h' ms \<and> sane h' ms \<and> pkt_data h' ms = take (length (pkt_data h ms) - unat n) (pkt_data h ms)))
    \<and> (\<forall>ts. packet h ts \<and> sane h ts \<and> set ms \<inter> set ts = {} \<longrightarrow> (case rte_pktmbuf_chain (hd ms) (hd ts) h of
        None \<Rightarrow> False
      | Some (r, h') \<Rightarrow> (if 256 \<le> length ms + length ts then r = - EOVERFLOW \<and> h' = h
          else r = 0 \<and> packet h' (ms @ ts) \<and> sane h' (ms @ ts) \<and> pkt_data h' (ms @ ts) = pkt_data h ms @ pkt_data h ts)))"
proof -
  obtain x ys where ms: "ms = x # ys" using packetD(1) [OF assms(1)] by (cases ms) auto
  note e = assms [unfolded ms]
  show ?thesis
    using prepend_packet [OF e, of n] adj_packet [OF e, of n] append_packet [OF assms, of n] trim_packet [OF assms, of n]
      chain_packet [OF assms(1) _ _ assms(2)] unfolding ms list.sel by blast
qed

text \<open>C40: reading a part of a packet. With an offset and a length whose sum does not wrap around, the
  call returns a pointer to just these bytes of the packet, in place or collected in the buffer
  of the caller, and writes nowhere else; it returns nothing exactly when the packet is shorter.
  A sum that wraps around passes the check for length and yields a pointer far behind the
  packet; and reading no byte at the end of a packet of several segments follows the link
  behind the last one.\<close>

theorem pktmbuf_read:
  assumes "packet h ms" "clear_of h ms p (unat n)"
  shows "(unat off + unat n < 2 ^ 32 \<and> (0 < unat n \<or> unat off < length (pkt_data h ms)) \<longrightarrow>
      (case rte_pktmbuf_read (hd ms) off n p h of
        None \<Rightarrow> False
      | Some (None, h') \<Rightarrow> h' = h \<and> length (pkt_data h ms) < unat off + unat n
      | Some (Some q, h') \<Rightarrow> bytes_at h' q (unat n) = take (unat n) (drop (unat off) (pkt_data h ms))
          \<and> unat off + unat n \<le> length (pkt_data h ms) \<and> (\<exists>ram'. h' = h\<lparr>ram := ram'\<rparr>
          \<and> (\<forall>a. \<not> (p \<le> a \<and> a < p + unat n) \<longrightarrow> ram' a = ram h a))))
    \<and> (2 ^ 32 \<le> unat off + unat n \<and> unat (off + n) \<le> unat (data_len (mbufs h (hd ms))) \<longrightarrow>
        rte_pktmbuf_read (hd ms) off n p h = Some (Some (data_start (mbufs h (hd ms)) + unat off), h)
        \<and> length (pkt_data h ms) < unat off + unat n)
    \<and> (unat (data_len (mbufs h (hd ms))) < length (pkt_data h ms) \<longrightarrow>
        rte_pktmbuf_read (hd ms) (pkt_len (mbufs h (hd ms))) 0 p h = None)"
  using read_data [OF assms, of off] read_wraps [OF assms(1)] read_end [OF assms(1)] by blast

theorem pktmbuf_edits_witness:
  "\<forall>h0. \<exists>h m. packet h [m] \<and> (case rte_pktmbuf_append m 100 h of
      Some (Some p, h') \<Rightarrow> pkt_data h' [m] = pkt_data h [m] @ bytes_at h p 100 | _ \<Rightarrow> room_behind (mbufs h m) < 100)"
proof
  fix h0
  obtain h1 m h where m: "heap_pool_create 1 args3 h0 = Some h1" "packet h [m]" "sane h [m]" by (rule packet_args3 [of h0]) blast
  show "\<exists>h m. packet h [m] \<and> (case rte_pktmbuf_append m 100 h of
      Some (Some p, h') \<Rightarrow> pkt_data h' [m] = pkt_data h [m] @ bytes_at h p 100 | _ \<Rightarrow> room_behind (mbufs h m) < 100)"
    using pktmbuf_edits [OF m(2,3), of 100] m(2)
    by (intro exI [of _ h] exI [of _ m]) (auto split: option.splits)
qed

theorem pktmbuf_read_witness:
  "\<forall>h0. \<exists>h m. packet h [m] \<and> rte_pktmbuf_read m 1 1 0 h = Some (None, h)"
proof
  fix h0
  obtain h1 m h where m: "heap_pool_create 1 args3 h0 = Some h1" "packet h [m]" "data_len (mbufs h m) = 0"
    by (rule packet_args3 [of h0]) blast
  have "clear_of h [m] 0 (unat (1 :: int32))" by (simp add: clear_of_def m(3)) linarith
  moreover have len: "length (pkt_data h [m]) = 0" by (simp add: m(3))
  ultimately have "rte_pktmbuf_read m 1 1 0 h = Some (None, h)"
    using pktmbuf_read [OF m(2), of 0 1 1] by (auto split: option.splits)
  then show "\<exists>h m. packet h [m] \<and> rte_pktmbuf_read m 1 1 0 h = Some (None, h)" using m(2) by blast
qed

end
