(* ===== verification/FloatVec.thy ===== *)
theory FloatVec
  imports Ofdm
begin

text \<open>
  The parts of the fixed-point arithmetic that go through \<open>float\<close>: the operations on
  \<open>complex\<close> and the divisions of \<^verbatim>\<open>typeDef/commonStructure.c\<close>, and the vector product in single
  precision and the product of an eight by eight matrix of
  \<^verbatim>\<open>intrinsics_interface/intrinsics_interface_v2.c\<close>. The lanes of \<open>_mm256_mul_ps\<close>, \<open>_mm256_add_ps\<close>
  and \<open>_mm256_sub_ps\<close> are the arguments \<open>mul_ps\<close>, \<open>add_ps\<close>, \<open>sub_ps\<close>; the locale \<open>avx_float\<close> extends
  the rounding of \<^verbatim>\<open>Ifft\<close> with what Intel documents of them.
\<close>

section \<open>Operations on float parts\<close>

definition multForComplex :: "(real \<Rightarrow> real) \<Rightarrow> nat \<Rightarrow> complex \<Rightarrow> complex \<Rightarrow> complex" where
  "multForComplex fl scale ra rb =
     (let rpart = to_int32 (fl (fl (Re ra * Re rb) - fl (Im ra * Im rb)));
          ipart = to_int32 (fl (fl (Re ra * Im rb) + fl (Im ra * Re rb)))
      in Complex (fl (of_int (sint (signed_drop_bit scale rpart))))
           (fl (of_int (sint (signed_drop_bit scale ipart)))))"

definition addForComplex :: "(real \<Rightarrow> real) \<Rightarrow> complex \<Rightarrow> complex \<Rightarrow> complex" where
  "addForComplex fl ra rb = Complex (fl (Re ra + Re rb)) (fl (Im ra + Im rb))"

definition reduceForComplex :: "(real \<Rightarrow> real) \<Rightarrow> complex \<Rightarrow> complex \<Rightarrow> complex" where
  "reduceForComplex fl ra rb = Complex (fl (Re ra - Re rb)) (fl (Im ra - Im rb))"

text \<open>A divisor whose squares sum to zero gives an infinity or no number: no finite result.\<close>

definition divForComplex :: "(real \<Rightarrow> real) \<Rightarrow> nat \<Rightarrow> complex \<Rightarrow> complex \<Rightarrow> complex option" where
  "divForComplex fl scale ra rb =
     (let square = fl (fl (Re rb * Re rb) + fl (Im rb * Im rb))
      in if square = 0 then None
         else let coe = fl (2 ^ scale / square);
                  tempreal = fl (fl (Re ra * Re rb) + fl (Im ra * Im rb));
                  tempimag = fl (fl (- Re ra * Im rb) + fl (Im ra * Re rb))
              in Some (Complex (fl (coe * tempreal)) (fl (coe * tempimag))))"

section \<open>Division of 16-bit parts\<close>

text \<open>The conversion of a \<open>float\<close> to \<open>int16\<close> goes through 32 bits. With a zero divisor the factor is
  an infinity and both sums are zero; their product is not a number, and the conversion gives
  the least integer, whose low half is kept.\<close>

definition divForComplex32 :: "(real \<Rightarrow> real) \<Rightarrow> nat \<Rightarrow> complex32 \<Rightarrow> complex32 \<Rightarrow> complex32" where
  "divForComplex32 fl scale ra rb =
     (let square = word_of_int (sint (re rb) * sint (re rb) + sint (im rb) * sint (im rb)) :: int32;
          tempreal = word_of_int (sint (re ra) * sint (re rb) + sint (im ra) * sint (im rb)) :: int32;
          tempimag = word_of_int (- sint (re ra) * sint (im rb) + sint (im ra) * sint (re rb)) :: int32
      in if square = 0 then \<lparr>re = ucast (word_of_int (- (2 ^ 31)) :: int32), im = ucast (word_of_int (- (2 ^ 31)) :: int32)\<rparr>
         else let coe = fl (2 ^ scale / of_int (sint square))
              in \<lparr>re = to_int16 (fl (coe * fl (of_int (sint tempreal)))),
                  im = to_int16 (fl (coe * fl (of_int (sint tempimag))))\<rparr>)"

definition Divide_Complex32 :: "(real \<Rightarrow> real) \<Rightarrow> nat \<Rightarrow> complex32 \<Rightarrow> complex32 \<Rightarrow> complex32 \<Rightarrow> complex32" where
  "Divide_Complex32 fl scale ra rb dst =
     (let square = word_of_int (sint (re rb) * sint (re rb) + sint (im rb) * sint (im rb)) :: int32;
          tempreal = word_of_int (sint (re ra) * sint (re rb) + sint (im ra) * sint (im rb)) :: int32;
          tempimag = word_of_int (- sint (re ra) * sint (im rb) + sint (im ra) * sint (re rb)) :: int32
      in if square = 0
         then (dst\<lparr>re := ucast (word_of_int (- (2 ^ 31)) :: int32)\<rparr>)\<lparr>im := ucast (word_of_int (- (2 ^ 31)) :: int32)\<rparr>
         else let coe = fl (2 ^ scale / of_int (sint square))
              in (dst\<lparr>re := to_int16 (fl (coe * fl (of_int (sint tempreal))))\<rparr>)
                   \<lparr>im := to_int16 (fl (coe * fl (of_int (sint tempimag))))\<rparr>)"

section \<open>Vectors\<close>

definition Mult_complex32Vector :: "(real \<Rightarrow> real) \<Rightarrow> (real \<Rightarrow> real \<Rightarrow> real) \<Rightarrow> (real \<Rightarrow> real \<Rightarrow> real)
    \<Rightarrow> (real \<Rightarrow> real \<Rightarrow> real) \<Rightarrow> complex32 list \<Rightarrow> complex32 list \<Rightarrow> complex32 list \<Rightarrow> complex32 list" where
  "Mult_complex32Vector fl mul_ps add_ps sub_ps a b dest =
     (let lanes = [0..<8];
          a_real = map (\<lambda>i. fl (of_int (sint (re (a ! i))))) lanes; a_imag = map (\<lambda>i. fl (of_int (sint (im (a ! i))))) lanes;
          b_real = map (\<lambda>i. fl (of_int (sint (re (b ! i))))) lanes; b_imag = map (\<lambda>i. fl (of_int (sint (im (b ! i))))) lanes;
          a_b_real = map2 mul_ps a_real b_real;
          a_b_imag = map2 mul_ps a_imag b_imag;
          a_real_b_imag = map2 mul_ps a_real b_imag;
          a_imag_b_real = map2 mul_ps a_imag b_real;
          dest_real = map2 sub_ps a_b_real a_b_imag;
          dest_imag = map2 add_ps a_real_b_imag a_imag_b_real
      in fold (\<lambda>i dest. dest[i := \<lparr>re = ucast (signed_drop_bit 13 (to_int32 (dest_real ! i))),
             im = ucast (signed_drop_bit 13 (to_int32 (dest_imag ! i)))\<rparr>]) lanes dest)"

text \<open>The eight by eight product: two columns of the matrix in each of four vectors, and eight
  lists of the products with one row, added up lane by lane.\<close>

definition Matrix_Mult_AVX2_8 :: "(int16 \<Rightarrow> int16 \<Rightarrow> int16) \<Rightarrow> (int16 \<Rightarrow> int16 \<Rightarrow> int16)
    \<Rightarrow> (int16 \<Rightarrow> int16 \<Rightarrow> int16) \<Rightarrow> complex32 list list \<Rightarrow> complex32 list \<Rightarrow> complex32 list
    \<Rightarrow> complex32 list" where
  "Matrix_Mult_AVX2_8 mulhrs add sub h x dest =
     (let a = map (\<lambda>i. map (\<lambda>j. h ! (j mod 8) ! (i * 2 + j div 8)) [0..<16]) [0..<4];
          b = map (\<lambda>i. map (\<lambda>j. x ! (j mod 8)) [0..<16]) [0..<4];
          c = map (\<lambda>i. Mult_complex32Vector_2 mulhrs add sub (a ! i) (b ! i) (replicate 16 (cpx 0 0))) [0..<4];
          part = (\<lambda>k. concat (map (\<lambda>i. [re (c ! i ! k), im (c ! i ! k), re (c ! i ! (8 + k)), im (c ! i ! (8 + k))]) [0..<4]));
          temp1 = fold (\<lambda>k temp1. map2 add temp1 (part k)) [1..<8] (part 0)
      in fold (\<lambda>i dest. dest[i := \<lparr>re = temp1 ! (2 * i), im = temp1 ! (2 * i + 1)\<rparr>]) [0..<8] dest)"

section \<open>The float operations against each other\<close>

text \<open>The two names of each operation are one function, in both number formats.\<close>

lemma mult_names: "multForComplex = Multy_Complex"
  by (intro ext) (simp add: multForComplex_def Multy_Complex_def)

lemma add_names: "addForComplex = Add_Complex"
  by (intro ext) (simp add: addForComplex_def Add_Complex_def)

lemma reduce_names: "reduceForComplex = Sub_Complex"
  by (intro ext) (simp add: reduceForComplex_def Sub_Complex_def)

lemma divide_names: "Divide_Complex32 fl scale ra rb dst = divForComplex32 fl scale ra rb"
  by (simp add: Divide_Complex32_def divForComplex32_def Let_def)

section \<open>The error of a division\<close>

lemma to_int16_within:
  assumes "\<bar>y - Q\<bar> \<le> 1 / 64" "\<bar>Q\<bar> \<le> 32766"
  shows "\<bar>of_int (sint (to_int16 y)) - Q\<bar> \<le> 1 + 1 / 64"
  using to_int16_near [of y] assms by linarith

context float_rounding
begin

lemma fl_relative:
  assumes "\<bar>x\<bar> \<le> 2 ^ 40" "1 / 2 ^ 70 \<le> \<bar>x\<bar>"
  shows "\<bar>fl x - x\<bar> \<le> \<bar>x\<bar> / 2 ^ 23"
  using fl_near [OF assms(1)] assms(2) by simp

lemma quotient_near:
  fixes n :: int and D :: real
  assumes "1 \<le> D" "D \<le> 2147483648" "\<bar>n\<bar> \<le> 2147483648" "\<bar>8192 / D * of_int n\<bar> \<le> 32766"
  shows "\<bar>fl (fl (8192 / D) * fl (of_int n)) - 8192 / D * of_int n\<bar> \<le> 1 / 64"
proof -
  define q t where "q = 8192 / D" and "t = real_of_int n"
  have q: "1 / 262144 \<le> q" "q \<le> 8192" using assms(1,2) by (simp_all add: q_def field_simps)
  then have e1: "\<bar>fl q - q\<bar> \<le> q / 8388608" using fl_relative [of q] by simp
  have e2: "\<bar>fl t - t\<bar> \<le> \<bar>t\<bar> / 8388608"
  proof (cases "n = 0")
    case True
    then show ?thesis using fl_int [of 0] by (simp add: t_def)
  next
    case False
    then have "1 \<le> \<bar>t\<bar>" "\<bar>t\<bar> \<le> 2147483648" using assms(3) by (simp_all add: t_def)
    then show ?thesis using fl_relative [of t] by simp
  qed
  then have "\<bar>fl t\<bar> \<le> 2 * \<bar>t\<bar>" by linarith
  have "fl q * fl t - q * t = (fl q - q) * fl t + q * (fl t - t)" by (simp add: algebra_simps)
  then have "\<bar>fl q * fl t - q * t\<bar> \<le> \<bar>fl q - q\<bar> * \<bar>fl t\<bar> + q * \<bar>fl t - t\<bar>"
    using abs_triangle_ineq [of "(fl q - q) * fl t" "q * (fl t - t)"] q by (simp add: abs_mult)
  also have "\<dots> \<le> q / 8388608 * (2 * \<bar>t\<bar>) + q * (\<bar>t\<bar> / 8388608)"
    using e1 e2 q \<open>\<bar>fl t\<bar> \<le> 2 * \<bar>t\<bar>\<close> by (intro add_mono mult_mono) auto
  also have "\<dots> = 3 / 8388608 * \<bar>q * t\<bar>" using q by (simp add: abs_mult)
  finally have p: "\<bar>fl q * fl t - q * t\<bar> \<le> 3 / 8388608 * 32767" using assms(4) unfolding q_def t_def by linarith
  then have "\<bar>fl q * fl t\<bar> \<le> 32768" using assms(4) unfolding q_def t_def by linarith
  then have "\<bar>fl (fl q * fl t) - fl q * fl t\<bar> \<le> 32768 / 16777216 + 1 / 1000000000" by (rule fl_within) simp
  then show ?thesis using p unfolding q_def t_def by linarith
qed

lemma divide_part:
  fixes n D :: int
  assumes "0 < D" "D \<le> 2147418114" "\<bar>n\<bar> \<le> 2147418114" "\<bar>8192 * (of_int n / of_int D)\<bar> \<le> (32766 :: real)"
  shows "\<bar>of_int (sint (to_int16 (fl (fl (8192 / of_int D) * fl (of_int n)))))
    - 8192 * (of_int n / of_int D)\<bar> \<le> (1 + 1 / 64 :: real)"
proof -
  have "1 \<le> real_of_int D" "real_of_int D \<le> 2147483648" "\<bar>n\<bar> \<le> 2147483648" using assms(1-3) by linarith+
  from quotient_near [OF this] to_int16_within assms(4) show ?thesis by simp
qed

lemma divide_near:
  assumes "cbound 32767 ra" "cbound 32767 rb" "rb \<noteq> cpx 0 0"
    and "\<bar>8192 * Re (to_complex ra / to_complex rb)\<bar> \<le> 32766" "\<bar>8192 * Im (to_complex ra / to_complex rb)\<bar> \<le> 32766"
  defines "d \<equiv> to_complex (divForComplex32 fl 13 ra rb)" and "e \<equiv> to_complex ra / to_complex rb"
  shows "\<bar>Re d - 8192 * Re e\<bar> \<le> 1 + 1 / 64" and "\<bar>Im d - 8192 * Im e\<bar> \<le> 1 + 1 / 64"
proof -
  define x y u v where "x = sint (re ra)" and "y = sint (im ra)" and "u = sint (re rb)" and "v = sint (im rb)"
  note xyuv = x_def y_def u_def v_def
  have b: "\<bar>x\<bar> \<le> 32767" "\<bar>y\<bar> \<le> 32767" "\<bar>u\<bar> \<le> 32767" "\<bar>v\<bar> \<le> 32767"
    using assms(1,2) by (simp_all add: cbound_def xyuv)
  note m = prod_bound [OF b(1,3)] prod_bound [OF b(2,4)] prod_bound [OF b(1,4)] prod_bound [OF b(2,3)]
    prod_bound [OF b(3,3)] prod_bound [OF b(4,4)]
  have n: "\<bar>x * u + y * v\<bar> \<le> 2147352578" "\<bar>- x * v + y * u\<bar> \<le> 2147352578" "\<bar>u * u + v * v\<bar> \<le> 2147352578"
    using m by auto
  have "u \<noteq> 0 \<or> v \<noteq> 0" using assms(3) by (cases rb) (auto simp: xyuv cpx_def signed_eq_0_iff)
  then have D: "0 < u * u + v * v" by (simp add: sum_squares_gt_zero_iff)
  have s: "sint (word_of_int (x * u + y * v) :: int32) = x * u + y * v"
    "sint (word_of_int (- x * v + y * u) :: int32) = - x * v + y * u"
    "sint (word_of_int (u * u + v * v) :: int32) = u * u + v * v"
    using n D by (intro sint_int32; simp add: abs_le_iff)+
  then have nz: "(word_of_int (u * u + v * v) :: int32) \<noteq> 0" using D by (metis less_irrefl signed_0)
  have e: "Re e = of_int (x * u + y * v) / of_int (u * u + v * v)" "Im e = of_int (- x * v + y * u) / of_int (u * u + v * v)"
    by (simp_all add: e_def to_complex_def Re_divide Im_divide xyuv power2_eq_square algebra_simps)
  have d: "Re d = of_int (sint (to_int16 (fl (fl (8192 / of_int (u * u + v * v)) * fl (of_int (x * u + y * v))))))"
    "Im d = of_int (sint (to_int16 (fl (fl (8192 / of_int (u * u + v * v)) * fl (of_int (- x * v + y * u))))))"
    using nz unfolding d_def divForComplex32_def Let_def xyuv [symmetric] s by (simp_all add: to_complex_def)
  show "\<bar>Re d - 8192 * Re e\<bar> \<le> 1 + 1 / 64"
    unfolding d e using assms(4) n D unfolding e_def [symmetric] e by (intro divide_part) linarith+
  show "\<bar>Im d - 8192 * Im e\<bar> \<le> 1 + 1 / 64"
    unfolding d e using assms(5) n D unfolding e_def [symmetric] e by (intro divide_part) linarith+
qed

end

lemma divide_by_zero: "divForComplex32 fl scale ra (cpx 0 0) = cpx 0 0"
  by (simp add: divForComplex32_def cpx_def)

section \<open>The vector product in single precision\<close>

locale avx_float = float_rounding +
  fixes mul_ps add_ps sub_ps :: "real \<Rightarrow> real \<Rightarrow> real"
  assumes mul_ps: "mul_ps x y = fl (x * y)"
    and add_ps: "add_ps x y = fl (x + y)"
    and sub_ps: "sub_ps x y = fl (x - y)"
begin

lemma float_lane:
  assumes "length dest = 8" "i < 8"
  shows "Mult_complex32Vector fl mul_ps add_ps sub_ps a b dest ! i
    = (let x = of_int (sint (re (a ! i))); y = of_int (sint (im (a ! i)));
           u = of_int (sint (re (b ! i))); v = of_int (sint (im (b ! i)))
       in \<lparr>re = ucast (signed_drop_bit 13 (to_int32 (fl (fl (x * u) - fl (y * v))))),
           im = ucast (signed_drop_bit 13 (to_int32 (fl (fl (x * v) + fl (y * u)))))\<rparr>)"
proof -
  have f: "fl (of_int (sint z)) = of_int (sint z)" for z :: int16
    using sint16_range [of z] by (intro fl_int) simp
  show ?thesis using assms by (simp add: Mult_complex32Vector_def Let_def fold_fill_const f [simplified] mul_ps add_ps sub_ps)
qed

end

interpretation single_lanes: avx_float single "\<lambda>x y. single (x * y)" "\<lambda>x y. single (x + y)" "\<lambda>x y. single (x - y)"
  by unfold_locales simp_all

text \<open>A part near an integer of at most 28 bits, shifted and cut.\<close>

lemma shifted_int16:
  assumes "\<bar>y - of_int n\<bar> \<le> 64" "\<bar>n\<bar> \<le> 268427264"
  shows "\<bar>sint (ucast (signed_drop_bit 13 (to_int32 y)) :: int16) - n div 8192\<bar> \<le> 1"
proof -
  let ?t = "trunc y"
  have "\<bar>real_of_int ?t - y\<bar> < 1" by (rule trunc_near)
  then have "\<bar>real_of_int (?t - n)\<bar> < real_of_int 65" using assms(1) by simp
  then have t: "\<bar>?t - n\<bar> \<le> 64" by linarith
  then have b: "- 268435456 \<le> ?t" "?t < 268435456" using assms(2) by linarith+
  then have "sint (signed_drop_bit 13 (to_int32 y)) = ?t div 8192"
    by (simp add: to_int32_def sint_signed_drop_bit_eq drop_bit_eq_div sint_int32)
  moreover have "- 32768 \<le> ?t div 8192" "?t div 8192 < 32768" using b by linarith+
  ultimately have "sint (ucast (signed_drop_bit 13 (to_int32 y)) :: int16) = ?t div 8192" by (simp add: ucast_word_of_sint)
  then show ?thesis using t by linarith
qed

lemma shifted_same:
  assumes "\<bar>n\<bar> \<le> 268427264"
  shows "sint (ucast (signed_drop_bit 13 (to_int32 (of_int n))) :: int16) = n div 8192"
proof -
  have "trunc (of_int n) = n" by (simp add: trunc_def)
  moreover have "- 2147483648 \<le> n" "n < 2147483648" using assms by linarith+
  ultimately have "sint (signed_drop_bit 13 (to_int32 (of_int n))) = n div 8192"
    by (simp add: to_int32_def sint_signed_drop_bit_eq drop_bit_eq_div sint_int32)
  moreover have "- 32768 \<le> n div 8192" "n div 8192 < 32768" using assms by linarith+
  ultimately show ?thesis by (simp add: ucast_word_of_sint)
qed

context float_rounding
begin

lemma fl_sum_near:
  fixes p q :: int
  assumes "\<bar>p\<bar> \<le> 134213632" "\<bar>q\<bar> \<le> 134213632"
  shows "\<bar>fl (fl (of_int p) - fl (of_int q)) - of_int (p - q)\<bar> \<le> 64"
    and "\<bar>fl (fl (of_int p) + fl (of_int q)) - of_int (p + q)\<bar> \<le> 64"
proof -
  have r: "\<bar>fl x - x\<bar> \<le> 17" if "\<bar>x\<bar> \<le> 270000000" for x
    using fl_within [OF that] by simp
  have b: "\<bar>real_of_int p\<bar> \<le> 134213632" "\<bar>real_of_int q\<bar> \<le> 134213632" using assms by linarith+
  then have p: "\<bar>fl (of_int p) - of_int p\<bar> \<le> 17" and q: "\<bar>fl (of_int q) - of_int q\<bar> \<le> 17" by (intro r; linarith)+
  then have "\<bar>fl (of_int p) - fl (of_int q)\<bar> \<le> 270000000" "\<bar>fl (of_int p) + fl (of_int q)\<bar> \<le> 270000000"
    using b by linarith+
  from r [OF this(1)] r [OF this(2)] p q
  show "\<bar>fl (fl (of_int p) - fl (of_int q)) - of_int (p - q)\<bar> \<le> 64"
    "\<bar>fl (fl (of_int p) + fl (of_int q)) - of_int (p + q)\<bar> \<le> 64"
    by (simp, linarith)+
qed

lemma fl_sum_exact:
  fixes p q :: int
  assumes "\<bar>p\<bar> \<le> 8388608" "\<bar>q\<bar> \<le> 8388608"
  shows "fl (fl (of_int p) - fl (of_int q)) = of_int (p - q)" "fl (fl (of_int p) + fl (of_int q)) = of_int (p + q)"
proof -
  have "fl (of_int p) = of_int p" "fl (of_int q) = of_int q" using assms by (simp_all add: fl_int)
  moreover have "fl (of_int (p - q)) = of_int (p - q)" "fl (of_int (p + q)) = of_int (p + q)" using assms by (intro fl_int; simp)+
  ultimately show "fl (fl (of_int p) - fl (of_int q)) = of_int (p - q)" "fl (fl (of_int p) + fl (of_int q)) = of_int (p + q)"
    by simp_all
qed

end

context avx_float
begin

text \<open>Each lane is within one unit of the scalar product, and equal to it when the products have
  at most 23 bits.\<close>

lemma float_vector:
  assumes "length dest = 8" "i < 8" "cbound A (a ! i)" "cbound B (b ! i)" "A * B \<le> 134213632"
  defines "d \<equiv> Mult_complex32Vector fl mul_ps add_ps sub_ps a b dest ! i"
    and "c \<equiv> multForComplex32 13 (a ! i) (b ! i)"
  shows "\<bar>sint (re d) - sint (re c)\<bar> \<le> 1" "\<bar>sint (im d) - sint (im c)\<bar> \<le> 1"
    and "A * B \<le> 8388608 \<Longrightarrow> d = c"
proof -
  define x y u v where "x = sint (re (a ! i))" and "y = sint (im (a ! i))" and "u = sint (re (b ! i))" and "v = sint (im (b ! i))"
  note xyuv = x_def y_def u_def v_def
  have p: "\<bar>x * u\<bar> \<le> A * B" "\<bar>y * v\<bar> \<le> A * B" "\<bar>x * v\<bar> \<le> A * B" "\<bar>y * u\<bar> \<le> A * B"
    using assms(3,4) by (auto simp: cbound_def xyuv intro!: prod_bound)
  then have q: "\<bar>x * u\<bar> \<le> 134213632" "\<bar>y * v\<bar> \<le> 134213632" "\<bar>x * v\<bar> \<le> 134213632" "\<bar>y * u\<bar> \<le> 134213632"
    using assms(5) by linarith+
  have d: "re d = ucast (signed_drop_bit 13 (to_int32 (fl (fl (of_int (x * u)) - fl (of_int (y * v))))))"
    "im d = ucast (signed_drop_bit 13 (to_int32 (fl (fl (of_int (x * v)) + fl (of_int (y * u))))))"
    by (simp_all add: d_def float_lane [OF assms(1,2)] Let_def xyuv)
  have "A * B < 2 ^ 27" using assms(5) by simp
  note c = mult_exact [OF assms(3,4) this, folded c_def xyuv]
  have s: "\<bar>x * u - y * v\<bar> \<le> 268427264" "\<bar>x * v + y * u\<bar> \<le> 268427264" using q by linarith+
  show "\<bar>sint (re d) - sint (re c)\<bar> \<le> 1" unfolding d c
    by (rule shifted_int16 [OF fl_sum_near(1) [OF q(1,2)] s(1)])
  show "\<bar>sint (im d) - sint (im c)\<bar> \<le> 1" unfolding d c
    by (rule shifted_int16 [OF fl_sum_near(2) [OF q(3,4)] s(2)])
  show "d = c" if "A * B \<le> 8388608"
  proof -
    have r: "\<bar>x * u\<bar> \<le> 8388608" "\<bar>y * v\<bar> \<le> 8388608" "\<bar>x * v\<bar> \<le> 8388608" "\<bar>y * u\<bar> \<le> 8388608"
      using p that by linarith+
    have "sint (re d) = sint (re c)" "sint (im d) = sint (im c)"
      unfolding d c fl_sum_exact(1) [OF r(1,2)] fl_sum_exact(2) [OF r(3,4)] by (intro shifted_same s)+
    then show ?thesis by (simp add: complex32.equality signed_word_eqI)
  qed
qed

end

section \<open>The eight by eight product\<close>

lemma upt_1_8: "[1..<8] = [1, 2, 3, 4, 5, 6, 7 :: nat]"
  by (simp add: upt_rec)

lemma fold_lanes:
  assumes "length t = n" "\<And>k. length (part k) = n" "m < n"
  shows "fold (\<lambda>k t. map2 (+) t (part k)) ks t ! m = fold (\<lambda>k s. s + part k ! m) ks (t ! m :: int16)"
  using assms(1) by (induction ks arbitrary: t) (simp_all add: assms(2,3))

lemma pairs_nth:
  assumes "j < 8"
  shows "concat (map (\<lambda>i. [re (c i (0 :: nat)), im (c i 0), re (c i 1), im (c i 1)]) [0..<4]) ! (2 * j) = re (c (j div 2) (j mod 2))"
    and "concat (map (\<lambda>i. [re (c i (0 :: nat)), im (c i 0), re (c i 1), im (c i 1)]) [0..<4]) ! (2 * j + 1) = im (c (j div 2) (j mod 2))"
proof -
  have "j \<in> set [0..<8]" using assms by simp
  then show "concat (map (\<lambda>i. [re (c i (0 :: nat)), im (c i 0), re (c i 1), im (c i 1)]) [0..<4]) ! (2 * j) = re (c (j div 2) (j mod 2))"
    "concat (map (\<lambda>i. [re (c i (0 :: nat)), im (c i 0), re (c i 1), im (c i 1)]) [0..<4]) ! (2 * j + 1) = im (c (j div 2) (j mod 2))"
    unfolding upt_8 upt_4 by auto
qed

lemma sum8_sint:
  fixes u :: "nat \<Rightarrow> int16"
  assumes "\<And>k. k < 8 \<Longrightarrow> \<bar>sint (u k)\<bar> \<le> 4095"
  shows "sint (fold (\<lambda>k s. s + u k) [1..<8] (u 0)) = (\<Sum>k < 8. sint (u k))"
proof -
  have w: "fold (\<lambda>k s. s + u k) ks s = word_of_int (sint s + (\<Sum>k\<leftarrow>ks. sint (u k)))" for ks s
    by (induction ks arbitrary: s) (simp_all add: add.assoc)
  have e: "sint (u 0) + (\<Sum>k\<leftarrow>[1..<8]. sint (u k)) = (\<Sum>k < 8. sint (u k))"
    unfolding upt_1_8 by (simp add: lessThan_nat_numeral lessThan_Suc)
  have "\<bar>\<Sum>k < 8. sint (u k)\<bar> \<le> (\<Sum>k < (8 :: nat). 4095)"
    using assms by (intro order_trans [OF sum_abs] sum_mono) simp
  then have "sint (word_of_int (\<Sum>k < 8. sint (u k)) :: int16) = (\<Sum>k < 8. sint (u k))"
    by (intro sint_int16) simp_all
  then show ?thesis unfolding w e .
qed

lemma sum8_close:
  fixes u v :: "nat \<Rightarrow> int16"
  assumes "\<And>k. k < 8 \<Longrightarrow> \<bar>sint (u k)\<bar> \<le> 4095 \<and> \<bar>sint (v k)\<bar> \<le> 4095 \<and> \<bar>sint (u k) - sint (v k)\<bar> \<le> 4"
  shows "\<bar>sint (fold (\<lambda>k s. s + u k) [1..<8] (u 0)) - sint (fold (\<lambda>k s. s + v k) [0..<8] 0)\<bar> \<le> 32"
proof -
  have z: "fold (\<lambda>k s. s + v k) [0..<8] 0 = fold (\<lambda>k s. s + v k) [1..<8] (v 0)" unfolding upt_8 upt_1_8 by simp
  have "\<bar>\<Sum>k < 8. sint (u k) - sint (v k)\<bar> \<le> (\<Sum>k < (8 :: nat). 4)"
    using assms by (intro order_trans [OF sum_abs] sum_mono) simp
  moreover have "sint (fold (\<lambda>k s. s + u k) [1..<8] (u 0)) = (\<Sum>k < 8. sint (u k))"
    "sint (fold (\<lambda>k s. s + v k) [1..<8] (v 0)) = (\<Sum>k < 8. sint (v k))"
    using assms by (intro sum8_sint; simp)+
  ultimately show ?thesis unfolding z by (simp only: sum_subtractf) simp
qed

lemma scalar_sums:
  fixes Q :: "nat \<Rightarrow> complex32"
  shows "re (fold (\<lambda>i temp. addForComplex32 temp (Q i)) is s) = fold (\<lambda>i s. s + re (Q i)) is (re s)"
    and "im (fold (\<lambda>i temp. addForComplex32 temp (Q i)) is s) = fold (\<lambda>i s. s + im (Q i)) is (im s)"
  by (induction "is" arbitrary: s) (simp_all add: addForComplex32_def)

context avx2
begin

lemma entry8:
  fixes h :: "complex32 list list" and x :: "complex32 list"
  assumes "length dest = 8" "j < 8"
  defines "Q \<equiv> \<lambda>k. Mult_complex32Vector_2 mulhrs add sub
      (map (\<lambda>n. h ! (n mod 8) ! (j div 2 * 2 + n div 8)) [0..<16]) (map (\<lambda>n. x ! (n mod 8)) [0..<16])
      (replicate 16 (cpx 0 0)) ! (8 * (j mod 2) + k)"
  shows "re (Matrix_Mult_AVX2_8 mulhrs add sub h x dest ! j) = fold (\<lambda>k s. s + re (Q k)) [1..<8] (re (Q 0))"
    and "im (Matrix_Mult_AVX2_8 mulhrs add sub h x dest ! j) = fold (\<lambda>k s. s + im (Q k)) [1..<8] (im (Q 0))"
proof -
  define c where "c i = Mult_complex32Vector_2 mulhrs add sub (map (\<lambda>n. h ! (n mod 8) ! (i * 2 + n div 8)) [0..<16])
    (map (\<lambda>n. x ! (n mod 8)) [0..<16]) (replicate 16 (cpx 0 0))" for i
  define part where "part k = concat (map (\<lambda>i. [re (c i ! (8 * 0 + k)), im (c i ! (8 * 0 + k)), re (c i ! (8 * 1 + k)), im (c i ! (8 * 1 + k))]) [0..<4])" for k
  have Q: "Q k = c (j div 2) ! (8 * (j mod 2) + k)" for k by (simp add: Q_def c_def)
  have len: "length (part k) = 16" for k by (simp add: part_def upt_4)
  have a: "add = (+)" by (intro ext) (rule add)
  let ?a = "map (\<lambda>i. map (\<lambda>j. h ! (j mod 8) ! (i * 2 + j div 8)) [0..<16]) [0..<4]"
  let ?b = "map (\<lambda>i. map (\<lambda>j. x ! (j mod 8)) [0..<16]) [0..<4]"
  have "map (\<lambda>i. Mult_complex32Vector_2 mulhrs add sub (?a ! i) (?b ! i) (replicate 16 (cpx 0 0))) [0..<4] = map c [0..<4]"
    by (rule map_cong) (simp_all add: c_def)
  moreover have "concat (map (\<lambda>i. [re (map c [0..<4] ! i ! k), im (map c [0..<4] ! i ! k),
      re (map c [0..<4] ! i ! (8 + k)), im (map c [0..<4] ! i ! (8 + k))]) [0..<4]) = part k" for k
    unfolding part_def by (intro arg_cong [where f = concat] map_cong) simp_all
  ultimately have M: "Matrix_Mult_AVX2_8 mulhrs add sub h x dest
      = map (\<lambda>i. \<lparr>re = fold (\<lambda>k t. map2 (+) t (part k)) [1..<8] (part 0) ! (2 * i),
          im = fold (\<lambda>k t. map2 (+) t (part k)) [1..<8] (part 0) ! (2 * i + 1)\<rparr>) [0..<8]"
    using assms(1) by (simp only: Matrix_Mult_AVX2_8_def Let_def a fold_fill_const)
  have n: "part k ! (2 * j) = re (Q k)" "part k ! (2 * j + 1) = im (Q k)" for k
    unfolding part_def Q by (rule pairs_nth [OF assms(2)])+
  have b: "2 * j < 16" "2 * j + 1 < 16" using assms(2) by simp_all
  show "re (Matrix_Mult_AVX2_8 mulhrs add sub h x dest ! j) = fold (\<lambda>k s. s + re (Q k)) [1..<8] (re (Q 0))"
    "im (Matrix_Mult_AVX2_8 mulhrs add sub h x dest ! j) = fold (\<lambda>k s. s + im (Q k)) [1..<8] (im (Q 0))"
    unfolding M using assms(2) fold_lanes [OF len len b(1), where ks = "[1..<8]"] fold_lanes [OF len len b(2), where ks = "[1..<8]"] by (simp_all only: n nth_map_upt) (simp_all add: n)
qed

lemma matrix8_error:
  fixes h :: "complex32 list list" and x :: "complex32 list"
  assumes "length dest = 8" "j < 8"
    and "\<forall>i < 8. cbound A (h ! i ! j)" "\<forall>i < 8. cbound B (x ! i)" "A * B \<le> 2 ^ 24 - 2 ^ 15"
  defines "d \<equiv> Matrix_Mult_AVX2_8 mulhrs add sub h x dest ! j"
    and "c \<equiv> fold (\<lambda>i temp. addForComplex32 temp (multForComplex32 13 (h ! i ! j) (x ! i))) [0..<8] (cpx 0 0)"
  shows "\<bar>sint (re d) - sint (re c)\<bar> \<le> 32" "\<bar>sint (im d) - sint (im c)\<bar> \<le> 32"
proof -
  define a b where "a = map (\<lambda>n. h ! (n mod 8) ! (j div 2 * 2 + n div 8)) [0..<16]" and "b = map (\<lambda>n. x ! (n mod 8)) [0..<16]"
  define Q where "Q k = Mult_complex32Vector_2 mulhrs add sub a b (replicate 16 (cpx 0 0)) ! (8 * (j mod 2) + k)" for k
  define R where "R k = multForComplex32 13 (h ! k ! j) (x ! k)" for k
  have close: "\<bar>sint (re (Q k))\<bar> \<le> 4095 \<and> \<bar>sint (re (R k))\<bar> \<le> 4095 \<and> \<bar>sint (re (Q k)) - sint (re (R k))\<bar> \<le> 4"
    "\<bar>sint (im (Q k))\<bar> \<le> 4095 \<and> \<bar>sint (im (R k))\<bar> \<le> 4095 \<and> \<bar>sint (im (Q k)) - sint (im (R k))\<bar> \<le> 4" if k: "k < 8" for k
  proof -
    let ?n = "8 * (j mod 2) + k"
    have "j mod 2 < 2" by simp
    then have n: "?n < 16" "?n mod 8 = k" "?n div 8 = j mod 2" using k by (linarith, simp_all)
    then have e: "a ! ?n = h ! k ! j" "b ! ?n = x ! k" by (simp_all add: a_def b_def)
    have bd: "cbound A (a ! ?n)" "cbound B (b ! ?n)" unfolding e using assms(3,4) k by simp_all
    have m: "length (replicate 16 (cpx 0 0)) = 16" "A * B \<le> 32768 * 511" "(511 :: int) \<le> 4095"
      using assms(5) by simp_all
    note v = mult_vector [OF m(1) n(1) bd m(2,3), folded Q_def, unfolded e, folded R_def]
    show "\<bar>sint (re (Q k))\<bar> \<le> 4095 \<and> \<bar>sint (re (R k))\<bar> \<le> 4095 \<and> \<bar>sint (re (Q k)) - sint (re (R k))\<bar> \<le> 4"
      using v(1) by linarith
    show "\<bar>sint (im (Q k))\<bar> \<le> 4095 \<and> \<bar>sint (im (R k))\<bar> \<le> 4095 \<and> \<bar>sint (im (Q k)) - sint (im (R k))\<bar> \<le> 4"
      using v(2) by linarith
  qed
  have d: "re d = fold (\<lambda>k s. s + re (Q k)) [1..<8] (re (Q 0))" "im d = fold (\<lambda>k s. s + im (Q k)) [1..<8] (im (Q 0))"
    unfolding d_def Q_def a_def b_def by (rule entry8 [OF assms(1,2)])+
  have c: "re c = fold (\<lambda>k s. s + re (R k)) [0..<8] 0" "im c = fold (\<lambda>k s. s + im (R k)) [0..<8] 0"
    unfolding c_def R_def [symmetric] scalar_sums by (simp_all only: cpx_def complex32.simps of_int_0 word_of_int_0)
  show "\<bar>sint (re d) - sint (re c)\<bar> \<le> 32" unfolding d c by (rule sum8_close) (rule close(1))
  show "\<bar>sint (im d) - sint (im c)\<bar> \<le> 32" unfolding d c by (rule sum8_close) (rule close(2))
qed

end

end
