(* ===== verification/Spec2Isabelle.thy ===== *)
theory Spec2Isabelle
  imports Spsc Main_test_2 Main_test Main1 Main2 Symbols Frame Clients FloatVec
begin

text \<open>
  A verification development for the CBB 802.11ax transmitter, a C program that builds the frames
  of a four-antenna transmitter in the 242-tone format and runs its stages as threads on top of
  DPDK.

  \<^bold>\<open>The program.\<close> A frame starts as the payload of \<open>APEP_LEN\<close> bytes. \<open>GenInit\<close> derives its geometry
  from the globals and the rate table; \<open>GenDataAndScramble\<close> puts service and padding bits around
  it and scrambles it; \<open>BCC_encoder\<close> (plain build) or \<open>BCC_encoder_OPT\<close> (build with
  \<open>OPTIMIZATION\<close>) codes it, punctures the code and deals it out to four interleaved streams;
  \<open>modulate\<close> and \<open>PilotAdd_SubcarMap\<close> (plain) or \<open>modulate_mapping\<close> (optimised) turn the streams
  into constellation points on tones with pilots; \<open>Data_CSD\<close> turns the tones of each antenna by
  the phases of its cyclic shift. \<open>generatePreambleAndHeLTF_csd\<close> makes the fields in front of the
  data, once. The programs \<^verbatim>\<open>maindpdk_test_2.c\<close> (the one the repository runs),
  \<^verbatim>\<open>maindpdk_test.c\<close> and \<^verbatim>\<open>maindpdk1.c\<close> allocate a pool of packet buffers and one ring between any two
  stages, and start one thread per stage or part of one; a buffer travels along the rings, each
  thread works on it in place, and the last one returns it to the pool and counts it.
  \<^verbatim>\<open>maindpdk2.c\<close> has eight workers instead that each run all stages on a buffer. \<^verbatim>\<open>process_data.c\<close> has the
  same chain without threads, for a whole frame on plain arrays. The routines in the time domain
  are the inverse transform, prefixes and windows: those of the preamble are called by \<open>main\<close> of
  \<^verbatim>\<open>maindpdk1.c\<close> before its threads start; those of the data only by the last thread of that
  program, which never gets a buffer.

  \<^bold>\<open>The theories\<close>, in the order they build on one another:

  \<^item> \<open>Prelude\<close>: machine types, array writes and filling loops, bits of bytes; the collections
    \<open>loop_simps\<close>, \<open>bit_rules\<close>, \<open>param_simps\<close>.
  \<^item> \<open>Params\<close>: \<^verbatim>\<open>VarINIT/globalVarINIT.c\<close>, \<^verbatim>\<open>process_data/mcs_table_for_20M.c\<close>, \<^verbatim>\<open>GenInit.c\<close>.
    The geometry holds all bits of a frame, in the least number of symbols, without overflow.
  \<^item> \<open>Scramble\<close>: \<^verbatim>\<open>GenDataAndScramble.c\<close>, both builds. A locale for byte machines that realise
    the shift register; the table-driven build equals the bitwise one, the output satisfies the
    recurrence of the scrambler, and descrambling recovers the payload.
  \<^item> \<open>Bcc\<close>: \<^verbatim>\<open>BCCencode/ccoding_byte.c\<close> and \<open>BCC_encoder_OPT\<close>. The locale \<open>byte_coder\<close> states
    what one byte of encoding must do; the direct encoder and the table interpret it, so both are
    the punctured convolutional code of the two generator polynomials. One byte more than the
    scrambled frame is read.
  \<^item> \<open>Interleave\<close>: \<^verbatim>\<open>BCC_encoder.c\<close> and the index table of \<^verbatim>\<open>modulate_opt.c\<close>. The three
    permutations are bijections, the table is the direct interleaver, a deinterleaver inverts it.
  \<^item> \<open>Complex32\<close>: \<^verbatim>\<open>typeDef/commonStructure.c\<close> on 16-bit complex numbers and
    \<^verbatim>\<open>intrinsics_interface_v2.c\<close>. The AVX2 intrinsics are arguments with the locale \<open>avx2\<close> for
    Intel's documentation, interpreted on the lanes that documentation defines; the vector
    products are close to the scalar ones.
  \<^item> \<open>Pilots\<close>, \<open>Modulate\<close>, \<open>ModulateOpt\<close>: \<^verbatim>\<open>PilotAdd_SubcarMap.c\<close>, \<^verbatim>\<open>modulate.c\<close>,
    \<^verbatim>\<open>modulate_opt.c\<close>. Labels and energy of the constellations, the layout of the tones, and the
    refinement of the plain chain by the table-driven mapper.
  \<^item> \<open>Floats\<close>: floating point on real numbers. The rounding to \<open>float\<close> and to \<open>double\<close> and the library's
    \<open>cos\<close> and \<open>sin\<close> are a parameter (record \<open>fpu\<close>), with the locales \<open>float_rounding\<close> and \<open>float_unit\<close> for what
    IEEE 754 and the C library document, interpreted on rounding to the nearest number of 24 and
    53 binary digits (\<open>ieee\<close>).
  \<^item> \<open>Csd\<close>: \<^verbatim>\<open>csdForPreamble.c\<close>, \<^verbatim>\<open>csdForHeLTF.c\<close>, \<^verbatim>\<open>Data_CSD.c\<close>, with the phases rounded where the code
    rounds them. The vector builds are within a few units of the scalar ones; how far the angles
    are from the constants in the code, and the energy of a phase.
  \<^item> \<open>Preamble\<close>: the routines of \<^verbatim>\<open>Process\<close> that build the signal field and the training fields.
  \<^item> \<open>Fft\<close>, \<open>Ifft\<close>: \<^verbatim>\<open>IFFT/ifft.c\<close>. \<open>Fft\<close> has the reordering \<open>FFT_remap\<close>, a recursion that need not
    end (\<open>partial_function\<close>), and the butterfly passes over any operations; the passes equal the
    transform by halves, and with exact complex arithmetic the direct transform \<open>IDFT\<close>. \<open>Ifft\<close> has
    the number format of the code on real numbers: the rounding \<open>fl\<close> to \<open>float\<close> is a parameter under
    the locale \<open>float_rounding\<close>; \<open>double\<close> is taken as exact. It is shown for which sizes a call
    returns, and that the result is within 2 of the exact transform when the inputs are whole and
    not too large in sum.
  \<^item> \<open>Ofdm\<close>: \<^verbatim>\<open>IFFT/ifftShiftandIFFTPreamble.c\<close> and \<^verbatim>\<open>Process/process_after_csd\<close>: prefixes and windows
    of the fields of the preamble, and how far their samples are from the exact sum of the waves.
  \<^item> \<open>Symbols\<close>: \<^verbatim>\<open>IFFT/ifftShiftandIFFTData.c\<close>, \<^verbatim>\<open>addCPforData.c\<close> and \<^verbatim>\<open>csd_data_IDFT.c\<close>: which tone and
    which sample of the transform each sample of the data comes from.
  \<^item> \<open>FloatVec\<close>: what \<^verbatim>\<open>typeDef/commonStructure.c\<close> and \<^verbatim>\<open>intrinsics_interface_v2.c\<close> do in single
    precision: a division is within two units of the exact quotient, a lane of the float product
    within one unit of the scalar one and equal to it below 24 bits; and the eight by eight product.
    No stage calls these.
  \<^item> \<open>Ring\<close>: \<^verbatim>\<open>librte_ring\<close> of the DPDK copy. The locale \<open>queue\<close> is its contract (a bounded list),
    interpreted on the enqueue and dequeue functions of every mode; \<open>Spsc\<close>: one producer and one
    consumer interleaved at the grain of memory accesses, as a step relation with an invariant.
  \<^item> \<open>Mempool\<close>: \<^verbatim>\<open>librte_mempool\<close>, with per-core caches. The locale \<open>pool\<close> is its contract
    (a multiset of free objects).
  \<^item> \<open>Stages\<close>: the stage functions of the programs, on the bytes of one packet buffer.
  \<^item> \<open>Fair\<close>: runs along a schedule, fair schedules, and the locale \<open>fair_system\<close>, which turns a
    rank that ready threads lower into termination under every fair schedule; \<open>Network\<close>: the
    state the threads share, the loops they run as steps of one shared access each, the
    invariant, and the locales \<open>network\<close> and \<open>pipeline\<close> that extend \<open>fair_system\<close>; \<open>Startup\<close>: the
    creation of the pool and the rings, and the sizes several programs share.
  \<^item> \<open>Main_test_2\<close>, \<open>Main_test\<close>, \<open>Main1\<close>: the three programs as interpretations of \<open>pipeline\<close>. No
    buffer is lost or worked on twice, every buffer carries what the stages before make of the
    payload, and under every fair schedule all threads return after the stated number of frames.
  \<^item> \<open>Main2\<close>: the program \<^verbatim>\<open>maindpdk2.c\<close>, whose rings a thread may fill, as a step relation of its
    own and an interpretation of \<open>fair_system\<close>. No buffer is in two places, the reader enqueues only
    where there is room; the workers do not look, so that buffers are lost under some schedules,
    but under every fair schedule the program still ends with all frames counted, since at least
    255 buffers always remain. Every thread stays at a point of
    its own function, with rings and buffers of the program, and none is ever stuck.

  \<^item> \<open>Mbuf\<close>, \<open>Packet\<close>, \<open>Clients\<close>: \<^verbatim>\<open>librte_mbuf\<close>, the packet buffers, as headers in memory with links
    between segments, borrowed bytes and reference counts. \<open>Mbuf\<close> has allocation, attachment,
    freeing and cloning and the invariant of the counts, with the checks of headers that the
    configuration turns on (\<^verbatim>\<open>RTE_LIBRTE_MBUF_DEBUG\<close>), each of which ends the program when it fails;
    \<open>Packet\<close> the operations that add, remove,
    join and read bytes, as operations on the bytes of a packet; \<open>Clients\<close> the creation of a pool and
    every sequence of calls of its clients, and \<open>view\<close>, which shows that allocation there is what the
    stages of the programs see of it.
  \<^item> \<open>Receiver\<close>: the receiver of the format as a reference, which is not part of the repository:
    descrambling, decoding by cancelling the known past, deinterleaving and demapping. What the
    thread that maps a frame leaves in the buffer determines the payload, so that two payloads
    never give the same rows; the last coded bits depend on a byte the scrambler did not write.
  \<^item> \<open>Frame\<close>: \<open>GenerateData\<close> of \<^verbatim>\<open>process_data.c\<close> in the plain build, with the arrays it allocates
    as records of rows. What it computes in closed form, and that the threads of the programs
    compute the same frame up to rounding when its coded symbols have a whole number of bytes.

  Every property is a theorem after a text that starts with its number. Those with hypotheses are
  followed by a theorem \<open>..._witness\<close> at a concrete input: an index set, a pool and a memory layout
  for which the program starts, a payload of equal bytes with the parameters of the repository, or the
  interpretation of the intrinsics.

  \<^bold>\<open>How state and errors are modelled.\<close> C arrays are lists and a write is a list update; the result
  of an access outside a buffer is \<open>None\<close> where the code has no guard of its own. Integers have
  their C width where wrapping matters (bytes, 16-bit points, 32-bit ring indices); loop counters
  and sizes are naturals. Allocation succeeds. Loops with a bound are folds; the loops of the threads
  are step functions of one shared access each, a schedule says which thread moves next, and their
  termination is proved for every schedule in which each thread comes again and again. No fuel is
  used: \<open>FFT_remap\<close>, which need not return, is a \<open>partial_function\<close> with \<open>None\<close> for a call that runs
  for ever, and its properties state that it returns.

  \<^bold>\<open>Not modelled\<close>, and why:

  \<^item> \<^verbatim>\<open>simple_mp_5_17/maindpdk.c\<close>, a skeleton whose threads only print; \<^verbatim>\<open>mainbfBCC.c\<close>,
    \<^verbatim>\<open>ccoding_byte_copy.c\<close>: earlier versions that the build does not use.
  \<^item> reading the payload from a file, reading the clock, printing, writing test files, parsing of the
    command line by DPDK: input and output only.
  \<^item> \<open>GenerateData\<close> in the build with \<open>OPTIMIZATION\<close>: its parts are modelled one by one, but it hands
    separately allocated rows to routines that index one flat buffer, so that the call has no
    meaning to model.
  \<^item> the rest of the DPDK copy (drivers, the environment layer, its other libraries): third-party
    code that the program links but whose behaviour here is that of the ring, the pool and the
    packet buffer; of these, memory zones, assertions (empty at the configured log level), the
    cookies that the debug build keeps around the objects of a pool, and statistics are left out.
\<close>

end
